(* ===== verification/Agent_Prelude.thy ===== *)
theory Agent_Prelude
  imports Main "HOL-Library.AList" "HOL-Library.Sublist"
begin

text \<open>
  Shared vocabulary of the development.

  \<^item> JavaScript's insertion-ordered \<open>Map\<close> and plain objects are association lists with
    distinct keys: \<open>get\<close> is \<^const>\<open>map_of\<close>, \<open>set\<close> is \<^const>\<open>AList.update\<close> (an existing key
    keeps its place, a new one goes last) and \<open>delete\<close> is \<^const>\<open>AList.delete\<close>.
  \<^item> A call that may throw and that changes the world is a function
    \<open>'w \<Rightarrow> ('e + 'a) \<times> 'w\<close>: \<open>Inl\<close> is the thrown error, and the world it leaves is kept.
  \<^item> Strings are lists of code units below 256; the string functions below are the ones of
    JavaScript's standard library that the sources use.
\<close>

named_theorems jsmap "facts on insertion-ordered maps"
named_theorems effect "facts on effectful calls"
named_theorems jstring "facts on the string functions of the standard library"

section \<open>Insertion-ordered maps\<close>

type_synonym ('k, 'v) jsmap = "('k \<times> 'v) list"

abbreviation jkeys :: "('k, 'v) jsmap \<Rightarrow> 'k list" where
  "jkeys m \<equiv> map fst m"

abbreviation jvalues :: "('k, 'v) jsmap \<Rightarrow> 'v list" where
  "jvalues m \<equiv> map snd m"

abbreviation jset :: "'k \<Rightarrow> 'v \<Rightarrow> ('k, 'v) jsmap \<Rightarrow> ('k, 'v) jsmap" where
  "jset \<equiv> AList.update"

abbreviation jdelete :: "'k \<Rightarrow> ('k, 'v) jsmap \<Rightarrow> ('k, 'v) jsmap" where
  "jdelete \<equiv> AList.delete"

abbreviation jmap_ok :: "('k, 'v) jsmap \<Rightarrow> bool" where
  "jmap_ok m \<equiv> distinct (jkeys m)"

lemma jget_jset [jsmap, simp]: "map_of (jset k v m) k' = (if k' = k then Some v else map_of m k')"
  by (simp add: update_conv')

lemma jget_jdelete [jsmap, simp]: "map_of (jdelete k m) k' = (if k' = k then None else map_of m k')"
  by (simp add: delete_conv')

lemma jmap_ok_jset [jsmap, intro, simp]: "jmap_ok m \<Longrightarrow> jmap_ok (jset k v m)"
  by (rule distinct_update)

lemma jmap_ok_jdelete [jsmap, intro, simp]: "jmap_ok m \<Longrightarrow> jmap_ok (jdelete k m)"
  by (rule distinct_delete)

lemma jkeys_jset [jsmap]: "jkeys (jset k v m) = (if k \<in> set (jkeys m) then jkeys m else jkeys m @ [k])"
  by (induction m) auto

lemma set_jkeys_jset [jsmap, simp]: "fst ` set (jset k v m) = insert k (fst ` set m)"
  by (induction m) auto

lemma jkeys_jdelete [jsmap]: "jkeys (jdelete k m) = filter (\<lambda>x. x \<noteq> k) (jkeys m)"
  by (induction m) auto

lemma set_jkeys_jdelete [jsmap, simp]: "fst ` set (jdelete k m) = fst ` set m - {k}"
  by (induction m) auto

lemma jget_eq_None [jsmap]: "map_of m k = None \<longleftrightarrow> k \<notin> set (jkeys m)"
  by (simp add: map_of_eq_None_iff)

lemma jget_iff_mem [jsmap]: "jmap_ok m \<Longrightarrow> map_of m k = Some v \<longleftrightarrow> (k, v) \<in> set m"
  by (rule map_of_eq_Some_iff)

lemma jdelete_absent [jsmap]: "k \<notin> set (jkeys m) \<Longrightarrow> jdelete k m = m"
  by (induction m) auto

lemma jset_absent [jsmap]: "k \<notin> fst ` set m \<Longrightarrow> jset k v m = m @ [(k, v)]"
  by (induction m) auto

text \<open>An interface for keyed stores: what a lookup returns after each update.\<close>

locale keyed_store =
  fixes look :: "'s \<Rightarrow> 'k \<Rightarrow> 'v option"
    and put :: "'k \<Rightarrow> 'v \<Rightarrow> 's \<Rightarrow> 's"
    and drop_key :: "'k \<Rightarrow> 's \<Rightarrow> 's"
  assumes look_put: "look (put k v s) k' = (if k' = k then Some v else look s k')"
    and look_drop: "look (drop_key k s) k' = (if k' = k then None else look s k')"
begin

lemma look_put_same: "look (put k v s) k = Some v"
  by (simp add: look_put)

lemma look_put_put: "look (put k v (put k u s)) = look (put k v s)"
  by (simp add: look_put fun_eq_iff)

lemma look_put_commute: "j \<noteq> k \<Longrightarrow> look (put j u (put k v s)) = look (put k v (put j u s))"
  by (auto simp: look_put fun_eq_iff)

lemma look_drop_put: "look (drop_key k (put k v s)) = look (drop_key k s)"
  by (simp add: look_put look_drop fun_eq_iff)

lemma look_frame: "k' \<noteq> k \<Longrightarrow> look (put k v s) k' = look s k'"
  by (simp add: look_put)

end

interpretation js: keyed_store map_of jset jdelete
  by unfold_locales simp_all

section \<open>Effectful calls\<close>

type_synonym ('w, 'e, 'a) eff = "'w \<Rightarrow> ('e + 'a) \<times> 'w"

definition ret :: "'a \<Rightarrow> ('w, 'e, 'a) eff" where
  "ret a = (\<lambda>w. (Inr a, w))"

definition throwing :: "'e \<Rightarrow> ('w, 'e, 'a) eff" where
  "throwing e = (\<lambda>w. (Inl e, w))"

definition andthen :: "('w, 'e, 'a) eff \<Rightarrow> ('a \<Rightarrow> ('w, 'e, 'b) eff) \<Rightarrow> ('w, 'e, 'b) eff" where
  "andthen m f = (\<lambda>w. case m w of (Inl e, w') \<Rightarrow> (Inl e, w') | (Inr a, w') \<Rightarrow> f a w')"

lemma andthen_ret [effect, simp]: "andthen (ret a) f = f a"
  by (simp add: andthen_def ret_def)

lemma andthen_throwing [effect, simp]: "andthen (throwing e) f = throwing e"
  by (simp add: andthen_def throwing_def)

lemma ret_apply [effect]: "ret a w = (Inr a, w)"
  by (simp add: ret_def)

lemma throwing_apply [effect]: "throwing e w = (Inl e, w)"
  by (simp add: throwing_def)

lemma andthen_apply [effect]:
  "andthen m f w = (case fst (m w) of Inl e \<Rightarrow> (Inl e, snd (m w)) | Inr a \<Rightarrow> f a (snd (m w)))"
  by (simp add: andthen_def split: prod.splits sum.splits)

lemma andthen_Inr [effect]:
  "andthen m f w = (Inr b, w') \<longleftrightarrow> (\<exists>a v. m w = (Inr a, v) \<and> f a v = (Inr b, w'))"
  by (auto simp: andthen_def split: prod.splits sum.splits)

lemma andthen_assoc [effect]: "andthen (andthen m f) g = andthen m (\<lambda>a. andthen (f a) g)"
  by (rule ext) (auto simp: andthen_def split: prod.splits sum.splits)

lemma andthen_ret_right [effect, simp]: "andthen m ret = m"
  by (rule ext) (auto simp: andthen_def ret_def split: prod.splits sum.splits)

lemma andthen_cong: "(\<And>a. f a = g a) \<Longrightarrow> andthen m f = andthen m g"
  by (rule arg_cong [where f = "andthen m"]) (rule ext)

text \<open>A property of every value a call returns.\<close>

definition ensures :: "('a \<Rightarrow> bool) \<Rightarrow> ('w, 'e, 'a) eff \<Rightarrow> bool" where
  "ensures P m \<longleftrightarrow> (\<forall>w a w'. m w = (Inr a, w') \<longrightarrow> P a)"

lemma ensures_ret [effect, simp]: "ensures P (ret a) \<longleftrightarrow> P a"
  by (simp add: ensures_def ret_def)

lemma ensures_throwing [effect, simp]: "ensures P (throwing e)"
  by (simp add: ensures_def throwing_def)

lemma ensures_andthen [effect]: "(\<And>a. ensures P (f a)) \<Longrightarrow> ensures P (andthen m f)"
  by (auto simp: ensures_def andthen_Inr)

lemma ensures_andthen_strong [effect]:
  "ensures Q m \<Longrightarrow> (\<And>a. Q a \<Longrightarrow> ensures P (f a)) \<Longrightarrow> ensures P (andthen m f)"
  unfolding ensures_def andthen_Inr by blast

lemma ensuresD: "ensures P m \<Longrightarrow> m w = (Inr a, w') \<Longrightarrow> P a"
  unfolding ensures_def by blast

lemma andthen_InrE [elim]:
  assumes "andthen m f w = (Inr b, w')"
  obtains a v where "m w = (Inr a, v)" and "f a v = (Inr b, w')"
  using assms by (auto simp: andthen_Inr)

lemma andthen_sumE:
  assumes "andthen m (case_sum f g) w = (Inr b, w')"
  obtains (left) a v where "m w = (Inr (Inl a), v)" and "f a v = (Inr b, w')"
    | (right) a v where "m w = (Inr (Inr a), v)" and "g a v = (Inr b, w')"
  using assms by (auto simp: andthen_Inr split: sum.splits) (metis sum.exhaust sum.simps(5,6))

section \<open>Strings of the standard library\<close>

text \<open>\<open>String.prototype.trim\<close>: white space and line terminators among the code units below 256.\<close>

definition js_space :: "char \<Rightarrow> bool" where
  "js_space c \<longleftrightarrow> c \<in> set [CHR 0x09, CHR 0x0A, CHR 0x0B, CHR 0x0C, CHR 0x0D, CHR 0x20, CHR 0xA0]"

definition js_trim :: "string \<Rightarrow> string" where
  "js_trim s = rev (dropWhile js_space (rev (dropWhile js_space s)))"

text \<open>\<open>String.prototype.toLowerCase\<close> on the same range.\<close>

definition js_lower_char :: "char \<Rightarrow> char" where
  "js_lower_char c =
     (let n = of_char c :: nat
      in if (65 \<le> n \<and> n \<le> 90) \<or> (192 \<le> n \<and> n \<le> 222 \<and> n \<noteq> 215) then char_of (n + 32) else c)"

definition js_lower :: "string \<Rightarrow> string" where
  "js_lower s = map js_lower_char s"

text \<open>\<open>indexOf\<close> of one character: \<open>None\<close> is the code's \<open>-1\<close>.\<close>

fun index_of :: "char \<Rightarrow> string \<Rightarrow> nat option" where
  "index_of c [] = None"
| "index_of c (x # xs) = (if x = c then Some 0 else map_option Suc (index_of c xs))"

text \<open>\<open>split\<close> on one character: always at least one piece.\<close>

fun split_on :: "char \<Rightarrow> string \<Rightarrow> string list" where
  "split_on c [] = [[]]"
| "split_on c (x # xs) =
     (if x = c then [] # split_on c xs
      else (case split_on c xs of [] \<Rightarrow> [[x]] | p # ps \<Rightarrow> (x # p) # ps))"

text \<open>\<open>String(n)\<close> of a natural number.\<close>

definition digit_char :: "nat \<Rightarrow> char" where
  "digit_char d = char_of (48 + d)"

fun js_of_nat :: "nat \<Rightarrow> string" where
  "js_of_nat n = (if n < 10 then [digit_char n] else js_of_nat (n div 10) @ [digit_char (n mod 10)])"

declare js_of_nat.simps [simp del]

definition digit_value :: "char \<Rightarrow> nat option" where
  "digit_value c = (let n = of_char c :: nat in if 48 \<le> n \<and> n \<le> 57 then Some (n - 48) else None)"

text \<open>\<open>parseInt\<close> of a string of decimal digits; \<^const>\<open>None\<close> for any other string.\<close>

fun digits_value :: "nat \<Rightarrow> string \<Rightarrow> nat option" where
  "digits_value acc [] = Some acc"
| "digits_value acc (c # cs) = (case digit_value c of Some d \<Rightarrow> digits_value (10 * acc + d) cs | None \<Rightarrow> None)"

definition nat_of_js :: "string \<Rightarrow> nat option" where
  "nat_of_js s = (if s = [] then None else digits_value 0 s)"

lemma digit_value_char [jstring, simp]: "d < 10 \<Longrightarrow> digit_value (digit_char d) = Some d"
  by (simp add: digit_value_def digit_char_def of_char_of Let_def)

lemma digits_value_append [jstring]:
  "digits_value acc (xs @ ys) = (case digits_value acc xs of Some v \<Rightarrow> digits_value v ys | None \<Rightarrow> None)"
  by (induction xs arbitrary: acc) (auto split: option.splits)

lemma digits_value_of_nat [jstring]: "digits_value 0 (js_of_nat n) = Some n"
proof (induction n rule: js_of_nat.induct)
  case (1 n)
  show ?case
  proof (cases "n < 10")
    case True
    then show ?thesis by (subst js_of_nat.simps) simp
  next
    case False
    then show ?thesis using 1 by (subst js_of_nat.simps) (simp add: digits_value_append)
  qed
qed

lemma js_of_nat_nonempty [jstring, simp]: "js_of_nat n \<noteq> []"
  by (subst js_of_nat.simps) simp

lemma nat_of_js_of_nat [jstring, simp]: "nat_of_js (js_of_nat n) = Some n"
  by (simp add: nat_of_js_def digits_value_of_nat)

lemma js_of_nat_inj [jstring, simp]: "js_of_nat m = js_of_nat n \<longleftrightarrow> m = n"
  by (metis nat_of_js_of_nat option.inject)

lemma js_trim_Nil [jstring, simp]: "js_trim [] = []"
  by (simp add: js_trim_def)

lemma split_on_nonempty [jstring, simp]: "split_on c s \<noteq> []"
  by (cases s) (auto split: list.splits)

lemma split_on_no_sep [jstring]: "p \<in> set (split_on c s) \<Longrightarrow> c \<notin> set p"
  by (induction s arbitrary: p) (auto split: list.splits if_splits)

lemma split_on_absent [jstring]: "c \<notin> set s \<Longrightarrow> split_on c s = [s]"
  by (induction s) auto

lemma index_of_Some [jstring]:
  "index_of c s = Some i \<longleftrightarrow> i < length s \<and> s ! i = c \<and> c \<notin> set (take i s)"
proof (induction s arbitrary: i)
  case (Cons x xs)
  then show ?case by (cases i) auto
qed simp

lemma index_of_None [jstring]: "index_of c s = None \<longleftrightarrow> c \<notin> set s"
  by (induction s) auto

lemma js_lower_char_idem [jstring, simp]: "js_lower_char (js_lower_char c) = js_lower_char c"
proof -
  have b: "(of_char c :: nat) < 256"
    by simp
  show ?thesis
    by (auto simp: js_lower_char_def Let_def)
qed

lemma js_lower_idem [jstring, simp]: "js_lower (js_lower s) = js_lower s"
  by (simp add: js_lower_def)

lemma length_js_lower [jstring, simp]: "length (js_lower s) = length s"
  by (simp add: js_lower_def)

section \<open>Subsequences of distinct lists\<close>

lemma subseq_distinct_filter: "subseq q xs \<Longrightarrow> distinct xs \<Longrightarrow> q = filter (\<lambda>x. x \<in> set q) xs"
proof (induction rule: list_emb.induct)
  case (list_emb_Cons q xs y)
  from list_emb_Cons.hyps have "set q \<subseteq> set xs"
    using list_emb_set [of "(=)" q xs] by blast
  with list_emb_Cons.prems have "filter (\<lambda>x. x \<in> set q) (y # xs) = filter (\<lambda>x. x \<in> set q) xs"
    by auto
  with list_emb_Cons.IH list_emb_Cons.prems show ?case by simp
next
  case (list_emb_Cons2 x y q xs)
  then have "filter (\<lambda>z. z \<in> set (x # q)) xs = filter (\<lambda>z. z \<in> set q) xs"
    by (intro filter_cong) auto
  moreover have "q = filter (\<lambda>z. z \<in> set q) xs"
    using list_emb_Cons2 by simp
  ultimately have "filter (\<lambda>z. z \<in> set (x # q)) (y # xs) = x # q"
    using list_emb_Cons2.hyps by simp
  then show ?case by simp
qed simp

lemma subseq_keeps_order:
  assumes "subseq q (before @ t # after)" and "distinct (before @ t # after)"
    and "u \<in> set after" and "t \<in> set q" and "u \<in> set q"
  obtains pre post where "q = pre @ u # post" and "t \<in> set pre"
proof -
  let ?P = "\<lambda>x. x \<in> set q"
  have "q = filter ?P (before @ t # after)"
    by (rule subseq_distinct_filter [OF assms(1,2)])
  also have "filter ?P (before @ t # after) = filter ?P before @ t # filter ?P after"
    using assms(4) by simp
  finally have q: "q = filter ?P before @ t # filter ?P after" .
  have "u \<in> set (filter ?P after)"
    using assms(3,5) by simp
  then obtain a b where "filter ?P after = a @ u # b"
    by (blast dest: split_list)
  then have "q = (filter ?P before @ t # a) @ u # b"
    by (subst q) simp
  then show ?thesis
    by (rule that) simp
qed

end
