(* ===== verification/Protocol.thy ===== *)
theory Protocol
  imports Agent_Prelude
begin

text \<open>
  The values every layer exchanges: JSON data, the messages of a conversation and the result of
  a tool (\<open>agents-core/src/protocol/index.ts\<close>, which re-exports the message types, and
  \<open>agents-core/src/tool/types.ts\<close>). JSON numbers are the integers the sources use.
\<close>

datatype json =
    JNull
  | JBool bool
  | JNum int
  | JStr string
  | JArr "json list"
  | JObj "(string \<times> json) list"

definition json_field :: "string \<Rightarrow> json \<Rightarrow> json option" where
  "json_field k v = (case v of JObj fs \<Rightarrow> map_of fs k | _ \<Rightarrow> None)"

lemma json_field_simps [simp]:
  "json_field k (JObj fs) = map_of fs k"
  "json_field k JNull = None" "json_field k (JBool b) = None" "json_field k (JNum i) = None"
  "json_field k (JStr s) = None" "json_field k (JArr xs) = None"
  by (simp_all add: json_field_def)

record tool_call =
  tc_id :: string
  tc_name :: string
  tc_arguments :: json

datatype content_part =
    TextPart string
  | ThinkingPart string
  | ImagePart string string
  | ToolCallPart tool_call

datatype stop_reason = StopEnd | StopLength | StopToolUse | StopError | StopAborted | StopPending | StopDeferred

record usage =
  us_input :: nat
  us_output :: nat
  us_cache_read :: nat
  us_cache_write :: nat

record assistant_message =
  am_content :: "content_part list"
  am_stop_reason :: stop_reason
  am_error_message :: "string option"
  am_usage :: usage

record tool_result_message =
  tm_call_id :: string
  tm_tool_name :: string
  tm_content :: "content_part list"
  tm_details :: "json option"
  tm_is_error :: bool

record user_message =
  um_content :: "content_part list"
  um_timestamp :: nat

datatype message =
    UserMsg user_message
  | AssistantMsg assistant_message
  | ToolResultMsg tool_result_message
  | SystemMsg string

record tool_result =
  tr_content :: "content_part list"
  tr_structured :: "json option"
  tr_details :: "json option"
  tr_is_error :: "bool option"
  tr_stop_turn :: "bool option"

text \<open>\<open>assistantToolCalls\<close> (\<open>interruption.ts\<close>) and the filter of \<open>runToolCallBatch\<close>.\<close>

fun part_tool_call :: "content_part \<Rightarrow> tool_call option" where
  "part_tool_call (ToolCallPart c) = Some c"
| "part_tool_call _ = None"

definition assistant_tool_calls :: "assistant_message \<Rightarrow> tool_call list" where
  "assistant_tool_calls m = List.map_filter part_tool_call (am_content m)"

lemma assistant_tool_calls_iff:
  "c \<in> set (assistant_tool_calls m) \<longleftrightarrow> ToolCallPart c \<in> set (am_content m)"
  by (force simp: assistant_tool_calls_def map_filter_def elim: part_tool_call.elims)

end
