(* ===== verification/Loop_Hooks.thy ===== *)
theory Loop_Hooks
  imports Protocol
begin

text \<open>
  The interception points of the loop (\<open>agents-core/src/loop/types.ts\<close>, \<open>LoopHooks\<close>) and how
  the hooks of several capabilities are composed into one set
  (\<open>agents-core/src/agent/compose-hooks.ts\<close>: \<open>composeLoopHooks\<close>, \<open>chainModelResponses\<close>,
  \<open>chainFinalizers\<close>, \<open>withProviderHooks\<close>).

  A hook is an effectful call that may throw: \<open>('w, 'e, 'a) eff\<close>, where the world \<open>'w\<close> holds
  whatever the hooks read and change. Of a hook's context the model keeps what varies within one
  composed call; the other fields (turn id, step number, signal, model) are the same for every
  hook of the call. An absent result (\<open>undefined\<close>) is \<^const>\<open>None\<close>.
\<close>

record before_step_result =
  bs_block :: "bool option"
  bs_reason :: "string option"
  bs_system :: "string option"

record after_step_result =
  as_stop_turn :: "bool option"

record 'req before_model_request_result =
  bm_request :: "'req option"
  bm_block :: "bool option"
  bm_reason :: "string option"

record pending_approval =
  pa_call_id :: string
  pa_tool_name :: string
  pa_rule :: string
  pa_policy_name :: "string option"

record authorize_result =
  au_block :: "bool option"
  au_reason :: "string option"
  au_synthetic :: "tool_result option"
  au_interrupt :: "pending_approval option"

record prepare_result = authorize_result +
  pr_updated_args :: "json option"
  pr_terminate :: "bool option"

record should_continue_result =
  sc_continue :: bool

record recover_result =
  rc_recovered :: bool

record tool_hook_ctx =
  hx_call :: tool_call
  hx_args :: json

record 'plan authorize_ctx = tool_hook_ctx +
  hx_plan :: 'plan

record finalize_ctx = tool_hook_ctx +
  hx_result :: tool_result

record 'e recover_ctx =
  rx_error :: 'e
  rx_attempt :: nat

record ('w, 'e, 'req, 'resp, 'plan) loop_hooks =
  before_step :: "(string option \<Rightarrow> ('w, 'e, before_step_result option) eff) option"
  after_step :: "(unit \<Rightarrow> ('w, 'e, after_step_result option) eff) option"
  before_model_request :: "('req \<Rightarrow> ('w, 'e, 'req before_model_request_result option) eff) option"
  after_model_response :: "('resp \<Rightarrow> ('w, 'e, 'resp option) eff) option"
  prepare_tool_execution :: "(tool_hook_ctx \<Rightarrow> ('w, 'e, prepare_result option) eff) option"
  authorize_tool_execution :: "('plan authorize_ctx \<Rightarrow> ('w, 'e, authorize_result option) eff) option"
  finalize_tool_result :: "(finalize_ctx \<Rightarrow> ('w, 'e, tool_result option) eff) option"
  should_continue_after_stop :: "(unit \<Rightarrow> ('w, 'e, should_continue_result option) eff) option"
  recover_step_error :: "('e recover_ctx \<Rightarrow> ('w, 'e, recover_result option) eff) option"

definition no_hooks :: "('w, 'e, 'req, 'resp, 'plan) loop_hooks" where
  "no_hooks = \<lparr>before_step = None, after_step = None, before_model_request = None,
     after_model_response = None, prepare_tool_execution = None, authorize_tool_execution = None,
     finalize_tool_result = None, should_continue_after_stop = None, recover_step_error = None\<rparr>"

text \<open>\<open>list.map(slot).filter(isDefined)\<close>.\<close>

definition defined :: "'a option list \<Rightarrow> 'a list" where
  "defined xs = List.map_filter id xs"

lemma defined_simps [simp]:
  "defined [] = []" "defined (None # xs) = defined xs" "defined (Some x # xs) = x # defined xs"
  by (simp_all add: defined_def map_filter_simps)

lemma defined_append [simp]: "defined (xs @ ys) = defined xs @ defined ys"
  by (induction xs) (simp_all add: defined_def map_filter_simps split: option.splits)

lemma defined_map_Some [simp]: "defined (map (\<lambda>x. Some (f x)) xs) = map f xs"
  by (induction xs) simp_all

lemma defined_concat: "defined (concat xss) = concat (map defined xss)"
  by (induction xss) simp_all

section \<open>The composed slots\<close>

text \<open>Each loop runs over the hooks that define the slot, in registration order.\<close>

fun run_before_steps ::
    "(string option \<Rightarrow> ('w, 'e, before_step_result option) eff) list \<Rightarrow> string option \<Rightarrow> string option
     \<Rightarrow> bool \<Rightarrow> ('w, 'e, before_step_result option) eff" where
  "run_before_steps [] ctx_system system changed =
     ret (if changed then Some \<lparr>bs_block = None, bs_reason = None, bs_system = system\<rparr> else None)"
| "run_before_steps (hook # hooks) ctx_system system changed =
     andthen (hook (if changed then system else ctx_system)) (\<lambda>r.
       case r of
         None \<Rightarrow> run_before_steps hooks ctx_system system changed
       | Some res \<Rightarrow>
           if bs_block res = Some True then ret (Some res)
           else case bs_system res of
               None \<Rightarrow> run_before_steps hooks ctx_system system changed
             | Some s \<Rightarrow> run_before_steps hooks ctx_system (Some s) True)"

fun run_after_steps ::
    "(unit \<Rightarrow> ('w, 'e, after_step_result option) eff) list \<Rightarrow> bool \<Rightarrow> ('w, 'e, after_step_result option) eff" where
  "run_after_steps [] stop = ret (if stop then Some \<lparr>as_stop_turn = Some True\<rparr> else None)"
| "run_after_steps (hook # hooks) stop =
     andthen (hook ()) (\<lambda>r.
       run_after_steps hooks
         (case r of Some res \<Rightarrow> if as_stop_turn res = Some True then True else stop | None \<Rightarrow> stop))"

fun run_model_requests ::
    "('req \<Rightarrow> ('w, 'e, 'req before_model_request_result option) eff) list \<Rightarrow> 'req
     \<Rightarrow> 'req before_model_request_result option
     \<Rightarrow> ('w, 'e, 'req before_model_request_result option) eff" where
  "run_model_requests [] request merged = ret merged"
| "run_model_requests (hook # hooks) request merged =
     andthen (hook request) (\<lambda>r.
       case r of
         None \<Rightarrow> run_model_requests hooks request merged
       | Some res \<Rightarrow>
           if bm_block res = Some True then ret (Some res)
           else case bm_request res of
               None \<Rightarrow> run_model_requests hooks request merged
             | Some q \<Rightarrow> run_model_requests hooks q
                 (Some (case merged of
                    Some m \<Rightarrow> m\<lparr>bm_request := Some q\<rparr>
                  | None \<Rightarrow> \<lparr>bm_request = Some q, bm_block = None, bm_reason = None\<rparr>)))"

fun run_model_responses ::
    "('resp \<Rightarrow> ('w, 'e, 'resp option) eff) list \<Rightarrow> 'resp \<Rightarrow> bool \<Rightarrow> ('w, 'e, 'resp option) eff" where
  "run_model_responses [] response changed = ret (if changed then Some response else None)"
| "run_model_responses (hook # hooks) response changed =
     andthen (hook response) (\<lambda>r.
       case r of
         None \<Rightarrow> run_model_responses hooks response changed
       | Some next \<Rightarrow> run_model_responses hooks next True)"

definition empty_prepare :: prepare_result where
  "empty_prepare = \<lparr>au_block = None, au_reason = None, au_synthetic = None, au_interrupt = None,
     pr_updated_args = None, pr_terminate = None\<rparr>"

fun run_prepares ::
    "(tool_hook_ctx \<Rightarrow> ('w, 'e, prepare_result option) eff) list \<Rightarrow> tool_hook_ctx \<Rightarrow> json
     \<Rightarrow> prepare_result option \<Rightarrow> ('w, 'e, prepare_result option) eff" where
  "run_prepares [] ctx args merged = ret merged"
| "run_prepares (hook # hooks) ctx args merged =
     andthen (hook (ctx\<lparr>hx_args := args\<rparr>)) (\<lambda>r.
       case r of
         None \<Rightarrow> run_prepares hooks ctx args merged
       | Some res \<Rightarrow>
           if au_synthetic res \<noteq> None \<or> au_block res = Some True then ret (Some res)
           else case pr_updated_args res of
               None \<Rightarrow> run_prepares hooks ctx args merged
             | Some a \<Rightarrow> run_prepares hooks ctx a
                 (Some ((case merged of Some m \<Rightarrow> m | None \<Rightarrow> empty_prepare)\<lparr>pr_updated_args := Some a\<rparr>)))"

fun run_authorizers ::
    "('plan authorize_ctx \<Rightarrow> ('w, 'e, authorize_result option) eff) list \<Rightarrow> 'plan authorize_ctx
     \<Rightarrow> ('w, 'e, authorize_result option) eff" where
  "run_authorizers [] ctx = ret None"
| "run_authorizers (hook # hooks) ctx =
     andthen (hook ctx) (\<lambda>r.
       case r of Some res \<Rightarrow> ret (Some res) | None \<Rightarrow> run_authorizers hooks ctx)"

fun run_finalizers ::
    "(finalize_ctx \<Rightarrow> ('w, 'e, tool_result option) eff) list \<Rightarrow> finalize_ctx \<Rightarrow> tool_result
     \<Rightarrow> ('w, 'e, tool_result option) eff" where
  "run_finalizers [] ctx result = ret (Some result)"
| "run_finalizers (hook # hooks) ctx result =
     andthen (hook (ctx\<lparr>hx_result := result\<rparr>)) (\<lambda>r.
       run_finalizers hooks ctx (case r of Some next \<Rightarrow> next | None \<Rightarrow> result))"

fun run_continuers ::
    "(unit \<Rightarrow> ('w, 'e, should_continue_result option) eff) list \<Rightarrow> bool
     \<Rightarrow> ('w, 'e, should_continue_result option) eff" where
  "run_continuers [] cont = ret (if cont then Some \<lparr>sc_continue = True\<rparr> else None)"
| "run_continuers (hook # hooks) cont =
     andthen (hook ()) (\<lambda>r.
       run_continuers hooks (case r of Some res \<Rightarrow> if sc_continue res then True else cont | None \<Rightarrow> cont))"

fun run_recoverers ::
    "('e recover_ctx \<Rightarrow> ('w, 'e, recover_result option) eff) list \<Rightarrow> 'e recover_ctx
     \<Rightarrow> ('w, 'e, recover_result option) eff" where
  "run_recoverers [] ctx = ret None"
| "run_recoverers (hook # hooks) ctx =
     andthen (hook ctx) (\<lambda>r.
       case r of
         Some res \<Rightarrow> if rc_recovered res then ret (Some res) else run_recoverers hooks ctx
       | None \<Rightarrow> run_recoverers hooks ctx)"

text \<open>The composed slot functions; a context fixes what the loop starts from.\<close>

definition chain_before_steps where
  "chain_before_steps hooks system = run_before_steps hooks system system False"

definition chain_after_steps where
  "chain_after_steps hooks (u :: unit) = run_after_steps hooks False"

definition chain_model_requests where
  "chain_model_requests hooks request = run_model_requests hooks request None"

definition chain_model_responses where
  "chain_model_responses hooks response = run_model_responses hooks response False"

definition chain_prepares where
  "chain_prepares hooks ctx = run_prepares hooks ctx (hx_args ctx) None"

definition chain_finalizers where
  "chain_finalizers hooks ctx = run_finalizers hooks ctx (hx_result ctx)"

definition chain_continuers where
  "chain_continuers hooks (u :: unit) = run_continuers hooks False"

text \<open>A slot is present in the composition iff some part defines it.\<close>

definition slot :: "('h list \<Rightarrow> 'h) \<Rightarrow> 'h option list \<Rightarrow> 'h option" where
  "slot combine hs = (if defined hs = [] then None else Some (combine (defined hs)))"

definition compose_loop_hooks ::
    "('w, 'e, 'req, 'resp, 'plan) loop_hooks option list \<Rightarrow> ('w, 'e, 'req, 'resp, 'plan) loop_hooks" where
  "compose_loop_hooks parts =
     (let list = defined parts in
      \<lparr>before_step = slot chain_before_steps (map before_step list),
       after_step = slot chain_after_steps (map after_step list),
       before_model_request = slot chain_model_requests (map before_model_request list),
       after_model_response = slot chain_model_responses (map after_model_response list),
       prepare_tool_execution = slot chain_prepares (map prepare_tool_execution list),
       authorize_tool_execution = slot run_authorizers (map authorize_tool_execution list),
       finalize_tool_result = slot chain_finalizers (map finalize_tool_result list),
       should_continue_after_stop = slot chain_continuers (map should_continue_after_stop list),
       recover_step_error = slot run_recoverers (map recover_step_error list)\<rparr>)"

section \<open>Composition is associative\<close>

text \<open>
  A slot's combinator can be nested: combining a prefix first and the rest around it is the same
  as combining all of them. From this the law for any grouping of the parts follows once.
\<close>

locale nestable =
  fixes combine :: "'h list \<Rightarrow> 'h"
  assumes nest: "hs \<noteq> [] \<Longrightarrow> combine (combine hs # rest) = combine (hs @ rest)"
    and nest_tail: "hs \<noteq> [] \<Longrightarrow> combine (h # hs) = combine [h, combine hs]"
begin

lemma combine_cons_cong:
  assumes "combine hs = combine hs'" and "hs = [] \<longleftrightarrow> hs' = []"
  shows "combine (h # hs) = combine (h # hs')"
proof (cases "hs = []")
  case False
  then have "combine (h # hs) = combine [h, combine hs]" by (rule nest_tail)
  also have "\<dots> = combine [h, combine hs']" by (simp only: assms(1))
  also have "\<dots> = combine (h # hs')"
    using False assms(2) by (intro nest_tail [symmetric]) simp
  finally show ?thesis .
qed (use assms in simp)

lemma combine_append_cong:
  assumes "combine hs = combine hs'" and "hs = [] \<longleftrightarrow> hs' = []"
  shows "combine (gs @ hs) = combine (gs @ hs')"
proof (induction gs)
  case (Cons g gs)
  then show ?case using assms(2) combine_cons_cong [of "gs @ hs" "gs @ hs'" g] by simp
qed (simp add: assms)

lemma slot_concat: "slot combine (map (slot combine) hss) = slot combine (concat hss)"
proof -
  have "combine (defined (map (slot combine) hss)) = combine (defined (concat hss))
      \<and> (defined (map (slot combine) hss) = [] \<longleftrightarrow> defined (concat hss) = [])"
  proof (induction hss)
    case (Cons hs hss)
    show ?case
    proof (cases "defined hs = []")
      case False
      then have "combine (combine (defined hs) # defined (map (slot combine) hss))
          = combine (defined hs @ defined (map (slot combine) hss))"
        by (rule nest)
      also have "\<dots> = combine (defined hs @ defined (concat hss))"
        using Cons by (intro combine_append_cong) auto
      finally show ?thesis using False by (simp add: slot_def [of combine hs])
    qed (use Cons in \<open>simp add: slot_def [of combine hs]\<close>)
  qed simp
  then show ?thesis by (simp add: slot_def)
qed

end

text \<open>
  Every slot is such a chain: a loop over the hooks with an accumulator. \<open>inp\<close> is the context
  the next hook sees, \<open>dec\<close> what the loop makes of its result (\<^const>\<open>Inl\<close> ends the loop with it),
  \<open>out\<close> the result when the loop is over. \<open>merge a n\<close> is the accumulator that reaches the same
  point without nesting, when a nested chain that started from \<open>inp a\<close> is at \<open>n\<close>.
\<close>

locale hook_chain =
  fixes run :: "('x \<Rightarrow> ('w, 'e, 'r) eff) list \<Rightarrow> 'a \<Rightarrow> ('w, 'e, 'r) eff"
    and init :: "'x \<Rightarrow> 'a"
    and inp :: "'a \<Rightarrow> 'x"
    and dec :: "'a \<Rightarrow> 'r \<Rightarrow> 'r + 'a"
    and out :: "'a \<Rightarrow> 'r"
    and merge :: "'a \<Rightarrow> 'a \<Rightarrow> 'a"
    and ok :: "'a \<Rightarrow> 'a \<Rightarrow> bool"
  assumes run_Nil: "run [] a = ret (out a)"
    and run_Cons: "run (h # hs) a =
      andthen (h (inp a)) (\<lambda>r. case dec a r of Inl res \<Rightarrow> ret res | Inr a' \<Rightarrow> run hs a')"
    and inp_init: "inp (init x) = x"
    and ok_init: "ok a (init (inp a))"
    and ok_dec: "ok a n \<Longrightarrow> dec n r = Inr n' \<Longrightarrow> ok a n'"
    and merge_init: "merge a (init (inp a)) = a"
    and inp_merge: "ok a n \<Longrightarrow> inp (merge a n) = inp n"
    and dec_merge: "ok a n \<Longrightarrow> dec (merge a n) r = map_sum id (merge a) (dec n r)"
    and dec_out: "ok a n \<Longrightarrow> dec a (out n) = Inr (merge a n)"
    and dec_stop: "dec n r = Inl res \<Longrightarrow> dec a res = Inl res"
begin

lemma run_nested:
  "ok a n \<Longrightarrow> andthen (run hs n) (\<lambda>r. case dec a r of Inl res \<Rightarrow> ret res | Inr a' \<Rightarrow> run rest a')
     = run (hs @ rest) (merge a n)"
proof (induction hs arbitrary: n)
  case Nil
  then show ?case by (simp add: run_Nil dec_out)
next
  case (Cons h hs)
  show ?case
  proof (simp add: run_Cons andthen_assoc inp_merge [OF Cons.prems], rule andthen_cong)
    fix r
    show "andthen (case dec n r of Inl res \<Rightarrow> ret res | Inr x \<Rightarrow> run hs x)
            (\<lambda>r. case dec a r of Inl res \<Rightarrow> ret res | Inr x \<Rightarrow> run rest x) =
          (case dec (merge a n) r of Inl res \<Rightarrow> ret res | Inr x \<Rightarrow> run (hs @ rest) x)"
      using Cons by (cases "dec n r") (auto simp: dec_merge dec_stop ok_dec)
  qed
qed

end

sublocale hook_chain \<subseteq> nestable "\<lambda>hs x. run hs (init x)"
proof (unfold_locales, goal_cases)
  case (1 hs rest)
  show ?case
  proof
    fix x
    show "run ((\<lambda>x. run hs (init x)) # rest) (init x) = run (hs @ rest) (init x)"
      using run_nested [OF ok_init, of hs "init x" rest] merge_init [of "init x"]
      by (simp add: run_Cons inp_init)
  qed
next
  case (2 hs h)
  show ?case
  proof
    fix x
    have "run hs a = andthen (run hs (init (inp a)))
        (\<lambda>r. case dec a r of Inl res \<Rightarrow> ret res | Inr a' \<Rightarrow> run [] a')" for a
      using run_nested [OF ok_init, of hs a "[]"] by (simp add: merge_init)
    from this [symmetric] show "run (h # hs) (init x) = run [h, \<lambda>x. run hs (init x)] (init x)"
      by (simp add: run_Cons cong: sum.case_cong)
  qed
qed

text \<open>The laws hold for every slot of the code.\<close>

interpretation before_steps: hook_chain
  "\<lambda>hs (c, s, ch). run_before_steps hs c s ch" "\<lambda>x. (x, x, False)"
  "\<lambda>(c, s, ch). if ch then s else c"
  "\<lambda>(c, s, ch) r. case r of
      None \<Rightarrow> Inr (c, s, ch)
    | Some res \<Rightarrow>
        if bs_block res = Some True then Inl r
        else (case bs_system res of None \<Rightarrow> Inr (c, s, ch) | Some s' \<Rightarrow> Inr (c, Some s', True))"
  "\<lambda>(c, s, ch). if ch then Some \<lparr>bs_block = None, bs_reason = None, bs_system = s\<rparr> else None"
  "\<lambda>(c, s, ch) (c', s', ch'). if ch' then (c, s', True) else (c, s, ch)"
  "\<lambda>(c, s, ch) (c', s', ch'). c' = (if ch then s else c) \<and> (ch' \<longrightarrow> s' \<noteq> None)"
  by unfold_locales (auto intro!: andthen_cong split: option.splits if_splits prod.splits)

interpretation after_steps: hook_chain
  "run_after_steps" "\<lambda>_. False" "\<lambda>_. ()"
  "\<lambda>stop r. Inr (case r of Some res \<Rightarrow> if as_stop_turn res = Some True then True else stop | None \<Rightarrow> stop)"
  "\<lambda>stop. if stop then Some \<lparr>as_stop_turn = Some True\<rparr> else None" "(\<or>)" "\<lambda>_ _. True"
  by unfold_locales (auto split: option.splits)

interpretation model_requests: hook_chain
  "\<lambda>hs (q, m). run_model_requests hs q m" "\<lambda>q. (q, None)" fst
  "\<lambda>(q, m) r. case r of
      None \<Rightarrow> Inr (q, m)
    | Some res \<Rightarrow>
        if bm_block res = Some True then Inl r
        else (case bm_request res of None \<Rightarrow> Inr (q, m)
              | Some q' \<Rightarrow> Inr (q', Some (case m of Some m \<Rightarrow> m\<lparr>bm_request := Some q'\<rparr>
                  | None \<Rightarrow> \<lparr>bm_request = Some q', bm_block = None, bm_reason = None\<rparr>)))"
  snd
  "\<lambda>(q, m) (q', m'). if m' = None then (q, m)
      else (q', Some (case m of Some m \<Rightarrow> m\<lparr>bm_request := Some q'\<rparr>
                  | None \<Rightarrow> \<lparr>bm_request = Some q', bm_block = None, bm_reason = None\<rparr>))"
  "\<lambda>(q, m) (q', m'). (if m' = None then q' = q
     else m' = Some \<lparr>bm_request = Some q', bm_block = None, bm_reason = None\<rparr>)"
  by unfold_locales (auto intro!: andthen_cong split: option.splits if_splits prod.splits)

interpretation model_responses: hook_chain
  "\<lambda>hs (r, ch). run_model_responses hs r ch" "\<lambda>x. (x, False)" fst
  "\<lambda>(q, ch) r. case r of None \<Rightarrow> Inr (q, ch) | Some next \<Rightarrow> Inr (next, True)"
  "\<lambda>(q, ch). if ch then Some q else None"
  "\<lambda>(q, ch) (q', ch'). if ch' then (q', True) else (q, ch)"
  "\<lambda>(q, ch) (q', ch'). ch' \<or> q' = q"
  by unfold_locales (auto intro!: andthen_cong split: option.splits if_splits prod.splits)

interpretation prepares: hook_chain
  "\<lambda>hs (c, q, m). run_prepares hs c q m" "\<lambda>c. (c, hx_args c, None)"
  "\<lambda>(c, q, m). c\<lparr>hx_args := q\<rparr>"
  "\<lambda>(c, q, m) r. case r of
      None \<Rightarrow> Inr (c, q, m)
    | Some res \<Rightarrow>
        if au_synthetic res \<noteq> None \<or> au_block res = Some True then Inl r
        else (case pr_updated_args res of None \<Rightarrow> Inr (c, q, m)
              | Some q' \<Rightarrow> Inr (c, q', Some ((case m of Some m \<Rightarrow> m | None \<Rightarrow> empty_prepare)\<lparr>pr_updated_args := Some q'\<rparr>)))"
  "\<lambda>(c, q, m). m"
  "\<lambda>(c, q, m) (c', q', m'). if m' = None then (c, q, m)
      else (c, q', Some ((case m of Some m \<Rightarrow> m | None \<Rightarrow> empty_prepare)\<lparr>pr_updated_args := Some q'\<rparr>))"
  "\<lambda>(c, q, m) (c', q', m'). c' = c\<lparr>hx_args := q\<rparr> \<and>
     (if m' = None then q' = q else m' = Some (empty_prepare\<lparr>pr_updated_args := Some q'\<rparr>))"
  by unfold_locales
    (auto simp: empty_prepare_def intro!: andthen_cong split: option.splits if_splits prod.splits)

interpretation authorizers: hook_chain
  run_authorizers "\<lambda>c. c" "\<lambda>c. c" "\<lambda>c r. case r of Some res \<Rightarrow> Inl r | None \<Rightarrow> Inr c"
  "\<lambda>_. None" "\<lambda>c _. c" "\<lambda>c c'. c' = c"
  by unfold_locales (auto intro!: andthen_cong split: option.splits)

interpretation finalizers: hook_chain
  "\<lambda>hs (c, q). run_finalizers hs c q" "\<lambda>c. (c, hx_result c)" "\<lambda>(c, q). c\<lparr>hx_result := q\<rparr>"
  "\<lambda>(c, q) r. Inr (c, case r of Some next \<Rightarrow> next | None \<Rightarrow> q)" "\<lambda>(c, q). Some q"
  "\<lambda>(c, q) (c', q'). (c, q')" "\<lambda>(c, q) (c', q'). c' = c\<lparr>hx_result := q\<rparr>"
  by unfold_locales (auto split: option.splits)

interpretation continuers: hook_chain
  run_continuers "\<lambda>_. False" "\<lambda>_. ()"
  "\<lambda>cont r. Inr (case r of Some res \<Rightarrow> if sc_continue res then True else cont | None \<Rightarrow> cont)"
  "\<lambda>cont. if cont then Some \<lparr>sc_continue = True\<rparr> else None" "(\<or>)" "\<lambda>_ _. True"
  by unfold_locales (auto split: option.splits)

interpretation recoverers: hook_chain
  run_recoverers "\<lambda>c. c" "\<lambda>c. c"
  "\<lambda>c r. case r of Some res \<Rightarrow> if rc_recovered res then Inl r else Inr c | None \<Rightarrow> Inr c"
  "\<lambda>_. None" "\<lambda>c _. c" "\<lambda>c c'. c' = c"
  by unfold_locales (auto intro!: andthen_cong split: option.splits if_splits)

lemmas slot_concat_laws =
  before_steps.slot_concat after_steps.slot_concat model_requests.slot_concat
  model_responses.slot_concat prepares.slot_concat authorizers.slot_concat
  finalizers.slot_concat continuers.slot_concat recoverers.slot_concat

lemma chains_eta:
  "chain_before_steps = (\<lambda>hs x. case (x, x, False) of (c, s, ch) \<Rightarrow> run_before_steps hs c s ch)"
  "chain_after_steps = (\<lambda>hs x. run_after_steps hs False)"
  "chain_model_requests = (\<lambda>hs x. case (x, None) of (q, m) \<Rightarrow> run_model_requests hs q m)"
  "chain_model_responses = (\<lambda>hs x. case (x, False) of (r, ch) \<Rightarrow> run_model_responses hs r ch)"
  "chain_prepares = (\<lambda>hs x. case (x, hx_args x, None) of (c, q, m) \<Rightarrow> run_prepares hs c q m)"
  "chain_finalizers = (\<lambda>hs x. case (x, hx_result x) of (c, q) \<Rightarrow> run_finalizers hs c q)"
  "chain_continuers = (\<lambda>hs x. run_continuers hs False)"
  by (auto simp: fun_eq_iff chain_before_steps_def chain_after_steps_def chain_model_requests_def
      chain_model_responses_def chain_prepares_def chain_finalizers_def chain_continuers_def)

lemma slots_concat:
  "slot chain_before_steps (map (slot chain_before_steps) bs) = slot chain_before_steps (concat bs)"
  "slot chain_after_steps (map (slot chain_after_steps) as) = slot chain_after_steps (concat as)"
  "slot chain_model_requests (map (slot chain_model_requests) mq) = slot chain_model_requests (concat mq)"
  "slot chain_model_responses (map (slot chain_model_responses) mr) = slot chain_model_responses (concat mr)"
  "slot chain_prepares (map (slot chain_prepares) ps) = slot chain_prepares (concat ps)"
  "slot run_authorizers (map (slot run_authorizers) az) = slot run_authorizers (concat az)"
  "slot chain_finalizers (map (slot chain_finalizers) fs) = slot chain_finalizers (concat fs)"
  "slot chain_continuers (map (slot chain_continuers) cs) = slot chain_continuers (concat cs)"
  "slot run_recoverers (map (slot run_recoverers) rs) = slot run_recoverers (concat rs)"
  unfolding chains_eta using slot_concat_laws by - (rule slot_concat_laws)+

lemma compose_slots [simp]:
  "before_step (compose_loop_hooks ps) = slot chain_before_steps (map before_step (defined ps))"
  "after_step (compose_loop_hooks ps) = slot chain_after_steps (map after_step (defined ps))"
  "before_model_request (compose_loop_hooks ps) =
     slot chain_model_requests (map before_model_request (defined ps))"
  "after_model_response (compose_loop_hooks ps) =
     slot chain_model_responses (map after_model_response (defined ps))"
  "prepare_tool_execution (compose_loop_hooks ps) =
     slot chain_prepares (map prepare_tool_execution (defined ps))"
  "authorize_tool_execution (compose_loop_hooks ps) =
     slot run_authorizers (map authorize_tool_execution (defined ps))"
  "finalize_tool_result (compose_loop_hooks ps) =
     slot chain_finalizers (map finalize_tool_result (defined ps))"
  "should_continue_after_stop (compose_loop_hooks ps) =
     slot chain_continuers (map should_continue_after_stop (defined ps))"
  "recover_step_error (compose_loop_hooks ps) =
     slot run_recoverers (map recover_step_error (defined ps))"
  by (simp_all add: compose_loop_hooks_def Let_def)

lemmas slots_concat_map = slots_concat [of "map (\<lambda>ps. map f (defined ps)) pss" for f pss, unfolded map_map comp_def]

text \<open>
  Composing hooks is associative: composing groups of parts and then the groups gives the
  hooks that composing all parts at once gives, slot by slot, whatever the hooks do, throw or
  change, and whichever slots each part defines.
\<close>

theorem compose_loop_hooks_assoc:
  "compose_loop_hooks (map (\<lambda>ps. Some (compose_loop_hooks ps)) pss) = compose_loop_hooks (concat pss)"
  unfolding compose_loop_hooks_def [of "map _ pss"] compose_loop_hooks_def [of "concat pss"] Let_def
    defined_map_Some defined_concat
  by (simp add: map_concat comp_def slots_concat_map)

section \<open>Provider hooks\<close>

text \<open>
  The callbacks a request carries for the provider layer (\<open>providerOptions\<close>) and the hooks
  of the capabilities that are folded into them. \<open>'hd\<close>, \<open>'pl\<close> and \<open>'rs\<close> are the headers, the
  payload and the response of the provider.
\<close>

record ('w, 'e, 'hd, 'pl, 'rs) provider_options =
  transform_headers :: "('hd \<Rightarrow> ('w, 'e, 'hd) eff) option"
  on_payload :: "('pl \<Rightarrow> ('w, 'e, 'pl) eff) option"
  on_response :: "('rs \<Rightarrow> ('w, 'e, unit) eff) option"

record ('w, 'e, 'hd, 'pl, 'rs) capability_provider_hooks =
  ph_headers :: "('hd \<Rightarrow> ('w, 'e, 'hd option) eff) option"
  ph_payload :: "('pl \<Rightarrow> ('w, 'e, 'pl option) eff) option"
  ph_response :: "('rs \<Rightarrow> ('w, 'e, unit) eff) option"

text \<open>\<open>current = (await hook(current)) ?? current\<close> over the hooks.\<close>

fun rewrite_all :: "('v \<Rightarrow> ('w, 'e, 'v option) eff) list \<Rightarrow> 'v \<Rightarrow> ('w, 'e, 'v) eff" where
  "rewrite_all [] current = ret current"
| "rewrite_all (hook # hooks) current =
     andthen (hook current) (\<lambda>r. rewrite_all hooks (case r of Some v \<Rightarrow> v | None \<Rightarrow> current))"

fun notify_all :: "('v \<Rightarrow> ('w, 'e, unit) eff) list \<Rightarrow> 'v \<Rightarrow> ('w, 'e, unit) eff" where
  "notify_all [] v = ret ()"
| "notify_all (hook # hooks) v = andthen (hook v) (\<lambda>_. notify_all hooks v)"

definition with_rewrites ::
    "('v \<Rightarrow> ('w, 'e, 'v) eff) option \<Rightarrow> ('v \<Rightarrow> ('w, 'e, 'v option) eff) list \<Rightarrow> ('v \<Rightarrow> ('w, 'e, 'v) eff) option" where
  "with_rewrites prior hooks =
     (if hooks = [] then prior
      else Some (\<lambda>v. andthen (case prior of Some p \<Rightarrow> p v | None \<Rightarrow> ret v) (rewrite_all hooks)))"

definition with_notifications ::
    "('v \<Rightarrow> ('w, 'e, unit) eff) option \<Rightarrow> ('v \<Rightarrow> ('w, 'e, unit) eff) list \<Rightarrow> ('v \<Rightarrow> ('w, 'e, unit) eff) option" where
  "with_notifications prior hooks =
     (if hooks = [] then prior
      else Some (\<lambda>v. andthen (case prior of Some p \<Rightarrow> p v | None \<Rightarrow> ret ()) (\<lambda>_. notify_all hooks v)))"

definition with_provider_hooks ::
    "('w, 'e, 'hd, 'pl, 'rs) provider_options \<Rightarrow> ('w, 'e, 'hd, 'pl, 'rs) capability_provider_hooks list
     \<Rightarrow> ('w, 'e, 'hd, 'pl, 'rs) provider_options" where
  "with_provider_hooks options hooks =
     \<lparr>transform_headers = with_rewrites (transform_headers options) (defined (map ph_headers hooks)),
      on_payload = with_rewrites (on_payload options) (defined (map ph_payload hooks)),
      on_response = with_notifications (on_response options) (defined (map ph_response hooks))\<rparr>"

lemma rewrite_all_Nil [simp]: "rewrite_all [] = ret"
  by (rule ext) simp

lemma andthen_unit [simp]: "andthen m (\<lambda>_. ret ()) = m"
  using andthen_ret_right [of m] by (simp add: old.unit.exhaust eta_contract_eq)

lemma rewrite_all_append: "rewrite_all (hs @ gs) v = andthen (rewrite_all hs v) (rewrite_all gs)"
  by (induction hs arbitrary: v) (simp_all add: andthen_assoc)

lemma notify_all_append: "notify_all (hs @ gs) v = andthen (notify_all hs v) (\<lambda>_. notify_all gs v)"
  by (induction hs) (simp_all add: andthen_assoc)

lemma with_rewrites_append: "with_rewrites (with_rewrites p hs) gs = with_rewrites p (hs @ gs)"
  by (auto simp: with_rewrites_def andthen_assoc rewrite_all_append [abs_def])

lemma with_notifications_append:
  "with_notifications (with_notifications p hs) gs = with_notifications p (hs @ gs)"
  by (auto simp: with_notifications_def andthen_assoc notify_all_append)

text \<open>
  Folding provider hooks into a request keeps the callbacks that are already on it, before
  the new ones: folding two groups one after the other is folding them together.
\<close>

theorem provider_hooks_keep_prior:
  "with_provider_hooks (with_provider_hooks options hs) gs = with_provider_hooks options (hs @ gs)"
  by (simp add: with_provider_hooks_def with_rewrites_append with_notifications_append)

end
