(* ===== verification/Interruption.thy ===== *)
theory Interruption
  imports Loop_Hooks
begin

text \<open>
  Durable interruptions: the control state of a paused tree of agent frames
  (\<open>agents-core/src/loop/interruption.ts\<close>), how a paused run is turned into it
  (\<open>agents-core/src/agent/pause.ts\<close>: \<open>reify\<close>, the persisting half of \<open>pauseRun\<close>), and how
  the end of a resumed run (\<open>agents-core/src/agent/runner.ts\<close>) settles it or marks it for
  recovery. The store's cell for the state is an optional value; timestamps are arguments.

  \<open>flattenPendingInterrupts\<close> recurses through the frames' children. The recursion takes the
  depth it may reach; \<^const>\<open>None\<close> stands for the exceeded call stack of a cyclic table.
\<close>

record agent_ref =
  ar_key :: string
  ar_name :: string

datatype approval_decision = Approved | Rejected | Cancelled

record approval_response =
  ap_decision :: approval_decision
  ap_session_scope :: bool
  ap_feedback :: "string option"

record pending_input =
  pi_call_id :: string
  pi_tool_name :: string
  pi_request :: json
  pi_state :: "json option"

datatype pending_interrupt = PendApproval pending_approval | PendInput pending_input

fun pending_call_id :: "pending_interrupt \<Rightarrow> string" where
  "pending_call_id (PendApproval p) = pa_call_id p"
| "pending_call_id (PendInput p) = pi_call_id p"

fun is_input :: "pending_interrupt \<Rightarrow> bool" where
  "is_input (PendInput _) = True"
| "is_input (PendApproval _) = False"

record interruption_frame =
  if_frame_id :: string
  if_instance_id :: string
  if_address :: string
  if_agent :: agent_ref
  if_turn_id :: string
  if_turns :: nat
  if_max_turns :: nat
  if_usage :: usage
  if_anchor :: string
  if_pending :: "pending_interrupt list"
  if_decisions :: "(string, approval_response) jsmap"
  if_input_answers :: "(string, json) jsmap option"
  if_children :: "(string, string) jsmap"

datatype interruption_phase = Waiting | Resuming | RecoveryRequired

record interruption_state =
  is_version :: nat
  is_run_id :: string
  is_id :: string
  is_phase :: interruption_phase
  is_revision :: nat
  is_root :: string
  is_frames :: "(string, interruption_frame) jsmap"
  is_created_at :: nat
  is_updated_at :: nat

record tool_call_suspension =
  ts_call_id :: string
  ts_state :: interruption_state

record pending_run_interrupt =
  pn_item :: pending_interrupt
  pn_approval_id :: string
  pn_frame_id :: string
  pn_address :: string
  pn_agent :: agent_ref

datatype interrupt_answer = AnswerApproval approval_response | AnswerInput json

datatype interruption_error =
    NoToolCalls
  | CallNotInBatch string
  | AnchorNotFound string
  | NoAssistantMessage
  | FrameMissing string
  | AmbiguousKey string
  | NotPending string
  | KindMismatch string
  | NothingPersisted
  | StaleState
  | RootFrameMissing

section \<open>Anchors\<close>

definition interruption_anchor :: "assistant_message \<Rightarrow> string option \<Rightarrow> interruption_error + string" where
  "interruption_anchor m preferred =
     (case assistant_tool_calls m of
        [] \<Rightarrow> Inl NoToolCalls
      | c # cs \<Rightarrow>
          let id = (case preferred of Some p \<Rightarrow> p | None \<Rightarrow> tc_id c)
          in if list_ex (\<lambda>call. tc_id call = id) (c # cs) then Inr id else Inl (CallNotInBatch id))"

definition carries_call :: "string \<Rightarrow> message \<Rightarrow> assistant_message option" where
  "carries_call anchor msg =
     (case msg of
        AssistantMsg m \<Rightarrow>
          if list_ex (\<lambda>call. tc_id call = anchor) (assistant_tool_calls m) then Some m else None
      | _ \<Rightarrow> None)"

text \<open>The loop runs from the last message to the first.\<close>

fun find_anchored_from_end :: "message list \<Rightarrow> string \<Rightarrow> interruption_error + assistant_message" where
  "find_anchored_from_end [] anchor = Inl (AnchorNotFound anchor)"
| "find_anchored_from_end (msg # earlier) anchor =
     (case carries_call anchor msg of
        Some m \<Rightarrow> Inr m
      | None \<Rightarrow> find_anchored_from_end earlier anchor)"

definition find_anchored_assistant :: "message list \<Rightarrow> string \<Rightarrow> interruption_error + assistant_message" where
  "find_anchored_assistant messages anchor = find_anchored_from_end (rev messages) anchor"

section \<open>Pending interrupts of the tree\<close>

definition approval_id :: "string \<Rightarrow> string \<Rightarrow> string" where
  "approval_id frame_id call_id = frame_id @ '':'' @ call_id"

text \<open>The tool's continuation state never leaves the frame.\<close>

fun public_pending :: "pending_interrupt \<Rightarrow> pending_interrupt" where
  "public_pending (PendInput p) = PendInput (p\<lparr>pi_state := None\<rparr>)"
| "public_pending (PendApproval p) = PendApproval p"

definition public_of :: "interruption_frame \<Rightarrow> pending_interrupt \<Rightarrow> pending_run_interrupt" where
  "public_of f p =
     \<lparr>pn_item = public_pending p, pn_approval_id = approval_id (if_frame_id f) (pending_call_id p),
      pn_frame_id = if_frame_id f, pn_address = if_address f, pn_agent = if_agent f\<rparr>"

fun visit_frame :: "nat \<Rightarrow> (string, interruption_frame) jsmap \<Rightarrow> string
    \<Rightarrow> (interruption_error + pending_run_interrupt list) option"
  and visit_frames :: "nat \<Rightarrow> (string, interruption_frame) jsmap \<Rightarrow> string list
    \<Rightarrow> (interruption_error + pending_run_interrupt list) option" where
  "visit_frame 0 frames fid = None"
| "visit_frame (Suc depth) frames fid =
     (case map_of frames fid of
        None \<Rightarrow> Some (Inl (FrameMissing fid))
      | Some f \<Rightarrow>
          (case visit_frames depth frames (jvalues (if_children f)) of
             Some (Inr rest) \<Rightarrow> Some (Inr (map (public_of f) (if_pending f) @ rest))
           | r \<Rightarrow> r))"
| "visit_frames depth frames [] = Some (Inr [])"
| "visit_frames depth frames (c # cs) =
     (case visit_frame depth frames c of
        Some (Inr here) \<Rightarrow>
          (case visit_frames depth frames cs of
             Some (Inr rest) \<Rightarrow> Some (Inr (here @ rest))
           | r \<Rightarrow> r)
      | r \<Rightarrow> r)"

definition flatten_pending :: "nat \<Rightarrow> interruption_state
    \<Rightarrow> (interruption_error + pending_run_interrupt list) option" where
  "flatten_pending depth s = visit_frame depth (is_frames s) (is_root s)"

section \<open>Answers\<close>

definition answer_is_input :: "interrupt_answer \<Rightarrow> bool" where
  "answer_is_input a = (case a of AnswerInput _ \<Rightarrow> True | AnswerApproval _ \<Rightarrow> False)"

definition answer_target ::
    "pending_run_interrupt list \<Rightarrow> string \<Rightarrow> interrupt_answer \<Rightarrow> interruption_error + pending_run_interrupt" where
  "answer_target pending key answer =
     (let by_approval_id = map_of (rev (map (\<lambda>p. (pn_approval_id p, p)) pending));
          matches = filter (\<lambda>p. pending_call_id (pn_item p) = key) pending;
          target = (case by_approval_id key of
                      Some p \<Rightarrow> Inr (Some p)
                    | None \<Rightarrow>
                        if 1 < length matches then Inl (AmbiguousKey key)
                        else Inr (case matches of [] \<Rightarrow> None | p # _ \<Rightarrow> Some p))
      in case target of
           Inl e \<Rightarrow> Inl e
         | Inr None \<Rightarrow> Inl (NotPending key)
         | Inr (Some p) \<Rightarrow>
             if answer_is_input answer \<noteq> is_input (pn_item p) then Inl (KindMismatch key) else Inr p)"

text \<open>\<open>additions.get(frame) ?? {}\<close>, extended by one answer and stored back.\<close>

definition add_answer :: "string \<Rightarrow> string \<Rightarrow> 'v
    \<Rightarrow> (string, (string, 'v) jsmap) jsmap \<Rightarrow> (string, (string, 'v) jsmap) jsmap" where
  "add_answer fid call v adds =
     jset fid (jset call v (case map_of adds fid of Some m \<Rightarrow> m | None \<Rightarrow> [])) adds"

fun collect_answers ::
    "pending_run_interrupt list \<Rightarrow> (string \<times> interrupt_answer) list
     \<Rightarrow> (string, (string, approval_response) jsmap) jsmap \<Rightarrow> (string, (string, json) jsmap) jsmap
     \<Rightarrow> interruption_error + (string, (string, approval_response) jsmap) jsmap
          \<times> (string, (string, json) jsmap) jsmap" where
  "collect_answers pending [] decisions inputs = Inr (decisions, inputs)"
| "collect_answers pending ((key, answer) # answers) decisions inputs =
     (case answer_target pending key answer of
        Inl e \<Rightarrow> Inl e
      | Inr p \<Rightarrow>
          (case answer of
             AnswerInput d \<Rightarrow> collect_answers pending answers decisions
               (add_answer (pn_frame_id p) (pending_call_id (pn_item p)) d inputs)
           | AnswerApproval r \<Rightarrow> collect_answers pending answers
               (add_answer (pn_frame_id p) (pending_call_id (pn_item p)) r decisions) inputs))"

text \<open>\<open>{ ...a, ...b }\<close>.\<close>

definition spread :: "(string, 'v) jsmap \<Rightarrow> (string, 'v) jsmap \<Rightarrow> (string, 'v) jsmap" where
  "spread a b = foldl (\<lambda>m (k, v). jset k v m) a b"

definition additions :: "string \<Rightarrow> (string, (string, 'v) jsmap) jsmap \<Rightarrow> (string, 'v) jsmap" where
  "additions fid adds = (case map_of adds fid of Some m \<Rightarrow> m | None \<Rightarrow> [])"

definition apply_interruption_answers ::
    "nat \<Rightarrow> nat \<Rightarrow> interruption_state \<Rightarrow> (string \<times> interrupt_answer) list
     \<Rightarrow> (interruption_error + interruption_state) option" where
  "apply_interruption_answers depth now s answers =
     (case flatten_pending depth s of
        None \<Rightarrow> None
      | Some (Inl e) \<Rightarrow> Some (Inl e)
      | Some (Inr pending) \<Rightarrow>
          (case collect_answers pending answers [] [] of
             Inl e \<Rightarrow> Some (Inl e)
           | Inr (decisions, inputs) \<Rightarrow>
               Some (Inr (s\<lparr>is_phase := Resuming, is_revision := is_revision s + 1,
                 is_frames := map (\<lambda>(fid, f). (fid,
                   f\<lparr>if_decisions := spread (if_decisions f) (additions fid decisions),
                     if_input_answers := Some (spread (case if_input_answers f of Some m \<Rightarrow> m | None \<Rightarrow> [])
                                                  (additions fid inputs))\<rparr>)) (is_frames s),
                 is_updated_at := now\<rparr>))))"

section \<open>Pausing\<close>

text \<open>What \<open>reify\<close> reads of the frame's \<open>RunState\<close>.\<close>

record run_frame =
  rf_run_id :: string
  rf_frame_id :: string
  rf_parent_frame_id :: "string option"
  rf_instance_id :: string
  rf_address :: string
  rf_turns :: nat
  rf_max_turns :: nat
  rf_usage :: usage
  rf_answers :: "(string, approval_response) jsmap option"
  rf_input_answers :: "(string, json) jsmap option"
  rf_interruption :: "interruption_state option"

fun last_assistant_from_end :: "message list \<Rightarrow> assistant_message option" where
  "last_assistant_from_end [] = None"
| "last_assistant_from_end (AssistantMsg m # earlier) = Some m"
| "last_assistant_from_end (_ # earlier) = last_assistant_from_end earlier"

definition last_assistant :: "message list \<Rightarrow> assistant_message option" where
  "last_assistant messages = last_assistant_from_end (rev messages)"

definition reify ::
    "string \<Rightarrow> assistant_message \<Rightarrow> pending_interrupt list \<Rightarrow> tool_call_suspension list \<Rightarrow> run_frame \<Rightarrow> string
     \<Rightarrow> string \<Rightarrow> nat \<Rightarrow> interruption_error + interruption_state" where
  "reify active_name assistant pending suspensions state turn_id new_id now =
     (let preferred = (case pending of
            p # _ \<Rightarrow> Some (pending_call_id p)
          | [] \<Rightarrow> (case suspensions of s # _ \<Rightarrow> Some (ts_call_id s) | [] \<Rightarrow> None));
          children = foldl (\<lambda>m s. jset (ts_call_id s) (is_root (ts_state s)) m) [] suspensions;
          frames = foldl (\<lambda>m s. spread m (is_frames (ts_state s))) [] suspensions;
          pending_input_ids = map pending_call_id (filter is_input pending);
          input_answers = filter (\<lambda>(call, _). call \<notin> set pending_input_ids)
            (case rf_input_answers state of Some m \<Rightarrow> m | None \<Rightarrow> [])
      in case interruption_anchor assistant preferred of
           Inl e \<Rightarrow> Inl e
         | Inr anchor \<Rightarrow> Inr
             \<lparr>is_version = 1, is_run_id = rf_run_id state, is_id = new_id, is_phase = Waiting,
              is_revision = (case rf_interruption state of Some p \<Rightarrow> is_revision p | None \<Rightarrow> 0) + 1,
              is_root = rf_frame_id state,
              is_frames = jset (rf_frame_id state)
                \<lparr>if_frame_id = rf_frame_id state, if_instance_id = rf_instance_id state,
                 if_address = rf_address state,
                 if_agent = \<lparr>ar_key = active_name, ar_name = active_name\<rparr>, if_turn_id = turn_id,
                 if_turns = rf_turns state, if_max_turns = rf_max_turns state, if_usage = rf_usage state,
                 if_anchor = anchor, if_pending = pending,
                 if_decisions = (case rf_answers state of Some m \<Rightarrow> m | None \<Rightarrow> []),
                 if_input_answers = (if input_answers = [] then None else Some input_answers),
                 if_children = children\<rparr> frames,
              is_created_at = now, is_updated_at = now\<rparr>)"

text \<open>\<open>pauseRun\<close>: only the root frame owns the store's cell.\<close>

definition pause_run ::
    "string \<Rightarrow> message list \<Rightarrow> pending_interrupt list \<Rightarrow> tool_call_suspension list \<Rightarrow> run_frame \<Rightarrow> string
     \<Rightarrow> string \<Rightarrow> nat \<Rightarrow> interruption_state option
     \<Rightarrow> interruption_error + interruption_state \<times> interruption_state option" where
  "pause_run active_name messages pending suspensions state turn_id new_id now cell =
     (case last_assistant messages of
        None \<Rightarrow> Inl NoAssistantMessage
      | Some assistant \<Rightarrow>
          (case reify active_name assistant pending suspensions state turn_id new_id now of
             Inl e \<Rightarrow> Inl e
           | Inr st \<Rightarrow> Inr (st, if rf_parent_frame_id state = None then Some st else cell)))"

section \<open>Resuming\<close>

text \<open>The \<open>catch\<close> of the resumed run, and its end without a further pause.\<close>

definition resume_failed :: "nat \<Rightarrow> interruption_state option \<Rightarrow> interruption_state option" where
  "resume_failed now cell =
     (case cell of
        Some s \<Rightarrow>
          if is_phase s = Resuming
          then Some (s\<lparr>is_phase := RecoveryRequired, is_revision := is_revision s + 1, is_updated_at := now\<rparr>)
          else Some s
      | None \<Rightarrow> None)"

definition resume_settled :: "interruption_state option \<Rightarrow> interruption_state option" where
  "resume_settled cell = None"

section \<open>The control tree\<close>

text \<open>The frame and everything below it is in the table, and nothing is below itself.\<close>

inductive visitable :: "(string, interruption_frame) jsmap \<Rightarrow> string \<Rightarrow> bool" for frames where
  visitable_frame: "map_of frames fid = Some f \<Longrightarrow> if_frame_id f = fid
     \<Longrightarrow> (\<And>c. c \<in> set (jvalues (if_children f)) \<Longrightarrow> visitable frames c) \<Longrightarrow> visitable frames fid"

definition interruption_ok :: "interruption_state \<Rightarrow> bool" where
  "interruption_ok s \<longleftrightarrow> jmap_ok (is_frames s) \<and> visitable (is_frames s) (is_root s)"

lemma visitable_mono:
  "visitable frames fid \<Longrightarrow> (\<And>k f. map_of frames k = Some f \<Longrightarrow> map_of frames' k = Some f)
     \<Longrightarrow> visitable frames' fid"
  by (induction rule: visitable.induct) (blast intro: visitable.intros)

lemma visit_deeper:
  "visit_frame d frames fid = Some r \<Longrightarrow> d \<le> d' \<Longrightarrow> visit_frame d' frames fid = Some r"
  "visit_frames d frames fids = Some r' \<Longrightarrow> d \<le> d' \<Longrightarrow> visit_frames d' frames fids = Some r'"
proof (induction d frames fid and d frames fids arbitrary: r d' and r' d'
    rule: visit_frame_visit_frames.induct)
  case (2 depth frames fid)
  then obtain e where e: "d' = Suc e" "depth \<le> e" by (cases d') auto
  show ?case
  proof (cases "map_of frames fid")
    case (Some f)
    with 2(2) obtain r1 where r1: "visit_frames depth frames (jvalues (if_children f)) = Some r1"
      by (cases "visit_frames depth frames (jvalues (if_children f))") simp_all
    with 2(1) [OF Some] e have "visit_frames e frames (jvalues (if_children f)) = Some r1" by blast
    with r1 2(2) Some e show ?thesis by simp
  qed (use 2(2) e in simp)
next
  case (4 depth frames c cs)
  then obtain r0 where r0: "visit_frame depth frames c = Some r0"
    by (cases "visit_frame depth frames c") simp_all
  with 4 have r0': "visit_frame d' frames c = Some r0" by blast
  show ?case
  proof (cases r0)
    case (Inr here)
    with 4 r0 obtain r1 where "visit_frames depth frames cs = Some r1"
      by (cases "visit_frames depth frames cs") simp_all
    moreover from this 4(2) [OF r0 Inr] 4(4) have "visit_frames d' frames cs = Some r1" by blast
    ultimately show ?thesis using 4(3) r0 r0' Inr by simp
  next
    case (Inl e)
    with 4(3) r0 have "r' = Inl e" by simp
    with Inl r0' show ?thesis by simp
  qed
qed auto

lemma visit_frames_all:
  assumes "\<And>c. c \<in> set cs \<Longrightarrow> \<exists>d ps. visit_frame d frames c = Some (Inr ps)"
  shows "\<exists>d ps. visit_frames d frames cs = Some (Inr ps)"
  using assms
proof (induction cs)
  case (Cons c cs)
  then obtain d ps e qs where "visit_frame d frames c = Some (Inr ps)" "visit_frames e frames cs = Some (Inr qs)"
    by (metis list.set_intros)
  then have "visit_frame (max d e) frames c = Some (Inr ps)" "visit_frames (max d e) frames cs = Some (Inr qs)"
    using visit_deeper by (metis max.cobounded1, metis max.cobounded2)
  then show ?case by (intro exI [of _ "max d e"] exI [of _ "ps @ qs"]) simp
qed simp

lemma visitable_visits: "visitable frames fid \<Longrightarrow> \<exists>d ps. visit_frame d frames fid = Some (Inr ps)"
proof (induction rule: visitable.induct)
  case (visitable_frame fid f)
  then obtain d ps where "visit_frames d frames (jvalues (if_children f)) = Some (Inr ps)"
    using visit_frames_all by metis
  with visitable_frame show ?case
    by (intro exI [of _ "Suc d"]) simp
qed

section \<open>A paused tree can be read back\<close>

lemma spread_Nil [simp]: "spread a [] = a"
  and spread_Cons [simp]: "spread a ((k, v) # b) = spread (jset k v a) b"
  by (simp_all add: spread_def)

lemma spread_lookup:
  "jmap_ok b \<Longrightarrow> map_of (spread a b) k = (case map_of b k of Some v \<Rightarrow> Some v | None \<Rightarrow> map_of a k)"
proof (induction b arbitrary: a)
  case (Cons x b)
  then have "k = fst x \<Longrightarrow> map_of b k = None" by (auto simp: map_of_eq_None_iff)
  with Cons show ?case by (cases x) (auto split: option.split)
qed simp

lemma spread_ok: "jmap_ok a \<Longrightarrow> jmap_ok (spread a b)"
  by (induction b arbitrary: a) (auto simp: split_paired_all)

definition merge_tables :: "tool_call_suspension list \<Rightarrow> (string, interruption_frame) jsmap
    \<Rightarrow> (string, interruption_frame) jsmap" where
  "merge_tables suspensions m = foldl (\<lambda>m s. spread m (is_frames (ts_state s))) m suspensions"

lemma merge_tables_simps [simp]:
  "merge_tables [] m = m"
  "merge_tables (s # ss) m = merge_tables ss (spread m (is_frames (ts_state s)))"
  by (simp_all add: merge_tables_def)

text \<open>Frame ids are random, so no frame occurs in two suspended subtrees.\<close>

definition tables_apart :: "string \<Rightarrow> tool_call_suspension list \<Rightarrow> bool" where
  "tables_apart fid suspensions \<longleftrightarrow>
     distinct (fid # concat (map (\<lambda>s. jkeys (is_frames (ts_state s))) suspensions))"

lemma merge_tables_keep:
  "map_of m k = Some f \<Longrightarrow> k \<notin> set (concat (map (\<lambda>s. jkeys (is_frames (ts_state s))) ss))
     \<Longrightarrow> list_all (\<lambda>s. jmap_ok (is_frames (ts_state s))) ss \<Longrightarrow> map_of (merge_tables ss m) k = Some f"
proof (induction ss arbitrary: m)
  case (Cons s ss)
  then have "map_of (is_frames (ts_state s)) k = None" by (simp add: map_of_eq_None_iff)
  with Cons show ?case by (simp add: spread_lookup)
qed simp

lemma merge_tables_lookup:
  "s \<in> set ss \<Longrightarrow> map_of (is_frames (ts_state s)) k = Some f
     \<Longrightarrow> distinct (concat (map (\<lambda>s. jkeys (is_frames (ts_state s))) ss))
     \<Longrightarrow> list_all (\<lambda>s. jmap_ok (is_frames (ts_state s))) ss \<Longrightarrow> map_of (merge_tables ss m) k = Some f"
proof (induction ss arbitrary: m)
  case (Cons s' ss)
  show ?case
  proof (cases "s = s'")
    case True
    then have "k \<in> set (jkeys (is_frames (ts_state s')))"
      using Cons.prems(2) by (force dest: map_of_SomeD)
    with Cons.prems have "k \<notin> set (concat (map (\<lambda>s. jkeys (is_frames (ts_state s))) ss))"
      by (simp only: list.map concat.simps distinct_append) blast
    moreover have "map_of (spread m (is_frames (ts_state s'))) k = Some f"
      using True Cons.prems by (simp add: spread_lookup)
    ultimately show ?thesis using Cons.prems(4) by (simp add: merge_tables_keep)
  next
    case False
    with Cons show ?thesis by simp
  qed
qed simp

lemma merge_tables_ok: "jmap_ok m \<Longrightarrow> jmap_ok (merge_tables ss m)"
  by (induction ss arbitrary: m) (simp_all add: spread_ok)

lemma child_values:
  "c \<in> set (jvalues (foldl (\<lambda>m s. jset (ts_call_id s) (is_root (ts_state s)) m) m ss))
     \<Longrightarrow> c \<in> set (jvalues m) \<or> (\<exists>s\<in>set ss. c = is_root (ts_state s))"
proof (induction ss arbitrary: m)
  case (Cons s ss)
  let ?m = "jset (ts_call_id s) (is_root (ts_state s)) m"
  have "set (jvalues (jset k v m)) \<subseteq> insert v (set (jvalues m))" for k :: string and v :: string
    by (induction m) auto
  then have "c \<in> set (jvalues ?m) \<Longrightarrow> c = is_root (ts_state s) \<or> c \<in> set (jvalues m)"
    by blast
  moreover have "c \<in> set (jvalues ?m) \<or> (\<exists>s\<in>set ss. c = is_root (ts_state s))"
    using Cons.prems by (intro Cons.IH) simp
  ultimately show ?case by auto
qed simp

lemma reify_ok:
  assumes "reify name assistant pending suspensions state turn new_id now = Inr st"
    and "list_all (\<lambda>s. interruption_ok (ts_state s)) suspensions"
    and "tables_apart (rf_frame_id state) suspensions"
  shows "interruption_ok st"
proof -
  define frames where "frames = merge_tables suspensions []"
  obtain f where f: "is_frames st = jset (rf_frame_id state) f frames" "is_root st = rf_frame_id state"
    "if_frame_id f = rf_frame_id state"
    "if_children f = foldl (\<lambda>m s. jset (ts_call_id s) (is_root (ts_state s)) m) [] suspensions"
    using assms(1) by (auto simp: reify_def Let_def frames_def merge_tables_def split: sum.splits)
  have oks: "list_all (\<lambda>s. jmap_ok (is_frames (ts_state s))) suspensions"
    using assms(2) by (auto simp: list_all_iff interruption_ok_def)
  have "visitable (is_frames st) (is_root (ts_state s))" if s: "s \<in> set suspensions" for s
  proof (rule visitable_mono)
    show "visitable (is_frames (ts_state s)) (is_root (ts_state s))"
      using assms(2) s by (auto simp: list_all_iff interruption_ok_def)
  next
    fix k g assume k: "map_of (is_frames (ts_state s)) k = Some g"
    then have "map_of frames k = Some g"
      using merge_tables_lookup [OF s k _ oks] assms(3) by (simp add: tables_apart_def frames_def)
    moreover have "k \<noteq> rf_frame_id state"
      using assms(3) s map_of_SomeD [OF k] by (force simp: tables_apart_def)
    ultimately show "map_of (is_frames st) k = Some g" by (simp add: f)
  qed
  then have below: "visitable (is_frames st) c" if "c \<in> set (jvalues (if_children f))" for c
    using child_values [of c "[]" suspensions] that unfolding f(4) by auto
  have "visitable (is_frames st) (is_root st)"
    by (rule visitable_frame [of _ _ f]) (simp add: f(1,2), simp add: f(2,3), rule below)
  then show ?thesis
    by (simp add: interruption_ok_def f frames_def merge_tables_ok)
qed

lemma flatten_total: "interruption_ok s \<Longrightarrow> \<exists>d ps. flatten_pending d s = Some (Inr ps)"
  using visitable_visits by (auto simp: interruption_ok_def flatten_pending_def)

text \<open>
  A pause is always readable: the control tree a frame reifies from its suspended children is
  closed and free of cycles, so listing its pending interrupts neither throws nor recurses
  without end; and the tree can be suspended under a parent in turn.
\<close>

theorem reified_tree_is_readable:
  assumes "reify name assistant pending suspensions state turn new_id now = Inr st"
    and "list_all (\<lambda>s. interruption_ok (ts_state s)) suspensions"
    and "tables_apart (rf_frame_id state) suspensions"
  shows "interruption_ok st \<and> (\<exists>depth ps. flatten_pending depth st = Some (Inr ps))"
  using reify_ok [OF assms] flatten_total by blast

section \<open>Answers reach the calls they name\<close>

text \<open>The last answer addressed to a call, by whichever key names it.\<close>

definition addressed :: "pending_run_interrupt list \<Rightarrow> string \<Rightarrow> string \<Rightarrow> string \<times> interrupt_answer \<Rightarrow> bool" where
  "addressed pending fid call ka =
     (case answer_target pending (fst ka) (snd ka) of
        Inr p \<Rightarrow> pn_frame_id p = fid \<and> pending_call_id (pn_item p) = call
      | Inl _ \<Rightarrow> False)"

fun last_approval :: "pending_run_interrupt list \<Rightarrow> string \<Rightarrow> string \<Rightarrow> (string \<times> interrupt_answer) list
    \<Rightarrow> approval_response option" where
  "last_approval pending fid call [] = None"
| "last_approval pending fid call (ka # answers) =
     (case last_approval pending fid call answers of
        Some r \<Rightarrow> Some r
      | None \<Rightarrow> (case snd ka of
            AnswerApproval r \<Rightarrow> if addressed pending fid call ka then Some r else None
          | AnswerInput _ \<Rightarrow> None))"

fun last_input :: "pending_run_interrupt list \<Rightarrow> string \<Rightarrow> string \<Rightarrow> (string \<times> interrupt_answer) list
    \<Rightarrow> json option" where
  "last_input pending fid call [] = None"
| "last_input pending fid call (ka # answers) =
     (case last_input pending fid call answers of
        Some r \<Rightarrow> Some r
      | None \<Rightarrow> (case snd ka of
            AnswerInput d \<Rightarrow> if addressed pending fid call ka then Some d else None
          | AnswerApproval _ \<Rightarrow> None))"

definition adds_ok :: "(string, (string, 'v) jsmap) jsmap \<Rightarrow> bool" where
  "adds_ok adds \<longleftrightarrow> (\<forall>fid m. map_of adds fid = Some m \<longrightarrow> jmap_ok m)"

lemma adds_ok_Nil [simp]: "adds_ok []"
  by (simp add: adds_ok_def)

lemma adds_ok_add [simp]: "adds_ok adds \<Longrightarrow> adds_ok (add_answer fid call v adds)"
  by (auto simp: adds_ok_def add_answer_def split: if_splits option.splits)

lemma additions_ok: "adds_ok adds \<Longrightarrow> jmap_ok (additions fid adds)"
  by (auto simp: adds_ok_def additions_def split: option.split)

lemma additions_Nil [simp]: "additions fid [] = []"
  by (simp add: additions_def)

lemma additions_add:
  "map_of (additions fid (add_answer fid' call' v adds)) call =
     (if fid = fid' \<and> call = call' then Some v else map_of (additions fid adds) call)"
  by (auto simp: additions_def add_answer_def split: option.split)

lemma collect_answers_additions:
  assumes "collect_answers pending answers ds is = Inr (ds', is')" and "adds_ok ds" and "adds_ok is"
  shows "adds_ok ds' \<and> adds_ok is'
    \<and> map_of (additions fid ds') call = (case last_approval pending fid call answers of
         Some r \<Rightarrow> Some r | None \<Rightarrow> map_of (additions fid ds) call)
    \<and> map_of (additions fid is') call = (case last_input pending fid call answers of
         Some r \<Rightarrow> Some r | None \<Rightarrow> map_of (additions fid is) call)"
  using assms
proof (induction answers arbitrary: ds "is")
  case (Cons ka answers)
  obtain key answer where ka: "ka = (key, answer)" by (cases ka)
  obtain p where p: "answer_target pending key answer = Inr p"
    using Cons.prems(1) ka by (cases "answer_target pending key answer") simp_all
  show ?case
  proof (cases answer)
    case (AnswerApproval r)
    with Cons.prems ka p have c: "collect_answers pending answers
        (add_answer (pn_frame_id p) (pending_call_id (pn_item p)) r ds) is = Inr (ds', is')" by simp
    show ?thesis
      using Cons.IH [OF c] Cons.prems(2,3)
      by (simp add: ka p [unfolded AnswerApproval] AnswerApproval addressed_def additions_add split: option.splits)
  next
    case (AnswerInput d)
    with Cons.prems ka p have c: "collect_answers pending answers ds
        (add_answer (pn_frame_id p) (pending_call_id (pn_item p)) d is) = Inr (ds', is')" by simp
    show ?thesis
      using Cons.IH [OF c] Cons.prems(2,3)
      by (simp add: ka p [unfolded AnswerInput] AnswerInput addressed_def additions_add split: option.splits)
  qed
qed auto

lemma apply_answers_cases:
  assumes "apply_interruption_answers depth now s answers = Some (Inr s')"
  obtains pending ds inputs where "flatten_pending depth s = Some (Inr pending)"
    and "collect_answers pending answers [] [] = Inr (ds, inputs)"
    and "s' = s\<lparr>is_phase := Resuming, is_revision := is_revision s + 1,
           is_frames := map (\<lambda>(fid, f). (fid,
             f\<lparr>if_decisions := spread (if_decisions f) (additions fid ds),
               if_input_answers := Some (spread (case if_input_answers f of Some m \<Rightarrow> m | None \<Rightarrow> [])
                                                  (additions fid inputs))\<rparr>)) (is_frames s),
           is_updated_at := now\<rparr>"
  using assms by (auto simp: apply_interruption_answers_def split: option.splits sum.splits)

lemma map_of_map_frames: "map_of (map (\<lambda>(k, v). (k, g k v)) m) k = map_option (g k) (map_of m k)"
  by (induction m) auto

text \<open>
  C31. Answers reach exactly the calls they name: after a successful merge each frame holds, for
  each call, the last answer of the right kind addressed to it, and what it held before where none
  was addressed; nothing else of a frame changes, and the revision moves on by one.
\<close>

theorem answers_routed_to_their_calls:
  assumes "apply_interruption_answers depth now s answers = Some (Inr s')"
    and "map_of (is_frames s) fid = Some f"
  shows "\<exists>pending f'. flatten_pending depth s = Some (Inr pending) \<and> map_of (is_frames s') fid = Some f'
    \<and> map_of (if_decisions f') call =
        (case last_approval pending fid call answers of
           Some r \<Rightarrow> Some r | None \<Rightarrow> map_of (if_decisions f) call)
    \<and> map_of (the (if_input_answers f')) call =
        (case last_input pending fid call answers of
           Some d \<Rightarrow> Some d | None \<Rightarrow> (case if_input_answers f of None \<Rightarrow> None | Some m \<Rightarrow> map_of m call))
    \<and> f' = f\<lparr>if_decisions := if_decisions f', if_input_answers := if_input_answers f'\<rparr>
    \<and> is_phase s' = Resuming \<and> is_revision s' = is_revision s + 1 \<and> is_id s' = is_id s"
proof -
  obtain pending ds inputs where p: "flatten_pending depth s = Some (Inr pending)"
    and c: "collect_answers pending answers [] [] = Inr (ds, inputs)"
    and s': "s' = s\<lparr>is_phase := Resuming, is_revision := is_revision s + 1,
           is_frames := map (\<lambda>(fid, f). (fid,
             f\<lparr>if_decisions := spread (if_decisions f) (additions fid ds),
               if_input_answers := Some (spread (case if_input_answers f of Some m \<Rightarrow> m | None \<Rightarrow> [])
                                                  (additions fid inputs))\<rparr>)) (is_frames s),
           is_updated_at := now\<rparr>"
    using apply_answers_cases [OF assms(1)] by blast
  note adds = collect_answers_additions [OF c adds_ok_Nil adds_ok_Nil, of fid call]
  have ok: "jmap_ok (additions fid ds)" "jmap_ok (additions fid inputs)"
    using adds by (auto intro: additions_ok)
  define f' where "f' = f\<lparr>if_decisions := spread (if_decisions f) (additions fid ds),
    if_input_answers := Some (spread (case if_input_answers f of Some m \<Rightarrow> m | None \<Rightarrow> []) (additions fid inputs))\<rparr>"
  have "map_of (is_frames s') fid = Some f'"
    using assms(2) by (simp add: s' map_of_map_frames f'_def)
  moreover have "map_of (if_decisions f') call =
      (case last_approval pending fid call answers of Some r \<Rightarrow> Some r | None \<Rightarrow> map_of (if_decisions f) call)"
    using adds by (simp add: f'_def spread_lookup [OF ok(1)] split: option.splits)
  moreover have "map_of (the (if_input_answers f')) call =
      (case last_input pending fid call answers of
         Some d \<Rightarrow> Some d | None \<Rightarrow> (case if_input_answers f of None \<Rightarrow> None | Some m \<Rightarrow> map_of m call))"
    using adds by (simp add: f'_def spread_lookup [OF ok(2)] split: option.splits)
  moreover have "f' = f\<lparr>if_decisions := if_decisions f', if_input_answers := if_input_answers f'\<rparr>"
    by (simp add: f'_def)
  ultimately show ?thesis
    using p by (intro exI [of _ pending] exI [of _ f'] conjI) (simp_all add: s')
qed

lemma apply_answers_identity:
  "apply_interruption_answers depth now s answers = Some (Inr s') \<Longrightarrow>
     is_id s' = is_id s \<and> is_revision s' = Suc (is_revision s)"
  by (erule apply_answers_cases) simp

section \<open>The paused batch is found again\<close>

lemma find_anchored_skips:
  "list_all (\<lambda>m. carries_call anchor m = None) later
     \<Longrightarrow> find_anchored_from_end (later @ earlier) anchor = find_anchored_from_end earlier anchor"
  by (induction later) simp_all

lemma find_anchored_last:
  "last_assistant_from_end ms = Some a \<Longrightarrow> list_ex (\<lambda>c. tc_id c = anchor) (assistant_tool_calls a)
     \<Longrightarrow> find_anchored_from_end ms anchor = Inr a"
  by (induction ms rule: last_assistant_from_end.induct) (auto simp: carries_call_def)

lemma interruption_anchor_in_batch:
  "interruption_anchor m preferred = Inr anchor \<Longrightarrow> list_ex (\<lambda>c. tc_id c = anchor) (assistant_tool_calls m)"
  by (auto simp: interruption_anchor_def Let_def split: list.splits if_splits)

lemma reify_root:
  "reify name assistant pending suspensions state turn new_id now = Inr st \<Longrightarrow>
     \<exists>f. map_of (is_frames st) (is_root st) = Some f \<and> if_pending f = pending
       \<and> list_ex (\<lambda>c. tc_id c = if_anchor f) (assistant_tool_calls assistant)
       \<and> (\<forall>p. p \<in> set pending \<longrightarrow> is_input p \<longrightarrow>
            (case if_input_answers f of None \<Rightarrow> True | Some m \<Rightarrow> map_of m (pending_call_id p) = None))"
  by (auto simp: reify_def Let_def map_of_eq_None_iff dest!: interruption_anchor_in_batch split: sum.splits)

text \<open>
  A resume continues the batch that was paused: in the log as it is after the pause, with any
  further messages that are not assistant messages, the root frame's anchor leads back to the
  assistant message whose calls were paused.
\<close>

theorem paused_batch_is_found:
  assumes "pause_run name messages pending suspensions state turn new_id now cell = Inr (st, cell')"
    and "list_all (\<lambda>m. \<not> (\<exists>a. m = AssistantMsg a)) later"
  shows "\<exists>f a. map_of (is_frames st) (is_root st) = Some f \<and> last_assistant messages = Some a
    \<and> find_anchored_assistant (messages @ later) (if_anchor f) = Inr a"
proof -
  obtain a where a: "last_assistant messages = Some a"
    and r: "reify name a pending suspensions state turn new_id now = Inr st"
    using assms(1) by (auto simp: pause_run_def split: option.splits sum.splits)
  obtain f where f: "map_of (is_frames st) (is_root st) = Some f"
    "list_ex (\<lambda>c. tc_id c = if_anchor f) (assistant_tool_calls a)"
    using reify_root [OF r] by blast
  have "list_all (\<lambda>m. carries_call (if_anchor f) m = None) (rev later)"
    using assms(2) by (auto simp: list_all_iff carries_call_def split: message.splits)
  then have "find_anchored_assistant (messages @ later) (if_anchor f) = Inr a"
    using find_anchored_last [OF _ f(2)] a
    by (simp add: find_anchored_assistant_def find_anchored_skips last_assistant_def)
  with f a show ?thesis by blast
qed

text \<open>
  An input answer is used once: a call that suspends again for input after consuming its
  answer has none in the new paused frame.
\<close>

theorem suspended_again_loses_answer:
  assumes "reify name assistant pending suspensions state turn new_id now = Inr st"
    and "PendInput p \<in> set pending"
  shows "\<exists>f. map_of (is_frames st) (is_root st) = Some f
    \<and> (case if_input_answers f of None \<Rightarrow> True | Some m \<Rightarrow> map_of m (pi_call_id p) = None)"
  using reify_root [OF assms(1)] assms(2) by (metis is_input.simps(1) pending_call_id.simps(2))

section \<open>A paused frame\<close>

definition demo_usage :: usage where
  "demo_usage = \<lparr>us_input = 0, us_output = 0, us_cache_read = 0, us_cache_write = 0\<rparr>"

definition demo_assistant :: assistant_message where
  "demo_assistant = \<lparr>am_content = [TextPart ''x'', ToolCallPart \<lparr>tc_id = ''c1'', tc_name = ''Ask'', tc_arguments = JNull\<rparr>],
     am_stop_reason = StopToolUse, am_error_message = None, am_usage = demo_usage\<rparr>"

definition demo_input :: pending_input where
  "demo_input = \<lparr>pi_call_id = ''c1'', pi_tool_name = ''Ask'', pi_request = JNull, pi_state = Some (JNum 1)\<rparr>"

definition demo_run_frame :: run_frame where
  "demo_run_frame = \<lparr>rf_run_id = ''r'', rf_frame_id = ''f'', rf_parent_frame_id = None, rf_instance_id = ''i'',
     rf_address = ''main'', rf_turns = 1, rf_max_turns = 9, rf_usage = demo_usage, rf_answers = None,
     rf_input_answers = Some [(''c1'', JNum 7)], rf_interruption = None\<rparr>"

definition demo_paused :: interruption_state where
  "demo_paused = \<lparr>is_version = 1, is_run_id = ''r'', is_id = ''n'', is_phase = Waiting, is_revision = 1,
     is_root = ''f'', is_frames = [(''f'', \<lparr>if_frame_id = ''f'', if_instance_id = ''i'', if_address = ''main'',
       if_agent = \<lparr>ar_key = ''A'', ar_name = ''A''\<rparr>, if_turn_id = ''t'', if_turns = 1, if_max_turns = 9,
       if_usage = demo_usage, if_anchor = ''c1'', if_pending = [PendInput demo_input], if_decisions = [],
       if_input_answers = None, if_children = []\<rparr>)], is_created_at = 5, is_updated_at = 5\<rparr>"

lemma demo_reify:
  "reify ''A'' demo_assistant [PendInput demo_input] [] demo_run_frame ''t'' ''n'' 5 = Inr demo_paused"
  by (simp add: reify_def demo_assistant_def demo_input_def demo_run_frame_def demo_paused_def
      interruption_anchor_def assistant_tool_calls_def map_filter_simps)

lemma demo_pause:
  "pause_run ''A'' [AssistantMsg demo_assistant] [PendInput demo_input] [] demo_run_frame ''t'' ''n'' 5 None
     = Inr (demo_paused, Some demo_paused)"
  by (simp add: pause_run_def last_assistant_def demo_reify) (simp add: demo_run_frame_def)

lemma reified_tree_is_readable_witness:
  "interruption_ok demo_paused \<and> (\<exists>depth ps. flatten_pending depth demo_paused = Some (Inr ps))"
  by (rule reified_tree_is_readable [OF demo_reify]) (simp_all add: tables_apart_def)

lemma answers_routed_to_their_calls_witness:
  "\<exists>(s' :: interruption_state) pending f'. flatten_pending 1 demo_paused = Some (Inr pending) \<and> map_of (is_frames s') ''f'' = Some f'
     \<and> map_of (the (if_input_answers f')) ''c1'' =
         (case last_input pending ''f'' ''c1'' [(''f:c1'', AnswerInput (JNum 3))] of Some d \<Rightarrow> Some d | None \<Rightarrow> None)
     \<and> is_revision s' = is_revision demo_paused + 1"
proof -
  obtain s' where s': "apply_interruption_answers 1 6 demo_paused [(''f:c1'', AnswerInput (JNum 3))] = Some (Inr s')"
    by (simp add: apply_interruption_answers_def flatten_pending_def demo_paused_def demo_input_def
        answer_target_def public_of_def approval_id_def answer_is_input_def)
  obtain f where f: "map_of (is_frames demo_paused) ''f'' = Some f" "if_input_answers f = None"
    by (simp add: demo_paused_def)
  from answers_routed_to_their_calls [OF s' f(1), of "''c1''"] show ?thesis
    unfolding f(2) option.case(1) by blast
qed

lemma paused_batch_is_found_witness:
  "\<exists>f a. map_of (is_frames demo_paused) (is_root demo_paused) = Some f
    \<and> last_assistant [AssistantMsg demo_assistant] = Some a
    \<and> find_anchored_assistant ([AssistantMsg demo_assistant] @ [SystemMsg ''later'']) (if_anchor f) = Inr a"
  by (rule paused_batch_is_found [OF demo_pause]) simp

lemma suspended_again_loses_answer_witness:
  "\<exists>f. map_of (is_frames demo_paused) (is_root demo_paused) = Some f
    \<and> (case if_input_answers f of None \<Rightarrow> True | Some m \<Rightarrow> map_of m (pi_call_id demo_input) = None)"
  by (rule suspended_again_loses_answer [OF demo_reify]) simp

end
