(* ===== verification/Tool_Access.thy ===== *)
theory Tool_Access
  imports Agent_Prelude
begin

text \<open>
  The resource accesses a tool call declares and the conflict test the scheduler uses
  (\<open>agents-core/src/tool/access.ts\<close>): the access types, their constructors, path normalisation
  and the test itself. The abstract reading of an access is the set of normalised paths it may
  touch (\<open>inside\<close>); the overlap test is proved to decide that two such sets meet.
\<close>

named_theorems access_defs "definitions of the access test"

datatype tool_file_access_operation = OpRead | OpWrite | OpReadWrite | OpSearch

record tool_file_access =
  fa_operation :: tool_file_access_operation
  fa_path :: string
  fa_recursive :: "bool option"

datatype tool_resource_access = FileAccess tool_file_access | AllAccess

type_synonym tool_accesses = "tool_resource_access list"

section \<open>Constructors\<close>

definition accesses_none :: tool_accesses where
  "accesses_none = []"

definition accesses_all :: tool_accesses where
  "accesses_all = [AllAccess]"

definition accesses_file :: "tool_file_access_operation \<Rightarrow> string \<Rightarrow> bool option \<Rightarrow> tool_accesses" where
  "accesses_file op p r = [FileAccess \<lparr>fa_operation = op, fa_path = p, fa_recursive = r\<rparr>]"

definition read_file :: "string \<Rightarrow> tool_accesses" where
  "read_file p = accesses_file OpRead p None"

definition read_tree :: "string \<Rightarrow> tool_accesses" where
  "read_tree p = accesses_file OpRead p (Some True)"

definition write_file :: "string \<Rightarrow> tool_accesses" where
  "write_file p = accesses_file OpWrite p None"

definition write_tree :: "string \<Rightarrow> tool_accesses" where
  "write_tree p = accesses_file OpWrite p (Some True)"

definition read_write_file :: "string \<Rightarrow> tool_accesses" where
  "read_write_file p = accesses_file OpReadWrite p None"

definition read_write_tree :: "string \<Rightarrow> tool_accesses" where
  "read_write_tree p = accesses_file OpReadWrite p (Some True)"

definition search_tree :: "string \<Rightarrow> tool_accesses" where
  "search_tree p = accesses_file OpSearch p (Some True)"

section \<open>Paths\<close>

text \<open>The regular expression replacement of a run of slashes by one.\<close>

fun collapse_slashes :: "string \<Rightarrow> string" where
  "collapse_slashes (c # d # cs) =
     (if c = CHR ''/'' \<and> d = CHR ''/'' then collapse_slashes (d # cs)
      else c # collapse_slashes (d # cs))"
| "collapse_slashes cs = cs"

definition normalize_path :: "string \<Rightarrow> string" where
  "normalize_path path =
     (let normalized = collapse_slashes (map (\<lambda>c. if c = CHR 0x5C then CHR ''/'' else c) path);
          folded = js_lower normalized
      in if length folded > 1 \<and> suffix ''/'' folded then butlast folded else folded)"

definition dir_prefix :: "string \<Rightarrow> string" where
  "dir_prefix p = (if suffix ''/'' p then p else p @ ''/'')"

section \<open>The conflict test\<close>

fun file_operation_writes :: "tool_file_access_operation \<Rightarrow> bool" where
  "file_operation_writes OpRead = False"
| "file_operation_writes OpSearch = False"
| "file_operation_writes OpWrite = True"
| "file_operation_writes OpReadWrite = True"

definition file_operations_conflict ::
    "tool_file_access_operation \<Rightarrow> tool_file_access_operation \<Rightarrow> bool" where
  "file_operations_conflict l r \<longleftrightarrow> file_operation_writes l \<or> file_operation_writes r"

definition file_accesses_overlap :: "tool_file_access \<Rightarrow> tool_file_access \<Rightarrow> bool" where
  "file_accesses_overlap left right =
     (let left_path = normalize_path (fa_path left);
          right_path = normalize_path (fa_path right)
      in if left_path = right_path then True
         else
           (let left_prefix = dir_prefix left_path;
                right_prefix = dir_prefix right_path
            in (fa_recursive left = Some True \<and> prefix left_prefix right_path)
             \<or> (fa_recursive right = Some True \<and> prefix right_prefix left_path)))"

fun resource_accesses_conflict :: "tool_resource_access \<Rightarrow> tool_resource_access \<Rightarrow> bool" where
  "resource_accesses_conflict AllAccess _ = True"
| "resource_accesses_conflict _ AllAccess = True"
| "resource_accesses_conflict (FileAccess l) (FileAccess r) =
     (if \<not> file_operations_conflict (fa_operation l) (fa_operation r) then False
      else file_accesses_overlap l r)"

definition accesses_conflict :: "tool_accesses \<Rightarrow> tool_accesses \<Rightarrow> bool" where
  "accesses_conflict left right \<longleftrightarrow>
     list_ex (\<lambda>l. list_ex (\<lambda>r. resource_accesses_conflict l r) right) left"

lemmas access_unfolds [access_defs] =
  accesses_none_def accesses_all_def accesses_file_def read_file_def read_tree_def write_file_def
  write_tree_def read_write_file_def read_write_tree_def search_tree_def file_operations_conflict_def

section \<open>Facts on paths\<close>

lemma collapse_slashes_length: "length (collapse_slashes s) \<le> length s"
  by (induction s rule: collapse_slashes.induct) auto

lemma collapse_slashes_hd: "s \<noteq> [] \<Longrightarrow> collapse_slashes s \<noteq> [] \<and> hd (collapse_slashes s) = hd s"
  by (induction s rule: collapse_slashes.induct) auto

text \<open>No two neighbouring slashes.\<close>

fun single_slashes :: "string \<Rightarrow> bool" where
  "single_slashes (c # d # cs) \<longleftrightarrow> \<not> (c = CHR ''/'' \<and> d = CHR ''/'') \<and> single_slashes (d # cs)"
| "single_slashes cs \<longleftrightarrow> True"

lemma single_slashes_Cons:
  "single_slashes (c # s) \<longleftrightarrow> (s \<noteq> [] \<longrightarrow> \<not> (c = CHR ''/'' \<and> hd s = CHR ''/'')) \<and> single_slashes s"
  by (cases s) auto

lemma collapse_slashes_single: "single_slashes (collapse_slashes s)"
proof (induction s rule: collapse_slashes.induct)
  case (1 c d cs)
  then show ?case
    using collapse_slashes_hd [of "d # cs"] by (auto simp: single_slashes_Cons)
qed auto

lemma collapse_slashes_id: "single_slashes s \<Longrightarrow> collapse_slashes s = s"
  by (induction s rule: collapse_slashes.induct) auto

lemma js_lower_char_slash [simp]: "js_lower_char c = CHR ''/'' \<longleftrightarrow> c = CHR ''/''"
proof
  assume a: "js_lower_char c = CHR ''/''"
  have b: "(of_char c :: nat) < 256" by simp
  have "of_char (js_lower_char c) = (47 :: nat)" using a by simp
  then have "(of_char c :: nat) = 47"
    using b by (auto simp: js_lower_char_def Let_def split: if_splits)
  then have "of_char c = (of_char (CHR ''/'') :: nat)" by simp
  then show "c = CHR ''/''" by (simp only: of_char_eq_iff)
qed (simp add: js_lower_char_def)

lemma single_slashes_lower: "single_slashes (js_lower s) = single_slashes s"
  by (induction s rule: single_slashes.induct) (auto simp: js_lower_def)

lemma single_slashes_butlast: "single_slashes s \<Longrightarrow> single_slashes (butlast s)"
proof (induction s rule: single_slashes.induct)
  case (1 c d cs)
  then show ?case by (cases cs) (auto simp: single_slashes_Cons)
qed auto

lemma suffix_slash: "suffix ''/'' s \<longleftrightarrow> s \<noteq> [] \<and> last s = CHR ''/''"
proof
  assume "s \<noteq> [] \<and> last s = CHR ''/''"
  then have "s = butlast s @ ''/''" using append_butlast_last_id [of s] by simp
  then show "suffix ''/'' s" by (rule suffixI)
qed (auto simp: suffix_def)

text \<open>A single-slash string that ends in a slash has no slash before it.\<close>

lemma single_slashes_last:
  "single_slashes s \<Longrightarrow> length s > 1 \<Longrightarrow> last s = CHR ''/'' \<Longrightarrow> last (butlast s) \<noteq> CHR ''/''"
proof (induction s rule: single_slashes.induct)
  case (1 c d cs)
  then show ?case by (cases cs) auto
qed auto

definition backslash_free :: "string \<Rightarrow> bool" where
  "backslash_free s \<longleftrightarrow> CHR 0x5C \<notin> set s"

lemma backslash_map_id: "backslash_free s \<Longrightarrow> map (\<lambda>c. if c = CHR 0x5C then CHR ''/'' else c) s = s"
  by (induction s) (auto simp: backslash_free_def)

lemma set_collapse: "set (collapse_slashes s) \<subseteq> set s"
  by (induction s rule: collapse_slashes.induct) auto

lemma js_lower_char_backslash [simp]: "js_lower_char c = CHR 0x5C \<longleftrightarrow> c = CHR 0x5C"
proof
  assume a: "js_lower_char c = CHR 0x5C"
  have b: "(of_char c :: nat) < 256" by simp
  have "of_char (js_lower_char c) = (92 :: nat)" using a by simp
  then have "(of_char c :: nat) = 92"
    using b by (auto simp: js_lower_char_def Let_def split: if_splits)
  then have "of_char c = (of_char (CHR 0x5C) :: nat)" by simp
  then show "c = CHR 0x5C" by (simp only: of_char_eq_iff)
qed (simp add: js_lower_char_def)

lemma backslash_free_lower: "backslash_free (js_lower s) = backslash_free s"
  by (induction s) (auto simp: backslash_free_def js_lower_def eq_commute [of "CHR 0x5C"])

text \<open>What every normalised path satisfies, and that these three facts characterise the
  fixed points of normalisation.\<close>

definition path_normal :: "string \<Rightarrow> bool" where
  "path_normal s \<longleftrightarrow> backslash_free s \<and> single_slashes s \<and> js_lower s = s
     \<and> (length s > 1 \<longrightarrow> \<not> suffix ''/'' s)"

lemma path_normal_fixed: "path_normal s \<Longrightarrow> normalize_path s = s"
  by (auto simp: path_normal_def normalize_path_def backslash_map_id collapse_slashes_id Let_def)

lemma normalize_path_normal: "path_normal (normalize_path p)"
proof -
  let ?n = "collapse_slashes (map (\<lambda>c. if c = CHR 0x5C then CHR ''/'' else c) p)"
  let ?f = "js_lower ?n"
  have bf: "backslash_free ?f"
    using set_collapse [of "map (\<lambda>c. if c = CHR 0x5C then CHR ''/'' else c) p"]
    by (auto simp: backslash_free_lower) (auto simp: backslash_free_def dest!: subsetD)
  have ss: "single_slashes ?f"
    by (simp add: single_slashes_lower collapse_slashes_single)
  have lo: "js_lower (butlast ?f) = butlast ?f"
    by (simp add: js_lower_def map_butlast [symmetric] comp_def)
  show ?thesis
  proof (cases "length ?f > 1 \<and> suffix ''/'' ?f")
    case True
    have "backslash_free (butlast ?f)"
      using bf in_set_butlastD [of "CHR 0x5C" ?f] by (auto simp: backslash_free_def)
    moreover have "\<not> suffix ''/'' (butlast ?f)"
      using True single_slashes_last [OF ss] by (auto simp: suffix_slash)
    ultimately show ?thesis
      using True ss lo by (simp add: path_normal_def normalize_path_def Let_def single_slashes_butlast)
  next
    case False
    then show ?thesis
      using bf ss by (auto simp: path_normal_def normalize_path_def Let_def)
  qed
qed

text \<open>
  Path normalisation is idempotent: a path the tool already normalised is compared as it
  stands, so the order in which callers normalise does not change a conflict decision.
\<close>

theorem normalize_path_idem: "normalize_path (normalize_path p) = normalize_path p"
  by (rule path_normal_fixed [OF normalize_path_normal])

section \<open>The test decides whether two accesses can meet\<close>

definition inside :: "tool_file_access \<Rightarrow> string \<Rightarrow> bool" where
  "inside a p \<longleftrightarrow> p = normalize_path (fa_path a)
     \<or> fa_recursive a = Some True \<and> prefix (dir_prefix (normalize_path (fa_path a))) p"

lemma prefix_dir_prefix: "prefix p (dir_prefix p)"
  by (simp add: dir_prefix_def)

lemma dir_prefix_prefixes:
  assumes "prefix (dir_prefix a) x" and "prefix (dir_prefix b) x" and "a \<noteq> b"
  shows "prefix (dir_prefix a) b \<or> prefix (dir_prefix b) a"
proof -
  have half: "prefix (dir_prefix u) v \<or> prefix (dir_prefix v) u"
    if pre: "prefix (dir_prefix u) (dir_prefix v)" and ne: "u \<noteq> v" for u v
  proof (cases "suffix ''/'' v")
    case True
    then show ?thesis using pre by (simp add: dir_prefix_def)
  next
    case False
    then consider "dir_prefix u = v @ ''/''" | "prefix (dir_prefix u) v"
      using pre by (auto simp: dir_prefix_def)
    then show ?thesis
    proof cases
      case 1
      with ne have "u = v @ ''/''" by (auto simp: dir_prefix_def split: if_splits)
      with False show ?thesis by (simp add: dir_prefix_def)
    qed simp
  qed
  show ?thesis
    using prefix_same_cases [OF assms(1,2)] half [of a b] half [of b a] assms(3) by blast
qed

lemma overlap_common:
  "file_accesses_overlap l r \<longleftrightarrow> (\<exists>p. inside l p \<and> inside r p)"
proof
  assume "file_accesses_overlap l r"
  then show "\<exists>p. inside l p \<and> inside r p"
    by (auto simp: file_accesses_overlap_def inside_def Let_def split: if_splits)
next
  assume "\<exists>p. inside l p \<and> inside r p"
  then show "file_accesses_overlap l r"
    using dir_prefix_prefixes [of "normalize_path (fa_path l)" _ "normalize_path (fa_path r)"]
    by (auto simp: file_accesses_overlap_def inside_def Let_def)
qed

text \<open>
  The overlap test is exact: it holds iff some path lies inside both accesses, where an
  access covers its own normalised path and, when recursive, everything below it.
\<close>

theorem overlap_iff_common_path:
  "file_accesses_overlap l r \<longleftrightarrow> (\<exists>p. inside l p \<and> inside r p)"
  by (rule overlap_common)

lemma file_accesses_overlap_sym: "file_accesses_overlap l r = file_accesses_overlap r l"
  by (auto simp: overlap_common)

lemma file_operations_conflict_sym: "file_operations_conflict a b = file_operations_conflict b a"
  by (auto simp: file_operations_conflict_def)

lemma resource_accesses_conflict_sym: "resource_accesses_conflict a b = resource_accesses_conflict b a"
  by (cases a; cases b) (auto simp: file_accesses_overlap_sym file_operations_conflict_sym)

text \<open>
  Conflict is symmetric, so the scheduler may ask it of a task and a candidate in either
  order.
\<close>

lemma accesses_conflict_sym: "accesses_conflict a b = accesses_conflict b a"
  unfolding accesses_conflict_def list_ex_iff using resource_accesses_conflict_sym by blast

text \<open>Which pairs never conflict: nothing declared, or two accesses that only read.\<close>

lemma conflict_none: "\<not> accesses_conflict accesses_none b"
  by (simp add: accesses_conflict_def accesses_none_def)

lemma conflict_all: "accesses_conflict accesses_all b \<longleftrightarrow> b \<noteq> []"
  by (cases b) (auto simp: accesses_conflict_def accesses_all_def list_ex_iff)

lemma conflict_reads: "\<not> accesses_conflict (read_tree p) (search_tree q)"
  by (simp add: accesses_conflict_def access_defs)

end
