(* ===== verification/Tool_Scheduler.thy ===== *)
theory Tool_Scheduler
  imports Tool_Access
begin

text \<open>
  The scheduler of one batch of tool calls (\<open>agents-core/src/loop/scheduler.ts\<close>,
  class \<open>ToolScheduler\<close>): \<open>add\<close>, \<open>isBlocked\<close>, \<open>start\<close>, \<open>finish\<close> and \<open>startQueuedTasks\<close> over the
  two task lists, and the runs of the scheduler as an inductive relation. The settling of a
  started task is an event of the environment, as it is in the code (a promise reaction).

  \<open>start\<close> of a task may throw before it returns a promise; \<open>finish\<close> and \<open>startQueuedTasks\<close>
  then run inside the running \<open>startQueuedTasks\<close>. That recursion is kept: \<open>drain_queue\<close> takes
  the depth it may reach as fuel and returns \<open>None\<close> when it is exceeded.
\<close>

record tool_call_task =
  tk_id :: nat
  tk_accesses :: tool_accesses
  tk_start_throws :: bool

record scheduler =
  active_tasks :: "tool_call_task list"
  queued_tasks :: "tool_call_task list"

definition scheduler_new :: scheduler where
  "scheduler_new = \<lparr>active_tasks = [], queued_tasks = []\<rparr>"

definition conflicts_with_any :: "tool_call_task \<Rightarrow> tool_call_task list \<Rightarrow> bool" where
  "conflicts_with_any task candidates \<longleftrightarrow>
     list_ex (\<lambda>c. accesses_conflict (tk_accesses task) (tk_accesses c)) candidates"

definition is_blocked :: "tool_call_task \<Rightarrow> tool_call_task list \<Rightarrow> scheduler \<Rightarrow> bool" where
  "is_blocked task queued_before s \<longleftrightarrow>
     conflicts_with_any task (active_tasks s) \<or> conflicts_with_any task queued_before"

text \<open>\<open>startQueuedTasks\<close>: the loop over the list it found, with \<open>start\<close> of a task unfolded in
  it. A task whose \<open>start\<close> throws is pushed, rejected and removed again by \<open>finish\<close>, which
  runs the loop anew over the list that is still installed.\<close>

function drain_queue ::
    "nat \<Rightarrow> tool_call_task list \<Rightarrow> tool_call_task list \<Rightarrow> scheduler \<Rightarrow> scheduler option" where
  "drain_queue fuel [] still s = Some (s\<lparr>queued_tasks := still\<rparr>)"
| "drain_queue fuel (t # ts) still s =
     (if is_blocked t still s then drain_queue fuel ts (still @ [t]) s
      else if tk_start_throws t then
        (case fuel of
           0 \<Rightarrow> None
         | Suc n \<Rightarrow>
            (case drain_queue n (queued_tasks s) []
                    (s\<lparr>active_tasks := remove1 t (active_tasks s @ [t])\<rparr>) of
               None \<Rightarrow> None
             | Some s' \<Rightarrow> drain_queue fuel ts still s'))
      else drain_queue fuel ts still (s\<lparr>active_tasks := active_tasks s @ [t]\<rparr>))"
  by pat_completeness auto
termination
  by (relation "measures [\<lambda>(fuel, ts, still, s). fuel, \<lambda>(fuel, ts, still, s). length ts]") auto

definition finish_task :: "nat \<Rightarrow> tool_call_task \<Rightarrow> scheduler \<Rightarrow> scheduler option" where
  "finish_task fuel t s =
     (let s' = s\<lparr>active_tasks := remove1 t (active_tasks s)\<rparr>
      in drain_queue fuel (queued_tasks s') [] s')"

definition start_task :: "nat \<Rightarrow> tool_call_task \<Rightarrow> scheduler \<Rightarrow> scheduler option" where
  "start_task fuel t s =
     (let s' = s\<lparr>active_tasks := active_tasks s @ [t]\<rparr>
      in if tk_start_throws t then finish_task fuel t s' else Some s')"

definition add_task :: "nat \<Rightarrow> tool_call_task \<Rightarrow> scheduler \<Rightarrow> scheduler option" where
  "add_task fuel t s =
     (if is_blocked t (queued_tasks s) s then Some (s\<lparr>queued_tasks := queued_tasks s @ [t]\<rparr>)
      else start_task fuel t s)"

section \<open>Conflict-free sets of tasks\<close>

text \<open>The laws a conflict relation gives the scheduler, whatever the resources are.\<close>

locale conflict_relation =
  fixes conf :: "'t \<Rightarrow> 't \<Rightarrow> bool"
  assumes conf_sym: "conf a b \<Longrightarrow> conf b a"
begin

lemma successively_apart_snoc:
  "sorted_wrt (\<lambda>a b. \<not> conf a b) (ts @ [t]) \<longleftrightarrow>
   sorted_wrt (\<lambda>a b. \<not> conf a b) ts \<and> \<not> list_ex (conf t) ts"
  by (auto simp: sorted_wrt_append list_ex_iff dest: conf_sym)

lemma apart_any_order:
  "sorted_wrt (\<lambda>a b. \<not> conf a b) ts \<Longrightarrow> a \<in> set ts \<Longrightarrow> b \<in> set ts \<Longrightarrow> a \<noteq> b \<Longrightarrow> \<not> conf a b"
proof (induction ts)
  case (Cons t ts)
  then show ?case using conf_sym by auto
qed simp

lemma apart_remove1:
  "sorted_wrt (\<lambda>a b. \<not> conf a b) ts \<Longrightarrow> sorted_wrt (\<lambda>a b. \<not> conf a b) (remove1 t ts)"
proof (induction ts)
  case (Cons u ts)
  then show ?case using set_remove1_subset [of t ts] by auto
qed simp

end

definition tasks_conflict :: "tool_call_task \<Rightarrow> tool_call_task \<Rightarrow> bool" where
  "tasks_conflict a b \<longleftrightarrow> accesses_conflict (tk_accesses a) (tk_accesses b)"

interpretation tasks: conflict_relation tasks_conflict
  by unfold_locales (simp add: tasks_conflict_def accesses_conflict_sym)

lemma conflicts_with_any_iff: "conflicts_with_any t cs \<longleftrightarrow> list_ex (tasks_conflict t) cs"
  by (simp add: conflicts_with_any_def tasks_conflict_def [abs_def])

lemma is_blocked_iff:
  "is_blocked t before s \<longleftrightarrow> list_ex (tasks_conflict t) (active_tasks s @ before)"
  by (auto simp: is_blocked_def conflicts_with_any_iff)

section \<open>Draining without synchronous throws\<close>

text \<open>
  The engine starts every task with an \<open>async\<close> function, which cannot throw before it returns;
  on such tasks the recursion is never entered and no fuel is spent.
\<close>

fun drain :: "tool_call_task list \<Rightarrow> tool_call_task list \<Rightarrow> tool_call_task list
    \<Rightarrow> tool_call_task list \<times> tool_call_task list" where
  "drain [] still act = (act, still)"
| "drain (t # ts) still act =
     (if list_ex (tasks_conflict t) (act @ still) then drain ts (still @ [t]) act
      else drain ts still (act @ [t]))"

definition no_throws :: "tool_call_task list \<Rightarrow> bool" where
  "no_throws ts \<longleftrightarrow> list_all (\<lambda>t. \<not> tk_start_throws t) ts"

lemma drain_queue_drain:
  "no_throws ts \<Longrightarrow> drain_queue fuel ts still s =
     Some (s\<lparr>active_tasks := fst (drain ts still (active_tasks s)),
            queued_tasks := snd (drain ts still (active_tasks s))\<rparr>)"
  by (induction ts arbitrary: still s) (auto simp: no_throws_def is_blocked_iff)

lemma drain_parts:
  "drain ts still act = (act', still') \<Longrightarrow>
     \<exists>started kept. act' = act @ started \<and> still' = still @ kept
       \<and> set started \<union> set kept = set ts \<and> length started + length kept = length ts
       \<and> (distinct ts \<longrightarrow> distinct (started @ kept)) \<and> subseq kept ts"
proof (induction ts arbitrary: still act)
  case (Cons t ts)
  show ?case
  proof (cases "list_ex (tasks_conflict t) (act @ still)")
    case True
    with Cons obtain started kept where
      "act' = act @ started" "still' = (still @ [t]) @ kept"
      "set started \<union> set kept = set ts" "length started + length kept = length ts"
      "distinct ts \<longrightarrow> distinct (started @ kept)" "subseq kept ts"
      by fastforce
    then show ?thesis
      by (intro exI [of _ started] exI [of _ "t # kept"]) auto
  next
    case False
    with Cons obtain started kept where
      "act' = (act @ [t]) @ started" "still' = still @ kept"
      "set started \<union> set kept = set ts" "length started + length kept = length ts"
      "distinct ts \<longrightarrow> distinct (started @ kept)" "subseq kept ts"
      by fastforce
    then show ?thesis
      by (intro exI [of _ "t # started"] exI [of _ kept]) auto
  qed
qed auto

section \<open>The scheduler's invariant\<close>

text \<open>Active tasks are pairwise free of conflict, and each queued task waits for an active task
  or for one queued before it.\<close>

definition each_waits :: "tool_call_task list \<Rightarrow> tool_call_task list \<Rightarrow> bool" where
  "each_waits act q \<longleftrightarrow> (\<forall>i<length q. list_ex (tasks_conflict (q ! i)) (act @ take i q))"

definition scheduler_ok :: "scheduler \<Rightarrow> bool" where
  "scheduler_ok s \<longleftrightarrow>
     sorted_wrt (\<lambda>a b. \<not> tasks_conflict a b) (active_tasks s)
     \<and> each_waits (active_tasks s) (queued_tasks s)"

lemma each_waits_Nil [simp]: "each_waits act []"
  by (simp add: each_waits_def)

lemma each_waits_snoc:
  "each_waits act (q @ [t]) \<longleftrightarrow> each_waits act q \<and> list_ex (tasks_conflict t) (act @ q)"
  by (auto simp: each_waits_def less_Suc_eq nth_append)

lemma each_waits_mono: "each_waits act q \<Longrightarrow> set act \<subseteq> set act' \<Longrightarrow> each_waits act' q"
  by (fastforce simp: each_waits_def list_ex_iff)

lemma drain_ok:
  assumes "drain ts still act = (act', still')"
    and "sorted_wrt (\<lambda>a b. \<not> tasks_conflict a b) act" and "each_waits act still"
  shows "sorted_wrt (\<lambda>a b. \<not> tasks_conflict a b) act' \<and> each_waits act' still'"
  using assms
proof (induction ts arbitrary: still act)
  case (Cons t ts)
  show ?case
  proof (cases "list_ex (tasks_conflict t) (act @ still)")
    case True
    with Cons.prems Cons.IH show ?thesis by (simp add: each_waits_snoc)
  next
    case False
    have "sorted_wrt (\<lambda>a b. \<not> tasks_conflict a b) (act @ [t])"
      using Cons.prems(2) False by (subst tasks.successively_apart_snoc) auto
    moreover have "each_waits (act @ [t]) still"
      using Cons.prems(3) by (rule each_waits_mono) auto
    ultimately show ?thesis using Cons.prems(1) False Cons.IH by simp
  qed
qed simp

section \<open>Runs\<close>

text \<open>
  \<open>sched_run added finished s\<close>: the scheduler can be in state \<open>s\<close> after the tasks \<open>added\<close>
  (in that order) were given to it and the tasks \<open>finished\<close> settled, in any interleaving. A task
  settles only while active. The tasks of a batch are distinct and start asynchronously.
\<close>

inductive sched_run :: "tool_call_task list \<Rightarrow> tool_call_task list \<Rightarrow> scheduler \<Rightarrow> bool" where
  run_new: "sched_run [] [] scheduler_new"
| run_add: "sched_run added fin s \<Longrightarrow> \<not> tk_start_throws t \<Longrightarrow> t \<notin> set added \<Longrightarrow>
     add_task 0 t s = Some s' \<Longrightarrow> sched_run (added @ [t]) fin s'"
| run_finish: "sched_run added fin s \<Longrightarrow> t \<in> set (active_tasks s) \<Longrightarrow>
     finish_task 0 t s = Some s' \<Longrightarrow> sched_run added (fin @ [t]) s'"

inductive_cases sched_run_newE: "sched_run [] fin s"

text \<open>A batch used to exhibit the theorems: a write, a read of the same file that waits for it, and
  a read of another file that runs beside it.\<close>

definition write_a :: tool_call_task where
  "write_a = \<lparr>tk_id = 0, tk_accesses = write_file ''/a'', tk_start_throws = False\<rparr>"

definition read_a :: tool_call_task where
  "read_a = \<lparr>tk_id = 1, tk_accesses = read_file ''/a'', tk_start_throws = False\<rparr>"

definition read_b :: tool_call_task where
  "read_b = \<lparr>tk_id = 2, tk_accesses = read_file ''/b'', tk_start_throws = False\<rparr>"

definition demo_state :: scheduler where
  "demo_state = \<lparr>active_tasks = [write_a, read_b], queued_tasks = [read_a]\<rparr>"

lemmas demo_defs = write_a_def read_a_def read_b_def demo_state_def

lemma demo_conflicts [simp]:
  "accesses_conflict (tk_accesses write_a) (tk_accesses read_a)"
  "accesses_conflict (tk_accesses read_a) (tk_accesses write_a)"
  "\<not> accesses_conflict (tk_accesses read_b) (tk_accesses write_a)"
  "\<not> accesses_conflict (tk_accesses read_b) (tk_accesses read_a)"
  "\<not> accesses_conflict (tk_accesses read_a) (tk_accesses read_b)"
  by (simp_all add: demo_defs, code_simp+)

lemma demo_sched_run: "sched_run [write_a, read_a, read_b] [] demo_state"
proof -
  have "sched_run ([] @ [write_a]) [] \<lparr>active_tasks = [write_a], queued_tasks = []\<rparr>"
    by (rule run_add [OF run_new])
      (simp_all add: demo_defs add_task_def start_task_def is_blocked_def conflicts_with_any_def scheduler_new_def)
  then have "sched_run (([] @ [write_a]) @ [read_a]) [] \<lparr>active_tasks = [write_a], queued_tasks = [read_a]\<rparr>"
    by (rule run_add)
      (simp_all add: add_task_def start_task_def is_blocked_def conflicts_with_any_def, simp_all add: demo_defs)
  then have "sched_run ((([] @ [write_a]) @ [read_a]) @ [read_b]) [] demo_state"
    by (rule run_add)
      (simp_all add: add_task_def start_task_def is_blocked_def conflicts_with_any_def, simp_all add: demo_defs)
  then show ?thesis by simp
qed

lemma demo_run_finished:
  "sched_run [write_a, read_a, read_b] [write_a] \<lparr>active_tasks = [read_b, read_a], queued_tasks = []\<rparr>"
proof -
  have "finish_task 0 write_a demo_state = Some \<lparr>active_tasks = [read_b, read_a], queued_tasks = []\<rparr>"
    by (simp add: demo_state_def finish_task_def is_blocked_def conflicts_with_any_def)
      (simp add: demo_defs)
  from run_finish [OF demo_sched_run _ this] show ?thesis by (simp add: demo_state_def)
qed

text \<open>What every reachable state satisfies besides \<open>scheduler_ok\<close>: the tasks are split among
  active, queued and finished; queued tasks keep their order of arrival; and a started task has
  no unfinished conflicting predecessor.\<close>

definition accounted :: "tool_call_task list \<Rightarrow> tool_call_task list \<Rightarrow> scheduler \<Rightarrow> bool" where
  "accounted added fin s \<longleftrightarrow>
     distinct added \<and> no_throws added
     \<and> distinct (active_tasks s @ queued_tasks s @ fin)
     \<and> set added = set (active_tasks s) \<union> set (queued_tasks s) \<union> set fin
     \<and> subseq (queued_tasks s) added"

definition in_order :: "tool_call_task list \<Rightarrow> tool_call_task list \<Rightarrow> scheduler \<Rightarrow> bool" where
  "in_order added fin s \<longleftrightarrow>
     (\<forall>before t after u. added = before @ t # after \<and> u \<in> set after \<and> tasks_conflict t u
        \<and> u \<notin> set (queued_tasks s) \<longrightarrow> t \<in> set fin)"

lemma add_task_cases:
  "\<not> tk_start_throws t \<Longrightarrow> add_task fuel t s =
     (if list_ex (tasks_conflict t) (active_tasks s @ queued_tasks s)
      then Some (s\<lparr>queued_tasks := queued_tasks s @ [t]\<rparr>)
      else Some (s\<lparr>active_tasks := active_tasks s @ [t]\<rparr>))"
  by (simp add: add_task_def is_blocked_iff start_task_def)

lemma finish_task_drain:
  "no_throws (queued_tasks s) \<Longrightarrow> finish_task fuel t s =
     (let r = drain (queued_tasks s) [] (remove1 t (active_tasks s))
      in Some (s\<lparr>active_tasks := fst r, queued_tasks := snd r\<rparr>))"
  by (simp add: finish_task_def drain_queue_drain Let_def)

lemma no_throws_subset: "no_throws ts \<Longrightarrow> set us \<subseteq> set ts \<Longrightarrow> no_throws us"
  by (auto simp: no_throws_def list_all_iff)

lemma sched_run_accounted: "sched_run added fin s \<Longrightarrow> accounted added fin s"
proof (induction rule: sched_run.induct)
  case run_new
  then show ?case by (simp add: accounted_def no_throws_def scheduler_new_def)
next
  case (run_add added fin s t s')
  have "subseq (queued_tasks s) (added @ [t])"
    using run_add.IH list_emb_append_mono [of _ "queued_tasks s" added "[]" "[t]"]
    by (simp add: accounted_def)
  then show ?case
    using run_add
    by (auto simp: accounted_def add_task_cases no_throws_def list_emb_append_mono split: if_splits)
next
  case (run_finish added fin s t s')
  let ?act = "remove1 t (active_tasks s)"
  obtain act' still' where d: "drain (queued_tasks s) [] ?act = (act', still')"
    by (cases "drain (queued_tasks s) [] ?act")
  obtain started kept where k: "act' = ?act @ started" "still' = kept"
    "set started \<union> set kept = set (queued_tasks s)"
    "distinct (queued_tasks s) \<longrightarrow> distinct (started @ kept)" "subseq kept (queued_tasks s)"
    using drain_parts [OF d] by auto
  have nt: "no_throws (queued_tasks s)"
    using run_finish.IH by (auto simp: accounted_def intro: no_throws_subset)
  have s': "s' = s\<lparr>active_tasks := act', queued_tasks := still'\<rparr>"
    using run_finish.hyps(3) by (simp add: finish_task_drain [OF nt] d)
  have "subseq kept added"
    using k(5) run_finish.IH by (auto simp: accounted_def intro: subseq_order.trans)
  moreover have "set ?act = set (active_tasks s) - {t}"
    using run_finish.IH by (auto simp: accounted_def)
  ultimately show ?case
    using run_finish.IH k run_finish.hyps(2) by (auto simp: accounted_def s' distinct_remove1)
qed


lemma scheduler_ok_new: "scheduler_ok scheduler_new"
  by (simp add: scheduler_ok_def scheduler_new_def)

lemma scheduler_ok_add:
  assumes "scheduler_ok s" and "\<not> tk_start_throws t" and "add_task fuel t s = Some s'"
  shows "scheduler_ok s'"
proof (cases "list_ex (tasks_conflict t) (active_tasks s @ queued_tasks s)")
  case True
  with assms show ?thesis by (auto simp: scheduler_ok_def add_task_cases each_waits_snoc)
next
  case False
  have "each_waits (active_tasks s @ [t]) (queued_tasks s)"
    using assms(1) by (auto simp: scheduler_ok_def intro: each_waits_mono)
  with False assms show ?thesis
    by (auto simp: scheduler_ok_def add_task_cases tasks.successively_apart_snoc)
qed

lemma scheduler_ok_finish:
  assumes "scheduler_ok s" and "no_throws (queued_tasks s)" and "finish_task fuel t s = Some s'"
  shows "scheduler_ok s'"
proof -
  obtain act still where d: "drain (queued_tasks s) [] (remove1 t (active_tasks s)) = (act, still)"
    by (cases "drain (queued_tasks s) [] (remove1 t (active_tasks s))")
  have "sorted_wrt (\<lambda>a b. \<not> tasks_conflict a b) (remove1 t (active_tasks s))"
    using assms(1) by (auto simp: scheduler_ok_def intro: tasks.apart_remove1)
  from drain_ok [OF d this] show ?thesis
    using assms(3) by (auto simp: scheduler_ok_def finish_task_drain [OF assms(2)] d)
qed

lemma sched_run_ok: "sched_run added fin s \<Longrightarrow> scheduler_ok s"
proof (induction rule: sched_run.induct)
  case (run_finish added fin s t s')
  have "no_throws (queued_tasks s)"
    using sched_run_accounted [OF run_finish.hyps(1)] by (auto simp: accounted_def intro: no_throws_subset)
  with run_finish show ?case by (blast intro: scheduler_ok_finish)
qed (auto intro: scheduler_ok_new scheduler_ok_add)

text \<open>
  C8. No two calls that run at the same time touch a common resource one of them writes: the
  active tasks of every reachable state are pairwise free of conflict.
\<close>

theorem active_tasks_apart:
  assumes "sched_run added fin s" and "a \<in> set (active_tasks s)" and "b \<in> set (active_tasks s)"
    and "a \<noteq> b"
  shows "\<not> accesses_conflict (tk_accesses a) (tk_accesses b)"
  using tasks.apart_any_order [of "active_tasks s" a b] sched_run_ok [OF assms(1)] assms(2-4)
  by (simp add: scheduler_ok_def tasks_conflict_def)

lemma active_tasks_apart_witness:
  "\<not> accesses_conflict (tk_accesses write_a) (tk_accesses read_b)"
  by (rule active_tasks_apart [OF demo_sched_run]) (simp_all add: demo_state_def, simp add: demo_defs)

text \<open>
  No task is lost and none is duplicated: at every moment each task given to the scheduler is
  exactly one of active, queued and finished.
\<close>

theorem scheduler_accounts_for_all:
  assumes "sched_run added fin s"
  shows "set added = set (active_tasks s) \<union> set (queued_tasks s) \<union> set fin
    \<and> distinct (active_tasks s @ queued_tasks s @ fin) \<and> subseq (queued_tasks s) added"
  using sched_run_accounted [OF assms] by (simp add: accounted_def)

lemma scheduler_accounts_for_all_witness:
  "set [write_a, read_a, read_b] = set [write_a, read_b] \<union> set [read_a] \<union> set []
    \<and> distinct ([write_a, read_b] @ [read_a] @ []) \<and> subseq [read_a] [write_a, read_a, read_b]"
  using scheduler_accounts_for_all [OF demo_sched_run] by (simp add: demo_state_def)

lemma idle_queue: "sched_run added fin s \<Longrightarrow> active_tasks s = [] \<Longrightarrow> queued_tasks s = []"
proof (rule ccontr)
  assume a: "sched_run added fin s" "active_tasks s = []" "queued_tasks s \<noteq> []"
  then have "list_ex (tasks_conflict (queued_tasks s ! 0)) (active_tasks s @ take 0 (queued_tasks s))"
    using sched_run_ok [OF a(1)] unfolding scheduler_ok_def each_waits_def by blast
  with a(2) show False by simp
qed

section \<open>Conflicting calls run in the order they were made\<close>

text \<open>A task the loop starts conflicts with nothing that runs, waits or came before it.\<close>

lemma drain_started_free:
  assumes "drain ts still act = (act', still')" and "ts = pre @ u # post" and "u \<notin> set still'"
    and "w \<in> set act \<union> set still \<union> set pre"
  shows "\<not> tasks_conflict u w"
  using assms
proof (induction ts arbitrary: still act pre)
  case (Cons v ts)
  have blocked_kept: "u \<in> set still'" if "drain ts (still @ [u]) act = (act', still')"
    using drain_parts [OF that] by auto
  show ?case
  proof (cases pre)
    case Nil
    with Cons.prems blocked_kept show ?thesis by (auto simp: list_ex_iff split: if_splits)
  next
    case (Cons v' pre')
    with Cons.prems Cons.IH [of "still @ [v]" act pre'] Cons.IH [of still "act @ [v]" pre']
    show ?thesis by (auto split: if_splits)
  qed
qed simp

lemma in_orderD:
  "in_order added fin s \<Longrightarrow> added = before @ t # after \<Longrightarrow> u \<in> set after \<Longrightarrow> tasks_conflict t u
     \<Longrightarrow> u \<notin> set (queued_tasks s) \<Longrightarrow> t \<in> set fin"
  by (auto simp: in_order_def)

lemma in_order_add:
  assumes acc: "accounted added fin s" and ord: "in_order added fin s"
    and t: "\<not> tk_start_throws t" "t \<notin> set added" and add: "add_task 0 t s = Some s'"
  shows "in_order (added @ [t]) fin s'"
  unfolding in_order_def
proof (intro allI impI)
  fix before w after u
  assume a: "added @ [t] = before @ w # after \<and> u \<in> set after \<and> tasks_conflict w u
    \<and> u \<notin> set (queued_tasks s')"
  then have ne: "after \<noteq> []" by auto
  then have after: "after = butlast after @ [t]" and added: "added = before @ w # butlast after"
    using a append_butlast_last_id [of after]
    by (metis append_butlast_last_id butlast.simps(2) butlast_append last.simps last_append
          last_snoc list.discI butlast_snoc)+
  show "w \<in> set fin"
  proof (cases "u = t")
    case False
    with a after have "u \<in> set (butlast after)"
      by (metis Un_iff empty_iff empty_set set_ConsD set_append)
    moreover have "u \<notin> set (queued_tasks s)"
      using a add t by (auto simp: add_task_cases split: if_splits)
    ultimately show ?thesis using in_orderD [OF ord added] a by blast
  next
    case True
    then have "\<not> list_ex (tasks_conflict t) (active_tasks s @ queued_tasks s)"
      using a add t by (auto simp: add_task_cases split: if_splits)
    moreover have "tasks_conflict t w" using a True by (auto dest: tasks.conf_sym)
    moreover have "w \<in> set added" by (simp add: added)
    ultimately show ?thesis using acc by (auto simp: accounted_def list_ex_iff)
  qed
qed

lemma in_order_finish:
  assumes acc: "accounted added fin s" and ord: "in_order added fin s"
    and t: "t \<in> set (active_tasks s)" and step: "finish_task 0 t s = Some s'"
  shows "in_order added (fin @ [t]) s'"
  unfolding in_order_def
proof (intro allI impI)
  fix before w after u
  assume a: "added = before @ w # after \<and> u \<in> set after \<and> tasks_conflict w u
    \<and> u \<notin> set (queued_tasks s')"
  obtain act' still' where d: "drain (queued_tasks s) [] (remove1 t (active_tasks s)) = (act', still')"
    by (cases "drain (queued_tasks s) [] (remove1 t (active_tasks s))")
  have "no_throws (queued_tasks s)"
    using acc by (auto simp: accounted_def intro: no_throws_subset)
  with step d have q': "queued_tasks s' = still'"
    by (auto simp: finish_task_drain)
  show "w \<in> set (fin @ [t])"
  proof (cases "u \<in> set (queued_tasks s)")
    case False
    then show ?thesis using in_orderD [OF ord] a by auto
  next
    case True
    have free: "v \<noteq> w" if "queued_tasks s = pre @ u # post"
      "v \<in> set (remove1 t (active_tasks s)) \<union> set pre" for pre post v
      using drain_started_free [OF d that(1), of v] that(2) a q' tasks.conf_sym [of w u] by auto
    obtain pre0 post0 where sp: "queued_tasks s = pre0 @ u # post0"
      using True by (blast dest: split_list)
    have "w \<notin> set (queued_tasks s)"
    proof
      assume "w \<in> set (queued_tasks s)"
      then obtain pre post where "queued_tasks s = pre @ u # post" "w \<in> set pre"
        using subseq_keeps_order [of "queued_tasks s" before w after u] acc a True
        by (auto simp: accounted_def)
      with free show False by blast
    qed
    moreover have "w \<in> set (active_tasks s) \<Longrightarrow> w = t"
      using free [OF sp, of w] acc by (auto simp: accounted_def)
    moreover have "w \<in> set added" using a by simp
    ultimately show ?thesis using acc by (auto simp: accounted_def)
  qed
qed

lemma sched_run_in_order: "sched_run added fin s \<Longrightarrow> in_order added fin s"
proof (induction rule: sched_run.induct)
  case run_new
  then show ?case by (simp add: in_order_def)
next
  case (run_add added fin s t s')
  then show ?case using in_order_add sched_run_accounted by blast
next
  case (run_finish added fin s t s')
  then show ?case using in_order_finish sched_run_accounted by blast
qed

text \<open>
  C1. Conflicting calls of a batch run one after the other in the order the model made them: a
  call has left the queue only when every earlier call it conflicts with has finished.
\<close>

theorem conflicting_calls_in_provider_order:
  assumes "sched_run added fin s" and "added = before @ t # after" and "u \<in> set after"
    and "accesses_conflict (tk_accesses t) (tk_accesses u)"
    and "u \<in> set (active_tasks s) \<union> set fin"
  shows "t \<in> set fin"
  using in_orderD [OF sched_run_in_order [OF assms(1)] assms(2,3)] assms(4,5)
    sched_run_accounted [OF assms(1)]
  by (auto simp: tasks_conflict_def accounted_def)

lemma conflicting_calls_in_provider_order_witness: "write_a \<in> set [write_a]"
  by (rule conflicting_calls_in_provider_order
        [OF demo_run_finished, where before = "[]" and after = "[read_a, read_b]" and u = read_a])
    simp_all

section \<open>Every task gets its turn\<close>

lemma finish_task_total:
  assumes "sched_run added fin s" and "t \<in> set (active_tasks s)"
  shows "\<exists>s'. sched_run added (fin @ [t]) s'"
proof -
  have "no_throws (queued_tasks s)"
    using sched_run_accounted [OF assms(1)] by (auto simp: accounted_def intro: no_throws_subset)
  then have "\<exists>s'. finish_task 0 t s = Some s'" by (simp add: finish_task_drain Let_def)
  then show ?thesis using assms run_finish by blast
qed

text \<open>
  From every state in which the running calls may still settle, the batch can be completed:
  settling calls one by one lets every call of the batch run and finish.
\<close>

theorem every_call_can_finish:
  assumes "sched_run added fin s"
  shows "\<exists>fin' s'. sched_run added fin' s' \<and> set fin' = set added \<and> active_tasks s' = [] \<and> queued_tasks s' = []"
  using assms
proof (induction "length added - length fin" arbitrary: fin s rule: less_induct)
  case less
  note acc = sched_run_accounted [OF less.prems]
  show ?case
  proof (cases "active_tasks s")
    case Nil
    then have "queued_tasks s = []" using idle_queue [OF less.prems] by simp
    with Nil acc less.prems show ?thesis by (auto simp: accounted_def)
  next
    case (Cons t ts)
    then have "t \<in> set added" and "t \<notin> set fin" using acc by (auto simp: accounted_def)
    moreover have "distinct fin" "set fin \<subseteq> set added" using acc by (auto simp: accounted_def)
    ultimately have "length fin < length added"
      using acc by (metis accounted_def distinct_card card_mono finite_set psubset_card_mono psubsetI)
    with Cons finish_task_total [OF less.prems, of t] less.hyps show ?thesis
      by (metis diff_less_mono2 length_append_singleton lessI list.set_intros(1))
  qed
qed

lemma every_call_can_finish_witness:
  "\<exists>fin' s'. sched_run [write_a, read_a, read_b] fin' s' \<and> set fin' = set [write_a, read_a, read_b]
     \<and> active_tasks s' = [] \<and> queued_tasks s' = []"
  by (rule every_call_can_finish [OF demo_sched_run])

section \<open>A task that throws while it is started from the queue\<close>

text \<open>
  If \<open>start\<close> of a queued task throws synchronously, \<open>finish\<close> re-enters the loop while the
  thrown task is still in the installed queue, so the same task is started again without end: no
  depth of the recursion is enough.
\<close>

theorem sync_throw_from_queue_never_returns:
  assumes "queued_tasks s = t # ts" and "tk_start_throws t" and "\<not> is_blocked t [] s"
    and "t \<notin> set (active_tasks s)"
  shows "drain_queue fuel (queued_tasks s) [] s = None"
proof (induction fuel)
  case 0
  then show ?case using assms by simp
next
  case (Suc n)
  have "s\<lparr>active_tasks := remove1 t (active_tasks s @ [t])\<rparr> = s"
    using assms(4) by (simp add: remove1_append)
  with Suc assms show ?case by simp
qed

lemma sync_throw_from_queue_never_returns_witness:
  "let t = write_a\<lparr>tk_start_throws := True\<rparr>; s = \<lparr>active_tasks = [], queued_tasks = [t]\<rparr>
   in drain_queue 1000 (queued_tasks s) [] s = None"
  unfolding Let_def
  by (rule sync_throw_from_queue_never_returns [where t = "write_a\<lparr>tk_start_throws := True\<rparr>" and ts = "[]"])
    (simp_all add: is_blocked_def conflicts_with_any_def)

end
