(* ===== verification/Tool_Call.thy ===== *)
theory Tool_Call
  imports Interruption Tool_Scheduler "HOL-Library.Multiset"
begin

text \<open>
  One batch of tool calls (\<open>agents-core/src/loop/tool-call.ts\<close>): \<open>prepareCall\<close> resolves and
  authorizes a call, \<open>runCalls\<close> holds the batch or runs it, \<open>runAndFinalize\<close> runs one call,
  \<open>createNestedDispatcher\<close> runs calls made by a running tool.

  Tools and hooks are arbitrary effectful calls over a world \<open>'w\<close>. A call's execution settles at
  a time, or never (\<^const>\<open>None\<close>); an abort of the run is a time as well. The completion order of
  the running calls is an argument of \<open>run_calls\<close>; each call takes effect when it completes.
\<close>

datatype error_class = AbortError | ContextOverflowError | MaxStepsError

datatype thrown =
    Thrown string
  | ClassedError error_class string
  | SuspendSignal json "json option"
  | InterruptionSignal interruption_state

record tool_resume_context =
  rx_state :: "json option"
  rx_answer :: json

text \<open>What an execution promise does: the time it settles at, if it settles, and how.\<close>

record 'a settlement =
  st_at :: "nat option"
  st_value :: "thrown + 'a"

record 'w tool_plan =
  pl_accesses :: "tool_accesses option"
  pl_approval_rule :: string
  pl_handoff :: "string option"
  pl_stop_batch :: "bool option"
  pl_run :: "tool_resume_context option \<Rightarrow> 'w \<Rightarrow> tool_result settlement \<times> 'w"

record 'w tool =
  to_resolve :: "json \<Rightarrow> ('w, thrown, 'w tool_plan) eff"

record batch_resume =
  br_pending :: "pending_interrupt list"
  br_input_answers :: "(string, json) jsmap"

record 'w step_context =
  sx_tools :: "(string, 'w tool) jsmap"
  sx_describe_unknown :: "string \<Rightarrow> string option"
  sx_hooks :: "('w, thrown, unit, unit, 'w tool_plan) loop_hooks option"
  sx_resume :: "batch_resume option"
  sx_now :: nat
  sx_abort_at :: "nat option"
  sx_file_answer :: "(string \<Rightarrow> approval_response \<Rightarrow> 'w \<Rightarrow> 'w) option"

datatype 'w prepared_call =
    PrepResult tool_call tool_result
  | PrepInterrupt tool_call pending_approval
  | PrepRepark tool_call pending_input
  | PrepRun tool_call "'w tool" "'w tool_plan" json "tool_resume_context option"

datatype call_outcome =
    OutResult tool_result
  | OutSuspension interruption_state
  | OutInput pending_input

datatype loop_event =
    CallStarted string string json "string option"
  | CallSuspended string string "json option"
  | CallResult string string tool_result "string option"

record handoff_signal =
  hs_tool_name :: string
  hs_call_id :: string
  hs_target :: string
  hs_args :: json

record tool_batch_result =
  tb_results :: "tool_result_message list"
  tb_stop_turn :: bool
  tb_pending :: "pending_interrupt list"
  tb_handoff :: "handoff_signal option"
  tb_suspensions :: "tool_call_suspension list"

definition error_result :: "string \<Rightarrow> bool \<Rightarrow> tool_result" where
  "error_result txt stop_turn =
     \<lparr>tr_content = [TextPart txt], tr_structured = None, tr_details = None, tr_is_error = Some True,
      tr_stop_turn = (if stop_turn then Some True else None)\<rparr>"

fun message_of :: "thrown \<Rightarrow> string" where
  "message_of (Thrown m) = m"
| "message_of (ClassedError _ m) = m"
| "message_of (SuspendSignal _ _) = ''Tool suspended awaiting caller input.''"
| "message_of (InterruptionSignal _) = ''Foreground sub-agent interrupted.''"

definition is_truthy :: "bool option \<Rightarrow> bool" where
  "is_truthy b \<longleftrightarrow> b = Some True"

text \<open>A call as seen by a \<open>try\<close>: what it throws is a value.\<close>

definition attempt :: "('w, 'e, 'a) eff \<Rightarrow> ('w, 'e, 'e + 'a) eff" where
  "attempt m = (\<lambda>w. case m w of (r, w') \<Rightarrow> (Inr r, w'))"

section \<open>Preparing a call\<close>

text \<open>Resume disposition: \<^const>\<open>Inl\<close> re-parks the call, \<^const>\<open>Inr\<close> carries the answer, if any.\<close>

definition resume_disposition :: "batch_resume option \<Rightarrow> tool_call \<Rightarrow> pending_input + tool_resume_context option" where
  "resume_disposition resume call =
     (case resume of
        None \<Rightarrow> Inr None
      | Some r \<Rightarrow>
          (case List.find (\<lambda>p. pending_call_id p = tc_id call) (br_pending r) of
             Some (PendInput entry) \<Rightarrow>
               (case map_of (br_input_answers r) (tc_id call) of
                  None \<Rightarrow> Inl entry
                | Some answer \<Rightarrow> Inr (Some \<lparr>rx_state = pi_state entry, rx_answer = answer\<rparr>))
           | _ \<Rightarrow> Inr None))"

text \<open>\<open>prepareToolExecution\<close>: \<^const>\<open>Inl\<close> settles the call, \<^const>\<open>Inr\<close> carries its arguments.\<close>

definition prepare_args :: "'w step_context \<Rightarrow> tool_call \<Rightarrow> ('w, thrown, tool_result + json) eff" where
  "prepare_args step call =
     (case Option.bind (sx_hooks step) prepare_tool_execution of
        None \<Rightarrow> ret (Inr (tc_arguments call))
      | Some hook \<Rightarrow>
          andthen (hook \<lparr>hx_call = call, hx_args = tc_arguments call\<rparr>) (\<lambda>prep. ret
            (case prep of
               None \<Rightarrow> Inr (tc_arguments call)
             | Some p \<Rightarrow>
                 (case au_synthetic p of
                    Some r \<Rightarrow> Inl r
                  | None \<Rightarrow>
                      if is_truthy (au_block p)
                      then Inl (error_result (case au_reason p of Some r \<Rightarrow> r | None \<Rightarrow> ''blocked'') (is_truthy (pr_terminate p)))
                      else Inr (case pr_updated_args p of Some a \<Rightarrow> a | None \<Rightarrow> tc_arguments call)))))"

definition apply_decision :: "tool_call \<Rightarrow> 'w tool \<Rightarrow> 'w tool_plan \<Rightarrow> json \<Rightarrow> tool_resume_context option
    \<Rightarrow> authorize_result option \<Rightarrow> 'w prepared_call" where
  "apply_decision call tool plan args resumed decision =
     (case decision of
        None \<Rightarrow> PrepRun call tool plan args resumed
      | Some d \<Rightarrow>
          (case au_interrupt d of
             Some i \<Rightarrow> PrepInterrupt call i
           | None \<Rightarrow>
               (case au_synthetic d of
                  Some r \<Rightarrow> PrepResult call r
                | None \<Rightarrow>
                    if is_truthy (au_block d)
                    then PrepResult call (error_result (case au_reason d of Some r \<Rightarrow> r | None \<Rightarrow> ''denied'') False)
                    else PrepRun call tool plan args resumed)))"

definition authorize_call :: "'w step_context \<Rightarrow> tool_call \<Rightarrow> 'w tool \<Rightarrow> 'w tool_plan \<Rightarrow> json
    \<Rightarrow> tool_resume_context option \<Rightarrow> ('w, thrown, 'w prepared_call) eff" where
  "authorize_call step call tool plan args resumed =
     (case Option.bind (sx_hooks step) authorize_tool_execution of
        None \<Rightarrow> ret (PrepRun call tool plan args resumed)
      | Some hook \<Rightarrow>
          andthen (hook \<lparr>hx_call = call, hx_args = args, hx_plan = plan\<rparr>)
            (\<lambda>decision. ret (apply_decision call tool plan args resumed decision)))"

definition resolve_error :: "thrown \<Rightarrow> tool_result" where
  "resolve_error e =
     (case e of
        SuspendSignal _ _ \<Rightarrow>
          error_result ''suspend() is only available during tool execution (plan.run), not resolve().'' False
      | _ \<Rightarrow> error_result (message_of e) False)"

text \<open>The tool is looked up and resolved to a plan, which is then authorized.\<close>

definition resolve_call :: "'w step_context \<Rightarrow> tool_call \<Rightarrow> tool_resume_context option \<Rightarrow> json
    \<Rightarrow> ('w, thrown, 'w prepared_call) eff" where
  "resolve_call step call resumed args =
     (case map_of (sx_tools step) (tc_name call) of
        None \<Rightarrow> ret (PrepResult call (error_result
          (case sx_describe_unknown step (tc_name call) of
             Some reason \<Rightarrow> reason | None \<Rightarrow> ''unknown tool: '' @ tc_name call) False))
      | Some tool \<Rightarrow>
          andthen (attempt (to_resolve tool args)) (\<lambda>resolved.
            case resolved of
              Inl e \<Rightarrow> ret (PrepResult call (resolve_error e))
            | Inr plan \<Rightarrow> authorize_call step call tool plan args resumed))"

definition prepare_call :: "'w step_context \<Rightarrow> tool_call \<Rightarrow> ('w, thrown, 'w prepared_call) eff" where
  "prepare_call step call =
     (case resume_disposition (sx_resume step) call of
        Inl entry \<Rightarrow> ret (PrepRepark call entry)
      | Inr resumed \<Rightarrow>
          andthen (prepare_args step call) (\<lambda>prep.
            case prep of
              Inl result \<Rightarrow> ret (PrepResult call result)
            | Inr args \<Rightarrow> resolve_call step call resumed args))"

fun prepare_all :: "'w step_context \<Rightarrow> tool_call list \<Rightarrow> ('w, thrown, 'w prepared_call list) eff" where
  "prepare_all step [] = ret []"
| "prepare_all step (call # calls) =
     andthen (prepare_call step call) (\<lambda>p. andthen (prepare_all step calls) (\<lambda>ps. ret (p # ps)))"

section \<open>Running a call\<close>

definition grace_timeout_ms :: nat where
  "grace_timeout_ms = 2000"

text \<open>\<open>raceExecuteWithGraceTimeout\<close>: the time and the value of whichever comes first.\<close>

definition race_execute_with_grace_timeout ::
    "string \<Rightarrow> nat \<Rightarrow> nat option \<Rightarrow> tool_result settlement \<Rightarrow> (nat \<times> (thrown + tool_result)) option" where
  "race_execute_with_grace_timeout tool_name now abort_at exec =
     (let grace = map_option (\<lambda>a. max a now + grace_timeout_ms) abort_at;
          sentinel = Inr (error_result (''Tool '' @ [CHR 0x22] @ tool_name @ [CHR 0x22] @ '' aborted by grace timeout (2000ms)'') False)
      in case st_at exec of
           None \<Rightarrow> map_option (\<lambda>g. (g, sentinel)) grace
         | Some t \<Rightarrow>
             (case grace of
                None \<Rightarrow> Some (t, st_value exec)
              | Some g \<Rightarrow> if t \<le> g then Some (t, st_value exec) else Some (g, sentinel)))"

definition execute_plan :: "'w step_context \<Rightarrow> tool_call \<Rightarrow> 'w tool_plan \<Rightarrow> tool_resume_context option
    \<Rightarrow> ('w, thrown, (thrown + tool_result) option) eff" where
  "execute_plan step call plan resumed =
     (\<lambda>w. case pl_run plan resumed w of (exec, w') \<Rightarrow>
        (Inr (map_option snd (race_execute_with_grace_timeout (tc_name call) (sx_now step) (sx_abort_at step) exec)), w'))"

definition finalize_result :: "'w step_context \<Rightarrow> tool_call \<Rightarrow> json \<Rightarrow> tool_result \<Rightarrow> ('w, thrown, tool_result) eff" where
  "finalize_result step call args result =
     (case Option.bind (sx_hooks step) finalize_tool_result of
        None \<Rightarrow> ret result
      | Some hook \<Rightarrow>
          andthen (hook \<lparr>hx_call = call, hx_args = args, hx_result = result\<rparr>) (\<lambda>f.
            ret (case f of Some r \<Rightarrow> r | None \<Rightarrow> result)))"

text \<open>\<^const>\<open>None\<close>: the call never settles.\<close>

definition run_and_finalize :: "'w step_context \<Rightarrow> tool_call \<Rightarrow> 'w tool_plan \<Rightarrow> json
    \<Rightarrow> tool_resume_context option \<Rightarrow> ('w, thrown, call_outcome option) eff" where
  "run_and_finalize step call plan args resumed =
     andthen (execute_plan step call plan resumed) (\<lambda>raced.
       case raced of
         None \<Rightarrow> ret None
       | Some (Inl (InterruptionSignal st)) \<Rightarrow> ret (Some (OutSuspension st))
       | Some (Inl (SuspendSignal request st)) \<Rightarrow> ret (Some (OutInput
           \<lparr>pi_call_id = tc_id call, pi_tool_name = tc_name call, pi_request = request, pi_state = st\<rparr>))
       | Some (Inl e) \<Rightarrow>
           andthen (finalize_result step call args (error_result (message_of e) False)) (\<lambda>r. ret (Some (OutResult r)))
       | Some (Inr result) \<Rightarrow>
           andthen (finalize_result step call args result) (\<lambda>r. ret (Some (OutResult r))))"

section \<open>Running a batch\<close>

fun held_pending :: "'w prepared_call \<Rightarrow> pending_interrupt option" where
  "held_pending (PrepInterrupt _ p) = Some (PendApproval p)"
| "held_pending (PrepRepark _ p) = Some (PendInput p)"
| "held_pending _ = None"

fun call_started :: "'w prepared_call \<Rightarrow> loop_event option" where
  "call_started (PrepRepark _ _) = None"
| "call_started (PrepRun call _ _ args _) = Some (CallStarted (tc_id call) (tc_name call) args None)"
| "call_started (PrepResult call _) = Some (CallStarted (tc_id call) (tc_name call) (tc_arguments call) None)"
| "call_started (PrepInterrupt call _) = Some (CallStarted (tc_id call) (tc_name call) (tc_arguments call) None)"

fun plan_of :: "'w prepared_call \<Rightarrow> 'w tool_plan option" where
  "plan_of (PrepRun _ _ plan _ _) = Some plan"
| "plan_of _ = None"

text \<open>The running calls take effect in the order they complete in.\<close>

fun run_in_order :: "'w step_context \<Rightarrow> 'w prepared_call list \<Rightarrow> nat list
    \<Rightarrow> ('w, thrown, (nat \<times> call_outcome option) list) eff" where
  "run_in_order step prepared [] = ret []"
| "run_in_order step prepared (i # order) =
     (case prepared ! i of
        PrepRun call tool plan args resumed \<Rightarrow>
          andthen (run_and_finalize step call plan args resumed) (\<lambda>outcome.
            andthen (run_in_order step prepared order) (\<lambda>rest. ret ((i, outcome) # rest)))
      | _ \<Rightarrow> run_in_order step prepared order)"

text \<open>\<open>Promise.all\<close>: it settles when every outcome is there.\<close>

definition outcome_at :: "'w prepared_call list \<Rightarrow> (nat \<times> call_outcome option) list \<Rightarrow> nat \<Rightarrow> call_outcome option" where
  "outcome_at prepared completed i =
     (case prepared ! i of
        PrepResult _ result \<Rightarrow> Some (OutResult result)
      | PrepRepark _ pending \<Rightarrow> Some (OutInput pending)
      | PrepInterrupt _ _ \<Rightarrow> None
      | PrepRun _ _ _ _ _ \<Rightarrow> (case map_of completed i of Some outcome \<Rightarrow> outcome | None \<Rightarrow> None))"

fun all_settled :: "'a option list \<Rightarrow> 'a list option" where
  "all_settled [] = Some []"
| "all_settled (None # xs) = None"
| "all_settled (Some x # xs) = map_option ((#) x) (all_settled xs)"

fun find_handoff :: "('w prepared_call \<times> call_outcome) list \<Rightarrow> handoff_signal option" where
  "find_handoff [] = None"
| "find_handoff ((PrepRun call _ plan args _, OutResult result) # rest) =
     (case pl_handoff plan of
        Some target \<Rightarrow>
          if is_truthy (tr_is_error result) then find_handoff rest
          else Some \<lparr>hs_tool_name = tc_name call, hs_call_id = tc_id call, hs_target = target, hs_args = args\<rparr>
      | None \<Rightarrow> find_handoff rest)"
| "find_handoff (_ # rest) = find_handoff rest"

fun stops_turn :: "'w prepared_call \<times> call_outcome \<Rightarrow> bool" where
  "stops_turn (p, OutResult result) \<longleftrightarrow>
     is_truthy (tr_stop_turn result) \<or> (case plan_of p of Some plan \<Rightarrow> is_truthy (pl_stop_batch plan) | None \<Rightarrow> False)"
| "stops_turn _ \<longleftrightarrow> False"

definition to_result_message :: "tool_call \<Rightarrow> tool_result \<Rightarrow> tool_result_message" where
  "to_result_message call result =
     \<lparr>tm_call_id = tc_id call, tm_tool_name = tc_name call, tm_content = tr_content result,
      tm_details = tr_details result, tm_is_error = is_truthy (tr_is_error result)\<rparr>"

fun result_of :: "tool_call \<times> call_outcome \<Rightarrow> tool_result_message option" where
  "result_of (call, OutResult r) = Some (to_result_message call r)"
| "result_of _ = None"

fun suspension_of :: "tool_call \<times> call_outcome \<Rightarrow> tool_call_suspension option" where
  "suspension_of (call, OutSuspension st) = Some \<lparr>ts_call_id = tc_id call, ts_state = st\<rparr>"
| "suspension_of _ = None"

fun input_of :: "tool_call \<times> call_outcome \<Rightarrow> pending_interrupt option" where
  "input_of (_, OutInput p) = Some (PendInput p)"
| "input_of _ = None"

text \<open>Only a fresh suspension is reported.\<close>

fun suspended_event :: "tool_call \<times> 'w prepared_call \<times> call_outcome \<Rightarrow> loop_event option" where
  "suspended_event (call, p, OutSuspension st) = Some (CallSuspended (tc_id call) (tc_name call) None)"
| "suspended_event (call, PrepRepark _ _, OutInput i) = None"
| "suspended_event (call, p, OutInput i) = Some (CallSuspended (tc_id call) (tc_name call) (Some (pi_request i)))"
| "suspended_event (call, p, OutResult r) = None"

definition result_event :: "tool_result_message \<Rightarrow> loop_event" where
  "result_event m =
     CallResult (tm_call_id m) (tm_tool_name m)
       \<lparr>tr_content = tm_content m, tr_structured = None, tr_details = tm_details m,
        tr_is_error = Some (tm_is_error m), tr_stop_turn = None\<rparr> None"

definition is_approval :: "pending_interrupt \<Rightarrow> bool" where
  "is_approval p \<longleftrightarrow> \<not> is_input p"

definition finish_batch :: "tool_call list \<Rightarrow> 'w prepared_call list \<Rightarrow> call_outcome list
    \<Rightarrow> tool_batch_result \<times> loop_event list" where
  "finish_batch calls prepared outcomes =
     (let pairs = zip calls outcomes;
          results = List.map_filter result_of pairs
      in (\<lparr>tb_results = results,
           tb_stop_turn = list_ex stops_turn (zip prepared outcomes),
           tb_pending = List.map_filter input_of pairs,
           tb_handoff = find_handoff (zip prepared outcomes),
           tb_suspensions = List.map_filter suspension_of pairs\<rparr>,
          List.map_filter suspended_event (zip calls (zip prepared outcomes)) @ map result_event results))"

definition hold_batch :: "pending_interrupt list \<Rightarrow> tool_batch_result" where
  "hold_batch held = \<lparr>tb_results = [], tb_stop_turn = False, tb_pending = held, tb_handoff = None, tb_suspensions = []\<rparr>"

definition settle_batch :: "tool_call list \<Rightarrow> 'w prepared_call list \<Rightarrow> (nat \<times> call_outcome option) list
    \<Rightarrow> (tool_batch_result \<times> loop_event list) option" where
  "settle_batch calls prepared completed =
     (case all_settled (map (outcome_at prepared completed) [0..<length prepared]) of
        None \<Rightarrow> None
      | Some outcomes \<Rightarrow>
          (case finish_batch calls prepared outcomes of
             (result, events) \<Rightarrow> Some (result, List.map_filter call_started prepared @ events)))"

text \<open>\<open>runCalls\<close>. \<^const>\<open>None\<close>: some call never settles, so neither does the batch.\<close>

definition run_calls :: "'w step_context \<Rightarrow> tool_call list \<Rightarrow> ('w prepared_call list \<Rightarrow> nat list)
    \<Rightarrow> ('w, thrown, (tool_batch_result \<times> loop_event list) option) eff" where
  "run_calls step calls completion =
     andthen (prepare_all step calls) (\<lambda>prepared.
       if list_ex is_approval (List.map_filter held_pending prepared)
       then ret (Some (hold_batch (List.map_filter held_pending prepared), []))
       else andthen (run_in_order step prepared (completion prepared))
         (\<lambda>completed. ret (settle_batch calls prepared completed)))"

text \<open>\<open>runToolCallBatch\<close>.\<close>

definition run_tool_call_batch where
  "run_tool_call_batch step message completion = run_calls step (assistant_tool_calls message) completion"

section \<open>Nested calls\<close>

record nested_result =
  nr_result :: tool_result
  nr_interrupt :: "pending_approval option"

definition nested_call_id :: "string \<Rightarrow> string \<Rightarrow> string" where
  "nested_call_id parent_id sequence = parent_id @ '':code:'' @ sequence"

text \<open>The live approver, when there is one: it answers the approval of a call.\<close>

type_synonym 'w approver = "string \<Rightarrow> string \<Rightarrow> string \<Rightarrow> ('w, thrown, approval_response) eff"

definition change :: "('w \<Rightarrow> 'w) \<Rightarrow> ('w, thrown, unit) eff" where
  "change f = (\<lambda>w. (Inr (), f w))"

definition approval_required_text :: "string \<Rightarrow> string" where
  "approval_required_text name = name @ '' requires the user's approval, which cannot be requested from inside a nested call. Call the tool directly.''"

definition input_required_text :: "string \<Rightarrow> string" where
  "input_required_text name = name @ '' suspended for the user's input, which cannot be answered from inside a nested call. Call the tool directly.''"

text \<open>What becomes of a nested call once it is prepared for the last time.\<close>

definition settle_nested :: "'w step_context \<Rightarrow> tool_call \<Rightarrow> string \<Rightarrow> bool \<Rightarrow> 'w prepared_call
    \<Rightarrow> ('w, thrown, (nested_result \<times> loop_event list) option) eff" where
  "settle_nested step call parent_id announced prepared =
     (let done_event = (\<lambda>r. CallResult (tc_id call) (tc_name call) r (Some parent_id));
          start_event = (\<lambda>args. if announced then [] else [CallStarted (tc_id call) (tc_name call) args (Some parent_id)])
      in case prepared of
           PrepInterrupt _ pending \<Rightarrow>
             let r = error_result (approval_required_text (tc_name call)) False
             in ret (Some (\<lparr>nr_result = r, nr_interrupt = Some (pending\<lparr>pa_call_id := tc_id call, pa_tool_name := tc_name call\<rparr>)\<rparr>,
                           if announced then [done_event r] else []))
         | PrepRepark _ _ \<Rightarrow>
             let r = error_result (approval_required_text (tc_name call)) False
             in ret (Some (\<lparr>nr_result = r, nr_interrupt = None\<rparr>, if announced then [done_event r] else []))
         | PrepResult _ r \<Rightarrow>
             ret (Some (\<lparr>nr_result = r, nr_interrupt = None\<rparr>, start_event (tc_arguments call) @ [done_event r]))
         | PrepRun _ _ plan args resumed \<Rightarrow>
             andthen (run_and_finalize step call plan args resumed) (\<lambda>outcome. ret
               (case outcome of
                  None \<Rightarrow> None
                | Some settled \<Rightarrow>
                    let r = (case settled of OutResult r \<Rightarrow> r | _ \<Rightarrow> error_result (input_required_text (tc_name call)) False)
                    in Some (\<lparr>nr_result = r, nr_interrupt = None\<rparr>, start_event args @ [done_event r]))))"

text \<open>An answer for the call is filed where the authorize hook finds it.\<close>

definition file_answer :: "'w step_context \<Rightarrow> string \<Rightarrow> approval_response option \<Rightarrow> ('w, thrown, unit) eff" where
  "file_answer step call_id approval =
     (case (approval, sx_file_answer step) of
        (Some a, Some file) \<Rightarrow> change (file call_id a)
      | _ \<Rightarrow> ret ())"

definition opened :: "tool_call \<Rightarrow> string \<Rightarrow> (nested_result \<times> loop_event list) option
    \<Rightarrow> (nested_result \<times> loop_event list) option" where
  "opened call parent_id r = map_option (\<lambda>(res, events).
     (res, CallStarted (tc_id call) (tc_name call) (tc_arguments call) (Some parent_id) # events)) r"

definition dispatch_nested ::
    "'w step_context \<Rightarrow> 'w approver option \<Rightarrow> string \<Rightarrow> tool_call \<Rightarrow> approval_response option
     \<Rightarrow> ('w, thrown, (nested_result \<times> loop_event list) option) eff" where
  "dispatch_nested step approver parent_id call approval =
     andthen (file_answer step (tc_id call) approval) (\<lambda>_.
       andthen (prepare_call step call) (\<lambda>prepared.
         case (prepared, approver, sx_file_answer step) of
           (PrepInterrupt _ pending, Some ask, Some file) \<Rightarrow>
             andthen (ask (tc_id call) (tc_name call) (pa_rule pending)) (\<lambda>answer.
               andthen (change (file (tc_id call) answer)) (\<lambda>_.
                 andthen (prepare_call step call) (\<lambda>again.
                   andthen (settle_nested step call parent_id True again) (\<lambda>r. ret (opened call parent_id r)))))
         | _ \<Rightarrow> settle_nested step call parent_id False prepared))"

definition nested_tool_call :: "string \<Rightarrow> string \<Rightarrow> string \<Rightarrow> json option \<Rightarrow> tool_call" where
  "nested_tool_call parent_id sequence name args =
     \<lparr>tc_id = nested_call_id parent_id sequence, tc_name = name,
      tc_arguments = (case args of Some a \<Rightarrow> a | None \<Rightarrow> JObj [])\<rparr>"

definition nested_call ::
    "'w step_context \<Rightarrow> ('w \<Rightarrow> bool) \<Rightarrow> 'w approver option \<Rightarrow> string \<Rightarrow> string \<Rightarrow> string \<Rightarrow> json option
     \<Rightarrow> approval_response option \<Rightarrow> ('w, thrown, (nested_result \<times> loop_event list) option) eff" where
  "nested_call step aborted approver parent_id sequence name args approval =
     (\<lambda>w. if aborted w
       then ret (Some (\<lparr>nr_result = error_result (''nested call to '' @ name @ '' not dispatched: the run was aborted'') False,
                        nr_interrupt = None\<rparr>, [])) w
       else dispatch_nested (step\<lparr>sx_resume := None\<rparr>) approver parent_id
              (nested_tool_call parent_id sequence name args) approval w)"

section \<open>Only authorized calls run\<close>

definition lets_run :: "authorize_result option \<Rightarrow> bool" where
  "lets_run d \<longleftrightarrow> (case d of None \<Rightarrow> True
     | Some r \<Rightarrow> au_interrupt r = None \<and> au_synthetic r = None \<and> \<not> is_truthy (au_block r))"

lemma apply_decision_run:
  "apply_decision call tool plan args resumed d = PrepRun c t p a r \<longleftrightarrow>
     lets_run d \<and> c = call \<and> t = tool \<and> p = plan \<and> a = args \<and> r = resumed"
  by (auto simp: apply_decision_def lets_run_def split: option.splits)

lemma authorize_call_run:
  "authorize_call step call tool plan args resumed w = (Inr (PrepRun c t p a r), w') \<Longrightarrow>
     c = call \<and> t = tool \<and> p = plan \<and> a = args \<and> r = resumed
     \<and> (\<forall>h auth. sx_hooks step = Some h \<longrightarrow> authorize_tool_execution h = Some auth \<longrightarrow>
          (\<exists>d. auth \<lparr>hx_call = call, hx_args = args, hx_plan = plan\<rparr> w = (Inr d, w') \<and> lets_run d))"
  by (auto simp: authorize_call_def andthen_Inr ret_def apply_decision_run split: option.splits)

lemma resolve_call_run:
  "resolve_call step call resumed args w = (Inr (PrepRun c t p a r), w') \<Longrightarrow>
     c = call \<and> map_of (sx_tools step) (tc_name call) = Some t
     \<and> (\<exists>v. authorize_call step call t p a r v = (Inr (PrepRun c t p a r), w'))"
  by (auto simp: resolve_call_def ret_def elim!: andthen_sumE split: option.splits)
    (frule authorize_call_run, blast)+

lemma prepare_call_run:
  "prepare_call step call w = (Inr (PrepRun c t p a r), w') \<Longrightarrow>
     c = call \<and> map_of (sx_tools step) (tc_name call) = Some t
     \<and> (\<exists>v. authorize_call step call t p a r v = (Inr (PrepRun c t p a r), w'))"
  by (auto simp: prepare_call_def ret_def dest: resolve_call_run elim!: andthen_sumE split: sum.splits)

text \<open>
  C2. No tool runs without authorization: if a call is let through to execution while an authorize
  hook is installed, the hook was asked about this very call, with the arguments and the plan that
  will run, it was the last thing that happened to the call, and it did not interrupt, answer or
  block it.
\<close>

theorem what_runs_was_authorized:
  assumes "sx_hooks step = Some h" and "authorize_tool_execution h = Some auth"
    and "prepare_call step call w = (Inr (PrepRun c tool plan args resumed), w')"
  shows "c = call \<and> map_of (sx_tools step) (tc_name call) = Some tool
    \<and> (\<exists>v d. auth \<lparr>hx_call = call, hx_args = args, hx_plan = plan\<rparr> v = (Inr d, w') \<and> lets_run d)"
proof -
  obtain v where v: "authorize_call step call tool plan args resumed v = (Inr (PrepRun c tool plan args resumed), w')"
    using prepare_call_run [OF assms(3)] by blast
  show ?thesis
    using prepare_call_run [OF assms(3)] authorize_call_run [OF v] assms(1,2) by blast
qed

section \<open>A batch that needs approval is held as a whole\<close>

lemma held_pending_approval:
  "list_ex is_approval (List.map_filter held_pending ps) \<longleftrightarrow> (\<exists>call p. PrepInterrupt call p \<in> set ps)"
proof (induction ps)
  case (Cons q ps)
  then show ?case by (cases q) (auto simp: map_filter_simps is_approval_def)
qed (simp add: map_filter_simps)

text \<open>
  C29. If any call of the batch needs an approval, nothing of the batch runs: the world is the one
  the authorization phase left, no event goes out, no result is produced, and every interrupted or
  re-parked call is pending.
\<close>

theorem batch_held_for_approval:
  assumes "prepare_all step calls w = (Inr prepared, w1)" and "PrepInterrupt call p \<in> set prepared"
  shows "\<exists>b. run_calls step calls completion w = (Inr (Some (b, [])), w1)
    \<and> tb_results b = [] \<and> tb_suspensions b = [] \<and> tb_handoff b = None
    \<and> tb_pending b = List.map_filter held_pending prepared \<and> PendApproval p \<in> set (tb_pending b)"
proof -
  have "list_ex is_approval (List.map_filter held_pending prepared)"
    using assms(2) held_pending_approval by blast
  then have "run_calls step calls completion w =
      (Inr (Some (hold_batch (List.map_filter held_pending prepared), [])), w1)"
    by (simp add: run_calls_def andthen_def assms(1) ret_def)
  moreover have "PendApproval p \<in> set (List.map_filter held_pending prepared)"
    using assms(2) by (force simp: map_filter_def)
  ultimately show ?thesis by (intro exI conjI) (assumption | simp add: hold_batch_def)+
qed

section \<open>Every call is answered\<close>

fun prepared_tool_call :: "'w prepared_call \<Rightarrow> tool_call \<Rightarrow> bool" where
  "prepared_tool_call (PrepResult c _) call \<longleftrightarrow> c = call"
| "prepared_tool_call (PrepInterrupt c _) call \<longleftrightarrow> c = call"
| "prepared_tool_call (PrepRepark c p) call \<longleftrightarrow> c = call \<and> pi_call_id p = tc_id call"
| "prepared_tool_call (PrepRun c _ _ _ _) call \<longleftrightarrow> c = call"

lemma apply_decision_call: "prepared_tool_call (apply_decision call tool plan args resumed d) call"
  by (auto simp: apply_decision_def split: option.splits)

lemma resume_disposition_repark:
  "resume_disposition resume call = Inl entry \<Longrightarrow> pi_call_id entry = tc_id call"
  by (auto simp: resume_disposition_def find_Some_iff split: option.splits pending_interrupt.splits)

lemma authorize_call_call: "ensures (\<lambda>p. prepared_tool_call p call) (authorize_call step call tool plan args resumed)"
  by (auto simp: authorize_call_def apply_decision_call intro!: ensures_andthen split: option.split)

lemma resolve_call_call: "ensures (\<lambda>p. prepared_tool_call p call) (resolve_call step call resumed args)"
  by (auto simp: resolve_call_def authorize_call_call intro!: ensures_andthen split: sum.split option.split)

lemma prepare_call_call: "ensures (\<lambda>p. prepared_tool_call p call) (prepare_call step call)"
  by (auto simp: prepare_call_def resolve_call_call resume_disposition_repark
      intro!: ensures_andthen split: sum.split)

lemma prepare_all_calls:
  "prepare_all step calls w = (Inr ps, w') \<Longrightarrow> list_all2 prepared_tool_call ps calls"
proof (induction calls arbitrary: w ps)
  case (Cons call calls)
  from Cons.prems obtain p v qs where p: "prepare_call step call w = (Inr p, v)"
    and qs: "prepare_all step calls v = (Inr qs, w')" and "ps = p # qs"
    by (auto simp: andthen_Inr ret_def)
  with Cons.IH [OF qs] ensuresD [OF prepare_call_call p] show ?case by simp
qed (simp add: ret_def)

text \<open>The id an outcome is reported under is the id of its call.\<close>

definition outcome_for :: "tool_call \<Rightarrow> call_outcome \<Rightarrow> bool" where
  "outcome_for call outcome \<longleftrightarrow> (case outcome of OutInput p \<Rightarrow> pi_call_id p = tc_id call | _ \<Rightarrow> True)"

lemma run_and_finalize_outcome:
  "ensures (\<lambda>oc. case oc of Some outcome \<Rightarrow> outcome_for call outcome | None \<Rightarrow> True)
     (run_and_finalize step call plan args resumed)"
  by (auto simp: run_and_finalize_def outcome_for_def intro!: ensures_andthen
      split: option.split sum.split thrown.split)

definition well_reported :: "'w prepared_call list \<Rightarrow> (nat \<times> call_outcome option) list \<Rightarrow> bool" where
  "well_reported prepared completed \<longleftrightarrow>
     list_all (\<lambda>(i, outcome). case prepared ! i of
         PrepRun call _ _ _ _ \<Rightarrow> (case outcome of Some oc \<Rightarrow> outcome_for call oc | None \<Rightarrow> True)
       | _ \<Rightarrow> True) completed"

lemma run_in_order_reported:
  "run_in_order step prepared order w = (Inr completed, w') \<Longrightarrow> well_reported prepared completed"
proof (induction order arbitrary: w completed)
  case (Cons i order)
  show ?case
  proof (cases "prepared ! i")
    case (PrepRun call tool plan args resumed)
    with Cons.prems obtain oc v rest where
      r: "run_and_finalize step call plan args resumed w = (Inr oc, v)"
      "run_in_order step prepared order v = (Inr rest, w')" "completed = (i, oc) # rest"
      by (auto simp: andthen_Inr ret_def)
    with Cons.IH [OF r(2)] show ?thesis
      using ensuresD [OF run_and_finalize_outcome r(1)]
      by (auto simp: well_reported_def PrepRun split: option.splits)
  qed (use Cons in auto)
qed (simp add: well_reported_def ret_def)

lemma outcome_at_for:
  assumes "well_reported prepared completed" and "prepared_tool_call (prepared ! i) call"
    and "outcome_at prepared completed i = Some oc"
  shows "outcome_for call oc"
proof (cases "prepared ! i")
  case (PrepRun c tool plan args resumed)
  with assms(3) have "(i, Some oc) \<in> set completed"
    by (auto simp: outcome_at_def dest: map_of_SomeD split: option.splits)
  then show ?thesis
    using assms(1,2) PrepRun by (fastforce simp: well_reported_def list_all_iff)
qed (use assms in \<open>auto simp: outcome_at_def outcome_for_def dest: map_of_SomeD split: option.splits\<close>)

lemma all_settled_iff: "all_settled xs = Some ys \<longleftrightarrow> xs = map Some ys"
  by (induction xs arbitrary: ys rule: all_settled.induct) auto

lemma all_settled_total: "list_all (\<lambda>x. x \<noteq> None) xs \<Longrightarrow> all_settled xs \<noteq> None"
  by (induction xs rule: all_settled.induct) auto

lemma outcomes_for_calls:
  assumes "list_all2 prepared_tool_call prepared calls" and "well_reported prepared completed"
    and "all_settled (map (outcome_at prepared completed) [0..<length prepared]) = Some outcomes"
  shows "list_all2 outcome_for calls outcomes"
proof -
  have m: "map (outcome_at prepared completed) [0..<length prepared] = map Some outcomes"
    using assms(3) by (simp add: all_settled_iff)
  have len: "length outcomes = length prepared" "length prepared = length calls"
    using arg_cong [OF m, of length] list_all2_lengthD [OF assms(1)] by simp_all
  show ?thesis
  proof (rule list_all2_all_nthI)
    fix i assume i: "i < length calls"
    with len have "outcome_at prepared completed i = Some (outcomes ! i)"
      using arg_cong [OF m, of "\<lambda>xs. xs ! i"] by simp
    moreover have "prepared_tool_call (prepared ! i) (calls ! i)"
      using list_all2_nthD2 [OF assms(1) i] .
    ultimately show "outcome_for (calls ! i) (outcomes ! i)"
      using outcome_at_for [OF assms(2)] by blast
  qed (simp add: len)
qed

lemma reported_once:
  "list_all2 outcome_for calls outcomes \<Longrightarrow>
     mset (map tm_call_id (List.map_filter result_of (zip calls outcomes)))
     + mset (map pending_call_id (List.map_filter input_of (zip calls outcomes)))
     + mset (map ts_call_id (List.map_filter suspension_of (zip calls outcomes))) = mset (map tc_id calls)
     \<and> subseq (map tm_call_id (List.map_filter result_of (zip calls outcomes))) (map tc_id calls)"
proof (induction rule: list_all2_induct)
  case (Cons call calls oc outcomes)
  then show ?case
    by (cases oc) (auto simp: map_filter_simps to_result_message_def outcome_for_def)
qed (simp add: map_filter_simps)

lemma input_of_not_approval: "\<not> list_ex is_approval (List.map_filter input_of pairs)"
proof (induction pairs)
  case (Cons x pairs)
  then show ?case by (cases x; cases "snd x") (auto simp: map_filter_simps is_approval_def)
qed (simp add: map_filter_simps)

lemma settle_batch_Some:
  "settle_batch calls prepared completed = Some (b, evs) \<Longrightarrow>
     \<exists>outcomes. all_settled (map (outcome_at prepared completed) [0..<length prepared]) = Some outcomes
       \<and> b = fst (finish_batch calls prepared outcomes)"
  by (auto simp: settle_batch_def split: option.splits prod.splits)

lemma run_calls_finished:
  assumes "run_calls step calls completion w = (Inr r, w')"
    and "\<And>b evs. r = Some (b, evs) \<Longrightarrow> \<not> list_ex is_approval (tb_pending b)"
  obtains prepared completed w1 where "prepare_all step calls w = (Inr prepared, w1)"
    and "\<not> list_ex is_approval (List.map_filter held_pending prepared)"
    and "run_in_order step prepared (completion prepared) w1 = (Inr completed, w')"
    and "r = settle_batch calls prepared completed"
proof -
  from assms(1) obtain prepared w1 where p: "prepare_all step calls w = (Inr prepared, w1)"
    and rest: "(if list_ex is_approval (List.map_filter held_pending prepared)
       then ret (Some (hold_batch (List.map_filter held_pending prepared), []))
       else andthen (run_in_order step prepared (completion prepared))
         (\<lambda>completed. ret (settle_batch calls prepared completed))) w1 = (Inr r, w')"
    unfolding run_calls_def by (rule andthen_InrE)
  have n: "\<not> list_ex is_approval (List.map_filter held_pending prepared)"
  proof
    assume "list_ex is_approval (List.map_filter held_pending prepared)"
    with rest assms(2) [of "hold_batch (List.map_filter held_pending prepared)" "[]"] show False
      by (simp add: ret_def hold_batch_def)
  qed
  with rest have "andthen (run_in_order step prepared (completion prepared))
      (\<lambda>completed. ret (settle_batch calls prepared completed)) w1 = (Inr r, w')"
    by simp
  then obtain completed v where "run_in_order step prepared (completion prepared) w1 = (Inr completed, v)"
    and "ret (settle_batch calls prepared completed) v = (Inr r :: thrown + _, w')"
    by (rule andthen_InrE)
  with p n show ?thesis by (intro that) (auto simp: ret_def)
qed

lemma held_batch_run:
  assumes "run_calls step calls completion w = (Inr (Some (b, evs)), w')" and "list_ex is_approval (tb_pending b)"
  shows "\<exists>prepared. prepare_all step calls w = (Inr prepared, w')
    \<and> b = hold_batch (List.map_filter held_pending prepared) \<and> evs = []"
proof -
  from assms(1) obtain prepared w1 where p: "prepare_all step calls w = (Inr prepared, w1)"
    and rest: "(if list_ex is_approval (List.map_filter held_pending prepared)
       then ret (Some (hold_batch (List.map_filter held_pending prepared), []))
       else andthen (run_in_order step prepared (completion prepared))
         (\<lambda>completed. ret (settle_batch calls prepared completed))) w1 = (Inr (Some (b, evs)), w')"
    unfolding run_calls_def by (rule andthen_InrE)
  show ?thesis
  proof (cases "list_ex is_approval (List.map_filter held_pending prepared)")
    case True
    with p rest show ?thesis by (auto simp: ret_def)
  next
    case False
    with rest obtain completed v where "settle_batch calls prepared completed = Some (b, evs)"
      by (auto simp: ret_def elim!: andthen_InrE)
    then obtain outcomes where "b = fst (finish_batch calls prepared outcomes)"
      using settle_batch_Some by blast
    then have "\<not> list_ex is_approval (tb_pending b)"
      by (simp add: finish_batch_def Let_def input_of_not_approval)
    with assms(2) show ?thesis by simp
  qed
qed

text \<open>
  C7. What a batch of calls comes back with. If a call of it needs an approval, the batch is held:
  it has no results, no suspensions and no events, and what is pending is what preparing its calls
  held back, in their order. Otherwise every call is answered exactly once: its id appears once
  among the results, the pending inputs and the suspended subagents, and the results come in the
  order the model made the calls, whatever order they completed in.
\<close>

theorem every_call_answered_once:
  assumes "run_calls step calls completion w = (Inr (Some (b, evs)), w')"
  shows "if list_ex is_approval (tb_pending b)
    then tb_results b = [] \<and> tb_suspensions b = [] \<and> evs = []
      \<and> (\<exists>prepared. prepare_all step calls w = (Inr prepared, w')
           \<and> tb_pending b = List.map_filter held_pending prepared)
    else mset (map tm_call_id (tb_results b)) + mset (map pending_call_id (tb_pending b))
      + mset (map ts_call_id (tb_suspensions b)) = mset (map tc_id calls)
      \<and> subseq (map tm_call_id (tb_results b)) (map tc_id calls)"
proof (cases "list_ex is_approval (tb_pending b)")
  case True
  from held_batch_run [OF assms True] True show ?thesis by (auto simp: hold_batch_def)
next
  case False
  obtain prepared completed w1 where p: "prepare_all step calls w = (Inr prepared, w1)"
    and c: "run_in_order step prepared (completion prepared) w1 = (Inr completed, w')"
    and s: "Some (b, evs) = settle_batch calls prepared completed"
    using assms False by (elim run_calls_finished) auto
  obtain outcomes where
    o: "all_settled (map (outcome_at prepared completed) [0..<length prepared]) = Some outcomes"
    and b: "b = fst (finish_batch calls prepared outcomes)"
    using settle_batch_Some [OF s [symmetric]] by blast
  have "list_all2 outcome_for calls outcomes"
    using outcomes_for_calls [OF prepare_all_calls [OF p] run_in_order_reported [OF c] o] .
  from reported_once [OF this] False show ?thesis
    by (simp add: b finish_batch_def Let_def)
qed

section \<open>An aborted batch settles\<close>

lemma race_settles_after_abort:
  "\<exists>t v. race_execute_with_grace_timeout name now (Some a) exec = Some (t, v) \<and> t \<le> max a now + grace_timeout_ms"
  by (auto simp: race_execute_with_grace_timeout_def Let_def split: option.splits if_splits)

lemma aborted_run_settles:
  "sx_abort_at step = Some a \<Longrightarrow> ensures (\<lambda>oc. oc \<noteq> None) (run_and_finalize step call plan args resumed)"
proof -
  assume a: "sx_abort_at step = Some a"
  have "ensures (\<lambda>raced. raced \<noteq> None) (execute_plan step call plan resumed)"
    using race_settles_after_abort by (fastforce simp: ensures_def execute_plan_def a split: prod.splits)
  then show ?thesis
    unfolding run_and_finalize_def
    by (rule ensures_andthen_strong)
      (auto intro!: ensures_andthen split: option.split sum.split thrown.split)
qed

lemma run_in_order_settles:
  assumes "sx_abort_at step = Some a" and "run_in_order step prepared order w = (Inr completed, w')"
    and "i \<in> set order" and "plan_of (prepared ! i) \<noteq> None"
  shows "\<exists>oc. map_of completed i = Some (Some oc)"
  using assms(2,3)
proof (induction order arbitrary: w completed)
  case (Cons j order)
  show ?case
  proof (cases "prepared ! j")
    case (PrepRun call tool plan args resumed)
    with Cons.prems obtain oc v rest where
      r: "run_and_finalize step call plan args resumed w = (Inr oc, v)"
      "run_in_order step prepared order v = (Inr rest, w')" "completed = (j, oc) # rest"
      by (auto simp: andthen_Inr ret_def)
    have "oc \<noteq> None" using ensuresD [OF aborted_run_settles [OF assms(1)] r(1)] .
    with r Cons.IH [OF r(2)] Cons.prems(2) show ?thesis by (cases "i = j") auto
  qed (use Cons assms(4) in \<open>auto\<close>)
qed simp

lemma aborted_batch_settled:
  assumes "sx_abort_at step = Some a" and "run_calls step calls completion w = (Inr r, w')"
    and "\<And>prepared i. i < length prepared \<Longrightarrow> plan_of (prepared ! i) \<noteq> None \<Longrightarrow> i \<in> set (completion prepared)"
  shows "r \<noteq> None"
proof
  assume "r = None"
  then obtain prepared completed w1 where
    n: "\<not> list_ex is_approval (List.map_filter held_pending prepared)"
    and c: "run_in_order step prepared (completion prepared) w1 = (Inr completed, w')"
    and s: "None = settle_batch calls prepared completed"
    using run_calls_finished [OF assms(2)] by (metis option.discI)
  have "outcome_at prepared completed i \<noteq> None" if i: "i < length prepared" for i
  proof (cases "prepared ! i")
    case (PrepInterrupt call p)
    then show ?thesis using n i nth_mem [OF i] held_pending_approval by metis
  next
    case (PrepRun call tool plan args resumed)
    then have "plan_of (prepared ! i) \<noteq> None" by simp
    from run_in_order_settles [OF assms(1) c assms(3) [OF i this] this] PrepRun
    show ?thesis by (auto simp: outcome_at_def)
  qed (simp_all add: outcome_at_def)
  then have "list_all (\<lambda>x. x \<noteq> None) (map (outcome_at prepared completed) [0..<length prepared])"
    by (simp add: list_all_iff)
  then have "all_settled (map (outcome_at prepared completed) [0..<length prepared]) \<noteq> None"
    by (rule all_settled_total)
  with s show False
    by (auto simp: settle_batch_def split: prod.splits)
qed

text \<open>
  C32. An aborted batch settles: when the run has an abort time, a batch whose hooks return comes
  to an end even if some of its tools never do; each call is waited for at most two seconds after
  the abort.
\<close>

theorem aborted_batch_settles:
  assumes "sx_abort_at step = Some a" and "run_calls step calls completion w = (Inr r, w')"
    and "\<And>prepared i. i < length prepared \<Longrightarrow> plan_of (prepared ! i) \<noteq> None \<Longrightarrow> i \<in> set (completion prepared)"
  shows "r \<noteq> None"
  by (rule aborted_batch_settled [OF assms])

section \<open>A nested call never leaves a client waiting\<close>

definition closed_report :: "tool_call \<Rightarrow> string \<Rightarrow> bool \<Rightarrow> (nested_result \<times> loop_event list) option \<Rightarrow> bool" where
  "closed_report call parent_id announced r \<longleftrightarrow>
     (case r of
        None \<Rightarrow> True
      | Some (res, events) \<Rightarrow>
          (events = [] \<and> \<not> announced \<and> is_truthy (tr_is_error (nr_result res)))
          \<or> (\<exists>out. events = [CallResult (tc_id call) (tc_name call) out (Some parent_id)] \<and> announced)
          \<or> (\<exists>args out. events = [CallStarted (tc_id call) (tc_name call) args (Some parent_id),
               CallResult (tc_id call) (tc_name call) out (Some parent_id)] \<and> \<not> announced))"

lemma settle_nested_closed:
  "ensures (closed_report call parent_id announced) (settle_nested step call parent_id announced prepared)"
  by (auto simp: settle_nested_def Let_def closed_report_def error_result_def is_truthy_def
      intro!: ensures_andthen split: prepared_call.split option.split call_outcome.split)

lemma closed_report_opened:
  "closed_report call parent_id True r \<Longrightarrow> closed_report call parent_id False (opened call parent_id r)"
  by (auto simp: closed_report_def opened_def split: option.splits)

lemma dispatch_nested_closed:
  "ensures (closed_report call parent_id False) (dispatch_nested step approver parent_id call approval)"
proof -
  have ask: "ensures (closed_report call parent_id False)
      (andthen (settle_nested step call parent_id True again) (\<lambda>r. ret (opened call parent_id r)))" for again
    by (rule ensures_andthen_strong [OF settle_nested_closed]) (simp add: closed_report_opened)
  show ?thesis
    unfolding dispatch_nested_def
    by (intro ensures_andthen)
      (simp add: settle_nested_closed ask ensures_andthen split: prepared_call.split option.split)
qed

text \<open>
  A nested call never pauses the turn and never leaves a client waiting: it always comes back
  with a tool result; either it is never announced, and then the result is an error, or its start is
  followed by exactly its own result.
\<close>

theorem nested_call_is_closed:
  "ensures (closed_report (nested_tool_call parent_id sequence name args) parent_id False)
     (nested_call step aborted approver parent_id sequence name args approval)"
  using ensuresD [OF dispatch_nested_closed]
  by (auto simp: nested_call_def ensures_def ret_def closed_report_def error_result_def is_truthy_def)

section \<open>A batch of one call\<close>

definition demo_plan :: "nat tool_plan" where
  "demo_plan = \<lparr>pl_accesses = None, pl_approval_rule = ''R'', pl_handoff = None, pl_stop_batch = None,
     pl_run = (\<lambda>_ w. (\<lparr>st_at = None, st_value = Inr (error_result ''never'' False)\<rparr>, Suc w))\<rparr>"

definition demo_tool :: "nat tool" where
  "demo_tool = \<lparr>to_resolve = (\<lambda>_. ret demo_plan)\<rparr>"

definition demo_approval :: pending_approval where
  "demo_approval = \<lparr>pa_call_id = ''c1'', pa_tool_name = ''T'', pa_rule = ''R'', pa_policy_name = None\<rparr>"

text \<open>A step whose authorize hook answers \<open>d\<close>, aborted at time 3.\<close>

definition demo_step :: "authorize_result option \<Rightarrow> nat step_context" where
  "demo_step d = \<lparr>sx_tools = [(''T'', demo_tool)], sx_describe_unknown = (\<lambda>_. None),
     sx_hooks = Some (no_hooks\<lparr>authorize_tool_execution := Some (\<lambda>_. ret d)\<rparr>), sx_resume = None,
     sx_now = 0, sx_abort_at = Some 3, sx_file_answer = None\<rparr>"

definition demo_call :: tool_call where
  "demo_call = \<lparr>tc_id = ''c1'', tc_name = ''T'', tc_arguments = JNull\<rparr>"

lemmas demo_step_defs = demo_step_def demo_call_def demo_tool_def no_hooks_def

lemma demo_prepare: "prepare_call (demo_step d) demo_call w =
    (Inr (apply_decision demo_call demo_tool demo_plan JNull None d), w)"
  by (simp add: prepare_call_def resume_disposition_def prepare_args_def resolve_call_def authorize_call_def
      attempt_def demo_step_defs andthen_def ret_def)

lemma run_calls_go:
  "prepare_all step calls w = (Inr prepared, w1) \<Longrightarrow> \<not> list_ex is_approval (List.map_filter held_pending prepared)
   \<Longrightarrow> run_in_order step prepared (completion prepared) w1 = (Inr completed, w2)
   \<Longrightarrow> run_calls step calls completion w = (Inr (settle_batch calls prepared completed), w2)"
  by (simp add: run_calls_def andthen_def ret_def)

definition demo_outcome :: call_outcome where
  "demo_outcome = OutResult
     (error_result (''Tool '' @ [CHR 0x22] @ ''T'' @ [CHR 0x22] @ '' aborted by grace timeout (2000ms)'') False)"

definition demo_prepared :: "nat prepared_call list" where
  "demo_prepared = [PrepRun demo_call demo_tool demo_plan JNull None]"

lemma demo_prepare_all: "prepare_all (demo_step None) [demo_call] w = (Inr demo_prepared, w)"
  by (simp add: andthen_def demo_prepare apply_decision_def ret_def demo_prepared_def)

lemma demo_finalize: "finalize_result (demo_step None) call args r = ret r"
  by (simp add: finalize_result_def demo_step_def no_hooks_def)

lemma demo_step_fields: "sx_now (demo_step d) = 0" "sx_abort_at (demo_step d) = Some 3" "tc_name demo_call = ''T''"
  by (simp_all add: demo_step_def demo_call_def)

lemma demo_run: "run_and_finalize (demo_step None) demo_call demo_plan JNull None 0 = (Inr (Some demo_outcome), 1)"
  by (simp add: run_and_finalize_def andthen_def execute_plan_def race_execute_with_grace_timeout_def
      demo_finalize ret_def demo_outcome_def demo_plan_def demo_step_fields)

lemma demo_run_calls:
  assumes "completion demo_prepared = [0]"
  shows "run_calls (demo_step None) [demo_call] completion 0 =
     (Inr (settle_batch [demo_call] demo_prepared [(0, Some demo_outcome)]), 1)"
proof (rule run_calls_go [OF demo_prepare_all])
  show "run_in_order (demo_step None) demo_prepared (completion demo_prepared) 0 = (Inr [(0, Some demo_outcome)], 1)"
    by (simp add: assms) (simp add: demo_prepared_def andthen_def demo_run ret_def)
qed (simp add: demo_prepared_def map_filter_simps)

lemma what_runs_was_authorized_witness:
  "\<exists>v d. (\<lambda>_. ret None) \<lparr>hx_call = demo_call, hx_args = JNull, hx_plan = demo_plan\<rparr> v
      = (Inr d :: thrown + authorize_result option, 5 :: nat) \<and> lets_run d"
proof -
  have "prepare_call (demo_step None) demo_call 5 = (Inr (PrepRun demo_call demo_tool demo_plan JNull None), 5)"
    by (simp add: demo_prepare apply_decision_def)
  from what_runs_was_authorized [OF _ _ this, of "no_hooks\<lparr>authorize_tool_execution := Some (\<lambda>_. ret None)\<rparr>"]
  show ?thesis by (simp add: demo_step_def)
qed

lemma batch_held_for_approval_witness:
  "\<exists>b. run_calls (demo_step (Some \<lparr>au_block = None, au_reason = None, au_synthetic = None,
         au_interrupt = Some demo_approval\<rparr>)) [demo_call] (\<lambda>_. [0]) 5 = (Inr (Some (b, [])), 5)
     \<and> PendApproval demo_approval \<in> set (tb_pending b)"
proof -
  let ?d = "Some \<lparr>au_block = None, au_reason = None, au_synthetic = None, au_interrupt = Some demo_approval\<rparr>"
  have "prepare_all (demo_step ?d) [demo_call] 5 = (Inr [PrepInterrupt demo_call demo_approval], 5)"
    by (simp add: andthen_def demo_prepare apply_decision_def ret_def)
  from batch_held_for_approval [OF this, of demo_call demo_approval] show ?thesis by auto
qed

lemma every_call_answered_once_witness:
  "\<exists>b evs. run_calls (demo_step None) [demo_call] (\<lambda>_. [0]) 0 = (Inr (Some (b, evs)), 1) \<and> tb_pending b = []
    \<and> mset (map tm_call_id (tb_results b)) + mset (map pending_call_id (tb_pending b))
      + mset (map ts_call_id (tb_suspensions b)) = {#''c1''#}"
proof -
  obtain b evs where r: "run_calls (demo_step None) [demo_call] (\<lambda>_. [0]) 0 = (Inr (Some (b, evs)), 1)"
    and b: "tb_pending b = []"
    by (simp add: demo_run_calls settle_batch_def outcome_at_def finish_batch_def map_filter_simps
        demo_prepared_def demo_outcome_def)
  have "mset (map tm_call_id (tb_results b)) + mset (map pending_call_id (tb_pending b))
      + mset (map ts_call_id (tb_suspensions b)) = mset (map tc_id [demo_call])"
    using every_call_answered_once [OF r] b by simp
  then show ?thesis using r b by (intro exI [of _ b] exI [of _ evs]) (simp add: demo_call_def)
qed

lemma aborted_batch_settles_witness:
  "settle_batch [demo_call] demo_prepared [(0, Some demo_outcome)] \<noteq> None"
proof (rule aborted_batch_settles [where step = "demo_step None" and calls = "[demo_call]"
      and completion = "\<lambda>ps. [0..<length ps]" and w = 0 and w' = 1 and a = 3])
  show "run_calls (demo_step None) [demo_call] (\<lambda>ps. [0..<length ps]) 0 =
     (Inr (settle_batch [demo_call] demo_prepared [(0, Some demo_outcome)]), 1)"
    by (rule demo_run_calls) (simp add: demo_prepared_def)
qed (simp_all add: demo_step_def)

end
