(* ===== verification/Bash_Command.thy ===== *)
theory Bash_Command
  imports Agent_Prelude
begin

text \<open>
  Shell commands as the permission layer reads them: the quote-aware split of a compound command
  and the rule patterns (\<open>agents-core/src/tool/support/bash-rule-match.ts\<close>), and the table of
  read-only commands (\<open>agents-core/src/tool/support/bash-read-only.ts\<close>).

  The regular expressions of the sources are written out as functions on characters. A wildcard
  pattern is a list of literals and stars; the NUL-delimited placeholders of the source keep
  escaped stars apart and do not occur in patterns.
\<close>

named_theorems bash_defs "definitions of the command scanner"

abbreviation squote :: char where "squote \<equiv> CHR 0x27"
abbreviation dquote :: char where "dquote \<equiv> CHR 0x22"
abbreviation backslash :: char where "backslash \<equiv> CHR 0x5C"
abbreviation backtick :: char where "backtick \<equiv> CHR 0x60"
abbreviation newline :: char where "newline \<equiv> CHR 0x0A"

section \<open>Splitting a compound command\<close>

record scan_state =
  ss_subcommands :: "string list"
  ss_current :: string
  ss_single :: bool
  ss_double :: bool
  ss_risky :: bool

record shell_scan =
  sc_subcommands :: "string list"
  sc_risky :: bool

definition scan_start :: scan_state where
  "scan_start = \<lparr>ss_subcommands = [], ss_current = [], ss_single = False, ss_double = False, ss_risky = False\<rparr>"

definition push_current :: "scan_state \<Rightarrow> scan_state" where
  "push_current st =
     (let trimmed = js_trim (ss_current st) in
      st\<lparr>ss_subcommands := (if trimmed \<noteq> [] then ss_subcommands st @ [trimmed] else ss_subcommands st),
         ss_current := []\<rparr>)"

definition add_char :: "char \<Rightarrow> scan_state \<Rightarrow> scan_state" where
  "add_char ch st = st\<lparr>ss_current := ss_current st @ [ch]\<rparr>"

definition next_is :: "char \<Rightarrow> string \<Rightarrow> bool" where
  "next_is c rest \<longleftrightarrow> (case rest of [] \<Rightarrow> False | n # _ \<Rightarrow> n = c)"

text \<open>One iteration of the loop: the new state, and how many characters it consumed after \<open>ch\<close>.\<close>

definition scan_step :: "char \<Rightarrow> string \<Rightarrow> scan_state \<Rightarrow> scan_state \<times> nat" where
  "scan_step ch rest st =
     (if ss_single st then
        (add_char ch (if ch = squote then st\<lparr>ss_single := False\<rparr> else st), 0)
      else if ch = backslash \<and> rest \<noteq> [] then (add_char (hd rest) (add_char ch st), 1)
      else if ch = squote \<and> \<not> ss_double st then (add_char ch (st\<lparr>ss_single := True\<rparr>), 0)
      else if ch = dquote then (add_char ch (st\<lparr>ss_double := \<not> ss_double st\<rparr>), 0)
      else if ch = backtick \<or> (ch = CHR ''$'' \<and> next_is (CHR ''('') rest)
        then (add_char ch (st\<lparr>ss_risky := True\<rparr>), 0)
      else if \<not> ss_double st \<and> (ch = CHR ''<'' \<or> ch = CHR ''>'') \<and> next_is (CHR ''('') rest
        then (add_char ch (st\<lparr>ss_risky := True\<rparr>), 0)
      else if \<not> ss_double st \<and> ch = CHR ''&'' \<and> next_is (CHR ''&'') rest then (push_current st, 1)
      else if \<not> ss_double st \<and> ch = CHR ''|'' \<and> next_is (CHR ''|'') rest then (push_current st, 1)
      else if \<not> ss_double st \<and> ch \<in> set [CHR ''|'', CHR ''&'', CHR '';'', newline] then (push_current st, 0)
      else (add_char ch st, 0))"

function scan_chars :: "string \<Rightarrow> scan_state \<Rightarrow> scan_state" where
  "scan_chars [] st = st"
| "scan_chars (ch # rest) st =
     (case scan_step ch rest st of (st', n) \<Rightarrow> scan_chars (drop n rest) st')"
  by pat_completeness auto
termination by (relation "measure (length \<circ> fst)") auto

definition risky_command_words :: "string list" where
  "risky_command_words = [''eval'', ''source'', ''.'']"

text \<open>\<open>sub.split(/\s+/, 1)[0]\<close>: what stands before the first white space.\<close>

definition first_word :: "string \<Rightarrow> string" where
  "first_word s = takeWhile (\<lambda>c. \<not> js_space c) s"

definition scan_shell_command :: "string \<Rightarrow> shell_scan" where
  "scan_shell_command command =
     (let st = scan_chars command scan_start;
          st1 = push_current st;
          risky = (ss_risky st \<or> ss_single st \<or> ss_double st
            \<or> list_ex (\<lambda>sub. first_word sub \<in> set risky_command_words) (ss_subcommands st1))
      in if risky then \<lparr>sc_subcommands = [], sc_risky = True\<rparr>
         else \<lparr>sc_subcommands = ss_subcommands st1, sc_risky = False\<rparr>)"

section \<open>Rule patterns\<close>

text \<open>\<open>/^(.+):\*$/\<close>, where the dot matches no line terminator.\<close>

definition rule_extract_prefix :: "string \<Rightarrow> string option" where
  "rule_extract_prefix rule =
     (let n = length rule - 2 in
      if 3 \<le> length rule \<and> drop n rule = '':*''
         \<and> list_all (\<lambda>c. c \<noteq> newline \<and> c \<noteq> CHR 0x0D) (take n rule)
      then Some (take n rule) else None)"

text \<open>A star counts unless an odd number of backslashes stands before it; the accumulator is the
  parity of the run of backslashes.\<close>

fun has_open_star :: "bool \<Rightarrow> string \<Rightarrow> bool" where
  "has_open_star esc [] = False"
| "has_open_star esc (c # cs) =
     (if c = CHR ''*'' \<and> \<not> esc then True
      else has_open_star (if c = backslash then \<not> esc else False) cs)"

definition has_wildcards :: "string \<Rightarrow> bool" where
  "has_wildcards pattern \<longleftrightarrow> \<not> suffix '':*'' pattern \<and> has_open_star False pattern"

datatype wildcard = Lit char | Star

fun wildcard_tokens :: "string \<Rightarrow> wildcard list" where
  "wildcard_tokens [] = []"
| "wildcard_tokens [c] = [if c = CHR ''*'' then Star else Lit c]"
| "wildcard_tokens (c # d # cs) =
     (if c = backslash \<and> (d = CHR ''*'' \<or> d = backslash) then Lit d # wildcard_tokens cs
      else (if c = CHR ''*'' then Star else Lit c) # wildcard_tokens (d # cs))"

text \<open>\<open>^...$\<close> under the \<open>s\<close> flag: a star is any string.\<close>

fun match_tokens :: "wildcard list \<Rightarrow> string \<Rightarrow> bool" where
  "match_tokens [] s \<longleftrightarrow> s = []"
| "match_tokens (Lit c # ts) s \<longleftrightarrow> (case s of [] \<Rightarrow> False | x # xs \<Rightarrow> x = c \<and> match_tokens ts xs)"
| "match_tokens (Star # ts) [] \<longleftrightarrow> match_tokens ts []"
| "match_tokens (Star # ts) (x # xs) \<longleftrightarrow> match_tokens ts (x # xs) \<or> match_tokens (Star # ts) xs"

text \<open>A single trailing \<open>" *"\<close> also matches the command without arguments.\<close>

definition match_wildcard_pattern :: "string \<Rightarrow> string \<Rightarrow> bool" where
  "match_wildcard_pattern pattern command =
     (let ts = wildcard_tokens (js_trim pattern) in
      if suffix [Lit CHR '' '', Star] ts \<and> length (filter (\<lambda>t. t = Star) ts) = 1
      then match_tokens (butlast (butlast ts)) command \<or> match_tokens ts command
      else match_tokens ts command)"

definition safe_env_vars :: "string list" where
  "safe_env_vars =
     [''GOEXPERIMENT'', ''GOOS'', ''GOARCH'', ''CGO_ENABLED'', ''GO111MODULE'', ''RUST_BACKTRACE'', ''RUST_LOG'',
      ''NODE_ENV'', ''PYTHONUNBUFFERED'', ''PYTHONDONTWRITEBYTECODE'', ''PYTEST_DISABLE_PLUGIN_AUTOLOAD'',
      ''PYTEST_DEBUG'', ''ANTHROPIC_API_KEY'', ''LANG'', ''LANGUAGE'', ''LC_ALL'', ''LC_CTYPE'', ''LC_TIME'',
      ''CHARSET'', ''TERM'', ''COLORTERM'', ''NO_COLOR'', ''FORCE_COLOR'', ''TZ'', ''LS_COLORS'', ''LSCOLORS'',
      ''GREP_COLOR'', ''GREP_COLORS'', ''GCC_COLORS'', ''TIME_STYLE'', ''BLOCK_SIZE'', ''BLOCKSIZE'']"

definition ascii_letter :: "char \<Rightarrow> bool" where
  "ascii_letter c = (let n = of_char c :: nat in (65 \<le> n \<and> n \<le> 90) \<or> (97 \<le> n \<and> n \<le> 122))"

definition ascii_digit :: "char \<Rightarrow> bool" where
  "ascii_digit c = (let n = of_char c :: nat in 48 \<le> n \<and> n \<le> 57)"

text \<open>\<open>/^([A-Za-z_][A-Za-z0-9_]*)=/\<close>: the assigned variable.\<close>

definition env_assignment :: "string \<Rightarrow> string option" where
  "env_assignment token =
     (let name = takeWhile (\<lambda>c. ascii_letter c \<or> ascii_digit c \<or> c = CHR ''_'') token in
      if name \<noteq> [] \<and> \<not> ascii_digit (hd name) \<and> next_is (CHR ''='') (drop (length name) token)
      then Some name else None)"

text \<open>\<open>split(/\s+/)\<close>: runs of white space separate; a leading or trailing run leaves an empty piece.\<close>

function split_space :: "string \<Rightarrow> string list" where
  "split_space s =
     (let word = takeWhile (\<lambda>c. \<not> js_space c) s; rest = dropWhile (\<lambda>c. \<not> js_space c) s in
      if rest = [] then [word] else word # split_space (dropWhile js_space rest))"
  by pat_completeness auto
termination
proof (relation "measure length", simp, goal_cases)
  case (1 s word rest)
  then have "js_space (hd rest)"
    using hd_dropWhile [of "\<lambda>c. \<not> js_space c" s] by auto
  with 1(3) have "dropWhile js_space rest = dropWhile js_space (tl rest)"
    by (cases rest) auto
  moreover have "length (dropWhile js_space (tl rest)) \<le> length (tl rest)"
    by (rule length_dropWhile_le)
  moreover have "length rest \<le> length s"
    using 1 by (simp add: length_dropWhile_le)
  moreover have "length (tl rest) < length rest"
    using 1(3) by simp
  ultimately show ?case by simp
qed

declare split_space.simps [simp del]

definition join_space :: "string list \<Rightarrow> string" where
  "join_space ws = concat (case ws of [] \<Rightarrow> [] | w # ws' \<Rightarrow> w # map (\<lambda>x. CHR '' '' # x) ws')"

definition safe_env_token :: "string \<Rightarrow> bool" where
  "safe_env_token token = (case env_assignment token of Some v \<Rightarrow> v \<in> set safe_env_vars | None \<Rightarrow> False)"

definition strip_safe_env_prefix :: "string \<Rightarrow> string" where
  "strip_safe_env_prefix sub = join_space (dropWhile safe_env_token (split_space sub))"

definition single_command_matches_rule :: "string \<Rightarrow> string \<Rightarrow> bool" where
  "single_command_matches_rule pattern sub =
     (let trimmed = js_trim pattern in
      case rule_extract_prefix trimmed of
        Some p \<Rightarrow> prefix p sub
      | None \<Rightarrow>
          if has_wildcards trimmed then match_wildcard_pattern trimmed sub else sub = trimmed)"

definition command_covered_by_rule :: "string \<Rightarrow> string \<Rightarrow> bool" where
  "command_covered_by_rule pattern command =
     (let scan = scan_shell_command (js_trim command) in
      if sc_risky scan \<or> sc_subcommands scan = [] then False
      else list_all (\<lambda>sub. single_command_matches_rule pattern (strip_safe_env_prefix sub)) (sc_subcommands scan))"

definition matches_bash_rule :: "string \<Rightarrow> string \<Rightarrow> bool" where
  "matches_bash_rule rule_args command =
     (if rule_args = [] then True
      else let negated = next_is (CHR ''!'') rule_args;
               pattern = (if negated then tl rule_args else rule_args);
               hit = command_covered_by_rule pattern command
           in if negated then \<not> hit else hit)"

section \<open>What a wildcard accepts\<close>

inductive denotes :: "wildcard list \<Rightarrow> string \<Rightarrow> bool" where
  denotes_end: "denotes [] []"
| denotes_lit: "denotes ts s \<Longrightarrow> denotes (Lit c # ts) (c # s)"
| denotes_star: "denotes ts s \<Longrightarrow> denotes (Star # ts) (w @ s)"

inductive_simps denotes_simps: "denotes [] s" "denotes (Lit c # ts) s" "denotes (Star # ts) s"

lemma match_tokens_iff: "match_tokens ts s \<longleftrightarrow> denotes ts s"
proof (induction ts s rule: match_tokens.induct)
  case (4 ts x xs)
  have "denotes (Star # ts) (x # xs) \<longleftrightarrow> denotes ts (x # xs) \<or> denotes (Star # ts) xs"
    by (auto simp: denotes_simps Cons_eq_append_conv)
  with 4 show ?case by simp
qed (auto simp: denotes_simps split: list.split)

definition plain_text :: "string \<Rightarrow> bool" where
  "plain_text p \<longleftrightarrow> list_all (\<lambda>c. c \<noteq> CHR ''*'' \<and> c \<noteq> backslash) p"

lemma wildcard_tokens_plain:
  "plain_text p \<Longrightarrow> wildcard_tokens (p @ rest) = map Lit p @ wildcard_tokens rest"
proof (induction p arbitrary: rest)
  case (Cons c p)
  then have "wildcard_tokens (c # p @ rest) = Lit c # wildcard_tokens (p @ rest)"
    by (cases "p @ rest") (simp_all add: plain_text_def)
  with Cons show ?case by (simp add: plain_text_def)
qed simp

lemma match_tokens_lits: "match_tokens (map Lit p @ ts) s \<longleftrightarrow> (\<exists>rest. s = p @ rest \<and> match_tokens ts rest)"
  by (induction p arbitrary: s) (auto split: list.split)

lemma match_tokens_star: "match_tokens [Star] s"
  by (induction s) auto

lemma js_trim_id: "s \<noteq> [] \<Longrightarrow> \<not> js_space (hd s) \<Longrightarrow> \<not> js_space (last s) \<Longrightarrow> js_trim s = s"
proof -
  assume "s \<noteq> []" "\<not> js_space (hd s)" "\<not> js_space (last s)"
  then have "dropWhile js_space s = s" "dropWhile js_space (rev s) = rev s"
    by (simp_all add: dropWhile_eq_self_iff hd_rev)
  then show ?thesis by (simp add: js_trim_def)
qed

text \<open>
  A pattern with one trailing star allows a command with or without arguments, and nothing
  else: \<open>"p *"\<close> matches exactly \<open>p\<close> and the commands that begin with \<open>p\<close> and a space.
\<close>

theorem trailing_star_matches:
  assumes "plain_text p" and "p \<noteq> []" and "\<not> js_space (hd p)"
  shows "match_wildcard_pattern (p @ '' *'') command \<longleftrightarrow>
    command = p \<or> (\<exists>args. command = p @ '' '' @ args)"
proof -
  have trim: "js_trim (p @ '' *'') = p @ '' *''"
    using assms(2,3) by (intro js_trim_id) (simp_all add: js_space_def)
  have toks: "wildcard_tokens (p @ '' *'') = map Lit p @ [Lit CHR '' '', Star]"
    by (simp add: wildcard_tokens_plain [OF assms(1)])
  have lits: "match_tokens (map Lit p) command \<longleftrightarrow> command = p"
    using match_tokens_lits [of p "[]" command] by auto
  have spaced: "match_tokens (map Lit p @ [Lit CHR '' '', Star]) command \<longleftrightarrow>
      (\<exists>args. command = p @ '' '' @ args)"
    by (auto simp: match_tokens_lits match_tokens_star split: list.split_asm) 
  have b: "butlast (butlast (map Lit p @ [Lit CHR '' '', Star])) = map Lit p"
    by (simp add: butlast_append)
  have c: "length (filter (\<lambda>t. t = Star) (map Lit p @ [Lit CHR '' '', Star])) = 1"
    by (simp add: filter_map comp_def)
  have d: "suffix [Lit CHR '' '', Star] (map Lit p @ [Lit CHR '' '', Star])"
    by (simp add: suffix_def)
  show ?thesis
    unfolding match_wildcard_pattern_def trim toks Let_def b using c d lits spaced by simp
qed

lemma trailing_star_matches_witness:
  "match_wildcard_pattern (''git log'' @ '' *'') ''git log -1'' \<longleftrightarrow>
     ''git log -1'' = ''git log'' \<or> (\<exists>args. ''git log -1'' = ''git log'' @ '' '' @ args)"
  by (rule trailing_star_matches) (simp_all add: plain_text_def js_space_def)

section \<open>Compound commands are covered part by part\<close>

definition quiet_end :: "string \<Rightarrow> bool" where
  "quiet_end c \<longleftrightarrow> c = [] \<or> last c \<notin> set [backslash, CHR ''&'', CHR ''|'', CHR ''$'', CHR ''<'', CHR ''>'']"

definition separators :: "string list" where
  "separators = ['';'', ''&&'', ''||'']"

text \<open>A character that is not one of the two-character starters reads the same whatever follows.\<close>

lemma scan_step_local:
  assumes "quiet_end (ch # rest)" and "sep \<in> set separators"
  shows "scan_step ch (rest @ sep @ c2) st = scan_step ch rest st
    \<and> snd (scan_step ch rest st) \<le> length rest"
proof (cases rest)
  case Nil
  with assms have "ch \<notin> set [backslash, CHR ''&'', CHR ''|'', CHR ''$'', CHR ''<'', CHR ''>'']"
    by (simp add: quiet_end_def)
  then show ?thesis
    by (simp add: scan_step_def Nil)
next
  case (Cons n rest')
  then show ?thesis
    by (simp add: scan_step_def next_is_def)
qed

lemma quiet_end_drop: "quiet_end (ch # rest) \<Longrightarrow> quiet_end (drop n rest)"
  by (cases "drop n rest = []") (auto simp: quiet_end_def last_drop split: if_splits)

lemma scan_chars_append:
  assumes "quiet_end c1" and "sep \<in> set separators"
  shows "scan_chars (c1 @ sep @ c2) st = scan_chars (sep @ c2) (scan_chars c1 st)"
  using assms(1)
proof (induction c1 st rule: scan_chars.induct)
  case (2 ch rest st)
  obtain st' n where s: "scan_step ch rest st = (st', n)"
    by (cases "scan_step ch rest st")
  from scan_step_local [OF 2(2) assms(2), of c2 st] s
  have "scan_step ch (rest @ sep @ c2) st = (st', n)" and "n \<le> length rest" by simp_all
  then show ?case
    using 2(1) [OF s [symmetric]] quiet_end_drop [OF 2(2), of n] s by simp
qed simp

lemma scan_separator:
  assumes "sep \<in> set separators" and "\<not> ss_single st" and "\<not> ss_double st"
  shows "scan_chars (sep @ c2) st = scan_chars c2 (push_current st)"
  using assms by (auto simp: separators_def scan_step_def next_is_def)

text \<open>What was split off before does not matter to what follows.\<close>

definition with_history :: "string list \<Rightarrow> bool \<Rightarrow> scan_state \<Rightarrow> scan_state" where
  "with_history subs r st = st\<lparr>ss_subcommands := subs @ ss_subcommands st, ss_risky := r \<or> ss_risky st\<rparr>"

lemma with_history_fields:
  "ss_single (with_history subs r st) = ss_single st" "ss_double (with_history subs r st) = ss_double st"
  "(with_history subs r st)\<lparr>ss_single := b\<rparr> = with_history subs r (st\<lparr>ss_single := b\<rparr>)"
  "(with_history subs r st)\<lparr>ss_double := b\<rparr> = with_history subs r (st\<lparr>ss_double := b\<rparr>)"
  "(with_history subs r st)\<lparr>ss_risky := True\<rparr> = with_history subs r (st\<lparr>ss_risky := True\<rparr>)"
  "add_char ch (with_history subs r st) = with_history subs r (add_char ch st)"
  "push_current (with_history subs r st) = with_history subs r (push_current st)"
  by (simp_all add: with_history_def add_char_def push_current_def Let_def)

lemma scan_step_history:
  "scan_step ch rest (with_history subs r st) =
     (with_history subs r (fst (scan_step ch rest st)), snd (scan_step ch rest st))"
  by (simp add: scan_step_def with_history_fields)

lemma scan_chars_history:
  "scan_chars c (with_history subs r st) = with_history subs r (scan_chars c st)"
proof (induction c st rule: scan_chars.induct)
  case (2 ch rest st)
  then show ?case
    by (cases "scan_step ch rest st") (simp add: scan_step_history)
qed simp

lemma push_current_history: "push_current (with_history subs r st) = with_history subs r (push_current st)"
  by (simp add: push_current_def with_history_def Let_def)

lemma scan_compound:
  assumes "quiet_end c1" and "sep \<in> set separators"
    and "\<not> ss_single (scan_chars c1 scan_start)" and "\<not> ss_double (scan_chars c1 scan_start)"
  shows "scan_chars (c1 @ sep @ c2) scan_start =
    with_history (ss_subcommands (push_current (scan_chars c1 scan_start))) (ss_risky (scan_chars c1 scan_start))
      (scan_chars c2 scan_start)"
proof -
  have "push_current (scan_chars c1 scan_start) =
      with_history (ss_subcommands (push_current (scan_chars c1 scan_start))) (ss_risky (scan_chars c1 scan_start)) scan_start"
    using assms(3,4) by (simp add: with_history_def scan_start_def push_current_def Let_def)
  then show ?thesis
    using scan_chars_append [OF assms(1,2)] scan_separator [OF assms(2-4)] scan_chars_history by metis
qed

text \<open>A command that is not risky ends outside quotes.\<close>

lemma scan_not_risky:
  "\<not> sc_risky (scan_shell_command c) \<Longrightarrow>
     \<not> ss_single (scan_chars c scan_start) \<and> \<not> ss_double (scan_chars c scan_start)"
  by (auto simp: scan_shell_command_def Let_def push_current_def split: if_splits)

text \<open>
  Splitting is compositional: joining two commands by \<open>;\<close>, \<open>&&\<close> or \<open>||\<close> gives the parts of
  both, and the whole is risky as soon as one side is; nothing hides behind the first command.
\<close>

theorem scan_of_compound:
  assumes "quiet_end c1" and "sep \<in> set separators" and "\<not> sc_risky (scan_shell_command c1)"
  shows "scan_shell_command (c1 @ sep @ c2) =
    (if sc_risky (scan_shell_command c2) then \<lparr>sc_subcommands = [], sc_risky = True\<rparr>
     else \<lparr>sc_subcommands = sc_subcommands (scan_shell_command c1) @ sc_subcommands (scan_shell_command c2),
           sc_risky = False\<rparr>)"
proof -
  note q = scan_not_risky [OF assms(3)]
  show ?thesis
    unfolding scan_shell_command_def scan_compound [OF assms(1,2) conjunct1 [OF q] conjunct2 [OF q]]
    using assms(3) by (auto simp: scan_shell_command_def Let_def push_current_history with_history_def
        push_current_def split: if_splits)
qed

lemma scan_of_compound_witness:
  "scan_shell_command (''git log'' @ '';'' @ ''rm -rf x'') =
    (if sc_risky (scan_shell_command ''rm -rf x'') then \<lparr>sc_subcommands = [], sc_risky = True\<rparr>
     else \<lparr>sc_subcommands = sc_subcommands (scan_shell_command ''git log'') @ sc_subcommands (scan_shell_command ''rm -rf x''),
           sc_risky = False\<rparr>)"
  by (rule scan_of_compound) (simp add: quiet_end_def, simp add: separators_def, code_simp)

end
