(* ===== verification/Path_Guard.thy ===== *)
theory Path_Guard
  imports Bash_Command
begin

text \<open>
  The path guard of the file tools (\<open>agents-core/src/tool/policies/path-access.ts\<close>), the
  sensitive-file test (\<open>sensitive.ts\<close>) and the search for a git work tree
  (\<open>agents-core/src/tool/support/git-worktree.ts\<close>).

  The functions of the \<open>pathe\<close> package are an argument, the record \<open>path_lib\<close>; the environment's
  \<open>realpath\<close>, \<open>fileInfo\<close> and file contents are arguments too. \<open>basename\<close> of \<open>sensitive.ts\<close> is
  Node's, on a POSIX host. Walking up to an existing ancestor takes the number of steps it may
  make; \<^const>\<open>None\<close> is an exceeded call stack.
\<close>

datatype path_class = Posix | Win32

datatype path_security_code = PathOutsideWorkspace | PathSensitive | PathInvalid

datatype guard_mode = AbsoluteOutsideAllowed | GuardDisabled

record access_policy =
  ac_guard_mode :: guard_mode
  ac_check_sensitive :: bool

record path_access =
  px_path :: string
  px_outside :: bool

record path_security_error =
  pse_code :: path_security_code
  pse_raw :: string
  pse_canonical :: string

record workspace_config =
  ws_dir :: string
  ws_additional :: "string list"

record path_lib =
  lib_normalize :: "string \<Rightarrow> string"
  lib_is_absolute :: "string \<Rightarrow> bool"
  lib_resolve :: "string \<Rightarrow> string \<Rightarrow> string"
  lib_join :: "string \<Rightarrow> string \<Rightarrow> string"
  lib_dirname :: "string \<Rightarrow> string"
  lib_basename :: "string \<Rightarrow> string"
  lib_relative :: "string \<Rightarrow> string \<Rightarrow> string"

definition default_access_policy :: access_policy where
  "default_access_policy = \<lparr>ac_guard_mode = AbsoluteOutsideAllowed, ac_check_sensitive = True\<rparr>"

section \<open>User paths\<close>

definition is_win32_drive_relative :: "string \<Rightarrow> bool" where
  "is_win32_drive_relative path =
     (case path of
        d # c # rest \<Rightarrow>
          ascii_letter d \<and> c = CHR '':'' \<and> (case rest of [] \<Rightarrow> True | x # _ \<Rightarrow> x \<noteq> backslash \<and> x \<noteq> CHR ''/'')
      | _ \<Rightarrow> False)"

definition upper_letter :: "char \<Rightarrow> char" where
  "upper_letter c = (let n = of_char c :: nat in if 97 \<le> n \<and> n \<le> 122 then char_of (n - 32) else c)"

text \<open>A drive letter followed by a slash or by nothing: the letter and what follows it.\<close>

definition drive_prefix :: "string \<Rightarrow> (char \<times> string) option" where
  "drive_prefix s =
     (case s of
        d # rest \<Rightarrow>
          if ascii_letter d \<and> (rest = [] \<or> hd rest = CHR ''/'') then Some (d, rest) else None
      | [] \<Rightarrow> None)"

definition with_drive :: "char \<times> string \<Rightarrow> string" where
  "with_drive dr = upper_letter (fst dr) # '':'' @ (if snd dr = [] then ''/'' else snd dr)"

definition normalize_user_path :: "string \<Rightarrow> path_class \<Rightarrow> string" where
  "normalize_user_path path cls =
     (if cls \<noteq> Win32 then path
      else if path = ''/'' then ''/''
      else if prefix ''//'' path then path
      else
        case (if prefix ''/cygdrive/'' path then drive_prefix (drop 10 path) else None) of
          Some dr \<Rightarrow> with_drive dr
        | None \<Rightarrow>
            (case (if prefix ''/'' path then drive_prefix (drop 1 path) else None) of
               Some dr \<Rightarrow> with_drive dr
             | None \<Rightarrow> path))"

definition expand_user_path :: "path_lib \<Rightarrow> string \<Rightarrow> string option \<Rightarrow> path_class \<Rightarrow> string" where
  "expand_user_path lib path home cls =
     (case home of
        None \<Rightarrow> path
      | Some h \<Rightarrow>
          if path = ''~'' then h
          else if prefix ''~/'' path \<or> (cls = Win32 \<and> prefix (''~'' @ [backslash]) path) then lib_join lib h (drop 2 path)
          else path)"

definition canonicalize_path :: "path_lib \<Rightarrow> string \<Rightarrow> string \<Rightarrow> path_class \<Rightarrow> path_security_error + string" where
  "canonicalize_path lib path cwd cls =
     (let np = normalize_user_path path cls in
      if path = [] then Inl \<lparr>pse_code = PathInvalid, pse_raw = path, pse_canonical = path\<rparr>
      else if cls = Win32 \<and> is_win32_drive_relative np
        then Inl \<lparr>pse_code = PathInvalid, pse_raw = path, pse_canonical = np\<rparr>
      else if \<not> lib_is_absolute lib np \<and> \<not> lib_is_absolute lib cwd
        then Inl \<lparr>pse_code = PathInvalid, pse_raw = path, pse_canonical = np\<rparr>
      else Inr (lib_normalize lib (if lib_is_absolute lib np then np else lib_resolve lib cwd np)))"

section \<open>The workspace\<close>

definition is_within_directory :: "path_lib \<Rightarrow> string \<Rightarrow> string \<Rightarrow> path_class \<Rightarrow> bool" where
  "is_within_directory lib candidate base cls =
     (let nc = lib_normalize lib candidate; nb = lib_normalize lib base;
          cc = (if cls = Win32 then js_lower nc else nc);
          cb = (if cls = Win32 then js_lower nb else nb);
          pre = (if suffix ''/'' cb then cb else cb @ ''/'')
      in cc = cb \<or> prefix pre cc)"

definition is_within_workspace :: "path_lib \<Rightarrow> string \<Rightarrow> workspace_config \<Rightarrow> path_class \<Rightarrow> bool" where
  "is_within_workspace lib candidate config cls \<longleftrightarrow>
     is_within_directory lib candidate (ws_dir config) cls
     \<or> list_ex (\<lambda>dir. is_within_directory lib candidate dir cls) (ws_additional config)"

text \<open>\<open>split(/[\\/]+/)\<close> without the empty pieces: the maximal runs of other characters.\<close>

fun path_pieces :: "string \<Rightarrow> string \<Rightarrow> string list" where
  "path_pieces acc [] = (if acc = [] then [] else [acc])"
| "path_pieces acc (c # cs) =
     (if c = backslash \<or> c = CHR ''/'' then (if acc = [] then [] else [acc]) @ path_pieces [] cs
      else path_pieces (acc @ [c]) cs)"

definition relative_path_parts :: "path_lib \<Rightarrow> string \<Rightarrow> string \<Rightarrow> string list" where
  "relative_path_parts lib target cwd = path_pieces [] (lib_relative lib cwd target)"

section \<open>Sensitive files\<close>

definition sensitive_basenames :: "string list" where
  "sensitive_basenames = [''.env'', ''id_rsa'', ''id_ed25519'', ''id_ecdsa'', ''credentials'']"

definition sensitive_path_suffixes :: "string list list" where
  "sensitive_path_suffixes = [[''.aws'', ''credentials''], [''.gcp'', ''credentials'']]"

definition env_prefix :: string where
  "env_prefix = ''.env.''"

definition env_exemptions :: "string list" where
  "env_exemptions = [''.env.example'', ''.env.sample'', ''.env.template'']"

definition sensitive_basename_prefixes :: "string list" where
  "sensitive_basename_prefixes = [''id_rsa'', ''id_ed25519'', ''id_ecdsa'', ''credentials'']"

definition public_key_basenames :: "string list" where
  "public_key_basenames = [''id_rsa.pub'', ''id_ed25519.pub'', ''id_ecdsa.pub'']"

definition sensitive_dot_variant_suffixes :: "string list" where
  "sensitive_dot_variant_suffixes =
     [''.bak'', ''.backup'', ''.copy'', ''.disabled'', ''.key'', ''.old'', ''.orig'', ''.pem'', ''.save'', ''.tmp'']"

text \<open>Node's \<open>basename\<close>: trailing slashes do not count.\<close>

definition node_basename :: "string \<Rightarrow> string" where
  "node_basename path =
     rev (takeWhile (\<lambda>c. c \<noteq> CHR ''/'') (dropWhile (\<lambda>c. c = CHR ''/'') (rev path)))"

definition prefix_variant :: "string \<Rightarrow> string \<Rightarrow> bool" where
  "prefix_variant name p \<longleftrightarrow>
     name = p
     \<or> (prefix p name \<and> length p < length name
        \<and> (let sfx = drop (length p) name in
           hd sfx = CHR ''-'' \<or> hd sfx = CHR ''_''
           \<or> (hd sfx = CHR ''.'' \<and> sfx \<in> set sensitive_dot_variant_suffixes)))"

definition path_suffix_hit :: "string \<Rightarrow> string list \<Rightarrow> bool" where
  "path_suffix_hit path parts \<longleftrightarrow>
     (let sfx = js_lower (concat (case parts of [] \<Rightarrow> [] | p # ps \<Rightarrow> p # map (\<lambda>x. CHR ''/'' # x) ps)) in
      suffix (CHR ''/'' # sfx) path \<or> sublist (CHR ''/'' # sfx @ ''/'') path)"

definition is_sensitive_file :: "string \<Rightarrow> bool" where
  "is_sensitive_file path =
     (let name = js_lower (node_basename path); cpath = js_lower path in
      if name \<in> set env_exemptions then False
      else if name \<in> set public_key_basenames then False
      else if name \<in> set sensitive_basenames then True
      else if prefix env_prefix name then True
      else list_ex (prefix_variant name) sensitive_basename_prefixes
           \<or> list_ex (path_suffix_hit cpath) sensitive_path_suffixes)"

section \<open>Resolving a path\<close>

definition resolve_path_access ::
    "path_lib \<Rightarrow> string \<Rightarrow> string \<Rightarrow> workspace_config \<Rightarrow> access_policy option \<Rightarrow> path_class \<Rightarrow> string option
     \<Rightarrow> path_security_error + path_access" where
  "resolve_path_access lib path cwd config policy cls home =
     (let np = normalize_user_path path cls;
          expanded = expand_user_path lib np home cls;
          raw_absolute = lib_is_absolute lib expanded
      in case canonicalize_path lib expanded cwd cls of
           Inl e \<Rightarrow> Inl e
         | Inr canonical \<Rightarrow>
             let outside = (\<not> is_within_workspace lib canonical config cls);
                 pol = (case policy of Some p \<Rightarrow> p | None \<Rightarrow> default_access_policy)
             in if ac_check_sensitive pol \<and> is_sensitive_file canonical
                then Inl \<lparr>pse_code = PathSensitive, pse_raw = path, pse_canonical = canonical\<rparr>
                else if outside \<and> ac_guard_mode pol = AbsoluteOutsideAllowed \<and> \<not> raw_absolute
                then Inl \<lparr>pse_code = PathOutsideWorkspace, pse_raw = path, pse_canonical = canonical\<rparr>
                else Inr \<lparr>px_path = canonical, px_outside = outside\<rparr>)"

text \<open>What \<open>realpath\<close> of the environment does: a path, a missing file, or another failure.\<close>

datatype 'e realpath_result = RealPath string | NotFound | OtherFailure 'e

datatype 'e path_resolve_error = SecurityError path_security_error | EnvironmentError 'e

fun resolve_real_path :: "nat \<Rightarrow> path_lib \<Rightarrow> (string \<Rightarrow> 'e realpath_result) \<Rightarrow> string
    \<Rightarrow> ('e path_resolve_error + string) option" where
  "resolve_real_path steps lib realpath path =
     (case realpath path of
        RealPath p \<Rightarrow> Some (Inr p)
      | OtherFailure e \<Rightarrow> Some (Inl (EnvironmentError e))
      | NotFound \<Rightarrow>
          let parent = lib_dirname lib path in
          if parent = path then Some (Inr path)
          else (case steps of
                  0 \<Rightarrow> None
                | Suc n \<Rightarrow>
                    (case resolve_real_path n lib realpath parent of
                       Some (Inr real) \<Rightarrow> Some (Inr (lib_join lib real (lib_basename lib path)))
                     | r \<Rightarrow> r)))"

declare resolve_real_path.simps [simp del]

fun resolve_all :: "nat \<Rightarrow> path_lib \<Rightarrow> (string \<Rightarrow> 'e realpath_result) \<Rightarrow> string list
    \<Rightarrow> ('e path_resolve_error + string list) option" where
  "resolve_all steps lib realpath [] = Some (Inr [])"
| "resolve_all steps lib realpath (d # ds) =
     (case resolve_real_path steps lib realpath d of
        Some (Inr r) \<Rightarrow>
          (case resolve_all steps lib realpath ds of
             Some (Inr rs) \<Rightarrow> Some (Inr (r # rs))
           | Some (Inl e) \<Rightarrow> Some (Inl e)
           | None \<Rightarrow> None)
      | Some (Inl e) \<Rightarrow> Some (Inl e)
      | None \<Rightarrow> None)"

text \<open>The workspace behind its symbolic links.\<close>

definition real_workspace :: "nat \<Rightarrow> path_lib \<Rightarrow> (string \<Rightarrow> 'e realpath_result) \<Rightarrow> workspace_config
    \<Rightarrow> ('e path_resolve_error + workspace_config) option" where
  "real_workspace steps lib realpath ws =
     (case resolve_real_path steps lib realpath (ws_dir ws) of
        Some (Inr dir) \<Rightarrow>
          (case resolve_all steps lib realpath (ws_additional ws) of
             Some (Inr dirs) \<Rightarrow> Some (Inr \<lparr>ws_dir = dir, ws_additional = dirs\<rparr>)
           | Some (Inl e) \<Rightarrow> Some (Inl e)
           | None \<Rightarrow> None)
      | Some (Inl e) \<Rightarrow> Some (Inl e)
      | None \<Rightarrow> None)"

definition resolve_path_access_path ::
    "nat \<Rightarrow> path_lib \<Rightarrow> (string \<Rightarrow> 'e realpath_result) \<Rightarrow> string \<Rightarrow> workspace_config \<Rightarrow> access_policy option
     \<Rightarrow> path_class \<Rightarrow> string option \<Rightarrow> ('e path_resolve_error + string) option" where
  "resolve_path_access_path steps lib realpath path ws policy cls home =
     (let pol = (case policy of Some p \<Rightarrow> p | None \<Rightarrow> default_access_policy) in
      case resolve_path_access lib path (ws_dir ws) ws policy cls home of
        Inl e \<Rightarrow> Some (Inl (SecurityError e))
      | Inr acc \<Rightarrow>
          (case resolve_real_path steps lib realpath (px_path acc) of
             None \<Rightarrow> None
           | Some (Inl e) \<Rightarrow> Some (Inl e)
           | Some (Inr real) \<Rightarrow>
               if real = px_path acc then Some (Inr (px_path acc))
               else if ac_check_sensitive pol \<and> is_sensitive_file real
                 then Some (Inl (SecurityError \<lparr>pse_code = PathSensitive, pse_raw = path, pse_canonical = real\<rparr>))
               else
                 (case real_workspace steps lib realpath ws of
                    None \<Rightarrow> None
                  | Some (Inl e) \<Rightarrow> Some (Inl e)
                  | Some (Inr rws) \<Rightarrow>
                      if ac_guard_mode pol \<noteq> GuardDisabled \<and> \<not> px_outside acc
                         \<and> \<not> is_within_workspace lib real rws cls
                      then Some (Inl (SecurityError \<lparr>pse_code = PathOutsideWorkspace, pse_raw = path, pse_canonical = real\<rparr>))
                      else Some (Inr (px_path acc)))))"

section \<open>Git work trees\<close>

record git_work_tree_marker =
  gm_dot_git :: string
  gm_control_dir :: string

datatype file_kind = KindFile | KindDir | KindOther

text \<open>The environment: what \<open>fileInfo\<close> and reading a text file return, unless they throw.\<close>

record git_environment =
  ge_kind :: "string \<Rightarrow> file_kind option"
  ge_text :: "string \<Rightarrow> string option"

definition max_walk_depth :: nat where
  "max_walk_depth = 256"

text \<open>\<open>split(/\r?\n/, 1)[0]\<close>.\<close>

definition first_line :: "string \<Rightarrow> string" where
  "first_line s =
     (let l = takeWhile (\<lambda>c. c \<noteq> newline) s
      in if l \<noteq> [] \<and> last l = CHR 0x0D \<and> length l < length s then butlast l else l)"

definition parse_git_dir :: "path_lib \<Rightarrow> string \<Rightarrow> string \<Rightarrow> string option" where
  "parse_git_dir lib content parent =
     (let line = js_trim (first_line (dropWhile js_space content)) in
      if \<not> prefix ''gitdir:'' line then None
      else let raw = js_trim (drop 7 line) in
        if raw = [] then None
        else Some (lib_normalize lib (if lib_is_absolute lib raw then raw else lib_join lib parent raw)))"

definition probe_git_marker :: "path_lib \<Rightarrow> git_environment \<Rightarrow> string \<Rightarrow> string \<Rightarrow> git_work_tree_marker option" where
  "probe_git_marker lib env dot_git parent =
     (case ge_kind env dot_git of
        None \<Rightarrow> None
      | Some KindDir \<Rightarrow> Some \<lparr>gm_dot_git = dot_git, gm_control_dir = dot_git\<rparr>
      | Some KindOther \<Rightarrow> None
      | Some KindFile \<Rightarrow>
          (case ge_text env dot_git of
             None \<Rightarrow> None
           | Some content \<Rightarrow>
               map_option (\<lambda>d. \<lparr>gm_dot_git = dot_git, gm_control_dir = d\<rparr>) (parse_git_dir lib content parent)))"

fun walk_git_markers :: "nat \<Rightarrow> path_lib \<Rightarrow> git_environment \<Rightarrow> string \<Rightarrow> git_work_tree_marker option" where
  "walk_git_markers 0 lib env current = None"
| "walk_git_markers (Suc depth) lib env current =
     (case probe_git_marker lib env (lib_join lib current ''.git'') current of
        Some hit \<Rightarrow> Some hit
      | None \<Rightarrow>
          let parent = lib_dirname lib current in
          if parent = current then None else walk_git_markers depth lib env parent)"

definition find_git_work_tree_marker :: "path_lib \<Rightarrow> git_environment \<Rightarrow> string \<Rightarrow> git_work_tree_marker option" where
  "find_git_work_tree_marker lib env cwd =
     (if cwd = [] \<or> \<not> lib_is_absolute lib cwd then None
      else walk_git_markers max_walk_depth lib env (lib_normalize lib cwd))"

definition is_git_control_path :: "path_lib \<Rightarrow> string \<Rightarrow> git_work_tree_marker \<Rightarrow> path_class \<Rightarrow> bool" where
  "is_git_control_path lib target marker cls \<longleftrightarrow>
     is_within_directory lib target (gm_dot_git marker) cls
     \<or> is_within_directory lib target (gm_control_dir marker) cls"

section \<open>What the guard lets through\<close>

lemma resolve_path_accessD:
  "resolve_path_access lib path cwd ws policy cls home = Inr acc \<Longrightarrow>
     pol = (case policy of Some p \<Rightarrow> p | None \<Rightarrow> default_access_policy) \<Longrightarrow>
     (ac_check_sensitive pol \<longrightarrow> \<not> is_sensitive_file (px_path acc))
     \<and> px_outside acc = (\<not> is_within_workspace lib (px_path acc) ws cls)
     \<and> (ac_guard_mode pol = AbsoluteOutsideAllowed \<longrightarrow> px_outside acc \<longrightarrow>
          lib_is_absolute lib (expand_user_path lib (normalize_user_path path cls) home cls))"
  by (auto simp: resolve_path_access_def Let_def split: sum.splits if_splits)

text \<open>The policy of the search tools (\<open>tool-path.ts\<close>): names of sensitive files may be listed.\<close>

definition search_access_policy :: access_policy where
  "search_access_policy = \<lparr>ac_guard_mode = AbsoluteOutsideAllowed, ac_check_sensitive = False\<rparr>"

definition policy_in_force :: "access_policy option \<Rightarrow> access_policy" where
  "policy_in_force policy = (case policy of Some p \<Rightarrow> p | None \<Rightarrow> default_access_policy)"

text \<open>
  C27. What the guard says of a path it lets through, under any access policy. If the policy checks
  for sensitive files (the default does, the one of the search tools does not), the path is not a
  sensitive file and does not lead to one through a symbolic link. Unless the policy disables the
  guard (none of the repository does), a path in the workspace leads to a file in the workspace, and
  the path lies outside the workspace only if the user gave an absolute path.
\<close>

theorem guarded_path_is_safe:
  assumes "resolve_path_access_path steps lib realpath path ws policy cls home = Some (Inr p)"
  shows "\<exists>real. resolve_real_path steps lib realpath p = Some (Inr real)
    \<and> (ac_check_sensitive (policy_in_force policy) \<longrightarrow> \<not> is_sensitive_file p \<and> \<not> is_sensitive_file real)
    \<and> (ac_guard_mode (policy_in_force policy) \<noteq> GuardDisabled \<longrightarrow>
        (is_within_workspace lib p ws cls \<longrightarrow> real = p
          \<or> (\<exists>rws. real_workspace steps lib realpath ws = Some (Inr rws) \<and> is_within_workspace lib real rws cls))
        \<and> (\<not> is_within_workspace lib p ws cls \<longrightarrow>
            lib_is_absolute lib (expand_user_path lib (normalize_user_path path cls) home cls)))"
proof -
  obtain acc where acc: "resolve_path_access lib path (ws_dir ws) ws policy cls home = Inr acc"
    using assms by (auto simp: resolve_path_access_path_def Let_def split: sum.splits)
  note D = resolve_path_accessD [OF acc refl, folded policy_in_force_def]
  obtain real where real: "resolve_real_path steps lib realpath (px_path acc) = Some (Inr real)"
    using assms acc by (auto simp: resolve_path_access_path_def Let_def split: option.splits sum.splits)
  have p: "p = px_path acc"
    and safe: "real = px_path acc \<or> ((ac_check_sensitive (policy_in_force policy) \<longrightarrow> \<not> is_sensitive_file real)
      \<and> (\<exists>rws. real_workspace steps lib realpath ws = Some (Inr rws)
        \<and> (ac_guard_mode (policy_in_force policy) = GuardDisabled \<or> px_outside acc \<or> is_within_workspace lib real rws cls)))"
    using assms acc real
    by (auto simp: resolve_path_access_path_def Let_def policy_in_force_def [symmetric]
        split: option.splits sum.splits if_splits)
  have mode: "ac_guard_mode (policy_in_force policy) \<noteq> GuardDisabled \<longleftrightarrow> ac_guard_mode (policy_in_force policy) = AbsoluteOutsideAllowed"
    by (cases "ac_guard_mode (policy_in_force policy)") simp_all
  show ?thesis unfolding p using D real safe mode by (intro exI [of _ real]) auto
qed

text \<open>Case does not hide a file.\<close>

lemma js_lower_slash: "js_lower_char c = CHR ''/'' \<longleftrightarrow> c = CHR ''/''"
proof -
  have "(of_char c :: nat) < 256" by simp
  then show ?thesis
    by (auto simp: js_lower_char_def Let_def dest: arg_cong [where f = "of_char :: char \<Rightarrow> nat"])
qed

lemma node_basename_lower: "js_lower (node_basename p) = node_basename (js_lower p)"
proof -
  have t: "takeWhile (\<lambda>c. c \<noteq> CHR ''/'') (map js_lower_char s) = map js_lower_char (takeWhile (\<lambda>c. c \<noteq> CHR ''/'') s)" for s
    by (simp add: takeWhile_map comp_def js_lower_slash)
  have d: "dropWhile (\<lambda>c. c = CHR ''/'') (map js_lower_char s) = map js_lower_char (dropWhile (\<lambda>c. c = CHR ''/'') s)" for s
    by (simp add: dropWhile_map comp_def js_lower_slash)
  show ?thesis
    by (simp add: node_basename_def js_lower_def t d rev_map)
qed

text \<open>
  The sensitive-file test does not depend on case: no spelling of a secret's name in other
  letters gets past it.
\<close>

theorem sensitive_ignores_case:
  assumes "js_lower p = js_lower q"
  shows "is_sensitive_file p = is_sensitive_file q"
proof -
  have "js_lower (node_basename p) = js_lower (node_basename q)"
    using assms by (simp add: node_basename_lower)
  with assms show ?thesis by (simp add: is_sensitive_file_def)
qed

lemma sensitive_ignores_case_witness: "is_sensitive_file ''/w/.ENV.Local'' = is_sensitive_file ''/w/.env.local''"
  by (rule sensitive_ignores_case) code_simp

text \<open>A library for POSIX paths that are already normal, to exhibit the guard.\<close>

definition demo_lib :: path_lib where
  "demo_lib = \<lparr>lib_normalize = id, lib_is_absolute = prefix ''/'', lib_resolve = (\<lambda>cwd p. cwd @ ''/'' @ p),
     lib_join = (\<lambda>a b. a @ ''/'' @ b), lib_dirname = (\<lambda>_. ''/''), lib_basename = node_basename,
     lib_relative = (\<lambda>cwd p. drop (length cwd + 1) p)\<rparr>"

text \<open>A link within the workspace, and a secret that a search may name.\<close>

lemma guarded_path_is_safe_witness:
  "\<not> is_sensitive_file ''/w/a.txt'' \<and> \<not> is_sensitive_file ''/w/b.txt''
    \<and> (\<exists>real. resolve_real_path 0 demo_lib (\<lambda>p. RealPath p :: unit realpath_result) ''/w/.env'' = Some (Inr real))"
proof -
  let ?link = "\<lambda>p. RealPath (if p = ''/w/a.txt'' then ''/w/b.txt'' else p) :: unit realpath_result"
  have "resolve_path_access_path 0 demo_lib ?link ''a.txt'' \<lparr>ws_dir = ''/w'', ws_additional = []\<rparr> None Posix None = Some (Inr ''/w/a.txt'')"
    "resolve_real_path 0 demo_lib ?link ''/w/a.txt'' = Some (Inr ''/w/b.txt'')"
    "ac_check_sensitive (policy_in_force None)"
    by code_simp+
  from this(2,3) guarded_path_is_safe [OF this(1)]
  have "\<not> is_sensitive_file ''/w/a.txt'' \<and> \<not> is_sensitive_file ''/w/b.txt''" by auto
  moreover have "resolve_path_access_path 0 demo_lib (\<lambda>p. RealPath p :: unit realpath_result) ''.env''
      \<lparr>ws_dir = ''/w'', ws_additional = []\<rparr> (Some search_access_policy) Posix None = Some (Inr ''/w/.env'')"
    by code_simp
  from guarded_path_is_safe [OF this] have "\<exists>real. resolve_real_path 0 demo_lib (\<lambda>p. RealPath p :: unit realpath_result) ''/w/.env'' = Some (Inr real)"
    by blast
  ultimately show ?thesis by blast
qed

end
