(* ===== verification/Bash_Read_Only.thy ===== *)
theory Bash_Read_Only
  imports Bash_Command
begin

text \<open>
  The table of shell commands the permission chain approves without asking
  (\<open>agents-core/src/tool/support/bash-read-only.ts\<close>): \<open>isReadOnlyBashCommand\<close> with its
  word lists and flag lists.
\<close>

definition always_read_only :: "string list" where
  "always_read_only =
     [''ls'', ''pwd'', ''cat'', ''head'', ''tail'', ''wc'', ''file'', ''stat'', ''du'', ''df'',
      ''tree'', ''basename'', ''dirname'', ''realpath'', ''readlink'', ''which'', ''type'',
      ''whoami'', ''id'', ''hostname'', ''uname'', ''date'', ''echo'', ''printf'', ''env'',
      ''printenv'', ''uptime'', ''ps'', ''grep'', ''egrep'', ''fgrep'', ''rg'', ''find'', ''diff'',
      ''cmp'', ''sort'', ''uniq'', ''cut'', ''tr'', ''nl'', ''od'', ''xxd'', ''strings'',
      ''base64'', ''md5sum'', ''sha1sum'', ''sha256sum'', ''shasum'', ''jq'', ''yq'', ''column'',
      ''less'', ''more'', ''man'', ''true'', ''false'', ''sleep'', ''seq'', ''expr'', ''test'']"

definition interpreters :: "string list" where
  "interpreters =
     [''node'', ''python'', ''python3'', ''ruby'', ''perl'', ''php'', ''deno'', ''bun'', ''java'']"

definition version_flags :: "string list" where
  "version_flags =
     [''--version'', ''-v'', ''-V'']"

definition write_subcommand_words :: "string list" where
  "write_subcommand_words =
     [''create'', ''delete'', ''edit'', ''close'', ''merge'', ''reopen'', ''comment'', ''review'',
      ''rename'', ''add'', ''set'', ''unset'', ''remove'', ''rm'', ''install'', ''uninstall'',
      ''publish'', ''push'', ''apply'', ''clone'', ''fork'', ''sync'', ''update'', ''upgrade'',
      ''prune'', ''gc'', ''checkout'', ''restore'', ''reset'']"

definition never_read_only :: "string list" where
  "never_read_only =
     [''cd'', ''export'', ''unset'', ''alias'', ''eval'', ''source'', ''.'', ''exec'', ''sudo'',
      ''xargs'', ''sh'', ''bash'', ''zsh'']"

definition universal_write_flags :: "string list" where
  "universal_write_flags =
     [''--output'', ''--output-file'', ''--out-file'', ''--write-out'']"

definition subcommand_read_only :: "(string \<times> string list) list" where
  "subcommand_read_only =
     [(''git'',
       [''status'', ''log'', ''diff'', ''show'', ''branch'', ''tag'', ''remote'', ''config'',
        ''blame'', ''describe'', ''rev-parse'', ''ls-files'', ''ls-remote'', ''ls-tree'',
        ''shortlog'', ''reflog'', ''cat-file'', ''symbolic-ref'', ''whatchanged'', ''grep'',
        ''count-objects'', ''check-ignore'', ''var'', ''help'']),
      (''gh'',
       [''pr'', ''issue'', ''repo'', ''run'', ''release'', ''api'', ''auth'', ''browse'', ''search'',
        ''status'']),
      (''docker'',
       [''ps'', ''images'', ''logs'', ''inspect'', ''version'', ''info'', ''port'', ''top'',
        ''stats'', ''diff'', ''history'']),
      (''kubectl'',
       [''get'', ''describe'', ''logs'', ''explain'', ''version'', ''api-resources'', ''top'',
        ''config'']),
      (''npm'',
       [''ls'', ''list'', ''view'', ''info'', ''outdated'', ''why'', ''ping'', ''whoami'', ''root'',
        ''prefix'', ''bin'']),
      (''pnpm'',
       [''ls'', ''list'', ''why'', ''outdated'', ''root'', ''bin'', ''licenses'']),
      (''yarn'',
       [''list'', ''info'', ''why'', ''versions'']),
      (''cargo'',
       [''tree'', ''metadata'', ''search'', ''version'']),
      (''go'',
       [''version'', ''env'', ''list'', ''doc'', ''vet''])]"

definition write_capable_flags :: "(string \<times> string list) list" where
  "write_capable_flags =
     [(''find'',
       [''-delete'', ''-exec'', ''-execdir'', ''-ok'', ''-okdir'', ''-fprint'', ''-fprint0'',
        ''-fprintf'', ''-fls'']),
      (''sort'',
       [''-o'', ''--output'']),
      (''yq'',
       [''-i'', ''--inplace'', ''--in-place'']),
      (''jq'',
       [''-i'', ''--in-place'']),
      (''git'',
       [''--output'', ''-o'']),
      (''docker'',
       [''--output'', ''-o'']),
      (''kubectl'',
       [''--output-file'']),
      (''gh'',
       [''--output''])]"

text \<open>\<open>--output=FILE\<close> and \<open>--output FILE\<close> are the same flag.\<close>

definition flag_of :: "string \<Rightarrow> string" where
  "flag_of arg = takeWhile (\<lambda>c. c \<noteq> CHR ''='') arg"

definition dashed :: "string \<Rightarrow> bool" where
  "dashed w \<longleftrightarrow> next_is (CHR ''-'') w"

definition has_write_capable_flag :: "string \<Rightarrow> string list \<Rightarrow> bool" where
  "has_write_capable_flag name args \<longleftrightarrow>
     list_ex (\<lambda>arg. dashed arg \<and>
       (flag_of arg \<in> set universal_write_flags
        \<or> (case map_of write_capable_flags name of
             Some flags \<Rightarrow> flag_of arg \<in> set flags | None \<Rightarrow> False))) args"

definition subcommand_is_read_only :: "string \<Rightarrow> string list \<Rightarrow> string list \<Rightarrow> bool" where
  "subcommand_is_read_only name args allowed =
     (let ws = filter (\<lambda>w. \<not> dashed w) args in
      case ws of
        [] \<Rightarrow> True
      | sub # _ \<Rightarrow>
          sub \<in> set allowed
          \<and> \<not> (name = ''git'' \<and> sub = ''config'' \<and> 2 < length ws)
          \<and> \<not> list_ex (\<lambda>w. w \<in> set write_subcommand_words) ws)"

text \<open>\<open>/(^|[^<>\d&])>|>>/\<close>; the argument before the text is the character that precedes it.\<close>

fun has_redirection :: "char option \<Rightarrow> string \<Rightarrow> bool" where
  "has_redirection prev [] = False"
| "has_redirection prev (c # cs) =
     ((c = CHR ''>'' \<and>
        (next_is (CHR ''>'') cs
         \<or> (case prev of None \<Rightarrow> True
            | Some p \<Rightarrow> \<not> (p \<in> set [CHR ''<'', CHR ''>'', CHR ''&''] \<or> ascii_digit p))))
      \<or> has_redirection (Some c) cs)"

text \<open>\<open>verb.replace(/^.*\//, "")\<close>: what stands after the last slash.\<close>

definition base_name :: "string \<Rightarrow> string" where
  "base_name verb = rev (takeWhile (\<lambda>c. c \<noteq> CHR ''/'') (rev verb))"

definition command_words :: "string \<Rightarrow> string list" where
  "command_words sub = dropWhile (\<lambda>w. env_assignment w \<noteq> None) (filter (\<lambda>w. w \<noteq> []) (split_space sub))"

definition read_only_subcommand :: "string \<Rightarrow> bool" where
  "read_only_subcommand sub =
     (case command_words sub of
        [] \<Rightarrow> False
      | verb # args \<Rightarrow>
          let name = base_name verb in
          if name \<in> set never_read_only then False
          else if has_write_capable_flag name args then False
          else if name \<in> set interpreters
            then args \<noteq> [] \<and> list_all (\<lambda>w. w \<in> set version_flags) args
          else (case map_of subcommand_read_only name of
                  Some allowed \<Rightarrow> subcommand_is_read_only name args allowed
                | None \<Rightarrow> name \<in> set always_read_only))"

definition is_read_only_bash_command :: "string \<Rightarrow> bool" where
  "is_read_only_bash_command command =
     (let scan = scan_shell_command command in
      if sc_risky scan \<or> sc_subcommands scan = [] then False
      else if has_redirection None command then False
      else list_all read_only_subcommand (sc_subcommands scan))"

section \<open>What an approved command cannot contain\<close>

text \<open>
  A command is approved only if every part of it is: each part names, after its variable
  assignments, a program of the tables that is not among the shell-changing or
  program-running ones, carries no flag that writes, and an interpreter is only asked for its
  version; and there is no substitution and no redirection anywhere.
\<close>

theorem read_only_parts:
  assumes "is_read_only_bash_command command"
  shows "\<not> sc_risky (scan_shell_command command) \<and> \<not> has_redirection None command
    \<and> (\<forall>sub\<in>set (sc_subcommands (scan_shell_command command)).
        \<exists>verb args. command_words sub = verb # args
          \<and> base_name verb \<in> set (always_read_only @ interpreters @ map fst subcommand_read_only)
          \<and> base_name verb \<notin> set never_read_only \<and> \<not> has_write_capable_flag (base_name verb) args
          \<and> (base_name verb \<in> set interpreters \<longrightarrow> args \<noteq> [] \<and> set args \<subseteq> set version_flags))"
proof -
  have "\<exists>verb args. command_words sub = verb # args
      \<and> base_name verb \<in> set (always_read_only @ interpreters @ map fst subcommand_read_only)
      \<and> base_name verb \<notin> set never_read_only \<and> \<not> has_write_capable_flag (base_name verb) args
      \<and> (base_name verb \<in> set interpreters \<longrightarrow> args \<noteq> [] \<and> set args \<subseteq> set version_flags)"
    if r: "read_only_subcommand sub" for sub
  proof (cases "command_words sub")
    case (Cons verb args)
    have "map_of subcommand_read_only (base_name verb) \<noteq> None \<Longrightarrow>
        base_name verb \<in> set (map fst subcommand_read_only)"
      by (simp only: map_of_eq_None_iff set_map not_not)
    with r Cons show ?thesis
      by (auto simp: read_only_subcommand_def Let_def list_all_iff split: if_splits option.splits)
  qed (use r in \<open>simp add: read_only_subcommand_def\<close>)
  then show ?thesis
    using assms by (auto simp: is_read_only_bash_command_def Let_def list_all_iff split: if_splits)
qed

lemma read_only_parts_witness: "\<not> has_redirection None ''git status && ls -la''"
  using read_only_parts [of "''git status && ls -la''"] by (rule conjunct1 [OF conjunct2]) code_simp

text \<open>
  The table approves a command that runs another program: \<open>env\<close> is on the list of commands
  that only read, whatever their arguments, so a program run through it is approved unseen.
\<close>

theorem env_runs_anything: "is_read_only_bash_command ''env rm -rf /home''"
  by code_simp

text \<open>A redirection with an explicit descriptor number is not seen either.\<close>

lemma numbered_redirection_approved: "is_read_only_bash_command ''echo x 1>/etc/hosts''"
  by code_simp

end
