(* ===== verification/Permission.thy ===== *)
theory Permission
  imports Path_Guard Bash_Read_Only Tool_Access Interruption
begin

text \<open>
  The permission layer: rule patterns (\<open>agents-core/src/permission/matches-rule.ts\<close>), the chain
  of policies (\<open>policies.ts\<close>, \<open>createPolicies\<close>) and the manager that turns the chain's answer
  into an authorization (\<open>manager.ts\<close>, \<open>PermissionManager\<close>).

  Arguments of the model: the glob matcher of the \<open>picomatch\<close> package, the path library, the
  policies a host puts in the named slots, the judge of \<open>auto\<close> mode (\<^const>\<open>None\<close> when it throws)
  and the responder.
\<close>

datatype permission_mode = ModeManual | ModeWorkspace | ModeYolo | ModeAuto

datatype rule_decision = RuleAllow | RuleDeny | RuleAsk

datatype rule_scope = TurnOverride | SessionRuntime | ProjectScope | UserScope

record permission_rule =
  ru_decision :: rule_decision
  ru_scope :: rule_scope
  ru_pattern :: string
  ru_reason :: "string option"

section \<open>Rule patterns\<close>

record parsed_pattern =
  pp_tool_name :: string
  pp_arg_pattern :: "string option"

datatype pattern_error = EmptyPattern | MissingParen string | EmptyToolName string

definition parse_pattern :: "string \<Rightarrow> pattern_error + parsed_pattern" where
  "parse_pattern pattern =
     (let trimmed = js_trim pattern in
      if trimmed = [] then Inl EmptyPattern
      else case index_of CHR ''('' trimmed of
          None \<Rightarrow> Inr \<lparr>pp_tool_name = trimmed, pp_arg_pattern = None\<rparr>
        | Some i \<Rightarrow>
            if last trimmed \<noteq> CHR '')'' then Inl (MissingParen pattern)
            else
              let tool = take i trimmed; arg = drop (i + 1) (butlast trimmed) in
              if tool = [] then Inl (EmptyToolName pattern)
              else Inr \<lparr>pp_tool_name = tool, pp_arg_pattern = (if arg = [] then None else Some arg)\<rparr>)"

definition permission_pattern_error :: "string \<Rightarrow> pattern_error option" where
  "permission_pattern_error pattern = (case parse_pattern pattern of Inl e \<Rightarrow> Some e | Inr _ \<Rightarrow> None)"

definition strip_leading_dot_slash :: "string \<Rightarrow> string" where
  "strip_leading_dot_slash v = (if prefix ''./'' v then drop 2 v else v)"

definition glob_match :: "(string \<Rightarrow> string \<Rightarrow> bool) \<Rightarrow> string \<Rightarrow> string \<Rightarrow> bool" where
  "glob_match is_match v pattern =
     (if is_match v pattern then True
      else let nv = strip_leading_dot_slash v; np = strip_leading_dot_slash pattern in
        if nv = v \<and> np = pattern then False else is_match nv np)"

datatype match_strategy = ToolNameOnly | MatchesRule

record rule_match =
  rm_rule :: permission_rule
  rm_strategy :: match_strategy
  rm_has_args :: bool

text \<open>What the policies read of a tool's plan.\<close>

record plan_view =
  pv_approval_rule :: string
  pv_accesses :: "tool_accesses option"
  pv_handoff :: bool
  pv_control_flow :: bool
  pv_matches_rule :: "(string \<Rightarrow> bool) option"

record policy_context =
  pc_call :: tool_call
  pc_args :: json
  pc_plan :: plan_view

definition match_permission_rule :: "(string \<Rightarrow> string \<Rightarrow> bool) \<Rightarrow> permission_rule \<Rightarrow> string \<Rightarrow> plan_view
    \<Rightarrow> rule_match option" where
  "match_permission_rule is_match rule tool_name plan =
     (case parse_pattern (ru_pattern rule) of
        Inl _ \<Rightarrow> None
      | Inr parsed \<Rightarrow>
          if pp_tool_name parsed \<noteq> ''*'' \<and> \<not> glob_match is_match tool_name (pp_tool_name parsed) then None
          else case pp_arg_pattern parsed of
              None \<Rightarrow> Some \<lparr>rm_rule = rule, rm_strategy = ToolNameOnly, rm_has_args = False\<rparr>
            | Some arg \<Rightarrow>
                (case pv_matches_rule plan of
                   None \<Rightarrow> None
                 | Some matches \<Rightarrow>
                     if matches arg then Some \<lparr>rm_rule = rule, rm_strategy = MatchesRule, rm_has_args = True\<rparr> else None))"

section \<open>Policies\<close>

datatype policy_result =
    PolicyApprove
  | PolicyDeny "string option"
  | PolicyAsk bool "(approval_response \<Rightarrow> policy_result option) option"

type_synonym policy = "policy_context \<Rightarrow> policy_result option"

record permission_state =
  pm_mode :: permission_mode
  pm_rules :: "permission_rule list"
  pm_session_patterns :: "string list"
  pm_cwd :: string
  pm_path_class :: path_class
  pm_environment :: "git_environment option"
  pm_overrides :: "(string, policy) jsmap"
  pm_is_match :: "string \<Rightarrow> string \<Rightarrow> bool"
  pm_lib :: path_lib

definition user_configured_scopes :: "rule_scope list" where
  "user_configured_scopes = [TurnOverride, ProjectScope, UserScope]"

definition default_approve_tools :: "string list" where
  "default_approve_tools =
     [''Read'', ''Grep'', ''Glob'', ''SetTodoList'', ''TodoList'', ''BackgroundList'', ''BackgroundOutput'',
      ''TaskCreate'', ''TaskUpdate'', ''TaskList'', ''TaskGet'',
      ''CronList'', ''WebSearch'', ''FetchURL'', ''Agent'', ''AskUserQuestion'', ''Skill'',
      ''GetGoal'', ''SetGoalBudget'', ''UpdateGoal'', ''Workflow'', ''StructuredOutput'']"

fun first_matching_rule :: "(string \<Rightarrow> string \<Rightarrow> bool) \<Rightarrow> policy_context \<Rightarrow> permission_rule list \<Rightarrow> rule_decision
    \<Rightarrow> rule_match option" where
  "first_matching_rule is_match ctx [] decision = None"
| "first_matching_rule is_match ctx (rule # rules) decision =
     (if ru_decision rule \<noteq> decision then first_matching_rule is_match ctx rules decision
      else case match_permission_rule is_match rule (tc_name (pc_call ctx)) (pc_plan ctx) of
          Some mt \<Rightarrow> Some mt
        | None \<Rightarrow> first_matching_rule is_match ctx rules decision)"

definition user_rules :: "permission_state \<Rightarrow> permission_rule list" where
  "user_rules st = filter (\<lambda>r. ru_scope r \<in> set user_configured_scopes) (pm_rules st)"

definition user_rule_match :: "permission_state \<Rightarrow> policy_context \<Rightarrow> rule_decision \<Rightarrow> rule_match option" where
  "user_rule_match st ctx decision = first_matching_rule (pm_is_match st) ctx (user_rules st) decision"

fun file_access_of :: "tool_resource_access \<Rightarrow> tool_file_access option" where
  "file_access_of (FileAccess a) = Some a"
| "file_access_of AllAccess = None"

definition file_accesses :: "policy_context \<Rightarrow> tool_file_access list" where
  "file_accesses ctx =
     List.map_filter file_access_of (case pv_accesses (pc_plan ctx) of Some a \<Rightarrow> a | None \<Rightarrow> [])"

definition write_file_accesses :: "policy_context \<Rightarrow> tool_file_access list" where
  "write_file_accesses ctx =
     filter (\<lambda>a. fa_operation a = OpWrite \<or> fa_operation a = OpReadWrite) (file_accesses ctx)"

text \<open>\<open>gitMarker\<close>.\<close>

definition git_marker :: "permission_state \<Rightarrow> git_work_tree_marker option" where
  "git_marker st =
     (case pm_environment st of
        None \<Rightarrow> None
      | Some env \<Rightarrow>
          if pm_cwd st = [] then None else find_git_work_tree_marker (pm_lib st) env (pm_cwd st))"

definition policy_slot :: "permission_state \<Rightarrow> string \<Rightarrow> policy" where
  "policy_slot st name = (case map_of (pm_overrides st) name of Some p \<Rightarrow> p | None \<Rightarrow> (\<lambda>_. None))"

definition approve_if :: "bool \<Rightarrow> policy_result option" where
  "approve_if b = (if b then Some PolicyApprove else None)"

definition ask_if :: "bool \<Rightarrow> policy_result option" where
  "ask_if b = (if b then Some (PolicyAsk True None) else None)"

definition yolo_ask_user_question_deny :: "permission_state \<Rightarrow> policy" where
  "yolo_ask_user_question_deny st ctx =
     (if pm_mode st = ModeYolo \<and> tc_name (pc_call ctx) = ''AskUserQuestion''
      then Some (PolicyDeny (Some ''AskUserQuestion is not allowed in yolo mode.'')) else None)"

definition user_configured_deny :: "permission_state \<Rightarrow> policy" where
  "user_configured_deny st ctx =
     (case user_rule_match st ctx RuleDeny of
        None \<Rightarrow> None
      | Some mt \<Rightarrow> Some (PolicyDeny (Some (''Tool '' @ [CHR 0x22] @ tc_name (pc_call ctx) @ [CHR 0x22]
          @ '' was denied by permission rule.''
          @ (case ru_reason (rm_rule mt) of Some r \<Rightarrow> (if r = [] then [] else '' Reason: '' @ r) | None \<Rightarrow> [])))))"

definition control_flow_approve :: "permission_state \<Rightarrow> policy" where
  "control_flow_approve st ctx = approve_if (pv_handoff (pc_plan ctx) \<or> pv_control_flow (pc_plan ctx))"

definition yolo_mode_approve :: "permission_state \<Rightarrow> policy" where
  "yolo_mode_approve st ctx = approve_if (pm_mode st = ModeYolo)"

definition session_rule :: "string \<Rightarrow> permission_rule" where
  "session_rule p = \<lparr>ru_decision = RuleAllow, ru_scope = SessionRuntime, ru_pattern = p,
     ru_reason = Some ''approve for session''\<rparr>"

definition session_approval_history :: "permission_state \<Rightarrow> policy" where
  "session_approval_history st ctx =
     approve_if (list_ex (\<lambda>p. match_permission_rule (pm_is_match st) (session_rule p)
        (tc_name (pc_call ctx)) (pc_plan ctx) \<noteq> None) (pm_session_patterns st))"

definition user_configured_ask :: "permission_state \<Rightarrow> policy" where
  "user_configured_ask st ctx =
     (case user_rule_match st ctx RuleAsk of Some _ \<Rightarrow> Some (PolicyAsk False None) | None \<Rightarrow> None)"

definition user_configured_allow :: "permission_state \<Rightarrow> policy" where
  "user_configured_allow st ctx = approve_if (user_rule_match st ctx RuleAllow \<noteq> None)"

definition sensitive_file_access_ask :: "permission_state \<Rightarrow> policy" where
  "sensitive_file_access_ask st ctx = ask_if (list_ex (\<lambda>a. is_sensitive_file (fa_path a)) (file_accesses ctx))"

definition names_git_dir :: "permission_state \<Rightarrow> tool_file_access \<Rightarrow> bool" where
  "names_git_dir st a \<longleftrightarrow>
     list_ex (\<lambda>part. js_lower part = ''.git'') (relative_path_parts (pm_lib st) (fa_path a) (pm_cwd st))"

definition git_control_path_access_ask :: "permission_state \<Rightarrow> policy" where
  "git_control_path_access_ask st ctx =
     (if pm_cwd st = [] \<or> file_accesses ctx = [] then None
      else if list_ex (names_git_dir st) (file_accesses ctx) then ask_if True
      else case git_marker st of
          None \<Rightarrow> None
        | Some marker \<Rightarrow>
            ask_if (list_ex (\<lambda>a. is_git_control_path (pm_lib st) (fa_path a) marker (pm_path_class st)) (file_accesses ctx)))"

definition outside_cwd :: "permission_state \<Rightarrow> tool_file_access \<Rightarrow> bool" where
  "outside_cwd st a \<longleftrightarrow> \<not> is_within_directory (pm_lib st) (fa_path a) (pm_cwd st) (pm_path_class st)"

definition cwd_outside_file_write_ask :: "permission_state \<Rightarrow> policy" where
  "cwd_outside_file_write_ask st ctx =
     (if pm_cwd st = [] then None else ask_if (list_ex (outside_cwd st) (write_file_accesses ctx)))"

definition workspace_mode_approve :: "permission_state \<Rightarrow> policy" where
  "workspace_mode_approve st ctx = approve_if (pm_mode st = ModeWorkspace)"

definition default_tool_approve :: "permission_state \<Rightarrow> policy" where
  "default_tool_approve st ctx = approve_if (tc_name (pc_call ctx) \<in> set default_approve_tools)"

definition bash_read_only_approve :: "permission_state \<Rightarrow> policy" where
  "bash_read_only_approve st ctx =
     (if tc_name (pc_call ctx) \<noteq> ''Bash'' then None
      else case json_field ''command'' (pc_args ctx) of
          Some (JStr command) \<Rightarrow> approve_if (is_read_only_bash_command command)
        | _ \<Rightarrow> None)"

definition git_cwd_write_approve :: "permission_state \<Rightarrow> policy" where
  "git_cwd_write_approve st ctx =
     (case map_of (pm_overrides st) ''git-cwd-write-approve'' of
        Some p \<Rightarrow> p ctx
      | None \<Rightarrow>
          approve_if (tc_name (pc_call ctx) \<in> set [''Write'', ''Edit''] \<and> pm_path_class st = Posix \<and> pm_cwd st \<noteq> []
            \<and> write_file_accesses ctx \<noteq> [] \<and> \<not> list_ex (outside_cwd st) (write_file_accesses ctx)
            \<and> git_marker st \<noteq> None))"

definition fallback_ask :: "permission_state \<Rightarrow> policy" where
  "fallback_ask st ctx = Some (PolicyAsk True None)"

definition create_policies :: "permission_state \<Rightarrow> (string \<times> policy) list" where
  "create_policies st =
     [(''pre-tool-call-hook'', policy_slot st ''pre-tool-call-hook''),
      (''yolo-mode-ask-user-question-deny'', yolo_ask_user_question_deny st),
      (''plan-mode-guard-deny'', policy_slot st ''plan-mode-guard-deny''),
      (''user-configured-deny'', user_configured_deny st),
      (''control-flow-approve'', control_flow_approve st),
      (''yolo-mode-approve'', yolo_mode_approve st),
      (''session-approval-history'', session_approval_history st),
      (''user-configured-ask'', user_configured_ask st),
      (''user-configured-allow'', user_configured_allow st),
      (''exit-plan-mode-review-ask'', policy_slot st ''exit-plan-mode-review-ask''),
      (''plan-mode-tool-approve'', policy_slot st ''plan-mode-tool-approve''),
      (''sensitive-file-access-ask'', sensitive_file_access_ask st),
      (''git-control-path-access-ask'', git_control_path_access_ask st),
      (''cwd-outside-file-write-ask'', cwd_outside_file_write_ask st),
      (''workspace-mode-approve'', workspace_mode_approve st),
      (''default-tool-approve'', default_tool_approve st),
      (''bash-read-only-approve'', bash_read_only_approve st),
      (''git-cwd-write-approve'', git_cwd_write_approve st),
      (''fallback-ask'', fallback_ask st)]"

section \<open>The manager\<close>

text \<open>The loop of \<open>authorizeWith\<close>: the first policy that answers, with its name.\<close>

fun first_policy :: "(string \<times> policy) list \<Rightarrow> policy_context \<Rightarrow> (string \<times> policy_result) option" where
  "first_policy [] ctx = None"
| "first_policy ((name, p) # ps) ctx =
     (case p ctx of Some r \<Rightarrow> Some (name, r) | None \<Rightarrow> first_policy ps ctx)"

definition add_session_pattern :: "string \<Rightarrow> permission_state \<Rightarrow> permission_state" where
  "add_session_pattern p st =
     (if p \<in> set (pm_session_patterns st) then st
      else st\<lparr>pm_session_patterns := pm_session_patterns st @ [p]\<rparr>)"

definition set_mode :: "permission_mode \<Rightarrow> permission_state \<Rightarrow> permission_state" where
  "set_mode m st = st\<lparr>pm_mode := m\<rparr>"

definition add_rule :: "permission_rule \<Rightarrow> permission_state \<Rightarrow> permission_state" where
  "add_rule r st = st\<lparr>pm_rules := pm_rules st @ [r]\<rparr>"

definition blocked :: "string \<Rightarrow> authorize_result" where
  "blocked reason = \<lparr>au_block = Some True, au_reason = Some reason, au_synthetic = None, au_interrupt = None\<rparr>"

definition ask_interrupt :: "policy_context \<Rightarrow> string \<Rightarrow> authorize_result" where
  "ask_interrupt ctx policy_name =
     \<lparr>au_block = None, au_reason = None, au_synthetic = None,
      au_interrupt = Some \<lparr>pa_call_id = tc_id (pc_call ctx), pa_tool_name = tc_name (pc_call ctx),
        pa_rule = pv_approval_rule (pc_plan ctx), pa_policy_name = Some policy_name\<rparr>\<rparr>"

fun decision_text :: "approval_decision \<Rightarrow> string" where
  "decision_text Approved = ''approved''"
| "decision_text Rejected = ''rejected''"
| "decision_text Cancelled = ''cancelled''"

text \<open>\<open>resolved?.kind === "deny"\<close>, then the decision itself.\<close>

definition answer_in_place :: "policy_context \<Rightarrow> (approval_response \<Rightarrow> policy_result option) option
    \<Rightarrow> approval_response \<Rightarrow> permission_state \<Rightarrow> authorize_result option \<times> permission_state" where
  "answer_in_place ctx resolve response st =
     (case Option.bind resolve (\<lambda>f. f response) of
        Some (PolicyDeny msg) \<Rightarrow> (Some (blocked (case msg of Some m \<Rightarrow> m | None \<Rightarrow> ''Denied.'')), st)
      | _ \<Rightarrow>
          if ap_decision response = Approved
          then (None, if ap_session_scope response then add_session_pattern (pv_approval_rule (pc_plan ctx)) st else st)
          else (Some (blocked (case ap_feedback response of Some f \<Rightarrow> f
             | None \<Rightarrow> ''Tool '' @ tc_name (pc_call ctx) @ '' was '' @ decision_text (ap_decision response) @ '' by the user.'')), st))"

text \<open>The judge: \<^const>\<open>None\<close> when it throws, otherwise whether it allows.\<close>

definition judge_clears :: "(policy_context \<Rightarrow> bool option) option \<Rightarrow> permission_state \<Rightarrow> bool \<Rightarrow> policy_context \<Rightarrow> bool" where
  "judge_clears judge st approvable ctx \<longleftrightarrow>
     (case judge of
        None \<Rightarrow> False
      | Some classify \<Rightarrow> pm_mode st = ModeAuto \<and> approvable \<and> classify ctx = Some True)"

definition authorize_with ::
    "(policy_context \<Rightarrow> bool option) option \<Rightarrow> (policy_context \<Rightarrow> approval_response) option \<Rightarrow> policy_context
     \<Rightarrow> permission_state \<Rightarrow> authorize_result option \<times> permission_state" where
  "authorize_with judge responder ctx st =
     (case first_policy (create_policies st) ctx of
        None \<Rightarrow> (None, st)
      | Some (name, PolicyApprove) \<Rightarrow> (None, st)
      | Some (name, PolicyDeny msg) \<Rightarrow>
          (Some (blocked (case msg of Some m \<Rightarrow> m | None \<Rightarrow> ''Denied by permission policy.'')), st)
      | Some (name, PolicyAsk approvable resolve) \<Rightarrow>
          if judge_clears judge st approvable ctx then (None, st)
          else case responder of
              None \<Rightarrow> (Some (ask_interrupt ctx name), st)
            | Some respond \<Rightarrow> answer_in_place ctx resolve (respond ctx) st)"

definition apply_approval :: "string \<Rightarrow> approval_response \<Rightarrow> permission_state \<Rightarrow> bool \<times> permission_state" where
  "apply_approval rule response st =
     (if ap_decision response = Approved
      then (True, if ap_session_scope response then add_session_pattern rule st else st)
      else (False, st))"

section \<open>Patterns\<close>

text \<open>
  A rule pattern reads back as it was written: \<open>Tool(args)\<close> names the tool and carries the
  argument pattern verbatim, parentheses and spaces included.
\<close>

theorem parse_pattern_roundtrip:
  assumes "tool \<noteq> []" and "CHR ''('' \<notin> set tool" and "\<not> js_space (hd tool)" and "arg \<noteq> []"
  shows "parse_pattern (tool @ ''('' @ arg @ '')'') = Inr \<lparr>pp_tool_name = tool, pp_arg_pattern = Some arg\<rparr>"
proof -
  have trim: "js_trim (tool @ ''('' @ arg @ '')'') = tool @ ''('' @ arg @ '')''"
    using assms by (intro js_trim_id) (simp_all add: js_space_def)
  have idx: "index_of CHR ''('' (tool @ ''('' @ arg @ '')'') = Some (length tool)"
    using assms(2) by (simp add: index_of_Some nth_append)
  show ?thesis
    unfolding parse_pattern_def trim Let_def idx
    using assms by (simp add: butlast_append)
qed

lemma parse_pattern_roundtrip_witness:
  "parse_pattern (''Bash'' @ ''('' @ ''git (log) *'' @ '')'') = Inr \<lparr>pp_tool_name = ''Bash'', pp_arg_pattern = Some ''git (log) *''\<rparr>"
  by (rule parse_pattern_roundtrip) (simp_all add: js_space_def)

section \<open>The chain\<close>

lemma first_policy_decides: "first_policy (create_policies st) ctx \<noteq> None"
  by (simp add: create_policies_def fallback_ask_def split: option.split)

lemma approve_if_iff [simp]: "approve_if b = Some r \<longleftrightarrow> b \<and> r = PolicyApprove" "approve_if b = None \<longleftrightarrow> \<not> b"
  by (auto simp: approve_if_def)

lemma ask_if_iff [simp]: "ask_if b = Some r \<longleftrightarrow> b \<and> r = PolicyAsk True None" "ask_if b = None \<longleftrightarrow> \<not> b"
  by (auto simp: ask_if_def)

text \<open>
  C3. A deny rule of the user always wins: no mode, allow rule, session grant, control-flow tool,
  judge or responder lets the call through, unless a host policy in a slot before it has already
  decided.
\<close>

theorem user_deny_wins:
  assumes "user_rule_match st ctx RuleDeny = Some mt"
    and "policy_slot st ''pre-tool-call-hook'' ctx = None" and "policy_slot st ''plan-mode-guard-deny'' ctx = None"
  shows "\<exists>reason. authorize_with judge responder ctx st = (Some (blocked reason), st)"
proof (cases "yolo_ask_user_question_deny st ctx")
  case None
  have "user_configured_deny st ctx \<noteq> None" "\<exists>m. the (user_configured_deny st ctx) = PolicyDeny m"
    using assms(1) by (simp_all add: user_configured_deny_def)
  then obtain m where "user_configured_deny st ctx = Some (PolicyDeny m)" by auto
  then show ?thesis
    using assms(2,3) None by (auto simp: authorize_with_def create_policies_def)
next
  case (Some r)
  then obtain m where "r = PolicyDeny m"
    by (auto simp: yolo_ask_user_question_deny_def split: if_splits)
  then show ?thesis
    using assms(2,3) Some by (auto simp: authorize_with_def create_policies_def)
qed

lemma no_responder_keeps_state: "snd (authorize_with judge None ctx st) = st"
  by (auto simp: authorize_with_def split: option.split policy_result.split)

text \<open>What the chain says when nothing before the safety floor lets the call pass.\<close>

definition unprivileged :: "permission_state \<Rightarrow> policy_context \<Rightarrow> bool" where
  "unprivileged st ctx \<longleftrightarrow>
     pm_mode st \<noteq> ModeYolo \<and> \<not> pv_handoff (pc_plan ctx) \<and> \<not> pv_control_flow (pc_plan ctx)
     \<and> session_approval_history st ctx = None \<and> user_rule_match st ctx RuleAllow = None \<and> pm_overrides st = []"

definition clears_floor :: "permission_state \<Rightarrow> policy_context \<Rightarrow> bool" where
  "clears_floor st ctx \<longleftrightarrow>
     user_rule_match st ctx RuleDeny = None \<and> user_rule_match st ctx RuleAsk = None
     \<and> (\<forall>a\<in>set (file_accesses ctx). \<not> is_sensitive_file (fa_path a))
     \<and> (pm_cwd st \<noteq> [] \<longrightarrow> (\<forall>a\<in>set (file_accesses ctx). \<not> names_git_dir st a)
          \<and> (\<forall>a\<in>set (write_file_accesses ctx). \<not> outside_cwd st a))"

lemma floor_before_approval:
  assumes "unprivileged st ctx" and "first_policy (create_policies st) ctx = Some (name, PolicyApprove)"
  shows "clears_floor st ctx"
proof -
  have slots: "policy_slot st n ctx = None" for n
    using assms(1) by (simp add: policy_slot_def unprivileged_def)
  have off: "control_flow_approve st ctx = None" "yolo_mode_approve st ctx = None"
    "session_approval_history st ctx = None" "user_configured_allow st ctx = None"
    using assms(1)
    by (simp_all add: unprivileged_def control_flow_approve_def yolo_mode_approve_def user_configured_allow_def)
  have no_deny: "yolo_ask_user_question_deny st ctx = None"
    using assms(1) by (simp add: unprivileged_def yolo_ask_user_question_deny_def)
  have deny: "user_configured_deny st ctx = None" and ask: "user_configured_ask st ctx = None"
    and sens: "sensitive_file_access_ask st ctx = None" and git: "git_control_path_access_ask st ctx = None"
    and out: "cwd_outside_file_write_ask st ctx = None"
    using assms(2) slots off no_deny
    by (auto simp: create_policies_def user_configured_deny_def user_configured_ask_def sensitive_file_access_ask_def
        git_control_path_access_ask_def cwd_outside_file_write_ask_def split: option.splits if_splits)
  show ?thesis
    using deny ask sens git out
    by (auto simp: clears_floor_def user_configured_deny_def user_configured_ask_def sensitive_file_access_ask_def
        git_control_path_access_ask_def cwd_outside_file_write_ask_def list_ex_iff split: option.splits if_splits)
qed

text \<open>
  C25. The safety floor, over the accesses a call declares in its plan: outside yolo mode and without
  host policies, a call that nobody allowed by a rule, a session grant or a control-flow exemption and
  that goes ahead without a human or a judge matches no ask or deny rule and declares no access to a
  sensitive file; and where the working directory is known, it declares none that names a \<open>.git\<close>
  directory and no write outside the working directory. This holds in workspace mode and for the tools
  that are approved by default. What a call does and does not declare is not covered: see
  \<open>clobbering_redirect_missed\<close> for commands whose writes are missed.
\<close>

theorem safety_floor:
  assumes "authorize_with judge responder ctx st = (None, st')"
    and "unprivileged st ctx" and "judge = None \<or> pm_mode st \<noteq> ModeAuto" and "responder = None"
  shows "clears_floor st ctx"
proof -
  have j: "\<not> judge_clears judge st approvable ctx" for approvable
    using assms(3) by (auto simp: judge_clears_def split: option.split)
  obtain name r where r: "first_policy (create_policies st) ctx = Some (name, r)"
    using first_policy_decides [of st ctx] by auto
  with assms(1,4) j have "r = PolicyApprove"
    by (cases r) (simp_all add: authorize_with_def)
  with r floor_before_approval [OF assms(2)] show ?thesis by simp
qed

text \<open>
  The judge is fail-closed: unless it answers that it allows the call, and the mode is
  \<open>auto\<close>, the outcome is the one without a judge; and it never overrides a user's ask rule.
\<close>

theorem judge_fails_closed:
  assumes "pm_mode st \<noteq> ModeAuto \<or> classify ctx \<noteq> Some True
    \<or> (\<exists>name resolve. first_policy (create_policies st) ctx = Some (name, PolicyAsk False resolve))"
  shows "authorize_with (Some classify) responder ctx st = authorize_with None responder ctx st"
proof -
  obtain name r where "first_policy (create_policies st) ctx = Some (name, r)"
    using first_policy_decides [of st ctx] by auto
  with assms show ?thesis
    by (cases r) (auto simp: authorize_with_def judge_clears_def)
qed

section \<open>A manager\<close>

definition demo_permissions :: permission_state where
  "demo_permissions = \<lparr>pm_mode = ModeWorkspace,
     pm_rules = [\<lparr>ru_decision = RuleDeny, ru_scope = UserScope, ru_pattern = ''Write'', ru_reason = None\<rparr>],
     pm_session_patterns = [], pm_cwd = ''/w'', pm_path_class = Posix, pm_environment = None, pm_overrides = [],
     pm_is_match = (=), pm_lib = demo_lib\<rparr>"

definition demo_context :: "string \<Rightarrow> policy_context" where
  "demo_context name = \<lparr>pc_call = \<lparr>tc_id = ''c'', tc_name = name, tc_arguments = JNull\<rparr>, pc_args = JNull,
     pc_plan = \<lparr>pv_approval_rule = name, pv_accesses = Some (write_file ''/w/a''), pv_handoff = False,
       pv_control_flow = False, pv_matches_rule = None\<rparr>\<rparr>"

lemma user_deny_wins_witness:
  "\<exists>reason. authorize_with None None (demo_context ''Write'') demo_permissions = (Some (blocked reason), demo_permissions)"
proof (rule user_deny_wins)
  show "user_rule_match demo_permissions (demo_context ''Write'') RuleDeny =
      Some \<lparr>rm_rule = \<lparr>ru_decision = RuleDeny, ru_scope = UserScope, ru_pattern = ''Write'', ru_reason = None\<rparr>,
        rm_strategy = ToolNameOnly, rm_has_args = False\<rparr>"
    by code_simp
qed (simp_all add: policy_slot_def demo_permissions_def)

lemma safety_floor_witness: "clears_floor demo_permissions (demo_context ''Edit'')"
proof (rule safety_floor [where judge = None and responder = None])
  have "fst (authorize_with None None (demo_context ''Edit'') demo_permissions) = None"
    by code_simp
  then show "authorize_with None None (demo_context ''Edit'') demo_permissions = (None, demo_permissions)"
    by (simp add: prod_eq_iff no_responder_keeps_state)
  have "session_approval_history demo_permissions (demo_context ''Edit'') = None"
    "user_rule_match demo_permissions (demo_context ''Edit'') RuleAllow = None" by code_simp+
  then show "unprivileged demo_permissions (demo_context ''Edit'')"
    by (simp add: unprivileged_def) (simp add: demo_permissions_def demo_context_def)
qed simp_all

lemma judge_fails_closed_witness:
  "authorize_with (Some (\<lambda>_. None)) None (demo_context ''Edit'') (set_mode ModeAuto demo_permissions)
     = authorize_with None None (demo_context ''Edit'') (set_mode ModeAuto demo_permissions)"
  by (rule judge_fails_closed) simp

end
