(* ===== verification/Lease_Interface.thy ===== *)
theory Lease_Interface
  imports Agent_Prelude
begin

text \<open>
  The contract both lease tables of the system keep: the in-process session lock
  (\<open>store/lock.ts\<close>) and the in-memory work table (\<open>managed-agents/src/server/work-memory.ts\<close>).
  A lease is live for a session when it is the one the table records as its holder. The laws say
  that a session has one live lease at most and that no operation makes an issued lease live
  again; the lemmas lift them to whole runs.
\<close>

locale lease_table =
  fixes inv :: "'s \<Rightarrow> bool"
    and step :: "'s \<Rightarrow> 's \<Rightarrow> bool"
    and issued :: "'s \<Rightarrow> 'l \<Rightarrow> bool"
    and live :: "'s \<Rightarrow> string \<Rightarrow> 'l \<Rightarrow> bool"
  assumes inv_step: "inv s \<Longrightarrow> step s s' \<Longrightarrow> inv s'"
    and issued_step: "issued s l \<Longrightarrow> step s s' \<Longrightarrow> issued s' l"
    and live_issued: "inv s \<Longrightarrow> live s sid l \<Longrightarrow> issued s l"
    and live_unique: "inv s \<Longrightarrow> live s sid l \<Longrightarrow> live s sid l' \<Longrightarrow> l = l'"
    and no_revival: "inv s \<Longrightarrow> step s s' \<Longrightarrow> issued s l \<Longrightarrow> live s' sid l \<Longrightarrow> live s sid l"
begin

lemma inv_run: "step\<^sup>*\<^sup>* s s' \<Longrightarrow> inv s \<Longrightarrow> inv s'"
  by (induction rule: rtranclp_induct) (auto intro: inv_step)

lemma issued_run: "step\<^sup>*\<^sup>* s s' \<Longrightarrow> issued s l \<Longrightarrow> issued s' l"
  by (induction rule: rtranclp_induct) (auto intro: issued_step)

lemma stale_forever:
  assumes "step\<^sup>*\<^sup>* s s'" and "inv s" and "issued s l" and "\<not> live s sid l"
  shows "\<not> live s' sid l"
  using assms
proof (induction rule: rtranclp_induct)
  case (step y z)
  then show ?case
    using no_revival [of y z l sid] inv_run [of s y] issued_run [of s y l] by blast
qed simp

lemma superseded:
  assumes "inv s" and "live s sid l" and "step\<^sup>*\<^sup>* s s'" and "live s' sid l'" and "l' \<noteq> l"
    and "step\<^sup>*\<^sup>* s' s''"
  shows "\<not> live s'' sid l"
proof -
  have inv': "inv s'" and iss: "issued s' l"
    using assms(1-3) by (auto intro: inv_run issued_run live_issued)
  have "\<not> live s' sid l"
    using live_unique [OF inv' _ assms(4)] assms(5) by blast
  with assms(6) inv' iss show ?thesis by (rule stale_forever)
qed

end

end
