(* ===== verification/Session_Lock.thy ===== *)
theory Session_Lock
  imports Lease_Interface
begin

text \<open>
  The in-process session lock (\<open>agents-core/src/store/lock.ts\<close>, class \<open>MemorySessionLock\<close>).
  Entries are objects the table and the lease closures share, so they live in a heap and are
  named by their index; the closure variables \<open>surrendered\<close> and \<open>ttlMs\<close> of a lease are fields
  of its entry. The clock value is an argument of every operation.
\<close>

named_theorems lock_defs "definitions of the lock's operations"

record lock_entry =
  le_session :: string
  le_fence :: nat
  le_expires_at :: int
  le_aborted :: bool
  le_surrendered :: bool
  le_ttl :: int

record session_lock =
  lk_held :: "(string, nat) jsmap"
  lk_fences :: "(string, nat) jsmap"
  lk_entries :: "lock_entry list"

definition default_ttl_ms :: int where
  "default_ttl_ms = 30000"

definition lock_new :: session_lock where
  "lock_new = \<lparr>lk_held = [], lk_fences = [], lk_entries = []\<rparr>"

definition lose :: "string \<Rightarrow> nat \<Rightarrow> session_lock \<Rightarrow> session_lock" where
  "lose sid e s = s\<lparr>lk_held := jdelete sid (lk_held s),
     lk_entries := (lk_entries s)[e := (lk_entries s ! e)\<lparr>le_aborted := True\<rparr>]\<rparr>"

definition lock_acquire ::
    "int \<Rightarrow> string \<Rightarrow> int option \<Rightarrow> session_lock \<Rightarrow> nat option \<times> session_lock" where
  "lock_acquire now sid ttl s =
     (let ttl_ms = (case ttl of None \<Rightarrow> default_ttl_ms | Some t \<Rightarrow> t);
          existing = map_of (lk_held s) sid
      in if (case existing of None \<Rightarrow> False | Some e \<Rightarrow> le_expires_at (lk_entries s ! e) > now)
         then (None, s)
         else
           (let s1 = (case existing of None \<Rightarrow> s | Some e \<Rightarrow> lose sid e s);
                fence = (case map_of (lk_fences s1) sid of None \<Rightarrow> 0 | Some f \<Rightarrow> f) + 1;
                entry = \<lparr>le_session = sid, le_fence = fence, le_expires_at = now + ttl_ms,
                         le_aborted = False, le_surrendered = False, le_ttl = ttl_ms\<rparr>;
                e = length (lk_entries s1)
            in (Some e, s1\<lparr>lk_fences := jset sid fence (lk_fences s1),
                           lk_entries := lk_entries s1 @ [entry],
                           lk_held := jset sid e (lk_held s1)\<rparr>)))"

definition surrender :: "nat \<Rightarrow> session_lock \<Rightarrow> session_lock" where
  "surrender e s =
     (let entry = lk_entries s ! e; sid = le_session entry
      in if le_surrendered entry then s
         else s\<lparr>lk_held := (if map_of (lk_held s) sid = Some e then jdelete sid (lk_held s) else lk_held s),
                lk_entries := (lk_entries s)[e := entry\<lparr>le_surrendered := True, le_aborted := True\<rparr>]\<rparr>)"

definition lock_renew :: "int \<Rightarrow> nat \<Rightarrow> session_lock \<Rightarrow> bool \<times> session_lock" where
  "lock_renew now e s =
     (let entry = lk_entries s ! e
      in if le_surrendered entry then (False, s)
         else if map_of (lk_held s) (le_session entry) \<noteq> Some e then (False, surrender e s)
         else (True, s\<lparr>lk_entries := (lk_entries s)[e := entry\<lparr>le_expires_at := now + le_ttl entry\<rparr>]\<rparr>))"

definition lock_release :: "nat \<Rightarrow> session_lock \<Rightarrow> session_lock" where
  "lock_release e s = surrender e s"

definition lock_peek :: "int \<Rightarrow> string \<Rightarrow> session_lock \<Rightarrow> bool" where
  "lock_peek now sid s =
     (case map_of (lk_held s) sid of None \<Rightarrow> False | Some e \<Rightarrow> le_expires_at (lk_entries s ! e) > now)"

lemmas lock_op_defs [lock_defs] =
  lose_def lock_acquire_def surrender_def lock_renew_def lock_release_def

section \<open>Steps and the invariant\<close>

text \<open>Any caller may ask for a session at any time; a lease is renewed or released by whoever
  got it.\<close>

inductive lock_step :: "session_lock \<Rightarrow> session_lock \<Rightarrow> bool" where
  step_acquire: "lock_step s (snd (lock_acquire now sid ttl s))"
| step_renew: "e < length (lk_entries s) \<Longrightarrow> lock_step s (snd (lock_renew now e s))"
| step_release: "e < length (lk_entries s) \<Longrightarrow> lock_step s (lock_release e s)"

inductive_cases lock_stepE: "lock_step s s'"

definition lock_issued :: "session_lock \<Rightarrow> nat \<Rightarrow> bool" where
  "lock_issued s e \<longleftrightarrow> e < length (lk_entries s)"

definition lock_live :: "session_lock \<Rightarrow> string \<Rightarrow> nat \<Rightarrow> bool" where
  "lock_live s sid e \<longleftrightarrow> map_of (lk_held s) sid = Some e"

text \<open>An entry is held and alive, or aborted; what is held is an allocated entry of that session;
  fences grow with allocation and never exceed the session's counter.\<close>

definition entry_ok :: "(string, nat) jsmap \<Rightarrow> nat \<Rightarrow> lock_entry \<Rightarrow> bool" where
  "entry_ok held e x \<longleftrightarrow>
     (if map_of held (le_session x) = Some e then \<not> le_surrendered x \<and> \<not> le_aborted x
      else le_aborted x)"

definition held_ok :: "session_lock \<Rightarrow> bool" where
  "held_ok s \<longleftrightarrow>
     (\<forall>e<length (lk_entries s). entry_ok (lk_held s) e (lk_entries s ! e))
     \<and> (\<forall>sid e. map_of (lk_held s) sid = Some e \<longrightarrow>
          e < length (lk_entries s) \<and> le_session (lk_entries s ! e) = sid)"

definition entry_tag :: "lock_entry \<Rightarrow> string \<times> nat" where
  "entry_tag x = (le_session x, le_fence x)"

definition fences_ok :: "(string, nat) jsmap \<Rightarrow> (string \<times> nat) list \<Rightarrow> bool" where
  "fences_ok fences tags \<longleftrightarrow>
     sorted_wrt (\<lambda>a b. fst a = fst b \<longrightarrow> snd a < snd b) tags
     \<and> (\<forall>t\<in>set tags. \<exists>g. map_of fences (fst t) = Some g \<and> snd t \<le> g)"

definition lock_inv :: "session_lock \<Rightarrow> bool" where
  "lock_inv s \<longleftrightarrow> held_ok s \<and> fences_ok (lk_fences s) (map entry_tag (lk_entries s))"

lemma lock_inv_new: "lock_inv lock_new"
  by (simp add: lock_inv_def lock_new_def held_ok_def fences_ok_def)

text \<open>Updates of an entry that keep its session and fence keep the tags.\<close>

lemma tags_update:
  assumes "entry_tag x = entry_tag (xs ! e)"
  shows "map entry_tag (xs[e := x]) = map entry_tag xs"
proof (cases "e < length xs")
  case True
  have "map entry_tag (xs[e := x]) = (map entry_tag xs)[e := map entry_tag xs ! e]"
    using assms True by (simp add: map_update)
  then show ?thesis by simp
qed (simp add: list_update_beyond)

lemma fences_ok_install:
  assumes "fences_ok fences tags"
  shows "fences_ok (jset sid ((case map_of fences sid of None \<Rightarrow> 0 | Some f \<Rightarrow> f) + 1) fences)
     (tags @ [(sid, (case map_of fences sid of None \<Rightarrow> 0 | Some f \<Rightarrow> f) + 1)])"
  using assms by (fastforce simp: fences_ok_def sorted_wrt_append split: option.splits)

lemma held_ok_abort_delete:
  assumes "held_ok s" and "map_of (lk_held s) sid = Some e"
    and "le_session x = sid" and "le_aborted x"
  shows "held_ok (s\<lparr>lk_held := jdelete sid (lk_held s), lk_entries := (lk_entries s)[e := x]\<rparr>)"
proof -
  have e: "e < length (lk_entries s)" and se: "le_session (lk_entries s ! e) = sid"
    using assms(1,2) unfolding held_ok_def by blast+
  have "entry_ok (jdelete sid (lk_held s)) i ((lk_entries s)[e := x] ! i)"
    if i: "i < length (lk_entries s)" for i
  proof (cases "i = e")
    case True
    with e assms(3,4) show ?thesis by (simp add: entry_ok_def)
  next
    case False
    have "entry_ok (lk_held s) i (lk_entries s ! i)"
      using assms(1) i unfolding held_ok_def by blast
    with False assms(2) show ?thesis by (auto simp: entry_ok_def split: if_splits)
  qed
  moreover have "i < length (lk_entries s) \<and> le_session ((lk_entries s)[e := x] ! i) = k"
    if "map_of (jdelete sid (lk_held s)) k = Some i" for k i
  proof -
    from that have k: "map_of (lk_held s) k = Some i" "k \<noteq> sid" by (auto split: if_splits)
    then have "i < length (lk_entries s)" "le_session (lk_entries s ! i) = k"
      using assms(1) unfolding held_ok_def by blast+
    with k(2) se show ?thesis by (cases "i = e") auto
  qed
  ultimately show ?thesis by (simp add: held_ok_def)
qed

text \<open>An update of an entry that leaves its hold as it is.\<close>

lemma held_ok_update:
  assumes "held_ok s" and "le_session x = le_session (lk_entries s ! e)"
    and "entry_ok (lk_held s) e x"
  shows "held_ok (s\<lparr>lk_entries := (lk_entries s)[e := x]\<rparr>)"
proof -
  have "entry_ok (lk_held s) i ((lk_entries s)[e := x] ! i)" if "i < length (lk_entries s)" for i
    using assms that unfolding held_ok_def by (cases "i = e") auto
  moreover have "i < length (lk_entries s) \<and> le_session ((lk_entries s)[e := x] ! i) = k"
    if "map_of (lk_held s) k = Some i" for k i
  proof -
    have "i < length (lk_entries s)" "le_session (lk_entries s ! i) = k"
      using assms(1) that unfolding held_ok_def by blast+
    with assms(2) show ?thesis by (cases "i = e") auto
  qed
  ultimately show ?thesis by (simp add: held_ok_def)
qed

lemma lock_inv_lose:
  assumes "lock_inv s" and "map_of (lk_held s) sid = Some e"
  shows "lock_inv (lose sid e s)"
proof -
  have "le_session (lk_entries s ! e) = sid"
    using assms unfolding lock_inv_def held_ok_def by blast
  with assms show ?thesis
    by (simp add: lock_inv_def lose_def held_ok_abort_delete tags_update entry_tag_def)
qed

lemma lock_inv_surrender:
  assumes "lock_inv s" and "e < length (lk_entries s)"
  shows "lock_inv (surrender e s)"
proof (cases "map_of (lk_held s) (le_session (lk_entries s ! e)) = Some e")
  case True
  with assms show ?thesis
    by (simp add: lock_inv_def surrender_def Let_def held_ok_abort_delete tags_update entry_tag_def)
next
  case False
  with assms show ?thesis
    by (simp add: lock_inv_def surrender_def Let_def held_ok_update tags_update entry_tag_def entry_ok_def)
qed

lemma lock_inv_renew:
  assumes "lock_inv s" and "e < length (lk_entries s)"
  shows "lock_inv (snd (lock_renew now e s))"
proof -
  have "entry_ok (lk_held s) e (lk_entries s ! e)"
    using assms unfolding lock_inv_def held_ok_def by blast
  then have "lock_inv (s\<lparr>lk_entries := (lk_entries s)[e := (lk_entries s ! e)\<lparr>le_expires_at := x\<rparr>]\<rparr>)" for x
    using assms(1) by (simp add: lock_inv_def held_ok_update tags_update entry_tag_def entry_ok_def)
  then show ?thesis
    using lock_inv_surrender [OF assms] assms(1) by (simp add: lock_renew_def Let_def)
qed

definition lock_install :: "string \<Rightarrow> int \<Rightarrow> int \<Rightarrow> session_lock \<Rightarrow> session_lock" where
  "lock_install sid now ttl s =
     (let fence = (case map_of (lk_fences s) sid of None \<Rightarrow> 0 | Some f \<Rightarrow> f) + 1
      in s\<lparr>lk_fences := jset sid fence (lk_fences s),
           lk_entries := lk_entries s @ [\<lparr>le_session = sid, le_fence = fence, le_expires_at = now + ttl,
              le_aborted = False, le_surrendered = False, le_ttl = ttl\<rparr>],
           lk_held := jset sid (length (lk_entries s)) (lk_held s)\<rparr>)"

lemma held_ok_install:
  assumes "held_ok s" and "map_of (lk_held s) sid = None"
  shows "held_ok (lock_install sid now ttl s)"
proof -
  let ?n = "length (lk_entries s)"
  have old: "i < ?n" if "map_of (lk_held s) k = Some i" for k i
    using assms(1) that unfolding held_ok_def by blast
  have kept: "entry_ok (jset sid ?n (lk_held s)) i (lk_entries s ! i)" if i: "i < ?n" for i
  proof -
    have "entry_ok (lk_held s) i (lk_entries s ! i)"
      using assms(1) i unfolding held_ok_def by blast
    with assms(2) i show ?thesis by (auto simp: entry_ok_def split: if_splits)
  qed
  have "le_session (lk_entries s ! i) = k" if "map_of (lk_held s) k = Some i" for k i
    using assms(1) that unfolding held_ok_def by blast
  then have "i < length (lk_entries s') \<and> le_session (lk_entries s' ! i) = k"
    if "s' = lock_install sid now ttl s" "map_of (lk_held s') k = Some i" for s' k i
    using that old [of k i] by (cases "k = sid") (simp_all add: lock_install_def Let_def nth_append)
  moreover have "entry_ok (lk_held s') i (lk_entries s' ! i)"
    if "s' = lock_install sid now ttl s" "i < length (lk_entries s')" for s' i
    using that kept [of i]
    by (cases "i < ?n") (simp_all add: lock_install_def Let_def nth_append entry_ok_def)
  ultimately show ?thesis unfolding held_ok_def by blast
qed

lemma lock_inv_install:
  assumes "lock_inv s" and "map_of (lk_held s) sid = None"
  shows "lock_inv (lock_install sid now ttl s)"
  using held_ok_install [of s sid now ttl] fences_ok_install [of "lk_fences s" _ sid] assms
  by (simp add: lock_inv_def lock_install_def Let_def entry_tag_def)

lemma lock_acquire_cases:
  "lock_acquire now sid ttl s =
     (let t = (case ttl of None \<Rightarrow> default_ttl_ms | Some t \<Rightarrow> t)
      in case map_of (lk_held s) sid of
           None \<Rightarrow> (Some (length (lk_entries s)), lock_install sid now t s)
         | Some e \<Rightarrow> if le_expires_at (lk_entries s ! e) > now then (None, s)
             else (Some (length (lk_entries s)), lock_install sid now t (lose sid e s)))"
  by (cases "map_of (lk_held s) sid") (simp_all add: lock_acquire_def lock_install_def Let_def lose_def)

lemma lock_inv_acquire: "lock_inv s \<Longrightarrow> lock_inv (snd (lock_acquire now sid ttl s))"
proof (cases "map_of (lk_held s) sid")
  case None
  assume "lock_inv s"
  with None show ?thesis by (simp add: lock_acquire_cases Let_def lock_inv_install)
next
  case (Some e)
  assume "lock_inv s"
  then have "lock_inv (lose sid e s)" using Some by (rule lock_inv_lose)
  moreover have "map_of (lk_held (lose sid e s)) sid = None" by (simp add: lose_def)
  ultimately have "lock_inv (lock_install sid now t (lose sid e s))" for t by (rule lock_inv_install)
  with Some \<open>lock_inv s\<close> show ?thesis by (simp add: lock_acquire_cases Let_def)
qed

lemma lock_inv_step: "lock_step s s' \<Longrightarrow> lock_inv s \<Longrightarrow> lock_inv s'"
  by (induction rule: lock_step.induct)
    (auto intro: lock_inv_acquire lock_inv_renew lock_inv_surrender simp: lock_release_def)

section \<open>The lease contract\<close>

lemma length_entries_surrender [simp]: "length (lk_entries (surrender e s)) = length (lk_entries s)"
  by (simp add: surrender_def Let_def)

lemma length_entries_renew [simp]: "length (lk_entries (snd (lock_renew now e s))) = length (lk_entries s)"
  by (simp add: lock_renew_def Let_def)

lemma length_entries_acquire: "length (lk_entries s) \<le> length (lk_entries (snd (lock_acquire now sid ttl s)))"
  by (auto simp: lock_acquire_cases Let_def lock_install_def lose_def split: option.splits)

lemma live_surrender: "lock_live (surrender e s) sid l \<Longrightarrow> lock_live s sid l"
  by (auto simp: lock_live_def surrender_def Let_def split: if_splits)

lemma live_renew: "lock_live (snd (lock_renew now e s)) sid l \<Longrightarrow> lock_live s sid l"
  using live_surrender [of e s sid l] by (auto simp: lock_renew_def Let_def lock_live_def split: if_splits)

lemma live_acquire_old:
  "lock_live (snd (lock_acquire now sid' ttl s)) sid l \<Longrightarrow> l < length (lk_entries s) \<Longrightarrow> lock_live s sid l"
  by (auto simp: lock_live_def lock_acquire_cases Let_def lock_install_def lose_def
      split: option.splits if_splits)

interpretation lock: lease_table lock_inv lock_step lock_issued lock_live
proof unfold_locales
  fix s s' l
  assume "lock_issued s l" "lock_step s s'"
  then show "lock_issued s' l"
    using length_entries_acquire [of s]
    by (auto simp: lock_issued_def lock_release_def elim!: lock_stepE intro: less_le_trans)
next
  fix s s' l sid
  assume "lock_step s s'" "lock_issued s l" "lock_live s' sid l"
  then show "lock_live s sid l"
    by (auto simp: lock_issued_def lock_release_def elim!: lock_stepE
        dest: live_surrender live_renew live_acquire_old)
next
  fix s sid l
  assume "lock_inv s" "lock_live s sid l"
  then show "lock_issued s l" unfolding lock_inv_def held_ok_def lock_live_def lock_issued_def by blast
qed (auto simp: lock_live_def intro: lock_inv_step)

definition lock_reachable :: "session_lock \<Rightarrow> bool" where
  "lock_reachable s \<longleftrightarrow> lock_step\<^sup>*\<^sup>* lock_new s"

lemma lock_reachable_inv: "lock_reachable s \<Longrightarrow> lock_inv s"
  using lock.inv_run [OF _ lock_inv_new] by (simp add: lock_reachable_def)

text \<open>What a renewal answers: \<open>True\<close> exactly for the lease the table holds.\<close>

lemma renew_iff_live:
  assumes "lock_inv s" and "e < length (lk_entries s)"
  shows "fst (lock_renew now e s) \<longleftrightarrow> lock_live s (le_session (lk_entries s ! e)) e"
proof -
  have "entry_ok (lk_held s) e (lk_entries s ! e)"
    using assms unfolding lock_inv_def held_ok_def by blast
  then show ?thesis by (auto simp: lock_renew_def Let_def lock_live_def entry_ok_def)
qed

text \<open>
  C4. A lease that another runner has superseded is never renewed again: from the moment a later
  lease of the session was granted, whatever happens, the earlier lease's \<open>renew\<close> answers
  \<open>False\<close>.
\<close>

theorem superseded_lease_never_renews:
  assumes "lock_reachable s" and "lock_live s sid e"
    and "lock_step\<^sup>*\<^sup>* s s'" and "lock_acquire now sid ttl s' = (Some e', s2)"
    and "lock_step\<^sup>*\<^sup>* s2 s3"
  shows "\<not> fst (lock_renew now' e s3)"
proof -
  have inv: "lock_inv s" using assms(1) by (rule lock_reachable_inv)
  have step: "lock_step s' s2" using step_acquire [of s' now sid ttl] assms(4) by simp
  have live': "lock_live s2 sid e'" and e': "e' = length (lk_entries s')"
    using assms(4) by (auto simp: lock_live_def lock_acquire_cases Let_def lock_install_def lose_def
        split: option.splits if_splits)
  have iss: "lock_issued s e" using inv assms(2) by (rule lock.live_issued)
  then have "lock_issued s' e" using assms(3) lock.issued_run by blast
  with e' have ne: "e' \<noteq> e" by (simp add: lock_issued_def)
  have run: "lock_step\<^sup>*\<^sup>* s s2" using assms(3) step by simp
  have inv3: "lock_inv s3" using lock.inv_run [OF rtranclp_trans [OF run assms(5)] inv] .
  have iss3: "lock_issued s3 e" using lock.issued_run [OF rtranclp_trans [OF run assms(5)] iss] .
  have sess: "le_session (lk_entries s ! e) = sid"
    using inv assms(2) unfolding lock_inv_def held_ok_def lock_live_def by blast
  have "\<not> lock_live s3 sid e"
    by (rule lock.superseded [OF inv assms(2) run live' ne assms(5)])
  moreover have "lock_live s k e" if "lock_live s3 k e" for k
    using lock.stale_forever [OF rtranclp_trans [OF run assms(5)] inv iss] that by blast
  ultimately have "\<not> lock_live s3 k e" for k
    using inv sess unfolding lock_inv_def held_ok_def lock_live_def by metis
  with renew_iff_live [OF inv3] iss3 show ?thesis by (simp add: lock_issued_def)
qed

lemmas lock_evals = lock_acquire_def lock_new_def lose_def surrender_def lock_renew_def lock_release_def
  Let_def default_ttl_ms_def

theorem superseded_lease_never_renews_witness:
  "\<not> fst (lock_renew 25 0 (snd (lock_acquire 20 ''a'' (Some 10) (snd (lock_acquire 0 ''a'' (Some 10) lock_new)))))"
proof -
  let ?s = "snd (lock_acquire 0 ''a'' (Some 10) lock_new)"
  let ?t = "snd (lock_acquire 20 ''a'' (Some 10) ?s)"
  have r: "lock_reachable ?s"
    unfolding lock_reachable_def by (rule r_into_rtranclp, rule step_acquire)
  have l: "lock_live ?s ''a'' 0" by (simp add: lock_live_def lock_evals)
  have a: "lock_acquire 20 ''a'' (Some 10) ?s = (Some 1, ?t)" by (simp add: lock_evals)
  show ?thesis
    by (rule superseded_lease_never_renews [OF r l rtranclp.rtrancl_refl a rtranclp.rtrancl_refl])
qed

text \<open>
  Fencing tokens order the holders of a session: of two leases ever granted for it, the later
  one carries the strictly larger fence.
\<close>

theorem lock_fences_increase:
  assumes "lock_reachable s" and "i < j" and "j < length (lk_entries s)"
    and "le_session (lk_entries s ! i) = le_session (lk_entries s ! j)"
  shows "le_fence (lk_entries s ! i) < le_fence (lk_entries s ! j)"
proof -
  have "sorted_wrt (\<lambda>a b. fst a = fst b \<longrightarrow> snd a < snd b) (map entry_tag (lk_entries s))"
    using lock_reachable_inv [OF assms(1)] by (simp add: lock_inv_def fences_ok_def)
  from sorted_wrt_nth_less [OF this assms(2)] assms(2-4) show ?thesis
    by (simp add: entry_tag_def)
qed

theorem lock_fences_increase_witness:
  "le_fence (lk_entries (snd (lock_acquire 20 ''a'' None (lock_release 0 (snd (lock_acquire 0 ''a'' None lock_new))))) ! 0)
   < le_fence (lk_entries (snd (lock_acquire 20 ''a'' None (lock_release 0 (snd (lock_acquire 0 ''a'' None lock_new))))) ! 1)"
proof -
  let ?s = "snd (lock_acquire 0 ''a'' None lock_new)"
  have "lock_step ?s (lock_release 0 ?s)" by (rule step_release) (simp add: lock_evals default_ttl_ms_def)
  then have "lock_reachable (snd (lock_acquire 20 ''a'' None (lock_release 0 ?s)))"
    unfolding lock_reachable_def
    by (meson rtranclp.rtrancl_refl rtranclp.rtrancl_into_rtrancl step_acquire)
  from lock_fences_increase [OF this, of 0 1] show ?thesis
    by (simp add: lock_evals default_ttl_ms_def)
qed

text \<open>
  A runner learns from its signal that it must stop: in every reachable state the signal of
  every lease that the table does not hold has been aborted, and that of a held one has not.
\<close>

theorem lease_signal_aborted_iff_lost:
  assumes "lock_reachable s" and "e < length (lk_entries s)"
  shows "le_aborted (lk_entries s ! e) \<longleftrightarrow> map_of (lk_held s) (le_session (lk_entries s ! e)) \<noteq> Some e"
proof -
  have "entry_ok (lk_held s) e (lk_entries s ! e)"
    using lock_reachable_inv [OF assms(1)] assms(2) unfolding lock_inv_def held_ok_def by blast
  then show ?thesis by (auto simp: entry_ok_def split: if_splits)
qed

theorem lease_signal_aborted_iff_lost_witness:
  "le_aborted (lk_entries (snd (lock_acquire 20 ''a'' (Some 10) (snd (lock_acquire 0 ''a'' (Some 10) lock_new)))) ! 0)"
proof -
  have "lock_reachable (snd (lock_acquire 20 ''a'' (Some 10) (snd (lock_acquire 0 ''a'' (Some 10) lock_new))))"
    unfolding lock_reachable_def
    by (meson rtranclp.rtrancl_refl rtranclp.rtrancl_into_rtrancl step_acquire)
  from lease_signal_aborted_iff_lost [OF this, of 0] show ?thesis by (simp add: lock_evals)
qed

text \<open>\<open>peek\<close> answers what \<open>acquire\<close> would refuse.\<close>

lemma lock_peek_acquire: "lock_peek now sid s \<longleftrightarrow> fst (lock_acquire now sid ttl s) = None"
  by (simp add: lock_peek_def lock_acquire_cases Let_def split: option.splits)

end
