(* ===== verification/Session_Work.thy ===== *)
theory Session_Work
  imports Lease_Interface
begin

text \<open>
  The in-memory work table (\<open>managed-agents/src/server/work-memory.ts\<close>, class
  \<open>MemorySessionWork\<close>): the rows, \<open>append\<close>, \<open>claim\<close>, \<open>acquire\<close>, \<open>peek\<close>, \<open>take\<close> and the \<open>renew\<close>
  and \<open>release\<close> of a lease. Rows and holders are objects the table and the leases share, so both
  live in heaps. The session repository is outside the class: whether a session can be opened and
  what appending a record to its log does are arguments of \<open>append\<close>.
\<close>

named_theorems work_defs "definitions of the work table's operations"

record work_row =
  wr_woken :: bool
  wr_fence :: nat
  wr_holder :: "nat option"

record work_holder =
  wh_fence :: nat
  wh_until :: int
  wh_aborted :: bool

record session_work =
  sw_rows :: "(string, nat) jsmap"
  sw_row_heap :: "work_row list"
  sw_holders :: "work_holder list"
  sw_ttl :: int

record work_lease =
  wl_session :: string
  wl_row :: nat
  wl_holder :: nat
  wl_fence :: nat

datatype 'e work_error = ManagedSessionNotFound string | AppendFailed 'e

datatype renewal = Woken | Quiet | Lost

definition work_new :: "int option \<Rightarrow> session_work" where
  "work_new ttl = \<lparr>sw_rows = [], sw_row_heap = [], sw_holders = [],
     sw_ttl = (case ttl of None \<Rightarrow> 30000 | Some t \<Rightarrow> t)\<rparr>"

definition get_row :: "nat \<Rightarrow> session_work \<Rightarrow> work_row" where
  "get_row r s = sw_row_heap s ! r"

definition put_row :: "nat \<Rightarrow> work_row \<Rightarrow> session_work \<Rightarrow> session_work" where
  "put_row r x s = s\<lparr>sw_row_heap := (sw_row_heap s)[r := x]\<rparr>"

definition abort_holder :: "nat \<Rightarrow> session_work \<Rightarrow> session_work" where
  "abort_holder h s = s\<lparr>sw_holders := (sw_holders s)[h := (sw_holders s ! h)\<lparr>wh_aborted := True\<rparr>]\<rparr>"

text \<open>\<open>row\<close>: the session's row, created when there is none.\<close>

definition ensure_row :: "string \<Rightarrow> session_work \<Rightarrow> nat \<times> session_work" where
  "ensure_row sid s =
     (case map_of (sw_rows s) sid of
        Some r \<Rightarrow> (r, s)
      | None \<Rightarrow> (length (sw_row_heap s),
          s\<lparr>sw_row_heap := sw_row_heap s @ [\<lparr>wr_woken = False, wr_fence = 0, wr_holder = None\<rparr>],
            sw_rows := jset sid (length (sw_row_heap s)) (sw_rows s)\<rparr>))"

definition work_wake :: "string \<Rightarrow> session_work \<Rightarrow> session_work" where
  "work_wake sid s =
     (let (r, s1) = ensure_row sid s in put_row r ((get_row r s1)\<lparr>wr_woken := True\<rparr>) s1)"

definition work_append ::
    "(string \<Rightarrow> 'rec \<Rightarrow> 'r \<Rightarrow> ('e + 'r) option) \<Rightarrow> string \<Rightarrow> 'rec \<Rightarrow> 'r \<Rightarrow> session_work
       \<Rightarrow> ('e work_error + unit) \<times> 'r \<times> session_work" where
  "work_append append_record sid rec repo s =
     (case append_record sid rec repo of
        None \<Rightarrow> (Inl (ManagedSessionNotFound sid), repo, s)
      | Some (Inl e) \<Rightarrow> (Inl (AppendFailed e), repo, s)
      | Some (Inr repo') \<Rightarrow> (Inr (), repo', work_wake sid s))"

definition work_take :: "int \<Rightarrow> string \<Rightarrow> nat \<Rightarrow> session_work \<Rightarrow> work_lease \<times> session_work" where
  "work_take now sid r s =
     (let s1 = (case wr_holder (get_row r s) of None \<Rightarrow> s | Some h \<Rightarrow> abort_holder h s);
          fence = wr_fence (get_row r s1) + 1;
          h = length (sw_holders s1);
          s2 = s1\<lparr>sw_holders := sw_holders s1 @
                    [\<lparr>wh_fence = fence, wh_until = now + sw_ttl s1, wh_aborted = False\<rparr>]\<rparr>
      in (\<lparr>wl_session = sid, wl_row = r, wl_holder = h, wl_fence = fence\<rparr>,
          put_row r \<lparr>wr_woken = False, wr_fence = fence, wr_holder = Some h\<rparr> s2))"

text \<open>A row \<open>claim\<close> takes: free or abandoned, and woken or abandoned.\<close>

definition claimable :: "int \<Rightarrow> session_work \<Rightarrow> nat \<Rightarrow> bool" where
  "claimable now s r =
     (let row = get_row r s;
          abandoned = (case wr_holder row of None \<Rightarrow> False | Some h \<Rightarrow> wh_until (sw_holders s ! h) < now);
          free = (wr_holder row = None \<or> abandoned)
      in free \<and> (wr_woken row \<or> abandoned))"

definition work_claim :: "int \<Rightarrow> session_work \<Rightarrow> work_lease option \<times> session_work" where
  "work_claim now s =
     (case find (\<lambda>(sid, r). claimable now s r) (sw_rows s) of
        None \<Rightarrow> (None, s)
      | Some (sid, r) \<Rightarrow> (let (l, s') = work_take now sid r s in (Some l, s')))"

definition work_acquire :: "int \<Rightarrow> string \<Rightarrow> session_work \<Rightarrow> work_lease option \<times> session_work" where
  "work_acquire now sid s =
     (let (r, s1) = ensure_row sid s
      in case wr_holder (get_row r s1) of
           Some h \<Rightarrow> if wh_until (sw_holders s1 ! h) > now then (None, s1)
                     else (let (l, s') = work_take now sid r s1 in (Some l, s'))
         | None \<Rightarrow> (let (l, s') = work_take now sid r s1 in (Some l, s')))"

definition work_peek :: "int \<Rightarrow> string \<Rightarrow> session_work \<Rightarrow> bool" where
  "work_peek now sid s =
     (case map_of (sw_rows s) sid of
        None \<Rightarrow> False
      | Some r \<Rightarrow> (case wr_holder (get_row r s) of
                    None \<Rightarrow> False | Some h \<Rightarrow> wh_until (sw_holders s ! h) > now))"

definition mine :: "work_lease \<Rightarrow> session_work \<Rightarrow> bool" where
  "mine l s \<longleftrightarrow> wr_holder (get_row (wl_row l) s) = Some (wl_holder l)"

definition work_renew :: "int \<Rightarrow> work_lease \<Rightarrow> session_work \<Rightarrow> renewal \<times> session_work" where
  "work_renew now l s =
     (let holder = sw_holders s ! wl_holder l
      in if \<not> mine l s \<or> wh_until holder < now then (Lost, abort_holder (wl_holder l) s)
         else
           (let s1 = s\<lparr>sw_holders := (sw_holders s)[wl_holder l := holder\<lparr>wh_until := now + sw_ttl s\<rparr>]\<rparr>;
                row = get_row (wl_row l) s1
            in (if wr_woken row then Woken else Quiet, put_row (wl_row l) (row\<lparr>wr_woken := False\<rparr>) s1)))"

definition work_release :: "work_lease \<Rightarrow> session_work \<Rightarrow> session_work" where
  "work_release l s =
     (let s1 = abort_holder (wl_holder l) s
      in if \<not> mine l s1 then s1
         else
           (let row = (get_row (wl_row l) s1)\<lparr>wr_holder := None\<rparr>;
                s2 = put_row (wl_row l) row s1
            in if \<not> wr_woken row then s2\<lparr>sw_rows := jdelete (wl_session l) (sw_rows s2)\<rparr> else s2))"

lemmas work_op_defs [work_defs] =
  work_new_def get_row_def put_row_def abort_holder_def ensure_row_def work_wake_def work_append_def work_take_def
  claimable_def work_claim_def work_acquire_def work_peek_def mine_def work_renew_def work_release_def

section \<open>The table's invariant\<close>

text \<open>
  A state of the system is the table and the leases granted so far; lease number \<open>h\<close> is the one
  holder \<open>h\<close> was made for. Rows of the table are allocated and belong to one session each; a lease
  names its row; a row's holder is a granted lease of that row, and the row is in the table.
\<close>

type_synonym work_state = "work_lease list \<times> session_work"

definition leases_ok :: "work_state \<Rightarrow> bool" where
  "leases_ok w \<longleftrightarrow> (case w of (ls, s) \<Rightarrow>
     length ls = length (sw_holders s) \<and>
     (\<forall>h<length ls. wl_holder (ls ! h) = h \<and> wl_row (ls ! h) < length (sw_row_heap s)
        \<and> (\<forall>sid. map_of (sw_rows s) sid = Some (wl_row (ls ! h)) \<longrightarrow> sid = wl_session (ls ! h))))"

definition rows_ok :: "session_work \<Rightarrow> bool" where
  "rows_ok s \<longleftrightarrow>
     (\<forall>sid r. map_of (sw_rows s) sid = Some r \<longrightarrow> r < length (sw_row_heap s))
     \<and> (\<forall>sid sid' r. map_of (sw_rows s) sid = Some r \<longrightarrow> map_of (sw_rows s) sid' = Some r \<longrightarrow> sid = sid')"

definition holds_ok :: "work_state \<Rightarrow> bool" where
  "holds_ok w \<longleftrightarrow> (case w of (ls, s) \<Rightarrow>
     \<forall>r<length (sw_row_heap s). \<forall>h. wr_holder (get_row r s) = Some h \<longrightarrow>
        h < length ls \<and> wl_row (ls ! h) = r \<and> map_of (sw_rows s) (wl_session (ls ! h)) = Some r)"

definition work_inv :: "work_state \<Rightarrow> bool" where
  "work_inv w \<longleftrightarrow> leases_ok w \<and> rows_ok (snd w) \<and> holds_ok w"

definition work_live :: "work_state \<Rightarrow> string \<Rightarrow> nat \<Rightarrow> bool" where
  "work_live w sid h \<longleftrightarrow>
     (case map_of (sw_rows (snd w)) sid of
        None \<Rightarrow> False | Some r \<Rightarrow> wr_holder (get_row r (snd w)) = Some h)"

definition work_issued :: "work_state \<Rightarrow> nat \<Rightarrow> bool" where
  "work_issued w h \<longleftrightarrow> h < length (fst w)"

lemma work_live_pair:
  "work_live (ls, s) sid h \<longleftrightarrow> (\<exists>r. map_of (sw_rows s) sid = Some r \<and> wr_holder (get_row r s) = Some h)"
  by (simp add: work_live_def split: option.splits)

lemmas work_inv_defs = work_inv_def leases_ok_def rows_ok_def holds_ok_def

lemma work_invD:
  assumes "work_inv (ls, s)"
  shows "length ls = length (sw_holders s)"
    and "h < length ls \<Longrightarrow> wl_holder (ls ! h) = h"
    and "h < length ls \<Longrightarrow> wl_row (ls ! h) < length (sw_row_heap s)"
    and "h < length ls \<Longrightarrow> map_of (sw_rows s) sid = Some (wl_row (ls ! h)) \<Longrightarrow> sid = wl_session (ls ! h)"
    and "map_of (sw_rows s) sid = Some r \<Longrightarrow> r < length (sw_row_heap s)"
    and "map_of (sw_rows s) sid = Some r \<Longrightarrow> map_of (sw_rows s) sid' = Some r \<Longrightarrow> sid = sid'"
    and "r < length (sw_row_heap s) \<Longrightarrow> wr_holder (get_row r s) = Some h \<Longrightarrow> h < length ls"
    and "r < length (sw_row_heap s) \<Longrightarrow> wr_holder (get_row r s) = Some h \<Longrightarrow> wl_row (ls ! h) = r"
    and "r < length (sw_row_heap s) \<Longrightarrow> wr_holder (get_row r s) = Some h
          \<Longrightarrow> map_of (sw_rows s) (wl_session (ls ! h)) = Some r"
  using assms unfolding work_inv_defs prod.case snd_conv by blast+

lemma work_invI:
  assumes "length ls = length (sw_holders s)"
    and "\<And>h. h < length ls \<Longrightarrow> wl_holder (ls ! h) = h"
    and "\<And>h. h < length ls \<Longrightarrow> wl_row (ls ! h) < length (sw_row_heap s)"
    and "\<And>h sid. h < length ls \<Longrightarrow> map_of (sw_rows s) sid = Some (wl_row (ls ! h)) \<Longrightarrow> sid = wl_session (ls ! h)"
    and "\<And>sid r. map_of (sw_rows s) sid = Some r \<Longrightarrow> r < length (sw_row_heap s)"
    and "\<And>sid sid' r. map_of (sw_rows s) sid = Some r \<Longrightarrow> map_of (sw_rows s) sid' = Some r \<Longrightarrow> sid = sid'"
    and "\<And>r h. r < length (sw_row_heap s) \<Longrightarrow> wr_holder (get_row r s) = Some h
          \<Longrightarrow> h < length ls \<and> wl_row (ls ! h) = r \<and> map_of (sw_rows s) (wl_session (ls ! h)) = Some r"
  shows "work_inv (ls, s)"
  using assms unfolding work_inv_defs by simp_all

lemma work_inv_new: "work_inv ([], work_new ttl)"
  by (simp add: work_inv_defs work_new_def)

text \<open>The invariant reads the row table, the rows' holders and the number of holders only.\<close>

lemma work_inv_cong:
  assumes "work_inv (ls, s)" and "sw_rows s' = sw_rows s"
    and "map wr_holder (sw_row_heap s') = map wr_holder (sw_row_heap s)"
    and "length (sw_holders s') = length (sw_holders s)"
  shows "work_inv (ls, s')"
proof -
  have len: "length (sw_row_heap s') = length (sw_row_heap s)"
    using arg_cong [OF assms(3), of length] by simp
  have holder: "wr_holder (get_row r s') = wr_holder (get_row r s)" if "r < length (sw_row_heap s)" for r
    using arg_cong [OF assms(3), of "\<lambda>xs. xs ! r"] that len by (simp add: get_row_def)
  note D = work_invD [OF assms(1)]
  show ?thesis
  proof (rule work_invI)
    fix i h assume "i < length (sw_row_heap s')" "wr_holder (get_row i s') = Some h"
    then show "h < length ls \<and> wl_row (ls ! h) = i \<and> map_of (sw_rows s') (wl_session (ls ! h)) = Some i"
      using D(7-9) [of i h] holder [of i] assms(2) len by simp
  next
    fix k k' i assume "map_of (sw_rows s') k = Some i" "map_of (sw_rows s') k' = Some i"
    then show "k = k'" using D(6) [of k i k'] assms(2) by simp
  qed (simp_all add: D(1-5) assms(2,4) len)
qed

lemma heap_same_holder:
  assumes "wr_holder x = wr_holder (get_row r s)"
  shows "map wr_holder ((sw_row_heap s)[r := x]) = map wr_holder (sw_row_heap s)"
proof (cases "r < length (sw_row_heap s)")
  case True
  then have "(map wr_holder (sw_row_heap s))[r := wr_holder x] = map wr_holder (sw_row_heap s)"
    using assms by (simp add: get_row_def list_update_same_conv)
  then show ?thesis by (simp add: map_update)
qed (simp add: list_update_beyond)

lemma work_inv_put_row:
  "work_inv (ls, s) \<Longrightarrow> wr_holder x = wr_holder (get_row r s) \<Longrightarrow> work_inv (ls, put_row r x s)"
  by (erule work_inv_cong) (simp_all add: put_row_def heap_same_holder)

lemma work_inv_abort: "work_inv (ls, s) \<Longrightarrow> work_inv (ls, abort_holder h s)"
  by (erule work_inv_cong) (simp_all add: abort_holder_def)

lemma ensure_row_inv:
  assumes "work_inv (ls, s)" and "ensure_row sid s = (r, s1)"
  shows "work_inv (ls, s1) \<and> map_of (sw_rows s1) sid = Some r \<and> sw_holders s1 = sw_holders s \<and> sw_ttl s1 = sw_ttl s"
proof (cases "map_of (sw_rows s) sid")
  case (Some r')
  with assms show ?thesis by (simp add: ensure_row_def)
next
  case None
  note D = work_invD [OF assms(1)]
  have r: "r = length (sw_row_heap s)" and s1: "s1 = s\<lparr>sw_row_heap := sw_row_heap s @
      [\<lparr>wr_woken = False, wr_fence = 0, wr_holder = None\<rparr>], sw_rows := jset sid r (sw_rows s)\<rparr>"
    using assms(2) None by (auto simp: ensure_row_def)
  have get: "get_row i s1 = (if i < length (sw_row_heap s) then get_row i s
      else \<lparr>wr_woken = False, wr_fence = 0, wr_holder = None\<rparr>)" if "i < Suc (length (sw_row_heap s))" for i
    using that by (simp add: s1 get_row_def nth_append)
  have "work_inv (ls, s1)"
  proof (rule work_invI)
    fix h k assume h: "h < length ls" and k: "map_of (sw_rows s1) k = Some (wl_row (ls ! h))"
    then show "k = wl_session (ls ! h)"
      using D(3) [OF h] D(4) [OF h, of k] by (auto simp: s1 r split: if_splits)
  next
    fix k i assume "map_of (sw_rows s1) k = Some i"
    then show "i < length (sw_row_heap s1)"
      using D(5) [of k i] by (auto simp: s1 r split: if_splits)
  next
    fix k k' i assume "map_of (sw_rows s1) k = Some i" "map_of (sw_rows s1) k' = Some i"
    then show "k = k'"
      using D(5) [of k i] D(5) [of k' i] D(6) [of k i k'] by (auto simp: s1 r split: if_splits)
  next
    fix i h assume i: "i < length (sw_row_heap s1)" and "wr_holder (get_row i s1) = Some h"
    then have i': "i < length (sw_row_heap s)" and h: "wr_holder (get_row i s) = Some h"
      using get [of i] by (auto simp: s1 split: if_splits)
    show "h < length ls \<and> wl_row (ls ! h) = i \<and> map_of (sw_rows s1) (wl_session (ls ! h)) = Some i"
      using D(7-9) [OF i' h] None by (auto simp: s1)
  qed (simp_all add: D(1-3) s1 less_SucI)
  then show ?thesis by (simp add: s1)
qed

lemma work_take_inv:
  assumes "work_inv (ls, s)" and "map_of (sw_rows s) sid = Some r" and "work_take now sid r s = (l, s')"
  shows "work_inv (ls @ [l], s') \<and> wl_holder l = length ls \<and> wl_row l = r \<and> wl_session l = sid
    \<and> sw_rows s' = sw_rows s \<and> wr_holder (get_row r s') = Some (length ls)
    \<and> (\<forall>i. i \<noteq> r \<longrightarrow> get_row i s' = get_row i s)"
proof -
  note D = work_invD [OF assms(1)]
  let ?s1 = "case wr_holder (get_row r s) of None \<Rightarrow> s | Some h \<Rightarrow> abort_holder h s"
  have s1: "sw_rows ?s1 = sw_rows s" "sw_row_heap ?s1 = sw_row_heap s"
    "length (sw_holders ?s1) = length ls" "sw_ttl ?s1 = sw_ttl s"
    by (simp_all add: abort_holder_def D(1) split: option.splits)
  have r: "r < length (sw_row_heap s)" using D(5) assms(2) by blast
  have l: "wl_holder l = length ls" "wl_row l = r" "wl_session l = sid"
    and s': "sw_rows s' = sw_rows s" "length (sw_row_heap s') = length (sw_row_heap s)"
      "length (sw_holders s') = Suc (length ls)"
    and get: "wr_holder (get_row r s') = Some (length ls)" "\<And>i. i \<noteq> r \<Longrightarrow> get_row i s' = get_row i s"
    using assms(3) s1 r by (auto simp: work_take_def Let_def put_row_def get_row_def)
  have "work_inv (ls @ [l], s')"
  proof (rule work_invI)
    fix h k assume "h < length (ls @ [l])" and "map_of (sw_rows s') k = Some (wl_row ((ls @ [l]) ! h))"
    then show "k = wl_session ((ls @ [l]) ! h)"
      using D(4) [of h k] D(6) [of k r sid] assms(2) l s' by (auto simp: nth_append split: if_splits)
  next
    fix i h assume i: "i < length (sw_row_heap s')" and h: "wr_holder (get_row i s') = Some h"
    show "h < length (ls @ [l]) \<and> wl_row ((ls @ [l]) ! h) = i
        \<and> map_of (sw_rows s') (wl_session ((ls @ [l]) ! h)) = Some i"
    proof (cases "i = r")
      case True
      with h get l s' assms(2) show ?thesis by (simp add: nth_append)
    next
      case False
      with i h have "i < length (sw_row_heap s)" "wr_holder (get_row i s) = Some h"
        using get(2) s' by simp_all
      with D(7-9) show ?thesis by (auto simp: nth_append s' less_SucI)
    qed
  next
    fix k i assume "map_of (sw_rows s') k = Some i"
    then show "i < length (sw_row_heap s')" using D(5) [of k i] s' by simp
  next
    fix k k' i assume "map_of (sw_rows s') k = Some i" "map_of (sw_rows s') k' = Some i"
    then show "k = k'" using D(6) [of k i k'] s' by simp
  qed (use l s' r in \<open>auto simp: D(1-3) nth_append less_Suc_eq\<close>)
  with l s' get show ?thesis by simp
qed

lemma work_release_inv:
  assumes "work_inv (ls, s)" and "h < length ls"
  shows "work_inv (ls, work_release (ls ! h) s)"
proof -
  let ?l = "ls ! h"
  let ?s1 = "abort_holder (wl_holder ?l) s"
  have inv1: "work_inv (ls, ?s1)" using assms(1) by (rule work_inv_abort)
  show ?thesis
  proof (cases "mine ?l ?s1")
    case False
    with inv1 show ?thesis by (simp add: work_release_def Let_def)
  next
    case True
    note D = work_invD [OF inv1]
    have r: "wl_row ?l < length (sw_row_heap ?s1)" and hh: "wl_holder ?l = h"
      using D(2,3) [OF assms(2)] by simp_all
    have sess: "map_of (sw_rows ?s1) (wl_session ?l) = Some (wl_row ?l)"
      using D(9) [OF r] True hh by (simp add: mine_def)
    let ?s2 = "put_row (wl_row ?l) ((get_row (wl_row ?l) ?s1)\<lparr>wr_holder := None\<rparr>) ?s1"
    have get: "wr_holder (get_row i ?s2) = (if i = wl_row ?l then None else wr_holder (get_row i ?s1))"
      if "i < length (sw_row_heap ?s1)" for i
      using that r by (simp add: put_row_def get_row_def)
    have rows: "work_inv (ls, ?s2\<lparr>sw_rows := m\<rparr>)"
      if m: "m = sw_rows ?s1 \<or> m = jdelete (wl_session ?l) (sw_rows ?s1)" for m
    proof (rule work_invI)
      fix j k assume "j < length ls" "map_of (sw_rows (?s2\<lparr>sw_rows := m\<rparr>)) k = Some (wl_row (ls ! j))"
      then show "k = wl_session (ls ! j)" using m D(4) [of j k] by (auto split: if_splits)
    next
      fix k i assume "map_of (sw_rows (?s2\<lparr>sw_rows := m\<rparr>)) k = Some i"
      then show "i < length (sw_row_heap (?s2\<lparr>sw_rows := m\<rparr>))"
        using m D(5) [of k i] by (auto simp: put_row_def split: if_splits)
    next
      fix k k' i assume "map_of (sw_rows (?s2\<lparr>sw_rows := m\<rparr>)) k = Some i"
        "map_of (sw_rows (?s2\<lparr>sw_rows := m\<rparr>)) k' = Some i"
      then show "k = k'" using m D(6) [of k i k'] by (auto split: if_splits)
    next
      fix i j assume i: "i < length (sw_row_heap (?s2\<lparr>sw_rows := m\<rparr>))"
        and j: "wr_holder (get_row i (?s2\<lparr>sw_rows := m\<rparr>)) = Some j"
      have i': "i < length (sw_row_heap ?s1)" using i by (simp add: put_row_def)
      have j': "i \<noteq> wl_row ?l" "wr_holder (get_row i ?s1) = Some j"
        using j get [OF i'] by (auto simp: get_row_def split: if_splits)
      then show "j < length ls \<and> wl_row (ls ! j) = i
          \<and> map_of (sw_rows (?s2\<lparr>sw_rows := m\<rparr>)) (wl_session (ls ! j)) = Some i"
        using D(7-9) [OF i' j'(2)] m sess by auto
    qed (simp_all add: D(1-3) put_row_def)
    have "work_release ?l s = ?s2\<lparr>sw_rows := sw_rows ?s1\<rparr>
        \<or> work_release ?l s = ?s2\<lparr>sw_rows := jdelete (wl_session ?l) (sw_rows ?s1)\<rparr>"
      using True by (simp add: work_release_def Let_def put_row_def)
    with rows show ?thesis by metis
  qed
qed

section \<open>Steps and the lease contract\<close>

text \<open>Any node may append, claim or acquire; whoever holds a lease renews or releases it.\<close>

definition grant :: "work_lease list \<Rightarrow> work_lease option \<Rightarrow> work_lease list" where
  "grant ls l = (case l of None \<Rightarrow> ls | Some l \<Rightarrow> ls @ [l])"

inductive work_step :: "work_state \<Rightarrow> work_state \<Rightarrow> bool" where
  step_append: "work_step (ls, s) (ls, work_wake sid s)"
| step_claim: "work_claim now s = (l, s') \<Longrightarrow> work_step (ls, s) (grant ls l, s')"
| step_work_acquire: "work_acquire now sid s = (l, s') \<Longrightarrow> work_step (ls, s) (grant ls l, s')"
| step_work_renew: "h < length ls \<Longrightarrow> work_renew now (ls ! h) s = (res, s') \<Longrightarrow> work_step (ls, s) (ls, s')"
| step_work_release: "h < length ls \<Longrightarrow> work_step (ls, s) (ls, work_release (ls ! h) s)"

text \<open>Every step ends in a change that keeps the holders, in a take, or in a release.\<close>

lemma work_append_steps:
  "work_append app sid rec repo s = (res, repo', s') \<Longrightarrow>
     s' = s \<and> res \<noteq> Inr () \<and> repo' = repo \<or> work_step (ls, s) (ls, s') \<and> res = Inr ()"
  by (auto simp: work_append_def intro: step_append split: option.splits sum.splits)

lemma work_wake_inv:
  assumes "work_inv (ls, s)"
  shows "work_inv (ls, work_wake sid s)"
proof -
  obtain r s1 where e: "ensure_row sid s = (r, s1)" by (cases "ensure_row sid s")
  have "work_inv (ls, s1)" using ensure_row_inv [OF assms e] by simp
  then have "work_inv (ls, put_row r ((get_row r s1)\<lparr>wr_woken := True\<rparr>) s1)"
    by (rule work_inv_put_row) simp
  with e show ?thesis by (simp add: work_wake_def)
qed

lemma work_claim_inv:
  assumes "jmap_ok (sw_rows s)" and "work_inv (ls, s)" and "work_claim now s = (l, s')"
  shows "work_inv (grant ls l, s')"
proof (cases "find (\<lambda>(sid, r). claimable now s r) (sw_rows s)")
  case None
  with assms show ?thesis by (simp add: work_claim_def grant_def)
next
  case (Some p)
  obtain sid r where p: "p = (sid, r)" by (cases p)
  have "(sid, r) \<in> set (sw_rows s)"
    using Some p by (auto simp: find_Some_iff in_set_conv_nth)
  then have m: "map_of (sw_rows s) sid = Some r" using assms(1) by (simp add: jget_iff_mem)
  obtain l' s2 where t: "work_take now sid r s = (l', s2)" by (cases "work_take now sid r s")
  from work_take_inv [OF assms(2) m t] Some p t assms(3) show ?thesis
    by (auto simp: work_claim_def grant_def)
qed

lemma work_acquire_inv:
  assumes "work_inv (ls, s)" and "work_acquire now sid s = (l, s')"
  shows "work_inv (grant ls l, s')"
proof -
  obtain r s1 where e: "ensure_row sid s = (r, s1)" by (cases "ensure_row sid s")
  have i: "work_inv (ls, s1)" "map_of (sw_rows s1) sid = Some r" using ensure_row_inv [OF assms(1) e] by simp_all
  obtain l' s2 where t: "work_take now sid r s1 = (l', s2)" by (cases "work_take now sid r s1")
  from work_take_inv [OF i t] i e t assms(2) show ?thesis
    by (auto simp: work_acquire_def grant_def split: option.splits if_splits)
qed

lemma work_renew_inv:
  assumes "work_inv (ls, s)" and "work_renew now l s = (res, s')"
  shows "work_inv (ls, s')"
proof -
  have "work_inv (ls, s\<lparr>sw_holders := (sw_holders s)[h := x]\<rparr>)" for h x
    by (rule work_inv_cong [OF assms(1)]) simp_all
  then have "work_inv (ls, put_row r y (s\<lparr>sw_holders := (sw_holders s)[h := x]\<rparr>))"
    if "wr_holder y = wr_holder (get_row r s)" for r y h x
    by (rule work_inv_put_row) (simp add: that get_row_def)
  moreover have "work_inv (ls, abort_holder (wl_holder l) s)" using assms(1) by (rule work_inv_abort)
  ultimately show ?thesis
    using assms(2) by (auto simp: work_renew_def Let_def get_row_def split: if_splits)
qed

text \<open>The row table keeps distinct keys.\<close>

definition work_ok :: "work_state \<Rightarrow> bool" where
  "work_ok w \<longleftrightarrow> work_inv w \<and> jmap_ok (sw_rows (snd w))"

lemma rows_take: "sw_rows (snd (work_take now sid r s)) = sw_rows s"
  by (simp add: work_take_def Let_def put_row_def abort_holder_def split: option.splits)

lemma rows_ensure: "jmap_ok (sw_rows s) \<Longrightarrow> jmap_ok (sw_rows (snd (ensure_row sid s)))"
  by (auto simp: ensure_row_def split: option.splits)

lemma jmap_ok_step: "work_step w w' \<Longrightarrow> jmap_ok (sw_rows (snd w)) \<Longrightarrow> jmap_ok (sw_rows (snd w'))"
proof (induction rule: work_step.induct)
  case (step_append ls s sid)
  then show ?case
    using rows_ensure [of s sid] by (auto simp: work_wake_def put_row_def split: prod.splits)
next
  case (step_claim now s l s' ls)
  have "sw_rows s' = sw_rows s"
  proof (cases "find (\<lambda>(sid, r). claimable now s r) (sw_rows s)")
    case None
    with step_claim(1) show ?thesis by (simp add: work_claim_def)
  next
    case (Some p)
    obtain k r where p: "p = (k, r)" by (cases p)
    obtain l' s2 where t: "work_take now k r s = (l', s2)" by (cases "work_take now k r s")
    from rows_take [of now k r s] t step_claim(1) Some p show ?thesis by (simp add: work_claim_def)
  qed
  with step_claim show ?case by simp
next
  case (step_work_acquire now sid s l s' ls)
  obtain r s1 where e: "ensure_row sid s = (r, s1)" by (cases "ensure_row sid s")
  have "sw_rows s' = sw_rows s1"
    using step_work_acquire(1) e rows_take [of now sid r s1]
    by (auto simp: work_acquire_def split: option.splits prod.splits if_splits)
  then show ?case using rows_ensure [of s sid] e step_work_acquire by simp
next
  case (step_work_renew h ls now s res s')
  then show ?case
    by (auto simp: work_renew_def Let_def put_row_def abort_holder_def split: if_splits)
next
  case (step_work_release h ls s)
  then show ?case
    by (auto simp: work_release_def Let_def put_row_def abort_holder_def)
qed

lemma work_ok_step: "work_step w w' \<Longrightarrow> work_ok w \<Longrightarrow> work_ok w'"
proof (rule ccontr)
  assume a: "work_step w w'" "work_ok w" "\<not> work_ok w'"
  then have "work_inv w'"
    by (induction rule: work_step.induct)
      (auto simp: work_ok_def intro: work_wake_inv work_claim_inv work_acquire_inv work_renew_inv work_release_inv)
  with a jmap_ok_step [OF a(1)] show False by (simp add: work_ok_def)
qed

text \<open>No operation gives an old lease its row back.\<close>

lemma live_take:
  assumes "work_inv (ls, s)" and "map_of (sw_rows s) k = Some r" and "work_take now k r s = (l, s')"
    and "h < length ls" and "work_live (ls', s') sid h"
  shows "work_live (ls, s) sid h"
proof -
  note T = work_take_inv [OF assms(1-3)]
  obtain i where i: "map_of (sw_rows s) sid = Some i" "wr_holder (get_row i s') = Some h"
    using assms(5) T by (auto simp: work_live_def split: option.splits)
  then have "i \<noteq> r" using T assms(4) by auto
  with T i show ?thesis by (simp add: work_live_def)
qed

lemma live_ensure:
  assumes "work_inv (ls, s)" and "ensure_row k s = (r, s1)" and "work_live (ls', s1) sid h"
  shows "work_live (ls, s) sid h"
proof (cases "map_of (sw_rows s) k")
  case None
  have "i < length (sw_row_heap s)" if "map_of (sw_rows s) sid = Some i" for i
    using work_invD(5) [OF assms(1) that] .
  with None assms(2,3) show ?thesis
    by (auto simp: ensure_row_def work_live_def get_row_def nth_append split: option.splits if_splits)
next
  case (Some i)
  with assms(2,3) show ?thesis by (simp add: ensure_row_def work_live_pair)
qed

lemma live_cong:
  assumes "sw_rows s' = sw_rows s" and "map wr_holder (sw_row_heap s') = map wr_holder (sw_row_heap s)"
    and "work_inv (ls, s)"
  shows "work_live (ls', s') sid h \<longleftrightarrow> work_live (ls, s) sid h"
proof -
  have len: "length (sw_row_heap s') = length (sw_row_heap s)"
    using arg_cong [OF assms(2), of length] by simp
  have "wr_holder (get_row r s') = wr_holder (get_row r s)" if "map_of (sw_rows s) sid = Some r" for r
    using arg_cong [OF assms(2), of "\<lambda>xs. xs ! r"] work_invD(5) [OF assms(3) that] len
    by (simp add: get_row_def)
  then show ?thesis using assms(1) by (auto simp: work_live_def split: option.splits)
qed

lemma live_release:
  assumes "work_live (ls, work_release l s) sid h"
  shows "work_live (ls, s) sid h"
proof -
  have "wr_holder (get_row r (put_row q (x\<lparr>wr_holder := None\<rparr>) t)) = Some h \<Longrightarrow> wr_holder (get_row r t) = Some h" for r q x t
    by (cases "r = q"; cases "q < length (sw_row_heap t)")
      (simp_all add: put_row_def get_row_def list_update_beyond)
  then show ?thesis
    using assms
    by (auto simp: work_live_def work_release_def Let_def abort_holder_def get_row_def put_row_def
        split: option.splits if_splits)
qed

lemma live_put_row:
  assumes "work_inv (ls, s)" and "wr_holder x = wr_holder (get_row r s)"
  shows "work_live (ls', put_row r x s) sid h \<longleftrightarrow> work_live (ls, s) sid h"
  by (rule live_cong [OF _ _ assms(1)]) (simp_all add: put_row_def heap_same_holder assms(2))

lemma work_no_revival:
  assumes "work_ok w" and "work_step w w'" and "work_issued w h" and "work_live w' sid h"
  shows "work_live w sid h"
  using assms(2,1,3,4)
proof (induction rule: work_step.induct)
  case (step_append ls s k)
  obtain r s1 where e: "ensure_row k s = (r, s1)" by (cases "ensure_row k s")
  have i: "work_inv (ls, s)" using step_append by (simp add: work_ok_def)
  have i1: "work_inv (ls, s1)" using ensure_row_inv [OF i e] by simp
  show ?case
    using step_append e live_ensure [OF i e] live_put_row [OF i1] by (auto simp: work_wake_def)
next
  case (step_claim now s l s' ls)
  show ?case
  proof (cases "find (\<lambda>(sid, r). claimable now s r) (sw_rows s)")
    case None
    with step_claim show ?thesis by (auto simp: work_claim_def work_live_def split: option.splits)
  next
    case (Some p)
    obtain k r where p: "p = (k, r)" by (cases p)
    have "(k, r) \<in> set (sw_rows s)" using Some p by (auto simp: find_Some_iff in_set_conv_nth)
    then have m: "map_of (sw_rows s) k = Some r"
      using step_claim.prems(1) by (simp add: work_ok_def jget_iff_mem)
    obtain l' s2 where t: "work_take now k r s = (l', s2)" by (cases "work_take now k r s")
    have "s' = s2" using step_claim.hyps Some p t by (simp add: work_claim_def)
    with step_claim.prems show ?thesis
      using live_take [OF _ m t] by (auto simp: work_ok_def work_issued_def)
  qed
next
  case (step_work_acquire now k s l s' ls)
  obtain r s1 where e: "ensure_row k s = (r, s1)" by (cases "ensure_row k s")
  have i: "work_inv (ls, s)" using step_work_acquire by (simp add: work_ok_def)
  have i1: "work_inv (ls, s1)" and m: "map_of (sw_rows s1) k = Some r"
    using ensure_row_inv [OF i e] by simp_all
  obtain l' s2 where t: "work_take now k r s1 = (l', s2)" by (cases "work_take now k r s1")
  have h: "h < length ls" using step_work_acquire by (simp add: work_issued_def)
  have "s' = s1 \<or> s' = s2"
    using step_work_acquire.hyps e t by (auto simp: work_acquire_def split: option.splits if_splits)
  then show ?case
    using step_work_acquire.prems live_take [OF i1 m t h] live_ensure [OF i e] by blast
next
  case (step_work_renew j ls now s res s')
  let ?l = "ls ! j"
  have i: "work_inv (ls, s)" using step_work_renew by (simp add: work_ok_def)
  have "sw_rows s' = sw_rows s \<and> map wr_holder (sw_row_heap s') = map wr_holder (sw_row_heap s)"
    using step_work_renew.hyps(2) heap_same_holder [of _ "wl_row ?l" s]
    by (auto simp: work_renew_def Let_def put_row_def abort_holder_def get_row_def split: if_splits)
  then show ?case using live_cong [of s' s ls ls] i step_work_renew.prems by blast
next
  case (step_work_release j ls s)
  then show ?case by (blast dest: live_release)
qed

lemma grant_length: "length ls \<le> length (grant ls l)"
  by (simp add: grant_def split: option.splits)

interpretation work: lease_table work_ok work_step work_issued work_live
proof unfold_locales
  fix w l w'
  assume "work_issued w l" "work_step w w'"
  then show "work_issued w' l"
    by (cases rule: work_step.cases [OF \<open>work_step w w'\<close>])
      (auto simp: work_issued_def intro: less_le_trans [OF _ grant_length])
next
  fix w l sid
  assume ok: "work_ok w" and "work_live w sid l"
  then obtain r where r: "map_of (sw_rows (snd w)) sid = Some r" "wr_holder (get_row r (snd w)) = Some l"
    by (auto simp: work_live_def split: option.splits)
  then show "work_issued w l"
    using work_invD(5,7) [of "fst w" "snd w"] ok by (auto simp: work_ok_def work_issued_def)
next
  fix w w' l sid
  assume "work_ok w" "work_step w w'" "work_issued w l" "work_live w' sid l"
  then show "work_live w sid l" by (rule work_no_revival)
next
  fix w w'
  assume "work_ok w" "work_step w w'"
  then show "work_ok w'" using work_ok_step by blast
qed (auto simp: work_live_def split: option.splits)

definition work_reachable :: "work_state \<Rightarrow> bool" where
  "work_reachable w \<longleftrightarrow> (\<exists>ttl. work_step\<^sup>*\<^sup>* ([], work_new ttl) w)"

lemma work_reachable_ok: "work_reachable w \<Longrightarrow> work_ok w"
proof -
  assume "work_reachable w"
  then obtain ttl where run: "work_step\<^sup>*\<^sup>* ([], work_new ttl) w" by (auto simp: work_reachable_def)
  have "work_ok ([], work_new ttl)"
    using work_inv_new [of ttl] by (simp add: work_ok_def work_new_def)
  with run show ?thesis by (rule work.inv_run)
qed

section \<open>What the table promises\<close>

lemma renew_lost_unless_live:
  assumes "work_ok (ls, s)" and "h < length ls" and "\<not> work_live (ls, s) (wl_session (ls ! h)) h"
  shows "fst (work_renew now (ls ! h) s) = Lost"
proof -
  have inv: "work_inv (ls, s)" using assms(1) by (simp add: work_ok_def)
  note D = work_invD [OF inv]
  have "\<not> mine (ls ! h) s"
    using D(2,3) [OF assms(2)] D(9) [of "wl_row (ls ! h)" h] assms(3)
    by (auto simp: mine_def work_live_pair)
  then show ?thesis by (simp add: work_renew_def Let_def)
qed

text \<open>
  Two workers never run one session: once a later lease of the session has been granted, every
  renewal of an earlier one answers \<open>Lost\<close>, whatever is appended, claimed, renewed or released in
  between.
\<close>

theorem superseded_worker_is_told:
  assumes "work_reachable (ls, s)" and "work_live (ls, s) sid h"
    and "work_step\<^sup>*\<^sup>* (ls, s) (ls', s')" and "work_live (ls', s') sid h'" and "h' \<noteq> h"
    and "work_step\<^sup>*\<^sup>* (ls', s') (ls'', s'')"
  shows "fst (work_renew now (ls'' ! h) s'') = Lost"
proof -
  have ok: "work_ok (ls, s)" using assms(1) by (rule work_reachable_ok)
  have run: "work_step\<^sup>*\<^sup>* (ls, s) (ls'', s'')" using assms(3,6) by (rule rtranclp_trans)
  have ok'': "work_ok (ls'', s'')" using work.inv_run [OF run ok] .
  have iss: "work_issued (ls, s) h" using ok assms(2) by (rule work.live_issued)
  have "work_issued (ls'', s'') h" using work.issued_run [OF run iss] .
  then have h: "h < length ls''" by (simp add: work_issued_def)
  have dead: "\<not> work_live (ls'', s'') sid h"
    by (rule work.superseded [OF ok assms(2-5) assms(6)])
  have "\<not> work_live (ls'', s'') (wl_session (ls'' ! h)) h"
  proof
    assume a: "work_live (ls'', s'') (wl_session (ls'' ! h)) h"
    have "work_live (ls, s) (wl_session (ls'' ! h)) h"
      using work.stale_forever [OF run ok iss] a by blast
    then have "wl_session (ls'' ! h) = sid"
      using assms(2) ok work_invD(5,6,8) [of ls s] unfolding work_ok_def work_live_pair by metis
    with a dead show False by simp
  qed
  with renew_lost_unless_live [OF ok'' h] show ?thesis by simp
qed

theorem superseded_worker_is_told_witness:
  "fst (work_renew 25 \<lparr>wl_session = ''a'', wl_row = 0, wl_holder = 0, wl_fence = 1\<rparr>
      (snd (work_acquire 20 ''a'' (snd (work_acquire 0 ''a'' (work_new (Some 10))))))) = Lost"
proof -
  let ?s = "snd (work_acquire 0 ''a'' (work_new (Some 10)))"
  let ?t = "snd (work_acquire 20 ''a'' ?s)"
  let ?l0 = "\<lparr>wl_session = ''a'', wl_row = 0, wl_holder = 0, wl_fence = 1\<rparr>"
  let ?l1 = "\<lparr>wl_session = ''a'', wl_row = 0, wl_holder = 1, wl_fence = 2\<rparr>"
  have a: "work_acquire 0 ''a'' (work_new (Some 10)) = (Some ?l0, ?s)" by (simp add: work_defs Let_def)
  have b: "work_acquire 20 ''a'' ?s = (Some ?l1, ?t)" by (simp add: work_defs Let_def)
  have sa: "work_step ([], work_new (Some 10)) ([?l0], ?s)"
    using step_work_acquire [OF a, of "[]"] by (simp add: grant_def)
  have sb: "work_step ([?l0], ?s) ([?l0, ?l1], ?t)"
    using step_work_acquire [OF b, of "[?l0]"] by (simp add: grant_def)
  have r: "work_reachable ([?l0], ?s)" using sa by (auto simp: work_reachable_def)
  have l0: "work_live ([?l0], ?s) ''a'' 0" by (simp add: work_live_pair work_defs Let_def)
  have l1: "work_live ([?l0, ?l1], ?t) ''a'' 1" by (simp add: work_live_pair work_defs Let_def)
  have run: "work_step\<^sup>*\<^sup>* ([?l0], ?s) ([?l0, ?l1], ?t)" using sb by simp
  from superseded_worker_is_told [OF r l0 run l1 _ rtranclp.rtrancl_refl, of 25] show ?thesis by simp
qed

lemma wake_delivered:
  assumes "work_reachable (ls, s)"
    and "work_append app sid rec repo s = (Inr (), repo', s')"
  shows "work_live (ls, s) sid h \<Longrightarrow> now \<le> wh_until (sw_holders s ! h)
      \<Longrightarrow> fst (work_renew now (ls ! h) s') = Woken"
    and "\<forall>h. \<not> work_live (ls, s) sid h \<Longrightarrow> fst (work_claim now s') \<noteq> None"
proof -
  have ok: "work_ok (ls, s)" using assms(1) by (rule work_reachable_ok)
  then have inv: "work_inv (ls, s)" by (simp add: work_ok_def)
  have s': "s' = work_wake sid s" using assms(2) by (auto simp: work_append_def split: option.splits sum.splits)
  obtain r s1 where e: "ensure_row sid s = (r, s1)" by (cases "ensure_row sid s")
  have E: "work_inv (ls, s1)" "map_of (sw_rows s1) sid = Some r" "sw_holders s1 = sw_holders s"
    using ensure_row_inv [OF inv e] by simp_all
  have r: "r < length (sw_row_heap s1)" using work_invD(5) [OF E(1,2)] .
  have row': "get_row r s' = (get_row r s1)\<lparr>wr_woken := True\<rparr>" "sw_rows s' = sw_rows s1"
    "sw_holders s' = sw_holders s"
    using e r E(3) by (simp_all add: s' work_wake_def put_row_def get_row_def)
  {
    assume live: "work_live (ls, s) sid h" and t: "now \<le> wh_until (sw_holders s ! h)"
    have rr: "map_of (sw_rows s) sid = Some r" "s1 = s" "wr_holder (get_row r s) = Some h"
      using live e by (auto simp: work_live_pair ensure_row_def)
    have r0: "r < length (sw_row_heap s)" using work_invD(5) [OF inv rr(1)] .
    have "wl_row (ls ! h) = r" "wl_holder (ls ! h) = h"
      using work_invD(8) [OF inv r0 rr(3)] work_invD(2) [OF inv work_invD(7) [OF inv r0 rr(3)]] by simp_all
    then show "fst (work_renew now (ls ! h) s') = Woken"
      using row' rr t r by (simp add: work_renew_def Let_def mine_def get_row_def)
  }
  {
    assume none: "\<forall>h. \<not> work_live (ls, s) sid h"
    have "wr_holder (get_row r s1) = None"
      using none e by (cases "map_of (sw_rows s) sid")
        (auto simp: ensure_row_def work_live_pair get_row_def)
    then have "claimable now s' r" using row' by (simp add: claimable_def Let_def)
    moreover have "(sid, r) \<in> set (sw_rows s')" using E(2) row' by (simp add: map_of_SomeD)
    ultimately have "find (\<lambda>(sid, r). claimable now s' r) (sw_rows s') \<noteq> None"
      by (auto simp: find_None_iff)
    then show "fst (work_claim now s') \<noteq> None"
      by (auto simp: work_claim_def split: option.splits prod.splits)
  }
qed

text \<open>
  An appended input reaches a worker: the holder of a live lease learns of it at its next
  renewal, and when nobody holds the session the next claim finds work.
\<close>

theorem wake_reaches_a_worker:
  assumes "work_reachable (ls, s)"
    and "work_append app sid rec repo s = (Inr (), repo', s')"
  shows "(\<forall>h. work_live (ls, s) sid h \<and> now \<le> wh_until (sw_holders s ! h)
            \<longrightarrow> fst (work_renew now (ls ! h) s') = Woken)
    \<and> ((\<forall>h. \<not> work_live (ls, s) sid h) \<longrightarrow> fst (work_claim now s') \<noteq> None)"
  using wake_delivered [OF assms] by blast

theorem wake_reaches_a_worker_witness:
  "fst (work_claim 5 (snd (snd (work_append (\<lambda>_ _ r. Some (Inr r :: nat + nat)) ''a'' True 0 (work_new None))))) \<noteq> None"
proof -
  have r: "work_reachable ([], work_new None)" by (auto simp: work_reachable_def)
  have a: "work_append (\<lambda>_ _ r. Some (Inr r :: nat + nat)) ''a'' True 0 (work_new None)
      = (Inr (), 0, work_wake ''a'' (work_new None))"
    by (simp add: work_append_def)
  have n: "\<forall>h. \<not> work_live ([], work_new None) ''a'' h" by (simp add: work_live_pair work_new_def)
  from wake_reaches_a_worker [OF r a, of 5] n show ?thesis by (simp add: a)
qed

text \<open>A release keeps a wake that arrived meanwhile: the row stays and stays woken.\<close>

lemma release_keeps_wake:
  assumes "work_ok (ls, s)" and "h < length ls" and "map_of (sw_rows s) sid = Some r"
    and "wr_woken (get_row r s)"
  shows "map_of (sw_rows (work_release (ls ! h) s)) sid = Some r
    \<and> wr_woken (get_row r (work_release (ls ! h) s))"
proof -
  let ?l = "ls ! h"
  have inv: "work_inv (ls, s)" using assms(1) by (simp add: work_ok_def)
  note D = work_invD [OF inv]
  have "sid = wl_session ?l" if "r = wl_row ?l" using D(4) [OF assms(2)] assms(3) that by simp
  moreover have "map_of (sw_rows s) (wl_session ?l) = Some (wl_row ?l)" if "mine ?l s"
    using D(3,2) [OF assms(2)] D(9) [of "wl_row ?l" h] that by (simp add: mine_def)
  ultimately show ?thesis
    using assms(3,4) D(3) [OF assms(2)]
    by (auto simp: work_release_def Let_def abort_holder_def mine_def put_row_def get_row_def nth_list_update)
qed

text \<open>
  The fence of the in-memory table starts again at 1 after a release: the row, and its counter
  with it, is deleted when it is not woken. A lease granted later then carries the same fence as
  the released one, where the durable table keeps counting.
\<close>

theorem memory_fence_restarts_after_release:
  "\<exists>l l' s s'. work_acquire 0 sid (work_new ttl) = (Some l, s)
     \<and> work_acquire 1 sid (work_release l s) = (Some l', s') \<and> wl_holder l' \<noteq> wl_holder l
     \<and> wl_fence l = 1 \<and> wl_fence l' = 1"
  by (simp add: work_defs Let_def split: option.splits)

end
