(* ===== verification/Conversation.thy ===== *)
theory Conversation
  imports Interruption
begin

text \<open>
  The conversation of one frame and its log: the records of the append log and their reduction
  (\<open>agents-core/src/store/store.ts\<close>: \<open>foldAppend\<close>, \<open>foldReplace\<close>, \<open>foldCompaction\<close>,
  \<open>foldCompactionRecord\<close>, \<open>reduceHistory\<close>), the live history that journals every change
  (\<open>agents-core/src/loop/context.ts\<close>, \<open>ConversationContext\<close>), the provenance of messages
  (\<open>store/origin.ts\<close>) and the tool definitions a history holds
  (\<open>agents-core/src/tool/search/loaded.ts\<close>).

  Live messages are objects: the code keys provenance by object identity (a \<open>WeakMap\<close>), so a live
  message is a pair of an identity and its value. Times are arguments. Records that never enter
  the history keep their type and, where a reader needs it, their payload.
\<close>

section \<open>Provenance\<close>

datatype meta_value = MetaStr string | MetaNum int | MetaBool bool | MetaNull

type_synonym metadata = "(string, meta_value) jsmap"

record loaded_tool =
  lt_source :: string
  lt_name :: string
  lt_description :: string
  lt_parameters :: json

record catalog_entry =
  ce_name :: string
  ce_source :: string
  ce_fingerprint :: string

datatype prompt_origin =
    OriginUser (user_steer: "string option")
  | OriginUserFollowUp "string option"
  | OriginInjection "string option" string
  | OriginBackgroundTask string "string option" "string option" "string option" "string option"
  | OriginExtension string "metadata option" "string option"
  | OriginCronJob string string bool nat bool "string option"
  | OriginCronMissed nat "string option"
  | OriginCompactionSummary "loaded_tool list option"
  | OriginToolCatalogDelta "catalog_entry list" "string list"
  | OriginHandoffSeed string string
  | OriginExternal string "string option" "metadata option" "string option"

section \<open>Records\<close>

datatype steer_channel = Steering | FollowUp

datatype turn_end = TurnCompleted | TurnCancelled | TurnFailed

datatype lifecycle_event =
    AgentStarted string "string option"
  | AgentEnded string
  | TurnStarted string "prompt_origin option"
  | TurnEnded string turn_end "string option"
  | TurnPaused "pending_run_interrupt list"
  | SteerQueued string steer_channel prompt_origin message
  | ToolDetachable string string
  | ToolSuspended string string "json option"

record compaction_record =
  cr_summary :: string
  cr_timestamp :: nat
  cr_kept :: "message list"
  cr_kept_origins :: "prompt_origin option list option"
  cr_compacted_count :: nat
  cr_tokens_before :: nat
  cr_tokens_after :: nat
  cr_loaded_tools :: "loaded_tool list option"

datatype record_body =
    RecMetadata nat nat
  | RecAppendMessage message "prompt_origin option"
  | RecReplace "message list" "prompt_origin option list option"
  | RecApplyCompaction compaction_record
  | RecCustomMessage "content_part list" "prompt_origin option"
  | RecUsage usage "usage option"
  | RecApproval string string
  | RecSetMode string
  | RecHandoff string string
  | RecHandoffAccepted string string
  | RecGuardrailBlocked string string
  | RecLifecycle lifecycle_event
  | RecCustom string json

record agent_record =
  rec_time :: "nat option"
  rec_address :: "string option"
  rec_body :: record_body

definition default_address :: string where
  "default_address = ''main''"

definition address_of :: "agent_record \<Rightarrow> string" where
  "address_of r = (case rec_address r of Some a \<Rightarrow> a | None \<Rightarrow> default_address)"

fun is_checkpoint :: "record_body \<Rightarrow> bool" where
  "is_checkpoint (RecReplace _ _) = True"
| "is_checkpoint (RecApplyCompaction _) = True"
| "is_checkpoint _ = False"

section \<open>Folding records into history\<close>

record history_fold =
  hf_messages :: "message list"
  hf_origins :: "prompt_origin option list"

definition empty_fold :: history_fold where
  "empty_fold = \<lparr>hf_messages = [], hf_origins = []\<rparr>"

definition summary_message :: "string \<Rightarrow> nat \<Rightarrow> message" where
  "summary_message summary timestamp =
     UserMsg \<lparr>um_content = [TextPart (''<context-summary>'' @ [CHR 0x0A] @ summary @ [CHR 0x0A] @ ''</context-summary>'')],
       um_timestamp = timestamp\<rparr>"

definition custom_message :: "content_part list \<Rightarrow> nat \<Rightarrow> message" where
  "custom_message content timestamp = UserMsg \<lparr>um_content = content, um_timestamp = timestamp\<rparr>"

definition compaction_summary_origin :: "loaded_tool list option \<Rightarrow> prompt_origin" where
  "compaction_summary_origin loaded =
     (case loaded of
        Some (t # ts) \<Rightarrow> OriginCompactionSummary (Some (t # ts))
      | _ \<Rightarrow> OriginCompactionSummary None)"

definition fold_append :: "message \<Rightarrow> prompt_origin option \<Rightarrow> history_fold \<Rightarrow> history_fold" where
  "fold_append m origin st = st\<lparr>hf_messages := hf_messages st @ [m], hf_origins := hf_origins st @ [origin]\<rparr>"

text \<open>The origins are cut to the number of messages, then padded.\<close>

definition fold_replace :: "message list \<Rightarrow> prompt_origin option list option \<Rightarrow> history_fold \<Rightarrow> history_fold" where
  "fold_replace messages origins st =
     (let next = (case origins of Some os \<Rightarrow> os | None \<Rightarrow> map (\<lambda>_. None) messages);
          cut = take (length messages) next
      in st\<lparr>hf_messages := messages, hf_origins := cut @ replicate (length messages - length cut) None\<rparr>)"

definition fold_compaction :: "nat \<Rightarrow> string \<Rightarrow> nat \<Rightarrow> loaded_tool list option \<Rightarrow> history_fold \<Rightarrow> history_fold" where
  "fold_compaction cutoff summary timestamp loaded st =
     (let clamped = min cutoff (length (hf_messages st)) in
      st\<lparr>hf_messages := summary_message summary timestamp # drop clamped (hf_messages st),
         hf_origins := Some (compaction_summary_origin loaded) # drop clamped (hf_origins st)\<rparr>)"

definition fold_compaction_record :: "compaction_record \<Rightarrow> history_fold \<Rightarrow> history_fold" where
  "fold_compaction_record c st =
     fold_replace (summary_message (cr_summary c) (cr_timestamp c) # cr_kept c)
       (Some (Some (compaction_summary_origin (cr_loaded_tools c))
          # (case cr_kept_origins c of Some os \<Rightarrow> os | None \<Rightarrow> map (\<lambda>_. None) (cr_kept c)))) st"

text \<open>One record; \<open>now\<close> stamps a host-injected message whose record has no time.\<close>

definition fold_record :: "nat \<Rightarrow> agent_record \<Rightarrow> history_fold \<Rightarrow> history_fold" where
  "fold_record now r st =
     (case rec_body r of
        RecAppendMessage m origin \<Rightarrow> fold_append m origin st
      | RecCustomMessage content origin \<Rightarrow>
          fold_append (custom_message content (case rec_time r of Some t \<Rightarrow> t | None \<Rightarrow> now)) origin st
      | RecReplace messages origins \<Rightarrow> fold_replace messages origins st
      | RecApplyCompaction c \<Rightarrow> fold_compaction_record c st
      | _ \<Rightarrow> st)"

definition reduce_history :: "nat \<Rightarrow> agent_record list \<Rightarrow> history_fold" where
  "reduce_history now records = fold (fold_record now) records empty_fold"

section \<open>Tool definitions in a history\<close>

text \<open>What \<open>loadedToolSchemas\<close> reads of a conversation: each message with its provenance.\<close>

type_synonym history_view = "(message \<times> prompt_origin option) list"

definition search_tool_name :: string where
  "search_tool_name = ''SearchTool''"

text \<open>\<open>typeof v === "object"\<close> for a value that is not \<open>null\<close>.\<close>

fun is_json_object :: "json \<Rightarrow> bool" where
  "is_json_object (JObj _) = True"
| "is_json_object (JArr _) = True"
| "is_json_object _ = False"

fun loaded_schema_of :: "json \<Rightarrow> loaded_tool option" where
  "loaded_schema_of (JObj entry) =
     (case (map_of entry ''sourceName'', map_of entry ''schema'') of
        (Some (JStr source), Some (JObj schema)) \<Rightarrow>
          (case (map_of schema ''name'', map_of schema ''description'', map_of schema ''parameters'') of
             (Some (JStr name), Some (JStr description), Some parameters) \<Rightarrow>
               if is_json_object parameters
               then Some \<lparr>lt_source = source, lt_name = name, lt_description = description, lt_parameters = parameters\<rparr>
               else None
           | _ \<Rightarrow> None)
      | _ \<Rightarrow> None)"
| "loaded_schema_of _ = None"

definition load_point_entries :: "message \<times> prompt_origin option \<Rightarrow> loaded_tool list" where
  "load_point_entries mo =
     (case fst mo of
        UserMsg _ \<Rightarrow>
          (case snd mo of
             Some (OriginCompactionSummary (Some tools)) \<Rightarrow> filter (\<lambda>t. is_json_object (lt_parameters t)) tools
           | _ \<Rightarrow> [])
      | ToolResultMsg r \<Rightarrow>
          if tm_tool_name r = search_tool_name \<and> \<not> tm_is_error r
          then (case Option.bind (tm_details r) (json_field ''deferredToolSchemas'') of
                  Some (JArr entries) \<Rightarrow> List.map_filter loaded_schema_of entries
                | _ \<Rightarrow> [])
          else []
      | _ \<Rightarrow> [])"

definition add_loaded :: "loaded_tool \<Rightarrow> (string, loaded_tool) jsmap \<Rightarrow> (string, loaded_tool) jsmap" where
  "add_loaded e loaded = (if map_of loaded (lt_name e) = None then jset (lt_name e) e loaded else loaded)"

definition loaded_tool_schemas :: "history_view \<Rightarrow> (string, loaded_tool) jsmap" where
  "loaded_tool_schemas history = fold (\<lambda>mo. fold add_loaded (load_point_entries mo)) history []"

definition called_tools :: "history_view \<Rightarrow> string list" where
  "called_tools history =
     concat (map (\<lambda>mo. case fst mo of AssistantMsg a \<Rightarrow> map tc_name (assistant_tool_calls a) | _ \<Rightarrow> []) history)"

definition loaded_tools_for_compaction :: "history_view \<Rightarrow> nat \<Rightarrow> loaded_tool list" where
  "loaded_tools_for_compaction history cutoff =
     (let loaded = loaded_tool_schemas (take cutoff history) in
      filter (\<lambda>e. lt_name e \<in> set (called_tools (drop cutoff history))) (jvalues loaded))"

text \<open>
  What the model provider sees: each load point is followed, after its whole batch of tool
  results, by a declaration of the definitions it loaded (its timestamp, the load point's, is
  not kept).
\<close>

datatype projected_message = Plain message | ToolsAdded "loaded_tool list"

definition is_tool_result :: "message \<Rightarrow> bool" where
  "is_tool_result m = (case m of ToolResultMsg _ \<Rightarrow> True | _ \<Rightarrow> False)"

definition flush_pending :: "loaded_tool list option \<Rightarrow> projected_message list" where
  "flush_pending p = (case p of Some tools \<Rightarrow> [ToolsAdded tools] | None \<Rightarrow> [])"

text \<open>The rest of the history, given the names seen so far and the declaration not yet written.\<close>

fun project_loads :: "history_view \<Rightarrow> string set \<Rightarrow> loaded_tool list option \<Rightarrow> projected_message list" where
  "project_loads [] seen pending = flush_pending pending"
| "project_loads (mo # rest) seen pending =
     (let flushed = (if is_tool_result (fst mo) then [] else flush_pending pending);
          still = (if is_tool_result (fst mo) then pending else None);
          new_tools = filter (\<lambda>e. lt_name e \<notin> seen) (load_point_entries mo);
          pending' = (if new_tools = [] then still
                      else case still of Some tools \<Rightarrow> Some (tools @ new_tools) | None \<Rightarrow> Some new_tools)
      in flushed @ Plain (fst mo) # project_loads rest (seen \<union> lt_name ` set new_tools) pending')"

definition with_tool_loads :: "history_view \<Rightarrow> string set \<Rightarrow> projected_message list" where
  "with_tool_loads history declared = project_loads history declared None"

section \<open>The live conversation\<close>

text \<open>
  A live message is an object: its identity and its value. \<open>cx_log\<close> is the session's log, which
  other contexts write to as well; a store write that fails leaves no record there and its error
  in \<open>cx_write_errors\<close>.
\<close>

type_synonym live_message = "nat \<times> message"

record conversation_context =
  cx_history :: "live_message list"
  cx_origins :: "(nat, prompt_origin) jsmap"
  cx_address :: string
  cx_log :: "agent_record list"
  cx_write_errors :: "string list"

definition origin_of :: "conversation_context \<Rightarrow> live_message \<Rightarrow> prompt_origin option" where
  "origin_of cx lm = map_of (cx_origins cx) (fst lm)"

definition view_of :: "conversation_context \<Rightarrow> history_view" where
  "view_of cx = map (\<lambda>lm. (snd lm, origin_of cx lm)) (cx_history cx)"

definition set_origin :: "live_message \<Rightarrow> prompt_origin option \<Rightarrow> conversation_context \<Rightarrow> conversation_context" where
  "set_origin lm origin cx =
     (case origin of Some os \<Rightarrow> cx\<lparr>cx_origins := jset (fst lm) os (cx_origins cx)\<rparr> | None \<Rightarrow> cx)"

text \<open>\<open>journal\<close>: the time and the outcome of the store's write are arguments.\<close>

definition journal :: "nat \<Rightarrow> string option \<Rightarrow> record_body \<Rightarrow> conversation_context \<Rightarrow> conversation_context" where
  "journal now outcome body cx =
     (case outcome of
        None \<Rightarrow> cx\<lparr>cx_log := cx_log cx @ [\<lparr>rec_time = Some now, rec_address = Some (cx_address cx), rec_body = body\<rparr>]\<rparr>
      | Some err \<Rightarrow> cx\<lparr>cx_write_errors := cx_write_errors cx @ [err]\<rparr>)"

definition append_message ::
  "nat \<Rightarrow> string option \<Rightarrow> live_message \<Rightarrow> prompt_origin option \<Rightarrow> conversation_context \<Rightarrow> conversation_context" where
  "append_message now outcome lm origin cx =
     journal now outcome (RecAppendMessage (snd lm) origin)
       (set_origin lm origin (cx\<lparr>cx_history := cx_history cx @ [lm]\<rparr>))"

definition origins_if_any :: "prompt_origin option list \<Rightarrow> prompt_origin option list option" where
  "origins_if_any os = (if \<exists>x \<in> set os. x \<noteq> None then Some os else None)"

text \<open>\<open>applyCompaction\<close>: \<open>sid\<close> is the identity of the summary object it creates.\<close>

record compaction_apply =
  ca_summary :: string
  ca_count :: nat
  ca_tokens_before :: nat
  ca_tokens_after :: nat

definition apply_compaction ::
  "nat \<Rightarrow> string option \<Rightarrow> nat \<Rightarrow> compaction_apply \<Rightarrow> conversation_context \<Rightarrow> conversation_context" where
  "apply_compaction now outcome sid c cx =
     (let loaded = loaded_tools_for_compaction (view_of cx) (ca_count c);
          summary = (sid, summary_message (ca_summary c) now);
          kept = drop (ca_count c) (cx_history cx);
          cx' = set_origin summary (Some (compaction_summary_origin (Some loaded))) (cx\<lparr>cx_history := summary # kept\<rparr>)
      in journal now outcome
           (RecApplyCompaction
              \<lparr>cr_summary = ca_summary c, cr_timestamp = now, cr_kept = map snd kept,
                cr_kept_origins = origins_if_any (map (origin_of cx') kept),
                cr_compacted_count = ca_count c, cr_tokens_before = ca_tokens_before c, cr_tokens_after = ca_tokens_after c,
                cr_loaded_tools = (if loaded \<noteq> [] then Some loaded else None)\<rparr>) cx')"

definition replace_history ::
  "nat \<Rightarrow> string option \<Rightarrow> live_message list \<Rightarrow> conversation_context \<Rightarrow> conversation_context" where
  "replace_history now outcome messages cx =
     journal now outcome (RecReplace (map snd messages) (origins_if_any (map (origin_of cx) messages)))
       (cx\<lparr>cx_history := messages\<rparr>)"

text \<open>\<open>flush\<close>, after the writes have settled: throws once.\<close>

definition cx_flush :: "conversation_context \<Rightarrow> (string list + unit) \<times> conversation_context" where
  "cx_flush cx =
     (if cx_write_errors cx \<noteq> [] then (Inl (cx_write_errors cx), cx\<lparr>cx_write_errors := []\<rparr>) else (Inr (), cx))"

text \<open>\<open>loadFromRecords\<close>: \<open>ids\<close> are the identities of the message objects the records hold.\<close>

definition own_records :: "string \<Rightarrow> agent_record list \<Rightarrow> agent_record list" where
  "own_records address records = filter (\<lambda>r. address_of r = address) records"

definition load_from_records ::
  "nat \<Rightarrow> nat list \<Rightarrow> agent_record list \<Rightarrow> conversation_context \<Rightarrow> conversation_context" where
  "load_from_records now ids records cx =
     (let reduced = reduce_history now (own_records (cx_address cx) records);
          live = zip ids (hf_messages reduced)
      in fold (\<lambda>(lm, origin). set_origin lm origin) (zip live (hf_origins reduced)) (cx\<lparr>cx_history := live\<rparr>))"

definition new_context :: "string \<Rightarrow> agent_record list \<Rightarrow> conversation_context" where
  "new_context address log =
     \<lparr>cx_history = [], cx_origins = [], cx_address = address, cx_log = log, cx_write_errors = []\<rparr>"

text \<open>\<open>seed\<close> appends without provenance.\<close>

definition seed :: "nat \<Rightarrow> (string option \<times> live_message) list \<Rightarrow> conversation_context \<Rightarrow> conversation_context" where
  "seed now messages cx = fold (\<lambda>(outcome, lm). append_message now outcome lm None) messages cx"

section \<open>The log replays to the live history\<close>

text \<open>What a live context shows, in the shape of a fold.\<close>

definition live_fold :: "conversation_context \<Rightarrow> history_fold" where
  "live_fold cx = \<lparr>hf_messages = map snd (cx_history cx), hf_origins = map (origin_of cx) (cx_history cx)\<rparr>"

datatype context_op =
    CxAppend live_message "prompt_origin option"
  | CxReplace "live_message list"
  | CxCompact nat compaction_apply
  | CxRecord record_body
  | CxForeign agent_record

fun history_bearing :: "record_body \<Rightarrow> bool" where
  "history_bearing (RecAppendMessage _ _) = True"
| "history_bearing (RecReplace _ _) = True"
| "history_bearing (RecApplyCompaction _) = True"
| "history_bearing (RecCustomMessage _ _) = True"
| "history_bearing _ = False"

fun cx_step :: "nat \<Rightarrow> string option \<Rightarrow> context_op \<Rightarrow> conversation_context \<Rightarrow> conversation_context" where
  "cx_step now w (CxAppend lm origin) cx = append_message now w lm origin cx"
| "cx_step now w (CxReplace ms) cx = replace_history now w ms cx"
| "cx_step now w (CxCompact sid c) cx = apply_compaction now w sid c cx"
| "cx_step now w (CxRecord body) cx = journal now w body cx"
| "cx_step now w (CxForeign r) cx = cx\<lparr>cx_log := cx_log cx @ [r]\<rparr>"

text \<open>
  How the operations are used: an appended message is a new object, a summary's object is new,
  \<open>record\<close> carries bookkeeping, and another context writes under its own address.
\<close>

fun op_ok :: "conversation_context \<Rightarrow> context_op \<Rightarrow> bool" where
  "op_ok cx (CxAppend lm _) = (origin_of cx lm = None \<and> fst lm \<notin> fst ` set (cx_history cx))"
| "op_ok cx (CxReplace _) = True"
| "op_ok cx (CxCompact sid c) = (sid \<notin> fst ` set (drop (ca_count c) (cx_history cx)))"
| "op_ok cx (CxRecord body) = (\<not> history_bearing body)"
| "op_ok cx (CxForeign r) = (address_of r \<noteq> cx_address cx)"

type_synonym timed_op = "nat \<times> string option \<times> context_op"

fun cx_run :: "timed_op list \<Rightarrow> conversation_context \<Rightarrow> conversation_context" where
  "cx_run [] cx = cx"
| "cx_run ((now, w, x) # rest) cx = cx_run rest (cx_step now w x cx)"

fun run_ok :: "timed_op list \<Rightarrow> conversation_context \<Rightarrow> bool" where
  "run_ok [] cx = True"
| "run_ok ((now, w, x) # rest) cx = (op_ok cx x \<and> run_ok rest (cx_step now w x cx))"

definition replays :: "nat \<Rightarrow> conversation_context \<Rightarrow> bool" where
  "replays now cx = (reduce_history now (own_records (cx_address cx) (cx_log cx)) = live_fold cx)"

lemma live_fold_sel [simp]:
  "hf_messages (live_fold cx) = map snd (cx_history cx)"
  "hf_origins (live_fold cx) = map (origin_of cx) (cx_history cx)"
  by (simp_all add: live_fold_def)

named_theorems context_rec "how the operations act on the parts of a context"

lemma set_origin_parts [context_rec, simp]:
  "cx_history (set_origin lm origin cx) = cx_history cx" "cx_address (set_origin lm origin cx) = cx_address cx"
  "cx_log (set_origin lm origin cx) = cx_log cx" "cx_write_errors (set_origin lm origin cx) = cx_write_errors cx"
  by (simp_all add: set_origin_def split: option.splits)

lemma origin_of_set_origin [context_rec, simp]:
  "origin_of (set_origin lm origin cx) lm' =
     (if fst lm' = fst lm \<and> origin \<noteq> None then origin else origin_of cx lm')"
  by (auto simp: set_origin_def origin_of_def split: option.splits)

lemma journal_parts [context_rec, simp]:
  "cx_history (journal now w b cx) = cx_history cx" "cx_origins (journal now w b cx) = cx_origins cx"
  "cx_address (journal now w b cx) = cx_address cx"
  by (simp_all add: journal_def split: option.splits)

lemma origin_of_history [context_rec, simp]:
  "origin_of (cx\<lparr>cx_history := h\<rparr>) lm = origin_of cx lm" "origin_of (journal now w b cx) lm = origin_of cx lm"
  "origin_of (cx\<lparr>cx_log := g\<rparr>) lm = origin_of cx lm"
  by (simp_all add: origin_of_def)

lemma live_fold_journal [context_rec, simp]:
  "live_fold (journal now w b cx) = live_fold cx" "live_fold (cx\<lparr>cx_log := g\<rparr>) = live_fold cx"
proof -
  have "origin_of (journal now w b cx) = origin_of cx" "origin_of (cx\<lparr>cx_log := g\<rparr>) = origin_of cx"
    by (auto simp: fun_eq_iff)
  then show "live_fold (journal now w b cx) = live_fold cx" "live_fold (cx\<lparr>cx_log := g\<rparr>) = live_fold cx"
    by (simp_all add: live_fold_def)
qed

lemma reduce_history_snoc [simp]: "reduce_history now (rs @ [r]) = fold_record now r (reduce_history now rs)"
  by (simp add: reduce_history_def)

lemma own_records_snoc:
  "own_records a (rs @ [r]) = own_records a rs @ (if address_of r = a then [r] else [])"
  by (simp add: own_records_def)

text \<open>A write that succeeds adds the record to what is replayed; a failed one leaves an error.\<close>

lemma journal_outcome:
  assumes "w = None"
  shows "reduce_history t (own_records (cx_address cx) (cx_log (journal now w b cx))) =
           fold_record t \<lparr>rec_time = Some now, rec_address = Some (cx_address cx), rec_body = b\<rparr>
             (reduce_history t (own_records (cx_address cx) (cx_log cx)))"
    and "cx_write_errors (journal now w b cx) = cx_write_errors cx"
  using assms by (simp_all add: journal_def own_records_snoc address_of_def)

lemma cx_step_errors:
  "cx_write_errors (cx_step now w x cx) =
     cx_write_errors cx @ (case (w, x) of (Some e, CxForeign _) \<Rightarrow> [] | (Some e, _) \<Rightarrow> [e] | _ \<Rightarrow> [])"
  by (cases x; cases w) (simp_all add: append_message_def replace_history_def apply_compaction_def Let_def journal_def)

lemma fold_replace_full:
  "length os = length ms \<Longrightarrow> fold_replace ms (Some os) st = \<lparr>hf_messages = ms, hf_origins = os\<rparr>"
  by (simp add: fold_replace_def)

lemma fold_replace_if_any:
  assumes "length os = length ms"
  shows "fold_replace ms (origins_if_any os) st = \<lparr>hf_messages = ms, hf_origins = os\<rparr>"
proof (cases "\<exists>x \<in> set os. x \<noteq> None")
  case True
  then show ?thesis using assms by (simp add: origins_if_any_def fold_replace_full)
next
  case False
  then have "os = map (\<lambda>_. None) ms" using assms by (intro nth_equalityI) auto
  moreover have "origins_if_any os = None" using False by (auto simp: origins_if_any_def)
  ultimately show ?thesis by (simp add: fold_replace_def)
qed

lemma origins_if_any_default:
  assumes "length os = length ms"
  shows "(case origins_if_any os of Some os \<Rightarrow> os | None \<Rightarrow> map (\<lambda>_. None) ms) = os"
proof (cases "\<exists>x \<in> set os. x \<noteq> None")
  case False
  then have "os = map (\<lambda>_. None) ms" using assms by (intro nth_equalityI) auto
  then show ?thesis using False by (auto simp: origins_if_any_def)
qed (simp add: origins_if_any_def)

lemma live_fold_append:
  assumes "op_ok cx (CxAppend lm origin)"
  shows "live_fold (append_message now w lm origin cx) = fold_append (snd lm) origin (live_fold cx)"
proof -
  have others: "fst lm' \<noteq> fst lm" if "lm' \<in> set (cx_history cx)" for lm'
    using assms imageI [OF that, of fst] by (metis op_ok.simps(1))
  have "map (origin_of (append_message now w lm origin cx)) (cx_history cx) = map (origin_of cx) (cx_history cx)"
    using others by (simp add: append_message_def)
  moreover have "origin_of (append_message now w lm origin cx) lm = origin"
    using assms by (simp add: append_message_def)
  moreover have "cx_history (append_message now w lm origin cx) = cx_history cx @ [lm]"
    by (simp add: append_message_def)
  ultimately show ?thesis by (simp add: live_fold_def fold_append_def)
qed

lemma live_fold_compaction_parts:
  assumes "op_ok cx (CxCompact sid c)"
  shows "live_fold (apply_compaction now w sid c cx) =
     \<lparr>hf_messages = summary_message (ca_summary c) now # map snd (drop (ca_count c) (cx_history cx)),
      hf_origins = Some (compaction_summary_origin (Some (loaded_tools_for_compaction (view_of cx) (ca_count c))))
        # map (origin_of cx) (drop (ca_count c) (cx_history cx))\<rparr>"
  using assms by (auto simp: live_fold_def apply_compaction_def Let_def)

text \<open>A compaction's record resets any fold to what the live context then holds.\<close>

lemma compaction_resets:
  assumes "op_ok cx (CxCompact sid c)"
  shows "\<exists>R cx'. (\<forall>w. apply_compaction now w sid c cx = journal now w (RecApplyCompaction R) cx') \<and>
    (\<forall>st. fold_compaction_record R st = live_fold cx') \<and> cx_log cx' = cx_log cx \<and> cx_address cx' = cx_address cx"
proof -
  have fresh: "sid \<notin> fst ` set (drop (ca_count c) (cx_history cx))" using assms by simp
  define loaded where "loaded = loaded_tools_for_compaction (view_of cx) (ca_count c)"
  define summary where "summary = (sid, summary_message (ca_summary c) now)"
  define kept where "kept = drop (ca_count c) (cx_history cx)"
  define cx' where "cx' = set_origin summary (Some (compaction_summary_origin (Some loaded))) (cx\<lparr>cx_history := summary # kept\<rparr>)"
  have kept_same: "map (origin_of cx') kept = map (origin_of cx) kept"
    using fresh by (auto simp: cx'_def kept_def summary_def)
  have none_some: "compaction_summary_origin (if loaded \<noteq> [] then Some loaded else None) = compaction_summary_origin (Some loaded)"
    by (simp add: compaction_summary_origin_def)
  have padded: "fold_replace (m # map snd kept) (Some (a # (case origins_if_any os of Some os \<Rightarrow> os | None \<Rightarrow> map (\<lambda>_. None) (map snd kept)))) st
      = \<lparr>hf_messages = m # map snd kept, hf_origins = a # os\<rparr>" if "length os = length kept" for m a os st
    using that by (simp add: origins_if_any_default fold_replace_full)
  have step: "apply_compaction now w sid c cx = journal now w (RecApplyCompaction
      \<lparr>cr_summary = ca_summary c, cr_timestamp = now, cr_kept = map snd kept,
        cr_kept_origins = origins_if_any (map (origin_of cx') kept), cr_compacted_count = ca_count c,
        cr_tokens_before = ca_tokens_before c, cr_tokens_after = ca_tokens_after c,
        cr_loaded_tools = (if loaded \<noteq> [] then Some loaded else None)\<rparr>) cx'" for w
    by (simp add: apply_compaction_def Let_def loaded_def summary_def kept_def cx'_def)
  have live: "live_fold cx' = \<lparr>hf_messages = summary_message (ca_summary c) now # map snd kept,
      hf_origins = Some (compaction_summary_origin (Some loaded)) # map (origin_of cx) kept\<rparr>"
    using kept_same by (simp add: live_fold_def cx'_def summary_def)
  have reset: "fold_compaction_record \<lparr>cr_summary = ca_summary c, cr_timestamp = now, cr_kept = map snd kept,
        cr_kept_origins = origins_if_any (map (origin_of cx') kept), cr_compacted_count = ca_count c,
        cr_tokens_before = ca_tokens_before c, cr_tokens_after = ca_tokens_after c,
        cr_loaded_tools = (if loaded \<noteq> [] then Some loaded else None)\<rparr> st = live_fold cx'" for st
    unfolding fold_compaction_record_def compaction_record.simps none_some
    by (subst padded) (simp_all add: live kept_same)
  show ?thesis
    by (intro exI [of _ "\<lparr>cr_summary = ca_summary c, cr_timestamp = now, cr_kept = map snd kept,
        cr_kept_origins = origins_if_any (map (origin_of cx') kept), cr_compacted_count = ca_count c,
        cr_tokens_before = ca_tokens_before c, cr_tokens_after = ca_tokens_after c,
        cr_loaded_tools = (if loaded \<noteq> [] then Some loaded else None)\<rparr>"] exI [of _ cx'])
      (use step reset in \<open>simp add: cx'_def\<close>)
qed

lemma replay_step:
  assumes "replays t cx" "op_ok cx x" "w = None"
  shows "replays t (cx_step now w x cx)"
proof (cases x)
  case (CxAppend lm origin)
  then show ?thesis using assms live_fold_append [of cx lm origin now w]
    by (simp add: replays_def append_message_def journal_outcome fold_record_def
        journal_outcome(1) [of None t "set_origin lm origin (cx\<lparr>cx_history := cx_history cx @ [lm]\<rparr>)", simplified])
next
  case (CxReplace ms)
  have "map (origin_of (cx\<lparr>cx_history := ms\<rparr>)) ms = map (origin_of cx) ms" by simp
  then show ?thesis using assms CxReplace
    by (simp add: replays_def replace_history_def fold_record_def fold_replace_if_any live_fold_def
        journal_outcome(1) [of None t "cx\<lparr>cx_history := ms\<rparr>", simplified])
next
  case (CxCompact sid c)
  then obtain R cx' where R: "\<And>w. apply_compaction now w sid c cx = journal now w (RecApplyCompaction R) cx'"
    "\<And>st. fold_compaction_record R st = live_fold cx'" "cx_log cx' = cx_log cx" "cx_address cx' = cx_address cx"
    using compaction_resets assms(2) by metis
  show ?thesis
    unfolding replays_def CxCompact cx_step.simps R(1)
    by (simp only: assms(3) journal_outcome journal_parts live_fold_journal fold_record_def agent_record.simps record_body.case R(2))
next
  case (CxRecord body)
  then show ?thesis using assms
    by (cases body) (simp_all add: replays_def journal_outcome fold_record_def)
next
  case (CxForeign r)
  then show ?thesis using assms by (simp add: replays_def own_records_snoc)
qed

lemma cx_run_errors: "\<exists>es. cx_write_errors (cx_run ops cx) = cx_write_errors cx @ es"
proof (induction ops cx rule: cx_run.induct)
  case (2 now w x rest cx)
  then show ?case by (auto simp: cx_step_errors)
qed simp

lemma replay_run:
  assumes "replays t cx" "run_ok ops cx" "cx_write_errors (cx_run ops cx) = []"
  shows "replays t (cx_run ops cx)"
  using assms
proof (induction ops cx rule: cx_run.induct)
  case (2 now w x rest cx)
  have "cx_write_errors (cx_step now w x cx) = []"
    using cx_run_errors [of rest "cx_step now w x cx"] "2.prems"(3) by auto
  then have "w = None \<or> (\<exists>r. x = CxForeign r)" using cx_step_errors [of now w x cx] by (cases x; cases w) simp_all
  then have "replays t (cx_step now w x cx)"
  proof
    assume "\<exists>r. x = CxForeign r"
    then have "cx_step now w x cx = cx_step now None x cx" by auto
    then show ?thesis using "2.prems" replay_step [of t cx x None now] by simp
  qed (use "2.prems" replay_step in auto)
  then show ?case using "2.IH" "2.prems" by simp
qed simp

lemma fold_record_lengths:
  "length (hf_origins st) = length (hf_messages st) \<Longrightarrow>
     length (hf_origins (fold_record now r st)) = length (hf_messages (fold_record now r st))"
  by (cases "rec_body r") (simp_all add: fold_record_def fold_append_def fold_compaction_record_def fold_replace_def Let_def)

lemma reduce_history_lengths:
  "length (hf_origins (reduce_history now rs)) = length (hf_messages (reduce_history now rs))"
  by (induction rs rule: rev_induct) (simp_all add: fold_record_lengths, simp add: reduce_history_def empty_fold_def)

abbreviation set_origins :: "(live_message \<times> prompt_origin option) list \<Rightarrow> conversation_context \<Rightarrow> conversation_context" where
  "set_origins \<equiv> fold (\<lambda>(lm, origin). set_origin lm origin)"

lemma set_origins_parts [context_rec, simp]:
  "cx_history (set_origins los cx) = cx_history cx" "cx_address (set_origins los cx) = cx_address cx"
  "cx_log (set_origins los cx) = cx_log cx" "cx_write_errors (set_origins los cx) = cx_write_errors cx"
  by (induction los arbitrary: cx) (simp_all add: split_beta)

lemma origin_of_set_origins_other:
  "fst lm \<notin> fst ` fst ` set los \<Longrightarrow> origin_of (set_origins los cx) lm = origin_of cx lm"
  by (induction los arbitrary: cx) (auto simp: split_beta)

lemma origins_of_set_origins:
  assumes "length os = length lms" "distinct (map fst lms)" "\<forall>lm \<in> set lms. origin_of cx lm = None"
  shows "map (origin_of (set_origins (zip lms os) cx)) lms = os"
  using assms
proof (induction lms arbitrary: os cx)
  case (Cons lm lms)
  then obtain x os' where os: "os = x # os'" by (cases os) auto
  have fresh: "fst lm \<notin> fst ` set lms" using Cons.prems by simp
  have "fst ` fst ` set (zip lms os') \<subseteq> fst ` set lms" by (auto dest: set_zip_leftD intro: rev_image_eqI)
  then have "origin_of (set_origins (zip lms os') (set_origin lm x cx)) lm = origin_of (set_origin lm x cx) lm"
    using fresh by (intro origin_of_set_origins_other) auto
  moreover have "origin_of (set_origin lm x cx) lm = x" using Cons.prems by simp
  moreover have "map (origin_of (set_origins (zip lms os') (set_origin lm x cx))) lms = os'"
  proof (rule Cons.IH)
    show "\<forall>l \<in> set lms. origin_of (set_origin lm x cx) l = None"
      using Cons.prems fresh by (auto simp: image_iff)
  qed (use Cons.prems os in simp_all)
  ultimately show ?case by (simp add: os)
qed simp

lemma loaded_context_replays:
  assumes "distinct ids" "length ids = length (hf_messages (reduce_history t (own_records a log)))"
  shows "replays t (load_from_records t ids log (new_context a log))"
proof -
  define reduced where "reduced = reduce_history t (own_records a log)"
  define live where "live = zip ids (hf_messages reduced)"
  have len: "length (hf_origins reduced) = length live" "map snd live = hf_messages reduced" "map fst live = ids"
    using assms reduce_history_lengths [of t "own_records a log"] by (simp_all add: live_def reduced_def)
  have "map (origin_of (set_origins (zip live (hf_origins reduced)) ((new_context a log)\<lparr>cx_history := live\<rparr>))) live
      = hf_origins reduced"
    using len assms by (intro origins_of_set_origins) (simp_all add: origin_of_def new_context_def)
  then have "live_fold (load_from_records t ids log (new_context a log)) = reduced"
    using len by (simp add: load_from_records_def live_fold_def Let_def live_def [symmetric] reduced_def [symmetric] new_context_def)
  then show ?thesis
    by (simp add: replays_def reduced_def load_from_records_def Let_def new_context_def)
qed

subsection \<open>The properties\<close>

text \<open>A context reopened from a log with another frame's records interleaved, for the witnesses.\<close>

definition some_text :: "string \<Rightarrow> message" where
  "some_text t = UserMsg \<lparr>um_content = [TextPart t], um_timestamp = 1\<rparr>"

definition mixed_log :: "agent_record list" where
  "mixed_log =
     [\<lparr>rec_time = Some 1, rec_address = None, rec_body = RecAppendMessage (some_text ''a'') (Some (OriginUser None))\<rparr>,
      \<lparr>rec_time = Some 2, rec_address = Some ''sub'', rec_body = RecAppendMessage (some_text ''x'') None\<rparr>,
      \<lparr>rec_time = Some 3, rec_address = Some ''main'', rec_body = RecAppendMessage (some_text ''b'') None\<rparr>]"

definition mixed_run :: "timed_op list" where
  "mixed_run =
     [(4, None, CxAppend (7, some_text ''c'') (Some (OriginInjection None ''plan''))),
      (5, None, CxForeign \<lparr>rec_time = Some 5, rec_address = Some ''sub'', rec_body = RecReplace [] None\<rparr>),
      (6, None, CxCompact 8 \<lparr>ca_summary = ''s'', ca_count = 2, ca_tokens_before = 9, ca_tokens_after = 3\<rparr>),
      (7, None, CxRecord (RecSetMode ''auto''))]"

text \<open>
  C6. Replay agrees with the live conversation: a context reopened from a session log (the
  records of other frames in it are skipped) and then changed by any sequence of appends,
  replacements, compactions and bookkeeping records, other frames writing to the same log in
  between, holds exactly the messages and the provenance a fresh replay of its log gives,
  whenever its next flush does not throw.
\<close>

theorem log_replays_live_history:
  assumes "cx = load_from_records t ids log (new_context a log)"
    and "distinct ids" "length ids = length (hf_messages (reduce_history t (own_records a log)))"
    and "run_ok ops cx"
    and "cx_flush (cx_run ops cx) = (Inr (), cx')"
  shows "reduce_history t (own_records (cx_address cx') (cx_log cx')) = live_fold cx'"
proof -
  have "replays t cx" using assms loaded_context_replays by simp
  moreover have "cx_write_errors (cx_run ops cx) = []" "cx' = cx_run ops cx"
    using assms(5) by (simp_all add: cx_flush_def split: if_splits)
  ultimately show ?thesis using replay_run [of t cx ops] assms(4) by (simp add: replays_def)
qed

theorem log_replays_live_history_witness:
  "live_fold (cx_run mixed_run (load_from_records 0 [1, 2] mixed_log (new_context ''main'' mixed_log))) =
     \<lparr>hf_messages = [summary_message ''s'' 6, some_text ''c''],
       hf_origins = [Some (OriginCompactionSummary None), Some (OriginInjection None ''plan'')]\<rparr>"
proof -
  have "reduce_history 0 (own_records (cx_address (cx_run mixed_run (load_from_records 0 [1, 2] mixed_log (new_context ''main'' mixed_log))))
      (cx_log (cx_run mixed_run (load_from_records 0 [1, 2] mixed_log (new_context ''main'' mixed_log))))) =
    live_fold (cx_run mixed_run (load_from_records 0 [1, 2] mixed_log (new_context ''main'' mixed_log)))"
    by (rule log_replays_live_history [OF refl, of "[1, 2]" 0 "''main''" mixed_log mixed_run]) (code_simp, code_simp, code_simp, code_simp)
  then show ?thesis by code_simp
qed

text \<open>
  A compaction is one change seen through three doors: what the live context holds after
  \<open>applyCompaction\<close>, what an event consumer gets by splicing the same counts into what it held
  (\<open>foldCompaction\<close>), and what the self-contained record resets any replay to
  (\<open>foldCompactionRecord\<close>), whatever that replay held before.
\<close>

theorem compaction_is_one_change:
  assumes "sid \<notin> fst ` set (drop (ca_count c) (cx_history cx))"
  shows "live_fold (apply_compaction now w sid c cx) =
           fold_compaction (ca_count c) (ca_summary c) now
             (Some (loaded_tools_for_compaction (view_of cx) (ca_count c))) (live_fold cx) \<and>
         (\<exists>r. cx_log (apply_compaction now None sid c cx) = cx_log cx @ [r] \<and> is_checkpoint (rec_body r) \<and>
            fold_record t r st = live_fold (apply_compaction now w sid c cx))"
proof -
  have ok: "op_ok cx (CxCompact sid c)" using assms by simp
  have drops: "drop (min n (length h)) h = drop n h" for n and h :: "'x list" by (simp add: min_def)
  have "live_fold (apply_compaction now w sid c cx) = fold_compaction (ca_count c) (ca_summary c) now
             (Some (loaded_tools_for_compaction (view_of cx) (ca_count c))) (live_fold cx)"
    unfolding live_fold_compaction_parts [OF ok] fold_compaction_def Let_def
    using drops [of "ca_count c" "map snd (cx_history cx)"] drops [of "ca_count c" "map (origin_of cx) (cx_history cx)"]
    by (simp add: drop_map)
  moreover obtain R cx' where R: "\<And>w. apply_compaction now w sid c cx = journal now w (RecApplyCompaction R) cx'"
    "\<And>st. fold_compaction_record R st = live_fold cx'" "cx_log cx' = cx_log cx"
    using compaction_resets [OF ok] by metis
  then have "\<exists>r. cx_log (apply_compaction now None sid c cx) = cx_log cx @ [r] \<and> is_checkpoint (rec_body r) \<and>
      fold_record t r st = live_fold (apply_compaction now w sid c cx)"
    unfolding R(1) by (simp add: journal_def [of now None] fold_record_def)
  ultimately show ?thesis ..
qed

theorem compaction_is_one_change_witness:
  "live_fold (apply_compaction 6 None 8 \<lparr>ca_summary = ''s'', ca_count = 1, ca_tokens_before = 9, ca_tokens_after = 3\<rparr>
      (load_from_records 0 [1, 2] mixed_log (new_context ''main'' mixed_log))) =
     \<lparr>hf_messages = [summary_message ''s'' 6, some_text ''b''], hf_origins = [Some (OriginCompactionSummary None), None]\<rparr>"
proof -
  define c where "c = \<lparr>ca_summary = ''s'', ca_count = 1, ca_tokens_before = 9, ca_tokens_after = 3\<rparr>"
  define cx where "cx = load_from_records 0 [1, 2] mixed_log (new_context ''main'' mixed_log)"
  have "8 \<notin> fst ` set (drop (ca_count c) (cx_history cx))" unfolding c_def cx_def by code_simp
  from compaction_is_one_change [OF this, of 6 None]
  have "live_fold (apply_compaction 6 None 8 c cx) = fold_compaction (ca_count c) (ca_summary c) 6
          (Some (loaded_tools_for_compaction (view_of cx) (ca_count c))) (live_fold cx)" by blast
  also have "\<dots> = \<lparr>hf_messages = [summary_message ''s'' 6, some_text ''b''],
      hf_origins = [Some (OriginCompactionSummary None), None]\<rparr>" unfolding c_def cx_def by code_simp
  finally show ?thesis by (simp add: c_def cx_def)
qed

section \<open>Tool definitions are declared once\<close>

fun declared_tools :: "projected_message list \<Rightarrow> loaded_tool list" where
  "declared_tools [] = []"
| "declared_tools (ToolsAdded tools # rest) = tools @ declared_tools rest"
| "declared_tools (Plain _ # rest) = declared_tools rest"

fun plain_messages :: "projected_message list \<Rightarrow> message list" where
  "plain_messages [] = []"
| "plain_messages (ToolsAdded _ # rest) = plain_messages rest"
| "plain_messages (Plain m # rest) = m # plain_messages rest"

text \<open>No declaration stands right before a tool result: batches of results stay contiguous.\<close>

fun results_contiguous :: "projected_message list \<Rightarrow> bool" where
  "results_contiguous (ToolsAdded _ # Plain m # rest) = (\<not> is_tool_result m \<and> results_contiguous (Plain m # rest))"
| "results_contiguous (_ # rest) = results_contiguous rest"
| "results_contiguous [] = True"

lemma declared_tools_append [simp]: "declared_tools (xs @ ys) = declared_tools xs @ declared_tools ys"
  by (induction xs rule: declared_tools.induct) simp_all

lemma plain_messages_append [simp]: "plain_messages (xs @ ys) = plain_messages xs @ plain_messages ys"
  by (induction xs rule: plain_messages.induct) simp_all

lemma flushed_parts [simp]:
  "declared_tools (flush_pending p) = (case p of Some tools \<Rightarrow> tools | None \<Rightarrow> [])" "plain_messages (flush_pending p) = []"
  by (simp_all add: flush_pending_def split: option.splits)

lemma project_loads_declares:
  "declared_tools (project_loads h seen pending) = (case pending of Some tools \<Rightarrow> tools | None \<Rightarrow> []) @
     declared_tools (project_loads h seen None)"
proof (induction h arbitrary: seen pending)
  case (Cons mo rest)
  show ?case
    by (cases pending; cases "is_tool_result (fst mo)")
      (simp_all add: Let_def Cons.IH [of _ "Some _"])
qed simp

abbreviation new_loads :: "message \<times> prompt_origin option \<Rightarrow> string set \<Rightarrow> loaded_tool list" where
  "new_loads mo seen \<equiv> filter (\<lambda>e. lt_name e \<notin> seen) (load_point_entries mo)"

lemma declared_tools_Cons:
  "declared_tools (project_loads (mo # rest) seen None) =
     new_loads mo seen @ declared_tools (project_loads rest (seen \<union> lt_name ` set (new_loads mo seen)) None)"
  by (simp add: Let_def project_loads_declares [of rest _ "Some _"])

lemma declared_names:
  "lt_name ` set (declared_tools (project_loads h seen None)) =
     (\<Union>mo \<in> set h. lt_name ` set (load_point_entries mo)) - seen"
proof (induction h arbitrary: seen)
  case (Cons mo rest)
  show ?case unfolding declared_tools_Cons by (auto simp: image_Un Cons.IH)
qed simp

lemma declared_distinct:
  "\<forall>mo \<in> set h. distinct (map lt_name (load_point_entries mo)) \<Longrightarrow>
     distinct (map lt_name (declared_tools (project_loads h seen None)))"
proof (induction h arbitrary: seen)
  case (Cons mo rest)
  have "distinct (map lt_name (new_loads mo seen))" using Cons.prems by (simp add: distinct_map_filter)
  then show ?case
    unfolding declared_tools_Cons using Cons by (auto simp: declared_names)
qed simp

lemma project_loads_plain: "plain_messages (project_loads h seen pending) = map fst h"
  by (induction h arbitrary: seen pending) (simp_all add: Let_def)

lemma results_contiguous_flush:
  "results_contiguous (flush_pending p @ Plain m # rest) =
     ((p = None \<or> \<not> is_tool_result m) \<and> results_contiguous rest)"
  by (cases p) (simp_all add: flush_pending_def)

lemma project_loads_contiguous: "results_contiguous (project_loads h seen pending)"
proof (induction h arbitrary: seen pending)
  case Nil
  show ?case by (cases pending) (simp_all add: flush_pending_def)
next
  case (Cons mo rest)
  then show ?case by (simp add: Let_def results_contiguous_flush)
qed

lemma project_loads_grows:
  assumes "\<not> is_tool_result (fst mo)"
  shows "\<exists>more. project_loads (h @ mo # rest) seen pending = project_loads h seen pending @ more"
proof (induction h arbitrary: seen pending)
  case Nil
  show ?case using assms by (auto simp: Let_def)
next
  case (Cons x h)
  then show ?case by (simp add: Let_def)
qed

text \<open>
  Every tool definition a history loads is declared to the provider exactly once: with load
  points that do not repeat a name, the declarations carry distinct names, exactly those loaded
  in the history and not among the request's own tools; the messages are all there, in order; no
  declaration separates two results of one batch; and when the history grows by a turn that does
  not continue a batch, what was projected before is a prefix of the new projection (the
  provider's cache keeps hitting).
\<close>

theorem loads_declared_once:
  assumes "\<forall>mo \<in> set history. distinct (map lt_name (load_point_entries mo))"
    and "\<not> is_tool_result (fst next)"
  shows "distinct (map lt_name (declared_tools (with_tool_loads history declared))) \<and>
    lt_name ` set (declared_tools (with_tool_loads history declared)) =
      (\<Union>mo \<in> set history. lt_name ` set (load_point_entries mo)) - declared \<and>
    plain_messages (with_tool_loads history declared) = map fst history \<and>
    results_contiguous (with_tool_loads history declared) \<and>
    prefix (with_tool_loads history declared) (with_tool_loads (history @ next # rest) declared)"
proof -
  have "prefix (with_tool_loads history declared) (with_tool_loads (history @ next # rest) declared)"
    using project_loads_grows [OF assms(2), of history rest declared None] by (auto simp: with_tool_loads_def prefix_def)
  then show ?thesis
    using declared_distinct [OF assms(1), of declared]
    by (simp add: with_tool_loads_def declared_names project_loads_plain project_loads_contiguous)
qed

definition loads_of :: "loaded_tool list \<Rightarrow> message \<times> prompt_origin option" where
  "loads_of tools = (some_text ''summary'', Some (OriginCompactionSummary (Some tools)))"

definition tool_named :: "string \<Rightarrow> loaded_tool" where
  "tool_named n = \<lparr>lt_source = ''mcp'', lt_name = n, lt_description = ''d'', lt_parameters = JObj []\<rparr>"

theorem loads_declared_once_witness:
  "with_tool_loads [loads_of [tool_named ''a'', tool_named ''b'', tool_named ''c''], loads_of [tool_named ''b'', tool_named ''d'']] {''c''} =
     [Plain (some_text ''summary''), ToolsAdded [tool_named ''a'', tool_named ''b''],
      Plain (some_text ''summary''), ToolsAdded [tool_named ''d'']] \<and>
   distinct (map lt_name (declared_tools (with_tool_loads
     [loads_of [tool_named ''a'', tool_named ''b'', tool_named ''c''], loads_of [tool_named ''b'', tool_named ''d'']] {''c''})))"
proof -
  have h: "\<forall>mo \<in> set [loads_of [tool_named ''a'', tool_named ''b'', tool_named ''c''], loads_of [tool_named ''b'', tool_named ''d'']].
      distinct (map lt_name (load_point_entries mo))"
    by code_simp
  have n: "\<not> is_tool_result (fst (some_text ''x'', None :: prompt_origin option))" by code_simp
  have "with_tool_loads [loads_of [tool_named ''a'', tool_named ''b'', tool_named ''c''], loads_of [tool_named ''b'', tool_named ''d'']] {''c''} =
     [Plain (some_text ''summary''), ToolsAdded [tool_named ''a'', tool_named ''b''],
      Plain (some_text ''summary''), ToolsAdded [tool_named ''d'']]" by code_simp
  then show ?thesis using loads_declared_once [OF h n, of "{''c''}" "[]"] by blast
qed

end
