(* ===== verification/Log_Store.thy ===== *)
theory Log_Store
  imports Conversation
begin

text \<open>
  The session log of \<open>agents-core/src/store/log-store.ts\<close> (\<open>LogSessionStore\<close> over the in-process
  backing \<open>MemoryStore\<close>), the wire migrations of \<open>migrate.ts\<close> and the paging of a log.

  A sequence is a decimal string of a positive integer compared as a \<open>BigInt\<close>: here it is a
  natural number, and 0 stands for a string that is none (\<open>parseSequence\<close> throws). A line is the
  record it is the JSON text of; the blob store that moves long image data out of a line and back
  is not modelled. Times are arguments.
\<close>

section \<open>Wire migrations\<close>

definition wire_protocol_version :: nat where
  "wire_protocol_version = 3"

type_synonym migration = "agent_record \<Rightarrow> agent_record option"

type_synonym migration_registry = "nat \<Rightarrow> migration option"

definition record_migrations :: migration_registry where
  "record_migrations v = (if v = 1 \<or> v = 2 then Some Some else None)"

text \<open>The loop over versions; \<open>null\<close> drops the record.\<close>

function migrate_record :: "migration_registry \<Rightarrow> nat \<Rightarrow> nat \<Rightarrow> agent_record option \<Rightarrow> agent_record option" where
  "migrate_record registry v to_version current =
     (if v < to_version
      then case current of
             None \<Rightarrow> None
           | Some r \<Rightarrow> migrate_record registry (Suc v) to_version
                         (case registry v of Some f \<Rightarrow> f r | None \<Rightarrow> Some r)
      else current)"
  by pat_completeness auto

termination by (relation "measure (\<lambda>(_, v, t, _). t - v)") auto

declare migrate_record.simps [simp del]

section \<open>The store\<close>

record stored_line =
  sl_sequence :: nat
  sl_record :: agent_record

record log_store =
  ls_logs :: "(string, stored_line list) jsmap"
  ls_index :: "(string, nat) jsmap"
  ls_sequence :: nat
  ls_checked :: "string list"
  ls_version :: "nat option"

definition audit_address :: string where
  "audit_address = ''audit''"

definition memory_store :: log_store where
  "memory_store = \<lparr>ls_logs = [], ls_index = [], ls_sequence = 0, ls_checked = [], ls_version = None\<rparr>"

definition read_lines :: "string \<Rightarrow> log_store \<Rightarrow> stored_line list" where
  "read_lines a st = (case map_of (ls_logs st) a of Some log \<Rightarrow> log | None \<Rightarrow> [])"

definition append_line :: "string \<Rightarrow> agent_record \<Rightarrow> log_store \<Rightarrow> nat \<times> log_store" where
  "append_line a r st =
     (let n = ls_sequence st + 1 in
      (n, st\<lparr>ls_sequence := n, ls_logs := jset a (read_lines a st @ [\<lparr>sl_sequence = n, sl_record = r\<rparr>]) (ls_logs st)\<rparr>))"

definition rewrite_lines :: "string \<Rightarrow> stored_line list \<Rightarrow> log_store \<Rightarrow> log_store" where
  "rewrite_lines a ls st = st\<lparr>ls_logs := jset a ls (ls_logs st)\<rparr>"

definition list_shard_addresses :: "log_store \<Rightarrow> string list" where
  "list_shard_addresses st = jkeys (ls_logs st)"

definition conversation_addresses :: "log_store \<Rightarrow> string list" where
  "conversation_addresses st = filter (\<lambda>a. a \<noteq> audit_address) (list_shard_addresses st)"

text \<open>\<open>version\<close>: the stamped version, the current one when none is stamped.\<close>

definition log_version :: "log_store \<Rightarrow> nat" where
  "log_version st = (case ls_version st of Some v \<Rightarrow> v | None \<Rightarrow> wire_protocol_version)"

definition migrated_line :: "migration_registry \<Rightarrow> nat \<Rightarrow> stored_line \<Rightarrow> stored_line option" where
  "migrated_line registry v l =
     map_option (\<lambda>r. l\<lparr>sl_record := r\<rparr>) (migrate_record registry v wire_protocol_version (Some (sl_record l)))"

definition parsed_lines :: "migration_registry \<Rightarrow> log_store \<Rightarrow> stored_line list \<Rightarrow> stored_line list" where
  "parsed_lines registry st ls = List.map_filter (migrated_line registry (log_version st)) ls"

definition parsed_records :: "migration_registry \<Rightarrow> string \<Rightarrow> log_store \<Rightarrow> stored_line list" where
  "parsed_records registry a st = parsed_lines registry st (read_lines a st)"

text \<open>\<open>withLeadingMetadata\<close>: the leading metadata record is given the shard's address.\<close>

definition with_leading_metadata :: "stored_line list \<Rightarrow> string \<Rightarrow> stored_line list" where
  "with_leading_metadata ls a =
     (case ls of
        l # rest \<Rightarrow>
          (case rec_body (sl_record l) of
             RecMetadata _ _ \<Rightarrow>
               if rec_address (sl_record l) = Some a then ls
               else l\<lparr>sl_record := (sl_record l)\<lparr>rec_address := Some a\<rparr>\<rparr> # rest
           | _ \<Rightarrow> ls)
      | [] \<Rightarrow> ls)"

definition rewrite_shard :: "migration_registry \<Rightarrow> nat \<Rightarrow> string \<Rightarrow> log_store \<Rightarrow> log_store" where
  "rewrite_shard registry v a st =
     (let st' = rewrite_lines a (with_leading_metadata (List.map_filter (migrated_line registry v) (read_lines a st)) a) st
      in st'\<lparr>ls_checked := List.insert a (ls_checked st')\<rparr>)"

definition stamp_version :: "log_store \<Rightarrow> log_store" where
  "stamp_version st = st\<lparr>ls_version := Some wire_protocol_version\<rparr>"

definition rewrite_now :: "migration_registry \<Rightarrow> string option \<Rightarrow> log_store \<Rightarrow> log_store" where
  "rewrite_now registry a st =
     (let addresses = (case a of Some x \<Rightarrow> [x] | None \<Rightarrow> list_shard_addresses st)
      in stamp_version (fold (rewrite_shard registry (log_version st)) addresses st))"

text \<open>\<open>ensureVersionStamped\<close>: an older log is rewritten before the first write.\<close>

definition ensure_version_stamped :: "migration_registry \<Rightarrow> log_store \<Rightarrow> log_store" where
  "ensure_version_stamped registry st =
     (case ls_version st of
        None \<Rightarrow> stamp_version st
      | Some v \<Rightarrow> if v < wire_protocol_version then rewrite_now registry None st else st)"

definition metadata_record :: "nat \<Rightarrow> string \<Rightarrow> agent_record" where
  "metadata_record now a =
     \<lparr>rec_time = Some now, rec_address = Some a, rec_body = RecMetadata wire_protocol_version now\<rparr>"

definition ensure_metadata :: "nat \<Rightarrow> string \<Rightarrow> log_store \<Rightarrow> log_store" where
  "ensure_metadata now a st =
     (if a \<in> set (ls_checked st) then st
      else let st' = st\<lparr>ls_checked := a # ls_checked st\<rparr>
           in if read_lines a st' = [] then snd (append_line a (metadata_record now a) st') else st')"

fun is_metadata :: "record_body \<Rightarrow> bool" where
  "is_metadata (RecMetadata _ _) = True"
| "is_metadata _ = False"

text \<open>\<open>crash\<close>: the process died after the line was written and before the index was.\<close>

definition append_record_now ::
  "migration_registry \<Rightarrow> nat \<Rightarrow> bool \<Rightarrow> agent_record \<Rightarrow> log_store \<Rightarrow> nat \<times> log_store" where
  "append_record_now registry now crash r st =
     (let st1 = ensure_version_stamped registry st;
          a = address_of r;
          st2 = (if is_metadata (rec_body r) then st1\<lparr>ls_checked := List.insert a (ls_checked st1)\<rparr>
                 else ensure_metadata now a st1);
          stamped = (case rec_time r of Some _ \<Rightarrow> r | None \<Rightarrow> r\<lparr>rec_time := Some now\<rparr>);
          (n, st3) = append_line a stamped st2
      in (n, if is_checkpoint (rec_body r) \<and> \<not> crash then st3\<lparr>ls_index := jset a n (ls_index st3)\<rparr> else st3))"

section \<open>Reading\<close>

text \<open>\<open>recordsFromCheckpoint\<close> over a backing that streams its lines; the index is any value.\<close>

definition records_from_checkpoint ::
  "migration_registry \<Rightarrow> string \<Rightarrow> log_store \<Rightarrow> stored_line list option" where
  "records_from_checkpoint registry a st =
     (case map_of (ls_index st) a of
        None \<Rightarrow> None
      | Some start \<Rightarrow>
          if start = 0 then None
          else case dropWhile (\<lambda>l. sl_sequence l < start) (read_lines a st) of
                 [] \<Rightarrow> None
               | first # rest \<Rightarrow>
                   if sl_sequence first \<noteq> start then None
                   else case parsed_lines registry st (first # rest) of
                          [] \<Rightarrow> None
                        | head # tail \<Rightarrow>
                            if sl_sequence head \<noteq> start \<or> \<not> is_checkpoint (rec_body (sl_record head)) then None
                            else Some (head # tail))"

definition shard_tail :: "migration_registry \<Rightarrow> log_store \<Rightarrow> string \<Rightarrow> stored_line list" where
  "shard_tail registry st a =
     (case records_from_checkpoint registry a st of Some ls \<Rightarrow> ls | None \<Rightarrow> parsed_records registry a st)"

definition stored_records :: "migration_registry \<Rightarrow> string option \<Rightarrow> log_store \<Rightarrow> stored_line list" where
  "stored_records registry a st =
     (case a of
        Some x \<Rightarrow> parsed_records registry x st
      | None \<Rightarrow> sort_key sl_sequence (concat (map (\<lambda>x. parsed_records registry x st) (conversation_addresses st))))"

definition read_records :: "migration_registry \<Rightarrow> string option \<Rightarrow> bool \<Rightarrow> log_store \<Rightarrow> agent_record list" where
  "read_records registry a from_checkpoint st =
     map sl_record
       (if from_checkpoint
        then let addresses = (case a of Some x \<Rightarrow> [x] | None \<Rightarrow> conversation_addresses st);
                 all = concat (map (shard_tail registry st) addresses)
             in if length addresses > 1 then sort_key sl_sequence all else all
        else stored_records registry a st)"

section \<open>Paging\<close>

datatype page_error = BadLimit | BadSequence

datatype record_order = Asc | Desc

record record_page =
  pg_data :: "stored_line list"
  pg_next :: "nat option"

definition past :: "record_order \<Rightarrow> nat option \<Rightarrow> stored_line \<Rightarrow> bool" where
  "past order cursor l =
     (case cursor of
        None \<Rightarrow> True
      | Some c \<Rightarrow> (case order of Asc \<Rightarrow> sl_sequence l > c | Desc \<Rightarrow> sl_sequence l < c))"

definition traversal :: "record_order \<Rightarrow> stored_line list \<Rightarrow> stored_line list" where
  "traversal order ls = (case order of Asc \<Rightarrow> ls | Desc \<Rightarrow> rev ls)"

definition page_records ::
  "stored_line list \<Rightarrow> int \<Rightarrow> record_order \<Rightarrow> nat option \<Rightarrow> page_error + record_page" where
  "page_records records limit order cursor =
     (if limit < 1 then Inl BadLimit
      else if cursor = Some 0 then Inl BadSequence
      else let eligible = filter (past order cursor) (traversal order records);
               data = take (nat limit) eligible
           in Inr \<lparr>pg_data = data,
                   pg_next = (if length eligible > length data \<and> data \<noteq> [] then Some (sl_sequence (last data)) else None)\<rparr>)"

text \<open>
  \<open>readRecordPageSeeking\<close>: over a backing that seeks, \<open>read_page after limit order\<close> being its
  \<open>readLinesPage\<close> (an indexed query, not TypeScript).
\<close>

type_synonym seeking_backing = "nat option \<Rightarrow> nat \<Rightarrow> record_order \<Rightarrow> stored_line list"

definition read_record_page_seeking ::
  "seeking_backing \<Rightarrow> migration_registry \<Rightarrow> nat \<Rightarrow> int \<Rightarrow> record_order \<Rightarrow> nat option \<Rightarrow> page_error + record_page" where
  "read_record_page_seeking read_page registry version limit order cursor =
     (if limit < 1 then Inl BadLimit
      else if cursor = Some 0 then Inl BadSequence
      else let ls = read_page cursor (nat limit + 1) order;
               page = take (nat limit) ls
           in Inr \<lparr>pg_data = List.map_filter (migrated_line registry version) page,
                   pg_next = (if length ls > length page \<and> page \<noteq> [] then Some (sl_sequence (last page)) else None)\<rparr>)"

text \<open>Reading a log page by page, each page from the cursor the one before gave.\<close>

fun walk_pages ::
  "nat \<Rightarrow> (nat option \<Rightarrow> page_error + record_page) \<Rightarrow> nat option \<Rightarrow> (page_error + stored_line list) option" where
  "walk_pages 0 page cursor = None"
| "walk_pages (Suc fuel) page cursor =
     (case page cursor of
        Inl err \<Rightarrow> Some (Inl err)
      | Inr p \<Rightarrow>
          (case pg_next p of
             None \<Rightarrow> Some (Inr (pg_data p))
           | Some n \<Rightarrow> map_option (map_sum id (\<lambda>rest. pg_data p @ rest)) (walk_pages fuel page (Some n))))"

section \<open>Migrations keep records\<close>

lemma migrate_record_default [simp]: "migrate_record record_migrations v t (Some r) = Some r"
  by (induction record_migrations v t "Some r" rule: migrate_record.induct)
    (subst migrate_record.simps, auto simp: record_migrations_def)

lemma parsed_lines_default [simp]: "parsed_lines record_migrations st ls = ls"
  by (induction ls) (simp_all add: parsed_lines_def migrated_line_def List.map_filter_simps)

lemma map_filter_migrated_default [simp]: "List.map_filter (migrated_line record_migrations v) ls = ls"
  by (induction ls) (simp_all add: migrated_line_def List.map_filter_simps)

section \<open>Replay from a checkpoint\<close>

lemma checkpoint_resets: "is_checkpoint (rec_body r) \<Longrightarrow> fold_record now r st = fold_record now r st'"
  by (cases "rec_body r") (simp_all add: fold_record_def fold_replace_def fold_compaction_record_def Let_def)

lemma reduce_from_checkpoint:
  "is_checkpoint (rec_body r) \<Longrightarrow> reduce_history now (before @ r # after) = reduce_history now (r # after)"
  by (simp add: reduce_history_def checkpoint_resets [of r now "fold (fold_record now) before empty_fold" empty_fold])

lemma parsed_lines_append: "parsed_lines registry st (xs @ ys) = parsed_lines registry st xs @ parsed_lines registry st ys"
  by (induction xs) (simp_all add: parsed_lines_def List.map_filter_simps split: option.splits)

lemma records_from_checkpoint_suffix:
  assumes "records_from_checkpoint registry a st = Some ls"
  shows "\<exists>before h tl. parsed_records registry a st = before @ h # tl \<and> ls = h # tl \<and> is_checkpoint (rec_body (sl_record h))"
proof -
  obtain start where ix: "map_of (ls_index st) a = Some start" "start \<noteq> 0"
    using assms by (auto simp: records_from_checkpoint_def split: option.splits if_splits)
  define late where "late = dropWhile (\<lambda>l. sl_sequence l < start) (read_lines a st)"
  have ls: "parsed_lines registry st late = ls"
    using assms ix unfolding records_from_checkpoint_def late_def
    by (auto split: list.splits if_splits)
  moreover have "ls \<noteq> [] \<and> is_checkpoint (rec_body (sl_record (hd ls)))"
    using assms ix unfolding records_from_checkpoint_def
    by (auto split: list.splits if_splits) (metis list.sel(1))
  then obtain h tl where "ls = h # tl" "is_checkpoint (rec_body (sl_record h))" by (cases ls) auto
  moreover have "read_lines a st = takeWhile (\<lambda>l. sl_sequence l < start) (read_lines a st) @ late"
    by (simp add: late_def)
  then have "parsed_records registry a st =
      parsed_lines registry st (takeWhile (\<lambda>l. sl_sequence l < start) (read_lines a st)) @ parsed_lines registry st late"
    unfolding parsed_records_def by (metis parsed_lines_append)
  ultimately show ?thesis by (intro exI conjI) auto
qed

lemma shard_tail_replays:
  "reduce_history now (map sl_record (shard_tail registry st a)) = reduce_history now (map sl_record (parsed_records registry a st))"
proof (cases "records_from_checkpoint registry a st")
  case (Some ls)
  from records_from_checkpoint_suffix [OF Some] obtain before h tl where
    "parsed_records registry a st = before @ h # tl" "ls = h # tl" "is_checkpoint (rec_body (sl_record h))" by blast
  then show ?thesis using Some by (simp add: shard_tail_def reduce_from_checkpoint)
qed (simp add: shard_tail_def)

lemma shard_tail_suffix: "suffix (shard_tail registry st a) (parsed_records registry a st)"
proof (cases "records_from_checkpoint registry a st")
  case (Some ls)
  from records_from_checkpoint_suffix [OF Some] show ?thesis using Some by (auto simp: shard_tail_def suffix_def)
qed (simp add: shard_tail_def)

section \<open>The invariant of a log\<close>

definition line_ok :: "nat \<Rightarrow> string \<Rightarrow> stored_line \<Rightarrow> bool" where
  "line_ok bound a l = (0 < sl_sequence l \<and> sl_sequence l \<le> bound \<and> address_of (sl_record l) = a)"

definition shard_ok :: "nat \<Rightarrow> string \<Rightarrow> stored_line list \<Rightarrow> bool" where
  "shard_ok bound a ls = (sorted_wrt (<) (map sl_sequence ls) \<and> list_all (line_ok bound a) ls)"

definition store_ok :: "log_store \<Rightarrow> bool" where
  "store_ok st = (jmap_ok (ls_logs st) \<and> (\<forall>(a, ls) \<in> set (ls_logs st). shard_ok (ls_sequence st) a ls))"

lemma memory_store_ok: "store_ok memory_store"
  by (simp add: store_ok_def memory_store_def)

lemma shard_ok_read_lines: "store_ok st \<Longrightarrow> shard_ok (ls_sequence st) a (read_lines a st)"
  by (auto simp: store_ok_def read_lines_def shard_ok_def dest: map_of_SomeD split: option.splits)

lemma set_jset_sub: "jmap_ok m \<Longrightarrow> set (jset k v m) \<subseteq> insert (k, v) {(k', v') \<in> set m. k' \<noteq> k}"
proof (intro subsetI)
  fix x assume ok: "jmap_ok m" and x: "x \<in> set (jset k v m)"
  have "map_of (jset k v m) (fst x) = Some (snd x)"
    using map_of_is_SomeI [OF jmap_ok_jset [OF ok], of "fst x" "snd x" k v] x by simp
  then show "x \<in> insert (k, v) {(k', v') \<in> set m. k' \<noteq> k}"
    by (cases x) (auto dest: map_of_SomeD split: if_splits)
qed

lemma shard_ok_mono: "shard_ok m a ls \<Longrightarrow> m \<le> n \<Longrightarrow> shard_ok n a ls"
  by (auto simp: shard_ok_def list_all_iff line_ok_def)

lemma store_ok_put:
  assumes "store_ok st" "ls_sequence st \<le> n" "shard_ok n a ls"
  shows "store_ok (st\<lparr>ls_sequence := n, ls_logs := jset a ls (ls_logs st)\<rparr>)"
proof -
  have "shard_ok n b l" if "(b, l) \<in> set (ls_logs st)" for b l
    using assms that shard_ok_mono by (auto simp: store_ok_def)
  then show ?thesis
    using assms set_jset_sub [of "ls_logs st" a ls] by (auto simp: store_ok_def)
qed

lemma append_line_ok:
  assumes "store_ok st" "address_of r = a"
  shows "store_ok (snd (append_line a r st))"
proof -
  have "shard_ok (ls_sequence st + 1) a (read_lines a st @ [\<lparr>sl_sequence = ls_sequence st + 1, sl_record = r\<rparr>])"
    using shard_ok_read_lines [OF assms(1), of a] assms(2)
    by (auto simp: shard_ok_def sorted_wrt_append list_all_iff line_ok_def less_Suc_eq_le)
  then show ?thesis
    using store_ok_put [OF assms(1), of "ls_sequence st + 1" a] by (simp add: append_line_def Let_def)
qed

lemma store_ok_other_fields [simp]:
  "store_ok (st\<lparr>ls_index := i\<rparr>) = store_ok st" "store_ok (st\<lparr>ls_checked := c\<rparr>) = store_ok st"
  "store_ok (st\<lparr>ls_version := v\<rparr>) = store_ok st"
  by (simp_all add: store_ok_def)

lemma ensure_metadata_ok: "store_ok st \<Longrightarrow> store_ok (ensure_metadata now a st)"
  by (simp add: ensure_metadata_def Let_def append_line_ok metadata_record_def address_of_def)

lemma with_leading_metadata_id: "shard_ok n a ls \<Longrightarrow> shard_ok n a (with_leading_metadata ls a)"
  by (auto simp: with_leading_metadata_def shard_ok_def line_ok_def address_of_def split: list.splits record_body.splits)

lemma rewrite_shard_ok: "store_ok st \<Longrightarrow> store_ok (rewrite_shard record_migrations v a st)"
  using store_ok_put [of st "ls_sequence st" a "with_leading_metadata (read_lines a st) a"] shard_ok_read_lines [of st a]
  by (simp add: rewrite_shard_def rewrite_lines_def Let_def with_leading_metadata_id)

lemma rewrite_now_ok: "store_ok st \<Longrightarrow> store_ok (rewrite_now record_migrations a st)"
proof -
  assume ok: "store_ok st"
  have "store_ok (fold (rewrite_shard record_migrations v) as st)" for v as
    using ok by (induction as arbitrary: st) (simp_all add: rewrite_shard_ok)
  then show ?thesis by (simp add: rewrite_now_def stamp_version_def)
qed

lemma ensure_version_ok: "store_ok st \<Longrightarrow> store_ok (ensure_version_stamped record_migrations st)"
  by (simp add: ensure_version_stamped_def stamp_version_def rewrite_now_ok split: option.splits)

lemma append_record_ok:
  assumes "store_ok st"
  shows "store_ok (snd (append_record_now record_migrations now crash r st))"
proof -
  define st2 where "st2 = (if is_metadata (rec_body r)
      then ensure_version_stamped record_migrations st\<lparr>ls_checked := List.insert (address_of r) (ls_checked (ensure_version_stamped record_migrations st))\<rparr>
      else ensure_metadata now (address_of r) (ensure_version_stamped record_migrations st))"
  define stamped where "stamped = (case rec_time r of Some _ \<Rightarrow> r | None \<Rightarrow> r\<lparr>rec_time := Some now\<rparr>)"
  have "store_ok st2" using assms by (simp add: st2_def ensure_version_ok ensure_metadata_ok)
  moreover have "address_of stamped = address_of r"
    by (simp add: stamped_def address_of_def split: option.splits)
  ultimately have "store_ok (snd (append_line (address_of r) stamped st2))" by (simp add: append_line_ok)
  then show ?thesis
    by (simp add: append_record_now_def Let_def st2_def [symmetric] stamped_def [symmetric] split_beta)
qed

text \<open>The stores a session can be in: appends, with or without a crash, and rewrites.\<close>

inductive store_run :: "log_store \<Rightarrow> bool" where
  Fresh: "store_run memory_store"
| Append: "store_run st \<Longrightarrow> store_run (snd (append_record_now record_migrations now crash r st))"
| Rewrite: "store_run st \<Longrightarrow> store_run (rewrite_now record_migrations a st)"

lemma store_run_ok: "store_run st \<Longrightarrow> store_ok st"
  by (induction rule: store_run.induct) (simp_all add: memory_store_ok append_record_ok rewrite_now_ok)

section \<open>One frame's records in the whole log\<close>

lemma filter_concat_own:
  assumes "distinct as" "\<And>b x. b \<in> set as \<Longrightarrow> x \<in> set (f b) \<Longrightarrow> own x = b"
  shows "filter (\<lambda>x. own x = a) (concat (map f as)) = (if a \<in> set as then f a else [])"
  using assms
proof (induction as)
  case (Cons b as)
  have "filter (\<lambda>x. own x = a) (f b) = (if b = a then f b else [])"
    using Cons.prems(2) [of b] by (auto simp: filter_id_conv filter_empty_conv)
  moreover have "filter (\<lambda>x. own x = a) (concat (map f as)) = (if a \<in> set as then f a else [])"
    using Cons.prems by (intro Cons.IH) auto
  ultimately show ?case using Cons.prems(1) by auto
qed simp

lemma own_sorted_shards:
  assumes "distinct as" "\<And>b l. b \<in> set as \<Longrightarrow> l \<in> set (f b) \<Longrightarrow> address_of (sl_record l) = b"
    and "\<And>b. b \<in> set as \<Longrightarrow> sorted (map sl_sequence (f b))"
  shows "own_records a (map sl_record (sort_key sl_sequence (concat (map f as)))) = (if a \<in> set as then map sl_record (f a) else [])"
    and "own_records a (map sl_record (concat (map f as))) = (if a \<in> set as then map sl_record (f a) else [])"
proof -
  have own: "filter (\<lambda>l. address_of (sl_record l) = a) (concat (map f as)) = (if a \<in> set as then f a else [])"
    using filter_concat_own [of as f "\<lambda>l. address_of (sl_record l)" a] assms(1,2) by blast
  have rec: "own_records a (map sl_record ls) = map sl_record (filter (\<lambda>l. address_of (sl_record l) = a) ls)" for ls
    by (simp add: own_records_def filter_map o_def)
  show "own_records a (map sl_record (sort_key sl_sequence (concat (map f as)))) = (if a \<in> set as then map sl_record (f a) else [])"
    using assms(3) by (simp add: rec filter_sort own sort_key_id_if_sorted)
  show "own_records a (map sl_record (concat (map f as))) = (if a \<in> set as then map sl_record (f a) else [])"
    by (simp add: rec own)
qed

lemma shard_props:
  assumes "store_ok st"
  shows "l \<in> set (read_lines a st) \<Longrightarrow> address_of (sl_record l) = a" "sorted (map sl_sequence (read_lines a st))"
  using shard_ok_read_lines [OF assms, of a]
  by (auto simp: shard_ok_def list_all_iff line_ok_def intro: strict_sorted_imp_sorted)

lemma own_records_read:
  assumes "store_ok st" "\<And>b. suffix (f b) (read_lines b st)"
  shows "own_records a (map sl_record (sort_key sl_sequence (concat (map f (conversation_addresses st))))) =
           (if a \<in> set (conversation_addresses st) then map sl_record (f a) else [])"
    and "own_records a (map sl_record (concat (map f (conversation_addresses st)))) =
           (if a \<in> set (conversation_addresses st) then map sl_record (f a) else [])"
proof -
  have d: "distinct (conversation_addresses st)"
    using assms(1) by (simp add: conversation_addresses_def list_shard_addresses_def store_ok_def)
  have own: "\<And>b l. l \<in> set (f b) \<Longrightarrow> address_of (sl_record l) = b"
    using assms(2) shard_props(1) [OF assms(1)] set_mono_suffix by blast
  have so: "sorted (map sl_sequence (f b))" for b
    using assms(2) [of b] shard_props(2) [OF assms(1), of b] by (auto simp: suffix_def sorted_append)
  show "own_records a (map sl_record (sort_key sl_sequence (concat (map f (conversation_addresses st))))) =
           (if a \<in> set (conversation_addresses st) then map sl_record (f a) else [])"
    using own so by (intro own_sorted_shards(1) [OF d]) auto
  show "own_records a (map sl_record (concat (map f (conversation_addresses st)))) =
           (if a \<in> set (conversation_addresses st) then map sl_record (f a) else [])"
    using own so by (intro own_sorted_shards(2) [OF d]) auto
qed

lemma parsed_records_default [simp]: "parsed_records record_migrations a st = read_lines a st"
  by (simp add: parsed_records_def)

subsection \<open>The properties\<close>

definition say :: "string \<Rightarrow> string \<Rightarrow> agent_record" where
  "say a t = \<lparr>rec_time = None, rec_address = Some a, rec_body = RecAppendMessage (some_text t) None\<rparr>"

definition reset_to :: "string \<Rightarrow> string \<Rightarrow> agent_record" where
  "reset_to a t = \<lparr>rec_time = None, rec_address = Some a, rec_body = RecReplace [some_text t] None\<rparr>"

text \<open>Two frames writing in turn, one compacting; the process dies before indexing its second reset.\<close>

definition busy_store :: log_store where
  "busy_store =
     (let put = (\<lambda>crash r st. snd (append_record_now record_migrations 5 crash r st))
      in put False (say ''main'' ''d'') (put True (reset_to ''main'' ''r2'') (put False (say ''sub'' ''y'')
           (put False (say ''main'' ''c'') (put False (reset_to ''main'' ''r1'') (put False (say ''sub'' ''x'')
             (put False (say ''main'' ''a'') memory_store)))))))"

lemma busy_store_run: "store_run busy_store"
  unfolding busy_store_def Let_def by (intro store_run.intros)

text \<open>
  C26. Starting a replay at a checkpoint loses nothing: whatever the index of a shard says (absent,
  stale because the process died before updating it, pointing into a renumbered log) and whatever
  the wire migrations do, reducing the records read from the checkpoint gives the history that
  reducing the whole shard gives.
\<close>

theorem replay_from_checkpoint:
  "reduce_history now (read_records registry (Some a) True st) = reduce_history now (read_records registry (Some a) False st)"
  using shard_tail_replays [of now registry st a] by (simp add: read_records_def stored_records_def)

text \<open>
  Opening a session from the whole log: for a store built by any appends (with crashes) and
  rewrites, taking one frame's records out of the merged read of all conversation shards, from
  their checkpoints or from their heads, gives the history of that frame's own shard.
\<close>

theorem frame_from_merged_log:
  assumes "store_run st" and "a \<in> set (conversation_addresses st)"
  shows "reduce_history now (own_records a (read_records record_migrations None from_checkpoint st)) =
         reduce_history now (read_records record_migrations (Some a) False st)"
proof -
  have ok: "store_ok st" using assms(1) by (rule store_run_ok)
  have tails: "\<And>b. suffix (shard_tail record_migrations st b) (read_lines b st)"
    using shard_tail_suffix [of record_migrations st] by simp
  show ?thesis
    using assms(2) own_records_read [OF ok tails, of a] own_records_read(1) [OF ok suffix_order.refl, of a]
      shard_tail_replays [of now record_migrations st a]
    by (auto simp: read_records_def Let_def stored_records_def)
qed

theorem frame_from_merged_log_witness:
  "hf_messages (reduce_history 0 (own_records ''main'' (read_records record_migrations None True busy_store))) =
     [some_text ''r2'', some_text ''d''] \<and>
   length (read_records record_migrations None True busy_store) = 7 \<and>
   length (read_records record_migrations None False busy_store) = 9"
proof -
  have a: "''main'' \<in> set (conversation_addresses busy_store)" by code_simp
  have "reduce_history 0 (own_records ''main'' (read_records record_migrations None True busy_store)) =
      reduce_history 0 (read_records record_migrations (Some ''main'') False busy_store)"
    by (rule frame_from_merged_log [OF busy_store_run a])
  moreover have "hf_messages (reduce_history 0 (read_records record_migrations (Some ''main'') False busy_store)) =
      [some_text ''r2'', some_text ''d'']" by code_simp
  moreover have "length (read_records record_migrations None True busy_store) = 7" by code_simp
  moreover have "length (read_records record_migrations None False busy_store) = 9" by code_simp
  ultimately show ?thesis by simp
qed

section \<open>Pages\<close>

definition precedes :: "record_order \<Rightarrow> stored_line \<Rightarrow> stored_line \<Rightarrow> bool" where
  "precedes order x y = past order (Some (sl_sequence x)) y"

lemma precedes_eq:
  "precedes Asc = (\<lambda>x y. sl_sequence x < sl_sequence y)" "precedes Desc = (\<lambda>x y. sl_sequence y < sl_sequence x)"
  by (auto simp: precedes_def past_def fun_eq_iff)

lemma precedes_trans: "precedes order x y \<Longrightarrow> precedes order y z \<Longrightarrow> precedes order x z"
  by (cases order) (auto simp: precedes_def past_def)

lemma precedes_irrefl [simp]: "\<not> precedes order x x"
  by (cases order) (auto simp: precedes_def past_def)

lemma past_cursor: "past order (Some (sl_sequence x)) = precedes order x"
  by (simp add: precedes_def fun_eq_iff)

lemma past_mono: "past order c x \<Longrightarrow> precedes order x y \<Longrightarrow> past order c y"
  by (cases order; cases c) (auto simp: precedes_def past_def)

lemma traversal_sorted:
  "sorted_wrt (<) (map sl_sequence records) \<Longrightarrow> sorted_wrt (precedes order) (traversal order records)"
  by (cases order) (auto simp: traversal_def precedes_eq sorted_wrt_map sorted_wrt_rev)

text \<open>Past the last line of a page is exactly the rest.\<close>

lemma rest_after_page:
  assumes "sorted_wrt (precedes order) es" "n < length es" "0 < n"
  shows "filter (precedes order (last (take n es))) es = drop n es"
proof -
  have ne: "take n es \<noteq> []" using assms by auto
  have split: "sorted_wrt (precedes order) (take n es) \<and>
      (\<forall>x \<in> set (take n es). \<forall>y \<in> set (drop n es). precedes order x y)"
    using assms(1) sorted_wrt_append [of "precedes order" "take n es" "drop n es"] by (simp only: append_take_drop_id) blast
  have "precedes order (last (take n es)) y" if "y \<in> set (drop n es)" for y
    using split that last_in_set [OF ne] by blast
  moreover have "\<not> precedes order (last (take n es)) x" if x: "x \<in> set (take n es)" for x
  proof
    assume after: "precedes order (last (take n es)) x"
    have st: "sorted_wrt (precedes order) (butlast (take n es) @ [last (take n es)])" using split by (subst append_butlast_last_id [OF ne]) blast
    have "x \<in> set (butlast (take n es)) \<or> x = last (take n es)"
      using x ne by (metis append_butlast_last_id insert_iff list.simps(15) rotate1.simps(2) set_rotate1)
    then show False
    proof (elim disjE)
      assume "x \<in> set (butlast (take n es))"
      then have "precedes order x (last (take n es))" using st by (simp add: sorted_wrt_append)
      then show False using precedes_trans [OF after] by (meson precedes_irrefl)
    qed (use after in simp)
  qed
  ultimately have "filter (precedes order (last (take n es))) (take n es @ drop n es) = drop n es"
    by (simp only: filter_append) (simp add: filter_empty_conv)
  then show ?thesis by simp
qed

lemma page_of:
  assumes "1 \<le> limit" "c \<noteq> Some 0" "es = filter (past order c) (traversal order records)"
  shows "page_records records limit order c =
    Inr \<lparr>pg_data = take (nat limit) es,
         pg_next = (if length es > nat limit then Some (sl_sequence (last (take (nat limit) es))) else None)\<rparr>"
  using assms by (auto simp: page_records_def Let_def)

lemma next_page_rest:
  assumes so: "sorted_wrt (precedes order) (traversal order records)" and pos: "\<forall>l \<in> set records. 0 < sl_sequence l"
    and es: "es = filter (past order c) (traversal order records)" and n: "0 < n" "n < length es"
  shows "filter (past order (Some (sl_sequence (last (take n es))))) (traversal order records) = drop n es"
    and "0 < sl_sequence (last (take n es))"
proof -
  define x where "x = last (take n es)"
  have sorted: "sorted_wrt (precedes order) es" unfolding es using so by (rule sorted_wrt_filter)
  have ne: "take n es \<noteq> []" using n by auto
  then have "x \<in> set es" unfolding x_def by (metis in_set_takeD last_in_set)
  then have x: "past order c x" "x \<in> set records" by (auto simp: es traversal_def split: record_order.splits)
  show "0 < sl_sequence (last (take n es))" using pos x(2) by (simp add: x_def)
  have "filter (precedes order x) (traversal order records) = filter (precedes order x) es"
    unfolding es filter_filter using past_mono [OF x(1)] by (intro filter_cong) auto
  then show "filter (past order (Some (sl_sequence (last (take n es))))) (traversal order records) = drop n es"
    using rest_after_page [OF sorted n(2,1)] by (simp add: past_cursor x_def)
qed

lemma walk_from:
  assumes so: "sorted_wrt (precedes order) (traversal order records)" and pos: "\<forall>l \<in> set records. 0 < sl_sequence l"
    and limit: "1 \<le> limit" and "length (filter (past order c) (traversal order records)) < fuel" "c \<noteq> Some 0"
  shows "walk_pages fuel (page_records records limit order) c = Some (Inr (filter (past order c) (traversal order records)))"
  using assms(4,5)
proof (induction fuel arbitrary: c)
  case (Suc fuel)
  define es where "es = filter (past order c) (traversal order records)"
  define n where "n = nat limit"
  have n: "0 < n" using limit by (simp add: n_def)
  show ?case
  proof (cases "length es > n")
    case False
    then show ?thesis using page_of [OF limit Suc.prems(2) es_def] by (simp add: es_def [symmetric] n_def [symmetric])
  next
    case True
    note rest = next_page_rest [OF so pos es_def n True]
    have "walk_pages fuel (page_records records limit order) (Some (sl_sequence (last (take n es)))) = Some (Inr (drop n es))"
      using Suc.IH [of "Some (sl_sequence (last (take n es)))"] Suc.prems rest(2) n True by (simp add: rest(1) es_def [symmetric])
    then show ?thesis
      using page_of [OF limit Suc.prems(2) es_def] True by (simp add: es_def [symmetric] n_def [symmetric])
  qed
qed simp

text \<open>
  Paging a log, in either direction and with any positive limit, ends and returns every record
  once and in order; and a backing that answers a page by an indexed query returns the same pages
  as paging in memory does (when the migrations drop no record).
\<close>

theorem pages_cover_the_log:
  assumes "store_run st" "1 \<le> limit" "length (read_lines a st) < fuel"
    and "\<forall>c n. read_page c n order = take n (filter (past order c) (traversal order (read_lines a st)))"
  shows "walk_pages fuel (page_records (stored_records record_migrations (Some a) st) limit order) None =
           Some (Inr (traversal order (read_lines a st))) \<and>
         read_record_page_seeking read_page record_migrations v limit order cursor =
           page_records (stored_records record_migrations (Some a) st) limit order cursor"
proof -
  have ok: "shard_ok (ls_sequence st) a (read_lines a st)"
    by (rule shard_ok_read_lines) (rule store_run_ok [OF assms(1)])
  have "length (filter (past order None) (traversal order (read_lines a st))) < fuel"
    using assms(3) by (cases order) (simp_all add: past_def traversal_def)
  then have "walk_pages fuel (page_records (read_lines a st) limit order) None =
      Some (Inr (filter (past order None) (traversal order (read_lines a st))))"
    using ok assms(2) by (intro walk_from traversal_sorted) (auto simp: shard_ok_def list_all_iff line_ok_def)
  moreover have "read_record_page_seeking read_page record_migrations v limit order cursor =
      page_records (read_lines a st) limit order cursor"
    using assms(4) by (simp add: read_record_page_seeking_def page_records_def Let_def min_def)
  ultimately show ?thesis by (simp add: stored_records_def past_def)
qed

theorem pages_cover_the_log_witness:
  "walk_pages 9 (page_records (stored_records record_migrations (Some ''main'') busy_store) 2 Desc) None =
     Some (Inr (rev (read_lines ''main'' busy_store)))"
proof -
  have len: "length (read_lines ''main'' busy_store) < 9" by code_simp
  have "walk_pages 9 (page_records (stored_records record_migrations (Some ''main'') busy_store) 2 Desc) None =
           Some (Inr (traversal Desc (read_lines ''main'' busy_store))) \<and>
         read_record_page_seeking (\<lambda>c n ord. take n (filter (past ord c) (traversal ord (read_lines ''main'' busy_store))))
           record_migrations 3 2 Desc None =
           page_records (stored_records record_migrations (Some ''main'') busy_store) 2 Desc None"
    by (rule pages_cover_the_log [OF busy_store_run _ len]) simp_all
  then show ?thesis by (simp add: traversal_def)
qed

end
