(* ===== verification/Js_Regex.thy ===== *)
theory Js_Regex
  imports Agent_Prelude
begin

text \<open>
  The regular expressions of the sources, as a backtracking matcher: literals, character
  classes, repetition of a class, sequence, alternation and option (no repetition of a group, no
  back reference; none of the modelled sources uses them). \<open>rests\<close> gives what may be left of a
  string after a match; \<open>lang\<close> is the reference meaning.
\<close>

datatype char_class = OneOf "char list" | NoneOf "char list"

fun in_class :: "char_class \<Rightarrow> char \<Rightarrow> bool" where
  "in_class (OneOf cs) c = (c \<in> set cs)"
| "in_class (NoneOf cs) c = (c \<notin> set cs)"

datatype regex =
    RLit string
  | RClass char_class
  | RMany char_class
  | RSeq regex regex
  | RAlt regex regex
  | ROpt regex

fun rests :: "regex \<Rightarrow> string \<Rightarrow> string list" where
  "rests (RLit p) s = (if take (length p) s = p then [drop (length p) s] else [])"
| "rests (RClass c) [] = []"
| "rests (RClass c) (x # xs) = (if in_class c x then [xs] else [])"
| "rests (RMany c) [] = [[]]"
| "rests (RMany c) (x # xs) = (x # xs) # (if in_class c x then rests (RMany c) xs else [])"
| "rests (RSeq a b) s = concat (map (rests b) (rests a s))"
| "rests (RAlt a b) s = rests a s @ rests b s"
| "rests (ROpt a) s = s # rests a s"

fun regex_seq :: "regex list \<Rightarrow> regex" where
  "regex_seq [] = RLit []"
| "regex_seq [r] = r"
| "regex_seq (r # rs) = RSeq r (regex_seq rs)"

fun regex_alt :: "regex list \<Rightarrow> regex" where
  "regex_alt [] = RClass (OneOf [])"
| "regex_alt [r] = r"
| "regex_alt (r # rs) = RAlt r (regex_alt rs)"

text \<open>\<open>\s\<close>, \<open>.\<close>, one or more of a class.\<close>

abbreviation white :: char_class where
  "white \<equiv> OneOf [CHR 0x09, CHR 0x0A, CHR 0x0B, CHR 0x0C, CHR 0x0D, CHR 0x20, CHR 0xA0]"

abbreviation any_char :: char_class where
  "any_char \<equiv> NoneOf [CHR 0x0A, CHR 0x0D]"

abbreviation r_some :: "char_class \<Rightarrow> regex" where
  "r_some c \<equiv> RSeq (RClass c) (RMany c)"

text \<open>\<open>RegExp.prototype.test\<close> without anchors, and with both.\<close>

definition regex_test :: "regex \<Rightarrow> string \<Rightarrow> bool" where
  "regex_test r s = list_ex (\<lambda>t. rests r t \<noteq> []) (suffixes s)"

definition regex_full :: "regex \<Rightarrow> string \<Rightarrow> bool" where
  "regex_full r s = ([] \<in> set (rests r s))"

section \<open>The matcher against the languages\<close>

fun lang :: "regex \<Rightarrow> string set" where
  "lang (RLit p) = {p}"
| "lang (RClass c) = {[x] | x. in_class c x}"
| "lang (RMany c) = {w. list_all (in_class c) w}"
| "lang (RSeq a b) = {u @ v | u v. u \<in> lang a \<and> v \<in> lang b}"
| "lang (RAlt a b) = lang a \<union> lang b"
| "lang (ROpt a) = insert [] (lang a)"

lemma rests_many: "t \<in> set (rests (RMany c) s) \<longleftrightarrow> (\<exists>w. list_all (in_class c) w \<and> s = w @ t)"
proof (induction s)
  case (Cons x xs)
  have "(\<exists>w. list_all (in_class c) w \<and> x # xs = w @ t) \<longleftrightarrow>
      t = x # xs \<or> in_class c x \<and> (\<exists>w. list_all (in_class c) w \<and> xs = w @ t)"
    by (auto simp: Cons_eq_append_conv)
  then show ?case using Cons by auto
qed auto

theorem rests_lang: "t \<in> set (rests r s) \<longleftrightarrow> (\<exists>w \<in> lang r. s = w @ t)"
proof (induction r arbitrary: s t)
  case (RLit p)
  show ?case by (auto simp: append_eq_conv_conj) (metis append_take_drop_id)
next
  case (RClass c)
  show ?case by (cases s) auto
next
  case (RMany c)
  show ?case by (simp only: rests_many lang.simps) auto
next
  case (RSeq a b)
  show ?case by (auto simp: RSeq.IH) (metis append.assoc)
qed auto

lemma regex_full_lang: "regex_full r s \<longleftrightarrow> s \<in> lang r"
  by (auto simp: regex_full_def rests_lang)

lemma regex_test_lang: "regex_test r s \<longleftrightarrow> (\<exists>u w v. w \<in> lang r \<and> s = u @ w @ v)"
proof -
  have "rests r t \<noteq> [] \<longleftrightarrow> (\<exists>w \<in> lang r. \<exists>v. t = w @ v)" for t
    using rests_lang [of _ r t] by (auto simp: neq_Nil_conv) (metis list.set_intros(1), metis empty_iff list.exhaust list.set(1))
  then have "regex_test r s \<longleftrightarrow> (\<exists>t. suffix t s \<and> (\<exists>w \<in> lang r. \<exists>v. t = w @ v))"
    unfolding regex_test_def list_ex_iff Bex_def set_suffixes_eq mem_Collect_eq by simp
  also have "\<dots> \<longleftrightarrow> (\<exists>u w v. w \<in> lang r \<and> s = u @ w @ v)"
    unfolding suffix_def by blast
  finally show ?thesis .
qed

end
