(* ===== verification/Model_Retry.thy ===== *)
theory Model_Retry
  imports Js_Regex Tool_Call Complex_Main
begin

text \<open>
  Asking the model, with retries (\<open>agents-core/src/llm/retry.ts\<close>, \<open>streamWithRetry\<close>), and the
  classification of its errors (\<open>agents-core/src/llm/errors.ts\<close>).

  The model is a pair of calls: \<open>cm_stream\<close> reports events while it runs and ends with a message
  or throws, \<open>cm_complete\<close> only returns a message. What the loop reports to its caller is the list
  of \<open>retry_signal\<close>s, in order. The random draw of the backoff and the sleep are arguments.
\<close>

section \<open>Errors\<close>

text \<open>\<open>OtherError\<close>: an error of another library, with the status and the delay it carries, if any.\<close>

datatype model_error =
    ConnectionError string
  | TimeoutError string
  | EmptyResponseError string
  | StatusError nat string
  | OverflowError nat string
  | OtherError "nat option" string "nat option"
  | TextError string

record retry_hint =
  rh_retryable :: bool
  rh_after_ms :: "nat option"

definition retryable_status_codes :: "nat list" where
  "retryable_status_codes = [429, 500, 502, 503, 504]"

fun extract_status_code :: "model_error \<Rightarrow> nat option" where
  "extract_status_code (StatusError n _) = Some n"
| "extract_status_code (OverflowError n _) = Some n"
| "extract_status_code (OtherError n _ _) = n"
| "extract_status_code _ = None"

fun extract_message :: "model_error \<Rightarrow> string" where
  "extract_message (ConnectionError m) = m"
| "extract_message (TimeoutError m) = m"
| "extract_message (EmptyResponseError m) = m"
| "extract_message (StatusError _ m) = m"
| "extract_message (OverflowError _ m) = m"
| "extract_message (OtherError _ m _) = m"
| "extract_message (TextError m) = m"

fun parse_retry_after_ms :: "model_error \<Rightarrow> nat option" where
  "parse_retry_after_ms (OtherError _ _ d) = d"
| "parse_retry_after_ms _ = None"

fun is_retryable_generate_error :: "model_error \<Rightarrow> bool" where
  "is_retryable_generate_error (ConnectionError _) = True"
| "is_retryable_generate_error (TimeoutError _) = True"
| "is_retryable_generate_error (EmptyResponseError _) = True"
| "is_retryable_generate_error (StatusError n _) = (n \<in> set retryable_status_codes)"
| "is_retryable_generate_error (OverflowError n _) = (n \<in> set retryable_status_codes)"
| "is_retryable_generate_error e =
     (case extract_status_code e of Some n \<Rightarrow> n \<in> set retryable_status_codes | None \<Rightarrow> False)"

abbreviation joint :: regex where
  "joint \<equiv> ROpt (RClass (OneOf '' _-''))"

abbreviation r_any :: regex where
  "r_any \<equiv> RMany any_char"

definition context_overflow_patterns :: "regex list" where
  "context_overflow_patterns =
     [regex_seq [RLit ''context'', joint, RLit ''length''],
      RAlt (regex_seq [RLit ''context'', joint, RLit ''window'', r_any, RLit ''exceed''])
           (regex_seq [RLit ''exceed'', r_any, RLit ''context'', joint, RLit ''window'']),
      RLit ''maximum context'',
      regex_seq [RLit ''exceed'', ROpt (regex_alt [RLit ''ed'', RLit ''s'', RLit ''ing'']), r_some white,
        ROpt (RSeq (RLit ''the'') (r_some white)), RLit ''max'', ROpt (RLit ''imum''), r_some white, RLit ''token'', ROpt (RLit ''s'')],
      RAlt (regex_seq [RLit ''too many tokens'', r_any, regex_alt [RLit ''prompt'', RLit ''input'', RLit ''context'']])
           (regex_seq [regex_alt [RLit ''prompt'', RLit ''input'', RLit ''context''], r_any, RLit ''too many tokens'']),
      regex_seq [RLit ''prompt is too long'', r_any, RLit ''maximum''],
      regex_seq [RLit ''input token count'', r_any, RLit ''exceed'', ROpt (RLit ''s''), r_any, RLit ''maximum number of tokens''],
      regex_seq [RLit ''request'', r_any, RLit ''exceed'', ROpt (regex_alt [RLit ''ed'', RLit ''s'', RLit ''ing'']), r_any, RLit ''model token limit'']]"

definition is_context_overflow_message :: "string \<Rightarrow> bool" where
  "is_context_overflow_message message = list_ex (\<lambda>p. regex_test p (js_lower message)) context_overflow_patterns"

definition is_context_overflow_status_error :: "nat \<Rightarrow> string \<Rightarrow> bool" where
  "is_context_overflow_status_error status message =
     (if status \<noteq> 400 \<and> status \<noteq> 413 \<and> status \<noteq> 422 then False else is_context_overflow_message message)"

definition normalize_api_status_error :: "nat \<Rightarrow> string \<Rightarrow> model_error" where
  "normalize_api_status_error status message =
     (if is_context_overflow_status_error status message then OverflowError status message
      else StatusError status message)"

definition not_retryable :: retry_hint where
  "not_retryable = \<lparr>rh_retryable = False, rh_after_ms = None\<rparr>"

fun is_overflow_error :: "model_error \<Rightarrow> bool" where
  "is_overflow_error (OverflowError _ _) = True"
| "is_overflow_error _ = False"

definition classify_error :: "model_error \<Rightarrow> retry_hint" where
  "classify_error e =
     (let status = extract_status_code e; message = extract_message e in
      if is_overflow_error e then not_retryable
      else if (case status of Some n \<Rightarrow> is_context_overflow_status_error n message | None \<Rightarrow> False) then not_retryable
      else if status = None \<and> is_context_overflow_message message then not_retryable
      else if is_retryable_generate_error e
        then \<lparr>rh_retryable = True, rh_after_ms = parse_retry_after_ms e\<rparr>
      else not_retryable)"

section \<open>Stream events\<close>

datatype stream_event =
    EvStart
  | EvTextStart nat
  | EvTextDelta nat string
  | EvTextEnd nat string
  | EvThinkingStart nat
  | EvThinkingDelta nat string
  | EvThinkingEnd nat string
  | EvToolStart nat
  | EvToolDelta nat string
  | EvToolEnd nat tool_call
  | EvDone stop_reason

fun is_surfaced_event :: "stream_event \<Rightarrow> bool" where
  "is_surfaced_event (EvTextDelta _ d) = (d \<noteq> [])"
| "is_surfaced_event (EvThinkingDelta _ d) = (d \<noteq> [])"
| "is_surfaced_event (EvToolDelta _ d) = (d \<noteq> [])"
| "is_surfaced_event (EvTextEnd _ c) = (c \<noteq> [])"
| "is_surfaced_event (EvThinkingEnd _ c) = (c \<noteq> [])"
| "is_surfaced_event (EvToolStart _) = True"
| "is_surfaced_event (EvToolEnd _ _) = True"
| "is_surfaced_event _ = False"

text \<open>\<open>toolArgumentsDelta\<close>: \<open>stringify\<close> is \<open>JSON.stringify\<close>.\<close>

definition tool_arguments_delta :: "(json \<Rightarrow> string) \<Rightarrow> tool_call \<Rightarrow> string" where
  "tool_arguments_delta stringify call =
     (case tc_arguments call of JStr s \<Rightarrow> s | args \<Rightarrow> stringify args)"

fun part_events :: "(json \<Rightarrow> string) \<Rightarrow> nat \<Rightarrow> content_part \<Rightarrow> stream_event list" where
  "part_events stringify i (TextPart t) = (if t = [] then [] else [EvTextStart i, EvTextDelta i t, EvTextEnd i t])"
| "part_events stringify i (ThinkingPart t) =
     (if t = [] then [] else [EvThinkingStart i, EvThinkingDelta i t, EvThinkingEnd i t])"
| "part_events stringify i (ToolCallPart c) =
     [EvToolStart i]
       @ (if tool_arguments_delta stringify c \<noteq> [] then [EvToolDelta i (tool_arguments_delta stringify c)] else [])
       @ [EvToolEnd i c]"
| "part_events stringify i (ImagePart _ _) = []"

definition emit_message_events :: "(json \<Rightarrow> string) \<Rightarrow> assistant_message \<Rightarrow> stream_event list" where
  "emit_message_events stringify message =
     (if am_stop_reason message \<in> {StopEnd, StopLength, StopToolUse}
      then [EvStart] @ concat (map (\<lambda>(i, part). part_events stringify i part) (List.enumerate 0 (am_content message)))
           @ [EvDone (am_stop_reason message)]
      else [])"

section \<open>The retry loop\<close>

definition base_delay_ms :: nat where
  "base_delay_ms = 300"

definition max_backoff_ms :: nat where
  "max_backoff_ms = 32000"

definition default_max_retries :: nat where
  "default_max_retries = 3"

text \<open>\<open>draw\<close> is the value of \<open>Math.random()\<close>; \<open>Math.round\<close> rounds half up.\<close>

definition retry_delay_ms :: "nat \<Rightarrow> nat option \<Rightarrow> rat \<Rightarrow> nat" where
  "retry_delay_ms tries after draw =
     (case after of
        Some ms \<Rightarrow> ms
      | None \<Rightarrow>
          let base = min (base_delay_ms * 2 ^ tries) max_backoff_ms
          in nat \<lfloor>of_nat base + draw * (1 / 4) * of_nat base + 1 / 2\<rfloor>)"

datatype retry_signal =
    SigEvent stream_event
  | SigRetrying nat nat nat string
  | SigReset nat nat string
  | SigDropPartial assistant_message

record ('w, 'req) chat_model =
  cm_stream :: "'req \<Rightarrow> 'w \<Rightarrow> (stream_event list \<times> (thrown + assistant_message)) \<times> 'w"
  cm_complete :: "'req \<Rightarrow> ('w, thrown, assistant_message) eff"
  cm_classify :: "string \<Rightarrow> retry_hint"

text \<open>The signal and the clock: whether the call is aborted, and a sleep an abort interrupts.\<close>

record 'w retry_io =
  ri_aborted :: "'w \<Rightarrow> bool"
  ri_sleep :: "nat \<Rightarrow> 'w \<Rightarrow> bool \<times> 'w"
  ri_draw :: "'w \<Rightarrow> rat"
  ri_stringify :: "json \<Rightarrow> string"

definition abort_error :: thrown where
  "abort_error = ClassedError AbortError ''This operation was aborted''"

definition error_reason :: "assistant_message \<Rightarrow> string" where
  "error_reason m = (case am_error_message m of Some t \<Rightarrow> t | None \<Rightarrow> [])"

text \<open>One attempt: what it streamed, and its outcome.\<close>

definition run_attempt ::
  "('w, 'req) chat_model \<Rightarrow> 'req \<Rightarrow> bool \<Rightarrow> 'w \<Rightarrow> (stream_event list \<times> (thrown + assistant_message)) \<times> 'w" where
  "run_attempt model req fallback w =
     (if fallback then (case cm_complete model req w of (r, w') \<Rightarrow> (([], r), w')) else cm_stream model req w)"

function stream_loop ::
  "('w, 'req) chat_model \<Rightarrow> 'w retry_io \<Rightarrow> 'req \<Rightarrow> nat \<Rightarrow> nat \<Rightarrow> bool \<Rightarrow> 'w
     \<Rightarrow> (retry_signal list \<times> (thrown + assistant_message)) \<times> 'w" where
  "stream_loop model io req max_retries tries fallback w =
     (if ri_aborted io w then (([], Inl abort_error), w)
      else case run_attempt model req fallback w of ((events, outcome), w1) \<Rightarrow>
        (case outcome of
           Inl e \<Rightarrow> ((map SigEvent events, Inl e), w1)
         | Inr message \<Rightarrow>
             if am_stop_reason message \<noteq> StopError
             then ((map SigEvent (if fallback then emit_message_events (ri_stringify io) message else events), Inr message), w1)
             else let reason = error_reason message; hint = cm_classify model reason in
               if \<not> rh_retryable hint \<or> tries \<ge> max_retries then ((map SigEvent events, Inr message), w1)
               else
                 let surfaced = \<not> fallback \<and> list_ex is_surfaced_event events;
                     delay = retry_delay_ms tries (rh_after_ms hint) (ri_draw io w1);
                     before = map SigEvent events @ [SigDropPartial message]
                       @ (if surfaced then [SigReset (tries + 1) (tries + 2) reason] else [])
                       @ [SigRetrying (tries + 1) max_retries delay reason]
                 in case ri_sleep io delay w1 of (woken, w2) \<Rightarrow>
                      if woken then ((before, Inl abort_error), w2)
                      else case stream_loop model io req max_retries (Suc tries) (fallback \<or> surfaced) w2 of
                             ((signals, r), w3) \<Rightarrow> ((before @ signals, r), w3)))"
  by pat_completeness auto
termination by (relation "measure (\<lambda>(_, _, _, m, a, _, _). m - a)") auto

declare stream_loop.simps [simp del]

definition stream_with_retry ::
  "('w, 'req) chat_model \<Rightarrow> 'w retry_io \<Rightarrow> 'req \<Rightarrow> nat option \<Rightarrow> 'w \<Rightarrow> (retry_signal list \<times> (thrown + assistant_message)) \<times> 'w" where
  "stream_with_retry model io req max_retries w =
     stream_loop model io req (case max_retries of Some n \<Rightarrow> n | None \<Rightarrow> default_max_retries) 0 False w"

section \<open>Delays, attempts and what is shown\<close>

text \<open>
  The backoff is bounded: without a delay asked for by the server, a wait is at least the base
  of 300 ms and at most 40 s, whatever the attempt and the random draw; it does not shrink from
  one attempt to the next by more than the jitter can explain.
\<close>

theorem retry_delay_bounds:
  assumes "0 \<le> draw" "draw < 1" "0 \<le> draw'" "draw' < 1"
  shows "300 \<le> retry_delay_ms tries None draw \<and> retry_delay_ms tries None draw \<le> 40000 \<and>
    4 * retry_delay_ms tries None draw \<le> 5 * retry_delay_ms (Suc tries) None draw' + 4"
proof -
  define base where "base n = min (base_delay_ms * 2 ^ n) max_backoff_ms" for n
  have delay: "base n \<le> retry_delay_ms n None d \<and> 4 * retry_delay_ms n None d \<le> 5 * base n + 2"
    if d: "0 \<le> d" "d < 1" for n d
  proof -
    define y :: rat where "y = of_nat (base n) + d * (1 / 4) * of_nat (base n) + 1 / 2"
    have b0: "(0 :: rat) \<le> of_nat (base n)" by simp
    have "0 \<le> d * of_nat (base n)" "d * of_nat (base n) \<le> 1 * of_nat (base n)"
      using d b0 by (simp, intro mult_right_mono) simp_all
    then have y: "of_nat (base n) \<le> y" "4 * y \<le> 5 * of_nat (base n) + 2" by (simp_all add: y_def)
    have low: "int (base n) \<le> \<lfloor>y\<rfloor>" using y(1) by (simp add: le_floor_iff)
    have "(4 :: rat) * of_int \<lfloor>y\<rfloor> \<le> 5 * of_nat (base n) + 2"
      using y(2) of_int_floor_le [of y] by linarith
    then have "(of_int (4 * \<lfloor>y\<rfloor>) :: rat) \<le> of_int (5 * int (base n) + 2)" by simp
    then have "4 * \<lfloor>y\<rfloor> \<le> 5 * int (base n) + 2" by (simp only: of_int_le_iff)
    moreover have "retry_delay_ms n None d = nat \<lfloor>y\<rfloor>"
      by (simp add: retry_delay_ms_def Let_def y_def base_def)
    ultimately show ?thesis using low by linarith
  qed
  have b: "300 \<le> base n" "base n \<le> 32000" "base n \<le> base (Suc n)" for n
  proof -
    have "(1 :: nat) \<le> 2 ^ n" by simp
    then have "300 * 1 \<le> 300 * (2 :: nat) ^ n" by (intro mult_le_mono) simp_all
    then show "300 \<le> base n" by (simp add: base_def base_delay_ms_def max_backoff_ms_def)
    show "base n \<le> 32000" by (simp add: base_def max_backoff_ms_def)
    show "base n \<le> base (Suc n)" by (simp add: base_def base_delay_ms_def)
  qed
  show ?thesis
    using delay [OF assms(1,2), of tries] delay [OF assms(3,4), of "Suc tries"] b [of tries] by linarith
qed

theorem retry_delay_bounds_witness:
  "300 \<le> retry_delay_ms 9 None (1 / 2) \<and> retry_delay_ms 9 None (1 / 2) \<le> 40000"
  using retry_delay_bounds [of "1 / 2" 0 9] by simp

text \<open>What a consumer that drops everything at a reset still shows.\<close>

fun shown :: "retry_signal list \<Rightarrow> stream_event list \<Rightarrow> stream_event list" where
  "shown [] acc = acc"
| "shown (SigEvent e # rest) acc = shown rest (acc @ [e])"
| "shown (SigReset _ _ _ # rest) acc = shown rest []"
| "shown (_ # rest) acc = shown rest acc"

fun retries :: "retry_signal list \<Rightarrow> nat" where
  "retries [] = 0"
| "retries (SigRetrying _ _ _ _ # rest) = Suc (retries rest)"
| "retries (_ # rest) = retries rest"

abbreviation content :: "stream_event list \<Rightarrow> stream_event list" where
  "content \<equiv> filter is_surfaced_event"

lemma retries_append [simp]: "retries (xs @ ys) = retries xs + retries ys"
  by (induction xs rule: retries.induct) simp_all

lemma retries_events [simp]: "retries (map SigEvent es) = 0"
  by (induction es) simp_all

lemma shown_events [simp]: "shown (map SigEvent es @ rest) acc = shown rest (acc @ es)"
  by (induction es arbitrary: acc) simp_all

lemma shown_events_end [simp]: "shown (map SigEvent es) acc = acc @ es"
  using shown_events [of es "[]" acc] by simp

lemma content_none: "\<not> list_ex is_surfaced_event es \<Longrightarrow> content es = []"
  by (auto simp: filter_empty_conv list_ex_iff)

text \<open>What the attempt that settled the loop produced.\<close>

definition last_attempt :: "('w, 'req) chat_model \<Rightarrow> 'w retry_io \<Rightarrow> 'req \<Rightarrow> assistant_message \<Rightarrow> stream_event list \<Rightarrow> bool" where
  "last_attempt model io req message es \<longleftrightarrow>
     (\<exists>w w'. cm_stream model req w = ((es, Inr message), w'))
     \<or> (\<exists>w w'. cm_complete model req w = (Inr message, w')) \<and>
         es = (if am_stop_reason message = StopError then [] else emit_message_events (ri_stringify io) message)"

lemma stream_loop_shows:
  assumes "stream_loop model io req max_retries tries fallback w = ((signals, Inr message), w')"
    and "tries \<le> max_retries" and "content acc = []"
  shows "retries signals \<le> max_retries - tries \<and>
    (\<exists>es. last_attempt model io req message es \<and> content (shown signals acc) = content es)"
  using assms
proof (induction model io req max_retries tries fallback w arbitrary: signals acc w' rule: stream_loop.induct)
  case (1 model io req max_retries tries fallback w)
  obtain events outcome w1 where att: "run_attempt model req fallback w = ((events, outcome), w1)"
    by (metis prod.exhaust)
  have live: "\<not> ri_aborted io w"
    using "1.prems"(1) by (subst (asm) stream_loop.simps) (auto split: if_splits)
  obtain m where m: "outcome = Inr m"
    using "1.prems"(1) by (subst (asm) stream_loop.simps) (auto simp: live att split: sum.splits)
  define final where "final = (am_stop_reason m \<noteq> StopError \<or> \<not> rh_retryable (cm_classify model (error_reason m)) \<or> tries \<ge> max_retries)"
  show ?case
  proof (cases final)
    case True
    have sig: "signals = map SigEvent (if fallback \<and> am_stop_reason m \<noteq> StopError then emit_message_events (ri_stringify io) m else events)"
      "message = m"
      using "1.prems"(1) True by (subst (asm) stream_loop.simps; auto simp: live att m final_def Let_def split: if_splits)+
    have "last_attempt model io req m (if fallback \<and> am_stop_reason m \<noteq> StopError then emit_message_events (ri_stringify io) m else events)"
      using att m by (auto simp: last_attempt_def run_attempt_def split: if_splits prod.splits)
    then show ?thesis using "1.prems"(3) by (auto simp: sig)
  next
    case False
    define reason where "reason = error_reason m"
    define delay where "delay = retry_delay_ms tries (rh_after_ms (cm_classify model reason)) (ri_draw io w1)"
    define surfaced where "surfaced = (\<not> fallback \<and> list_ex is_surfaced_event events)"
    obtain woken w2 where sl: "ri_sleep io delay w1 = (woken, w2)" by (metis prod.exhaust)
    obtain signals' r w3 where rest: "stream_loop model io req max_retries (Suc tries) (fallback \<or> surfaced) w2 = ((signals', r), w3)"
      by (metis prod.exhaust)
    have go: "\<not> woken \<and> r = Inr message \<and>
        signals = map SigEvent events @ [SigDropPartial m] @ (if surfaced then [SigReset (tries + 1) (tries + 2) reason] else [])
          @ [SigRetrying (tries + 1) max_retries delay reason] @ signals'"
      using "1.prems"(1) False rest
      by (subst (asm) stream_loop.simps)
        (auto simp: live att m final_def Let_def reason_def [symmetric] delay_def [symmetric] surfaced_def [symmetric] sl split: if_splits)
    define acc' where "acc' = (if surfaced then [] else acc @ events)"
    have "content acc' = []"
      using "1.prems"(3) att m content_none [of events]
      by (auto simp: acc'_def surfaced_def run_attempt_def split: prod.splits if_splits)
    then have IH: "retries signals' \<le> max_retries - Suc tries \<and>
        (\<exists>es. last_attempt model io req message es \<and> content (shown signals' acc') = content es)"
      using False live go rest att m sl
      by (intro "1.IH" [where w' = w3, of "(events, outcome)" w1 events outcome m reason "cm_classify model reason"])
        (auto simp: final_def reason_def delay_def surfaced_def)
    then show ?thesis using False by (auto simp: go final_def acc'_def)
  qed
qed

text \<open>
  C13. A client never shows two attempts at once: however many attempts the loop makes, at most as
  many retries as allowed, the content a client still shows at the end (everything before a reset
  dropped) is the content of the attempt whose message is returned.
\<close>

theorem one_attempt_is_shown:
  assumes "stream_with_retry model io req max_retries w = ((signals, Inr message), w')"
  shows "retries signals \<le> (case max_retries of Some n \<Rightarrow> n | None \<Rightarrow> 3) \<and>
    (\<exists>es. last_attempt model io req message es \<and> content (shown signals []) = content es)"
proof -
  have "retries signals \<le> (case max_retries of Some n \<Rightarrow> n | None \<Rightarrow> default_max_retries) - 0 \<and>
      (\<exists>es. last_attempt model io req message es \<and> content (shown signals []) = content es)"
    by (rule stream_loop_shows) (use assms in \<open>simp_all add: stream_with_retry_def\<close>)
  then show ?thesis by (simp add: default_max_retries_def split: option.splits)
qed

text \<open>
  The model adapter of the engine never retries: it classifies an error by the text the
  provider left in the message, and no text is retryable (a status code or an error class is
  needed), so every failed request is given up at its first attempt.
\<close>

theorem text_errors_never_retried:
  assumes "cm_classify model = (\<lambda>reason. classify_error (TextError reason))"
  shows "retries (fst (fst (stream_with_retry model io req max_retries w))) = 0"
proof -
  have never: "\<not> rh_retryable (cm_classify model reason)" for reason
    by (simp add: assms classify_error_def Let_def not_retryable_def)
  show ?thesis
    unfolding stream_with_retry_def
    by (subst stream_loop.simps) (auto simp: never split: sum.splits prod.splits)
qed

subsection \<open>Witnesses\<close>

definition small_usage :: usage where
  "small_usage = \<lparr>us_input = 1, us_output = 1, us_cache_read = 0, us_cache_write = 0\<rparr>"

definition failed_message :: "string \<Rightarrow> assistant_message" where
  "failed_message reason =
     \<lparr>am_content = [], am_stop_reason = StopError, am_error_message = Some reason, am_usage = small_usage\<rparr>"

definition good_message :: assistant_message where
  "good_message = \<lparr>am_content = [TextPart ''yes''], am_stop_reason = StopEnd, am_error_message = None, am_usage = small_usage\<rparr>"

text \<open>A model whose stream breaks after half a word; the request without a stream succeeds.\<close>

definition flaky_model :: "(string \<Rightarrow> retry_hint) \<Rightarrow> (nat, unit) chat_model" where
  "flaky_model classify =
     \<lparr>cm_stream = \<lambda>_ n. (([EvStart, EvTextStart 0, EvTextDelta 0 ''ye''], Inr (failed_message ''429 rate limited'')), n + 1),
      cm_complete = \<lambda>_ n. (Inr good_message, n + 1),
      cm_classify = classify\<rparr>"

definition calm_io :: "nat retry_io" where
  "calm_io = \<lparr>ri_aborted = \<lambda>_. False, ri_sleep = \<lambda>ms n. (False, n), ri_draw = \<lambda>_. 0, ri_stringify = \<lambda>_. ''{}''\<rparr>"

lemma flaky_run:
  "stream_with_retry (flaky_model (\<lambda>_. \<lparr>rh_retryable = True, rh_after_ms = Some 7\<rparr>)) calm_io () None 0 =
     (([SigEvent EvStart, SigEvent (EvTextStart 0), SigEvent (EvTextDelta 0 ''ye''),
        SigDropPartial (failed_message ''429 rate limited''), SigReset 1 2 ''429 rate limited'', SigRetrying 1 3 7 ''429 rate limited'',
        SigEvent EvStart, SigEvent (EvTextStart 0), SigEvent (EvTextDelta 0 ''yes''), SigEvent (EvTextEnd 0 ''yes''),
        SigEvent (EvDone StopEnd)], Inr good_message), 2)"
  by (simp add: stream_with_retry_def stream_loop.simps flaky_model_def calm_io_def run_attempt_def failed_message_def
      good_message_def error_reason_def retry_delay_ms_def default_max_retries_def emit_message_events_def Let_def numeral_2_eq_2)

theorem one_attempt_is_shown_witness:
  "\<exists>es. last_attempt (flaky_model (\<lambda>_. \<lparr>rh_retryable = True, rh_after_ms = Some 7\<rparr>)) calm_io () good_message es \<and>
     content es = [EvTextDelta 0 ''yes'', EvTextEnd 0 ''yes'']"
proof -
  from one_attempt_is_shown [OF flaky_run] obtain es where
    "last_attempt (flaky_model (\<lambda>_. \<lparr>rh_retryable = True, rh_after_ms = Some 7\<rparr>)) calm_io () good_message es"
    "content (shown [SigEvent EvStart, SigEvent (EvTextStart 0), SigEvent (EvTextDelta 0 ''ye''),
        SigDropPartial (failed_message ''429 rate limited''), SigReset 1 2 ''429 rate limited'', SigRetrying 1 3 7 ''429 rate limited'',
        SigEvent EvStart, SigEvent (EvTextStart 0), SigEvent (EvTextDelta 0 ''yes''), SigEvent (EvTextEnd 0 ''yes''),
        SigEvent (EvDone StopEnd)] []) = content es" by blast
  then show ?thesis by auto
qed

theorem text_errors_never_retried_witness:
  "retries (fst (fst (stream_with_retry (flaky_model (\<lambda>reason. classify_error (TextError reason))) calm_io () (Some 5) 0))) = 0"
  by (rule text_errors_never_retried) (simp add: flaky_model_def)

end
