(* ===== verification/Turn_Step.thy ===== *)
theory Turn_Step
  imports Model_Retry Conversation
begin

text \<open>
  One step of a turn (\<open>agents-core/src/loop/turn-step.ts\<close>, \<open>executeStep\<close>): the hooks before it, the
  request, the model's answer, its usage and the output guardrail, the batch of tool calls it asks
  for, and the hook after it; and the arithmetic of usage (\<open>loop/usage.ts\<close>).

  Everything the step reaches through its dependencies is a field of \<open>turn_env\<close>: the conversation
  (\<open>tv_view\<close>, \<open>tv_append\<close>, \<open>tv_audit\<close>), the event sink, the tool catalog of the capabilities, the
  output guardrail, the recording of usage, the clock and the abort signal. The model and its
  retries, the hooks, the tools and the batch are those of the other theories. Stream events are
  dispatched in their order once the attempts are over.
\<close>

section \<open>Usage\<close>

definition empty_usage :: usage where
  "empty_usage = \<lparr>us_input = 0, us_output = 0, us_cache_read = 0, us_cache_write = 0\<rparr>"

definition add_usage :: "usage \<Rightarrow> usage \<Rightarrow> usage" where
  "add_usage a b =
     \<lparr>us_input = us_input a + us_input b, us_output = us_output a + us_output b,
      us_cache_read = us_cache_read a + us_cache_read b, us_cache_write = us_cache_write a + us_cache_write b\<rparr>"

text \<open>\<open>Math.max(0, x - y)\<close> on naturals is truncated subtraction.\<close>

definition subtract_usage :: "usage \<Rightarrow> usage \<Rightarrow> usage" where
  "subtract_usage whole previous =
     \<lparr>us_input = us_input whole - us_input previous, us_output = us_output whole - us_output previous,
      us_cache_read = us_cache_read whole - us_cache_read previous,
      us_cache_write = us_cache_write whole - us_cache_write previous\<rparr>"

lemma add_usage_assoc: "add_usage (add_usage a b) c = add_usage a (add_usage b c)"
  by (simp add: add_usage_def)

lemma add_usage_empty [simp]: "add_usage empty_usage a = a" "add_usage a empty_usage = a"
  by (simp_all add: add_usage_def empty_usage_def)

lemma subtract_add_usage [simp]: "subtract_usage (add_usage a b) a = b"
  by (simp add: subtract_usage_def add_usage_def)

section \<open>What a step reaches\<close>

datatype step_stop = StepEndTurn | StepMaxTokens | StepToolUse | StepError | StepAborted | StepHandoff | StepInterrupt

text \<open>\<open>mapModelStopReason\<close>: a partial or a parked answer counts as an error.\<close>

fun map_model_stop_reason :: "stop_reason \<Rightarrow> step_stop" where
  "map_model_stop_reason StopEnd = StepEndTurn"
| "map_model_stop_reason StopLength = StepMaxTokens"
| "map_model_stop_reason StopToolUse = StepToolUse"
| "map_model_stop_reason StopError = StepError"
| "map_model_stop_reason StopAborted = StepAborted"
| "map_model_stop_reason StopPending = StepError"
| "map_model_stop_reason StopDeferred = StepError"

record llm_request =
  lr_system :: "string option"
  lr_messages :: "projected_message list"
  lr_tools :: "string list option"
  lr_params :: "json option"
  lr_session :: "string option"

type_synonym 'w turn_hooks = "('w, thrown, llm_request, assistant_message, 'w tool_plan) loop_hooks"

record 'w tool_catalog =
  tg_tools :: "(string, 'w tool) jsmap"
  tg_request_tools :: "string list"
  tg_defer :: bool
  tg_describe :: "string \<Rightarrow> string option"

record 'w output_monitor =
  om_finish :: "string \<Rightarrow> bool \<Rightarrow> usage \<Rightarrow> ('w, thrown, unit) eff"
  om_settle :: "('w, thrown, unit) eff"

datatype turn_event =
    StepStarted nat
  | ModelRequested nat llm_request
  | StepSignal nat retry_signal
  | StepCompleted nat usage step_stop
  | StepRetrying nat nat nat string
  | BatchEvent loop_event

record 'w turn_env =
  tv_hooks :: "'w turn_hooks option"
  tv_aborted :: "'w \<Rightarrow> bool"
  tv_view :: "'w \<Rightarrow> history_view"
  tv_append :: "message \<Rightarrow> prompt_origin option \<Rightarrow> 'w \<Rightarrow> 'w"
  tv_audit :: "string \<Rightarrow> assistant_message \<Rightarrow> 'w \<Rightarrow> 'w"
  tv_event :: "turn_event \<Rightarrow> 'w \<Rightarrow> 'w"
  tv_refresh :: "('w, thrown, unit) eff"
  tv_catalog :: "bool \<Rightarrow> ('w, thrown, 'w tool_catalog) eff"
  tv_system :: "string option"
  tv_params :: "json option"
  tv_session_id :: "string option"
  tv_address :: "string option"
  tv_model :: "('w, llm_request) chat_model"
  tv_io :: "'w retry_io"
  tv_max_retries :: "nat option"
  tv_monitor :: "nat \<Rightarrow> 'w output_monitor option"
  tv_record_usage :: "usage \<Rightarrow> ('w, thrown, bool) eff"
  tv_usage :: "'w \<Rightarrow> usage"
  tv_set_usage :: "usage \<Rightarrow> 'w \<Rightarrow> 'w"
  tv_now :: "'w \<Rightarrow> nat"
  tv_abort_at :: "'w \<Rightarrow> nat option"
  tv_file_answer :: "(string \<Rightarrow> approval_response \<Rightarrow> 'w \<Rightarrow> 'w) option"
  tv_completion :: "'w prepared_call list \<Rightarrow> nat list"

record step_result =
  sp_usage :: usage
  sp_stop :: step_stop
  sp_pending :: "pending_interrupt list"
  sp_suspensions :: "tool_call_suspension list"
  sp_handoff :: "handoff_signal option"

text \<open>\<open>signal.throwIfAborted()\<close>.\<close>

definition throw_if_aborted :: "'w turn_env \<Rightarrow> ('w, thrown, unit) eff" where
  "throw_if_aborted env = (\<lambda>w. if tv_aborted env w then (Inl abort_error, w) else (Inr (), w))"

definition reading :: "('w \<Rightarrow> 'a) \<Rightarrow> ('w, thrown, 'a) eff" where
  "reading f = (\<lambda>w. (Inr (f w), w))"

text \<open>A batch only consults the hooks on tools.\<close>

definition tool_hooks :: "'w turn_hooks \<Rightarrow> ('w, thrown, unit, unit, 'w tool_plan) loop_hooks" where
  "tool_hooks h =
     \<lparr>before_step = None, after_step = None, before_model_request = None, after_model_response = None,
      prepare_tool_execution = prepare_tool_execution h, authorize_tool_execution = authorize_tool_execution h,
      finalize_tool_result = finalize_tool_result h, should_continue_after_stop = None, recover_step_error = None\<rparr>"

definition batch_context :: "'w turn_env \<Rightarrow> 'w tool_catalog \<Rightarrow> batch_resume option \<Rightarrow> 'w \<Rightarrow> 'w step_context" where
  "batch_context env cat resume w =
     \<lparr>sx_tools = tg_tools cat, sx_describe_unknown = tg_describe cat, sx_hooks = map_option tool_hooks (tv_hooks env),
      sx_resume = resume, sx_now = tv_now env w, sx_abort_at = tv_abort_at env w, sx_file_answer = tv_file_answer env\<rparr>"

section \<open>The phases of a step\<close>

definition blocked_error :: "string option \<Rightarrow> string \<Rightarrow> thrown" where
  "blocked_error reason txt = Thrown (case reason of Some r \<Rightarrow> r | None \<Rightarrow> txt)"

text \<open>\<open>beforeStep\<close>: the system prompt of this step.\<close>

definition before_phase :: "'w turn_env \<Rightarrow> nat \<Rightarrow> ('w, thrown, string option) eff" where
  "before_phase env n =
     (case Option.bind (tv_hooks env) before_step of
        None \<Rightarrow> ret (tv_system env)
      | Some hook \<Rightarrow>
          andthen (hook (tv_system env)) (\<lambda>before.
            case before of
              None \<Rightarrow> ret (tv_system env)
            | Some b \<Rightarrow>
                if is_truthy (bs_block b) then throwing (blocked_error (bs_reason b) (''step '' @ js_of_nat n @ '' was blocked''))
                else ret (case bs_system b of Some s \<Rightarrow> Some s | None \<Rightarrow> tv_system env)))"

definition build_request :: "'w turn_env \<Rightarrow> string option \<Rightarrow> 'w tool_catalog \<Rightarrow> 'w \<Rightarrow> llm_request" where
  "build_request env system cat w =
     \<lparr>lr_system = system,
      lr_messages = (if tg_defer cat then with_tool_loads (tv_view env w) (set (tg_request_tools cat))
                     else map (\<lambda>mo. Plain (fst mo)) (tv_view env w)),
      lr_tools = (if tg_request_tools cat \<noteq> [] then Some (tg_request_tools cat) else None),
      lr_params = tv_params env,
      lr_session = map_option (\<lambda>s. s @ '':'' @ (case tv_address env of Some a \<Rightarrow> a | None \<Rightarrow> ''main'')) (tv_session_id env)\<rparr>"

definition request_phase :: "'w turn_env \<Rightarrow> nat \<Rightarrow> llm_request \<Rightarrow> ('w, thrown, llm_request) eff" where
  "request_phase env n request =
     (case Option.bind (tv_hooks env) before_model_request of
        None \<Rightarrow> ret request
      | Some hook \<Rightarrow>
          andthen (hook request) (\<lambda>before.
            case before of
              None \<Rightarrow> ret request
            | Some b \<Rightarrow>
                if is_truthy (bm_block b) then throwing (blocked_error (bm_reason b) (''model request for step '' @ js_of_nat n @ '' was blocked''))
                else ret (case bm_request b of Some r \<Rightarrow> r | None \<Rightarrow> request)))"

text \<open>What the retry loop reports goes to the event sink; a dropped partial to the audit log.\<close>

fun report_signal :: "'w turn_env \<Rightarrow> nat \<Rightarrow> retry_signal \<Rightarrow> 'w \<Rightarrow> 'w" where
  "report_signal env n (SigDropPartial m) w = tv_audit env ''dropped_partial'' m w"
| "report_signal env n s w = tv_event env (StepSignal n s) w"

definition ask_model :: "'w turn_env \<Rightarrow> nat \<Rightarrow> llm_request \<Rightarrow> ('w, thrown, assistant_message) eff" where
  "ask_model env n request =
     (\<lambda>w. case stream_with_retry (tv_model env) (tv_io env) request (tv_max_retries env) w of
        ((signals, outcome), w') \<Rightarrow> (outcome, fold (report_signal env n) signals w'))"

text \<open>\<open>afterModelResponse\<close>: what it throws is ignored.\<close>

definition response_phase :: "'w turn_env \<Rightarrow> assistant_message \<Rightarrow> ('w, thrown, assistant_message) eff" where
  "response_phase env message =
     (case Option.bind (tv_hooks env) after_model_response of
        None \<Rightarrow> ret message
      | Some hook \<Rightarrow>
          andthen (attempt (hook message)) (\<lambda>r. ret (case r of Inr (Some m) \<Rightarrow> m | _ \<Rightarrow> message)))"

definition assistant_text :: "assistant_message \<Rightarrow> string" where
  "assistant_text m = concat (map (\<lambda>p. case p of TextPart t \<Rightarrow> t | _ \<Rightarrow> []) (am_content m))"

text \<open>The answer, its stop reason, and whether recording its usage asked to stop.\<close>

definition settle_response ::
  "'w turn_env \<Rightarrow> nat \<Rightarrow> step_stop \<Rightarrow> assistant_message \<Rightarrow> ('w, thrown, assistant_message \<times> step_stop \<times> bool) eff" where
  "settle_response env n stop message =
     (if stop = StepError \<and> is_context_overflow_message (error_reason message)
      then andthen (change (tv_audit env ''overflow_dropped'' message))
             (\<lambda>_. throwing (ClassedError ContextOverflowError (error_reason message)))
      else andthen (change (\<lambda>w. tv_set_usage env (add_usage (tv_usage env w) (am_usage message)) w)) (\<lambda>_.
           andthen (tv_record_usage env (am_usage message)) (\<lambda>stop_turn.
           andthen (case tv_monitor env n of
                      None \<Rightarrow> ret ()
                    | Some mon \<Rightarrow> om_finish mon (assistant_text message)
                        ((if stop_turn \<and> stop = StepToolUse then StepEndTurn else stop) = StepEndTurn) (am_usage message))
             (\<lambda>_. ret (message, stop, stop_turn)))))"

definition answer_phase ::
  "'w turn_env \<Rightarrow> nat \<Rightarrow> llm_request \<Rightarrow> ('w, thrown, assistant_message \<times> step_stop \<times> bool) eff" where
  "answer_phase env n request =
     andthen (attempt (andthen (ask_model env n request) (\<lambda>answer.
                       andthen (response_phase env answer) (\<lambda>message.
                       settle_response env n (map_model_stop_reason (am_stop_reason answer)) message))))
       (\<lambda>r. case r of
              Inr out \<Rightarrow> ret out
            | Inl e \<Rightarrow> andthen (case tv_monitor env n of None \<Rightarrow> ret () | Some mon \<Rightarrow> om_settle mon) (\<lambda>_. throwing e))"

text \<open>The batch's results enter the history in their order; its events go to the sink.\<close>

definition append_results :: "'w turn_env \<Rightarrow> tool_batch_result \<times> loop_event list \<Rightarrow> 'w \<Rightarrow> 'w" where
  "append_results env b w =
     fold (\<lambda>r. tv_append env (ToolResultMsg r) None) (tb_results (fst b))
       (fold (\<lambda>e. tv_event env (BatchEvent e)) (snd b) w)"

definition batch_phase ::
  "'w turn_env \<Rightarrow> 'w tool_catalog \<Rightarrow> assistant_message \<Rightarrow> ('w, thrown, tool_batch_result option) eff" where
  "batch_phase env cat message =
     (\<lambda>w. andthen (run_tool_call_batch (batch_context env cat None w) message (tv_completion env)) (\<lambda>r.
        case r of
          None \<Rightarrow> ret None
        | Some b \<Rightarrow> andthen (change (append_results env b)) (\<lambda>_. ret (Some (fst b)))) w)"

definition is_interrupted :: "tool_batch_result \<Rightarrow> bool" where
  "is_interrupted b = (tb_pending b \<noteq> [] \<or> tb_suspensions b \<noteq> [])"

text \<open>\<open>afterStep\<close>: what it throws is ignored; it may stop the turn.\<close>

definition after_phase :: "'w turn_env \<Rightarrow> bool \<Rightarrow> ('w, thrown, bool) eff" where
  "after_phase env stop_turn =
     (case Option.bind (tv_hooks env) after_step of
        None \<Rightarrow> ret stop_turn
      | Some hook \<Rightarrow>
          andthen (attempt (hook ())) (\<lambda>r. ret (stop_turn \<or>
            (case r of Inr (Some a) \<Rightarrow> is_truthy (as_stop_turn a) | _ \<Rightarrow> False))))"

definition close_step ::
  "'w turn_env \<Rightarrow> usage \<Rightarrow> bool \<Rightarrow> step_stop \<Rightarrow> handoff_signal option \<Rightarrow> ('w, thrown, step_result option) eff" where
  "close_step env usage stop_turn stop handoff =
     andthen (throw_if_aborted env) (\<lambda>_.
     andthen (after_phase env stop_turn) (\<lambda>stopped.
       ret (Some \<lparr>sp_usage = usage, sp_stop = (if stopped \<and> stop = StepToolUse then StepEndTurn else stop),
                  sp_pending = [], sp_suspensions = [], sp_handoff = handoff\<rparr>)))"

text \<open>From the answer on; \<^const>\<open>None\<close> when the batch never settles.\<close>

definition act_phase ::
  "'w turn_env \<Rightarrow> nat \<Rightarrow> 'w tool_catalog \<Rightarrow> assistant_message \<times> step_stop \<times> bool \<Rightarrow> ('w, thrown, step_result option) eff" where
  "act_phase env n cat answered =
     (case answered of (message, stop, stop_turn) \<Rightarrow>
        andthen (change (tv_event env (StepCompleted n (am_usage message) stop))) (\<lambda>_.
        andthen (change (tv_append env (AssistantMsg message) None)) (\<lambda>_.
          if stop = StepToolUse \<and> \<not> stop_turn
          then andthen (batch_phase env cat message) (\<lambda>r.
                 case r of
                   None \<Rightarrow> ret None
                 | Some b \<Rightarrow>
                     if is_interrupted b
                     then ret (Some \<lparr>sp_usage = am_usage message, sp_stop = StepInterrupt,
                                     sp_pending = tb_pending b, sp_suspensions = tb_suspensions b, sp_handoff = None\<rparr>)
                     else close_step env (am_usage message) stop_turn
                            (if tb_handoff b \<noteq> None then StepHandoff
                             else if tb_stop_turn b then StepEndTurn else StepToolUse)
                            (tb_handoff b))
          else close_step env (am_usage message) stop_turn (if stop = StepToolUse then StepEndTurn else stop) None)))"

definition execute_step :: "'w turn_env \<Rightarrow> nat \<Rightarrow> ('w, thrown, step_result option) eff" where
  "execute_step env n =
     andthen (before_phase env n) (\<lambda>system.
     andthen (throw_if_aborted env) (\<lambda>_.
     andthen (tv_refresh env) (\<lambda>_.
     andthen (throw_if_aborted env) (\<lambda>_.
     andthen (tv_catalog env True) (\<lambda>cat.
     andthen (reading (build_request env system cat)) (\<lambda>request0.
     andthen (request_phase env n request0) (\<lambda>request.
     andthen (throw_if_aborted env) (\<lambda>_.
     andthen (change (tv_event env (StepStarted n))) (\<lambda>_.
     andthen (change (tv_event env (ModelRequested n request))) (\<lambda>_.
     andthen (answer_phase env n request) (act_phase env n cat)))))))))))"

end
