(* ===== verification/Run_Turn.thy ===== *)
theory Run_Turn
  imports Turn_Step
begin

text \<open>
  One turn (\<open>agents-core/src/loop/run-turn.ts\<close>, \<open>runTurn\<close>): re-running a paused batch, then steps
  until the model stops, with the steering messages drained before each step and once more after a
  terminal one, at most two recoveries of a failed step, and the optional bound on steps.

  The loop has fuel; \<open>OutOfFuel\<close> is a turn that is still running, \<open>Hangs\<close> one that waits for a batch
  that never settles. An assistant message is found in the history by its value (the code compares
  objects, and a batch's call ids are its own).
\<close>

datatype 'a progress = Finished 'a | Hangs | OutOfFuel

record turn_result =
  tn_stop :: step_stop
  tn_steps :: nat
  tn_usage :: usage
  tn_handoff :: "handoff_signal option"
  tn_pending :: "pending_interrupt list"
  tn_suspensions :: "tool_call_suspension list"

type_synonym steered_input = "message \<times> prompt_origin option"

record 'w turn_input =
  ti_env :: "'w turn_env"
  ti_max_steps :: "nat option"
  ti_drain :: "('w \<Rightarrow> steered_input list \<times> 'w) option"
  ti_resume_from :: "assistant_message option"
  ti_resume :: "batch_resume option"

definition max_step_recoveries_per_turn :: nat where
  "max_step_recoveries_per_turn = 2"

fun is_abort_error :: "thrown \<Rightarrow> bool" where
  "is_abort_error (ClassedError AbortError _) = True"
| "is_abort_error _ = False"

fun is_overflow :: "thrown \<Rightarrow> bool" where
  "is_overflow (ClassedError ContextOverflowError _) = True"
| "is_overflow _ = False"

definition max_steps_error :: "nat \<Rightarrow> thrown" where
  "max_steps_error n = ClassedError MaxStepsError (''max steps exceeded: '' @ js_of_nat n)"

section \<open>Resuming a paused batch\<close>

text \<open>What follows the last occurrence of a message.\<close>

fun after_last :: "message \<Rightarrow> message list \<Rightarrow> message list option" where
  "after_last m [] = None"
| "after_last m (x # xs) =
     (case after_last m xs of Some r \<Rightarrow> Some r | None \<Rightarrow> if x = m then Some xs else None)"

fun results_until_assistant :: "message list \<Rightarrow> string list" where
  "results_until_assistant (ToolResultMsg r # ms) = tm_call_id r # results_until_assistant ms"
| "results_until_assistant (AssistantMsg _ # ms) = []"
| "results_until_assistant (_ # ms) = results_until_assistant ms"
| "results_until_assistant [] = []"

definition completed_tool_call_ids :: "message list \<Rightarrow> assistant_message \<Rightarrow> string list" where
  "completed_tool_call_ids messages a =
     (case after_last (AssistantMsg a) messages of None \<Rightarrow> [] | Some later \<Rightarrow> results_until_assistant later)"

definition open_calls :: "message list \<Rightarrow> assistant_message \<Rightarrow> tool_call list" where
  "open_calls messages a =
     filter (\<lambda>c. tc_id c \<notin> set (completed_tool_call_ids messages a)) (assistant_tool_calls a)"

definition view_messages :: "'w turn_env \<Rightarrow> 'w \<Rightarrow> message list" where
  "view_messages env w = map fst (tv_view env w)"

definition turn_ends ::
  "step_stop \<Rightarrow> nat \<Rightarrow> handoff_signal option \<Rightarrow> pending_interrupt list \<Rightarrow> tool_call_suspension list \<Rightarrow> turn_result" where
  "turn_ends stop steps handoff pending suspensions =
     \<lparr>tn_stop = stop, tn_steps = steps, tn_usage = empty_usage, tn_handoff = handoff, tn_pending = pending,
      tn_suspensions = suspensions\<rparr>"

text \<open>\<open>Finished None\<close>: the turn goes on with its steps.\<close>

definition after_resume :: "tool_batch_result \<Rightarrow> turn_result option" where
  "after_resume b =
     (if is_interrupted b then Some (turn_ends StepInterrupt 0 None (tb_pending b) (tb_suspensions b))
      else if tb_handoff b \<noteq> None then Some (turn_ends StepHandoff 0 (tb_handoff b) [] [])
      else if tb_stop_turn b then Some (turn_ends StepEndTurn 0 None [] [])
      else None)"

definition resume_batch :: "'w turn_input \<Rightarrow> assistant_message \<Rightarrow> ('w, thrown, turn_result option progress) eff" where
  "resume_batch inp a =
     (let env = ti_env inp in
      andthen (tv_refresh env) (\<lambda>_.
      andthen (tv_catalog env False) (\<lambda>cat.
      andthen (\<lambda>w. run_calls (batch_context env cat (ti_resume inp) w) (open_calls (view_messages env w) a) (tv_completion env) w) (\<lambda>r.
        case r of
          None \<Rightarrow> ret Hangs
        | Some b \<Rightarrow> andthen (change (append_results env b)) (\<lambda>_. ret (Finished (after_resume (fst b))))))))"

section \<open>The steps\<close>

definition append_steered :: "'w turn_env \<Rightarrow> steered_input list \<Rightarrow> 'w \<Rightarrow> 'w" where
  "append_steered env = fold (\<lambda>(m, origin). tv_append env m origin)"

definition drain_into_history :: "'w turn_input \<Rightarrow> 'w \<Rightarrow> 'w" where
  "drain_into_history inp w =
     (case ti_drain inp of
        None \<Rightarrow> w
      | Some pull \<Rightarrow> (case pull w of (inputs, w') \<Rightarrow> append_steered (ti_env inp) inputs w'))"

text \<open>What an iteration comes to: again with these counts of steps and recoveries, or the end.\<close>

datatype iteration = Again nat nat | Ends turn_result | Stuck

definition exceeds :: "nat option \<Rightarrow> nat \<Rightarrow> bool" where
  "exceeds max_steps steps = (case max_steps of None \<Rightarrow> False | Some n \<Rightarrow> n > 0 \<and> steps \<ge> n)"

text \<open>Nobody claimed the error of a step.\<close>

definition unclaimed :: "thrown \<Rightarrow> nat \<Rightarrow> (thrown \<times> nat) + iteration" where
  "unclaimed e steps =
     (if is_overflow e then Inr (Ends (turn_ends StepError steps None [] [])) else Inl (e, steps))"

definition recover_step ::
  "'w turn_input \<Rightarrow> nat \<Rightarrow> nat \<Rightarrow> thrown \<Rightarrow> 'w \<Rightarrow> ((thrown \<times> nat) + iteration) \<times> 'w" where
  "recover_step inp steps recoveries e w =
     (if is_abort_error e \<or> tv_aborted (ti_env inp) w then (Inl (e, Suc steps), w)
      else case Option.bind (tv_hooks (ti_env inp)) recover_step_error of
          None \<Rightarrow> (unclaimed e (Suc steps), w)
        | Some hook \<Rightarrow>
            if \<not> recoveries < max_step_recoveries_per_turn then (unclaimed e (Suc steps), w)
            else case hook \<lparr>rx_error = e, rx_attempt = Suc recoveries\<rparr> w of
                   (Inl e', w') \<Rightarrow> (Inl (e', Suc steps), w')
                 | (Inr r, w') \<Rightarrow>
                     if (case r of Some x \<Rightarrow> rc_recovered x | None \<Rightarrow> False)
                     then (Inr (Again steps (Suc recoveries)),
                           tv_event (ti_env inp) (StepRetrying (Suc steps) (Suc recoveries) max_step_recoveries_per_turn (message_of e)) w')
                     else (unclaimed e (Suc steps), w'))"

text \<open>After a terminal step: the hook may go on, and so may a late steering message.\<close>

definition after_terminal ::
  "'w turn_input \<Rightarrow> nat \<Rightarrow> nat \<Rightarrow> step_stop \<Rightarrow> 'w \<Rightarrow> ((thrown \<times> nat) + iteration) \<times> 'w" where
  "after_terminal inp steps recoveries stop w =
     (case (case Option.bind (tv_hooks (ti_env inp)) should_continue_after_stop of
              None \<Rightarrow> (Inr None, w)
            | Some hook \<Rightarrow> hook () w) of
        (Inl e, w') \<Rightarrow> (Inl (e, steps), w')
      | (Inr c, w') \<Rightarrow>
          if (case c of Some x \<Rightarrow> sc_continue x | None \<Rightarrow> False) then (Inr (Again steps recoveries), w')
          else case ti_drain inp of
                 None \<Rightarrow> (Inr (Ends (turn_ends stop steps None [] [])), w')
               | Some pull \<Rightarrow>
                   (case pull w' of (late, w'') \<Rightarrow>
                      if late \<noteq> [] then (Inr (Again steps recoveries), append_steered (ti_env inp) late w'')
                      else (Inr (Ends (turn_ends stop steps None [] [])), w'')))"

definition turn_iteration ::
  "'w turn_input \<Rightarrow> nat \<Rightarrow> nat \<Rightarrow> 'w \<Rightarrow> ((thrown \<times> nat) + iteration) \<times> 'w" where
  "turn_iteration inp steps recoveries w =
     (if tv_aborted (ti_env inp) w then (Inl (abort_error, steps), w)
      else let w1 = drain_into_history inp w in
        if exceeds (ti_max_steps inp) steps
        then (Inl (max_steps_error (case ti_max_steps inp of Some n \<Rightarrow> n | None \<Rightarrow> 0), steps), w1)
        else case execute_step (ti_env inp) (Suc steps) w1 of
               (Inl e, w2) \<Rightarrow> recover_step inp steps recoveries e w2
             | (Inr None, w2) \<Rightarrow> (Inr Stuck, w2)
             | (Inr (Some step), w2) \<Rightarrow>
                 if sp_stop step = StepToolUse then (Inr (Again (Suc steps) recoveries), w2)
                 else if sp_stop step = StepHandoff
                   then (Inr (Ends (turn_ends StepHandoff (Suc steps) (sp_handoff step) [] [])), w2)
                 else if sp_stop step = StepInterrupt
                   then (Inr (Ends (turn_ends StepInterrupt (Suc steps) None (sp_pending step) (sp_suspensions step))), w2)
                 else after_terminal inp (Suc steps) recoveries (sp_stop step) w2)"

fun turn_loop :: "nat \<Rightarrow> 'w turn_input \<Rightarrow> nat \<Rightarrow> nat \<Rightarrow> ('w, thrown \<times> nat, turn_result progress) eff" where
  "turn_loop 0 inp steps recoveries w = (Inr OutOfFuel, w)"
| "turn_loop (Suc fuel) inp steps recoveries w =
     (case turn_iteration inp steps recoveries w of
        (Inl e, w') \<Rightarrow> (Inl e, w')
      | (Inr Stuck, w') \<Rightarrow> (Inr Hangs, w')
      | (Inr (Ends r), w') \<Rightarrow> (Inr (Finished r), w')
      | (Inr (Again steps' recoveries'), w') \<Rightarrow> turn_loop fuel inp steps' recoveries' w')"

text \<open>The steps, after the paused batch if there is one.\<close>

definition turn_body :: "nat \<Rightarrow> 'w turn_input \<Rightarrow> ('w, thrown \<times> nat, turn_result progress) eff" where
  "turn_body fuel inp w =
     (case ti_resume_from inp of
        None \<Rightarrow> turn_loop fuel inp 0 0 w
      | Some a \<Rightarrow>
          (case resume_batch inp a w of
             (Inl e, w') \<Rightarrow> (Inl (e, 0), w')
           | (Inr (Finished None), w') \<Rightarrow> turn_loop fuel inp 0 0 w'
           | (Inr (Finished (Some r)), w') \<Rightarrow> (Inr (Finished r), w')
           | (Inr _, w') \<Rightarrow> (Inr Hangs, w')))"

text \<open>The whole turn: an abort is a result, any other error is thrown.\<close>

definition run_turn :: "nat \<Rightarrow> 'w turn_input \<Rightarrow> ('w, thrown, turn_result progress) eff" where
  "run_turn fuel inp w =
     (case turn_body fuel inp (tv_set_usage (ti_env inp) empty_usage w) of
        (Inl (e, steps), w') \<Rightarrow>
          if is_abort_error e \<or> tv_aborted (ti_env inp) w'
          then (Inr (Finished (turn_ends StepAborted steps None [] []\<lparr>tn_usage := tv_usage (ti_env inp) w'\<rparr>)), w')
          else (Inl e, w')
      | (Inr (Finished r), w') \<Rightarrow> (Inr (Finished (r\<lparr>tn_usage := tv_usage (ti_env inp) w'\<rparr>)), w')
      | (Inr Hangs, w') \<Rightarrow> (Inr Hangs, w')
      | (Inr OutOfFuel, w') \<Rightarrow> (Inr OutOfFuel, w'))"

section \<open>A bounded turn ends\<close>

text \<open>
  A batch of calls that was started with this environment never settled, and that is where the
  world \<open>w'\<close> was left: some tool of it neither finished nor was aborted.
\<close>

definition waits_for_batch :: "'w turn_env \<Rightarrow> 'w \<Rightarrow> bool" where
  "waits_for_batch env w' \<longleftrightarrow>
     (\<exists>cat resume calls v. run_calls (batch_context env cat resume v) calls (tv_completion env) v = (Inr None, w'))"

lemma close_step_acts: "close_step env usage stop_turn stop handoff w \<noteq> (Inr None, w')"
  by (auto simp: close_step_def andthen_Inr ret_def)

lemma batch_phase_waits:
  assumes "batch_phase env cat message w = (Inr None, w')"
  shows "waits_for_batch env w'"
proof -
  obtain r v where r: "run_calls (batch_context env cat None w) (assistant_tool_calls message) (tv_completion env) w = (Inr r, v)"
    and c: "(case r of None \<Rightarrow> ret None
      | Some b \<Rightarrow> andthen (change (append_results env b)) (\<lambda>_. ret (Some (fst b)))) v = (Inr None, w')"
    using assms unfolding batch_phase_def run_tool_call_batch_def by (rule andthen_InrE)
  then have "r = None \<and> v = w'" by (cases r) (auto simp: ret_def andthen_Inr)
  with r show ?thesis by (auto simp: waits_for_batch_def)
qed

lemma act_phase_waits:
  assumes "act_phase env n cat (message, stop, stop_turn) w = (Inr None, w')"
  shows "waits_for_batch env w'"
proof -
  obtain r v v' where r: "batch_phase env cat message v = (Inr r, v')"
    and c: "(case r of None \<Rightarrow> ret None
      | Some b \<Rightarrow> if is_interrupted b
          then ret (Some \<lparr>sp_usage = am_usage message, sp_stop = StepInterrupt,
                          sp_pending = tb_pending b, sp_suspensions = tb_suspensions b, sp_handoff = None\<rparr>)
          else close_step env (am_usage message) stop_turn
                 (if tb_handoff b \<noteq> None then StepHandoff else if tb_stop_turn b then StepEndTurn else StepToolUse)
                 (tb_handoff b)) v' = (Inr None, w')"
    using assms by (auto simp: act_phase_def andthen_Inr close_step_acts split: if_splits)
  then have "r = None \<and> v' = w'" by (cases r) (auto simp: ret_def close_step_acts split: if_splits)
  with r show ?thesis by (auto dest: batch_phase_waits)
qed

lemma execute_step_waits: "execute_step env n w = (Inr None, w') \<Longrightarrow> waits_for_batch env w'"
  by (auto simp: execute_step_def andthen_Inr dest!: act_phase_waits)

lemma resume_batch_waits:
  assumes "resume_batch inp a w = (Inr Hangs, w')"
  shows "waits_for_batch (ti_env inp) w'"
proof -
  let ?env = "ti_env inp"
  obtain r cat calls v v' where r: "run_calls (batch_context ?env cat (ti_resume inp) v) calls (tv_completion ?env) v = (Inr r, v')"
    and c: "(case r of None \<Rightarrow> ret Hangs
      | Some b \<Rightarrow> andthen (change (append_results ?env b)) (\<lambda>_. ret (Finished (after_resume (fst b))))) v' = (Inr Hangs, w')"
    using assms by (auto simp: resume_batch_def Let_def andthen_Inr)
  then have "r = None \<and> v' = w'" by (cases r) (auto simp: ret_def andthen_Inr)
  with r show ?thesis by (auto simp: waits_for_batch_def)
qed

lemma recover_step_again:
  "recover_step inp steps recs e w = (Inr (Again steps' recs'), w') \<Longrightarrow>
     steps' = steps \<and> recs' = Suc recs \<and> recs < max_step_recoveries_per_turn"
  by (auto simp: recover_step_def unclaimed_def split: if_splits option.splits sum.splits prod.splits)

lemma recover_step_ends:
  "recover_step inp steps recs e w = (Inr (Ends r), w') \<Longrightarrow> tn_steps r = Suc steps \<and> tn_stop r = StepError"
  by (auto simp: recover_step_def unclaimed_def turn_ends_def split: if_splits option.splits sum.splits prod.splits)

lemma recover_step_not_stuck: "recover_step inp steps recs e w \<noteq> (Inr Stuck, w')"
  by (auto simp: recover_step_def unclaimed_def split: if_splits option.splits sum.splits prod.splits)

lemma after_terminal_cases:
  assumes "after_terminal inp steps recs stop w = (Inr it, w')"
  shows "it = Again steps recs \<or> it = Ends (turn_ends stop steps None [] [])"
  using assms by (auto simp: after_terminal_def split: if_splits option.splits sum.splits prod.splits)

lemma turn_iteration_again:
  assumes "turn_iteration inp steps recs w = (Inr (Again steps' recs'), w')"
  shows "\<not> exceeds (ti_max_steps inp) steps \<and>
    (steps' = Suc steps \<and> recs' = recs \<or> steps' = steps \<and> recs' = Suc recs \<and> recs < max_step_recoveries_per_turn)"
  using assms
  by (auto simp: turn_iteration_def Let_def split: if_splits sum.splits prod.splits option.splits
      dest!: recover_step_again after_terminal_cases)

lemma turn_iteration_ends:
  assumes "turn_iteration inp steps recs w = (Inr (Ends r), w')"
  shows "\<not> exceeds (ti_max_steps inp) steps \<and> tn_steps r = Suc steps"
  using assms
  by (auto simp: turn_iteration_def Let_def turn_ends_def split: if_splits sum.splits prod.splits option.splits
      dest!: recover_step_ends after_terminal_cases)

lemma turn_iteration_stuck:
  assumes "turn_iteration inp steps recs w = (Inr Stuck, w')"
  shows "waits_for_batch (ti_env inp) w'"
proof -
  have "execute_step (ti_env inp) (Suc steps) (drain_into_history inp w) = (Inr None, w')"
    using assms
    by (auto simp: turn_iteration_def Let_def recover_step_not_stuck split: if_splits sum.splits prod.splits option.splits
        dest!: after_terminal_cases)
  then show ?thesis by (rule execute_step_waits)
qed

lemma turn_loop_bounded:
  assumes "ti_max_steps inp = Some n" "0 < n"
  shows "(n - steps) + (max_step_recoveries_per_turn - recs) < fuel \<Longrightarrow>
    fst (turn_loop fuel inp steps recs w) \<noteq> Inr OutOfFuel \<and>
     (\<forall>r. fst (turn_loop fuel inp steps recs w) = Inr (Finished r) \<longrightarrow> tn_steps r \<le> n)"
proof (induction fuel arbitrary: steps recs w)
  case (Suc fuel)
  obtain r w' where it: "turn_iteration inp steps recs w = (r, w')" by (metis prod.exhaust)
  show ?case
  proof (cases r)
    case (Inr x)
    show ?thesis
    proof (cases x)
      case (Again steps' recs')
      then have "turn_iteration inp steps recs w = (Inr (Again steps' recs'), w')" using it Inr by simp
      note go = turn_iteration_again [OF this]
      then have "steps < n" using assms by (simp add: exceeds_def)
      then have "(n - steps') + (max_step_recoveries_per_turn - recs') < fuel" using go Suc.prems by auto
      then show ?thesis using Suc.IH it Inr Again by simp
    next
      case (Ends r')
      then show ?thesis
        using turn_iteration_ends [of inp steps recs w r' w'] it Inr assms by (auto simp: exceeds_def)
    qed (simp add: it Inr)
  qed (simp add: it)
qed simp

lemma turn_loop_waits: "turn_loop fuel inp steps recs w = (Inr Hangs, w') \<Longrightarrow> waits_for_batch (ti_env inp) w'"
proof (induction fuel arbitrary: steps recs w)
  case (Suc fuel)
  obtain r v where it: "turn_iteration inp steps recs w = (r, v)" by (metis prod.exhaust)
  show ?case
  proof (cases "r = Inr Stuck")
    case True
    then show ?thesis using turn_iteration_stuck [of inp steps recs w v] it Suc.prems by simp
  next
    case False
    then obtain s k where "r = Inr (Again s k)" "turn_loop fuel inp s k v = (Inr Hangs, w')"
      using Suc.prems it by (auto split: sum.splits iteration.splits)
    then show ?thesis using Suc.IH by blast
  qed
qed simp

lemma recover_step_error: "recover_step inp steps recs e w = (Inl (e', k), w') \<Longrightarrow> k = Suc steps"
  by (auto simp: recover_step_def unclaimed_def split: if_splits option.splits sum.splits prod.splits)

lemma after_terminal_error: "after_terminal inp steps recs stop w = (Inl (e, k), w') \<Longrightarrow> k = steps"
  by (auto simp: after_terminal_def split: if_splits option.splits sum.splits prod.splits)

lemma turn_iteration_error:
  assumes "turn_iteration inp steps recs w = (Inl (e, k), w')"
  shows "k = steps \<or> k = Suc steps \<and> \<not> exceeds (ti_max_steps inp) steps"
  using assms
  by (auto simp: turn_iteration_def Let_def split: if_splits sum.splits prod.splits option.splits
      dest!: recover_step_error after_terminal_error)

lemma turn_loop_error_steps:
  assumes "ti_max_steps inp = Some n" "0 < n"
  shows "steps \<le> n \<Longrightarrow> turn_loop fuel inp steps recs w = (Inl (e, k), w') \<Longrightarrow> k \<le> n"
proof (induction fuel arbitrary: steps recs w)
  case (Suc fuel)
  obtain r v where it: "turn_iteration inp steps recs w = (r, v)" by (metis prod.exhaust)
  show ?case
  proof (cases r)
    case (Inl ek)
    then show ?thesis using turn_iteration_error [of inp steps recs w e k v] it Suc.prems assms
      by (auto simp: exceeds_def)
  next
    case (Inr x)
    then obtain steps' recs' where again: "x = Again steps' recs'" "turn_loop fuel inp steps' recs' v = (Inl (e, k), w')"
      using Suc.prems(2) it by (auto split: iteration.splits)
    have "turn_iteration inp steps recs w = (Inr (Again steps' recs'), v)" using it Inr again by simp
    note go = turn_iteration_again [OF this]
    then have "steps' \<le> n" using assms Suc.prems(1) by (auto simp: exceeds_def)
    then show ?thesis using Suc.IH again by blast
  qed
qed simp

lemma turn_body_bounded:
  assumes "ti_max_steps inp = Some n" "0 < n" "n + 2 < fuel"
  shows "fst (turn_body fuel inp v) \<noteq> Inr OutOfFuel \<and>
    (\<forall>r. fst (turn_body fuel inp v) = Inr (Finished r) \<longrightarrow> tn_steps r \<le> n) \<and>
    (\<forall>e k. fst (turn_body fuel inp v) = Inl (e, k) \<longrightarrow> k \<le> n)"
proof -
  have loop: "fst (turn_loop fuel inp 0 0 u) \<noteq> Inr OutOfFuel \<and>
      (\<forall>r. fst (turn_loop fuel inp 0 0 u) = Inr (Finished r) \<longrightarrow> tn_steps r \<le> n) \<and>
      (\<forall>e k. fst (turn_loop fuel inp 0 0 u) = Inl (e, k) \<longrightarrow> k \<le> n)" for u
    using turn_loop_bounded [OF assms(1,2), of 0 0 fuel u] assms(3) turn_loop_error_steps [OF assms(1,2), of 0 fuel 0 u]
    by (auto simp: max_step_recoveries_per_turn_def prod_eq_iff)
  show ?thesis
  proof (cases "ti_resume_from inp")
    case None
    then show ?thesis using loop by (simp add: turn_body_def)
  next
    case (Some a)
    obtain r u where rb: "resume_batch inp a v = (r, u)" by (metis prod.exhaust)
    have "r \<noteq> Inr OutOfFuel"
      using rb by (auto simp: resume_batch_def Let_def andthen_def ret_def change_def split: prod.splits sum.splits option.splits)
    moreover have "tn_steps x = 0" if "r = Inr (Finished (Some x))" for x
      using rb that
      by (auto simp: resume_batch_def Let_def andthen_def ret_def change_def after_resume_def turn_ends_def
          split: prod.splits sum.splits option.splits if_splits)
    ultimately show ?thesis using loop [of u]
      by (auto simp: turn_body_def Some rb split: sum.splits progress.splits option.splits)
  qed
qed

lemma turn_body_waits: "turn_body fuel inp v = (Inr Hangs, w') \<Longrightarrow> waits_for_batch (ti_env inp) w'"
proof (cases "ti_resume_from inp")
  case (Some a)
  assume "turn_body fuel inp v = (Inr Hangs, w')"
  moreover obtain r u where rb: "resume_batch inp a v = (r, u)" by (metis prod.exhaust)
  moreover have "r \<noteq> Inr OutOfFuel"
    using rb by (auto simp: resume_batch_def Let_def andthen_def ret_def change_def split: prod.splits sum.splits option.splits)
  ultimately show ?thesis
    by (auto simp: turn_body_def Some dest: turn_loop_waits resume_batch_waits
        split: sum.splits progress.splits option.splits)
qed (auto simp: turn_body_def dest: turn_loop_waits)

lemma turn_outcome:
  assumes "ti_max_steps inp = Some n" "0 < n" "n + 2 < fuel"
  shows "case run_turn fuel inp w of
      (Inl e, _) \<Rightarrow> True
    | (Inr OutOfFuel, _) \<Rightarrow> False
    | (Inr (Finished r), _) \<Rightarrow> tn_steps r \<le> n
    | (Inr Hangs, w') \<Rightarrow> waits_for_batch (ti_env inp) w'"
proof -
  obtain r u where rb: "turn_body fuel inp (tv_set_usage (ti_env inp) empty_usage w) = (r, u)" by (metis prod.exhaust)
  have "r \<noteq> Inr OutOfFuel" "\<And>x. r = Inr (Finished x) \<Longrightarrow> tn_steps x \<le> n" "\<And>e k. r = Inl (e, k) \<Longrightarrow> k \<le> n"
    using turn_body_bounded [OF assms, of "tv_set_usage (ti_env inp) empty_usage w"] rb by auto
  moreover have "r = Inr Hangs \<Longrightarrow> waits_for_batch (ti_env inp) u" using rb by (auto dest: turn_body_waits)
  ultimately show ?thesis
    by (cases r) (auto simp: run_turn_def rb turn_ends_def split: progress.splits prod.splits)
qed

text \<open>
  Nothing waits once the run is aborted: a batch that was started with an abort time settles, so a
  turn whose worlds all have one throws or returns.
\<close>

lemma aborted_turn_returns:
  assumes "ti_max_steps inp = Some n" "0 < n" "n + 2 < fuel"
    and "\<And>v. tv_abort_at (ti_env inp) v \<noteq> None"
    and "\<And>prepared i. i < length prepared \<Longrightarrow> plan_of (prepared ! i) \<noteq> None
           \<Longrightarrow> i \<in> set (tv_completion (ti_env inp) prepared)"
  shows "fst (run_turn fuel inp w) \<noteq> Inr OutOfFuel \<and> fst (run_turn fuel inp w) \<noteq> Inr Hangs"
proof -
  have "\<not> waits_for_batch (ti_env inp) v" for v
  proof
    assume "waits_for_batch (ti_env inp) v"
    then obtain cat resume calls u where
      c: "run_calls (batch_context (ti_env inp) cat resume u) calls (tv_completion (ti_env inp)) u = (Inr None, v)"
      by (auto simp: waits_for_batch_def)
    obtain a where "sx_abort_at (batch_context (ti_env inp) cat resume u) = Some a"
      using assms(4) [of u] by (auto simp: batch_context_def)
    from aborted_batch_settled [OF this c assms(5)] show False by simp
  qed
  then show ?thesis using turn_outcome [OF assms(1-3), of w]
    by (auto split: prod.splits sum.splits progress.splits)
qed

text \<open>
  C9. A turn with a bound on its steps does not run for ever by itself. With fuel for that many
  steps and two recoveries more it never runs out of fuel: it throws, or it returns, also when
  aborted, a result that reports at most that many steps, or it waits, where it was left, for a
  batch of tool calls that never settles.
\<close>

theorem bounded_turn_ends:
  assumes "ti_max_steps inp = Some n" "0 < n" "n + 2 < fuel"
  shows "case run_turn fuel inp w of
      (Inl e, _) \<Rightarrow> True
    | (Inr OutOfFuel, _) \<Rightarrow> False
    | (Inr (Finished r), _) \<Rightarrow> tn_steps r \<le> n
    | (Inr Hangs, w') \<Rightarrow> waits_for_batch (ti_env inp) w'"
  by (rule turn_outcome [OF assms])

section \<open>No steering message is left behind\<close>

lemma turn_loop_drained:
  assumes "turn_loop fuel inp steps recs w = (Inr (Finished r), w')" "ti_drain inp = Some pull"
    and "tn_stop r = StepEndTurn \<or> tn_stop r = StepMaxTokens"
  shows "\<exists>v. pull v = ([], w')"
  using assms(1)
proof (induction fuel arbitrary: steps recs w)
  case (Suc fuel)
  obtain x v where it: "turn_iteration inp steps recs w = (x, v)" by (metis prod.exhaust)
  show ?case
  proof (cases "\<exists>s k. x = Inr (Again s k)")
    case True
    then show ?thesis using Suc it by auto
  next
    case False
    then have e: "turn_iteration inp steps recs w = (Inr (Ends r), w')"
      using Suc.prems it by (auto split: sum.splits iteration.splits)
    then obtain stop u where "after_terminal inp (Suc steps) recs stop u = (Inr (Ends r), w')"
      using assms(3)
      by (auto simp: turn_iteration_def Let_def turn_ends_def split: if_splits sum.splits prod.splits option.splits
          dest!: recover_step_ends)
    then show ?thesis
      by (auto simp: after_terminal_def assms(2) split: if_splits sum.splits prod.splits option.splits)
  qed
qed simp

text \<open>
  C12. A user's message that arrives while a turn runs is answered in that turn: when a turn that
  did not resume a paused batch ends because the model had finished (or ran out of tokens), the
  last thing it did was to drain the steering queue, and the queue was empty.
\<close>

theorem no_steering_left_behind:
  assumes "run_turn fuel inp w = (Inr (Finished r), w')" and "ti_resume_from inp = None"
    and "ti_drain inp = Some pull" and "tn_stop r = StepEndTurn \<or> tn_stop r = StepMaxTokens"
  shows "\<exists>v. pull v = ([], w')"
proof -
  obtain x u where loop: "turn_loop fuel inp 0 0 (tv_set_usage (ti_env inp) empty_usage w) = (x, u)" by (metis prod.exhaust)
  with assms(1,2,4) obtain r' where "x = Inr (Finished r')" "u = w'" "tn_stop r' = tn_stop r"
    by (auto simp: run_turn_def turn_body_def turn_ends_def split: sum.splits prod.splits progress.splits if_splits)
  then show ?thesis using turn_loop_drained loop assms(3,4) by metis
qed

subsection \<open>Witnesses\<close>

text \<open>A world of a steering queue, a history and the number of requests made.\<close>

type_synonym small_world = "steered_input list \<times> history_view \<times> nat"

definition late_message :: message where
  "late_message = some_text ''wait''"

definition answer_of :: "stop_reason \<Rightarrow> assistant_message" where
  "answer_of stop = \<lparr>am_content = [TextPart ''ok''], am_stop_reason = stop, am_error_message = None, am_usage = small_usage\<rparr>"

text \<open>The user types while the first request runs; the model answers every request the same way.\<close>

definition small_model :: "stop_reason \<Rightarrow> (small_world, llm_request) chat_model" where
  "small_model stop =
     \<lparr>cm_stream = \<lambda>_ (queue, h, n).
        (([EvStart], Inr (answer_of stop)), (if n = 0 then queue @ [(late_message, None)] else queue, h, n + 1)),
      cm_complete = \<lambda>_ (queue, h, n). (Inr (answer_of stop), (queue, h, n + 1)),
      cm_classify = \<lambda>_. not_retryable\<rparr>"

definition small_env :: "stop_reason \<Rightarrow> small_world turn_env" where
  "small_env stop =
     \<lparr>tv_hooks = None, tv_aborted = \<lambda>_. False, tv_view = \<lambda>(_, h, _). h,
      tv_append = \<lambda>m origin (queue, h, n). (queue, h @ [(m, origin)], n),
      tv_audit = \<lambda>_ _ w. w, tv_event = \<lambda>_ w. w, tv_refresh = ret (),
      tv_catalog = \<lambda>_. ret \<lparr>tg_tools = [], tg_request_tools = [], tg_defer = False, tg_describe = \<lambda>_. None\<rparr>,
      tv_system = None, tv_params = None, tv_session_id = None, tv_address = None,
      tv_model = small_model stop,
      tv_io = \<lparr>ri_aborted = \<lambda>_. False, ri_sleep = \<lambda>_ w. (False, w), ri_draw = \<lambda>_. 0, ri_stringify = \<lambda>_. ''{}''\<rparr>,
      tv_max_retries = None, tv_monitor = \<lambda>_. None, tv_record_usage = \<lambda>_. ret False,
      tv_usage = \<lambda>_. empty_usage, tv_set_usage = \<lambda>_ w. w, tv_now = \<lambda>_. 0, tv_abort_at = \<lambda>_. None,
      tv_file_answer = None, tv_completion = \<lambda>_. []\<rparr>"

definition small_turn :: "stop_reason \<Rightarrow> small_world turn_input" where
  "small_turn stop =
     \<lparr>ti_env = small_env stop, ti_max_steps = Some 5, ti_drain = Some (\<lambda>(queue, h, n). (queue, [], h, n)),
      ti_resume_from = None, ti_resume = None\<rparr>"

lemmas small_defs = small_turn_def small_env_def small_model_def answer_of_def late_message_def

lemmas empty_batch_defs = batch_phase_def run_tool_call_batch_def run_calls_def assistant_tool_calls_def
  settle_batch_def finish_batch_def append_results_def is_interrupted_def map_filter_simps

lemma small_answer:
  "stop \<noteq> StopError \<Longrightarrow> stream_loop (small_model stop) (tv_io (small_env stop)) req m tries False (queue, h, n) =
     (([SigEvent EvStart], Inr (answer_of stop)), (if n = 0 then queue @ [(late_message, None)] else queue, h, n + 1))"
  by (subst stream_loop.simps) (simp add: small_model_def small_env_def run_attempt_def answer_of_def)

lemma small_step:
  assumes "stop = StopEnd \<or> stop = StopToolUse"
  shows "execute_step (small_env stop) k (queue, h, n) =
     (Inr (Some \<lparr>sp_usage = small_usage, sp_stop = map_model_stop_reason stop, sp_pending = [], sp_suspensions = [], sp_handoff = None\<rparr>),
      (if n = 0 then queue @ [(late_message, None)] else queue, h @ [(AssistantMsg (answer_of stop), None)], n + 1))"
proof -
  have ask: "ask_model (small_env stop) k req (queue, h, n) =
      (Inr (answer_of stop), (if n = 0 then queue @ [(late_message, None)] else queue, h, n + 1))" for req
    using assms small_answer [of stop req default_max_retries 0 queue h n]
    by (auto simp: ask_model_def stream_with_retry_def small_env_def)
  show ?thesis
    using assms ask [unfolded small_env_def]
    by (auto simp: execute_step_def before_phase_def throw_if_aborted_def reading_def request_phase_def
        answer_phase_def response_phase_def settle_response_def act_phase_def close_step_def after_phase_def
        attempt_def change_def andthen_def ret_def small_env_def answer_of_def empty_batch_defs)
qed

theorem bounded_turn_ends_witness:
  "case run_turn 8 (small_turn StopToolUse) ([], [], 0) of
      (Inl e, _) \<Rightarrow> True
    | (Inr OutOfFuel, _) \<Rightarrow> False
    | (Inr (Finished r), _) \<Rightarrow> tn_steps r \<le> 5
    | (Inr Hangs, w') \<Rightarrow> waits_for_batch (small_env StopToolUse) w'"
proof -
  have "ti_max_steps (small_turn StopToolUse) = Some 5" "ti_env (small_turn StopToolUse) = small_env StopToolUse"
    by (simp_all add: small_turn_def)
  with bounded_turn_ends [of "small_turn StopToolUse" 5 8 "([], [], 0)"] show ?thesis by (simp only:)
qed

lemma small_turn_run:
  "run_turn 8 (small_turn StopEnd) ([], [], 0) =
     (Inr (Finished (turn_ends StepEndTurn 2 None [] [])),
      ([], [(AssistantMsg (answer_of StopEnd), None), (late_message, None), (AssistantMsg (answer_of StopEnd), None)], 2))"
proof -
  have e: "ti_env (small_turn StopEnd) = small_env StopEnd" "ti_drain (small_turn StopEnd) = Some (\<lambda>(queue, h, n). (queue, [], h, n))"
    "ti_max_steps (small_turn StopEnd) = Some 5" "ti_resume_from (small_turn StopEnd) = None"
    by (simp_all add: small_turn_def)
  have f: "tv_hooks (small_env StopEnd) = None" "tv_aborted (small_env StopEnd) = (\<lambda>_. False)"
    "tv_append (small_env StopEnd) = (\<lambda>m origin (queue, h, n). (queue, h @ [(m, origin)], n))"
    "tv_set_usage (small_env StopEnd) = (\<lambda>_ w. w)" "tv_usage (small_env StopEnd) = (\<lambda>_. empty_usage)"
    by (simp_all add: small_env_def)
  show ?thesis
    by (simp add: run_turn_def turn_body_def turn_iteration_def e f Let_def exceeds_def drain_into_history_def
        append_steered_def small_step after_terminal_def turn_ends_def numeral_eq_Suc)
qed

theorem no_steering_left_behind_witness:
  "\<exists>v. the (ti_drain (small_turn StopEnd)) v =
     ([], ([], [(AssistantMsg (answer_of StopEnd), None), (late_message, None), (AssistantMsg (answer_of StopEnd), None)], 2))"
  by (rule no_steering_left_behind [OF small_turn_run]) (simp_all add: small_turn_def turn_ends_def)

end
