(* ===== verification/Spawn_Limit.thy ===== *)
theory Spawn_Limit
  imports Agent_Prelude
begin

text \<open>
  The limit on concurrently spawned agents (\<open>agents-core/src/agent/concurrency.ts\<close>).

  \<open>Semaphore.run\<close> is split where it suspends: \<open>sem_enter\<close> is its entry (a caller gets a slot or
  waits), \<open>sem_exit\<close> its \<open>finally\<close> block (the slot goes to the longest waiter, or back). Callers
  have names; \<open>sm_holders\<close> are those that own a slot, whether they run already or are about to be
  resumed. The number of processors and the session are arguments.
\<close>

record 'c semaphore =
  sm_active :: nat
  sm_queue :: "'c list"
  sm_holders :: "'c list"
  sm_max :: nat

definition new_semaphore :: "nat \<Rightarrow> 'c semaphore" where
  "new_semaphore n = \<lparr>sm_active = 0, sm_queue = [], sm_holders = [], sm_max = n\<rparr>"

definition sem_enter :: "'c \<Rightarrow> 'c semaphore \<Rightarrow> 'c semaphore" where
  "sem_enter c s =
     (if sm_active s \<ge> sm_max s then s\<lparr>sm_queue := sm_queue s @ [c]\<rparr>
      else s\<lparr>sm_active := sm_active s + 1, sm_holders := sm_holders s @ [c]\<rparr>)"

definition sem_exit :: "'c \<Rightarrow> 'c semaphore \<Rightarrow> 'c semaphore" where
  "sem_exit c s =
     (let held = remove1 c (sm_holders s) in
      case sm_queue s of
        woken # waiting \<Rightarrow> s\<lparr>sm_queue := waiting, sm_holders := held @ [woken]\<rparr>
      | [] \<Rightarrow> s\<lparr>sm_active := sm_active s - 1, sm_holders := held\<rparr>)"

text \<open>\<open>defaultSpawnConcurrency\<close>, for a machine with so many processors.\<close>

definition default_spawn_concurrency :: "nat \<Rightarrow> int" where
  "default_spawn_concurrency cpus = min 16 (max 2 (int cpus - 2))"

text \<open>
  \<open>spawnLimiterFor\<close>: the limiters by session; a spawn that must not queue gets \<^const>\<open>None\<close>. The
  first spawn of a session decides its limit.
\<close>

definition spawn_limiter_for ::
  "bool \<Rightarrow> 's \<Rightarrow> int option \<Rightarrow> nat \<Rightarrow> ('s, 'c semaphore) jsmap \<Rightarrow> 'c semaphore option \<times> ('s, 'c semaphore) jsmap" where
  "spawn_limiter_for is_subframe session limit cpus limiters =
     (if is_subframe then (None, limiters)
      else let n = (case limit of Some l \<Rightarrow> l | None \<Rightarrow> default_spawn_concurrency cpus) in
        if n \<le> 0 then (None, limiters)
        else case map_of limiters session of
               Some s \<Rightarrow> (Some s, limiters)
             | None \<Rightarrow> (Some (new_semaphore (nat n)), jset session (new_semaphore (nat n)) limiters))"

section \<open>The limit holds and nobody overtakes\<close>

text \<open>A run: callers enter, and callers that own a slot leave. A caller that owns none cannot leave.\<close>

datatype 'c sem_event = Enter 'c | Exit 'c

fun sem_step :: "'c sem_event \<Rightarrow> 'c semaphore \<Rightarrow> 'c semaphore" where
  "sem_step (Enter c) s = sem_enter c s"
| "sem_step (Exit c) s = (if c \<in> set (sm_holders s) then sem_exit c s else s)"

definition sem_run :: "'c sem_event list \<Rightarrow> 'c semaphore \<Rightarrow> 'c semaphore" where
  "sem_run = fold sem_step"

fun entered :: "'c sem_event list \<Rightarrow> 'c list" where
  "entered [] = []"
| "entered (Enter c # es) = c # entered es"
| "entered (Exit c # es) = entered es"

text \<open>Who got a slot, in the order in which the slots were given.\<close>

fun admitted :: "'c sem_event list \<Rightarrow> 'c semaphore \<Rightarrow> 'c list" where
  "admitted [] s = []"
| "admitted (e # es) s =
     (case e of
        Enter c \<Rightarrow> if sm_active s \<ge> sm_max s then [] else [c]
      | Exit c \<Rightarrow> if c \<in> set (sm_holders s) then take 1 (sm_queue s) else [])
     @ admitted es (sem_step e s)"

definition sem_ok :: "'c semaphore \<Rightarrow> bool" where
  "sem_ok s \<longleftrightarrow> sm_active s = length (sm_holders s) \<and> sm_active s \<le> sm_max s \<and>
     (sm_queue s = [] \<or> sm_active s = sm_max s)"

lemma sem_ok_new [simp]: "sem_ok (new_semaphore n)"
  by (simp add: sem_ok_def new_semaphore_def)

lemma sem_step_ok:
  assumes "sem_ok s"
  shows "sem_ok (sem_step e s) \<and> sm_max (sem_step e s) = sm_max s \<and>
    sm_queue s @ entered [e] = admitted [e] s @ sm_queue (sem_step e s)"
proof (cases e)
  case (Enter c)
  then show ?thesis using assms by (auto simp: sem_ok_def sem_enter_def)
next
  case (Exit c)
  show ?thesis
  proof (cases "c \<in> set (sm_holders s)")
    case True
    then have "length (remove1 c (sm_holders s)) = length (sm_holders s) - 1" "sm_holders s \<noteq> []"
      by (auto simp: length_remove1)
    then show ?thesis using assms Exit True
      by (auto simp: sem_ok_def sem_exit_def Let_def split: list.splits)
  qed (use assms Exit in simp)
qed

lemma sem_run_ok:
  assumes "sem_ok s"
  shows "sem_ok (sem_run es s) \<and> sm_max (sem_run es s) = sm_max s \<and>
    sm_queue s @ entered es = admitted es s @ sm_queue (sem_run es s)"
  using assms
proof (induction es arbitrary: s)
  case (Cons e es)
  note one = sem_step_ok [OF Cons.prems, of e]
  then have rest: "sem_ok (sem_run es (sem_step e s))" "sm_max (sem_run es (sem_step e s)) = sm_max s"
    "sm_queue (sem_step e s) @ entered es = admitted es (sem_step e s) @ sm_queue (sem_run es (sem_step e s))"
    using Cons.IH by auto
  have "entered (e # es) = entered [e] @ entered es" by (cases e) simp_all
  moreover have "admitted (e # es) s = admitted [e] s @ admitted es (sem_step e s)" by simp
  moreover have "sem_run (e # es) s = sem_run es (sem_step e s)" by (simp add: sem_run_def)
  ultimately show ?case using one rest by (metis append.assoc)
qed (simp add: sem_run_def)

text \<open>
  C37. The limit on spawned agents holds in every state: the count of taken slots is the number of
  callers that own one and never exceeds the maximum; nobody waits while a slot is free; and the
  callers get their slots exactly in the order in which they came, those without one being queued.
\<close>

theorem spawn_limit_holds:
  "case sem_run es (new_semaphore n) of s \<Rightarrow>
     sm_active s = length (sm_holders s) \<and> length (sm_holders s) \<le> n \<and>
     (sm_queue s = [] \<or> length (sm_holders s) = n) \<and>
     entered es = admitted es (new_semaphore n) @ sm_queue s"
  using sem_run_ok [OF sem_ok_new, of es n] by (auto simp: sem_ok_def) (simp_all add: new_semaphore_def)

text \<open>A slot that is given back goes to the first waiter.\<close>

lemma exit_serves_first_waiter:
  "sm_queue s = w # ws \<Longrightarrow> w \<in> set (sm_holders (sem_exit c s)) \<and> sm_queue (sem_exit c s) = ws"
  by (simp add: sem_exit_def)

text \<open>
  The default limit lies between 2 and 16, so by default a spawn is always limited, and only
  the spawns of a root frame are: one of a subagent never waits for a slot its parent holds.
\<close>

theorem default_limit_bounds:
  "2 \<le> default_spawn_concurrency cpus \<and> default_spawn_concurrency cpus \<le> 16 \<and>
   fst (spawn_limiter_for True session limit cpus limiters) = None \<and>
   fst (spawn_limiter_for False session None cpus limiters) \<noteq> None"
  by (auto simp: default_spawn_concurrency_def spawn_limiter_for_def Let_def split: option.splits)

end
