(* ===== verification/Projection.thy ===== *)
theory Projection
  imports Steer_Bus
begin

text \<open>
  The state a client sees, folded from events (\<open>agents-core/src/events/projection.ts\<close>); the event
  a durable record stands for (\<open>events/publisher.ts\<close>); and the store that stamps a checkpoint with
  the state of its shard (\<open>store/checkpointing-store.ts\<close>).

  A stored record is an \<^typ>\<open>agent_record\<close> with its event id and its checkpoint stamp. A projection
  holds one \<open>agent_state\<close> per address. Values the projection only passes on (the progress of a tool,
  an input request) are JSON. \<open>jt_string\<close> stands for \<open>String(v)\<close> of a value that is no string and
  \<open>jt_preview\<close> for the clipped rendering of a result.

  Of an event, the fields that the fold or a record gives are kept; the signals the fold only counts
  as activity (goals, plans, skills, warnings) are one constructor, \<open>OtherSignal\<close>.
\<close>

section \<open>Events\<close>

datatype step_phase = WfQueued | WfRunning | WfDone | WfError

record workflow_agent =
  wa_index :: int
  wa_label :: string
  wa_phase :: "string option"
  wa_agent_id :: "string option"
  wa_address :: "string option"
  wa_state :: step_phase
  wa_error :: "string option"
  wa_preview :: "string option"

datatype phase_kind = NormalPhase | ChildPhase

datatype workflow_status = WfCompleted | WfFailed | WfAborted

datatype workflow_progress =
    WfStarted string
  | WfPhase int string phase_kind
  | WfAgent workflow_agent
  | WfLog string
  | WfOutcome workflow_status bool "string option"

datatype agent_event_body =
    Lifecycle lifecycle_event
  | TurnStepStarted string nat string
  | TurnStepCompleted nat
  | TurnStepRetrying nat
  | TurnStepReset nat
  | TurnStepInterrupted nat string
  | ModelRequest nat
  | ContentPart content_part
  | AssistantDelta string
  | ThinkingDelta string
  | MessageAppended message "prompt_origin option"
  | HistoryReplaced "message list" "prompt_origin option list option"
  | HistoryCompacted nat string nat "loaded_tool list option"
  | ToolCallStarted string string json
  | ToolCallDelta string string
  | ToolProgress string json
  | ToolResultEvent string
  | WorkflowProgress string "string option" workflow_progress
  | HandoffEvent string string
  | UsageUpdated usage
  | GuardrailBlocked string string
  | OtherSignal string

record agent_event =
  ev_id :: string
  ev_address :: string
  ev_body :: agent_event_body

section \<open>State\<close>

record tool_call_state =
  ts_id :: string
  ts_name :: string
  ts_args :: json
  ts_progress :: "json option"
  ts_detachable :: bool
  ts_suspended :: "json option option"

record turn_state =
  tu_id :: string
  tu_origin :: "prompt_origin option"
  tu_step :: nat
  tu_step_id :: "string option"
  tu_parts :: "content_part list"
  tu_text_tail :: string
  tu_thinking_tail :: string
  tu_calls :: "(string, tool_call_state) jsmap"
  tu_paused :: "pending_run_interrupt list option"

record agent_state =
  ag_address :: string
  ag_agent :: "string option"
  ag_parent :: "string option"
  ag_live :: bool
  ag_history :: history_fold
  ag_turn :: "turn_state option"
  ag_pending_steers :: "steer_message list"
  ag_usage :: "usage option"
  ag_last_event_at :: "nat option"

record workflow_state =
  wr_run_id :: string
  wr_call_id :: "string option"
  wr_live :: bool
  wr_phases :: "(int \<times> string \<times> phase_kind) list"
  wr_agents :: "(int, workflow_agent) jsmap"
  wr_logs :: "string list"
  wr_last_event_at :: "nat option"

record projection =
  pj_agents :: "(string, agent_state) jsmap"
  pj_workflows :: "(string, workflow_state) jsmap"
  pj_last_event_id :: "string option"
  pj_track_history :: bool

definition new_projection :: "bool \<Rightarrow> projection" where
  "new_projection track = \<lparr>pj_agents = [], pj_workflows = [], pj_last_event_id = None, pj_track_history = track\<rparr>"

definition fresh_agent :: "string \<Rightarrow> agent_state" where
  "fresh_agent address =
     \<lparr>ag_address = address, ag_agent = None, ag_parent = None, ag_live = False, ag_history = empty_fold,
      ag_turn = None, ag_pending_steers = [], ag_usage = None, ag_last_event_at = None\<rparr>"

definition state_for :: "string \<Rightarrow> projection \<Rightarrow> agent_state" where
  "state_for address pj = (case map_of (pj_agents pj) address of Some st \<Rightarrow> st | None \<Rightarrow> fresh_agent address)"

definition has_agent :: "string \<Rightarrow> projection \<Rightarrow> bool" where
  "has_agent address pj = (map_of (pj_agents pj) address \<noteq> None)"

definition set_agent :: "string \<Rightarrow> agent_state \<Rightarrow> projection \<Rightarrow> projection" where
  "set_agent address st pj = pj\<lparr>pj_agents := jset address st (pj_agents pj)\<rparr>"

definition fresh_workflow :: "string \<Rightarrow> workflow_state" where
  "fresh_workflow run =
     \<lparr>wr_run_id = run, wr_call_id = None, wr_live = True, wr_phases = [], wr_agents = [], wr_logs = [], wr_last_event_at = None\<rparr>"

definition workflow_for :: "string \<Rightarrow> projection \<Rightarrow> workflow_state" where
  "workflow_for run pj = (case map_of (pj_workflows pj) run of Some r \<Rightarrow> r | None \<Rightarrow> fresh_workflow run)"

section \<open>The fold\<close>

definition on_turn :: "(turn_state \<Rightarrow> turn_state) \<Rightarrow> agent_state \<Rightarrow> agent_state" where
  "on_turn f st = (case ag_turn st of None \<Rightarrow> st | Some t \<Rightarrow> st\<lparr>ag_turn := Some (f t)\<rparr>)"

definition clear_parts :: "turn_state \<Rightarrow> turn_state" where
  "clear_parts t = t\<lparr>tu_parts := [], tu_text_tail := [], tu_thinking_tail := []\<rparr>"

definition new_turn :: "string \<Rightarrow> prompt_origin option \<Rightarrow> turn_state" where
  "new_turn turn origin =
     \<lparr>tu_id = turn, tu_origin = origin, tu_step = 0, tu_step_id = None, tu_parts = [], tu_text_tail = [],
      tu_thinking_tail = [], tu_calls = [], tu_paused = None\<rparr>"

definition new_call :: "string \<Rightarrow> string \<Rightarrow> json \<Rightarrow> tool_call_state" where
  "new_call call name args =
     \<lparr>ts_id = call, ts_name = name, ts_args = args, ts_progress = None, ts_detachable = False, ts_suspended = None\<rparr>"

definition start_call :: "string \<Rightarrow> string \<Rightarrow> json \<Rightarrow> turn_state \<Rightarrow> turn_state" where
  "start_call call name args t = t\<lparr>tu_calls := jset call (new_call call name args) (tu_calls t)\<rparr>"

text \<open>A call has its result: it is gone, and so is what waited for it.\<close>

definition settle_call :: "string \<Rightarrow> turn_state \<Rightarrow> turn_state" where
  "settle_call call t =
     (let t' = t\<lparr>tu_calls := jdelete call (tu_calls t)\<rparr> in
      case tu_paused t of
        None \<Rightarrow> t'
      | Some ps \<Rightarrow>
          let remaining = filter (\<lambda>p. pending_call_id (pn_item p) \<noteq> call) ps
          in t'\<lparr>tu_paused := (if remaining \<noteq> [] then Some remaining else None)\<rparr>)"

definition on_call :: "string \<Rightarrow> (tool_call_state \<Rightarrow> tool_call_state) \<Rightarrow> turn_state \<Rightarrow> turn_state" where
  "on_call call f t =
     (case map_of (tu_calls t) call of None \<Rightarrow> t | Some c \<Rightarrow> t\<lparr>tu_calls := jset call (f c) (tu_calls t)\<rparr>)"

definition absorb_message :: "message \<Rightarrow> turn_state \<Rightarrow> turn_state" where
  "absorb_message m t =
     (case m of
        AssistantMsg a \<Rightarrow>
          fold (\<lambda>c. start_call (tc_id c) (tc_name c) (tc_arguments c)) (assistant_tool_calls a) (clear_parts t)
      | ToolResultMsg r \<Rightarrow> settle_call (tm_call_id r) t
      | _ \<Rightarrow> t)"

text \<open>\<open>"steerId" in origin ? origin.steerId : undefined\<close>.\<close>

fun steer_id_of :: "prompt_origin \<Rightarrow> string option" where
  "steer_id_of (OriginUser s) = s"
| "steer_id_of (OriginUserFollowUp s) = s"
| "steer_id_of (OriginBackgroundTask _ _ _ _ s) = s"
| "steer_id_of (OriginExtension _ _ s) = s"
| "steer_id_of (OriginCronJob _ _ _ _ _ s) = s"
| "steer_id_of (OriginCronMissed _ s) = s"
| "steer_id_of (OriginExternal _ _ _ s) = s"
| "steer_id_of _ = None"

definition consume_steer :: "prompt_origin option \<Rightarrow> agent_state \<Rightarrow> agent_state" where
  "consume_steer origin st =
     (case Option.bind origin steer_id_of of
        None \<Rightarrow> st
      | Some i \<Rightarrow> st\<lparr>ag_pending_steers := filter (\<lambda>p. sq_id p \<noteq> i) (ag_pending_steers st)\<rparr>)"

definition on_history :: "bool \<Rightarrow> (history_fold \<Rightarrow> history_fold) \<Rightarrow> agent_state \<Rightarrow> agent_state" where
  "on_history track f st = (if track then st\<lparr>ag_history := f (ag_history st)\<rparr> else st)"

fun fold_lifecycle :: "lifecycle_event \<Rightarrow> agent_state \<Rightarrow> agent_state" where
  "fold_lifecycle (AgentStarted agent parent) st =
     st\<lparr>ag_live := True, ag_agent := Some agent, ag_parent := (if parent \<noteq> None then parent else ag_parent st)\<rparr>"
| "fold_lifecycle (AgentEnded agent) st = st\<lparr>ag_live := False, ag_turn := None\<rparr>"
| "fold_lifecycle (TurnStarted turn origin) st = st\<lparr>ag_turn := Some (new_turn turn origin)\<rparr>"
| "fold_lifecycle (TurnEnded turn reason err) st = st\<lparr>ag_turn := None\<rparr>"
| "fold_lifecycle (TurnPaused pending) st = on_turn (\<lambda>t. t\<lparr>tu_paused := Some pending\<rparr>) st"
| "fold_lifecycle (SteerQueued steer_id channel origin m) st =
     st\<lparr>ag_pending_steers := ag_pending_steers st
       @ [\<lparr>sq_id = steer_id, sq_channel = channel, sq_origin = origin, sq_message = m\<rparr>]\<rparr>"
| "fold_lifecycle (ToolDetachable call name) st = on_turn (on_call call (\<lambda>c. c\<lparr>ts_detachable := True\<rparr>)) st"
| "fold_lifecycle (ToolSuspended call name request) st = on_turn (on_call call (\<lambda>c. c\<lparr>ts_suspended := Some request\<rparr>)) st"

fun fold_event :: "bool \<Rightarrow> agent_event_body \<Rightarrow> agent_state \<Rightarrow> agent_state" where
  "fold_event track (Lifecycle e) st = fold_lifecycle e st"
| "fold_event track (TurnStepStarted turn step step_id) st =
     on_turn (\<lambda>t. (clear_parts t)\<lparr>tu_step := step, tu_step_id := Some step_id, tu_calls := [], tu_paused := None\<rparr>) st"
| "fold_event track (TurnStepReset step) st = on_turn clear_parts st"
| "fold_event track (TurnStepInterrupted step reason) st =
     on_turn (\<lambda>t. t\<lparr>tu_text_tail := [], tu_thinking_tail := []\<rparr>) st"
| "fold_event track (ContentPart part) st =
     on_turn (\<lambda>t. let t' = t\<lparr>tu_parts := tu_parts t @ [part]\<rparr> in
       (case part of TextPart _ \<Rightarrow> t'\<lparr>tu_text_tail := []\<rparr> | _ \<Rightarrow> t'\<lparr>tu_thinking_tail := []\<rparr>)) st"
| "fold_event track (AssistantDelta d) st = on_turn (\<lambda>t. t\<lparr>tu_text_tail := tu_text_tail t @ d\<rparr>) st"
| "fold_event track (ThinkingDelta d) st = on_turn (\<lambda>t. t\<lparr>tu_thinking_tail := tu_thinking_tail t @ d\<rparr>) st"
| "fold_event track (MessageAppended m origin) st =
     consume_steer origin (on_turn (absorb_message m) (on_history track (fold_append m origin) st))"
| "fold_event track (HistoryReplaced messages origins) st = on_history track (fold_replace messages origins) st"
| "fold_event track (HistoryCompacted cutoff summary timestamp loaded) st =
     on_history track (fold_compaction cutoff summary timestamp loaded) st"
| "fold_event track (ToolCallStarted call name args) st = on_turn (start_call call name args) st"
| "fold_event track (ToolProgress call update) st = on_turn (on_call call (\<lambda>c. c\<lparr>ts_progress := Some update\<rparr>)) st"
| "fold_event track (ToolResultEvent call) st = on_turn (settle_call call) st"
| "fold_event track (HandoffEvent source target) st = st\<lparr>ag_live := False, ag_turn := None\<rparr>"
| "fold_event track (UsageUpdated u) st = st\<lparr>ag_usage := Some u\<rparr>"
| "fold_event track _ st = st"

fun fold_workflow :: "nat \<Rightarrow> workflow_progress \<Rightarrow> workflow_state \<Rightarrow> workflow_state" where
  "fold_workflow time (WfStarted name) r = r\<lparr>wr_last_event_at := Some time\<rparr>"
| "fold_workflow time (WfPhase i title kind) r =
     r\<lparr>wr_last_event_at := Some time,
       wr_phases := (if \<exists>p \<in> set (wr_phases r). fst p = i then wr_phases r else wr_phases r @ [(i, title, kind)])\<rparr>"
| "fold_workflow time (WfAgent a) r =
     r\<lparr>wr_last_event_at := Some time, wr_agents := jset (wa_index a) a (wr_agents r)\<rparr>"
| "fold_workflow time (WfLog line) r = r\<lparr>wr_last_event_at := Some time, wr_logs := wr_logs r @ [line]\<rparr>"
| "fold_workflow time (WfOutcome status ok err) r = r\<lparr>wr_last_event_at := Some time, wr_live := False\<rparr>"

text \<open>\<open>apply\<close>, without its listeners: each of them is handed the event after the fold.\<close>

definition apply_event :: "agent_event \<Rightarrow> nat \<Rightarrow> projection \<Rightarrow> projection" where
  "apply_event e time pj =
     (case ev_body e of
        WorkflowProgress run call progress \<Rightarrow>
          (let r = workflow_for run pj;
               r' = (if call \<noteq> None then r\<lparr>wr_call_id := call\<rparr> else r)
           in pj\<lparr>pj_workflows := jset run (fold_workflow time progress r') (pj_workflows pj), pj_last_event_id := Some (ev_id e)\<rparr>)
      | body \<Rightarrow>
          (set_agent (ev_address e)
             (fold_event (pj_track_history pj) body ((state_for (ev_address e) pj)\<lparr>ag_last_event_at := Some time\<rparr>)) pj)
           \<lparr>pj_last_event_id := Some (ev_id e)\<rparr>)"

section \<open>Checkpoints of a frame\<close>

record frame_turn =
  ft_id :: string
  ft_origin :: "prompt_origin option"
  ft_step :: nat
  ft_step_id :: "string option"
  ft_calls :: "tool_call_state list"
  ft_paused :: "pending_run_interrupt list option"

record frame_checkpoint =
  fc_agent :: "string option"
  fc_parent :: "string option"
  fc_live :: bool
  fc_turn :: "frame_turn option"
  fc_pending_steers :: "steer_message list"
  fc_usage :: "usage option"

definition frame_of_turn :: "turn_state \<Rightarrow> frame_turn" where
  "frame_of_turn t =
     \<lparr>ft_id = tu_id t, ft_origin = tu_origin t, ft_step = tu_step t, ft_step_id = tu_step_id t,
      ft_calls = jvalues (tu_calls t), ft_paused = tu_paused t\<rparr>"

definition frame_checkpoint_of :: "string \<Rightarrow> projection \<Rightarrow> frame_checkpoint" where
  "frame_checkpoint_of address pj =
     (case map_of (pj_agents pj) address of
        None \<Rightarrow> \<lparr>fc_agent = None, fc_parent = None, fc_live = False, fc_turn = None, fc_pending_steers = [], fc_usage = None\<rparr>
      | Some st \<Rightarrow>
          \<lparr>fc_agent = ag_agent st, fc_parent = ag_parent st, fc_live = ag_live st,
           fc_turn = map_option frame_of_turn (ag_turn st), fc_pending_steers = ag_pending_steers st, fc_usage = ag_usage st\<rparr>)"

definition turn_of_frame :: "frame_turn \<Rightarrow> turn_state" where
  "turn_of_frame f =
     \<lparr>tu_id = ft_id f, tu_origin = ft_origin f, tu_step = ft_step f, tu_step_id = ft_step_id f, tu_parts = [],
      tu_text_tail = [], tu_thinking_tail = [], tu_calls = fold (\<lambda>c. jset (ts_id c) c) (ft_calls f) [], tu_paused = ft_paused f\<rparr>"

definition seed_frame :: "frame_checkpoint option \<Rightarrow> agent_state \<Rightarrow> agent_state" where
  "seed_frame frame st =
     (case frame of
        None \<Rightarrow> st
      | Some f \<Rightarrow>
          st\<lparr>ag_agent := (if fc_agent f \<noteq> None then fc_agent f else ag_agent st),
             ag_parent := (if fc_parent f \<noteq> None then fc_parent f else ag_parent st),
             ag_live := fc_live f,
             ag_turn := (case fc_turn f of Some t \<Rightarrow> Some (turn_of_frame t) | None \<Rightarrow> ag_turn st),
             ag_pending_steers := fc_pending_steers f,
             ag_usage := (if fc_usage f \<noteq> None then fc_usage f else ag_usage st)\<rparr>)"

text \<open>\<open>rec_checkpoint\<close>: absent, a stamp without \<open>#frame\<close>, or one with it.\<close>

record stored_record = agent_record +
  rec_event_id :: "string option"
  rec_checkpoint :: "frame_checkpoint option option"

definition base_of :: "stored_record \<Rightarrow> agent_record" where
  "base_of r = agent_record.truncate r"

abbreviation shard_of :: "stored_record \<Rightarrow> string" where
  "shard_of r \<equiv> address_of (base_of r)"

fun reset_history :: "record_body \<Rightarrow> history_fold \<Rightarrow> history_fold" where
  "reset_history (RecReplace messages origins) h = fold_replace messages origins h"
| "reset_history (RecApplyCompaction c) h = fold_compaction_record c h"
| "reset_history _ h = h"

section \<open>The event a record stands for\<close>

record json_text =
  jt_string :: "json \<Rightarrow> string"
  jt_preview :: "json option \<Rightarrow> string"

text \<open>\<open>String(v ?? "")\<close>.\<close>

definition string_or_empty :: "json_text \<Rightarrow> json option \<Rightarrow> string" where
  "string_or_empty jt v =
     (case v of None \<Rightarrow> [] | Some JNull \<Rightarrow> [] | Some (JStr s) \<Rightarrow> s | Some j \<Rightarrow> jt_string jt j)"

definition string_field :: "string \<Rightarrow> json \<Rightarrow> string option" where
  "string_field k v = (case json_field k v of Some (JStr s) \<Rightarrow> Some s | _ \<Rightarrow> None)"

definition number_field :: "string \<Rightarrow> json \<Rightarrow> int option" where
  "number_field k v = (case json_field k v of Some (JNum i) \<Rightarrow> Some i | _ \<Rightarrow> None)"

definition nonempty_field :: "string \<Rightarrow> json \<Rightarrow> string option" where
  "nonempty_field k v = (case string_field k v of Some s \<Rightarrow> if s \<noteq> [] then Some s else None | None \<Rightarrow> None)"

definition step_state :: "string \<Rightarrow> step_phase option" where
  "step_state t =
     (if t = ''queued'' then Some WfQueued else if t = ''started'' then Some WfRunning
      else if t = ''result'' then Some WfDone else if t = ''error'' then Some WfError else None)"

definition workflow_agent_of :: "json_text \<Rightarrow> json \<Rightarrow> int \<Rightarrow> step_phase \<Rightarrow> workflow_agent" where
  "workflow_agent_of jt entry index phase =
     \<lparr>wa_index = index, wa_label = string_or_empty jt (json_field ''label'' entry), wa_phase = string_field ''phase'' entry,
      wa_agent_id = nonempty_field ''agentId'' entry, wa_address = nonempty_field ''address'' entry, wa_state = phase,
      wa_error = (if phase = WfError then Some (string_or_empty jt (json_field ''error'' entry)) else None),
      wa_preview = (if phase = WfDone then Some (jt_preview jt (json_field ''result'' entry)) else None)\<rparr>"

definition workflow_status_of :: "string \<Rightarrow> workflow_status option" where
  "workflow_status_of s =
     (if s = ''completed'' then Some WfCompleted else if s = ''failed'' then Some WfFailed
      else if s = ''aborted'' then Some WfAborted else None)"

definition workflow_entry_progress :: "json_text \<Rightarrow> json \<Rightarrow> workflow_progress option" where
  "workflow_entry_progress jt entry =
     (case string_field ''type'' entry of
        None \<Rightarrow> None
      | Some t \<Rightarrow>
          if t = ''run'' then map_option WfStarted (string_field ''name'' entry)
          else if t = ''phase'' then
            (case (number_field ''index'' entry, string_field ''title'' entry) of
               (Some i, Some title) \<Rightarrow>
                 Some (WfPhase i title (if string_field ''kind'' entry = Some ''child'' then ChildPhase else NormalPhase))
             | _ \<Rightarrow> None)
          else if t = ''log'' then map_option WfLog (string_field ''message'' entry)
          else if t = ''outcome'' then
            map_option (\<lambda>status. WfOutcome status (json_field ''ok'' entry = Some (JBool True)) (string_field ''error'' entry))
              (Option.bind (string_field ''status'' entry) workflow_status_of)
          else
            (case step_state t of
               None \<Rightarrow> None
             | Some phase \<Rightarrow>
                 map_option (\<lambda>i. WfAgent (workflow_agent_of jt entry i phase)) (number_field ''index'' entry)))"

definition workflow_address_mark :: string where
  "workflow_address_mark = ''workflow:''"

definition workflow_progress_from_record :: "json_text \<Rightarrow> string option \<Rightarrow> string \<Rightarrow> json \<Rightarrow> agent_event_body option" where
  "workflow_progress_from_record jt address name data =
     (let a = (case address of Some x \<Rightarrow> x | None \<Rightarrow> []) in
      if name \<noteq> ''wf_journal'' \<or> take (length workflow_address_mark) a \<noteq> workflow_address_mark then None
      else if \<not> is_json_object data then None
      else map_option
             (WorkflowProgress (drop (length workflow_address_mark) a) (string_field ''parentToolCallId'' data))
             (workflow_entry_progress jt data))"

definition projectable_event_body :: "json_text \<Rightarrow> nat \<Rightarrow> agent_record \<Rightarrow> agent_event_body option" where
  "projectable_event_body jt now r =
     (case rec_body r of
        RecAppendMessage m origin \<Rightarrow> Some (MessageAppended m origin)
      | RecCustomMessage content origin \<Rightarrow>
          Some (MessageAppended (custom_message content (case rec_time r of Some t \<Rightarrow> t | None \<Rightarrow> now)) origin)
      | RecReplace messages origins \<Rightarrow> Some (HistoryReplaced messages origins)
      | RecApplyCompaction c \<Rightarrow>
          Some (HistoryCompacted (cr_compacted_count c) (cr_summary c) (cr_timestamp c) (cr_loaded_tools c))
      | RecUsage u total_usage \<Rightarrow> map_option UsageUpdated total_usage
      | RecHandoff source target \<Rightarrow> Some (HandoffEvent source target)
      | RecGuardrailBlocked stage guardrail \<Rightarrow> Some (GuardrailBlocked stage guardrail)
      | RecLifecycle e \<Rightarrow> Some (Lifecycle e)
      | RecCustom name data \<Rightarrow> workflow_progress_from_record jt (rec_address r) name data
      | _ \<Rightarrow> None)"

definition agent_event_from_record :: "json_text \<Rightarrow> nat \<Rightarrow> stored_record \<Rightarrow> agent_event option" where
  "agent_event_from_record jt now r =
     (case rec_event_id r of
        None \<Rightarrow> None
      | Some i \<Rightarrow>
          map_option (\<lambda>body. \<lparr>ev_id = i, ev_address = shard_of r, ev_body = body\<rparr>)
            (projectable_event_body jt now (base_of r)))"

text \<open>\<open>applyRecord\<close>: \<open>now\<close> is the clock, for a record without a time.\<close>

definition frame_stamp :: "stored_record \<Rightarrow> frame_checkpoint option" where
  "frame_stamp r = Option.bind (rec_checkpoint r) id"

definition apply_checkpoint :: "stored_record \<Rightarrow> projection \<Rightarrow> projection" where
  "apply_checkpoint r pj =
     (let address = shard_of r;
          st = state_for address pj;
          st1 = (if has_agent address pj then st else seed_frame (frame_stamp r) st);
          st2 = on_history (pj_track_history pj) (reset_history (rec_body r)) st1;
          st3 = (if rec_time r \<noteq> None then st2\<lparr>ag_last_event_at := rec_time r\<rparr> else st2);
          pj' = set_agent address st3 pj
      in if rec_event_id r \<noteq> None then pj'\<lparr>pj_last_event_id := rec_event_id r\<rparr> else pj')"

definition apply_record :: "json_text \<Rightarrow> nat \<Rightarrow> stored_record \<Rightarrow> projection \<Rightarrow> projection" where
  "apply_record jt now r pj =
     (if \<not> is_checkpoint (rec_body r)
      then (case agent_event_from_record jt now r of
              Some e \<Rightarrow> apply_event e (case rec_time r of Some t \<Rightarrow> t | None \<Rightarrow> now) pj
            | None \<Rightarrow> pj)
      else apply_checkpoint r pj)"

definition project_records :: "json_text \<Rightarrow> nat \<Rightarrow> stored_record list \<Rightarrow> projection \<Rightarrow> projection" where
  "project_records jt now rs pj = fold (apply_record jt now) rs pj"

section \<open>The store that stamps checkpoints\<close>

definition audit_shard :: string where
  "audit_shard = ''audit''"

text \<open>The frames this process has folded, and the log under it.\<close>

record checkpointing_store =
  cs_frames :: projection
  cs_log :: "stored_record list"

definition stamp_record :: "stored_record \<Rightarrow> projection \<Rightarrow> stored_record" where
  "stamp_record r frames =
     (if \<not> is_checkpoint (rec_body r) \<or> rec_checkpoint r \<noteq> None then r
      else r\<lparr>rec_checkpoint := Some (Some (frame_checkpoint_of (shard_of r) frames))\<rparr>)"

definition cs_append :: "json_text \<Rightarrow> nat \<Rightarrow> stored_record \<Rightarrow> checkpointing_store \<Rightarrow> checkpointing_store" where
  "cs_append jt now r s =
     (if rec_address r = Some audit_shard then s\<lparr>cs_log := cs_log s @ [r]\<rparr>
      else let stamped = stamp_record r (cs_frames s) in
        s\<lparr>cs_frames := apply_record jt now stamped (cs_frames s), cs_log := cs_log s @ [stamped]\<rparr>)"

definition restore_frame :: "json_text \<Rightarrow> nat \<Rightarrow> string \<Rightarrow> stored_record list \<Rightarrow> checkpointing_store \<Rightarrow> checkpointing_store" where
  "restore_frame jt now address records s =
     (if has_agent address (cs_frames s) then s
      else s\<lparr>cs_frames := project_records jt now (filter (\<lambda>r. shard_of r = address) records) (cs_frames s)\<rparr>)"

definition new_store :: "stored_record list \<Rightarrow> checkpointing_store" where
  "new_store log = \<lparr>cs_frames = new_projection False, cs_log = log\<rparr>"

section \<open>Snapshots\<close>

record agent_snapshot =
  as_address :: string
  as_agent :: "string option"
  as_parent :: "string option"
  as_live :: bool
  as_messages :: "message list"
  as_origins :: "prompt_origin option list"
  as_message_count :: nat
  as_turn :: "turn_state option"
  as_pending_steers :: "steer_message list"
  as_usage :: "usage option"
  as_last_event_at :: "nat option"

definition default_snapshot_max_messages :: nat where
  "default_snapshot_max_messages = 200"

definition snapshot_agent :: "agent_state \<Rightarrow> nat option \<Rightarrow> agent_snapshot" where
  "snapshot_agent st max_messages =
     (let all_messages = hf_messages (ag_history st);
          from_index = (case max_messages of Some n \<Rightarrow> if length all_messages > n then length all_messages - n else 0 | None \<Rightarrow> 0);
          messages = drop from_index all_messages;
          origins = take (length messages) (drop from_index (hf_origins (ag_history st)))
      in \<lparr>as_address = ag_address st, as_agent = ag_agent st, as_parent = ag_parent st, as_live = ag_live st, as_messages = messages,
          as_origins = origins @ replicate (length messages - length origins) None,
          as_message_count = length all_messages, as_turn = ag_turn st, as_pending_steers = ag_pending_steers st,
          as_usage = ag_usage st, as_last_event_at = ag_last_event_at st\<rparr>)"

record directory_entry =
  de_address :: string
  de_agent :: "string option"
  de_live :: bool
  de_running :: bool
  de_last_message :: "message option"
  de_last_event_at :: "nat option"

definition directory :: "projection \<Rightarrow> directory_entry list" where
  "directory pj =
     map (\<lambda>st. \<lparr>de_address = ag_address st, de_agent = ag_agent st, de_live = ag_live st, de_running = (ag_turn st \<noteq> None),
                de_last_message = (if hf_messages (ag_history st) = [] then None else Some (last (hf_messages (ag_history st)))),
                de_last_event_at = ag_last_event_at st\<rparr>) (jvalues (pj_agents pj))"

definition snapshot_agents :: "string list option \<Rightarrow> nat option \<Rightarrow> projection \<Rightarrow> agent_snapshot list" where
  "snapshot_agents addresses max_messages pj =
     map (\<lambda>st. snapshot_agent st (Some (case max_messages of Some n \<Rightarrow> n | None \<Rightarrow> default_snapshot_max_messages)))
       (filter (\<lambda>st. case addresses of None \<Rightarrow> True | Some wanted \<Rightarrow> ag_address st \<in> set wanted) (jvalues (pj_agents pj)))"

section \<open>One shard at a time\<close>

text \<open>What a record does to the state of its shard; other shards do not change.\<close>

definition agent_step :: "json_text \<Rightarrow> nat \<Rightarrow> bool \<Rightarrow> stored_record \<Rightarrow> agent_state option \<Rightarrow> agent_state option" where
  "agent_step jt now track r so =
     (let st = (case so of Some s \<Rightarrow> s | None \<Rightarrow> fresh_agent (shard_of r)) in
      if \<not> is_checkpoint (rec_body r)
      then (case agent_event_from_record jt now r of
              None \<Rightarrow> so
            | Some e \<Rightarrow>
                (case ev_body e of
                   WorkflowProgress _ _ _ \<Rightarrow> so
                 | body \<Rightarrow> Some (fold_event track body
                     (st\<lparr>ag_last_event_at := Some (case rec_time r of Some t \<Rightarrow> t | None \<Rightarrow> now)\<rparr>))))
      else let st1 = (if so \<noteq> None then st else seed_frame (frame_stamp r) st);
               st2 = on_history track (reset_history (rec_body r)) st1
           in Some (if rec_time r \<noteq> None then st2\<lparr>ag_last_event_at := rec_time r\<rparr> else st2))"

lemma event_of_record_address: "agent_event_from_record jt now r = Some e \<Longrightarrow> ev_address e = shard_of r"
  by (auto simp: agent_event_from_record_def split: option.splits)

lemma apply_event_agents:
  "map_of (pj_agents (apply_event e t pj)) a =
     (case ev_body e of
        WorkflowProgress _ _ _ \<Rightarrow> map_of (pj_agents pj) a
      | body \<Rightarrow> if ev_address e = a
                then Some (fold_event (pj_track_history pj) body ((state_for a pj)\<lparr>ag_last_event_at := Some t\<rparr>))
                else map_of (pj_agents pj) a)"
  "pj_track_history (apply_event e t pj) = pj_track_history pj"
  by (cases "ev_body e"; auto simp: apply_event_def set_agent_def Let_def)+

lemma apply_checkpoint_agents:
  "map_of (pj_agents (apply_checkpoint r pj)) a =
     (if shard_of r = a
      then Some (let st1 = (if has_agent a pj then state_for a pj else seed_frame (frame_stamp r) (state_for a pj));
                     st2 = on_history (pj_track_history pj) (reset_history (rec_body r)) st1
                 in if rec_time r \<noteq> None then st2\<lparr>ag_last_event_at := rec_time r\<rparr> else st2)
      else map_of (pj_agents pj) a)"
  "pj_track_history (apply_checkpoint r pj) = pj_track_history pj"
  by (simp_all add: apply_checkpoint_def set_agent_def Let_def)

lemma apply_record_track [simp]: "pj_track_history (apply_record jt now r pj) = pj_track_history pj"
  by (simp add: apply_record_def apply_event_agents(2) apply_checkpoint_agents(2) split: option.splits)

lemma apply_record_agents:
  "map_of (pj_agents (apply_record jt now r pj)) a =
     (if shard_of r = a then agent_step jt now (pj_track_history pj) r (map_of (pj_agents pj) a)
      else map_of (pj_agents pj) a)"
proof (cases "is_checkpoint (rec_body r)")
  case True
  then show ?thesis
    by (cases "map_of (pj_agents pj) a")
      (auto simp: apply_record_def apply_checkpoint_agents agent_step_def has_agent_def state_for_def Let_def)
next
  case False
  show ?thesis
  proof (cases "agent_event_from_record jt now r")
    case None
    then show ?thesis using False by (simp add: apply_record_def agent_step_def Let_def)
  next
    case (Some e)
    note addr = event_of_record_address [OF Some]
    show ?thesis
    proof (cases "shard_of r = a")
      case True
      then have a: "a = shard_of r" by simp
      show ?thesis unfolding a
        by (cases "ev_body e")
          (simp_all add: apply_record_def agent_step_def Let_def False Some addr apply_event_agents state_for_def
            del: fold_event.simps)
    next
      case other: False
      then show ?thesis
        by (cases "ev_body e") (simp_all add: apply_record_def False Some addr apply_event_agents)
    qed
  qed
qed

definition shard_records :: "string \<Rightarrow> stored_record list \<Rightarrow> stored_record list" where
  "shard_records a = filter (\<lambda>r. shard_of r = a)"

definition shard_state :: "json_text \<Rightarrow> nat \<Rightarrow> bool \<Rightarrow> stored_record list \<Rightarrow> agent_state option" where
  "shard_state jt now track rs = fold (agent_step jt now track) rs None"

lemma project_records_track [simp]: "pj_track_history (project_records jt now rs pj) = pj_track_history pj"
  unfolding project_records_def by (induction rs arbitrary: pj) simp_all

lemma project_records_agents:
  "map_of (pj_agents (project_records jt now rs pj)) a =
     fold (agent_step jt now (pj_track_history pj)) (shard_records a rs) (map_of (pj_agents pj) a)"
  unfolding project_records_def shard_records_def
  by (induction rs arbitrary: pj) (simp_all add: apply_record_agents)

lemma project_records_new:
  "map_of (pj_agents (project_records jt now rs (new_projection track))) a = shard_state jt now track (shard_records a rs)"
  by (simp add: project_records_agents shard_state_def new_projection_def)

lemma shard_state_snoc: "shard_state jt now track (rs @ [r]) = agent_step jt now track r (shard_state jt now track rs)"
  by (simp add: shard_state_def)

section \<open>Records leave nothing in flight\<close>

text \<open>A state folded from records alone: no streamed parts, and the calls are keyed by their ids.\<close>

definition calls_ok :: "(string, tool_call_state) jsmap \<Rightarrow> bool" where
  "calls_ok m \<longleftrightarrow> jmap_ok m \<and> (\<forall>k c. map_of m k = Some c \<longrightarrow> ts_id c = k)"

definition settled_turn :: "turn_state \<Rightarrow> bool" where
  "settled_turn t \<longleftrightarrow> tu_parts t = [] \<and> tu_text_tail t = [] \<and> tu_thinking_tail t = [] \<and> calls_ok (tu_calls t)"

definition settled :: "string \<Rightarrow> agent_state \<Rightarrow> bool" where
  "settled a st \<longleftrightarrow> ag_address st = a \<and> (case ag_turn st of None \<Rightarrow> True | Some t \<Rightarrow> settled_turn t)"

lemma calls_ok_Nil [simp]: "calls_ok []"
  by (simp add: calls_ok_def)

lemma calls_ok_jset [simp]: "calls_ok m \<Longrightarrow> ts_id c = k \<Longrightarrow> calls_ok (jset k c m)"
  by (simp add: calls_ok_def)

lemma calls_ok_jdelete [simp]: "calls_ok m \<Longrightarrow> calls_ok (jdelete k m)"
  unfolding calls_ok_def by (simp only: jget_jdelete jmap_ok_jdelete) auto

lemma calls_okD: "calls_ok m \<Longrightarrow> map_of m k = Some c \<Longrightarrow> ts_id c = k"
  unfolding calls_ok_def by blast

lemma settled_turn_simps [simp]:
  "settled_turn (new_turn turn origin)"
  "settled_turn t \<Longrightarrow> settled_turn (t\<lparr>tu_paused := p\<rparr>)"
  "settled_turn t \<Longrightarrow> settled_turn (start_call call name args t)"
  "settled_turn t \<Longrightarrow> settled_turn (settle_call call t)"
  "settled_turn t \<Longrightarrow> settled_turn (clear_parts t)"
  by (simp_all add: settled_turn_def new_turn_def start_call_def new_call_def settle_call_def clear_parts_def Let_def
      split: option.splits)

lemma settled_turn_on_call [simp]:
  "settled_turn t \<Longrightarrow> (\<And>c. ts_id (f c) = ts_id c) \<Longrightarrow> settled_turn (on_call call f t)"
  using calls_okD [of "tu_calls t" call] unfolding settled_turn_def on_call_def
  by (cases "map_of (tu_calls t) call") simp_all

lemma settled_turn_absorb [simp]:
  assumes "settled_turn t"
  shows "settled_turn (absorb_message m t)"
proof -
  have calls: "settled_turn u \<Longrightarrow> settled_turn (fold (\<lambda>c. start_call (tc_id c) (tc_name c) (tc_arguments c)) cs u)" for cs u
    by (induction cs arbitrary: u) simp_all
  show ?thesis
    by (cases m) (simp_all add: absorb_message_def calls assms)
qed

lemma settled_on_turn [simp]:
  "settled a st \<Longrightarrow> (\<And>t. settled_turn t \<Longrightarrow> settled_turn (f t)) \<Longrightarrow> settled a (on_turn f st)"
  by (simp add: settled_def on_turn_def split: option.splits)

lemma settled_simps [simp]:
  "settled a (fresh_agent b) \<longleftrightarrow> b = a"
  "settled a (on_history track g st) \<longleftrightarrow> settled a st"
  "settled a (consume_steer origin st) \<longleftrightarrow> settled a st"
  "settled a (st\<lparr>ag_last_event_at := v\<rparr>) \<longleftrightarrow> settled a st"
  "settled a (st\<lparr>ag_usage := u\<rparr>) \<longleftrightarrow> settled a st"
  by (simp_all add: settled_def fresh_agent_def on_history_def consume_steer_def split: option.splits)

lemma settled_turn_of_frame [simp]: "settled_turn (turn_of_frame f)"
proof -
  have "calls_ok m \<Longrightarrow> calls_ok (fold (\<lambda>c. jset (ts_id c) c) cs m)" for cs m
    by (induction cs arbitrary: m) simp_all
  from this [of "[]"] show ?thesis by (simp add: settled_turn_def turn_of_frame_def)
qed

lemma settled_seed_frame [simp]: "settled a st \<Longrightarrow> settled a (seed_frame frame st)"
  by (auto simp: settled_def seed_frame_def split: option.splits)

lemma settled_lifecycle [simp]: "settled a st \<Longrightarrow> settled a (fold_lifecycle e st)"
  by (cases e) (simp_all, auto simp: settled_def)

text \<open>The events of records.\<close>

definition durable_body :: "agent_event_body \<Rightarrow> bool" where
  "durable_body b =
     (case b of
        Lifecycle _ \<Rightarrow> True | MessageAppended _ _ \<Rightarrow> True | HistoryReplaced _ _ \<Rightarrow> True | HistoryCompacted _ _ _ _ \<Rightarrow> True
      | WorkflowProgress _ _ _ \<Rightarrow> True | HandoffEvent _ _ \<Rightarrow> True | UsageUpdated _ \<Rightarrow> True | GuardrailBlocked _ _ \<Rightarrow> True
      | _ \<Rightarrow> False)"

lemma event_of_record_durable: "agent_event_from_record jt now r = Some e \<Longrightarrow> durable_body (ev_body e)"
  by (auto simp: agent_event_from_record_def projectable_event_body_def durable_body_def workflow_progress_from_record_def Let_def
      split: option.splits record_body.splits if_splits)

lemma settled_fold_event: "settled a st \<Longrightarrow> durable_body b \<Longrightarrow> settled a (fold_event track b st)"
  by (cases b) (simp_all add: durable_body_def, auto simp: settled_def)

lemma agent_step_settled:
  assumes "\<forall>st. so = Some st \<longrightarrow> settled a st" and "shard_of r = a"
  shows "\<forall>st. agent_step jt now track r so = Some st \<longrightarrow> settled a st"
proof -
  define st where "st = (case so of Some s \<Rightarrow> s | None \<Rightarrow> fresh_agent (shard_of r))"
  have st: "settled a st" using assms by (auto simp: st_def split: option.splits)
  show ?thesis
  proof (cases "is_checkpoint (rec_body r)")
    case True
    then show ?thesis using st assms by (auto simp: agent_step_def st_def [symmetric] Let_def)
  next
    case False
    show ?thesis
    proof (cases "agent_event_from_record jt now r")
      case None
      then show ?thesis using False assms by (simp add: agent_step_def Let_def)
    next
      case (Some e)
      have "settled a (fold_event track (ev_body e) (st\<lparr>ag_last_event_at := v\<rparr>))" for v
        using settled_fold_event [OF _ event_of_record_durable [OF Some]] st by simp
      then show ?thesis using False Some assms
        by (auto simp: agent_step_def st_def [symmetric] Let_def simp del: fold_event.simps split: agent_event_body.splits)
    qed
  qed
qed

section \<open>The stamp is the state\<close>

text \<open>A state without its history and the time of its last event.\<close>

abbreviation bare :: "agent_state \<Rightarrow> agent_state" where
  "bare st \<equiv> st\<lparr>ag_history := empty_fold, ag_last_event_at := None\<rparr>"

lemma bare_eq_iff:
  "bare st = bare st' \<longleftrightarrow>
     ag_address st = ag_address st' \<and> ag_agent st = ag_agent st' \<and> ag_parent st = ag_parent st' \<and> ag_live st = ag_live st' \<and>
     ag_turn st = ag_turn st' \<and> ag_pending_steers st = ag_pending_steers st' \<and> ag_usage st = ag_usage st'"
  by (cases st; cases st') auto

lemma bare_lifecycle: "bare st = bare st' \<Longrightarrow> bare (fold_lifecycle e st) = bare (fold_lifecycle e st')"
  unfolding bare_eq_iff by (cases e) (simp_all add: on_turn_def split: option.splits)

lemma bare_fold_event: "bare st = bare st' \<Longrightarrow> bare (fold_event track b st) = bare (fold_event track' b st')"
proof (cases b)
  case (Lifecycle e)
  assume "bare st = bare st'"
  then show ?thesis by (simp only: Lifecycle fold_event.simps) (rule bare_lifecycle)
qed (simp_all add: bare_eq_iff on_turn_def on_history_def consume_steer_def split: option.splits)

lemma bare_checkpoint:
  "bare st = bare st' \<Longrightarrow> bare (on_history track h st) = bare (on_history track' h' st')"
  by (simp add: bare_eq_iff on_history_def)

lemma bare_last_event [simp]: "bare (st\<lparr>ag_last_event_at := v\<rparr>) = bare st"
  by simp

lemma agent_step_bare:
  assumes "map_option bare so = map_option bare so'"
  shows "map_option bare (agent_step jt now track r so) = map_option bare (agent_step jt now track' r so')"
proof -
  define st st' where "st = (case so of Some s \<Rightarrow> s | None \<Rightarrow> fresh_agent (shard_of r))"
    and "st' = (case so' of Some s \<Rightarrow> s | None \<Rightarrow> fresh_agent (shard_of r))"
  have eq: "bare st = bare st'" and none: "so = None \<longleftrightarrow> so' = None"
    using assms by (auto simp: st_def st'_def split: option.splits)
  show ?thesis
  proof (cases "is_checkpoint (rec_body r)")
    case True
    have seeded: "bare (if so \<noteq> None then st else seed_frame (frame_stamp r) st)
        = bare (if so' \<noteq> None then st' else seed_frame (frame_stamp r) st')"
      using eq none by (auto simp: bare_eq_iff seed_frame_def split: option.splits)
    show ?thesis using True bare_checkpoint [OF seeded]
      by (simp add: agent_step_def st_def [symmetric] st'_def [symmetric] Let_def)
  next
    case False
    show ?thesis
    proof (cases "agent_event_from_record jt now r")
      case None
      then show ?thesis using False assms by (simp add: agent_step_def Let_def)
    next
      case (Some e)
      have "bare (fold_event track (ev_body e) (st\<lparr>ag_last_event_at := v\<rparr>)) = bare (fold_event track' (ev_body e) (st'\<lparr>ag_last_event_at := v\<rparr>))" for v
        by (rule bare_fold_event) (use eq in simp)
      then show ?thesis using False Some assms
        by (cases "ev_body e") (simp_all add: agent_step_def st_def [symmetric] st'_def [symmetric] Let_def del: fold_event.simps)
    qed
  qed
qed

lemma shard_state_bare: "map_option bare (shard_state jt now track rs) = map_option bare (shard_state jt now track' rs)"
  by (induction rs rule: rev_induct) (simp add: shard_state_def, simp add: shard_state_snoc agent_step_bare)

lemma shard_state_settled:
  "\<forall>r \<in> set rs. shard_of r = a \<Longrightarrow> \<forall>st. shard_state jt now track rs = Some st \<longrightarrow> settled a st"
proof (induction rs rule: rev_induct)
  case (snoc r rs)
  have "\<forall>st. shard_state jt now track rs = Some st \<longrightarrow> settled a st"
    by (rule snoc.IH) (use snoc.prems in simp)
  moreover have "shard_of r = a" using snoc.prems by simp
  ultimately show ?case unfolding shard_state_snoc by (rule agent_step_settled)
qed (simp add: shard_state_def)

lemma fold_jset_absent:
  "distinct (map fst acc @ map fst m) \<Longrightarrow> \<forall>k c. (k, c) \<in> set m \<longrightarrow> ts_id c = k \<Longrightarrow>
     fold (\<lambda>c. jset (ts_id c) c) (jvalues m) acc = acc @ m"
proof (induction m arbitrary: acc)
  case (Cons kc m)
  obtain k c where kc: "kc = (k, c)" by (cases kc)
  have "ts_id c = k" using Cons.prems(2) kc by auto
  moreover have "jset k c acc = acc @ [(k, c)]" using Cons.prems(1) kc by (intro jset_absent) auto
  moreover have "fold (\<lambda>c. jset (ts_id c) c) (jvalues m) (acc @ [(k, c)]) = (acc @ [(k, c)]) @ m"
    by (rule Cons.IH) (use Cons.prems kc in auto)
  ultimately show ?case by (simp add: kc)
qed simp

lemma turn_frame_roundtrip: "settled_turn t \<Longrightarrow> turn_of_frame (frame_of_turn t) = t"
proof -
  assume t: "settled_turn t"
  then have "fold (\<lambda>c. jset (ts_id c) c) (jvalues (tu_calls t)) [] = tu_calls t"
    using fold_jset_absent [of "[]" "tu_calls t"] by (auto simp: settled_turn_def calls_ok_def)
  then show ?thesis using t by (cases t) (simp add: settled_turn_def turn_of_frame_def frame_of_turn_def)
qed

text \<open>Seeding a fresh state from the stamp gives back the state, but for its history.\<close>

lemma seed_own_frame:
  assumes "map_of (pj_agents frames) a = so" and "map_option bare so = map_option bare (Some st)" and "settled a st"
  shows "bare (seed_frame (Some (frame_checkpoint_of a frames)) (fresh_agent a)) = bare st"
proof -
  obtain st' where so: "so = Some st'" using assms(2) by (cases so) auto
  have "bare st' = bare st" using assms(2) so by simp
  then have frame: "frame_checkpoint_of a frames =
      \<lparr>fc_agent = ag_agent st, fc_parent = ag_parent st, fc_live = ag_live st,
       fc_turn = map_option frame_of_turn (ag_turn st), fc_pending_steers = ag_pending_steers st, fc_usage = ag_usage st\<rparr>"
    using assms(1) so by (simp add: frame_checkpoint_of_def bare_eq_iff)
  have "ag_address st = a" using assms(3) by (simp add: settled_def)
  moreover have "ag_turn st = Some t \<Longrightarrow> turn_of_frame (frame_of_turn t) = t" for t
    using assms(3) by (intro turn_frame_roundtrip) (simp add: settled_def)
  ultimately show ?thesis
    by (auto simp: bare_eq_iff seed_frame_def frame fresh_agent_def split: option.splits)
qed

lemma reset_history_resets: "is_checkpoint b \<Longrightarrow> reset_history b h = reset_history b h'"
  by (cases b) (simp_all add: fold_replace_def fold_compaction_record_def Let_def)

lemma checkpoint_forgets:
  assumes c: "is_checkpoint (rec_body c)" "rec_time c \<noteq> None" "shard_of c = a"
    and stamp: "frame_stamp c = Some (frame_checkpoint_of a frames)"
    and frames: "map_option bare (map_of (pj_agents frames) a) = map_option bare so"
    and so: "\<forall>st. so = Some st \<longrightarrow> settled a st"
  shows "agent_step jt now True c so = agent_step jt now True c None"
proof (cases so)
  case (Some st)
  define seeded where "seeded = seed_frame (frame_stamp c) (fresh_agent a)"
  have "bare seeded = bare st"
    unfolding seeded_def stamp by (rule seed_own_frame [OF refl]) (use frames so Some in simp_all)
  moreover have "reset_history (rec_body c) (ag_history seeded) = reset_history (rec_body c) (ag_history st)"
    by (rule reset_history_resets [OF c(1)])
  ultimately have "(on_history True (reset_history (rec_body c)) seeded)\<lparr>ag_last_event_at := t\<rparr>
      = (on_history True (reset_history (rec_body c)) st)\<lparr>ag_last_event_at := t\<rparr>" for t
    by (cases seeded; cases st) (simp add: on_history_def)
  then show ?thesis using c Some by (simp add: agent_step_def Let_def seeded_def)
qed simp

section \<open>A session's log and its tails\<close>

text \<open>\<open>readShardForRestore\<close>: from the newest checkpoint on, or whole if that one is not stamped.\<close>

fun from_newest_checkpoint :: "stored_record list \<Rightarrow> stored_record list" where
  "from_newest_checkpoint [] = []"
| "from_newest_checkpoint (r # rs) =
     (if \<exists>x \<in> set rs. is_checkpoint (rec_body x) then from_newest_checkpoint rs
      else r # rs)"

definition read_shard_for_restore :: "string \<Rightarrow> stored_record list \<Rightarrow> stored_record list" where
  "read_shard_for_restore a log =
     (let own = shard_records a log; tail_records = from_newest_checkpoint own in
      case tail_records of
        [] \<Rightarrow> []
      | head # _ \<Rightarrow> if is_checkpoint (rec_body head) \<and> frame_stamp head = None then own else tail_records)"

text \<open>
  A session over several processes: the running one appends; a new one starts with no frames and
  restores each shard from the log before it writes to it.
\<close>

datatype cs_op = CsAppend stored_record | CsReopen

definition cs_reopen :: "json_text \<Rightarrow> nat \<Rightarrow> checkpointing_store \<Rightarrow> checkpointing_store" where
  "cs_reopen jt now s =
     fold (\<lambda>a. restore_frame jt now a (read_shard_for_restore a (cs_log s)))
       (remdups (map (\<lambda>r. shard_of r) (cs_log s))) (new_store (cs_log s))"

fun cs_step :: "json_text \<Rightarrow> nat \<Rightarrow> cs_op \<Rightarrow> checkpointing_store \<Rightarrow> checkpointing_store" where
  "cs_step jt now (CsAppend r) s = cs_append jt now r s"
| "cs_step jt now CsReopen s = cs_reopen jt now s"

definition cs_run :: "json_text \<Rightarrow> nat \<Rightarrow> cs_op list \<Rightarrow> checkpointing_store" where
  "cs_run jt now ops = fold (cs_step jt now) ops (new_store [])"

text \<open>What a session appends: its records are timed by the publisher and not stamped yet.\<close>

fun cs_op_ok :: "cs_op \<Rightarrow> bool" where
  "cs_op_ok (CsAppend r) = (rec_checkpoint r = None \<and> rec_time r \<noteq> None)"
| "cs_op_ok CsReopen = True"

definition tails_exact :: "json_text \<Rightarrow> nat \<Rightarrow> string \<Rightarrow> stored_record list \<Rightarrow> bool" where
  "tails_exact jt now a rs \<longleftrightarrow>
     (\<forall>pre c post. rs = pre @ c # post \<and> is_checkpoint (rec_body c) \<longrightarrow>
        frame_stamp c \<noteq> None \<and> agent_step jt now True c (shard_state jt now True pre) = agent_step jt now True c None)"

definition cs_ok :: "json_text \<Rightarrow> nat \<Rightarrow> checkpointing_store \<Rightarrow> bool" where
  "cs_ok jt now s \<longleftrightarrow> pj_track_history (cs_frames s) = False \<and>
     (\<forall>a. a \<noteq> audit_shard \<longrightarrow>
        tails_exact jt now a (shard_records a (cs_log s)) \<and>
        map_option bare (map_of (pj_agents (cs_frames s)) a)
          = map_option bare (shard_state jt now True (shard_records a (cs_log s))))"

lemma shard_records_snoc: "shard_records a (rs @ [r]) = (if shard_of r = a then shard_records a rs @ [r] else shard_records a rs)"
  by (simp add: shard_records_def)

lemma shard_of_stamp [simp]: "shard_of (stamp_record r frames) = shard_of r"
  by (simp add: stamp_record_def base_of_def agent_record.defs address_of_def)

lemma stamp_body [simp]: "rec_body (stamp_record r frames) = rec_body r" "rec_time (stamp_record r frames) = rec_time r"
  by (simp_all add: stamp_record_def)

lemma tails_exact_snoc:
  assumes "tails_exact jt now a rs"
    and "is_checkpoint (rec_body r) \<Longrightarrow>
      frame_stamp r \<noteq> None \<and> agent_step jt now True r (shard_state jt now True rs) = agent_step jt now True r None"
  shows "tails_exact jt now a (rs @ [r])"
  unfolding tails_exact_def
proof (intro allI impI)
  fix pre c post
  assume split: "rs @ [r] = pre @ c # post \<and> is_checkpoint (rec_body c)"
  show "frame_stamp c \<noteq> None \<and> agent_step jt now True c (shard_state jt now True pre) = agent_step jt now True c None"
  proof (cases post rule: rev_cases)
    case Nil
    then show ?thesis using split assms(2) by auto
  next
    case (snoc post' x)
    then have "rs = pre @ c # post'" using split by simp
    then show ?thesis using split assms(1) unfolding tails_exact_def by blast
  qed
qed

lemma shard_records_settled:
  "\<forall>st. shard_state jt now track (shard_records a rs) = Some st \<longrightarrow> settled a st"
  by (rule shard_state_settled) (simp add: shard_records_def)

lemma cs_append_ok:
  assumes ok: "cs_ok jt now s" and r: "rec_checkpoint r = None" "rec_time r \<noteq> None"
  shows "cs_ok jt now (cs_append jt now r s)"
proof (cases "rec_address r = Some audit_shard")
  case True
  then have "shard_of r = audit_shard" by (simp add: base_of_def agent_record.defs address_of_def)
  then show ?thesis using ok True by (auto simp: cs_append_def cs_ok_def shard_records_snoc)
next
  case False
  define stamped where "stamped = stamp_record r (cs_frames s)"
  have log: "cs_log (cs_append jt now r s) = cs_log s @ [stamped]"
    "cs_frames (cs_append jt now r s) = apply_record jt now stamped (cs_frames s)"
    using False by (simp_all add: cs_append_def stamped_def Let_def)
  have shard: "shard_of stamped = shard_of r" by (simp add: stamped_def)
  have "tails_exact jt now a (shard_records a (cs_log s @ [stamped])) \<and>
      map_option bare (map_of (pj_agents (apply_record jt now stamped (cs_frames s))) a)
        = map_option bare (shard_state jt now True (shard_records a (cs_log s @ [stamped])))"
    if a: "a \<noteq> audit_shard" for a
  proof (cases "shard_of r = a")
    case False
    then show ?thesis using ok a by (simp add: shard_records_snoc shard apply_record_agents cs_ok_def)
  next
    case True
    let ?rs = "shard_records a (cs_log s)"
    have frames: "map_option bare (map_of (pj_agents (cs_frames s)) a) = map_option bare (shard_state jt now True ?rs)"
      and exact: "tails_exact jt now a ?rs" and track: "pj_track_history (cs_frames s) = False"
      using ok a by (simp_all add: cs_ok_def)
    have "tails_exact jt now a (?rs @ [stamped])"
    proof (rule tails_exact_snoc [OF exact])
      assume c: "is_checkpoint (rec_body stamped)"
      then have "is_checkpoint (rec_body r)" by (simp add: stamped_def)
      then have stamp: "frame_stamp stamped = Some (frame_checkpoint_of a (cs_frames s))"
        using r True by (simp add: stamped_def stamp_record_def frame_stamp_def)
      have "agent_step jt now True stamped (shard_state jt now True ?rs) = agent_step jt now True stamped None"
        by (rule checkpoint_forgets [OF c _ _ stamp frames shard_records_settled]) (use r True shard in \<open>simp_all add: stamped_def\<close>)
      with stamp show "frame_stamp stamped \<noteq> None \<and> agent_step jt now True stamped (shard_state jt now True ?rs) = agent_step jt now True stamped None"
        by simp
    qed
    moreover have "map_option bare (agent_step jt now False stamped (map_of (pj_agents (cs_frames s)) a))
        = map_option bare (agent_step jt now True stamped (shard_state jt now True ?rs))"
      by (rule agent_step_bare [OF frames])
    ultimately show ?thesis
      using True by (simp add: shard_records_snoc shard apply_record_agents shard_state_snoc track)
  qed
  then show ?thesis using ok unfolding cs_ok_def log by simp
qed

lemma length_from_newest: "length (from_newest_checkpoint rs) \<le> length rs"
  by (induction rs) auto

lemma from_newest_checkpoint_cases:
  "from_newest_checkpoint rs = rs \<or>
     (\<exists>pre c post. rs = pre @ c # post \<and> is_checkpoint (rec_body c) \<and> from_newest_checkpoint rs = c # post)"
proof (induction rs)
  case (Cons r rs)
  show ?case
  proof (cases "\<exists>x \<in> set rs. is_checkpoint (rec_body x)")
    case True
    from Cons show ?thesis
    proof
      assume whole: "from_newest_checkpoint rs = rs"
      with True obtain c post where "rs = c # post" by (cases rs) auto
      then have "\<not> (\<exists>x \<in> set post. is_checkpoint (rec_body x))"
        using whole length_from_newest [of post] by (auto split: if_splits)
      then have "is_checkpoint (rec_body c)" using True \<open>rs = c # post\<close> by auto
      then show ?thesis using True whole \<open>rs = c # post\<close> by (intro disjI2 exI [of _ "[r]"]) auto
    next
      assume "\<exists>pre c post. rs = pre @ c # post \<and> is_checkpoint (rec_body c) \<and> from_newest_checkpoint rs = c # post"
      then obtain pre c post where "rs = pre @ c # post" "is_checkpoint (rec_body c)" "from_newest_checkpoint rs = c # post"
        by blast
      then show ?thesis using True by (intro disjI2 exI [of _ "r # pre"] exI [of _ c] exI [of _ post]) simp
    qed
  qed auto
qed simp

lemma exact_tail:
  assumes "tails_exact jt now a (pre @ c # post)" and "is_checkpoint (rec_body c)"
  shows "shard_state jt now True (c # post) = shard_state jt now True (pre @ c # post)"
proof -
  have "agent_step jt now True c (shard_state jt now True pre) = agent_step jt now True c None"
    using assms unfolding tails_exact_def by blast
  then show ?thesis by (simp add: shard_state_def)
qed

lemma read_shard_for_restore_exact:
  assumes "tails_exact jt now a (shard_records a log)"
  shows "shard_state jt now True (read_shard_for_restore a log) = shard_state jt now True (shard_records a log)"
  using from_newest_checkpoint_cases [of "shard_records a log"]
proof
  assume "from_newest_checkpoint (shard_records a log) = shard_records a log"
  then show ?thesis
    by (auto simp: read_shard_for_restore_def Let_def simp del: from_newest_checkpoint.simps split: list.splits)
next
  assume "\<exists>pre c post. shard_records a log = pre @ c # post \<and> is_checkpoint (rec_body c) \<and>
    from_newest_checkpoint (shard_records a log) = c # post"
  then obtain pre c post where "shard_records a log = pre @ c # post" "is_checkpoint (rec_body c)"
    "from_newest_checkpoint (shard_records a log) = c # post" by blast
  then show ?thesis using exact_tail [of jt now a pre c post] assms
    by (auto simp: read_shard_for_restore_def Let_def)
qed

lemma read_shard_own: "r \<in> set (read_shard_for_restore a log) \<Longrightarrow> shard_of r = a"
proof -
  have sub: "r \<in> set (from_newest_checkpoint rs) \<Longrightarrow> r \<in> set rs" for rs
    by (induction rs) (auto split: if_splits)
  assume "r \<in> set (read_shard_for_restore a log)"
  then have "r \<in> set (shard_records a log)"
    using sub [of "shard_records a log"] by (auto simp: read_shard_for_restore_def Let_def split: list.splits if_splits)
  then show ?thesis by (simp add: shard_records_def)
qed

lemma restore_frame_agents:
  "map_of (pj_agents (cs_frames (restore_frame jt now b (read_shard_for_restore b log) s))) a =
     (if a = b \<and> map_of (pj_agents (cs_frames s)) a = None
      then shard_state jt now (pj_track_history (cs_frames s)) (read_shard_for_restore b log)
      else map_of (pj_agents (cs_frames s)) a)"
  "pj_track_history (cs_frames (restore_frame jt now b records s)) = pj_track_history (cs_frames s)"
proof -
  have own: "filter (\<lambda>r. shard_of r = b) (read_shard_for_restore b log) = read_shard_for_restore b log"
    by (auto simp: filter_id_conv read_shard_own)
  have "shard_records a (read_shard_for_restore b log) = (if a = b then read_shard_for_restore b log else [])"
    by (auto simp: shard_records_def filter_id_conv filter_empty_conv read_shard_own)
  then show "map_of (pj_agents (cs_frames (restore_frame jt now b (read_shard_for_restore b log) s))) a =
     (if a = b \<and> map_of (pj_agents (cs_frames s)) a = None
      then shard_state jt now (pj_track_history (cs_frames s)) (read_shard_for_restore b log)
      else map_of (pj_agents (cs_frames s)) a)"
    by (auto simp: restore_frame_def has_agent_def own project_records_agents shard_state_def)
  show "pj_track_history (cs_frames (restore_frame jt now b records s)) = pj_track_history (cs_frames s)"
    by (simp add: restore_frame_def)
qed

lemma restore_all_agents:
  fixes jt now log
  defines "step \<equiv> \<lambda>a. restore_frame jt now a (read_shard_for_restore a log)"
  shows "pj_track_history (cs_frames (fold step bs s)) = pj_track_history (cs_frames s) \<and> cs_log (fold step bs s) = cs_log s \<and>
    map_of (pj_agents (cs_frames (fold step bs s))) a =
      (if a \<in> set bs \<and> map_of (pj_agents (cs_frames s)) a = None
       then shard_state jt now (pj_track_history (cs_frames s)) (read_shard_for_restore a log)
       else map_of (pj_agents (cs_frames s)) a)"
proof (induction bs arbitrary: s)
  case (Cons b bs)
  have "cs_log (step b s) = cs_log s" by (simp add: step_def restore_frame_def)
  then show ?case
    using Cons [of "step b s"] restore_frame_agents(1) [of jt now b log s a] restore_frame_agents(2) [of jt now b _ s]
    by (auto simp: step_def)
qed simp

lemma cs_reopen_ok:
  assumes ok: "cs_ok jt now s"
  shows "cs_ok jt now (cs_reopen jt now s)"
proof -
  note all = restore_all_agents [of jt now "cs_log s" "remdups (map (\<lambda>r. shard_of r) (cs_log s))" "new_store (cs_log s)"]
  have log: "cs_log (cs_reopen jt now s) = cs_log s" and track: "pj_track_history (cs_frames (cs_reopen jt now s)) = False"
    using all by (simp_all add: cs_reopen_def new_store_def new_projection_def)
  have "map_option bare (map_of (pj_agents (cs_frames (cs_reopen jt now s))) a)
      = map_option bare (shard_state jt now True (shard_records a (cs_log s)))" if "a \<noteq> audit_shard" for a
  proof (cases "a \<in> shard_of ` set (cs_log s)")
    case True
    have "map_of (pj_agents (cs_frames (cs_reopen jt now s))) a = shard_state jt now False (read_shard_for_restore a (cs_log s))"
      using all [of a] True by (simp add: cs_reopen_def new_store_def new_projection_def)
    then show ?thesis
      using ok that read_shard_for_restore_exact [of jt now a "cs_log s"]
        shard_state_bare [of jt now False "read_shard_for_restore a (cs_log s)" True]
      by (simp add: cs_ok_def)
  next
    case False
    then have "shard_records a (cs_log s) = []" by (auto simp: shard_records_def filter_empty_conv)
    moreover have "map_of (pj_agents (cs_frames (cs_reopen jt now s))) a = None"
      using all [of a] False by (auto simp: cs_reopen_def new_store_def new_projection_def)
    ultimately show ?thesis by (simp add: shard_state_def)
  qed
  then show ?thesis using ok track by (simp add: cs_ok_def log)
qed

lemma cs_run_ok: "\<forall>x \<in> set ops. cs_op_ok x \<Longrightarrow> cs_ok jt now (cs_run jt now ops)"
proof (induction ops rule: rev_induct)
  case Nil
  then show ?case
    by (simp add: cs_run_def cs_ok_def new_store_def new_projection_def tails_exact_def shard_records_def shard_state_def)
next
  case (snoc x ops)
  then have "cs_ok jt now (cs_run jt now ops)" "cs_op_ok x" by simp_all
  then have "cs_ok jt now (cs_step jt now x (cs_run jt now ops))"
    by (cases x) (simp_all add: cs_append_ok cs_reopen_ok)
  then show ?case by (simp add: cs_run_def)
qed

text \<open>
  C10. A client may read a shard from any of its checkpoints on: over any life of a session, across
  any number of processes that appended to the log and restored their state from it, folding the
  tail that starts at a checkpoint gives exactly the state of folding the whole log: the history,
  the agent, its open turn with the calls in flight, the queued messages, the usage and the time.
\<close>

theorem tail_projects_the_shard:
  assumes "\<forall>x \<in> set ops. cs_op_ok x" and "log = cs_log (cs_run jt now ops)" and "a \<noteq> audit_shard"
    and "shard_records a log = pre @ c # post" and "is_checkpoint (rec_body c)" and "shard_records a tail = c # post"
  shows "map_of (pj_agents (project_records jt now tail (new_projection True))) a
    = map_of (pj_agents (project_records jt now log (new_projection True))) a"
proof -
  have "tails_exact jt now a (shard_records a log)"
    using cs_run_ok [OF assms(1), of jt now] assms(2,3) by (simp add: cs_ok_def)
  then show ?thesis using exact_tail [of jt now a pre c post] assms(4-6) by (simp add: project_records_new)
qed

section \<open>Well-formed projections\<close>

definition parallel :: "history_fold \<Rightarrow> bool" where
  "parallel h \<longleftrightarrow> length (hf_origins h) = length (hf_messages h)"

lemma parallel_folds [simp]:
  "parallel empty_fold"
  "parallel h \<Longrightarrow> parallel (fold_append m origin h)"
  "parallel (fold_replace messages origins h)"
  "parallel (fold_compaction_record c h)"
  "parallel h \<Longrightarrow> parallel (fold_compaction cutoff summary timestamp loaded h)"
  by (simp_all add: parallel_def empty_fold_def fold_append_def fold_replace_def fold_compaction_record_def fold_compaction_def Let_def)

definition agent_ok :: "string \<Rightarrow> agent_state \<Rightarrow> bool" where
  "agent_ok a st \<longleftrightarrow> ag_address st = a \<and> parallel (ag_history st) \<and>
     (case ag_turn st of None \<Rightarrow> True | Some t \<Rightarrow> calls_ok (tu_calls t))"

definition projection_ok :: "projection \<Rightarrow> bool" where
  "projection_ok pj \<longleftrightarrow> jmap_ok (pj_agents pj) \<and> list_all (\<lambda>(a, st). agent_ok a st) (pj_agents pj)"

lemma agent_ok_fresh [simp]: "agent_ok a (fresh_agent a)"
  by (simp add: agent_ok_def fresh_agent_def)

lemma agent_ok_on_turn [simp]:
  "agent_ok a st \<Longrightarrow> (\<And>t. calls_ok (tu_calls t) \<Longrightarrow> calls_ok (tu_calls (f t))) \<Longrightarrow> agent_ok a (on_turn f st)"
  by (simp add: agent_ok_def on_turn_def split: option.splits)

lemma agent_ok_on_history [simp]:
  "agent_ok a st \<Longrightarrow> (\<And>h. parallel h \<Longrightarrow> parallel (f h)) \<Longrightarrow> agent_ok a (on_history track f st)"
  by (simp add: agent_ok_def on_history_def)

lemma agent_ok_others [simp]:
  "agent_ok a (consume_steer origin st) \<longleftrightarrow> agent_ok a st"
  "agent_ok a (st\<lparr>ag_last_event_at := v\<rparr>) \<longleftrightarrow> agent_ok a st"
  "agent_ok a (st\<lparr>ag_usage := u\<rparr>) \<longleftrightarrow> agent_ok a st"
  by (simp_all add: agent_ok_def consume_steer_def split: option.splits)

lemma calls_ok_ops [simp]:
  "calls_ok (tu_calls t) \<Longrightarrow> calls_ok (tu_calls (start_call call name args t))"
  "calls_ok (tu_calls t) \<Longrightarrow> calls_ok (tu_calls (settle_call call t))"
  "tu_calls (clear_parts t) = tu_calls t"
  by (simp_all add: start_call_def new_call_def settle_call_def clear_parts_def Let_def split: option.splits)

lemma calls_ok_on_call [simp]:
  "calls_ok (tu_calls t) \<Longrightarrow> (\<And>c. ts_id (f c) = ts_id c) \<Longrightarrow> calls_ok (tu_calls (on_call call f t))"
  using calls_okD [of "tu_calls t" call] unfolding on_call_def
  by (cases "map_of (tu_calls t) call") simp_all

lemma calls_ok_absorb [simp]: "calls_ok (tu_calls t) \<Longrightarrow> calls_ok (tu_calls (absorb_message m t))"
proof -
  have calls: "calls_ok (tu_calls u) \<Longrightarrow> calls_ok (tu_calls (fold (\<lambda>c. start_call (tc_id c) (tc_name c) (tc_arguments c)) cs u))" for cs u
    by (induction cs arbitrary: u) simp_all
  show "calls_ok (tu_calls t) \<Longrightarrow> calls_ok (tu_calls (absorb_message m t))"
    by (cases m) (simp_all add: absorb_message_def calls)
qed

lemma agent_ok_lifecycle [simp]: "agent_ok a st \<Longrightarrow> agent_ok a (fold_lifecycle e st)"
  by (cases e) (simp_all, simp_all add: agent_ok_def new_turn_def)

lemma agent_ok_fold_event: "agent_ok a st \<Longrightarrow> agent_ok a (fold_event track b st)"
proof (cases b)
  case (ContentPart part)
  assume "agent_ok a st"
  then show ?thesis by (cases part) (simp_all add: ContentPart Let_def)
next
  case (HandoffEvent source target)
  assume "agent_ok a st"
  then show ?thesis by (simp add: HandoffEvent agent_ok_def)
qed simp_all

lemma agent_ok_checkpoint [simp]:
  assumes "is_checkpoint b" "agent_ok a st"
  shows "agent_ok a (on_history track (reset_history b) st)"
  using assms by (cases b) simp_all

lemma agent_ok_seed [simp]: "agent_ok a st \<Longrightarrow> agent_ok a (seed_frame frame st)"
  using settled_turn_of_frame
  by (auto simp: agent_ok_def seed_frame_def settled_turn_def split: option.splits)

lemma projection_ok_state: "projection_ok pj \<Longrightarrow> agent_ok a (state_for a pj)"
  by (auto simp: projection_ok_def state_for_def list_all_iff split: option.splits dest: map_of_SomeD)

lemma projection_ok_set_agent: "projection_ok pj \<Longrightarrow> agent_ok a st \<Longrightarrow> projection_ok (set_agent a st pj)"
proof -
  assume ok: "projection_ok pj" "agent_ok a st"
  then have d: "jmap_ok (jset a st (pj_agents pj))" by (simp add: projection_ok_def)
  have "agent_ok k v" if "(k, v) \<in> set (jset a st (pj_agents pj))" for k v
  proof -
    have "map_of (jset a st (pj_agents pj)) k = Some v" using map_of_is_SomeI [OF d that] .
    then have "k = a \<and> v = st \<or> map_of (pj_agents pj) k = Some v" by (simp only: jget_jset split: if_splits) auto
    then show ?thesis using ok by (auto simp: projection_ok_def list_all_iff dest: map_of_SomeD)
  qed
  with d show "projection_ok (set_agent a st pj)" by (auto simp: projection_ok_def set_agent_def list_all_iff)
qed

lemma projection_ok_last_event [simp]: "projection_ok (pj\<lparr>pj_last_event_id := v\<rparr>) \<longleftrightarrow> projection_ok pj"
  by (simp add: projection_ok_def)

lemma apply_event_ok: "projection_ok pj \<Longrightarrow> projection_ok (apply_event e t pj)"
proof -
  assume ok: "projection_ok pj"
  have "agent_ok a (fold_event track b ((state_for a pj)\<lparr>ag_last_event_at := v\<rparr>))" for a track b v
    by (rule agent_ok_fold_event) (simp add: projection_ok_state [OF ok])
  note set = projection_ok_set_agent [OF ok this]
  show "projection_ok (apply_event e t pj)"
  proof (cases "\<exists>run call progress. ev_body e = WorkflowProgress run call progress")
    case True
    then show ?thesis using ok by (auto simp: apply_event_def projection_ok_def Let_def)
  next
    case False
    then have "apply_event e t pj = (set_agent (ev_address e)
        (fold_event (pj_track_history pj) (ev_body e) ((state_for (ev_address e) pj)\<lparr>ag_last_event_at := Some t\<rparr>)) pj)
        \<lparr>pj_last_event_id := Some (ev_id e)\<rparr>"
      by (cases "ev_body e") (auto simp: apply_event_def)
    then show ?thesis using set by simp
  qed
qed

lemma apply_record_ok: "projection_ok pj \<Longrightarrow> projection_ok (apply_record jt now r pj)"
proof (cases "is_checkpoint (rec_body r)")
  case True
  assume ok: "projection_ok pj"
  have "agent_ok (shard_of r) (state_for (shard_of r) pj)" by (rule projection_ok_state [OF ok])
  then show ?thesis using True
    by (simp add: apply_record_def apply_checkpoint_def Let_def projection_ok_set_agent [OF ok])
qed (simp add: apply_record_def apply_event_ok split: option.splits)

text \<open>What a projection is fed with: live events and records read back.\<close>

datatype projection_input = FromEvent agent_event nat | FromRecord stored_record

fun feed :: "json_text \<Rightarrow> nat \<Rightarrow> projection_input \<Rightarrow> projection \<Rightarrow> projection" where
  "feed jt now (FromEvent e t) pj = apply_event e t pj"
| "feed jt now (FromRecord r) pj = apply_record jt now r pj"

text \<open>A snapshot's messages with their provenance: the last ones, still paired as they were.\<close>

lemma snapshot_pairs:
  assumes "parallel (ag_history st)"
  shows "zip (as_messages (snapshot_agent st (Some n))) (as_origins (snapshot_agent st (Some n)))
    = drop (length (hf_messages (ag_history st)) - n) (zip (hf_messages (ag_history st)) (hf_origins (ag_history st)))"
  using assms by (simp add: snapshot_agent_def Let_def parallel_def drop_zip zip_append1)

text \<open>
  C39. Every projection is well formed, however live events and replayed records mix: one state per
  address, under its own address; provenance parallel to the messages; the calls of an open turn
  keyed by their ids. So a snapshot limited to the last n messages keeps each message with its own
  provenance.
\<close>

theorem projection_well_formed:
  "case fold (feed jt now) inputs (new_projection track) of pj \<Rightarrow>
     projection_ok pj \<and>
     (case state_for a pj of st \<Rightarrow> case snapshot_agent st (Some n) of sn \<Rightarrow>
        as_address sn = a \<and> length (as_messages sn) \<le> n \<and>
        zip (as_messages sn) (as_origins sn)
          = drop (as_message_count sn - n) (zip (hf_messages (ag_history st)) (hf_origins (ag_history st))))"
proof -
  have ok: "projection_ok (fold (feed jt now) inputs (new_projection track))"
  proof (induction inputs rule: rev_induct)
    case Nil
    then show ?case by (simp add: projection_ok_def new_projection_def)
  next
    case (snoc x xs)
    then show ?case by (cases x) (simp_all add: apply_event_ok apply_record_ok)
  qed
  then have st: "agent_ok a (state_for a (fold (feed jt now) inputs (new_projection track)))" by (rule projection_ok_state)
  then show ?thesis using ok snapshot_pairs [of "state_for a (fold (feed jt now) inputs (new_projection track))" n]
    by (simp add: agent_ok_def) (simp add: snapshot_agent_def Let_def)
qed

subsection \<open>A session that compacts inside a turn\<close>

definition small_record :: "string \<Rightarrow> record_body \<Rightarrow> stored_record" where
  "small_record i b = \<lparr>rec_time = Some 7, rec_address = None, rec_body = b, rec_event_id = Some i, rec_checkpoint = None\<rparr>"

definition plain_text :: json_text where
  "plain_text = \<lparr>jt_string = \<lambda>_. [], jt_preview = \<lambda>_. []\<rparr>"

definition small_ops :: "cs_op list" where
  "small_ops =
     [CsAppend (small_record ''e1'' (RecLifecycle (AgentStarted ''coder'' None))),
      CsAppend (small_record ''e2'' (RecLifecycle (TurnStarted ''t1'' None))),
      CsReopen,
      CsAppend (small_record ''e3'' (RecReplace [] None)),
      CsAppend (small_record ''e4'' (RecAppendMessage (SystemMsg ''go on'') None))]"

definition small_log :: "stored_record list" where
  "small_log = cs_log (cs_run plain_text 0 small_ops)"

lemma small_log_shape:
  "length (shard_records ''main'' small_log) = 4 \<and> is_checkpoint (rec_body (shard_records ''main'' small_log ! 2)) \<and>
   shard_records ''main'' (drop 2 small_log) = drop 2 (shard_records ''main'' small_log)"
  by code_simp

theorem tail_projects_the_shard_witness:
  "map_of (pj_agents (project_records plain_text 0 (drop 2 small_log) (new_projection True))) ''main''
     = map_of (pj_agents (project_records plain_text 0 small_log (new_projection True))) ''main''"
proof (rule tail_projects_the_shard [of small_ops _ plain_text 0 "''main''" "take 2 (shard_records ''main'' small_log)"
    "shard_records ''main'' small_log ! 2" "drop 3 (shard_records ''main'' small_log)"])
  show "\<forall>x \<in> set small_ops. cs_op_ok x" by (simp add: small_ops_def small_record_def)
  show "small_log = cs_log (cs_run plain_text 0 small_ops)" by (rule small_log_def)
  show "''main'' \<noteq> audit_shard" by (simp add: audit_shard_def)
  have len: "2 < length (shard_records ''main'' small_log)" using small_log_shape by simp
  then show "shard_records ''main'' small_log = take 2 (shard_records ''main'' small_log)
      @ shard_records ''main'' small_log ! 2 # drop 3 (shard_records ''main'' small_log)"
    using id_take_nth_drop [OF len] by simp
  show "is_checkpoint (rec_body (shard_records ''main'' small_log ! 2))" using small_log_shape by blast
  show "shard_records ''main'' (drop 2 small_log) = shard_records ''main'' small_log ! 2 # drop 3 (shard_records ''main'' small_log)"
    using small_log_shape Cons_nth_drop_Suc [OF len] by (simp add: numeral_3_eq_3 numeral_2_eq_2)
qed

end
