(* ===== verification/Inbox.thy ===== *)
theory Inbox
  imports Steer_Bus Log_Store
begin

text \<open>
  What a managed session has been asked to do (\<open>managed-agents/src/server/inbox.ts\<close>), and how a
  worker works through it (\<open>session-worker.ts\<close>, \<open>processInbox\<close>, \<open>lastTurnIsOpen\<close>, \<open>Wakeup\<close>).

  The log is the list of the lines of the shard \<open>main\<close>, in the order of their sequences. The
  session is a parameter seen through what it does: it appends lines, and it reports that a
  message is in the conversation or that a resume has settled.
\<close>

section \<open>Inbox items\<close>

datatype control_command =
    CancelCommand string int "string option"
  | ResumeCommand string int json "string option"

fun command_id :: "control_command \<Rightarrow> string" where
  "command_id (CancelCommand i _ _) = i"
| "command_id (ResumeCommand i _ _ _) = i"

datatype inbox_item = InboxInput nat steer_message | InboxControl nat control_command

fun item_sequence :: "inbox_item \<Rightarrow> nat" where
  "item_sequence (InboxInput n _) = n"
| "item_sequence (InboxControl n _) = n"

fun inbox_item_id :: "inbox_item \<Rightarrow> string" where
  "inbox_item_id (InboxInput _ m) = sq_id m"
| "inbox_item_id (InboxControl _ c) = command_id c"

definition control_record_name :: string where
  "control_record_name = ''managed.control''"

definition parse_control_command :: "json \<Rightarrow> control_command option" where
  "parse_control_command data =
     (case (json_field ''commandId'' data, json_field ''requestedAt'' data) of
        (Some (JStr i), Some (JNum t)) \<Rightarrow>
          (let actor = (case json_field ''actor'' data of Some (JStr a) \<Rightarrow> Some a | _ \<Rightarrow> None) in
           if json_field ''kind'' data = Some (JStr ''cancel'') then Some (CancelCommand i t actor)
           else case json_field ''answers'' data of
                  Some answers \<Rightarrow>
                    if json_field ''kind'' data = Some (JStr ''resume'') \<and> is_json_object answers
                    then Some (ResumeCommand i t answers actor) else None
                | None \<Rightarrow> None)
      | _ \<Rightarrow> None)"

definition inbox_item_from_record :: "stored_line \<Rightarrow> inbox_item option" where
  "inbox_item_from_record l =
     (case steer_message_from_record (sl_record l) of
        Some m \<Rightarrow> Some (InboxInput (sl_sequence l) m)
      | None \<Rightarrow>
          (case rec_body (sl_record l) of
             RecCustom name data \<Rightarrow>
               if name = control_record_name then map_option (InboxControl (sl_sequence l)) (parse_control_command data) else None
           | _ \<Rightarrow> None))"

definition inbox_page_size :: int where
  "inbox_page_size = 128"

definition read_inbox :: "stored_line list \<Rightarrow> nat option \<Rightarrow> nat list \<Rightarrow> page_error + inbox_item list" where
  "read_inbox log cursor exclude =
     map_sum id (\<lambda>p. List.map_filter inbox_item_from_record (filter (\<lambda>l. sl_sequence l \<notin> set exclude) (pg_data p)))
       (page_records log inbox_page_size Asc cursor)"

definition has_unprocessed_inbox :: "stored_line list \<Rightarrow> nat option \<Rightarrow> page_error + bool" where
  "has_unprocessed_inbox log cursor = map_sum id (\<lambda>items. items \<noteq> []) (read_inbox log cursor [])"

section \<open>A pass over the inbox\<close>

fun is_cancel :: "inbox_item \<Rightarrow> bool" where
  "is_cancel (InboxControl _ (CancelCommand _ _ _)) = True"
| "is_cancel _ = False"

fun is_resume :: "inbox_item \<Rightarrow> bool" where
  "is_resume (InboxControl _ (ResumeCommand _ _ _ _)) = True"
| "is_resume _ = False"

text \<open>\<open>findLastIndex\<close> and \<open>findIndex\<close>; \<^const>\<open>None\<close> is the code's \<open>-1\<close>.\<close>

fun find_index :: "('a \<Rightarrow> bool) \<Rightarrow> 'a list \<Rightarrow> nat option" where
  "find_index p [] = None"
| "find_index p (x # xs) = (if p x then Some 0 else map_option Suc (find_index p xs))"

fun find_last_index :: "('a \<Rightarrow> bool) \<Rightarrow> 'a list \<Rightarrow> nat option" where
  "find_last_index p [] = None"
| "find_last_index p (x # xs) =
     (case find_last_index p xs of Some i \<Rightarrow> Some (Suc i) | None \<Rightarrow> if p x then Some 0 else None)"

record inbox_pass =
  ip_stored_cursor :: "nat option"
  ip_cursor :: "nat option"
  ip_outstanding :: "inbox_item list"
  ip_consumed :: "string list"
  ip_resuming :: bool

definition start_pass :: "nat option \<Rightarrow> inbox_pass" where
  "start_pass cursor =
     \<lparr>ip_stored_cursor = cursor, ip_cursor = cursor, ip_outstanding = [], ip_consumed = [], ip_resuming = False\<rparr>"

text \<open>\<open>advance\<close>: the cursor moves over the consumed head of what is outstanding.\<close>

fun advance_over :: "string list \<Rightarrow> inbox_item list \<Rightarrow> nat option \<Rightarrow> nat option \<times> inbox_item list" where
  "advance_over consumed [] cursor = (cursor, [])"
| "advance_over consumed (x # xs) cursor =
     (if inbox_item_id x \<in> set consumed then advance_over consumed xs (Some (item_sequence x)) else (cursor, x # xs))"

definition advance_pass :: "inbox_pass \<Rightarrow> inbox_pass" where
  "advance_pass s =
     (case advance_over (ip_consumed s) (ip_outstanding s) (ip_cursor s) of
        (cursor, rest) \<Rightarrow>
          s\<lparr>ip_cursor := cursor, ip_outstanding := rest,
            ip_stored_cursor := (if length rest < length (ip_outstanding s) then cursor else ip_stored_cursor s)\<rparr>)"

definition consume :: "inbox_item list \<Rightarrow> inbox_pass \<Rightarrow> inbox_pass" where
  "consume items s = s\<lparr>ip_consumed := ip_consumed s @ map inbox_item_id items\<rparr>"

definition track :: "inbox_item list \<Rightarrow> inbox_pass \<Rightarrow> inbox_pass" where
  "track items s = s\<lparr>ip_outstanding := ip_outstanding s @ items\<rparr>"

text \<open>
  What one reading of the inbox leads to: the cancel that ends the pass, waiting (the session is
  paused and nothing answers it), or items handed to the session.
\<close>

datatype session_action = Requeue steer_message | Resume json

datatype pass_outcome = PassCancelled | PassWaits | PassDispatched "session_action list"

fun action_of :: "inbox_item \<Rightarrow> session_action list" where
  "action_of (InboxInput _ m) = [Requeue m]"
| "action_of (InboxControl _ (ResumeCommand _ _ answers _)) = [Resume answers]"
| "action_of (InboxControl _ (CancelCommand _ _ _)) = []"

text \<open>\<open>limit\<close>: how many items are handed over before the worker is told to halt.\<close>

definition dispatch_items :: "nat option \<Rightarrow> inbox_item list \<Rightarrow> inbox_pass \<Rightarrow> pass_outcome \<times> inbox_pass" where
  "dispatch_items limit items s =
     (let taken = (case limit of Some n \<Rightarrow> take n items | None \<Rightarrow> items) in
      (PassDispatched (concat (map action_of taken)),
       (track taken s)\<lparr>ip_resuming := (ip_resuming s \<or> list_ex is_resume taken)\<rparr>))"

definition pass_batch :: "bool \<Rightarrow> nat option \<Rightarrow> inbox_item list \<Rightarrow> inbox_pass \<Rightarrow> pass_outcome \<times> inbox_pass" where
  "pass_batch interrupted limit items s =
     (case find_last_index is_cancel items of
        Some i \<Rightarrow>
          (let stopped = take (Suc i) items in
           (PassCancelled, advance_pass (consume (ip_outstanding s @ stopped) (track stopped s))))
      | None \<Rightarrow>
          if interrupted \<and> \<not> ip_resuming s
          then (case find_index is_resume items of
                  None \<Rightarrow> (PassWaits, s)
                | Some i \<Rightarrow>
                    dispatch_items limit (drop i items) (consume (take i items) (track (take i items) s)))
          else dispatch_items limit items s)"

definition pass_read :: "bool \<Rightarrow> nat option \<Rightarrow> stored_line list \<Rightarrow> inbox_pass \<Rightarrow> page_error + pass_outcome \<times> inbox_pass" where
  "pass_read interrupted limit log s =
     map_sum id (\<lambda>items. pass_batch interrupted limit items s)
       (read_inbox log (ip_cursor s) (map item_sequence (ip_outstanding s)))"

text \<open>The session reports: a message in the conversation, or a settled resume.\<close>

definition note_consumed :: "string \<Rightarrow> inbox_pass \<Rightarrow> inbox_pass" where
  "note_consumed i s = s\<lparr>ip_consumed := ip_consumed s @ [i]\<rparr>"

definition resume_done :: "inbox_pass \<Rightarrow> inbox_pass" where
  "resume_done s = s\<lparr>ip_resuming := False\<rparr>"

text \<open>\<open>drainInbox\<close> before it opens a session: nothing to do, only cancels, or a session is needed.\<close>

datatype drain_decision = DrainDone | DrainSkips nat | DrainOpens

definition drain_decide :: "stored_line list \<Rightarrow> nat option \<Rightarrow> page_error + drain_decision" where
  "drain_decide log cursor =
     map_sum id (\<lambda>items.
         if items = [] then DrainDone
         else if list_all is_cancel items then DrainSkips (item_sequence (last items))
         else DrainOpens)
       (read_inbox log cursor [])"

section \<open>Is the last turn open?\<close>

fun turn_mark :: "record_body \<Rightarrow> bool option" where
  "turn_mark (RecLifecycle (TurnStarted _ _)) = Some True"
| "turn_mark (RecLifecycle (TurnEnded _ _ _)) = Some False"
| "turn_mark (RecLifecycle (TurnPaused _)) = Some False"
| "turn_mark _ = None"

fun first_mark :: "stored_line list \<Rightarrow> bool option" where
  "first_mark [] = None"
| "first_mark (l # ls) = (case turn_mark (rec_body (sl_record l)) of Some b \<Rightarrow> Some b | None \<Rightarrow> first_mark ls)"

definition open_turn_page_size :: int where
  "open_turn_page_size = 64"

fun last_turn_is_open :: "nat \<Rightarrow> stored_line list \<Rightarrow> nat option \<Rightarrow> (page_error + bool) option" where
  "last_turn_is_open 0 log cursor = None"
| "last_turn_is_open (Suc fuel) log cursor =
     (case page_records log open_turn_page_size Desc cursor of
        Inl err \<Rightarrow> Some (Inl err)
      | Inr p \<Rightarrow>
          (case first_mark (pg_data p) of
             Some b \<Rightarrow> Some (Inr b)
           | None \<Rightarrow>
               (case pg_next p of None \<Rightarrow> Some (Inr False) | Some n \<Rightarrow> last_turn_is_open fuel log (Some n))))"

section \<open>The latch\<close>

record wakeup =
  wu_pending :: bool
  wu_waiters :: "nat list"

definition wakeup_raise :: "wakeup \<Rightarrow> nat list \<times> wakeup" where
  "wakeup_raise w = (wu_waiters w, w\<lparr>wu_pending := True, wu_waiters := []\<rparr>)"

definition wakeup_take :: "wakeup \<Rightarrow> bool \<times> wakeup" where
  "wakeup_take w = (wu_pending w, w\<lparr>wu_pending := False\<rparr>)"

text \<open>\<open>wait\<close>: whether the promise is resolved at once.\<close>

definition wakeup_wait :: "nat \<Rightarrow> wakeup \<Rightarrow> bool \<times> wakeup" where
  "wakeup_wait waiter w = (if wu_pending w then (True, w) else (False, w\<lparr>wu_waiters := wu_waiters w @ [waiter]\<rparr>))"

section \<open>The cursor never skips an item\<close>

abbreviation items_of :: "stored_line list \<Rightarrow> inbox_item list" where
  "items_of ls \<equiv> List.map_filter inbox_item_from_record ls"

definition log_ok :: "stored_line list \<Rightarrow> bool" where
  "log_ok log \<longleftrightarrow> sorted_wrt (<) (map sl_sequence log) \<and> list_all (\<lambda>l. 0 < sl_sequence l) log"

text \<open>A pass and the log it reads, one step at a time.\<close>

inductive pass_step :: "stored_line list \<times> inbox_pass \<Rightarrow> stored_line list \<times> inbox_pass \<Rightarrow> bool" where
  log_grows: "log_ok (log @ [l]) \<Longrightarrow> pass_step (log, s) (log @ [l], s)"
| reads: "pass_read interrupted limit log s = Inr (outcome, s') \<Longrightarrow> pass_step (log, s) (log, s')"
| reported: "pass_step (log, s) (log, note_consumed i s)"
| resumed: "pass_step (log, s) (log, resume_done s)"
| advances: "pass_step (log, s) (log, advance_pass s)"

inductive_cases pass_stepE: "pass_step x y"

definition after_cursor :: "nat option \<Rightarrow> stored_line \<Rightarrow> bool" where
  "after_cursor c l = past Asc c l"

definition dealt_with :: "nat option \<Rightarrow> stored_line list \<Rightarrow> nat option \<Rightarrow> string list \<Rightarrow> bool" where
  "dealt_with c0 log cursor consumed \<longleftrightarrow>
     list_all (\<lambda>l. case inbox_item_from_record l of
       None \<Rightarrow> True | Some it \<Rightarrow> \<not> after_cursor c0 l \<or> after_cursor cursor l \<or> inbox_item_id it \<in> set consumed) log"

definition cursor_from :: "nat option \<Rightarrow> stored_line list \<Rightarrow> nat option \<Rightarrow> bool" where
  "cursor_from c0 log cursor \<longleftrightarrow> cursor = c0 \<or> cursor \<in> (\<lambda>l. Some (sl_sequence l)) ` set log"

definition pass_ok :: "nat option \<Rightarrow> stored_line list \<times> inbox_pass \<Rightarrow> bool" where
  "pass_ok c0 x = (case x of (log, s) \<Rightarrow>
     log_ok log \<and> ip_stored_cursor s = ip_cursor s \<and> cursor_from c0 log (ip_cursor s) \<and> dealt_with c0 log (ip_cursor s) (ip_consumed s) \<and>
     (\<exists>n \<le> length log. ip_outstanding s = items_of (filter (after_cursor (ip_cursor s)) (take n log))))"

lemma map_filter_append [simp]: "List.map_filter f (xs @ ys) = List.map_filter f xs @ List.map_filter f ys"
  by (simp add: map_filter_def)

lemma item_sequence_of [simp]: "inbox_item_from_record l = Some it \<Longrightarrow> item_sequence it = sl_sequence l"
  by (auto simp: inbox_item_from_record_def split: option.splits record_body.splits if_splits)

lemma in_items_of: "it \<in> set (items_of ls) \<longleftrightarrow> (\<exists>l \<in> set ls. inbox_item_from_record l = Some it)"
  by (force simp: map_filter_def)

text \<open>A prefix of what is selected from a list is selected from a prefix of it.\<close>

lemma take_map_filter:
  "\<exists>i \<le> length ys. take j (List.map_filter f (filter P ys)) = List.map_filter f (filter P (take i ys))"
proof (induction ys arbitrary: j)
  case (Cons y ys)
  show ?case
  proof (cases "P y \<and> f y \<noteq> None")
    case True
    then obtain z where z: "P y" "f y = Some z" by auto
    show ?thesis
    proof (cases j)
      case 0
      then show ?thesis by (intro exI [of _ 0]) (simp add: map_filter_simps)
    next
      case (Suc j')
      obtain i where "i \<le> length ys" "take j' (List.map_filter f (filter P ys)) = List.map_filter f (filter P (take i ys))"
        using Cons by blast
      then show ?thesis using z Suc by (intro exI [of _ "Suc i"]) (simp add: map_filter_simps)
    qed
  next
    case False
    obtain i where "i \<le> length ys" "take j (List.map_filter f (filter P ys)) = List.map_filter f (filter P (take i ys))"
      using Cons by blast
    then show ?thesis using False by (intro exI [of _ "Suc i"]) (auto simp: map_filter_simps)
  qed
qed (simp add: map_filter_simps)

lemma take_filter_take: "\<exists>i \<le> length ys. take j (filter P ys) = filter P (take i ys)"
  using take_map_filter [of ys j Some P] by (simp add: map_filter_def)

lemma read_inbox_items:
  assumes ok: "log_ok log" and n: "n \<le> length log" and out: "outstanding = items_of (filter (after_cursor cursor) (take n log))"
    and read: "read_inbox log cursor (map item_sequence outstanding) = Inr items"
  obtains k where "k \<le> length log" "n \<le> k" "items = items_of (filter (after_cursor cursor) (drop n (take k log)))"
    | "items = []"
proof -
  obtain j where j: "take (nat inbox_page_size) (filter (after_cursor cursor) log) = filter (after_cursor cursor) (take j log)"
    and jl: "j \<le> length log"
    using take_filter_take [of log "nat inbox_page_size" "after_cursor cursor"] by blast
  define fresh where "fresh = (\<lambda>l :: stored_line. sl_sequence l \<notin> set (map item_sequence outstanding))"
  have items: "items = items_of (filter fresh (filter (after_cursor cursor) (take j log)))"
  proof -
    have "after_cursor cursor = past Asc cursor" by (simp add: after_cursor_def [abs_def])
    then have "items = items_of (filter fresh (take (nat inbox_page_size) (filter (after_cursor cursor) log)))"
      using read by (auto simp: read_inbox_def page_records_def traversal_def Let_def fresh_def split: if_splits)
    then show ?thesis by (simp only: j)
  qed
  have old: "items_of (filter fresh (filter (after_cursor cursor) (take i log))) = []" if "i \<le> n" for i
  proof -
    have "inbox_item_from_record l = None" if "l \<in> set (filter fresh (filter (after_cursor cursor) (take i log)))" for l
    proof (rule ccontr)
      assume "inbox_item_from_record l \<noteq> None"
      then obtain it where it: "inbox_item_from_record l = Some it" by auto
      have "l \<in> set (filter (after_cursor cursor) (take n log))"
        using that \<open>i \<le> n\<close> set_take_subset_set_take [of i n log] by auto
      then have "it \<in> set outstanding" using it by (force simp: out map_filter_def)
      then have "sl_sequence l \<in> set (map item_sequence outstanding)" using item_sequence_of [OF it] by force
      then show False using that by (simp add: fresh_def)
    qed
    then show ?thesis by (auto simp: map_filter_def filter_empty_conv)
  qed
  show ?thesis
  proof (cases "n \<le> j")
    case False
    then show ?thesis using old [of j] items that(2) by simp
  next
    case True
    have split: "take j log = take n log @ drop n (take j log)"
      using True by (metis append_take_drop_id min.absorb1 take_take)
    have new: "fresh l" if "l \<in> set (drop n (take j log))" for l
    proof -
      have "l \<in> set (drop n log)" using that by (metis drop_take in_set_takeD)
      moreover have "sorted_wrt (<) (map sl_sequence (take n log @ drop n log))" using ok by (simp add: log_ok_def)
      ultimately have later: "\<forall>x \<in> set (take n log). sl_sequence x < sl_sequence l"
        by (simp only: map_append sorted_wrt_append) auto
      have "m < sl_sequence l" if m: "m \<in> set (map item_sequence outstanding)" for m
      proof -
        from m obtain it where it: "it \<in> set outstanding" "m = item_sequence it" by auto
        from it(1) obtain x where "x \<in> set (take n log)" "inbox_item_from_record x = Some it"
          unfolding out in_items_of by auto
        then show ?thesis using later it(2) by simp
      qed
      then show ?thesis by (auto simp: fresh_def)
    qed
    have "filter fresh (filter (after_cursor cursor) (drop n (take j log))) = filter (after_cursor cursor) (drop n (take j log))"
      using new by (simp add: filter_filter) (metis (no_types, lifting) filter_cong)
    then have "items = items_of (filter (after_cursor cursor) (drop n (take j log)))"
      using old [of n] by (subst items, subst split) simp
    then show ?thesis using that(1) jl True by blast
  qed
qed

lemma read_prefix:
  assumes "log_ok log" "n \<le> length log" "outstanding = items_of (filter (after_cursor cursor) (take n log))"
    and "read_inbox log cursor (map item_sequence outstanding) = Inr items"
  shows "\<exists>n' \<le> length log. outstanding @ take j items = items_of (filter (after_cursor cursor) (take n' log))"
proof (rule read_inbox_items [OF assms])
  fix k
  assume k: "k \<le> length log" "n \<le> k" and items: "items = items_of (filter (after_cursor cursor) (drop n (take k log)))"
  obtain i where i: "i \<le> length (drop n (take k log))"
    "take j items = items_of (filter (after_cursor cursor) (take i (drop n (take k log))))"
    using take_map_filter [of "drop n (take k log)" j inbox_item_from_record "after_cursor cursor"] items by auto
  have "i \<le> k - n" using i(1) k by auto
  then have "take i (drop n (take k log)) = take i (drop n log)" by (simp add: drop_take min_def)
  then have "take n log @ take i (drop n (take k log)) = take (n + i) log" by (simp add: take_add)
  then have "outstanding @ take j items = items_of (filter (after_cursor cursor) (take (n + i) log))"
    by (metis assms(3) filter_append i(2) map_filter_append)
  then show ?thesis using i(1) k by (intro exI [of _ "n + i"]) simp
qed (use assms in auto)

lemma dealt_with_more: "dealt_with c0 log cursor consumed \<Longrightarrow> set consumed \<subseteq> set consumed' \<Longrightarrow> dealt_with c0 log cursor consumed'"
  by (auto simp: dealt_with_def list_all_iff split: option.splits)

lemma after_cursor_Some: "after_cursor (Some c) l \<longleftrightarrow> c < sl_sequence l"
  by (auto simp: after_cursor_def past_def)

lemma after_cursor_mono: "after_cursor c x \<Longrightarrow> after_cursor (Some (sl_sequence x)) l \<Longrightarrow> after_cursor c l"
  by (auto simp: after_cursor_def past_def split: option.splits)

text \<open>The first outstanding item is consumed: the cursor may move onto it.\<close>

lemma advance_one:
  assumes ok: "log_ok log" and n: "n \<le> length log"
    and out: "x # xs = items_of (filter (after_cursor cursor) (take n log))"
    and dealt: "dealt_with c0 log cursor consumed" and x: "inbox_item_id x \<in> set consumed"
  shows "xs = items_of (filter (after_cursor (Some (item_sequence x))) (take n log)) \<and>
    dealt_with c0 log (Some (item_sequence x)) consumed \<and> cursor_from c0 log (Some (item_sequence x))"
proof -
  define L where "L = filter (after_cursor cursor) (take n log)"
  have sorted: "sorted_wrt (\<lambda>a b. sl_sequence a < sl_sequence b) log" using ok by (simp add: log_ok_def sorted_wrt_map)
  define L1 where "L1 = takeWhile (\<lambda>l. inbox_item_from_record l = None) L"
  define M where "M = dropWhile (\<lambda>l. inbox_item_from_record l = None) L"
  have L: "L = L1 @ M" by (simp add: L1_def M_def)
  have none: "inbox_item_from_record l = None" if "l \<in> set L1" for l using that set_takeWhileD by (fastforce simp: L1_def)
  then have "items_of L1 = []" by (auto simp: map_filter_def filter_empty_conv)
  then have "items_of M = x # xs" using out L by (simp add: L_def)
  moreover have "M = [] \<or> inbox_item_from_record (hd M) \<noteq> None" unfolding M_def using hd_dropWhile by blast
  ultimately obtain l L2 where M: "M = l # L2" and l: "inbox_item_from_record l = Some x" and L2: "items_of L2 = xs"
    by (cases M) (auto simp: map_filter_simps)
  have seq: "item_sequence x = sl_sequence l" using l by simp
  have inL: "l \<in> set L" by (simp add: L M)
  then have lc: "after_cursor cursor l" and lt: "l \<in> set (take n log)" by (simp_all add: L_def)
  have sL: "sorted_wrt (\<lambda>a b. sl_sequence a < sl_sequence b) L"
    unfolding L_def by (intro sorted_wrt_filter sorted_wrt_take sorted)
  have before: "sl_sequence a < sl_sequence l" if "a \<in> set L1" for a using sL that by (auto simp: L M sorted_wrt_append)
  have behind: "sl_sequence l < sl_sequence a" if "a \<in> set L2" for a using sL that by (auto simp: L M sorted_wrt_append)
  have "filter (after_cursor (Some (item_sequence x))) (take n log) = filter (after_cursor (Some (item_sequence x))) L"
    unfolding L_def filter_filter using lc after_cursor_mono seq by (intro filter_cong) auto
  also have "\<dots> = L2"
    using before behind by (auto simp: L M seq after_cursor_Some filter_empty_conv filter_id_conv intro: order.strict_implies_not_eq dest: less_asym)
  finally have xs: "xs = items_of (filter (after_cursor (Some (item_sequence x))) (take n log))" using L2 by simp
  have "\<not> after_cursor c0 a \<or> after_cursor (Some (item_sequence x)) a \<or> inbox_item_id it \<in> set consumed"
    if a: "a \<in> set log" "inbox_item_from_record a = Some it" for a it
  proof -
    have old: "\<not> after_cursor c0 a \<or> after_cursor cursor a \<or> inbox_item_id it \<in> set consumed"
      using dealt a by (force simp: dealt_with_def list_all_iff)
    show ?thesis
    proof (cases "after_cursor cursor a \<and> \<not> after_cursor (Some (item_sequence x)) a")
      case True
      then have le: "sl_sequence a \<le> sl_sequence l" by (simp add: after_cursor_Some seq)
      have "sorted_wrt (\<lambda>a b. sl_sequence a < sl_sequence b) (take n log @ drop n log)" using sorted by simp
      then have "\<forall>b \<in> set (drop n log). sl_sequence l < sl_sequence b" using lt unfolding sorted_wrt_append by blast
      then have "a \<notin> set (drop n log)" using le by auto
      then have "a \<in> set (take n log)" using a(1) by (metis Un_iff append_take_drop_id set_append)
      then have "a \<in> set L" using True by (simp add: L_def)
      moreover have "a \<notin> set L1" using none a(2) by auto
      moreover have "a \<notin> set L2" using behind [of a] le by auto
      ultimately have "a = l" by (auto simp: L M)
      then show ?thesis using l a(2) x by simp
    qed (use old in auto)
  qed
  then have "dealt_with c0 log (Some (item_sequence x)) consumed"
    by (auto simp: dealt_with_def list_all_iff split: option.splits)
  moreover have "cursor_from c0 log (Some (item_sequence x))"
    using lt by (auto simp: cursor_from_def seq dest: in_set_takeD)
  ultimately show ?thesis using xs by blast
qed

lemma advance_over_ok:
  assumes "log_ok log" "n \<le> length log" "xs = items_of (filter (after_cursor cursor) (take n log))"
    and "dealt_with c0 log cursor consumed \<and> cursor_from c0 log cursor" and "advance_over consumed xs cursor = (cursor', rest)"
  shows "rest = items_of (filter (after_cursor cursor') (take n log)) \<and> (dealt_with c0 log cursor' consumed \<and> cursor_from c0 log cursor') \<and>
    (length rest = length xs \<longrightarrow> cursor' = cursor) \<and> length rest \<le> length xs"
  using assms(3-5)
proof (induction consumed xs cursor rule: advance_over.induct)
  case (2 consumed x xs cursor)
  show ?case
  proof (cases "inbox_item_id x \<in> set consumed")
    case True
    note one = advance_one [OF assms(1,2) 2(2) conjunct1 [OF 2(3)] True]
    have "advance_over consumed xs (Some (item_sequence x)) = (cursor', rest)" using 2(4) True by simp
    note IH = 2(1) [OF True conjunct1 [OF one] conjunct2 [OF one] this]
    have sel: "rest = items_of (filter (after_cursor cursor') (take n log)) \<and> (dealt_with c0 log cursor' consumed \<and> cursor_from c0 log cursor')"
      using IH by blast
    have "length rest \<le> length xs" using IH by blast
    then have "(length rest = length (x # xs) \<longrightarrow> cursor' = cursor) \<and> length rest \<le> length (x # xs)" by auto
    with sel show ?thesis by blast
  next
    case False
    have "cursor' = cursor \<and> rest = x # xs" using 2(4) False by (simp only: advance_over.simps if_False Pair_inject) auto
    then show ?thesis using 2(2,3) by blast
  qed
qed auto

lemma advance_pass_ok: "pass_ok c0 (log, s) \<Longrightarrow> pass_ok c0 (log, advance_pass s)"
proof -
  assume ok: "pass_ok c0 (log, s)"
  then obtain n where n: "n \<le> length log" "ip_outstanding s = items_of (filter (after_cursor (ip_cursor s)) (take n log))"
    and l: "log_ok log" "ip_stored_cursor s = ip_cursor s"
      "dealt_with c0 log (ip_cursor s) (ip_consumed s) \<and> cursor_from c0 log (ip_cursor s)"
    by (auto simp: pass_ok_def)
  obtain cursor' rest where adv: "advance_over (ip_consumed s) (ip_outstanding s) (ip_cursor s) = (cursor', rest)" by fastforce
  note a = advance_over_ok [OF l(1) n l(3) adv]
  have "ip_stored_cursor (advance_pass s) = cursor'" "ip_cursor (advance_pass s) = cursor'"
    "ip_outstanding (advance_pass s) = rest" "ip_consumed (advance_pass s) = ip_consumed s"
  proof -
    have "length rest = length (ip_outstanding s) \<longrightarrow> cursor' = ip_cursor s" "length rest \<le> length (ip_outstanding s)"
      using a by blast+
    then show "ip_stored_cursor (advance_pass s) = cursor'" "ip_cursor (advance_pass s) = cursor'"
      "ip_outstanding (advance_pass s) = rest" "ip_consumed (advance_pass s) = ip_consumed s"
      using l(2) by (auto simp: advance_pass_def adv)
  qed
  then show ?thesis using conjunct1 [OF a] conjunct1 [OF conjunct2 [OF a]] l(1) n(1) unfolding pass_ok_def prod.case
    by (intro conjI exI [of _ n]) simp_all
qed

text \<open>Whatever a reading leads to, it tracks a prefix of what it read and only adds to what is consumed.\<close>

lemma pass_batch_tracks:
  assumes "pass_batch interrupted limit items s = (outcome, s')"
  obtains j consumed where "s' = s\<lparr>ip_outstanding := ip_outstanding s @ take j items,
      ip_consumed := ip_consumed s @ consumed, ip_resuming := ip_resuming s'\<rparr>"
    | j consumed where "s' = advance_pass (s\<lparr>ip_outstanding := ip_outstanding s @ take j items,
      ip_consumed := ip_consumed s @ consumed\<rparr>)"
proof -
  note plain = that(1) and moved = that(2)
  show thesis
  proof (cases "find_last_index is_cancel items")
  case (Some i)
  have "s' = advance_pass (s\<lparr>ip_outstanding := ip_outstanding s @ take (Suc i) items,
      ip_consumed := ip_consumed s @ map inbox_item_id (ip_outstanding s @ take (Suc i) items)\<rparr>)"
    using assms Some by (auto simp: pass_batch_def Let_def track_def consume_def)
  then show ?thesis by (rule moved)
next
  case None
  have dispatch: thesis if "dispatch_items limit (drop i items) (consume (take i items) (track (take i items) s)) = (outcome, s')" for i
  proof -
    define m where "m = (case limit of Some n \<Rightarrow> n | None \<Rightarrow> length items)"
    have "(case limit of Some n \<Rightarrow> take n (drop i items) | None \<Rightarrow> drop i items) = take m (drop i items)"
      by (simp add: m_def split: option.splits)
    moreover have "take i items @ take m (drop i items) = take (i + m) items" by (simp add: take_add)
    ultimately have "s' = s\<lparr>ip_outstanding := ip_outstanding s @ take (i + m) items,
        ip_consumed := ip_consumed s @ map inbox_item_id (take i items), ip_resuming := ip_resuming s'\<rparr>"
      using \<open>dispatch_items limit (drop i items) (consume (take i items) (track (take i items) s)) = (outcome, s')\<close>
      by (auto simp: dispatch_items_def Let_def track_def consume_def)
    then show thesis by (rule plain)
  qed
  show ?thesis
  proof (cases "interrupted \<and> \<not> ip_resuming s")
    case True
    show ?thesis
    proof (cases "find_index is_resume items")
      case None': None
      then have "s' = s\<lparr>ip_outstanding := ip_outstanding s @ take 0 items, ip_consumed := ip_consumed s @ [], ip_resuming := ip_resuming s'\<rparr>"
        using assms None True by (simp add: pass_batch_def)
      then show ?thesis by (rule plain)
    next
      case (Some i)
      then show ?thesis using assms None True by (intro dispatch [of i]) (simp add: pass_batch_def)
    qed
  next
    case False
    have "consume (take 0 items) (track (take 0 items) s) = s" by (simp add: consume_def track_def)
    then show ?thesis using assms None False by (intro dispatch [of 0]) (simp add: pass_batch_def)
  qed
qed
qed

lemma pass_read_ok:
  assumes ok: "pass_ok c0 (log, s)" and read: "pass_read interrupted limit log s = Inr (outcome, s')"
  shows "pass_ok c0 (log, s')"
proof -
  obtain n where n: "n \<le> length log" "ip_outstanding s = items_of (filter (after_cursor (ip_cursor s)) (take n log))"
    and l: "log_ok log" "ip_stored_cursor s = ip_cursor s" "dealt_with c0 log (ip_cursor s) (ip_consumed s)"
      "cursor_from c0 log (ip_cursor s)"
    using ok by (auto simp: pass_ok_def)
  obtain items where items: "read_inbox log (ip_cursor s) (map item_sequence (ip_outstanding s)) = Inr items"
    and batch: "pass_batch interrupted limit items s = (outcome, s')"
    using read by (cases "read_inbox log (ip_cursor s) (map item_sequence (ip_outstanding s))") (auto simp: pass_read_def)
  have tracked: "pass_ok c0 (log, s\<lparr>ip_outstanding := ip_outstanding s @ take j items, ip_consumed := ip_consumed s @ consumed, ip_resuming := b\<rparr>)"
    for j :: nat and consumed b
  proof -
    have "dealt_with c0 log (ip_cursor s) (ip_consumed s @ consumed)" by (rule dealt_with_more [OF l(3)]) simp
    then show ?thesis using read_prefix [OF l(1) n items, of j] l(1,2,4) unfolding pass_ok_def prod.case by simp
  qed
  show ?thesis
  proof (rule pass_batch_tracks [OF batch])
    fix j consumed
    assume "s' = s\<lparr>ip_outstanding := ip_outstanding s @ take j items, ip_consumed := ip_consumed s @ consumed, ip_resuming := ip_resuming s'\<rparr>"
    then show ?thesis using tracked [where j = j and consumed = consumed and b = "ip_resuming s'"] by metis
  next
    fix j consumed
    assume "s' = advance_pass (s\<lparr>ip_outstanding := ip_outstanding s @ take j items, ip_consumed := ip_consumed s @ consumed\<rparr>)"
    moreover have "pass_ok c0 (log, s\<lparr>ip_outstanding := ip_outstanding s @ take j items, ip_consumed := ip_consumed s @ consumed\<rparr>)"
      using tracked [where j = j and consumed = consumed and b = "ip_resuming s"] by (cases s) simp
    ultimately show ?thesis by (simp add: advance_pass_ok)
  qed
qed

lemma pass_grows_ok:
  assumes ok: "pass_ok c0 (log, s)" and grown: "log_ok (log @ [l])"
  shows "pass_ok c0 (log @ [l], s)"
proof -
  obtain n where n: "n \<le> length log" "ip_outstanding s = items_of (filter (after_cursor (ip_cursor s)) (take n log))"
    and d: "ip_stored_cursor s = ip_cursor s" "dealt_with c0 log (ip_cursor s) (ip_consumed s)" "cursor_from c0 log (ip_cursor s)"
    using ok by (auto simp: pass_ok_def)
  have "\<forall>x \<in> set log. sl_sequence x < sl_sequence l" using grown by (simp add: log_ok_def sorted_wrt_append)
  then have new: "\<not> after_cursor c0 l \<or> after_cursor (ip_cursor s) l"
    using d(3) by (auto simp: cursor_from_def after_cursor_Some)
  have "dealt_with c0 (log @ [l]) (ip_cursor s) (ip_consumed s)"
    using d(2) new by (auto simp: dealt_with_def split: option.splits)
  moreover have "cursor_from c0 (log @ [l]) (ip_cursor s)" using d(3) by (auto simp: cursor_from_def)
  moreover have "take n (log @ [l]) = take n log" using n(1) by simp
  ultimately show ?thesis using n d(1) grown unfolding pass_ok_def prod.case by (intro conjI exI [of _ n]) simp_all
qed

lemma pass_step_ok: "pass_step x y \<Longrightarrow> pass_ok c0 x \<Longrightarrow> pass_ok c0 y"
proof (induction rule: pass_step.induct)
  case (log_grows log l s)
  then show ?case by (rule pass_grows_ok [rotated])
next
  case (reads interrupted limit log s outcome s')
  then show ?case by (rule pass_read_ok [rotated])
next
  case (reported log s i)
  have "dealt_with c0 log (ip_cursor s) (ip_consumed s) \<Longrightarrow> dealt_with c0 log (ip_cursor s) (ip_consumed s @ [i])"
    by (rule dealt_with_more) auto
  then show ?case using reported by (simp add: pass_ok_def note_consumed_def)
next
  case (resumed log s)
  then show ?case by (simp add: pass_ok_def resume_done_def)
next
  case (advances log s)
  then show ?case by (rule advance_pass_ok)
qed

text \<open>
  C11. The inbox cursor never skips an item: in every state a pass can reach, while the session
  appends to the log, the inbox is re-read, and items are reported in any order, everything
  between the cursor the pass started from and the stored one has been dealt with: it was reported
  to be in the conversation (or its resume to have settled), a cancel discarded it, or it lies
  before the answer of a paused turn.
\<close>

theorem inbox_cursor_never_skips:
  assumes "log_ok log0" and "pass_step\<^sup>*\<^sup>* (log0, start_pass c0) (log, s)"
    and "l \<in> set log" and "inbox_item_from_record l = Some it"
    and "past Asc c0 l" and "\<not> past Asc (ip_stored_cursor s) l"
  shows "inbox_item_id it \<in> set (ip_consumed s)"
proof -
  have "pass_ok c0 (log0, start_pass c0)"
    using assms(1) by (auto simp: pass_ok_def start_pass_def dealt_with_def cursor_from_def list_all_iff map_filter_simps
        intro!: exI [of _ 0] split: option.splits)
  with assms(2) have "pass_ok c0 (log, s)" by (induction rule: rtranclp_induct) (auto intro: pass_step_ok)
  then have "dealt_with c0 log (ip_stored_cursor s) (ip_consumed s)" by (simp add: pass_ok_def)
  then show ?thesis using assms(3-6) by (auto simp: dealt_with_def list_all_iff after_cursor_def)
qed

section \<open>What the cursor leaves behind\<close>

text \<open>
  C40. An input behind a page of other records is never seen: the inbox is read as the first 128
  lines of the conversation after the cursor, and the cursor moves only onto inbox items. So after
  a run that wrote 128 lines the next input is not found, however often the worker is woken.
\<close>

theorem input_behind_a_page_is_stranded:
  assumes "c \<noteq> Some 0" and "list_all (\<lambda>x. \<not> past Asc c x) before" and "list_all (past Asc c) noise"
    and "list_all (\<lambda>x. inbox_item_from_record x = None) noise" and "128 \<le> length noise"
    and "inbox_item_from_record l = Some it"
  shows "drain_decide (before @ noise @ l # later) c = Inr DrainDone \<and>
    has_unprocessed_inbox (before @ noise @ l # later) c = Inr False"
proof -
  have "filter (past Asc c) before = []" "filter (past Asc c) noise = noise"
    using assms(2,3) by (auto simp: list_all_iff filter_empty_conv filter_id_conv)
  then have "take 128 (filter (past Asc c) (before @ noise @ l # later)) = take 128 noise" using assms(5) by simp
  moreover have "items_of (take 128 noise) = []"
    using assms(4) by (auto simp: map_filter_def filter_empty_conv list_all_iff dest: in_set_takeD)
  ultimately have "read_inbox (before @ noise @ l # later) c [] = Inr []"
    using assms(1) by (simp add: read_inbox_def page_records_def inbox_page_size_def traversal_def Let_def del: filter_append)
  then show ?thesis by (simp add: drain_decide_def has_unprocessed_inbox_def)
qed

section \<open>The last turn\<close>

lemma first_mark_append: "first_mark (xs @ ys) = (case first_mark xs of Some b \<Rightarrow> Some b | None \<Rightarrow> first_mark ys)"
  by (induction xs) (auto split: option.splits)

lemma last_turn_from:
  assumes ok: "log_ok log" and "length (filter (past Desc c) (rev log)) < fuel" "c \<noteq> Some 0"
  shows "last_turn_is_open fuel log c = Some (Inr (first_mark (filter (past Desc c) (rev log)) = Some True))"
  using assms(2,3)
proof (induction fuel arbitrary: c)
  case (Suc fuel)
  define es where "es = filter (past Desc c) (traversal Desc log)"
  have rev: "traversal Desc log = rev log" by (simp add: traversal_def)
  have len: "length es < Suc fuel" and goal: "filter (past Desc c) (rev log) = es"
    using Suc.prems(1) by (simp_all add: es_def rev)
  have sorted: "sorted_wrt (precedes Desc) (traversal Desc log)" "\<forall>l \<in> set log. 0 < sl_sequence l"
    using ok by (auto simp: log_ok_def list_all_iff intro: traversal_sorted)
  have split: "first_mark es = (case first_mark (take 64 es) of Some b \<Rightarrow> Some b | None \<Rightarrow> first_mark (drop 64 es))"
    using first_mark_append [of "take 64 es" "drop 64 es"] by simp
  have page: "page_records log open_turn_page_size Desc c =
      Inr \<lparr>pg_data = take 64 es, pg_next = (if length es > 64 then Some (sl_sequence (last (take 64 es))) else None)\<rparr>"
    using page_of [of open_turn_page_size c es Desc log] Suc.prems(2) by (simp add: es_def open_turn_page_size_def)
  show ?case
  proof (cases "64 < length es")
    case True
    note rest = next_page_rest [OF sorted es_def zero_less_numeral True]
    have "last_turn_is_open fuel log (Some (sl_sequence (last (take 64 es)))) = Some (Inr (first_mark (drop 64 es) = Some True))"
      using Suc.IH [of "Some (sl_sequence (last (take 64 es)))"] len rest True by (simp add: rev)
    then show ?thesis using page True split goal by (auto split: option.splits)
  next
    case False
    then show ?thesis using page split goal by (auto split: option.splits)
  qed
qed simp

text \<open>
  Reading backwards page by page decides what it means to: with fuel for the lines of the log,
  it ends and answers that the turn is open exactly when the last record that starts, ends or
  pauses a turn starts one.
\<close>

theorem last_turn_found:
  assumes "log_ok log" and "length log < fuel"
  shows "last_turn_is_open fuel log None = Some (Inr (first_mark (rev log) = Some True))"
proof -
  have "filter (past Desc None) (rev log) = rev log" by (simp add: past_def)
  then show ?thesis using last_turn_from [OF assms(1), of None fuel] assms(2) by simp
qed

text \<open>A raise between a take and a wait is not lost: the wait is over at once.\<close>

lemma wakeup_not_lost:
  "fst (wakeup_wait k (snd (wakeup_raise w))) \<and> fst (wakeup_take (snd (wakeup_raise w))) \<and>
   (fst (wakeup_wait k w) \<or> k \<in> set (fst (wakeup_raise (snd (wakeup_wait k w)))))"
  by (simp add: wakeup_wait_def wakeup_raise_def wakeup_take_def)

subsection \<open>Witnesses\<close>

definition small_line :: "nat \<Rightarrow> record_body \<Rightarrow> stored_line" where
  "small_line n b = \<lparr>sl_sequence = n, sl_record = \<lparr>rec_time = Some n, rec_address = Some ''main'', rec_body = b\<rparr>\<rparr>"

definition input_line :: "nat \<Rightarrow> string \<Rightarrow> stored_line" where
  "input_line n i = small_line n (RecLifecycle (SteerQueued i FollowUp (OriginUser (Some i)) (SystemMsg ''hello'')))"

definition quiet_lines :: "nat \<Rightarrow> nat \<Rightarrow> stored_line list" where
  "quiet_lines first n = map (\<lambda>k. small_line (first + k) (RecSetMode ''auto'')) [0..<n]"

lemma small_items [simp]:
  "inbox_item_from_record (input_line n i) =
     Some (InboxInput n \<lparr>sq_id = i, sq_channel = FollowUp, sq_origin = OriginUser (Some i), sq_message = SystemMsg ''hello''\<rparr>)"
  "inbox_item_from_record (small_line n (RecSetMode m)) = None"
  "sl_sequence (small_line n b) = n" "sl_sequence (input_line n i) = n"
  by (simp_all add: inbox_item_from_record_def input_line_def small_line_def steer_message_from_record_def)

theorem input_behind_a_page_is_stranded_witness:
  "drain_decide ([input_line 1 ''a''] @ quiet_lines 2 200 @ [input_line 202 ''b'']) (Some 1) = Inr DrainDone"
proof -
  have "drain_decide ([input_line 1 ''a''] @ quiet_lines 2 200 @ input_line 202 ''b'' # []) (Some 1) = Inr DrainDone \<and>
      has_unprocessed_inbox ([input_line 1 ''a''] @ quiet_lines 2 200 @ input_line 202 ''b'' # []) (Some 1) = Inr False"
    by (rule input_behind_a_page_is_stranded [OF _ _ _ _ _ small_items(1)])
      (simp_all add: past_def quiet_lines_def list_all_iff)
  then show ?thesis by simp
qed

theorem last_turn_found_witness:
  "last_turn_is_open 4 [small_line 1 (RecLifecycle (TurnStarted ''t'' None)), small_line 2 (RecSetMode ''auto'')] None = Some (Inr True)"
proof -
  have "log_ok [small_line 1 (RecLifecycle (TurnStarted ''t'' None)), small_line 2 (RecSetMode ''auto'')]"
    by (simp add: log_ok_def)
  from last_turn_found [OF this, of 4] show ?thesis by (simp add: small_line_def)
qed

text \<open>An input is read, handed over, reported, and the cursor moves onto it.\<close>

theorem inbox_cursor_never_skips_witness:
  "inbox_item_id (InboxInput 5 \<lparr>sq_id = ''a'', sq_channel = FollowUp, sq_origin = OriginUser (Some ''a''), sq_message = SystemMsg ''hello''\<rparr>)
     \<in> set (ip_consumed (advance_pass (note_consumed ''a'' (snd (dispatch_items None
         [InboxInput 5 \<lparr>sq_id = ''a'', sq_channel = FollowUp, sq_origin = OriginUser (Some ''a''), sq_message = SystemMsg ''hello''\<rparr>]
         (start_pass None))))))"
proof -
  let ?log = "[input_line 5 ''a'']" and ?it = "InboxInput 5 \<lparr>sq_id = ''a'', sq_channel = FollowUp, sq_origin = OriginUser (Some ''a''), sq_message = SystemMsg ''hello''\<rparr>"
  let ?s1 = "snd (dispatch_items None [?it] (start_pass None))"
  have "read_inbox ?log None [] = Inr [?it]"
    by (simp add: read_inbox_def page_records_def inbox_page_size_def traversal_def past_def Let_def map_filter_simps)
  then have "pass_read False None ?log (start_pass None) = Inr (fst (dispatch_items None [?it] (start_pass None)), ?s1)"
    by (simp add: pass_read_def start_pass_def pass_batch_def)
  then have 1: "pass_step (?log, start_pass None) (?log, ?s1)" by (rule reads)
  have 2: "pass_step (?log, ?s1) (?log, note_consumed ''a'' ?s1)" by (rule reported)
  have 3: "pass_step (?log, note_consumed ''a'' ?s1) (?log, advance_pass (note_consumed ''a'' ?s1))" by (rule advances)
  have run: "pass_step\<^sup>*\<^sup>* (?log, start_pass None) (?log, advance_pass (note_consumed ''a'' ?s1))"
    using 1 2 3 by (meson converse_rtranclp_into_rtranclp rtranclp.rtrancl_refl)
  have cursor: "ip_stored_cursor (advance_pass (note_consumed ''a'' ?s1)) = Some 5"
    by (simp add: advance_pass_def note_consumed_def dispatch_items_def track_def start_pass_def Let_def)
  show ?thesis
  proof (rule inbox_cursor_never_skips [OF _ run, of "input_line 5 ''a''"])
    show "log_ok ?log" by (simp add: log_ok_def)
    show "\<not> past Asc (ip_stored_cursor (advance_pass (note_consumed ''a'' ?s1))) (input_line 5 ''a'')"
      unfolding cursor by (simp add: past_def)
  qed (simp_all add: past_def)
qed

end
