(* ===== verification/Date_Zone.thy ===== *)
theory Date_Zone
  imports Agent_Prelude
begin

text \<open>
  The part of JavaScript's \<open>Date\<close> that the cron scheduler uses: getters and setters in the local
  time of the host, whose clock may change.

  An instant is a whole number of minutes since the start of 1970 in UTC. A local time is a number of
  minutes since the start of 1968: two years earlier, so that the local times of all zones are
  natural numbers. A zone has an offset and a list of changes, each an instant and the offset from
  then on. A setter computes a local time and takes the instant it names, by the rule of ECMAScript: of
  two instants with this local time the earlier one, and for a local time that was skipped the one
  counted with the offset before the change.
\<close>

section \<open>The calendar\<close>

definition is_leap :: "nat \<Rightarrow> bool" where
  "is_leap y = (y mod 4 = 0 \<and> (y mod 100 \<noteq> 0 \<or> y mod 400 = 0))"

text \<open>Months are numbered from January 1968, days and minutes from its beginning.\<close>

definition month_length :: "nat \<Rightarrow> nat" where
  "month_length m =
     (let k = m mod 12 in
      if k = 1 then (if is_leap (1968 + m div 12) then 29 else 28)
      else if k \<in> {3, 5, 8, 10} then 30 else 31)"

lemma month_length_pos [simp]: "0 < month_length m"
  by (simp add: month_length_def Let_def)

fun month_start :: "nat \<Rightarrow> nat" where
  "month_start 0 = 0"
| "month_start (Suc m) = month_start m + month_length m"

text \<open>The month of a day, and the day of that month (from 1), looked up from month \<open>m\<close> on.\<close>

function locate_day :: "nat \<Rightarrow> nat \<Rightarrow> nat \<times> nat" where
  "locate_day m rest = (if rest < month_length m then (m, rest + 1) else locate_day (Suc m) (rest - month_length m))"
  by pat_completeness auto
termination by (relation "measure snd") (auto simp: not_less intro: diff_less less_le_trans [OF month_length_pos])

declare locate_day.simps [simp del]

type_synonym minute = nat

definition day_of :: "minute \<Rightarrow> nat" where
  "day_of l = l div 1440"

definition month_of :: "minute \<Rightarrow> nat" where
  "month_of l = fst (locate_day 0 (day_of l))"

text \<open>The fields of a local time; 1968 began on a Monday.\<close>

definition month_field :: "minute \<Rightarrow> nat" where
  "month_field l = month_of l mod 12"

definition date_field :: "minute \<Rightarrow> nat" where
  "date_field l = snd (locate_day 0 (day_of l))"

definition day_field :: "minute \<Rightarrow> nat" where
  "day_field l = (day_of l + 1) mod 7"

definition hours_field :: "minute \<Rightarrow> nat" where
  "hours_field l = (l mod 1440) div 60"

definition minutes_field :: "minute \<Rightarrow> nat" where
  "minutes_field l = l mod 60"

section \<open>Zones\<close>

type_synonym instant = int

record zone =
  zn_offset :: int
  zn_changes :: "(instant \<times> int) list"

fun offset_at :: "int \<Rightarrow> (instant \<times> int) list \<Rightarrow> instant \<Rightarrow> int" where
  "offset_at o1 [] t = o1"
| "offset_at o1 ((c, o2) # cs) t = (if t < c then o1 else offset_at o2 cs t)"

text \<open>The offset that counts for a wall time: the first one under which it comes before the next change.\<close>

fun offset_of_wall :: "int \<Rightarrow> (instant \<times> int) list \<Rightarrow> int \<Rightarrow> int" where
  "offset_of_wall o1 [] w = o1"
| "offset_of_wall o1 ((c, o2) # cs) w = (if w - o1 < c \<or> w - o2 < c then o1 else offset_of_wall o2 cs w)"

definition wall_origin :: int where
  "wall_origin = 731 * 1440"

definition local_of :: "zone \<Rightarrow> instant \<Rightarrow> minute" where
  "local_of z t = nat (t + offset_at (zn_offset z) (zn_changes z) t + wall_origin)"

definition utc_of :: "zone \<Rightarrow> minute \<Rightarrow> instant" where
  "utc_of z l = (let w = int l - wall_origin in w - offset_of_wall (zn_offset z) (zn_changes z) w)"

section \<open>Getters and setters\<close>

definition get_month :: "zone \<Rightarrow> instant \<Rightarrow> nat" where
  "get_month z t = month_field (local_of z t)"

definition get_date :: "zone \<Rightarrow> instant \<Rightarrow> nat" where
  "get_date z t = date_field (local_of z t)"

definition get_day :: "zone \<Rightarrow> instant \<Rightarrow> nat" where
  "get_day z t = day_field (local_of z t)"

definition get_hours :: "zone \<Rightarrow> instant \<Rightarrow> nat" where
  "get_hours z t = hours_field (local_of z t)"

definition get_minutes :: "zone \<Rightarrow> instant \<Rightarrow> nat" where
  "get_minutes z t = minutes_field (local_of z t)"

text \<open>
  \<open>setSeconds(0, 0)\<close>, \<open>setMinutes(m)\<close>, \<open>setHours(h, m)\<close>, \<open>setDate(d)\<close> and \<open>setMonth(k)\<close> of a whole
  minute. A value past the end of its field runs over into the next one.
\<close>

definition set_seconds :: "zone \<Rightarrow> instant \<Rightarrow> instant" where
  "set_seconds z t = utc_of z (local_of z t)"

definition set_minutes :: "zone \<Rightarrow> nat \<Rightarrow> instant \<Rightarrow> instant" where
  "set_minutes z m t = utc_of z (60 * (local_of z t div 60) + m)"

definition set_hours :: "zone \<Rightarrow> nat \<Rightarrow> nat \<Rightarrow> instant \<Rightarrow> instant" where
  "set_hours z h m t = utc_of z (1440 * day_of (local_of z t) + 60 * h + m)"

definition set_date :: "zone \<Rightarrow> nat \<Rightarrow> instant \<Rightarrow> instant" where
  "set_date z d t =
     (let l = local_of z t in utc_of z (1440 * (month_start (month_of l) + d - 1) + l mod 1440))"

definition set_month :: "zone \<Rightarrow> nat \<Rightarrow> instant \<Rightarrow> instant" where
  "set_month z k t =
     (let l = local_of z t in
      utc_of z (1440 * (month_start (12 * (month_of l div 12) + k) + date_field l - 1) + l mod 1440))"

section \<open>The calendar's months\<close>

lemma locate_day_spec:
  "locate_day m rest = (k, d) \<Longrightarrow>
     m \<le> k \<and> 0 < d \<and> d \<le> month_length k \<and> month_start k + d = month_start m + rest + 1"
proof (induction m rest rule: locate_day.induct)
  case (1 m rest)
  show ?case
  proof (cases "rest < month_length m")
    case True
    then show ?thesis using 1(2) by (subst (asm) locate_day.simps) auto
  next
    case False
    then have "locate_day (Suc m) (rest - month_length m) = (k, d)" using 1(2) by (subst (asm) locate_day.simps) simp
    from 1(1) [OF False this] False show ?thesis by simp
  qed
qed

lemma month_start_mono: "k \<le> m \<Longrightarrow> month_start k \<le> month_start m"
  by (induction m) (auto simp: le_Suc_eq)

text \<open>The month of a day is the one between whose starts it lies.\<close>

lemma month_of_iff: "month_of t = k \<longleftrightarrow> month_start k \<le> day_of t \<and> day_of t < month_start (Suc k)"
proof -
  obtain j d where l: "locate_day 0 (day_of t) = (j, d)" by fastforce
  have j: "month_start j \<le> day_of t" "day_of t < month_start (Suc j)"
    using locate_day_spec [OF l] by auto
  have "j = k" if "month_start k \<le> day_of t" "day_of t < month_start (Suc k)"
  proof (rule ccontr)
    assume "j \<noteq> k"
    then consider "Suc j \<le> k" | "Suc k \<le> j" by linarith
    then show False using month_start_mono [of "Suc j" k] month_start_mono [of "Suc k" j] j that by cases linarith+
  qed
  then show ?thesis using j l by (auto simp: month_of_def)
qed

lemma month_of_eq: "month_start (month_of t) \<le> day_of t" "day_of t < month_start (Suc (month_of t))"
  using month_of_iff [of t "month_of t"] by auto

text \<open>The next month, day, hour and minute of a local time, and what lies before them.\<close>

definition next_month :: "minute \<Rightarrow> minute" where
  "next_month t = 1440 * month_start (Suc (month_of t))"

definition next_day :: "minute \<Rightarrow> minute" where
  "next_day t = 1440 * (day_of t + 1)"

definition next_hour :: "minute \<Rightarrow> minute" where
  "next_hour t = 60 * (t div 60 + 1)"

definition next_minute :: "minute \<Rightarrow> minute" where
  "next_minute t = t + 1"


lemma next_month_skips:
  assumes "t \<le> u" "u < next_month t"
  shows "month_of u = month_of t"
proof -
  have "day_of t \<le> day_of u" using assms(1) by (simp add: day_of_def div_le_mono)
  moreover have "day_of u < month_start (Suc (month_of t))"
    using assms(2) by (simp add: next_month_def day_of_def less_mult_imp_div_less mult.commute)
  ultimately show ?thesis using month_of_eq [of t] by (subst month_of_iff) linarith
qed

lemma next_month_later: "t < next_month t"
proof -
  have "t div 1440 + 1 \<le> month_start (Suc (month_of t))" using month_of_eq(2) [of t] by (simp add: day_of_def)
  then have "1440 * (t div 1440 + 1) \<le> next_month t" unfolding next_month_def by (rule mult_le_mono2)
  moreover have "t < 1440 * (t div 1440 + 1)"
    using div_mult_mod_eq [of t 1440] mod_less_divisor [of 1440 t] by (simp add: algebra_simps)
  ultimately show ?thesis by (rule order.strict_trans2 [rotated])
qed

lemma next_day_skips: "t \<le> u \<Longrightarrow> u < next_day t \<Longrightarrow> day_of u = day_of t"
  by (simp add: next_day_def day_of_def)

lemma next_hour_skips: "t \<le> u \<Longrightarrow> u < next_hour t \<Longrightarrow> u div 60 = t div 60"
  by (simp add: next_hour_def)

lemma nexts_later: "t < next_day t" "t < next_hour t" "t < next_minute t"
  by (simp_all add: next_day_def day_of_def next_hour_def next_minute_def)

lemma hours_field_eq: "hours_field t = t div 60 mod 24"
proof -
  have "t mod (60 * 24) = 60 * (t div 60 mod 24) + t mod 60" by (rule mod_mult2_eq)
  then show ?thesis by (simp add: hours_field_def)
qed


lemma date_field_bounds: "0 < date_field l" "date_field l \<le> month_length (month_of l)"
  "month_start (month_of l) + date_field l = day_of l + 1"
proof -
  obtain k d where l: "locate_day 0 (day_of l) = (k, d)" by fastforce
  show "0 < date_field l" "date_field l \<le> month_length (month_of l)"
    "month_start (month_of l) + date_field l = day_of l + 1"
    using locate_day_spec [OF l] l by (simp_all add: date_field_def month_of_def)
qed

lemma month_length_le: "month_length m \<le> 31"
  by (simp add: month_length_def Let_def)

section \<open>A stretch without clock changes\<close>

text \<open>Between \<open>lo\<close> and \<open>hi\<close> the local time is the instant moved by \<open>d\<close>, and names it.\<close>

definition steady :: "zone \<Rightarrow> int \<Rightarrow> instant \<Rightarrow> instant \<Rightarrow> bool" where
  "steady z d lo hi \<longleftrightarrow>
     0 \<le> lo + d \<and> (\<forall>t. lo \<le> t \<and> t \<le> hi \<longrightarrow> int (local_of z t) = t + d \<and> utc_of z (local_of z t) = t)"

lemma steady_local: "steady z d lo hi \<Longrightarrow> lo \<le> t \<Longrightarrow> t \<le> hi \<Longrightarrow> int (local_of z t) = t + d"
  by (simp add: steady_def)

lemma steady_utc:
  assumes "steady z d lo hi" "lo + d \<le> int l" "int l \<le> hi + d"
  shows "utc_of z l = int l - d" "local_of z (int l - d) = l"
proof -
  have t: "lo \<le> int l - d" "int l - d \<le> hi" using assms(2,3) by simp_all
  have "int (local_of z (int l - d)) = int l" using steady_local [OF assms(1) t] by simp
  then show l: "local_of z (int l - d) = l" by simp
  have "utc_of z (local_of z (int l - d)) = int l - d" using assms(1) t by (simp add: steady_def)
  then show "utc_of z l = int l - d" by (simp add: l)
qed

text \<open>A zone whose clock never changes is steady throughout.\<close>

lemma unchanging_steady:
  "zn_changes z = [] \<Longrightarrow> 0 \<le> lo + (zn_offset z + wall_origin) \<Longrightarrow> steady z (zn_offset z + wall_origin) lo hi"
  by (auto simp: steady_def local_of_def utc_of_def Let_def)

text \<open>So is one whose only change is far enough away.\<close>

lemma steady_before_change:
  "zn_changes z = (c, o2) # cs \<Longrightarrow> 0 \<le> lo + (zn_offset z + wall_origin) \<Longrightarrow> hi < c
     \<Longrightarrow> steady z (zn_offset z + wall_origin) lo hi"
  by (auto simp: steady_def local_of_def utc_of_def Let_def)

lemma steady_after_change:
  "zn_changes z = [(c, o2)] \<Longrightarrow> 0 \<le> lo + (o2 + wall_origin) \<Longrightarrow> c \<le> lo \<Longrightarrow> c + (zn_offset z - o2) \<le> lo
     \<Longrightarrow> steady z (o2 + wall_origin) lo hi"
  by (auto simp: steady_def local_of_def utc_of_def Let_def)

section \<open>Known dates\<close>

text \<open>The epoch: Thursday, 1 January 1970, at midnight.\<close>

lemmas date_evals =
  get_month_def get_date_def get_day_def get_hours_def get_minutes_def month_field_def date_field_def day_field_def
  hours_field_def minutes_field_def month_of_def day_of_def local_of_def utc_of_def wall_origin_def month_length_def
  is_leap_def set_seconds_def set_hours_def Let_def

lemma epoch_fields:
  "let z = \<lparr>zn_offset = 0, zn_changes = []\<rparr> in
     (get_month z 0 + 1, get_date z 0, get_day z 0, get_hours z 0, get_minutes z 0) = (1, 1, 4, 0, 0)"
  by (simp add: date_evals locate_day.simps [of _ "numeral _"] locate_day.simps [of _ 0])

text \<open>Berlin in 1996: an hour ahead of UTC, two from the last Sunday of March to that of October.\<close>

definition berlin_1996 :: zone where
  "berlin_1996 = \<lparr>zn_offset = 60, zn_changes = [(13803900, 120), (14106300, 60)]\<rparr>"

text \<open>
  At the instant of the autumn change, a Sunday, the clock goes from three back to two; of the two
  instants with local time two a setter takes the earlier one. In spring the time from two to three
  is skipped; a setter that names half past two lands on half past three.
\<close>

lemma berlin_autumn:
  "(get_day berlin_1996 14106300, get_hours berlin_1996 14106300, get_minutes berlin_1996 14106300) = (0, 2, 0)"
  "(get_hours berlin_1996 14106299, get_minutes berlin_1996 14106299) = (2, 59)"
  "set_seconds berlin_1996 14106300 = 14106240"
  by (simp_all add: date_evals berlin_1996_def)

lemma berlin_spring:
  "(get_hours berlin_1996 13803899, get_hours berlin_1996 13803900) = (1, 3)"
  "(let t = set_hours berlin_1996 2 30 13803900 in (get_hours berlin_1996 t, get_minutes berlin_1996 t)) = (3, 30)"
  by (simp_all add: date_evals berlin_1996_def)

end
