(* ===== verification/Cron_Expr.thy ===== *)
theory Cron_Expr
  imports Date_Zone
begin

text \<open>
  Cron expressions (\<open>agents/src/cron/cron-expr.ts\<close>): parsing, the next minute at which an expression
  fires, and its rendering.

  The host's zone is an argument: the expressions are in local time, and the search sets the fields
  of a \<open>Date\<close> of that zone. The code truncates the given time to the minute, so an instant is a
  whole minute. A set of numbers is the list of its elements in the order in which they were added.
\<close>

section \<open>Parsing\<close>

record cron_expression =
  ce_raw :: string
  ce_minutes :: "nat list"
  ce_hours :: "nat list"
  ce_days_of_month :: "nat list"
  ce_months :: "nat list"
  ce_days_of_week :: "nat list"
  ce_dom_wildcard :: bool
  ce_dow_wildcard :: bool

datatype cron_error =
    ExpressionEmpty
  | WrongFieldCount nat
  | FieldEmpty string
  | TermEmpty string
  | NoValues string
  | NotDigits string string
  | StepEmpty string
  | StepNotPositive string
  | StepWithoutRange string
  | ValueOutOfRange string nat
  | RangeOutOfBounds string nat nat

definition set_add :: "nat \<Rightarrow> nat list \<Rightarrow> nat list" where
  "set_add v out = (if v \<in> set out then out else out @ [v])"

text \<open>\<open>for (let v = lo; v <= hi; v += step)\<close>; the step is positive.\<close>

function up_by :: "nat \<Rightarrow> nat \<Rightarrow> nat \<Rightarrow> nat list" where
  "up_by lo hi step = (if lo \<le> hi \<and> 0 < step then lo # up_by (lo + step) hi step else [])"
  by pat_completeness auto
termination by (relation "measure (\<lambda>(lo, hi, step). Suc hi - lo)") auto

declare up_by.simps [simp del]

definition parse_cron_int :: "string \<Rightarrow> string \<Rightarrow> cron_error + nat" where
  "parse_cron_int raw name = (case nat_of_js raw of Some n \<Rightarrow> Inr n | None \<Rightarrow> Inl (NotDigits name raw))"

text \<open>The step of a term, if it has one, and its range part.\<close>

definition term_step :: "string \<Rightarrow> string \<Rightarrow> cron_error + string \<times> nat option" where
  "term_step t name =
     (case index_of (CHR ''/'') t of
        None \<Rightarrow> Inr (t, None)
      | Some i \<Rightarrow>
          (let range_part = take i t; step_text = drop (Suc i) t in
           if step_text = [] then Inl (StepEmpty name)
           else case parse_cron_int step_text name of
                  Inl e \<Rightarrow> Inl e
                | Inr n \<Rightarrow>
                    if n = 0 then Inl (StepNotPositive name)
                    else if range_part = [] then Inl (StepWithoutRange name)
                    else Inr (range_part, Some n)))"

text \<open>The bounds of a range part; a single value with a step runs to the end.\<close>

definition term_bounds :: "string \<Rightarrow> bool \<Rightarrow> nat \<Rightarrow> nat \<Rightarrow> string \<Rightarrow> cron_error + nat \<times> nat" where
  "term_bounds range_part stepped lowest highest name =
     (if range_part = ''*'' then Inr (lowest, highest)
      else case index_of (CHR ''-'') range_part of
             None \<Rightarrow>
               (case parse_cron_int range_part name of
                  Inl e \<Rightarrow> Inl e
                | Inr v \<Rightarrow>
                    if v < lowest \<or> v > highest then Inl (ValueOutOfRange name v)
                    else Inr (v, if stepped then highest else v))
           | Some i \<Rightarrow>
               (case (parse_cron_int (take i range_part) name, parse_cron_int (drop (Suc i) range_part) name) of
                  (Inl e, _) \<Rightarrow> Inl e
                | (_, Inl e) \<Rightarrow> Inl e
                | (Inr lo, Inr hi) \<Rightarrow>
                    if lo < lowest \<or> hi > highest \<or> lo > hi then Inl (RangeOutOfBounds name lo hi) else Inr (lo, hi)))"

definition add_term :: "nat list \<Rightarrow> string \<Rightarrow> nat \<Rightarrow> nat \<Rightarrow> string \<Rightarrow> cron_error + nat list" where
  "add_term out t lowest highest name =
     (case term_step t name of
        Inl e \<Rightarrow> Inl e
      | Inr (range_part, step) \<Rightarrow>
          (case term_bounds range_part (step \<noteq> None) lowest highest name of
             Inl e \<Rightarrow> Inl e
           | Inr (lo, hi) \<Rightarrow> Inr (fold set_add (up_by lo hi (case step of Some n \<Rightarrow> n | None \<Rightarrow> 1)) out)))"

fun add_terms :: "string list \<Rightarrow> nat \<Rightarrow> nat \<Rightarrow> string \<Rightarrow> nat list \<Rightarrow> cron_error + nat list" where
  "add_terms [] lowest highest name out = Inr out"
| "add_terms (t # ts) lowest highest name out =
     (if t = [] then Inl (TermEmpty name)
      else case add_term out t lowest highest name of Inl e \<Rightarrow> Inl e | Inr out' \<Rightarrow> add_terms ts lowest highest name out')"

definition parse_field :: "string \<Rightarrow> nat \<Rightarrow> nat \<Rightarrow> string \<Rightarrow> cron_error + nat list" where
  "parse_field field lowest highest name =
     (if field = [] then Inl (FieldEmpty name)
      else case add_terms (split_on (CHR '','') field) lowest highest name [] of
             Inl e \<Rightarrow> Inl e
           | Inr out \<Rightarrow> if out = [] then Inl (NoValues name) else Inr out)"

definition is_wildcard :: "string \<Rightarrow> bool" where
  "is_wildcard field = (field = ''*'')"

text \<open>\<open>trimmed.split(/\s+/)\<close> of a trimmed text.\<close>

fun split_white :: "string \<Rightarrow> string list" where
  "split_white [] = [[]]"
| "split_white (c # cs) =
     (if js_space c then (if cs \<noteq> [] \<and> js_space (hd cs) then split_white cs else [] # split_white cs)
      else case split_white cs of [] \<Rightarrow> [[c]] | p # ps \<Rightarrow> (c # p) # ps)"

definition fold_sunday :: "nat list \<Rightarrow> nat list" where
  "fold_sunday raw = fold (\<lambda>v. set_add (if v = 7 then 0 else v)) raw []"

definition parse_cron_expression :: "string \<Rightarrow> cron_error + cron_expression" where
  "parse_cron_expression expr =
     (let trimmed = js_trim expr in
      if trimmed = [] then Inl ExpressionEmpty
      else case split_white trimmed of
        [f1, f2, f3, f4, f5] \<Rightarrow>
          (case parse_field f1 0 59 ''minute'' of Inl e \<Rightarrow> Inl e | Inr minutes \<Rightarrow>
          (case parse_field f2 0 23 ''hour'' of Inl e \<Rightarrow> Inl e | Inr hours \<Rightarrow>
          (case parse_field f3 1 31 ''day-of-month'' of Inl e \<Rightarrow> Inl e | Inr doms \<Rightarrow>
          (case parse_field f4 1 12 ''month'' of Inl e \<Rightarrow> Inl e | Inr months \<Rightarrow>
          (case parse_field f5 0 7 ''day-of-week'' of Inl e \<Rightarrow> Inl e | Inr dows \<Rightarrow>
             Inr \<lparr>ce_raw = trimmed, ce_minutes = minutes, ce_hours = hours, ce_days_of_month = doms, ce_months = months,
                  ce_days_of_week = fold_sunday dows, ce_dom_wildcard = is_wildcard f3, ce_dow_wildcard = is_wildcard f5\<rparr>)))))
      | parts \<Rightarrow> Inl (WrongFieldCount (length parts)))"

section \<open>The next run\<close>

definition day_matches :: "cron_expression \<Rightarrow> zone \<Rightarrow> instant \<Rightarrow> bool" where
  "day_matches expr z t =
     (let dom_ok = get_date z t \<in> set (ce_days_of_month expr); dow_ok = get_day z t \<in> set (ce_days_of_week expr) in
      if ce_dom_wildcard expr \<and> ce_dow_wildcard expr then True
      else if ce_dom_wildcard expr then dow_ok
      else if ce_dow_wildcard expr then dom_ok
      else dom_ok \<or> dow_ok)"

definition advance_month :: "zone \<Rightarrow> instant \<Rightarrow> instant" where
  "advance_month z t =
     (let t1 = set_date z 1 t; t2 = set_hours z 0 0 t1 in set_month z (get_month z t2 + 1) t2)"

definition advance_day :: "zone \<Rightarrow> instant \<Rightarrow> instant" where
  "advance_day z t = (let t1 = set_hours z 0 0 t in set_date z (get_date z t1 + 1) t1)"

definition advance_hour :: "zone \<Rightarrow> instant \<Rightarrow> instant" where
  "advance_hour z t = (let t1 = set_minutes z 0 t in set_hours z (get_hours z t1 + 1) (get_minutes z t1) t1)"

definition advance_minute :: "zone \<Rightarrow> instant \<Rightarrow> instant" where
  "advance_minute z t = (let t1 = set_seconds z t in set_minutes z (get_minutes z t1 + 1) t1)"

definition ms_per_minute :: nat where
  "ms_per_minute = 60000"

text \<open>\<open>getTime()\<close>.\<close>

definition time_of :: "instant \<Rightarrow> int" where
  "time_of t = t * int ms_per_minute"

text \<open>The loop; \<open>budget\<close> is what is left of the code's own cap on its iterations.\<close>

fun seek_run :: "nat \<Rightarrow> zone \<Rightarrow> cron_expression \<Rightarrow> nat \<Rightarrow> instant \<Rightarrow> nat option" where
  "seek_run 0 z expr deadline_ms t = None"
| "seek_run (Suc budget) z expr deadline_ms t =
     (if time_of t > int deadline_ms then None
      else if get_month z t + 1 \<notin> set (ce_months expr) then seek_run budget z expr deadline_ms (advance_month z t)
      else if \<not> day_matches expr z t then seek_run budget z expr deadline_ms (advance_day z t)
      else if get_hours z t \<notin> set (ce_hours expr) then seek_run budget z expr deadline_ms (advance_hour z t)
      else if get_minutes z t \<notin> set (ce_minutes expr) then seek_run budget z expr deadline_ms (advance_minute z t)
      else Some (nat (time_of t)))"

definition hard_iteration_cap :: nat where
  "hard_iteration_cap = 10000000"

definition next_run_within_minutes :: "zone \<Rightarrow> cron_expression \<Rightarrow> nat \<Rightarrow> nat \<Rightarrow> nat option" where
  "next_run_within_minutes z expr from_ms cap_minutes =
     (let start = set_seconds z (int (from_ms div ms_per_minute)) in
      seek_run hard_iteration_cap z expr (from_ms + cap_minutes * ms_per_minute) (start + 1))"

definition compute_next_cron_run :: "zone \<Rightarrow> cron_expression \<Rightarrow> nat \<Rightarrow> nat option" where
  "compute_next_cron_run z expr from_ms = next_run_within_minutes z expr from_ms (5 * 366 * 24 * 60)"

text \<open>\<open>hasFireWithinYears\<close>, for a whole number of years.\<close>

definition has_fire_within_years :: "zone \<Rightarrow> cron_expression \<Rightarrow> nat \<Rightarrow> nat \<Rightarrow> bool" where
  "has_fire_within_years z expr years from_ms =
     (next_run_within_minutes z expr from_ms (max 1 (years * 366 * 24 * 60)) \<noteq> None)"

text \<open>The local times at which an expression fires.\<close>

definition wall_day_matches :: "cron_expression \<Rightarrow> minute \<Rightarrow> bool" where
  "wall_day_matches expr l =
     (let dom_ok = date_field l \<in> set (ce_days_of_month expr); dow_ok = day_field l \<in> set (ce_days_of_week expr) in
      if ce_dom_wildcard expr \<and> ce_dow_wildcard expr then True
      else if ce_dom_wildcard expr then dow_ok
      else if ce_dow_wildcard expr then dom_ok
      else dom_ok \<or> dow_ok)"

definition wall_matches :: "cron_expression \<Rightarrow> minute \<Rightarrow> bool" where
  "wall_matches expr l \<longleftrightarrow>
     month_field l + 1 \<in> set (ce_months expr) \<and> wall_day_matches expr l
     \<and> hours_field l \<in> set (ce_hours expr) \<and> minutes_field l \<in> set (ce_minutes expr)"

section \<open>The search on a steady stretch\<close>

lemma month_of_within:
  assumes "month_start m \<le> day_of l" "day_of l < month_start (Suc m)"
  shows "month_of l = m"
  using assms by (simp add: month_of_iff)

lemma month_first_minute:
  "r < 1440 \<Longrightarrow> month_of (1440 * month_start m + r) = m \<and> date_field (1440 * month_start m + r) = 1"
proof -
  assume r: "r < 1440"
  then have d: "day_of (1440 * month_start m + r) = month_start m" by (simp add: day_of_def)
  then have m: "month_of (1440 * month_start m + r) = m" by (intro month_of_within) simp_all
  with d show ?thesis using date_field_bounds(3) [of "1440 * month_start m + r"] by simp
qed

lemma month_begins_before: "1440 * month_start (month_of l) \<le> l"
  using month_of_eq(1) [of l] times_div_less_eq_dividend [of 1440 l] by (simp add: day_of_def)

text \<open>What the steps of the search come to while the clock does not change.\<close>

lemma advance_month_at:
  assumes stretch: "steady z d lo hi"
    and "local_of z t = l" "lo + d \<le> int (1440 * month_start (month_of l))" "int (next_month l) \<le> hi + d"
  shows "advance_month z t = int (next_month l) - d"
proof -
  note utc_at = steady_utc(1) [OF stretch] and local_at = steady_utc(2) [OF stretch]
  define m where "m = month_of l"
  define r where "r = l mod 1440"
  have r: "r < 1440" by (simp add: r_def)
  have nx: "next_month l = 1440 * month_start (Suc m)" by (simp add: next_month_def m_def)
  have room: "1440 * month_start m + r < 1440 * month_start (Suc m)"
  proof -
    have "1440 * 1 \<le> 1440 * month_length m"
      using month_length_pos [of m] by (intro mult_le_mono2) (simp only: One_nat_def Suc_leI)
    with r show ?thesis unfolding month_start.simps add_mult_distrib2 by linarith
  qed
  define l1 where "l1 = 1440 * month_start m + r"
  define l2 where "l2 = 1440 * month_start m"
  have in1: "lo + d \<le> int l1" "int l1 \<le> hi + d" and in2: "lo + d \<le> int l2" "int l2 \<le> hi + d"
    using assms(3,4) room unfolding l1_def l2_def nx m_def [symmetric] by linarith+
  have "set_date z 1 t = int l1 - d"
    using utc_at [OF in1] assms(2) by (simp add: set_date_def m_def [symmetric] r_def [symmetric] l1_def)
  moreover have "set_hours z 0 0 (int l1 - d) = int l2 - d"
  proof -
    have "day_of l1 = month_start m" using r by (simp add: l1_def day_of_def)
    then show ?thesis using utc_at [OF in2] local_at [OF in1] by (simp add: set_hours_def l2_def)
  qed
  moreover have "set_month z (get_month z (int l2 - d) + 1) (int l2 - d) = int (next_month l) - d"
  proof -
    have m2: "month_of l2 = m" "date_field l2 = 1" using month_first_minute [of 0 m] by (simp_all add: l2_def)
    have "lo + d \<le> int (1440 * month_start (Suc m))" "int (1440 * month_start (Suc m)) \<le> hi + d"
      using in2(1) assms(4) by (simp_all add: l2_def nx)
    moreover have "12 * (m div 12) + (m mod 12 + 1) = Suc m" by simp
    ultimately show ?thesis
      using utc_at [of "1440 * month_start (Suc m)"] local_at [OF in2] m2
      by (simp add: set_month_def get_month_def month_field_def nx l2_def del: month_start.simps)
  qed
  ultimately show ?thesis by (simp add: advance_month_def)
qed

lemma advance_day_at:
  assumes stretch: "steady z d lo hi"
    and "local_of z t = l" "lo + d \<le> int (1440 * day_of l)" "int (next_day l) \<le> hi + d"
  shows "advance_day z t = int (next_day l) - d"
proof -
  note utc_at = steady_utc(1) [OF stretch] and local_at = steady_utc(2) [OF stretch]
  define l1 where "l1 = 1440 * day_of l"
  have in1: "lo + d \<le> int l1" "int l1 \<le> hi + d" using assms(3,4) by (simp_all add: l1_def next_day_def)
  have "set_hours z 0 0 t = int l1 - d"
    using utc_at [OF in1] assms(2) by (simp add: set_hours_def l1_def)
  moreover have "set_date z (get_date z (int l1 - d) + 1) (int l1 - d) = int (next_day l) - d"
  proof -
    have "day_of l1 = day_of l" by (simp add: l1_def day_of_def)
    then have "month_start (month_of l1) + (date_field l1 + 1) - 1 = day_of l + 1"
      using date_field_bounds(3) [of l1] by simp
    moreover have "l1 mod 1440 = 0" by (simp add: l1_def)
    ultimately have "1440 * (month_start (month_of l1) + (date_field l1 + 1) - 1) + l1 mod 1440 = next_day l"
      by (simp only: next_day_def add_0_right)
    moreover have "lo + d \<le> int (next_day l)" using in1(1) by (simp add: l1_def next_day_def)
    ultimately show ?thesis
      using utc_at [of "next_day l"] assms(4) by (simp only: set_date_def get_date_def Let_def local_at [OF in1])
  qed
  ultimately show ?thesis by (simp add: advance_day_def)
qed

lemma advance_hour_at:
  assumes stretch: "steady z d lo hi"
    and "local_of z t = l" "lo + d \<le> int (1440 * day_of l)" "int (next_hour l) \<le> hi + d"
  shows "advance_hour z t = int (next_hour l) - d"
proof -
  note utc_at = steady_utc(1) [OF stretch] and local_at = steady_utc(2) [OF stretch]
  define l1 where "l1 = 60 * (l div 60)"
  have day: "1440 * day_of l \<le> l1"
    using div_mult2_eq [of l 60 24] times_div_less_eq_dividend [of 24 "l div 60"] by (simp add: l1_def day_of_def)
  have in1: "lo + d \<le> int l1" "int l1 \<le> hi + d" using assms(3,4) day by (simp_all add: l1_def next_hour_def)
  have "set_minutes z 0 t = int l1 - d"
    using utc_at [OF in1] assms(2) by (simp add: set_minutes_def l1_def)
  moreover have "set_hours z (get_hours z (int l1 - d) + 1) (get_minutes z (int l1 - d)) (int l1 - d) = int (next_hour l) - d"
  proof -
    have "1440 * day_of l1 + 60 * (hours_field l1 + 1) + minutes_field l1 = next_hour l"
    proof -
      have "l1 mod 1440 = 60 * (l div 60 mod 24)" using mod_mult2_eq [of l1 60 24] by (simp add: l1_def)
      moreover have "l1 = 1440 * (l1 div 1440) + l1 mod 1440" by simp
      ultimately show ?thesis by (simp add: hours_field_def minutes_field_def day_of_def next_hour_def l1_def)
    qed
    moreover have "lo + d \<le> int (next_hour l)" using in1(1) by (simp add: l1_def next_hour_def)
    ultimately show ?thesis
      using utc_at [of "next_hour l"] local_at [OF in1] assms(4)
      by (simp add: set_hours_def get_hours_def get_minutes_def)
  qed
  ultimately show ?thesis by (simp add: advance_hour_def)
qed

lemma advance_minute_at:
  assumes stretch: "steady z d lo hi"
    and "local_of z t = l" "lo + d \<le> int l" "int (next_minute l) \<le> hi + d"
  shows "advance_minute z t = int (next_minute l) - d"
proof -
  note utc_at = steady_utc(1) [OF stretch] and local_at = steady_utc(2) [OF stretch]
  have in1: "lo + d \<le> int l" "int l \<le> hi + d" using assms(3,4) by (simp_all add: next_minute_def)
  have "set_seconds z t = int l - d" using utc_at [OF in1] assms(2) by (simp add: set_seconds_def)
  moreover have "60 * (l div 60) + (minutes_field l + 1) = next_minute l"
    by (simp add: minutes_field_def next_minute_def)
  ultimately show ?thesis
    using utc_at [of "next_minute l"] local_at [OF in1] assms(3,4)
    by (simp add: advance_minute_def set_minutes_def get_minutes_def Let_def next_minute_def)
qed


section \<open>The search finds the first matching minute\<close>

definition cron_matches :: "zone \<Rightarrow> cron_expression \<Rightarrow> nat \<Rightarrow> bool" where
  "cron_matches z expr n = wall_matches expr (local_of z (int n))"

lemma seek_fields:
  "get_month z t = month_field (local_of z t)" "get_hours z t = hours_field (local_of z t)"
  "get_minutes z t = minutes_field (local_of z t)"
  by (simp_all add: get_month_def get_hours_def get_minutes_def)

lemma day_matches_wall: "day_matches expr z t = wall_day_matches expr (local_of z t)"
  by (simp add: day_matches_def wall_day_matches_def get_date_def get_day_def)

lemma wall_day_matches_cong: "day_of u = day_of l \<Longrightarrow> wall_day_matches expr u = wall_day_matches expr l"
  by (simp add: wall_day_matches_def date_field_def day_field_def)

text \<open>Whatever the zone: an answer is a whole minute that matches in local time and is not too late.\<close>

lemma seek_run_sound:
  "seek_run budget z expr deadline_ms t = Some n \<Longrightarrow>
     \<exists>u. n = nat (time_of u) \<and> wall_matches expr (local_of z u) \<and> time_of u \<le> int deadline_ms"
proof (induction budget arbitrary: t)
  case (Suc budget)
  then show ?case
    by (auto simp: seek_fields day_matches_wall wall_matches_def not_less split: if_split_asm)
qed simp

lemma find_append:
  "List.find P (xs @ ys) = (case List.find P xs of Some v \<Rightarrow> Some v | None \<Rightarrow> List.find P ys)"
  by (induction xs) simp_all

lemma find_skip: "t \<le> u \<Longrightarrow> (\<And>v. t \<le> v \<Longrightarrow> v < u \<Longrightarrow> \<not> P v) \<Longrightarrow> List.find P [t..<n] = List.find P [u..<n]"
proof -
  assume tu: "t \<le> u" and no: "\<And>v. t \<le> v \<Longrightarrow> v < u \<Longrightarrow> \<not> P v"
  show ?thesis
  proof (cases "u \<le> n")
    case True
    then have "[t..<n] = [t..<u] @ [u..<n]" using tu upt_add_eq_append [of t u "n - u"] by simp
    moreover have "List.find P [t..<u] = None" using no by (simp add: find_None_iff)
    ultimately show ?thesis by (simp add: find_append)
  next
    case False
    then show ?thesis using no by (simp add: find_None_iff)
  qed
qed

text \<open>
  The next candidate of the search, in local time, and that it passes over no match.
\<close>

definition next_candidate :: "cron_expression \<Rightarrow> minute \<Rightarrow> minute" where
  "next_candidate expr l =
     (if month_field l + 1 \<notin> set (ce_months expr) then next_month l
      else if \<not> wall_day_matches expr l then next_day l
      else if hours_field l \<notin> set (ce_hours expr) then next_hour l
      else next_minute l)"

lemma next_candidate_later: "l < next_candidate expr l"
  using next_month_later [of l] nexts_later [of l] by (simp add: next_candidate_def)

lemma next_candidate_skips:
  assumes "\<not> wall_matches expr l" "l \<le> v" "v < next_candidate expr l"
  shows "\<not> wall_matches expr v"
proof (cases "v = l")
  case False
  then have "\<not> v < next_minute l" using assms(2) by (simp add: next_minute_def)
  then show ?thesis
    using assms next_month_skips [of l v] wall_day_matches_cong [OF next_day_skips [of l v]] next_hour_skips [of l v]
    by (auto simp: next_candidate_def wall_matches_def month_field_def hours_field_eq split: if_split_asm)
qed (use assms(1) in simp)

lemma next_candidate_near: "next_candidate expr l \<le> l + 44640"
proof -
  have "next_month l \<le> l + 44640"
  proof -
    have "1440 * month_start (Suc (month_of l)) \<le> 1440 * month_start (month_of l) + 1440 * 31"
      using month_length_le [of "month_of l"] by simp
    then show ?thesis using month_begins_before [of l] by (simp add: next_month_def)
  qed
  then show ?thesis
    using times_div_less_eq_dividend [of 1440 l] times_div_less_eq_dividend [of 60 l]
    by (auto simp: next_candidate_def next_day_def next_hour_def next_minute_def day_of_def)
qed


lemma seek_run_step:
  assumes stretch: "steady z d lo hi" and l: "local_of z t = l"
    and from_month: "lo + d \<le> int (1440 * month_start (month_of l))"
    and room: "int (next_candidate expr l) \<le> hi + d"
    and "\<not> wall_matches expr l" "\<not> time_of t > int deadline_ms"
  shows "seek_run (Suc budget) z expr deadline_ms t
    = seek_run budget z expr deadline_ms (int (next_candidate expr l) - d)"
proof -
  have day: "lo + d \<le> int (1440 * day_of l)" using from_month month_of_eq(1) [of l] by linarith
  have minute: "lo + d \<le> int l" using from_month month_begins_before [of l] by linarith
  show ?thesis
    using assms(5,6) room advance_month_at [OF stretch l from_month] advance_day_at [OF stretch l day]
      advance_hour_at [OF stretch l day] advance_minute_at [OF stretch l minute]
    by (auto simp: next_candidate_def seek_fields day_matches_wall wall_matches_def l split: if_split_asm)
qed

lemma month_start_of_later: "l \<le> u \<Longrightarrow> month_start (month_of l) \<le> month_start (month_of u)"
proof -
  assume "l \<le> u"
  then have "day_of l \<le> day_of u" by (simp add: day_of_def div_le_mono)
  then have "month_of l \<le> month_of u"
    using month_of_eq [of l] month_of_eq [of u] month_start_mono [of "Suc (month_of u)" "month_of l"] by (meson leD le_trans not_less_eq_eq)
  then show ?thesis by (rule month_start_mono)
qed

lemma seek_run_finds:
  assumes stretch: "steady z d lo hi" and limit: "limit = deadline_ms div ms_per_minute + 1"
  shows "lo \<le> int n \<Longrightarrow> int n \<le> hi \<Longrightarrow> lo + d \<le> int (1440 * month_start (month_of (local_of z (int n))))
    \<Longrightarrow> limit < n + budget
    \<Longrightarrow> int limit + 44640 \<le> hi \<or> (\<exists>m. n \<le> m \<and> int m \<le> hi \<and> cron_matches z expr m)
    \<Longrightarrow> seek_run budget z expr deadline_ms (int n)
      = map_option (\<lambda>n. n * ms_per_minute) (List.find (cron_matches z expr) [n..<limit])"
proof (induction budget arbitrary: n)
  case (Suc budget)
  define l where "l = local_of z (int n)"
  have l: "int l = int n + d" using steady_local [OF stretch Suc.prems(1,2)] by (simp add: l_def)
  have late: "time_of (int n) > int deadline_ms \<longleftrightarrow> limit \<le> n"
    unfolding time_of_def of_nat_mult [symmetric] of_nat_less_iff by (simp add: limit ms_per_minute_def) linarith
  consider (over) "limit \<le> n" | (hit) "n < limit" "wall_matches expr l" | (on) "n < limit" "\<not> wall_matches expr l" by linarith
  then show ?case
  proof cases
    case over
    then show ?thesis using late by simp
  next
    case hit
    then have "[n..<limit] = n # [Suc n..<limit]" by (simp add: upt_conv_Cons)
    moreover have "nat (time_of (int n)) = n * ms_per_minute"
      by (simp add: time_of_def nat_mult_distrib)
    ultimately show ?thesis
      using hit late by (simp add: cron_matches_def l_def wall_matches_def seek_fields day_matches_wall)
  next
    case on
    define u where "u = next_candidate expr l"
    define k where "k = n + (u - l)"
    have lu: "l < u" using next_candidate_later by (simp add: u_def)
    then have k: "int k = int u - d" "n < k" using l by (simp_all add: k_def)
    have wall: "local_of z (int v) = nat (int v + d)" if "lo \<le> int v" "int v \<le> hi" for v
      using steady_local [OF stretch that] by simp
    have skipped: "\<not> cron_matches z expr v" if v: "n \<le> v" "v < k" "int v \<le> hi" for v
    proof -
      have "l \<le> nat (int v + d)" "nat (int v + d) < u" using v l k by auto
      then have "\<not> wall_matches expr (nat (int v + d))"
        using next_candidate_skips [OF on(2)] by (simp add: u_def)
      then show ?thesis using wall [of v] v Suc.prems(1) by (simp add: cron_matches_def)
    qed
    have khi: "int k \<le> hi"
      using Suc.prems(5)
    proof
      assume "int limit + 44640 \<le> hi"
      moreover have "u \<le> l + 44640" using next_candidate_near by (simp add: u_def)
      ultimately show ?thesis using on(1) by (simp add: k_def)
    next
      assume "\<exists>m. n \<le> m \<and> int m \<le> hi \<and> cron_matches z expr m"
      then obtain m where m: "n \<le> m" "int m \<le> hi" "cron_matches z expr m" by blast
      then have "\<not> m < k" using skipped by blast
      then show ?thesis using m(2) by linarith
    qed
    have lk: "local_of z (int k) = u" using wall [of k] khi k Suc.prems(1) by simp
    have month: "lo + d \<le> int (1440 * month_start (month_of u))"
      using Suc.prems(3) month_start_of_later [of l u] lu by (simp add: l_def [symmetric])
    have more: "int limit + 44640 \<le> hi \<or> (\<exists>m. k \<le> m \<and> int m \<le> hi \<and> cron_matches z expr m)"
      using Suc.prems(5) skipped by (meson not_le_imp_less)
    have "seek_run (Suc budget) z expr deadline_ms (int n) = seek_run budget z expr deadline_ms (int k)"
      using seek_run_step [OF stretch l_def [symmetric], of expr deadline_ms budget] Suc.prems(3) on late khi k
      by (simp add: l_def [symmetric] u_def [symmetric])
    also have "\<dots> = map_option (\<lambda>n. n * ms_per_minute) (List.find (cron_matches z expr) [k..<limit])"
      using Suc.IH [of k] Suc.prems(1,4) k(2) khi month more by (simp add: lk)
    also have "List.find (cron_matches z expr) [k..<limit] = List.find (cron_matches z expr) [n..<limit]"
      using k(2) skipped khi find_skip [of n k "cron_matches z expr" limit] by simp
    finally show ?thesis .
  qed
qed simp


lemma next_run_on_stretch:
  assumes "steady z d lo hi" "lo \<le> int (from_ms div 60000)" "int (from_ms div 60000) < hi"
    and "lo + d \<le> int (1440 * month_start (month_of (local_of z (int (from_ms div 60000)))))"
    and "int ((from_ms + 2635200 * 60000) div 60000) + 44641 \<le> hi
      \<or> (\<exists>m > from_ms div 60000. int m \<le> hi \<and> cron_matches z expr m)"
  shows "compute_next_cron_run z expr from_ms =
     map_option (\<lambda>n. n * 60000)
       (List.find (cron_matches z expr) [from_ms div 60000 + 1..<(from_ms + 2635200 * 60000) div 60000 + 1])"
proof -
  let ?n = "from_ms div 60000"
  have l: "int (local_of z (int ?n)) = int ?n + d" "int (local_of z (int (?n + 1))) = int (?n + 1) + d"
    using steady_local [OF assms(1)] assms(2,3) by simp_all
  have start: "set_seconds z (int ?n) = int ?n"
    using steady_utc(1) [OF assms(1), of "local_of z (int ?n)"] l assms(2,3) by (simp add: set_seconds_def)
  have month: "lo + d \<le> int (1440 * month_start (month_of (local_of z (int (?n + 1)))))"
    using assms(4) month_start_of_later [of "local_of z (int ?n)" "local_of z (int (?n + 1))"] l by linarith
  show ?thesis
    using seek_run_finds [OF assms(1) refl, of "?n + 1" "from_ms + 2635200 * 60000" hard_iteration_cap expr] month assms(2,3,5) start
    by (simp add: compute_next_cron_run_def next_run_within_minutes_def ms_per_minute_def hard_iteration_cap_def Suc_le_eq Let_def
        add.commute)
qed

text \<open>
  C14. Where the clock does not change from the beginning of the month on until the expression fires
  (or until a month after the five years the code looks ahead), the next run is the first whole
  minute after the given time, within those years, whose month, day, hour and minute in local time
  the expression lists: nothing is skipped by the jumps over months, days and hours, and the cap on
  iterations is never reached.
\<close>

theorem next_run_is_first_match:
  assumes "steady z d lo hi" "lo \<le> int (from_ms div 60000)" "int (from_ms div 60000) < hi"
    and "lo + d \<le> int (1440 * month_start (month_of (local_of z (int (from_ms div 60000)))))"
    and "int ((from_ms + 2635200 * 60000) div 60000) + 44641 \<le> hi
      \<or> (\<exists>m > from_ms div 60000. int m \<le> hi \<and> cron_matches z expr m)"
  shows "compute_next_cron_run z expr from_ms =
     map_option (\<lambda>n. n * 60000)
       (List.find (cron_matches z expr) [from_ms div 60000 + 1..<(from_ms + 2635200 * 60000) div 60000 + 1])"
  by (rule next_run_on_stretch [OF assms])

text \<open>Whatever the clock does, an answer is a whole minute within the five years that matches in local time.\<close>

theorem next_run_matches:
  assumes "compute_next_cron_run z expr from_ms = Some n"
  shows "\<exists>u. n = nat (time_of u) \<and> wall_matches expr (local_of z u) \<and> time_of u \<le> int (from_ms + 2635200 * 60000)"
  using seek_run_sound assms by (fastforce simp: compute_next_cron_run_def next_run_within_minutes_def Let_def ms_per_minute_def)

section \<open>Runs that come later\<close>

text \<open>A zone in which the next run is always later than the time it was asked for.\<close>

definition runs_forward :: "zone \<Rightarrow> bool" where
  "runs_forward z \<longleftrightarrow> (\<forall>expr from_ms n. compute_next_cron_run z expr from_ms = Some n \<longrightarrow> from_ms < n)"

lemma next_run_later: "runs_forward z \<Longrightarrow> compute_next_cron_run z expr from_ms = Some n \<Longrightarrow> from_ms < n"
  by (simp add: runs_forward_def)

lemma unchanging_runs_forward:
  assumes "zn_changes z = []" "- 1440 \<le> zn_offset z"
  shows "runs_forward z"
  unfolding runs_forward_def
proof (intro allI impI)
  fix expr from_ms n
  assume run: "compute_next_cron_run z expr from_ms = Some n"
  let ?n = "from_ms div 60000"
  let ?d = "zn_offset z + wall_origin"
  let ?hi = "int ((from_ms + 2635200 * 60000) div 60000) + 44641"
  have s: "steady z ?d (- ?d) ?hi" by (rule unchanging_steady [OF assms(1)]) simp
  have lo: "- ?d \<le> int ?n" using assms(2) by (simp add: wall_origin_def)
  define ns where "ns = [?n + 1..<(from_ms + 2635200 * 60000) div 60000 + 1]"
  have "compute_next_cron_run z expr from_ms = map_option (\<lambda>n. n * 60000) (List.find (cron_matches z expr) ns)"
    unfolding ns_def by (rule next_run_on_stretch [OF s lo]) (simp_all add: div_add_self2)
  then obtain m where m: "List.find (cron_matches z expr) ns = Some m" "n = m * 60000"
    using run by (cases "List.find (cron_matches z expr) ns") auto
  then have "m \<in> set ns" by (auto simp: find_Some_iff)
  then have "?n + 1 \<le> m" unfolding ns_def set_upt by simp
  with m(2) have "?n + 1 \<le> m" "n = m * 60000" by simp_all
  then show "from_ms < n"
    using div_mult_mod_eq [of from_ms 60000] mod_less_divisor [of 60000 from_ms] by simp
qed

section \<open>Runs of every hour\<close>

definition every_minute :: cron_expression where
  "every_minute = \<lparr>ce_raw = ''* * * * *'', ce_minutes = [0..<60], ce_hours = [0..<24], ce_days_of_month = [1..<32],
             ce_months = [1..<13], ce_days_of_week = [0..<7], ce_dom_wildcard = True, ce_dow_wildcard = True\<rparr>"

lemma hourly_matches:
  "wall_matches (every_minute\<lparr>ce_minutes := ms\<rparr>) l \<longleftrightarrow> minutes_field l \<in> set ms"
  by (auto simp: wall_matches_def every_minute_def wall_day_matches_def month_field_def hours_field_def
      less_mult_imp_div_less)

lemma every_minute_matches: "wall_matches every_minute l"
  using hourly_matches [of "[0..<60]" l] by (simp add: every_minute_def minutes_field_def)

lemma seek_run_hit:
  "wall_matches expr (local_of z t) \<Longrightarrow> time_of t \<le> int deadline_ms \<Longrightarrow> 0 < budget \<Longrightarrow>
     seek_run budget z expr deadline_ms t = Some (nat (time_of t))"
  by (cases budget) (simp_all add: wall_matches_def seek_fields day_matches_wall)

lemma every_minute_run:
  assumes "zn_changes z = []" "- 1440 \<le> zn_offset z"
  shows "compute_next_cron_run z every_minute ms = Some ((ms div 60000 + 1) * 60000)"
proof -
  have "set_seconds z (int (ms div 60000)) = int (ms div 60000)"
    using unchanging_steady [OF assms(1), of "- 1440 * 700" "int (ms div 60000)"] assms(2)
    by (simp add: steady_def set_seconds_def wall_origin_def)
  moreover have "time_of (int (ms div 60000) + 1) \<le> int (ms + 2635200 * 60000)"
    using div_times_less_eq_dividend [of ms 60000] by (simp add: time_of_def ms_per_minute_def algebra_simps)
  moreover have "nat (time_of (int (ms div 60000) + 1)) = (ms div 60000 + 1) * 60000"
    by (simp add: time_of_def ms_per_minute_def nat_add_distrib nat_mult_distrib)
  ultimately show ?thesis
    using seek_run_hit [OF every_minute_matches [of "local_of z (int (ms div 60000) + 1)"], of "ms + 2635200 * 60000" hard_iteration_cap]
    by (simp add: compute_next_cron_run_def next_run_within_minutes_def Let_def ms_per_minute_def hard_iteration_cap_def)
qed

text \<open>Five minutes before the hour, asked in Berlin ten minutes before the clock changes in spring.\<close>

theorem next_run_is_first_match_witness:
  "compute_next_cron_run berlin_1996 (every_minute\<lparr>ce_minutes := [55]\<rparr>) (13803890 * 60000) = Some (13803895 * 60000)"
proof -
  let ?e = "every_minute\<lparr>ce_minutes := [55]\<rparr>"
  let ?d = "60 + wall_origin"
  have s: "steady berlin_1996 ?d (- ?d) 13803899"
    using steady_before_change [of berlin_1996 13803900 120 "[(14106300, 60)]" "- ?d" 13803899]
    by (simp add: berlin_1996_def)
  have m: "cron_matches berlin_1996 ?e n \<longleftrightarrow> n mod 60 = 55" if "n \<le> 13803899" for n
  proof -
    have "local_of berlin_1996 (int n) = n + 60 * 17545"
      using that by (simp add: local_of_def berlin_1996_def wall_origin_def nat_add_distrib)
    then show ?thesis
      using mod_mult_self2 [of n 60 17545] by (simp only: cron_matches_def hourly_matches minutes_field_def list.set singleton_iff)
  qed
  have "compute_next_cron_run berlin_1996 ?e (13803890 * 60000) = map_option (\<lambda>n. n * 60000)
      (List.find (cron_matches berlin_1996 ?e) [13803890 * 60000 div 60000 + 1..<(13803890 * 60000 + 2635200 * 60000) div 60000 + 1])"
  proof (rule next_run_is_first_match [OF s])
    show "- ?d \<le> int (13803890 * 60000 div 60000)" by (simp add: wall_origin_def)
    show "int (13803890 * 60000 div 60000) < 13803899" by simp
    show "- ?d + ?d \<le> int (1440 * month_start (month_of (local_of berlin_1996 (int (13803890 * 60000 div 60000)))))"
      by (simp only: add.left_inverse of_nat_0_le_iff)
    have "cron_matches berlin_1996 ?e 13803895" by (simp add: m)
    then show "int ((13803890 * 60000 + 2635200 * 60000) div 60000) + 44641 \<le> 13803899 \<or>
        (\<exists>n > 13803890 * 60000 div 60000. int n \<le> 13803899 \<and> cron_matches berlin_1996 ?e n)"
      by (intro disjI2 exI [of _ 13803895]) simp
  qed
  moreover define N :: nat where "N = (13803890 * 60000 + 2635200 * 60000) div 60000 + 1"
  moreover have "13803890 * 60000 div 60000 + 1 = (13803891 :: nat)" by simp
  ultimately have run: "compute_next_cron_run berlin_1996 ?e (13803890 * 60000) = map_option (\<lambda>n. n * 60000)
      (List.find (cron_matches berlin_1996 ?e) [13803891..<N])" by (simp only:)
  have "\<not> cron_matches berlin_1996 ?e v" if "13803891 \<le> v" "v < 13803895" for v
  proof -
    have "v = 13803891 \<or> v = 13803892 \<or> v = 13803893 \<or> v = 13803894" using that by linarith
    then show ?thesis using m [of v] by auto
  qed
  then have "List.find (cron_matches berlin_1996 ?e) [13803891..<N] = List.find (cron_matches berlin_1996 ?e) [13803895..<N]"
    by (intro find_skip) simp_all
  also have "[13803895..<N] = 13803895 # [Suc 13803895..<N]" by (rule upt_conv_Cons) (simp add: N_def)
  finally show ?thesis using run m [of 13803895] by simp
qed

text \<open>
  In the hour that the clock repeats in autumn, truncating the time to the minute goes back to the
  first time round: at half past two, the second time, the next run of an expression for every
  minute is fifty-nine minutes in the past.
\<close>

theorem next_run_in_repeated_hour_is_past:
  "compute_next_cron_run berlin_1996 every_minute (14106330 * 60000) = Some (14106271 * 60000)"
proof -
  have "set_seconds berlin_1996 14106330 = 14106270"
    by (simp add: date_evals berlin_1996_def)
  then show ?thesis
    using seek_run_hit [OF every_minute_matches [of "local_of berlin_1996 14106271"], of "14106330 * 60000 + 2635200 * 60000" hard_iteration_cap]
    by (simp add: compute_next_cron_run_def next_run_within_minutes_def Let_def ms_per_minute_def hard_iteration_cap_def time_of_def)
qed

section \<open>What parses is in range\<close>

definition within :: "nat \<Rightarrow> nat \<Rightarrow> nat list \<Rightarrow> bool" where
  "within lowest highest out \<longleftrightarrow> distinct out \<and> list_all (\<lambda>v. lowest \<le> v \<and> v \<le> highest) out"

lemma within_Nil [simp]: "within lowest highest []"
  by (simp add: within_def)

lemma within_set_add: "within lowest highest out \<Longrightarrow> lowest \<le> v \<Longrightarrow> v \<le> highest \<Longrightarrow> within lowest highest (set_add v out)"
  by (simp add: within_def set_add_def)

lemma within_fold_set_add:
  "within lowest highest out \<Longrightarrow> \<forall>v \<in> set vs. lowest \<le> v \<and> v \<le> highest \<Longrightarrow> within lowest highest (fold set_add vs out)"
  by (induction vs arbitrary: out) (simp_all add: within_set_add)

lemma up_by_bounds: "v \<in> set (up_by lo hi step) \<Longrightarrow> lo \<le> v \<and> v \<le> hi"
proof (induction lo hi step rule: up_by.induct)
  case (1 lo hi step)
  then show ?case by (subst (asm) (2) up_by.simps) (auto split: if_splits)
qed

lemma term_bounds_range:
  "term_bounds range_part stepped lowest highest name = Inr (lo, hi) \<Longrightarrow> lowest \<le> lo \<and> hi \<le> highest"
  by (auto simp: term_bounds_def split: if_splits option.splits sum.splits)

lemma add_term_within:
  "add_term out t lowest highest name = Inr out' \<Longrightarrow> within lowest highest out \<Longrightarrow> within lowest highest out'"
  by (auto simp: add_term_def split: sum.splits prod.splits dest!: term_bounds_range up_by_bounds intro!: within_fold_set_add)

lemma add_terms_within:
  "add_terms ts lowest highest name out = Inr out' \<Longrightarrow> within lowest highest out \<Longrightarrow> within lowest highest out'"
  by (induction ts lowest highest name out rule: add_terms.induct)
    (auto split: if_splits sum.splits dest: add_term_within)

lemma parse_field_within:
  "parse_field field lowest highest name = Inr out \<Longrightarrow> within lowest highest out \<and> out \<noteq> []"
  by (auto simp: parse_field_def split: if_splits sum.splits dest!: add_terms_within)

lemma fold_sunday_within: "within 0 7 raw \<Longrightarrow> raw \<noteq> [] \<Longrightarrow> within 0 6 (fold_sunday raw) \<and> fold_sunday raw \<noteq> []"
proof -
  have keeps: "within 0 6 out \<Longrightarrow> list_all (\<lambda>v. v \<le> 7) raw \<Longrightarrow> within 0 6 (fold (\<lambda>v. set_add (if v = 7 then 0 else v)) raw out)" for out raw
    by (induction raw arbitrary: out) (auto simp: within_set_add)
  have grows: "out \<noteq> [] \<Longrightarrow> fold (\<lambda>v. set_add (if v = 7 then 0 else v)) raw out \<noteq> []" for out raw
    by (induction raw arbitrary: out) (simp_all add: set_add_def)
  assume raw: "within 0 7 raw" "raw \<noteq> []"
  then obtain v vs where "raw = v # vs" by (cases raw) auto
  then show ?thesis using raw keeps [of "[]" raw] grows [of "set_add (if v = 7 then 0 else v) []" vs]
    by (auto simp: fold_sunday_def within_def set_add_def list_all_iff)
qed

text \<open>
  Whatever parses lists, without repetition, at least one value per field, and only values a
  date can have: minutes up to 59, hours up to 23, days 1 to 31, months 1 to 12, week days 0 to 6
  (7 has become 0).
\<close>

theorem parsed_cron_in_range:
  assumes "parse_cron_expression expr = Inr c"
  shows "within 0 59 (ce_minutes c) \<and> within 0 23 (ce_hours c) \<and> within 1 31 (ce_days_of_month c) \<and>
    within 1 12 (ce_months c) \<and> within 0 6 (ce_days_of_week c) \<and>
    [] \<notin> {ce_minutes c, ce_hours c, ce_days_of_month c, ce_months c, ce_days_of_week c}"
  using assms
  by (auto simp: parse_cron_expression_def Let_def split: if_splits list.splits sum.splits
      dest!: parse_field_within fold_sunday_within)

definition workday_mornings :: cron_expression where
  "workday_mornings =
     \<lparr>ce_raw = ''*/30 9 *   1,7 1-5'', ce_minutes = [0, 30], ce_hours = [9], ce_days_of_month = [1..<32], ce_months = [1, 7],
      ce_days_of_week = [1, 2, 3, 4, 5], ce_dom_wildcard = True, ce_dow_wildcard = False\<rparr>"

lemma parse_workday_mornings: "parse_cron_expression ''  */30 9 *   1,7 1-5 '' = Inr workday_mornings"
  by code_simp

theorem parsed_cron_in_range_witness: "within 0 59 (ce_minutes workday_mornings) \<and> within 0 6 (ce_days_of_week workday_mornings)"
  using parsed_cron_in_range [OF parse_workday_mornings] by blast

section \<open>Rendering\<close>

definition month_names :: "string list" where
  "month_names = [''January'', ''February'', ''March'', ''April'', ''May'', ''June'', ''July'', ''August'', ''September'', ''October'',
     ''November'', ''December'']"

definition day_names :: "string list" where
  "day_names = [''Sunday'', ''Monday'', ''Tuesday'', ''Wednesday'', ''Thursday'', ''Friday'', ''Saturday'']"

definition pad :: "nat \<Rightarrow> string" where
  "pad n = (if n < 10 then ''0'' @ js_of_nat n else js_of_nat n)"

definition is_full_range :: "nat list \<Rightarrow> nat \<Rightarrow> nat \<Rightarrow> bool" where
  "is_full_range vs lo hi = (length vs = hi - lo + 1 \<and> list_all (\<lambda>v. v \<in> set vs) [lo..<hi + 1])"

fun in_steps :: "nat \<Rightarrow> nat \<Rightarrow> nat list \<Rightarrow> bool" where
  "in_steps expected step [] = True"
| "in_steps expected step (v # vs) = (v = expected \<and> in_steps (expected + step) step vs)"

definition detect_step :: "nat list \<Rightarrow> nat \<Rightarrow> nat \<Rightarrow> nat option" where
  "detect_step vs lo hi =
     (case sort vs of
        a # b # rest \<Rightarrow>
          if a \<noteq> lo \<or> b \<le> a then None
          else if \<not> in_steps lo (b - a) (sort vs) then None
          else if lo + length vs * (b - a) - (b - a) > hi then None
          else Some (b - a)
      | _ \<Rightarrow> None)"

definition join_with :: "string \<Rightarrow> string list \<Rightarrow> string" where
  "join_with sep ps = (case ps of [] \<Rightarrow> [] | p # rest \<Rightarrow> p @ concat (map (\<lambda>q. sep @ q) rest))"

definition format_dows :: "nat list \<Rightarrow> string option" where
  "format_dows vs =
     (let values = sort vs in
      if values = [] then None
      else if values = [1, 2, 3, 4, 5] then Some ''weekdays''
      else if values = [0, 6] then Some ''weekends''
      else Some (join_with '', '' (map (\<lambda>v. day_names ! v) values)))"

text \<open>The four sentences \<open>cronToHuman\<close> tries in turn; the raw text when none fits.\<close>

definition human_minutes :: "cron_expression \<Rightarrow> string option" where
  "human_minutes c =
     (if is_full_range (ce_hours c) 0 23 \<and> ce_dom_wildcard c \<and> is_full_range (ce_months c) 1 12 \<and> ce_dow_wildcard c
      then (case detect_step (ce_minutes c) 0 59 of
              Some step \<Rightarrow>
                if step > 1 then Some (''every '' @ js_of_nat step @ '' minutes'')
                else if is_full_range (ce_minutes c) 0 59 then Some ''every minute''
                else None
            | None \<Rightarrow>
                if is_full_range (ce_minutes c) 0 59 then Some ''every minute''
                else if length (ce_minutes c) = 1 then Some (''at minute '' @ js_of_nat (hd (ce_minutes c)) @ '' of every hour'')
                else None)
      else None)"

definition human_hours :: "cron_expression \<Rightarrow> string option" where
  "human_hours c =
     (if length (ce_minutes c) = 1 \<and> ce_dom_wildcard c \<and> is_full_range (ce_months c) 1 12 \<and> ce_dow_wildcard c
      then (case detect_step (ce_hours c) 0 23 of
              Some step \<Rightarrow> if step > 1 then Some (''every '' @ js_of_nat step @ '' hours at minute '' @ pad (hd (ce_minutes c))) else None
            | None \<Rightarrow> None)
      else None)"

definition human_days :: "cron_expression \<Rightarrow> string option" where
  "human_days c =
     (if length (ce_minutes c) = 1 \<and> length (ce_hours c) = 1 \<and> ce_dom_wildcard c \<and> is_full_range (ce_months c) 1 12
      then (let time = pad (hd (ce_hours c)) @ '':'' @ pad (hd (ce_minutes c)) in
            if ce_dow_wildcard c then Some (''at '' @ time @ '' every day'')
            else map_option (\<lambda>d. ''at '' @ time @ '' on '' @ d) (format_dows (ce_days_of_week c)))
      else None)"

definition human_date :: "cron_expression \<Rightarrow> string option" where
  "human_date c =
     (if length (ce_minutes c) = 1 \<and> length (ce_hours c) = 1 \<and> length (ce_days_of_month c) = 1 \<and> \<not> ce_dom_wildcard c
        \<and> length (ce_months c) = 1 \<and> ce_dow_wildcard c
      then Some (''at '' @ pad (hd (ce_hours c)) @ '':'' @ pad (hd (ce_minutes c)) @ '' on day '' @ js_of_nat (hd (ce_days_of_month c))
        @ '' of '' @ month_names ! (hd (ce_months c) - 1))
      else None)"

fun first_some :: "'a option list \<Rightarrow> 'a \<Rightarrow> 'a" where
  "first_some [] d = d"
| "first_some (Some x # xs) d = x"
| "first_some (None # xs) d = first_some xs d"

definition cron_to_human :: "cron_expression \<Rightarrow> string" where
  "cron_to_human c = first_some [human_minutes c, human_hours c, human_days c, human_date c] (ce_raw c)"

text \<open>A step that is found describes the set: its values are every so many from the first on.\<close>

lemma in_steps_nth: "in_steps e step vs \<Longrightarrow> i < length vs \<Longrightarrow> vs ! i = e + i * step"
  by (induction vs arbitrary: e i) (auto simp: nth_Cons less_Suc_eq_0_disj split: nat.splits)

lemma detect_step_describes:
  assumes "detect_step vs lo hi = Some step"
  shows "sort vs = map (\<lambda>i. lo + i * step) [0..<length vs] \<and> 0 < step"
proof -
  have "in_steps lo step (sort vs)" "0 < step"
    using assms by (auto simp: detect_step_def split: list.splits if_splits)
  then show ?thesis by (auto intro!: nth_equalityI simp: in_steps_nth)
qed

text \<open>
  The step found need not reach the end of the range: an expression that fires at minutes 0 and 5 of each
  hour is described as firing every 5 minutes, the very text of \<open>*/5\<close>.
\<close>

theorem two_minutes_shown_as_every_five:
  "map_sum id cron_to_human (parse_cron_expression ''0,5 * * * *'') = Inr ''every 5 minutes''
   \<and> map_sum id ce_minutes (parse_cron_expression ''0,5 * * * *'') = Inr [0, 5]
   \<and> map_sum id cron_to_human (parse_cron_expression ''*/5 * * * *'') = Inr ''every 5 minutes''"
  by code_simp

end
