(* ===== verification/Cron_Schedule.thy ===== *)
theory Cron_Schedule
  imports Cron_Expr Complex_Main "HOL-Library.Word"
begin

text \<open>
  When scheduled tasks fire (\<open>agents/src/cron/jitter.ts\<close>, \<open>scheduler.ts\<close>): the spread of fire times
  by task, and one tick of the scheduler.

  Times are milliseconds; a jittered time is a rational (the code's floating point products are
  taken exactly). The host's zone is an argument. The parse cache of the scheduler is left out: it holds what parsing returns.
  \<open>delivered\<close> says which callbacks return rather than throw.
\<close>

section \<open>Jitter\<close>

record jitter_config =
  jc_max_fraction :: rat
  jc_max_ms :: rat
  jc_one_shot_max_ms :: rat
  jc_no_jitter :: bool

definition default_cron_jitter_config :: jitter_config where
  "default_cron_jitter_config =
     \<lparr>jc_max_fraction = 1 / 10, jc_max_ms = 15 * 60000, jc_one_shot_max_ms = 90000, jc_no_jitter = False\<rparr>"

definition ms_per_day :: nat where
  "ms_per_day = 24 * 60 * 60000"

definition hex_value :: "char \<Rightarrow> nat option" where
  "hex_value c =
     (let n = of_char (js_lower_char c) :: nat in
      if 48 \<le> n \<and> n \<le> 57 then Some (n - 48) else if 97 \<le> n \<and> n \<le> 102 then Some (n - 87) else None)"

fun hex_number :: "nat \<Rightarrow> string \<Rightarrow> nat option" where
  "hex_number acc [] = Some acc"
| "hex_number acc (c # cs) = (case hex_value c of Some d \<Rightarrow> hex_number (16 * acc + d) cs | None \<Rightarrow> None)"

text \<open>\<open>((hash << 5) + hash + code) | 0\<close>, in 32 bits.\<close>

definition hash_step :: "char \<Rightarrow> 32 word \<Rightarrow> 32 word" where
  "hash_step c hash = push_bit 5 hash + hash + of_nat (of_char c)"

definition hash_of :: "string \<Rightarrow> 32 word" where
  "hash_of s = fold hash_step s 5381"

definition fraction_from_id :: "string \<Rightarrow> rat" where
  "fraction_from_id i =
     (case (if length i = 8 then hex_number 0 i else None) of
        Some n \<Rightarrow> of_nat n / 4294967296
      | None \<Rightarrow> of_nat (unat (hash_of i)) / 4294967296)"

definition jittered_next_cron_run_ms :: "zone \<Rightarrow> string \<Rightarrow> cron_expression \<Rightarrow> nat \<Rightarrow> jitter_config \<Rightarrow> rat" where
  "jittered_next_cron_run_ms z task_id parsed ideal_ms config =
     (if jc_no_jitter config then of_nat ideal_ms
      else let period = (case compute_next_cron_run z parsed ideal_ms of
                           Some n \<Rightarrow> if n > ideal_ms then n - ideal_ms else ms_per_day
                         | None \<Rightarrow> ms_per_day);
               cap = min (of_nat period * jc_max_fraction config) (jc_max_ms config)
           in if \<not> cap > 0 then of_nat ideal_ms else of_nat ideal_ms + cap * fraction_from_id task_id)"

definition one_shot_jittered_next_cron_run_ms :: "zone \<Rightarrow> string \<Rightarrow> nat option \<Rightarrow> nat \<Rightarrow> jitter_config \<Rightarrow> rat" where
  "one_shot_jittered_next_cron_run_ms z task_id created_at ideal_ms config =
     (if jc_no_jitter config then of_nat ideal_ms
      else if ideal_ms mod ms_per_minute \<noteq> 0 then of_nat ideal_ms
      else if get_minutes z (int (ideal_ms div ms_per_minute)) \<noteq> 0 \<and> get_minutes z (int (ideal_ms div ms_per_minute)) \<noteq> 30 then of_nat ideal_ms
      else if \<not> jc_one_shot_max_ms config > 0 then of_nat ideal_ms
      else let shifted = of_nat ideal_ms + - jc_one_shot_max_ms config * fraction_from_id task_id
           in if (case created_at of Some c \<Rightarrow> shifted < of_nat c | None \<Rightarrow> False) then of_nat ideal_ms else shifted)"

section \<open>The scheduler\<close>

record cron_task =
  ct_id :: string
  ct_cron :: string
  ct_prompt :: string
  ct_created_at :: nat
  ct_recurring :: "bool option"
  ct_last_fired_at :: "nat option"

definition is_one_shot :: "cron_task \<Rightarrow> bool" where
  "is_one_shot t = (ct_recurring t = Some False)"

record cron_state =
  sc_last_seen :: "(string, nat) jsmap"
  sc_seeded :: "string list"

definition empty_schedule :: cron_state where
  "empty_schedule = \<lparr>sc_last_seen = [], sc_seeded = []\<rparr>"

datatype cron_effect = Fire string nat | RemoveOneShot string | AdvanceCursor string nat

definition jittered_time :: "zone \<Rightarrow> jitter_config \<Rightarrow> cron_task \<Rightarrow> cron_expression \<Rightarrow> nat \<Rightarrow> rat" where
  "jittered_time z config t parsed ideal =
     (if is_one_shot t then one_shot_jittered_next_cron_run_ms z (ct_id t) (Some (ct_created_at t)) ideal config
      else jittered_next_cron_run_ms z (ct_id t) parsed ideal config)"

definition compute_jittered_next :: "zone \<Rightarrow> jitter_config \<Rightarrow> cron_task \<Rightarrow> cron_expression \<Rightarrow> nat \<Rightarrow> rat option" where
  "compute_jittered_next z config t parsed base_ms = map_option (jittered_time z config t parsed) (compute_next_cron_run z parsed base_ms)"

definition max_coalesce_iterations :: nat where
  "max_coalesce_iterations = 10000"

text \<open>The loop of \<open>countCoalesced\<close>: \<open>count\<close> fires up to the ideal time \<open>cursor\<close> so far.\<close>

function coalesce :: "zone \<Rightarrow> jitter_config \<Rightarrow> cron_task \<Rightarrow> cron_expression \<Rightarrow> nat \<Rightarrow> nat \<Rightarrow> nat \<Rightarrow> nat \<times> nat" where
  "coalesce z config t parsed now_ms count cursor =
     (if \<not> count < max_coalesce_iterations then (count, cursor)
      else case compute_next_cron_run z parsed cursor of
             None \<Rightarrow> (count, cursor)
           | Some n \<Rightarrow>
               if n > now_ms \<or> jittered_time z config t parsed n > of_nat now_ms then (count, cursor)
               else coalesce z config t parsed now_ms (count + 1) n)"
  by pat_completeness auto
termination by (relation "measure (\<lambda>(_, _, _, _, _, count, _). max_coalesce_iterations - count)") auto

declare coalesce.simps [simp del]

definition count_coalesced :: "zone \<Rightarrow> jitter_config \<Rightarrow> cron_task \<Rightarrow> cron_expression \<Rightarrow> nat \<Rightarrow> nat \<Rightarrow> nat \<times> nat" where
  "count_coalesced z config t parsed first_ms now_ms = coalesce z config t parsed now_ms 1 first_ms"

definition seed_last_seen :: "nat \<Rightarrow> cron_task \<Rightarrow> cron_state \<Rightarrow> cron_state" where
  "seed_last_seen now t s =
     (let s1 = (case ct_last_fired_at t of
                  Some f \<Rightarrow>
                    if ct_id t \<notin> set (sc_seeded s) \<and> f \<le> now \<and> map_of (sc_last_seen s) (ct_id t) = None
                    then s\<lparr>sc_last_seen := jset (ct_id t) f (sc_last_seen s)\<rparr> else s
                | None \<Rightarrow> s)
      in s1\<lparr>sc_seeded := List.insert (ct_id t) (sc_seeded s1)\<rparr>)"

definition base_from :: "cron_task \<Rightarrow> nat option \<Rightarrow> nat" where
  "base_from t cursor =
     (case cursor of Some seen \<Rightarrow> if seen > ct_created_at t then seen else ct_created_at t | None \<Rightarrow> ct_created_at t)"

text \<open>One task of a tick: what happens, and whether it is in flight for the rest of the tick.\<close>

definition settle_fire :: "cron_task \<Rightarrow> nat \<Rightarrow> nat \<Rightarrow> cron_state \<Rightarrow> cron_effect list \<times> cron_state" where
  "settle_fire t count last_due s =
     (if is_one_shot t
      then ([Fire (ct_id t) count, RemoveOneShot (ct_id t)],
            s\<lparr>sc_last_seen := jdelete (ct_id t) (sc_last_seen s), sc_seeded := removeAll (ct_id t) (sc_seeded s)\<rparr>)
      else ([Fire (ct_id t) count, AdvanceCursor (ct_id t) last_due], s\<lparr>sc_last_seen := jset (ct_id t) last_due (sc_last_seen s)\<rparr>))"

definition tick_task ::
  "zone \<Rightarrow> jitter_config \<Rightarrow> nat \<Rightarrow> (cron_task \<Rightarrow> bool) \<Rightarrow> cron_task \<Rightarrow> cron_state \<Rightarrow> (cron_effect list \<times> bool) \<times> cron_state" where
  "tick_task z config now delivered t s =
     (case parse_cron_expression (ct_cron t) of
        Inl _ \<Rightarrow> (([], False), s)
      | Inr parsed \<Rightarrow>
          (let s1 = seed_last_seen now t s;
               base = base_from t (map_of (sc_last_seen s1) (ct_id t))
           in case compute_next_cron_run z parsed base of
                None \<Rightarrow> (([], False), s1)
              | Some ideal \<Rightarrow>
                  if of_nat now < jittered_time z config t parsed ideal then (([], False), s1)
                  else
                    let (count, last_due) = (if is_one_shot t then (1, now) else count_coalesced z config t parsed ideal now)
                    in if \<not> delivered t then (([], True), s1)
                       else case settle_fire t (max 1 count) last_due s1 of (effects, s2) \<Rightarrow> ((effects, True), s2)))"

fun tick_tasks ::
  "zone \<Rightarrow> jitter_config \<Rightarrow> nat \<Rightarrow> (cron_task \<Rightarrow> bool) \<Rightarrow> cron_task list \<Rightarrow> string list \<Rightarrow> cron_state \<Rightarrow> cron_effect list \<times> cron_state" where
  "tick_tasks z config now delivered [] in_flight s = ([], s)"
| "tick_tasks z config now delivered (t # ts) in_flight s =
     (if ct_id t \<in> set in_flight then tick_tasks z config now delivered ts in_flight s
      else case tick_task z config now delivered t s of
             ((effects, fired), s1) \<Rightarrow>
               (case tick_tasks z config now delivered ts (if fired then ct_id t # in_flight else in_flight) s1 of
                  (others, s2) \<Rightarrow> (effects @ others, s2)))"

definition cron_tick ::
  "zone \<Rightarrow> jitter_config \<Rightarrow> bool \<Rightarrow> bool \<Rightarrow> nat \<Rightarrow> (cron_task \<Rightarrow> bool) \<Rightarrow> cron_task list \<Rightarrow> cron_state \<Rightarrow> cron_effect list \<times> cron_state" where
  "cron_tick z config killed idle now delivered tasks s =
     (if killed \<or> \<not> idle \<or> tasks = [] then ([], s) else tick_tasks z config now delivered tasks [] s)"

text \<open>\<open>nextFireFor\<close> and \<open>getNextFireTime\<close>.\<close>

definition next_fire_for :: "zone \<Rightarrow> jitter_config \<Rightarrow> nat \<Rightarrow> cron_task \<Rightarrow> cron_state \<Rightarrow> rat option" where
  "next_fire_for z config now t s =
     (case parse_cron_expression (ct_cron t) of
        Inl _ \<Rightarrow> None
      | Inr parsed \<Rightarrow>
          (let persisted = (case ct_last_fired_at t of Some f \<Rightarrow> if f \<le> now then Some f else None | None \<Rightarrow> None);
               cursor = (case map_of (sc_last_seen s) (ct_id t) of Some seen \<Rightarrow> Some seen | None \<Rightarrow> persisted)
           in compute_jittered_next z config t parsed (base_from t cursor)))"

fun least_some :: "rat option list \<Rightarrow> rat option" where
  "least_some [] = None"
| "least_some (None # xs) = least_some xs"
| "least_some (Some x # xs) = (case least_some xs of None \<Rightarrow> Some x | Some y \<Rightarrow> Some (min x y))"

definition get_next_fire_time :: "zone \<Rightarrow> jitter_config \<Rightarrow> nat \<Rightarrow> cron_task list \<Rightarrow> cron_state \<Rightarrow> rat option" where
  "get_next_fire_time z config now tasks s = least_some (map (\<lambda>t. next_fire_for z config now t s) tasks)"

definition get_next_fire_for_task :: "zone \<Rightarrow> jitter_config \<Rightarrow> nat \<Rightarrow> cron_task list \<Rightarrow> string \<Rightarrow> cron_state \<Rightarrow> rat option" where
  "get_next_fire_for_task z config now tasks task_id s =
     (case List.find (\<lambda>t. ct_id t = task_id) tasks of Some t \<Rightarrow> next_fire_for z config now t s | None \<Rightarrow> None)"

section \<open>How far a run is moved\<close>

lemma hex_value_bound: "hex_value c = Some d \<Longrightarrow> d < 16"
  by (auto simp: hex_value_def Let_def split: if_splits)

lemma hex_number_bound: "hex_number acc s = Some n \<Longrightarrow> n < (acc + 1) * 16 ^ length s"
proof (induction acc s rule: hex_number.induct)
  case (2 acc c cs)
  then obtain d where d: "hex_value c = Some d" "hex_number (16 * acc + d) cs = Some n"
    by (auto split: option.splits)
  have "n < (16 * acc + d + 1) * 16 ^ length cs" using 2(1) d by simp
  also have "\<dots> \<le> (16 * (acc + 1)) * 16 ^ length cs"
    using hex_value_bound [OF d(1)] by (intro mult_le_mono1) simp
  finally show ?case by (simp add: algebra_simps)
qed simp

lemma fraction_in_unit: "0 \<le> fraction_from_id i" "fraction_from_id i < 1"
proof -
  have h: "(of_nat n :: rat) / 4294967296 < 1" if "n < 4294967296" for n
    using that of_nat_less_iff [of n 4294967296, where 'a = rat] by simp
  have h0: "0 \<le> (of_nat n :: rat) / 4294967296" for n by simp
  have w: "unat (hash_of i) < 4294967296" using unsigned_less [of "hash_of i"] by simp
  show "0 \<le> fraction_from_id i" unfolding fraction_from_id_def
    by (cases "if length i = 8 then hex_number 0 i else None") (simp_all only: option.case h0)
  have n: "n < 4294967296" if "(if length i = 8 then hex_number 0 i else None) = Some n" for n
    using that hex_number_bound [of 0 i n] by (simp split: if_split_asm)
  show "fraction_from_id i < 1" unfolding fraction_from_id_def
    by (cases "if length i = 8 then hex_number 0 i else None") (simp_all only: option.case h [OF w] h [OF n])
qed
lemma recurring_jitter:
  "of_nat ideal_ms \<le> jittered_next_cron_run_ms z i parsed ideal_ms config"
  "0 \<le> jc_max_ms config \<Longrightarrow> jittered_next_cron_run_ms z i parsed ideal_ms config \<le> of_nat ideal_ms + jc_max_ms config"
  "jc_max_fraction config \<le> 1 \<Longrightarrow> compute_next_cron_run z parsed ideal_ms = Some n \<Longrightarrow> ideal_ms < n \<Longrightarrow>
     jittered_next_cron_run_ms z i parsed ideal_ms config < of_nat n"
proof -
  define f where "f = fraction_from_id i"
  have f: "0 \<le> f" "f < 1" using fraction_in_unit [of i] by (simp_all add: f_def)
  have m: "cap * f \<le> cap" "0 \<le> cap * f" "cap * f < cap" if "0 < cap" for cap
    using that f mult_left_le [of f cap] mult_strict_left_mono [of f 1 cap] by simp_all
  define period where "period = (case compute_next_cron_run z parsed ideal_ms of
                           Some n \<Rightarrow> if n > ideal_ms then n - ideal_ms else ms_per_day
                         | None \<Rightarrow> ms_per_day)"
  define cap where "cap = min (of_nat period * jc_max_fraction config) (jc_max_ms config)"
  have j: "jittered_next_cron_run_ms z i parsed ideal_ms config =
      (if jc_no_jitter config then of_nat ideal_ms else if \<not> cap > 0 then of_nat ideal_ms else of_nat ideal_ms + cap * f)"
    by (simp add: jittered_next_cron_run_ms_def Let_def cap_def period_def f_def)
  have max: "cap \<le> jc_max_ms config" by (simp add: cap_def)
  show "of_nat ideal_ms \<le> jittered_next_cron_run_ms z i parsed ideal_ms config"
    using m(2) by (simp add: j)
  show "jittered_next_cron_run_ms z i parsed ideal_ms config \<le> of_nat ideal_ms + jc_max_ms config" if "0 \<le> jc_max_ms config"
    using order_trans [OF m(1) max] that by (simp add: j)
  show "jittered_next_cron_run_ms z i parsed ideal_ms config < of_nat n"
    if small: "jc_max_fraction config \<le> 1" and n: "compute_next_cron_run z parsed ideal_ms = Some n" "ideal_ms < n"
  proof -
    have later: "(of_nat ideal_ms :: rat) < of_nat n" using n(2) by simp
    have "of_nat period = (of_nat n - of_nat ideal_ms :: rat)"
      using n by (simp add: period_def of_nat_diff)
    then have "of_nat period * jc_max_fraction config \<le> of_nat n - of_nat ideal_ms"
      using small later mult_left_le [of "jc_max_fraction config" "of_nat n - of_nat ideal_ms"] by simp
    then have "cap \<le> of_nat n - of_nat ideal_ms" by (simp add: cap_def)
    moreover have "of_nat ideal_ms + cap * f < of_nat n" if "0 < cap"
      using m(3) [OF that] calculation by linarith
    ultimately show ?thesis using later by (simp add: j)
  qed
qed

lemma one_shot_jitter:
  "one_shot_jittered_next_cron_run_ms z i c ideal_ms config \<le> of_nat ideal_ms"
  "0 \<le> jc_one_shot_max_ms config \<Longrightarrow>
     of_nat ideal_ms - jc_one_shot_max_ms config \<le> one_shot_jittered_next_cron_run_ms z i c ideal_ms config"
  "created \<le> ideal_ms \<Longrightarrow> of_nat created \<le> one_shot_jittered_next_cron_run_ms z i (Some created) ideal_ms config"
  using fraction_in_unit [of i] mult_left_le [of "fraction_from_id i" "jc_one_shot_max_ms config"]
  by (auto simp: one_shot_jittered_next_cron_run_ms_def Let_def)

text \<open>
  Jitter stays in its bounds: a recurring task fires at or after its ideal time, by at most the configured
  maximum, and always before its following ideal run where that is later, so runs keep their order; a one-shot fires at or
  before its ideal time, by at most its own maximum, and never before the task was created.
\<close>

theorem jitter_in_bounds:
  assumes "0 \<le> jc_max_ms config" "0 \<le> jc_one_shot_max_ms config" "jc_max_fraction config \<le> 1"
    and "compute_next_cron_run z parsed ideal_ms = Some n" "ideal_ms < n" "created \<le> ideal_ms"
  shows "let recurring = jittered_next_cron_run_ms z i parsed ideal_ms config;
             once = one_shot_jittered_next_cron_run_ms z i (Some created) ideal_ms config
         in of_nat ideal_ms \<le> recurring \<and> recurring \<le> of_nat ideal_ms + jc_max_ms config \<and> recurring < of_nat n
            \<and> once \<le> of_nat ideal_ms \<and> of_nat ideal_ms - jc_one_shot_max_ms config \<le> once \<and> of_nat created \<le> once"
  using assms recurring_jitter one_shot_jitter by (simp add: Let_def)

definition utc_zone :: zone where
  "utc_zone = \<lparr>zn_offset = 0, zn_changes = []\<rparr>"

lemma utc_runs_forward: "runs_forward utc_zone"
  by (rule unchanging_runs_forward) (simp_all add: utc_zone_def)

lemma every_minute_utc: "compute_next_cron_run utc_zone every_minute ms = Some ((ms div 60000 + 1) * 60000)"
  by (rule every_minute_run) (simp_all add: utc_zone_def)

theorem jitter_in_bounds_witness:
  "jittered_next_cron_run_ms utc_zone ''80000000'' every_minute 3600000 default_cron_jitter_config < 3660000"
  using jitter_in_bounds [of default_cron_jitter_config utc_zone every_minute 3600000 3660000 0 "''80000000''"]
  by (simp add: default_cron_jitter_config_def Let_def every_minute_utc)

end
