(* ===== verification/Cron_Manager.thy ===== *)
theory Cron_Manager
  imports Cron_Schedule
begin

text \<open>
  The registry of scheduled tasks and the manager that fires them (\<open>agents/src/cron/session-store.ts\<close>,
  \<open>manager.ts\<close>): what a tick of the scheduler does to the registry and what it delivers.

  The store is the insertion-ordered map of the code. Random ids are a function of the attempt.
  Saving is the list of snapshots handed to the persistence, oldest first. The effects of a tick are
  applied after the loop rather than inside it: the loop works on the list it took at the start and
  reads nothing of the store, so the order does not show.
\<close>

section \<open>The store\<close>

type_synonym cron_store = "(string, cron_task) jsmap"

definition is_cron_id :: "string \<Rightarrow> bool" where
  "is_cron_id s = (length s = 8 \<and> list_all (\<lambda>c. c \<in> set ''0123456789abcdef'') s)"

definition max_id_attempts :: nat where
  "max_id_attempts = 8"

text \<open>\<open>tries\<close> attempts are left; \<open>None\<close> is the error raised when they run out.\<close>

fun generate_unique_id :: "nat \<Rightarrow> (nat \<Rightarrow> string) \<Rightarrow> cron_store \<Rightarrow> string option" where
  "generate_unique_id 0 random st = None"
| "generate_unique_id (Suc tries) random st =
     (let candidate = random (max_id_attempts - Suc tries) in
      if \<not> is_cron_id candidate then generate_unique_id tries random st
      else if map_of st candidate = None then Some candidate
      else generate_unique_id tries random st)"

definition store_adopt :: "cron_task \<Rightarrow> cron_store \<Rightarrow> cron_store" where
  "store_adopt t st = jset (ct_id t) t st"

definition store_add :: "(nat \<Rightarrow> string) \<Rightarrow> cron_task \<Rightarrow> nat \<Rightarrow> cron_store \<Rightarrow> (cron_task \<times> cron_store) option" where
  "store_add random init now st =
     (case generate_unique_id max_id_attempts random st of
        None \<Rightarrow> None
      | Some i \<Rightarrow> (let t = init\<lparr>ct_id := i, ct_created_at := now\<rparr> in Some (t, jset i t st)))"

definition mark_fired :: "string \<Rightarrow> nat \<Rightarrow> cron_store \<Rightarrow> cron_task option \<times> cron_store" where
  "mark_fired i fired_at st =
     (case map_of st i of
        None \<Rightarrow> (None, st)
      | Some t \<Rightarrow> (let t' = t\<lparr>ct_last_fired_at := Some fired_at\<rparr> in (Some t', jset i t' st)))"

definition store_list :: "cron_store \<Rightarrow> cron_task list" where
  "store_list st = map snd st"

fun store_remove :: "string list \<Rightarrow> cron_store \<Rightarrow> string list \<times> cron_store" where
  "store_remove [] st = ([], st)"
| "store_remove (i # is) st =
     (case store_remove is (jdelete i st) of
        (removed, st') \<Rightarrow> (if map_of st i = None then (removed, st') else (i # removed, st')))"

section \<open>The manager\<close>

record cron_manager =
  cm_store :: cron_store
  cm_schedule :: cron_state
  cm_saves :: "cron_task list list"

record cron_delivery =
  cd_job_id :: string
  cd_cron :: string
  cd_recurring :: bool
  cd_coalesced_count :: nat
  cd_stale :: bool
  cd_prompt :: string

definition new_cron_manager :: cron_manager where
  "new_cron_manager = \<lparr>cm_store = [], cm_schedule = empty_schedule, cm_saves = []\<rparr>"

definition persist_snapshot :: "cron_manager \<Rightarrow> cron_manager" where
  "persist_snapshot m = m\<lparr>cm_saves := cm_saves m @ [store_list (cm_store m)]\<rparr>"

definition add_cron_task :: "(nat \<Rightarrow> string) \<Rightarrow> cron_task \<Rightarrow> nat \<Rightarrow> cron_manager \<Rightarrow> (cron_task \<times> cron_manager) option" where
  "add_cron_task random init now m =
     map_option (\<lambda>(t, st). (t, persist_snapshot (m\<lparr>cm_store := st\<rparr>))) (store_add random init now (cm_store m))"

definition remove_tasks :: "string list \<Rightarrow> cron_manager \<Rightarrow> string list \<times> cron_manager" where
  "remove_tasks ids m =
     (case store_remove ids (cm_store m) of
        (removed, st) \<Rightarrow>
          (let m' = m\<lparr>cm_store := st\<rparr> in (removed, if removed \<noteq> [] then persist_snapshot m' else m')))"

definition advance_cursor :: "string \<Rightarrow> nat \<Rightarrow> cron_manager \<Rightarrow> cron_manager" where
  "advance_cursor i fired_at m =
     (case mark_fired i fired_at (cm_store m) of
        (None, st) \<Rightarrow> m
      | (Some t, st) \<Rightarrow> persist_snapshot (m\<lparr>cm_store := st\<rparr>))"

definition load_persisted :: "cron_task list \<Rightarrow> cron_manager \<Rightarrow> cron_manager" where
  "load_persisted tasks m = m\<lparr>cm_store := fold store_adopt tasks []\<rparr>"

definition stale_threshold_ms :: nat where
  "stale_threshold_ms = 7 * 24 * 60 * 60 * 1000"

definition is_stale :: "bool \<Rightarrow> nat \<Rightarrow> cron_task \<Rightarrow> bool" where
  "is_stale no_stale now t = (\<not> no_stale \<and> \<not> is_one_shot t \<and> int now - int (ct_created_at t) \<ge> int stale_threshold_ms)"

definition handle_fire :: "bool \<Rightarrow> nat \<Rightarrow> cron_task \<Rightarrow> nat \<Rightarrow> cron_manager \<Rightarrow> cron_delivery \<times> cron_manager" where
  "handle_fire no_stale now t count m =
     (let stale = is_stale no_stale now t; recurring = (\<not> is_one_shot t) in
      (\<lparr>cd_job_id = ct_id t, cd_cron = ct_cron t, cd_recurring = recurring, cd_coalesced_count = count, cd_stale = stale,
        cd_prompt = ct_prompt t\<rparr>,
       if stale \<and> recurring then snd (remove_tasks [ct_id t] m) else m))"

text \<open>The callbacks of a tick, on the task of the list the tick took.\<close>

fun run_effect :: "bool \<Rightarrow> nat \<Rightarrow> cron_task list \<Rightarrow> cron_effect \<Rightarrow> cron_manager \<Rightarrow> cron_delivery list \<times> cron_manager" where
  "run_effect no_stale now tasks (Fire i count) m =
     (case List.find (\<lambda>t. ct_id t = i) tasks of
        None \<Rightarrow> ([], m)
      | Some t \<Rightarrow> (case handle_fire no_stale now t count m of (d, m') \<Rightarrow> ([d], m')))"
| "run_effect no_stale now tasks (RemoveOneShot i) m = ([], snd (remove_tasks [i] m))"
| "run_effect no_stale now tasks (AdvanceCursor i fired_at) m = ([], advance_cursor i fired_at m)"

fun run_effects :: "bool \<Rightarrow> nat \<Rightarrow> cron_task list \<Rightarrow> cron_effect list \<Rightarrow> cron_manager \<Rightarrow> cron_delivery list \<times> cron_manager" where
  "run_effects no_stale now tasks [] m = ([], m)"
| "run_effects no_stale now tasks (e # es) m =
     (case run_effect no_stale now tasks e m of
        (ds, m1) \<Rightarrow> (case run_effects no_stale now tasks es m1 of (ds', m2) \<Rightarrow> (ds @ ds', m2)))"

definition manager_tick ::
  "zone \<Rightarrow> jitter_config \<Rightarrow> bool \<Rightarrow> bool \<Rightarrow> bool \<Rightarrow> (cron_task \<Rightarrow> bool) \<Rightarrow> nat \<Rightarrow> cron_manager \<Rightarrow> cron_delivery list \<times> cron_manager" where
  "manager_tick z config no_stale killed idle delivered now m =
     (case cron_tick z config killed idle now delivered (store_list (cm_store m)) (cm_schedule m) of
        (effects, sched) \<Rightarrow> run_effects no_stale now (store_list (cm_store m)) effects (m\<lparr>cm_schedule := sched\<rparr>))"

section \<open>One task of a tick\<close>

text \<open>A recorded run is in the past, and the schedule remembers a run of every task it has seen run.\<close>

definition timely :: "nat \<Rightarrow> cron_state \<Rightarrow> cron_task \<Rightarrow> bool" where
  "timely now s t \<longleftrightarrow>
     (case ct_last_fired_at t of
        None \<Rightarrow> True
      | Some f \<Rightarrow> f \<le> now \<and> (ct_id t \<in> set (sc_seeded s) \<longrightarrow> map_of (sc_last_seen s) (ct_id t) \<noteq> None))"

definition due :: "zone \<Rightarrow> jitter_config \<Rightarrow> nat \<Rightarrow> cron_state \<Rightarrow> cron_task \<Rightarrow> bool" where
  "due z config now s t = (case next_fire_for z config now t s of None \<Rightarrow> False | Some r \<Rightarrow> r \<le> of_nat now)"

text \<open>Two states of the schedule that say the same of a task.\<close>

definition agree :: "string \<Rightarrow> cron_state \<Rightarrow> cron_state \<Rightarrow> bool" where
  "agree i s s' \<longleftrightarrow> map_of (sc_last_seen s) i = map_of (sc_last_seen s') i \<and> (i \<in> set (sc_seeded s) \<longleftrightarrow> i \<in> set (sc_seeded s'))"

lemma agree_refl [simp]: "agree i s s"
  by (simp add: agree_def)

lemma agree_trans: "agree i s1 s2 \<Longrightarrow> agree i s2 s3 \<Longrightarrow> agree i s1 s3"
  by (simp add: agree_def)

lemma agree_sym: "agree i s1 s2 \<Longrightarrow> agree i s2 s1"
  by (simp add: agree_def)

lemma timely_agree: "agree (ct_id t) s s' \<Longrightarrow> timely now s t = timely now s' t"
  by (simp add: agree_def timely_def split: option.split)

lemma next_fire_for_agree: "agree (ct_id t) s s' \<Longrightarrow> next_fire_for z config now t s = next_fire_for z config now t s'"
  by (simp add: agree_def next_fire_for_def Let_def split: sum.split)

lemma due_agree: "agree (ct_id t) s s' \<Longrightarrow> due z config now s t = due z config now s' t"
  by (simp add: due_def next_fire_for_agree [of t s s'])

lemma seed_agree: "agree (ct_id t) s s' \<Longrightarrow> agree (ct_id t) (seed_last_seen now t s) (seed_last_seen now t s')"
  by (auto simp: agree_def seed_last_seen_def Let_def split: option.split)

lemma seed_other: "i \<noteq> ct_id t \<Longrightarrow> agree i (seed_last_seen now t s) s"
  by (auto simp: agree_def seed_last_seen_def Let_def split: option.split)

lemma tick_task_other: "tick_task z config now delivered t s = (r, s') \<Longrightarrow> i \<noteq> ct_id t \<Longrightarrow> agree i s' s"
  using seed_other [of i t now s]
  by (auto simp: tick_task_def settle_fire_def Let_def agree_def split: sum.splits option.splits if_splits prod.splits)

lemma tick_task_agree:
  "agree (ct_id t) s s' \<Longrightarrow> fst (tick_task z config now delivered t s) = fst (tick_task z config now delivered t s')
     \<and> agree (ct_id t) (snd (tick_task z config now delivered t s)) (snd (tick_task z config now delivered t s'))"
  using seed_agree [of t s s' now]
  by (auto simp: tick_task_def settle_fire_def Let_def agree_def split: sum.splits option.splits if_splits prod.splits)

lemma coalesce_ends:
  "coalesce z config t parsed now count cursor = (c, d) \<Longrightarrow> \<not> is_one_shot t \<Longrightarrow>
     count \<le> c \<and> (runs_forward z \<longrightarrow> cursor \<le> d) \<and> (cursor \<le> now \<longrightarrow> d \<le> now) \<and>
     (c < max_coalesce_iterations \<longrightarrow>
        (case compute_next_cron_run z parsed d of None \<Rightarrow> True | Some n \<Rightarrow> of_nat now < jittered_time z config t parsed n))"
proof (induction z config t parsed now count cursor rule: coalesce.induct)
  case (1 z config t parsed now count cursor)
  note keep = 1(3)
  show ?case
  proof (cases "count < max_coalesce_iterations")
    case False
    then show ?thesis using 1(2) by (simp add: coalesce.simps [of z config t parsed now count])
  next
    case under: True
    show ?thesis
    proof (cases "compute_next_cron_run z parsed cursor")
      case None
      then show ?thesis using 1(2) under by (simp add: coalesce.simps [of z config t parsed now count])
    next
      case (Some n)
      have late: "n > now \<Longrightarrow> of_nat now < jittered_time z config t parsed n"
        using recurring_jitter(1) [of n z "ct_id t" parsed config] keep
        by (simp add: jittered_time_def order.strict_trans2)
      show ?thesis
      proof (cases "n > now \<or> jittered_time z config t parsed n > of_nat now")
        case True
        then show ?thesis using 1(2) under Some late by (auto simp: coalesce.simps [of z config t parsed now count])
      next
        case False
        then have "coalesce z config t parsed now (count + 1) n = (c, d)"
          using 1(2) under Some by (simp add: coalesce.simps [of z config t parsed now count])
        from 1(1) [OF _ Some False this keep] under False next_run_later [OF _ Some] show ?thesis by fastforce
      qed
    qed
  qed
qed

lemma seeded_cursor:
  assumes "timely now s t"
  shows "map_of (sc_last_seen (seed_last_seen now t s)) (ct_id t) =
    (case map_of (sc_last_seen s) (ct_id t) of
       Some seen \<Rightarrow> Some seen
     | None \<Rightarrow> (case ct_last_fired_at t of Some f \<Rightarrow> if f \<le> now then Some f else None | None \<Rightarrow> None))"
  using assms by (auto simp: timely_def seed_last_seen_def Let_def split: option.split)

lemma next_fire_for_seeded:
  assumes "timely now s t" "parse_cron_expression (ct_cron t) = Inr parsed"
  shows "next_fire_for z config now t s =
    compute_jittered_next z config t parsed (base_from t (map_of (sc_last_seen (seed_last_seen now t s)) (ct_id t)))"
  using assms by (simp add: next_fire_for_def seeded_cursor Let_def split: option.split)

text \<open>The three things a tick can do with a task.\<close>

lemma tick_task_waits:
  assumes "timely now s t" "\<not> due z config now s t"
  shows "\<exists>s'. tick_task z config now delivered t s = (([], False), s') \<and> next_fire_for z config now t s' = next_fire_for z config now t s
    \<and> timely now s' t"
proof (cases "parse_cron_expression (ct_cron t)")
  case (Inl e)
  then show ?thesis using assms by (simp add: tick_task_def)
next
  case (Inr parsed)
  define s1 where "s1 = seed_last_seen now t s"
  have t1: "timely now s1 t" using assms(1) by (auto simp: s1_def timely_def seed_last_seen_def Let_def split: option.split)
  have "map_of (sc_last_seen (seed_last_seen now t s1)) (ct_id t) = map_of (sc_last_seen s1) (ct_id t)"
    unfolding seeded_cursor [OF t1] using seeded_cursor [OF assms(1)] by (auto simp: s1_def split: option.split)
  then have "next_fire_for z config now t s1 = next_fire_for z config now t s"
    by (simp only: next_fire_for_seeded [OF t1 Inr] next_fire_for_seeded [OF assms(1) Inr] s1_def [symmetric])
  moreover have "tick_task z config now delivered t s = (([], False), s1)"
    using assms(2) Inr
    by (auto simp: tick_task_def Let_def s1_def due_def next_fire_for_seeded [OF assms(1) Inr] compute_jittered_next_def
        split: option.splits)
  ultimately show ?thesis using t1 by blast
qed

lemma tick_task_fires_once:
  assumes "timely now s t" "due z config now s t" "is_one_shot t" "delivered t"
  shows "\<exists>s'. tick_task z config now delivered t s = (([Fire (ct_id t) 1, RemoveOneShot (ct_id t)], True), s')"
proof -
  obtain parsed where p: "parse_cron_expression (ct_cron t) = Inr parsed"
    using assms(2) by (auto simp: due_def next_fire_for_def split: sum.splits)
  show ?thesis
    using assms p
    by (auto simp: tick_task_def Let_def settle_fire_def due_def next_fire_for_seeded [OF assms(1) p] compute_jittered_next_def
        split: option.splits)
qed

lemma tick_task_fires:
  assumes "timely now s t" "due z config now s t" "\<not> is_one_shot t" "delivered t"
  shows "\<exists>s' c d. tick_task z config now delivered t s = (([Fire (ct_id t) c, AdvanceCursor (ct_id t) d], True), s')
    \<and> map_of (sc_last_seen s') (ct_id t) = Some d \<and> d \<le> now
    \<and> (runs_forward z \<longrightarrow> c < max_coalesce_iterations \<longrightarrow> \<not> due z config now s' t)"
proof -
  obtain parsed where p: "parse_cron_expression (ct_cron t) = Inr parsed"
    using assms(2) by (auto simp: due_def next_fire_for_def split: sum.splits)
  define s1 where "s1 = seed_last_seen now t s"
  define base where "base = base_from t (map_of (sc_last_seen s1) (ct_id t))"
  have nf: "next_fire_for z config now t s = compute_jittered_next z config t parsed base"
    using next_fire_for_seeded [OF assms(1) p] by (simp add: base_def s1_def)
  then obtain ideal where i: "compute_next_cron_run z parsed base = Some ideal" "jittered_time z config t parsed ideal \<le> of_nat now"
    using assms(2) by (auto simp: due_def compute_jittered_next_def split: option.splits)
  obtain c d where cd: "count_coalesced z config t parsed ideal now = (c, d)" by fastforce
  define s' where "s' = s1\<lparr>sc_last_seen := jset (ct_id t) d (sc_last_seen s1)\<rparr>"
  have "(of_nat ideal :: rat) \<le> of_nat now"
    using i(2) recurring_jitter(1) [of ideal z "ct_id t" parsed config] assms(3) by (simp add: jittered_time_def)
  then have ends: "1 \<le> c" "runs_forward z \<longrightarrow> ideal \<le> d" "d \<le> now" "c < max_coalesce_iterations \<longrightarrow>
        (case compute_next_cron_run z parsed d of None \<Rightarrow> True | Some n \<Rightarrow> of_nat now < jittered_time z config t parsed n)"
    using coalesce_ends [OF cd [unfolded count_coalesced_def] assms(3)] by simp_all
  have base: "ct_created_at t \<le> base" by (simp add: base_def base_from_def split: option.split)
  then have created: "runs_forward z \<Longrightarrow> ct_created_at t < d" using next_run_later [OF _ i(1)] ends(2) by fastforce
  have "tick_task z config now delivered t s = (([Fire (ct_id t) c, AdvanceCursor (ct_id t) d], True), s')"
    using p i cd ends(1) assms(3,4)
    by (simp add: tick_task_def Let_def settle_fire_def s1_def [symmetric] base_def [symmetric] s'_def max_def)
  moreover have "runs_forward z \<Longrightarrow> next_fire_for z config now t s' = compute_jittered_next z config t parsed d"
    using created p by (simp add: next_fire_for_def s'_def base_from_def)
  then have "runs_forward z \<longrightarrow> c < max_coalesce_iterations \<longrightarrow> \<not> due z config now s' t"
    using ends(4) by (auto simp: due_def compute_jittered_next_def split: option.splits)
  ultimately show ?thesis using ends(3) by (intro exI [of _ s'] exI [of _ c] exI [of _ d]) (simp add: s'_def)
qed

section \<open>A whole tick\<close>

abbreviation effects_of :: "zone \<Rightarrow> jitter_config \<Rightarrow> nat \<Rightarrow> (cron_task \<Rightarrow> bool) \<Rightarrow> cron_state \<Rightarrow> cron_task \<Rightarrow> cron_effect list" where
  "effects_of z config now delivered s t \<equiv> fst (fst (tick_task z config now delivered t s))"

text \<open>Tasks of different ids do not meet: a tick does with each what it would do alone.\<close>

lemma tick_tasks_apart:
  "tick_tasks z config now delivered ts in_flight s = (effects, s') \<Longrightarrow> distinct (map ct_id ts) \<Longrightarrow>
     set in_flight \<inter> ct_id ` set ts = {} \<Longrightarrow>
     effects = concat (map (effects_of z config now delivered s) ts)
     \<and> (\<forall>t \<in> set ts. agree (ct_id t) s' (snd (tick_task z config now delivered t s)))
     \<and> (\<forall>i. i \<notin> ct_id ` set ts \<longrightarrow> agree i s' s)"
proof (induction ts arbitrary: in_flight s effects)
  case Nil
  then show ?case by simp
next
  case (Cons t ts)
  obtain e f s1 where t: "tick_task z config now delivered t s = ((e, f), s1)" by (metis prod.exhaust)
  obtain es where rest: "tick_tasks z config now delivered ts (if f then ct_id t # in_flight else in_flight) s1 = (es, s')"
    "effects = e @ es"
    using Cons.prems(1,3) t by (auto split: prod.splits)
  have IH: "es = concat (map (effects_of z config now delivered s1) ts)"
    "\<forall>u \<in> set ts. agree (ct_id u) s' (snd (tick_task z config now delivered u s1))"
    "\<forall>i. i \<notin> ct_id ` set ts \<longrightarrow> agree i s' s1"
    using Cons.IH [OF rest(1)] Cons.prems(2,3) by (auto split: if_splits)
  have other: "agree i s1 s" if "i \<noteq> ct_id t" for i
    using tick_task_other [OF t that] .
  have apart: "ct_id u \<noteq> ct_id t" if "u \<in> set ts" for u
    using Cons.prems(2) that by (auto simp: image_iff)
  have same: "effects_of z config now delivered s1 u = effects_of z config now delivered s u"
    "agree (ct_id u) (snd (tick_task z config now delivered u s1)) (snd (tick_task z config now delivered u s))"
    if "u \<in> set ts" for u
    using tick_task_agree [OF other [OF apart [OF that]], of z config now delivered] by simp_all
  have "concat (map (effects_of z config now delivered s1) ts) = concat (map (effects_of z config now delivered s) ts)"
    using same(1) by (simp cong: map_cong)
  moreover have "agree (ct_id u) s' (snd (tick_task z config now delivered u s))" if "u \<in> set (t # ts)" for u
  proof (cases "u = t")
    case True
    then show ?thesis using IH(3) Cons.prems(2) t by simp
  next
    case False
    then have "u \<in> set ts" using that by simp
    then show ?thesis using IH(2) same(2) agree_trans by blast
  qed
  moreover have "agree i s' s" if "i \<notin> ct_id ` set (t # ts)" for i
    using agree_trans [OF IH(3) [rule_format] other] that by simp
  ultimately show ?case using rest(2) IH(1) t by simp
qed

text \<open>The callbacks, by the id they are about.\<close>

fun about :: "cron_effect \<Rightarrow> string" where
  "about (Fire i _) = i"
| "about (RemoveOneShot i) = i"
| "about (AdvanceCursor i _) = i"

lemma run_effects_append:
  "run_effects no_stale now tasks (es @ es') m =
     (case run_effects no_stale now tasks es m of
        (ds, m1) \<Rightarrow> (case run_effects no_stale now tasks es' m1 of (ds', m2) \<Rightarrow> (ds @ ds', m2)))"
  by (induction es arbitrary: m) (auto split: prod.splits)

lemma store_remove_one: "store_remove [i] st = ((if map_of st i = None then [] else [i]), jdelete i st)"
  by (simp add: split: prod.split)

lemma remove_tasks_store [simp]:
  "cm_store (snd (remove_tasks [i] m)) = jdelete i (cm_store m)"
  "cm_schedule (snd (remove_tasks ids m)) = cm_schedule m"
  by (simp_all add: remove_tasks_def persist_snapshot_def Let_def store_remove_one split: prod.split)

lemma advance_cursor_store [simp]:
  "cm_schedule (advance_cursor i d m) = cm_schedule m"
  "map_of (cm_store (advance_cursor i d m)) k =
     (if k = i then map_option (\<lambda>t. t\<lparr>ct_last_fired_at := Some d\<rparr>) (map_of (cm_store m) i) else map_of (cm_store m) k)"
  by (auto simp: advance_cursor_def mark_fired_def persist_snapshot_def Let_def split: option.split prod.split)

lemma run_effect_schedule: "run_effect no_stale now tasks e m = (ds, m') \<Longrightarrow> cm_schedule m' = cm_schedule m"
  by (cases e) (auto simp: handle_fire_def Let_def split: option.splits prod.splits if_splits)

lemma run_effects_schedule: "run_effects no_stale now tasks es m = (ds, m') \<Longrightarrow> cm_schedule m' = cm_schedule m"
  by (induction es arbitrary: m ds) (auto dest!: run_effect_schedule split: prod.splits)

lemma run_effect_other:
  "run_effect no_stale now tasks e m = (ds, m') \<Longrightarrow> i \<noteq> about e \<Longrightarrow> map_of (cm_store m') i = map_of (cm_store m) i"
  by (cases e) (auto simp: handle_fire_def Let_def find_Some_iff split: option.splits prod.splits if_splits)

lemma run_effects_other:
  "run_effects no_stale now tasks es m = (ds, m') \<Longrightarrow> i \<notin> about ` set es \<Longrightarrow> map_of (cm_store m') i = map_of (cm_store m) i"
  by (induction es arbitrary: m ds) (auto dest!: run_effect_other split: prod.splits)

text \<open>A registry: each task under its id.\<close>

definition registry_ok :: "cron_store \<Rightarrow> bool" where
  "registry_ok st \<longleftrightarrow> jmap_ok st \<and> (\<forall>(i, t) \<in> set st. ct_id t = i)"

lemma registry_ids: "registry_ok st \<Longrightarrow> map ct_id (store_list st) = map fst st"
  by (auto simp: registry_ok_def store_list_def)

lemma registry_lookup: "registry_ok st \<Longrightarrow> t \<in> set (store_list st) \<longleftrightarrow> map_of st (ct_id t) = Some t"
  by (auto simp: registry_ok_def store_list_def jget_iff_mem image_iff split_beta) force

lemma registry_ok_jdelete: "registry_ok st \<Longrightarrow> registry_ok (jdelete i st)"
  using jmap_ok_jdelete [of st i] unfolding registry_ok_def by (auto simp: AList.delete_eq)

lemma registry_ok_jset: "registry_ok st \<Longrightarrow> ct_id t = i \<Longrightarrow> registry_ok (jset i t st)"
  unfolding registry_ok_def
proof (intro conjI ballI)
  fix p assume a: "jmap_ok st \<and> (\<forall>(i, t) \<in> set st. ct_id t = i)" "ct_id t = i" "p \<in> set (jset i t st)"
  have "map_of (jset i t st) (fst p) = Some (snd p)"
    using a(1,3) by (intro map_of_is_SomeI) (simp_all add: jmap_ok_jset)
  then show "case p of (i, t) \<Rightarrow> ct_id t = i"
    using a(1,2) by (auto split: if_splits dest!: map_of_SomeD)
qed simp

lemma run_effect_registry:
  "run_effect no_stale now tasks e m = (ds, m') \<Longrightarrow> registry_ok (cm_store m) \<Longrightarrow> registry_ok (cm_store m')"
proof (cases e)
  case (AdvanceCursor i d)
  assume "run_effect no_stale now tasks e m = (ds, m')" "registry_ok (cm_store m)"
  moreover have "ct_id t = i" if "registry_ok st" "map_of st i = Some t" for st t
    using that by (auto simp: registry_ok_def dest!: map_of_SomeD)
  ultimately show ?thesis using AdvanceCursor
    by (auto simp: advance_cursor_def mark_fired_def persist_snapshot_def Let_def
        intro!: registry_ok_jset split: option.splits prod.splits)
qed (auto simp: handle_fire_def Let_def registry_ok_jdelete split: option.splits prod.splits if_splits)

lemma run_effects_registry:
  "run_effects no_stale now tasks es m = (ds, m') \<Longrightarrow> registry_ok (cm_store m) \<Longrightarrow> registry_ok (cm_store m')"
  by (induction es arbitrary: m ds) (auto dest!: run_effect_registry split: prod.splits)

text \<open>The other operations keep it too; a new task gets an id no other has.\<close>

lemma generate_unique_id_fresh: "generate_unique_id tries random st = Some i \<Longrightarrow> map_of st i = None \<and> is_cron_id i"
  by (induction tries random st rule: generate_unique_id.induct) (auto simp: Let_def split: if_splits)

lemma store_add_registry:
  "registry_ok st \<Longrightarrow> store_add random init now st = Some (t, st') \<Longrightarrow> registry_ok st' \<and> store_list st' = store_list st @ [t]"
  using generate_unique_id_fresh [of max_id_attempts random st "ct_id t"]
  by (auto simp: store_add_def Let_def registry_ok_def jset_absent store_list_def map_of_eq_None_iff split: option.splits)

lemma load_persisted_registry: "registry_ok (cm_store (load_persisted tasks m))"
proof -
  have "registry_ok st \<Longrightarrow> registry_ok (fold store_adopt tasks st)" for st
    by (induction tasks arbitrary: st) (simp_all add: store_adopt_def registry_ok_jset)
  from this [of "[]"] show ?thesis by (simp add: load_persisted_def registry_ok_def)
qed

text \<open>What is delivered, in the order of the effects.\<close>

definition deliveries_of :: "bool \<Rightarrow> nat \<Rightarrow> cron_task list \<Rightarrow> cron_effect \<Rightarrow> cron_delivery list" where
  "deliveries_of no_stale now tasks e = fst (run_effect no_stale now tasks e new_cron_manager)"

lemma run_effect_deliveries: "fst (run_effect no_stale now tasks e m) = deliveries_of no_stale now tasks e"
  by (cases e) (simp_all add: deliveries_of_def handle_fire_def Let_def split: option.split)

lemma run_effects_deliveries:
  "fst (run_effects no_stale now tasks es m) = concat (map (deliveries_of no_stale now tasks) es)"
proof (induction es arbitrary: m)
  case (Cons e es)
  obtain ds m1 where e: "run_effect no_stale now tasks e m = (ds, m1)" by fastforce
  then have "deliveries_of no_stale now tasks e = ds" using run_effect_deliveries [of no_stale now tasks e m] by simp
  then show ?case using Cons [of m1] e by (auto split: prod.split)
qed simp

lemma find_by_id: "distinct (map ct_id ts) \<Longrightarrow> t \<in> set ts \<Longrightarrow> List.find (\<lambda>u. ct_id u = ct_id t) ts = Some t"
  by (induction ts) auto

text \<open>The effects for one task of the tick.\<close>

lemma effects_about: "e \<in> set (effects_of z config now delivered s t) \<Longrightarrow> about e = ct_id t"
  by (auto simp: tick_task_def settle_fire_def Let_def split: sum.splits option.splits if_splits prod.splits)

lemma effects_cases:
  assumes "timely now s t" "delivered t"
  obtains (waits) "\<not> due z config now s t" "effects_of z config now delivered s t = []"
  | (once) "due z config now s t" "is_one_shot t" "effects_of z config now delivered s t = [Fire (ct_id t) 1, RemoveOneShot (ct_id t)]"
  | (again) c d where "due z config now s t" "effects_of z config now delivered s t = [Fire (ct_id t) c, AdvanceCursor (ct_id t) d]"
      "map_of (sc_last_seen (snd (tick_task z config now delivered t s))) (ct_id t) = Some d" "d \<le> now"
      "runs_forward z \<longrightarrow> c < max_coalesce_iterations \<longrightarrow> \<not> due z config now (snd (tick_task z config now delivered t s)) t"
  using tick_task_waits [OF assms(1)] tick_task_fires_once [OF assms(1)] tick_task_fires [OF assms(1)] assms(2)
  by (cases "due z config now s t"; cases "is_one_shot t") (metis fst_conv snd_conv)+

text \<open>The registry after a tick in which everything due was delivered.\<close>

lemma concat_about:
  assumes "\<And>t e. e \<in> set (f t) \<Longrightarrow> about e = ct_id t" "distinct (map ct_id ts)" "t \<in> set ts"
  obtains us vs where "concat (map f ts) = us @ f t @ vs" "ct_id t \<notin> about ` set us" "ct_id t \<notin> about ` set vs"
proof -
  obtain as bs where ts: "ts = as @ t # bs" using assms(3) by (auto dest: split_list)
  have "ct_id t \<notin> about ` set (concat (map f as))" "ct_id t \<notin> about ` set (concat (map f bs))"
    using assms(1,2) ts by (auto simp: image_iff)
  then show ?thesis using that ts by simp
qed

lemma mark_fired_keeps [simp]:
  "is_one_shot (t\<lparr>ct_last_fired_at := f\<rparr>) = is_one_shot t"
  "base_from (t\<lparr>ct_last_fired_at := f\<rparr>) = base_from t"
  "jittered_time z config (t\<lparr>ct_last_fired_at := f\<rparr>) = jittered_time z config t"
  by (auto simp: is_one_shot_def base_from_def jittered_time_def fun_eq_iff split: option.split)

lemma task_after_tick:
  assumes t: "timely now s t" "delivered t" and tasks: "distinct (map ct_id tasks)" "t \<in> set tasks"
    and run: "run_effects no_stale now tasks (effects_of z config now delivered s t) m = (ds, m')"
    and m: "map_of (cm_store m) (ct_id t) = Some t" and left: "map_of (cm_store m') (ct_id t) = Some t'"
    and sched: "agree (ct_id t) s' (snd (tick_task z config now delivered t s))"
    and few: "\<forall>d \<in> set ds. cd_coalesced_count d < max_coalesce_iterations" and forward: "runs_forward z"
  shows "timely now s' t' \<and> \<not> due z config now s' t'"
  using t
proof (cases rule: effects_cases [where z = z and config = config])
  case waits
  obtain s1 where s1: "tick_task z config now delivered t s = (([], False), s1)"
    "next_fire_for z config now t s1 = next_fire_for z config now t s" "timely now s1 t"
    using tick_task_waits [OF t(1) waits(1)] by blast
  have "t' = t" using waits(2) run m left by simp
  then show ?thesis
    using s1 sched waits(1) timely_agree [of t s' s1] next_fire_for_agree [of t s' s1] by (simp add: due_def)
next
  case once
  then have "map_of (cm_store m') (ct_id t) = None"
    using run find_by_id [OF tasks] by (auto split: prod.splits)
  then show ?thesis using left by simp
next
  case (again c d)
  define s1 where "s1 = snd (tick_task z config now delivered t s)"
  obtain dl m1 where fire: "handle_fire no_stale now t c m = (dl, m1)" by fastforce
  have run': "ds = [dl]" "m' = advance_cursor (ct_id t) d m1"
    using again(2) run find_by_id [OF tasks] fire by (auto split: prod.splits)
  have "t' = t\<lparr>ct_last_fired_at := Some d\<rparr>"
    using left m fire run'(2) by (auto simp: handle_fire_def Let_def split: if_splits)
  moreover have "c < max_coalesce_iterations"
    using few fire run'(1) by (auto simp: handle_fire_def Let_def)
  then have "\<not> due z config now s1 t" using again(5) forward by (simp add: s1_def)
  moreover have "next_fire_for z config now (t\<lparr>ct_last_fired_at := Some d\<rparr>) s1 = next_fire_for z config now t s1"
    using again(3)
    by (simp add: s1_def next_fire_for_def compute_jittered_next_def Let_def split: sum.split)
  moreover have "timely now s1 (t\<lparr>ct_last_fired_at := Some d\<rparr>)" using again(3,4) by (simp add: timely_def s1_def)
  moreover have "agree (ct_id t') s' s1" using sched calculation(1) by (simp add: s1_def)
  ultimately show ?thesis
    using timely_agree [of t' s' s1] next_fire_for_agree [of t' s' s1] by (simp add: due_def)
qed

lemma concat_if_filter: "\<forall>t \<in> set ts. f t = (if P t then [g t] else []) \<Longrightarrow> concat (map f ts) = map g (filter P ts)"
  by (induction ts) simp_all

lemma concat_concat: "concat (concat xss) = concat (map concat xss)"
  by (induction xss) simp_all

lemma tick_delivers:
  assumes reg: "registry_ok (cm_store m)" and timely: "\<forall>t \<in> set (store_list (cm_store m)). timely now (cm_schedule m) t"
    and tick: "manager_tick z config no_stale False True (\<lambda>_. True) now m = (ds, m')"
  shows "map cd_job_id ds = map ct_id (filter (due z config now (cm_schedule m)) (store_list (cm_store m)))"
    and "runs_forward z \<Longrightarrow> (\<forall>d \<in> set ds. cd_coalesced_count d < max_coalesce_iterations) \<Longrightarrow> registry_ok (cm_store m')
      \<and> (\<forall>t \<in> set (store_list (cm_store m')). timely now (cm_schedule m') t \<and> \<not> due z config now (cm_schedule m') t)"
proof -
  define tasks where "tasks = store_list (cm_store m)"
  define effects where "effects = effects_of z config now (\<lambda>_. True) (cm_schedule m)"
  obtain es sched where es: "cron_tick z config False True now (\<lambda>_. True) tasks (cm_schedule m) = (es, sched)" by fastforce
  have ids: "distinct (map ct_id tasks)"
    using reg registry_ids [OF reg] by (simp add: tasks_def registry_ok_def)
  have apart: "es = concat (map effects tasks)"
    "\<forall>t \<in> set tasks. agree (ct_id t) sched (snd (tick_task z config now (\<lambda>_. True) t (cm_schedule m)))"
    using es tick_tasks_apart [of z config now "\<lambda>_. True" tasks "[]" "cm_schedule m" es sched] ids
    by (auto simp: cron_tick_def effects_def split: if_splits)
  have run: "run_effects no_stale now tasks es (m\<lparr>cm_schedule := sched\<rparr>) = (ds, m')"
    using tick es by (simp add: manager_tick_def tasks_def)
  have each: "map cd_job_id (concat (map (deliveries_of no_stale now tasks) (effects t))) =
      (if due z config now (cm_schedule m) t then [ct_id t] else [])" if t: "t \<in> set tasks" for t
  proof -
    have "timely now (cm_schedule m) t" "(\<lambda>_. True) t" using timely t by (simp_all add: tasks_def)
    then show ?thesis
      by (cases rule: effects_cases [where z = z and config = config])
        (simp_all add: effects_def deliveries_of_def handle_fire_def Let_def find_by_id [OF ids t])
  qed
  have "map cd_job_id ds = concat (map (\<lambda>t. map cd_job_id (concat (map (deliveries_of no_stale now tasks) (effects t)))) tasks)"
    using run_effects_deliveries [of no_stale now tasks es "m\<lparr>cm_schedule := sched\<rparr>"] run apart(1)
    by (simp add: map_concat comp_def concat_concat)
  also have "\<dots> = map ct_id (filter (due z config now (cm_schedule m)) tasks)"
    using each by (intro concat_if_filter) blast
  finally show "map cd_job_id ds = map ct_id (filter (due z config now (cm_schedule m)) (store_list (cm_store m)))"
    by (simp add: tasks_def)
  show "registry_ok (cm_store m') \<and> (\<forall>t \<in> set (store_list (cm_store m')). timely now (cm_schedule m') t \<and> \<not> due z config now (cm_schedule m') t)"
    if forward: "runs_forward z" and few: "\<forall>d \<in> set ds. cd_coalesced_count d < max_coalesce_iterations"
  proof (intro conjI ballI)
    show reg': "registry_ok (cm_store m')" using run_effects_registry [OF run] reg by simp
    fix t' assume t': "t' \<in> set (store_list (cm_store m'))"
    have lookup: "map_of (cm_store m') (ct_id t') = Some t'" using registry_lookup [OF reg'] t' by blast
    have "ct_id t' \<in> ct_id ` set tasks"
    proof (rule ccontr)
      assume no: "ct_id t' \<notin> ct_id ` set tasks"
      then have "ct_id t' \<notin> about ` set es"
        using apart(1) effects_about by (fastforce simp: effects_def)
      then have "map_of (cm_store m) (ct_id t') = Some t'" using run_effects_other [OF run] lookup by simp
      then show False using registry_lookup [OF reg, of t'] no by (auto simp: tasks_def)
    qed
    then obtain t where t: "t \<in> set tasks" "ct_id t = ct_id t'" by auto
    obtain us vs where split: "es = us @ effects t @ vs" "ct_id t \<notin> about ` set us" "ct_id t \<notin> about ` set vs"
      using concat_about [of effects tasks t] effects_about ids t(1) apart(1) by (metis effects_def)
    obtain d1 m1 where r1: "run_effects no_stale now tasks us (m\<lparr>cm_schedule := sched\<rparr>) = (d1, m1)" by fastforce
    obtain d2 m2 where r2: "run_effects no_stale now tasks (effects t) m1 = (d2, m2)" by fastforce
    obtain d3 m3 where r3: "run_effects no_stale now tasks vs m2 = (d3, m3)" by fastforce
    have all: "m3 = m'" "set d2 \<subseteq> set ds" using run r1 r2 r3 split(1) by (auto simp: run_effects_append)
    have "map_of (cm_store m1) (ct_id t) = Some t"
      using run_effects_other [OF r1 split(2)] registry_lookup [OF reg, of t] t(1) by (simp add: tasks_def)
    moreover have "map_of (cm_store m2) (ct_id t) = Some t'"
      using run_effects_other [OF r3 split(3)] lookup t(2) all(1) by simp
    moreover have "cm_schedule m' = sched" using run_effects_schedule [OF run] by simp
    moreover have "timely now (cm_schedule m) t" using timely t(1) by (simp add: tasks_def)
    ultimately show "timely now (cm_schedule m') t'" "\<not> due z config now (cm_schedule m') t'"
      using task_after_tick [OF _ _ ids t(1) r2 [unfolded effects_def]] few forward all(2) apart(2) t(1) by blast+
  qed
qed

text \<open>
  C15. A tick of an idle session whose scheduler was not killed and whose callbacks return, over a
  registry of tasks whose recorded runs are in the past and known to the schedule. It delivers
  exactly the tasks whose shown next fire time has come, each once and in the order of the
  registry. If moreover the next run is always later than the time it is asked for, as it is where
  the clock does not change, and no delivery coalesced as many runs as the code's cap allows, then
  no task is due afterwards, so a second tick at the same time delivers nothing.
\<close>

theorem tick_delivers_what_is_due:
  assumes "registry_ok (cm_store m)" "\<forall>t \<in> set (store_list (cm_store m)). timely now (cm_schedule m) t"
    and "manager_tick z config no_stale False True (\<lambda>_. True) now m = (ds, m')"
  shows "map cd_job_id ds = map ct_id (filter (due z config now (cm_schedule m)) (store_list (cm_store m)))
    \<and> (runs_forward z \<and> (\<forall>d \<in> set ds. cd_coalesced_count d < max_coalesce_iterations) \<longrightarrow>
        fst (manager_tick z config no_stale False True (\<lambda>_. True) now m') = [])"
proof (intro conjI impI)
  show "map cd_job_id ds = map ct_id (filter (due z config now (cm_schedule m)) (store_list (cm_store m)))"
    by (rule tick_delivers(1) [OF assms])
  assume few: "runs_forward z \<and> (\<forall>d \<in> set ds. cd_coalesced_count d < max_coalesce_iterations)"
  note after = tick_delivers(2) [OF assms few [THEN conjunct1] few [THEN conjunct2]]
  obtain ds2 m2 where again: "manager_tick z config no_stale False True (\<lambda>_. True) now m' = (ds2, m2)" by fastforce
  have "filter (due z config now (cm_schedule m')) (store_list (cm_store m')) = []"
    using after by (simp add: filter_empty_conv)
  then have "map cd_job_id ds2 = []" using tick_delivers(1) [OF _ _ again] after by simp
  then show "fst (manager_tick z config no_stale False True (\<lambda>_. True) now m') = []" using again by simp
qed

definition reminder :: cron_task where
  "reminder = \<lparr>ct_id = ''0000000a'', ct_cron = ''* * * * *'', ct_prompt = ''look'', ct_created_at = 0, ct_recurring = None,
     ct_last_fired_at = None\<rparr>"

lemma parse_every_minute: "parse_cron_expression ''* * * * *'' = Inr every_minute"
  by code_simp

theorem tick_delivers_what_is_due_witness:
  "let tick = manager_tick utc_zone (default_cron_jitter_config\<lparr>jc_no_jitter := True\<rparr>) False False True (\<lambda>_. True) 90000 in
     map cd_job_id (fst (tick (load_persisted [reminder] new_cron_manager))) = [''0000000a'']
     \<and> fst (tick (snd (tick (load_persisted [reminder] new_cron_manager)))) = []"
proof -
  let ?config = "default_cron_jitter_config\<lparr>jc_no_jitter := True\<rparr>"
  let ?m = "load_persisted [reminder] new_cron_manager"
  have m: "cm_store ?m = [(''0000000a'', reminder)]" "cm_schedule ?m = empty_schedule"
    by (simp_all add: load_persisted_def new_cron_manager_def store_adopt_def reminder_def)
  have due: "due utc_zone ?config 90000 empty_schedule reminder"
    by (simp add: due_def next_fire_for_def reminder_def parse_every_minute empty_schedule_def base_from_def
        compute_jittered_next_def every_minute_utc jittered_time_def is_one_shot_def jittered_next_cron_run_ms_def)
  have ok: "registry_ok (cm_store ?m)" "\<forall>t \<in> set (store_list (cm_store ?m)). timely 90000 (cm_schedule ?m) t"
    unfolding m by (simp_all add: registry_ok_def store_list_def timely_def reminder_def)
  obtain ds m' where tick: "manager_tick utc_zone ?config False False True (\<lambda>_. True) 90000 ?m = (ds, m')" by fastforce
  have coalesced: "count_coalesced utc_zone ?config reminder every_minute 60000 90000 = (1, 60000)"
    by (simp add: count_coalesced_def coalesce.simps every_minute_utc max_coalesce_iterations_def)
  have "tick_task utc_zone ?config 90000 (\<lambda>_. True) reminder empty_schedule
      = (([Fire ''0000000a'' 1, AdvanceCursor ''0000000a'' 60000], True),
         \<lparr>sc_last_seen = [(''0000000a'', 60000)], sc_seeded = [''0000000a'']\<rparr>)"
    using coalesced
    by (simp add: tick_task_def parse_every_minute reminder_def seed_last_seen_def empty_schedule_def base_from_def
        every_minute_utc jittered_time_def is_one_shot_def jittered_next_cron_run_ms_def settle_fire_def default_cron_jitter_config_def)
  moreover have i: "ct_id reminder = ''0000000a''" by (simp add: reminder_def)
  ultimately have "cron_tick utc_zone ?config False True 90000 (\<lambda>_. True) [reminder] empty_schedule
      = ([Fire ''0000000a'' 1, AdvanceCursor ''0000000a'' 60000],
         \<lparr>sc_last_seen = [(''0000000a'', 60000)], sc_seeded = [''0000000a'']\<rparr>)"
    by (simp add: cron_tick_def)
  moreover have "store_list (cm_store ?m) = [reminder]" by (simp only: m store_list_def) simp
  ultimately have "map cd_coalesced_count ds = [1]"
    using tick i by (simp only: manager_tick_def m) (auto simp: handle_fire_def Let_def split: prod.splits)
  then have "\<forall>d \<in> set ds. cd_coalesced_count d < max_coalesce_iterations"
    by (auto simp: max_coalesce_iterations_def map_eq_Cons_conv)
  moreover have "filter (due utc_zone ?config 90000 (cm_schedule ?m)) (store_list (cm_store ?m)) = [reminder]"
    using due \<open>store_list (cm_store ?m) = [reminder]\<close> by (simp only: m) simp
  ultimately show ?thesis
    using tick_delivers_what_is_due [OF ok tick] utc_runs_forward by (simp only: Let_def tick) (simp add: i)
qed

end
