(* ===== verification/Workflow_Journal.thy ===== *)
theory Workflow_Journal
  imports Projection "HOL-Library.Char_ord" "HOL-Library.List_Lexorder"
begin

text \<open>
  The journal of a workflow run (\<open>agents-core/src/agent/workflow/journal.ts\<close>): the chained key of an
  agent call, the entries a run appends to its log, and what a later run loads from them.

  Entries are the JSON objects the code writes. The hash (SHA-256) is a parameter. An append to the
  log succeeds here. The options of a call are what \<open>String()\<close> and JSON make of them; a number in
  a schema is an integer, and the keys of an object keep the order in which they were set (JavaScript
  moves keys that look like array indexes to the front).
\<close>

section \<open>JSON text\<close>

definition hex_char :: "nat \<Rightarrow> char" where
  "hex_char n = (if n < 10 then char_of (48 + n) else char_of (87 + n))"

text \<open>The escapes of \<open>JSON.stringify\<close>.\<close>

definition json_escape :: "char \<Rightarrow> string" where
  "json_escape c =
     (if c = CHR 0x22 then [CHR 0x5C, CHR 0x22]
      else if c = CHR 0x5C then [CHR 0x5C, CHR 0x5C]
      else if c = CHR 0x08 then [CHR 0x5C, CHR ''b'']
      else if c = CHR 0x0C then [CHR 0x5C, CHR ''f'']
      else if c = CHR 0x0A then [CHR 0x5C, CHR ''n'']
      else if c = CHR 0x0D then [CHR 0x5C, CHR ''r'']
      else if c = CHR 0x09 then [CHR 0x5C, CHR ''t'']
      else let n = of_char c :: nat in
        if n < 32 then [CHR 0x5C, CHR ''u'', CHR ''0'', CHR ''0'', hex_char (n div 16), hex_char (n mod 16)] else [c])"

definition json_quote :: "string \<Rightarrow> string" where
  "json_quote s = [CHR 0x22] @ concat (map json_escape s) @ [CHR 0x22]"

definition comma_list :: "string list \<Rightarrow> string" where
  "comma_list ps = (case ps of [] \<Rightarrow> [] | p # rest \<Rightarrow> p @ concat (map (\<lambda>q. CHR '','' # q) rest))"

definition js_of_int :: "int \<Rightarrow> string" where
  "js_of_int i = (if i < 0 then ''-'' @ js_of_nat (nat (- i)) else js_of_nat (nat i))"

fun json_stringify :: "json \<Rightarrow> string" where
  "json_stringify JNull = ''null''"
| "json_stringify (JBool b) = (if b then ''true'' else ''false'')"
| "json_stringify (JNum i) = js_of_int i"
| "json_stringify (JStr s) = json_quote s"
| "json_stringify (JArr vs) = ''['' @ comma_list (map json_stringify vs) @ '']''"
| "json_stringify (JObj fs) =
     ''{'' @ comma_list (map (\<lambda>(k, v). json_quote k @ '':'' @ json_stringify v) fs) @ ''}''"

section \<open>The key of an agent call\<close>

record hook_options =
  ho_label :: "string option"
  ho_phase :: "string option"
  ho_schema :: "json option"
  ho_model :: "string option"
  ho_agent_type :: "string option"
  ho_isolation :: "string option"

definition no_options :: hook_options where
  "no_options = \<lparr>ho_label = None, ho_phase = None, ho_schema = None, ho_model = None, ho_agent_type = None, ho_isolation = None\<rparr>"

text \<open>\<open>sortDeep\<close>: the fields of every object by their names.\<close>

fun sort_deep :: "json \<Rightarrow> json" where
  "sort_deep (JArr vs) = JArr (map sort_deep vs)"
| "sort_deep (JObj fs) = JObj (sort_key fst (map (\<lambda>(k, v). (k, sort_deep v)) fs))"
| "sort_deep v = v"

definition picked_options :: "hook_options \<Rightarrow> (string \<times> json) list" where
  "picked_options opts =
     (case ho_schema opts of Some v \<Rightarrow> [(''schema'', v)] | None \<Rightarrow> [])
     @ (case ho_model opts of Some s \<Rightarrow> [(''model'', JStr s)] | None \<Rightarrow> [])
     @ (case ho_agent_type opts of Some s \<Rightarrow> [(''agentType'', JStr s)] | None \<Rightarrow> [])
     @ (case ho_isolation opts of Some s \<Rightarrow> [(''isolation'', JStr s)] | None \<Rightarrow> [])"

definition stable_opts :: "hook_options \<Rightarrow> string" where
  "stable_opts opts = json_stringify (sort_deep (JObj (picked_options opts)))"

definition journal_key_version :: string where
  "journal_key_version = ''v2''"

definition nul :: char where
  "nul = CHR 0x00"

text \<open>What is hashed, and the key.\<close>

definition key_text :: "string \<Rightarrow> string \<Rightarrow> hook_options \<Rightarrow> string" where
  "key_text prev prompt opts = prev @ [nul] @ prompt @ [nul] @ stable_opts opts"

definition key_for :: "(string \<Rightarrow> string) \<Rightarrow> string \<Rightarrow> string \<Rightarrow> hook_options \<Rightarrow> string" where
  "key_for sha prev prompt opts = journal_key_version @ '':'' @ sha (key_text prev prompt opts)"

section \<open>Entries\<close>

record agent_label =
  al_index :: "nat option"
  al_label :: "string option"
  al_phase :: "string option"
  al_address :: "string option"

definition some_field :: "string \<Rightarrow> ('a \<Rightarrow> json) \<Rightarrow> 'a option \<Rightarrow> (string \<times> json) list" where
  "some_field k f v = (case v of Some x \<Rightarrow> [(k, f x)] | None \<Rightarrow> [])"

definition label_fields :: "agent_label \<Rightarrow> (string \<times> json) list" where
  "label_fields l =
     some_field ''index'' (\<lambda>n. JNum (int n)) (al_index l) @ some_field ''label'' JStr (al_label l)
     @ some_field ''phase'' JStr (al_phase l) @ some_field ''address'' JStr (al_address l)"

definition run_entry :: "string \<Rightarrow> string \<Rightarrow> string \<Rightarrow> json option \<Rightarrow> (string \<times> string) option \<Rightarrow> (string \<times> json) list" where
  "run_entry run_id name script args origin =
     [(''type'', JStr ''run''), (''runId'', JStr run_id), (''name'', JStr name), (''scriptBody'', JStr script)]
     @ some_field ''args'' (\<lambda>v. v) args
     @ (case origin of Some (a, c) \<Rightarrow> [(''parentAddress'', JStr a), (''parentToolCallId'', JStr c)] | None \<Rightarrow> [])"

definition phase_entry :: "nat \<Rightarrow> string \<Rightarrow> bool \<Rightarrow> (string \<times> json) list" where
  "phase_entry i title is_child =
     [(''type'', JStr ''phase''), (''index'', JNum (int i)), (''title'', JStr title),
      (''kind'', JStr (if is_child then ''child'' else ''normal''))]"

definition queued_entry :: "string \<Rightarrow> agent_label \<Rightarrow> (string \<times> json) list" where
  "queued_entry key l = [(''type'', JStr ''queued''), (''key'', JStr key)] @ label_fields l"

definition started_entry :: "string \<Rightarrow> string \<Rightarrow> agent_label \<Rightarrow> (string \<times> json) list" where
  "started_entry key agent l = [(''type'', JStr ''started''), (''key'', JStr key), (''agentId'', JStr agent)] @ label_fields l"

text \<open>A result that is \<open>undefined\<close> leaves no field.\<close>

definition result_entry :: "string \<Rightarrow> string \<Rightarrow> json option \<Rightarrow> agent_label \<Rightarrow> (string \<times> json) list" where
  "result_entry key agent result l =
     [(''type'', JStr ''result''), (''key'', JStr key), (''agentId'', JStr agent)] @ some_field ''result'' (\<lambda>v. v) result
     @ label_fields l"

definition error_entry :: "string \<Rightarrow> string \<Rightarrow> string \<Rightarrow> agent_label \<Rightarrow> (string \<times> json) list" where
  "error_entry key agent message l =
     [(''type'', JStr ''error''), (''key'', JStr key), (''agentId'', JStr agent), (''error'', JStr message)] @ label_fields l"

definition log_entry :: "string \<Rightarrow> (string \<times> json) list" where
  "log_entry message = [(''type'', JStr ''log''), (''message'', JStr message)]"

fun outcome_status :: "workflow_status \<Rightarrow> string" where
  "outcome_status WfCompleted = ''completed''"
| "outcome_status WfFailed = ''failed''"
| "outcome_status WfAborted = ''aborted''"

definition outcome_entry ::
  "workflow_status \<Rightarrow> bool \<Rightarrow> json option \<Rightarrow> string option \<Rightarrow> string list \<Rightarrow> nat \<Rightarrow> (string \<times> json) list" where
  "outcome_entry status ok result err failures agents =
     [(''type'', JStr ''outcome''), (''status'', JStr (outcome_status status)), (''ok'', JBool ok)] @ some_field ''result'' (\<lambda>v. v) result
     @ some_field ''error'' JStr err @ [(''failures'', JArr (map JStr failures)), (''agentCount'', JNum (int agents))]"

definition entry_types :: "string list" where
  "entry_types = [''run'', ''phase'', ''queued'', ''started'', ''result'', ''error'', ''log'', ''outcome'']"

definition has_string :: "string \<Rightarrow> (string \<times> json) list \<Rightarrow> bool" where
  "has_string k fs = (case map_of fs k of Some (JStr _) \<Rightarrow> True | _ \<Rightarrow> False)"

definition entry_string :: "string \<Rightarrow> (string \<times> json) list \<Rightarrow> string option" where
  "entry_string k fs = (case map_of fs k of Some (JStr s) \<Rightarrow> Some s | _ \<Rightarrow> None)"

definition is_journal_entry :: "json \<Rightarrow> bool" where
  "is_journal_entry v =
     (case v of
        JObj fs \<Rightarrow>
          (case map_of fs ''type'' of
             Some (JStr t) \<Rightarrow>
               if t \<notin> set entry_types then False
               else if t \<in> {''started'', ''result'', ''error''} then has_string ''key'' fs \<and> has_string ''agentId'' fs
               else if t = ''queued'' then has_string ''key'' fs \<and> (case map_of fs ''index'' of Some (JNum _) \<Rightarrow> True | _ \<Rightarrow> False)
               else if t = ''run'' then has_string ''name'' fs \<and> has_string ''scriptBody'' fs
               else if t = ''phase'' then has_string ''title'' fs
               else if t = ''log'' then has_string ''message'' fs
               else (case map_of fs ''ok'' of Some (JBool _) \<Rightarrow> entry_string ''status'' fs \<in> {Some ''completed'', Some ''failed'', Some ''aborted''}
                     | _ \<Rightarrow> False)
           | _ \<Rightarrow> False)
      | _ \<Rightarrow> False)"

section \<open>The journal\<close>

record journal_result =
  jr_agent_id :: string
  jr_address :: "string option"
  jr_result :: "json option"

record workflow_journal =
  jn_address :: string
  jn_parent_call :: "string option"
  jn_results :: "(string, journal_result) jsmap"
  jn_started :: "string list"
  jn_events :: "((string \<times> json) list \<times> nat option) list"

definition sanitize :: "string \<Rightarrow> string" where
  "sanitize = map (\<lambda>c. let n = of_char c :: nat in
     if (48 \<le> n \<and> n \<le> 57) \<or> (65 \<le> n \<and> n \<le> 90) \<or> (97 \<le> n \<and> n \<le> 122) \<or> c = CHR ''_'' \<or> c = CHR ''-'' then c else CHR ''_'')"

definition journal_address :: "string \<Rightarrow> string" where
  "journal_address run_id = ''workflow:'' @ sanitize run_id"

definition journal_entry_name :: string where
  "journal_entry_name = ''wf_journal''"

definition new_journal :: "string \<Rightarrow> string option \<Rightarrow> workflow_journal" where
  "new_journal run_id parent_call =
     \<lparr>jn_address = journal_address run_id, jn_parent_call = parent_call, jn_results = [], jn_started = [], jn_events = []\<rparr>"

text \<open>What a loaded entry adds.\<close>

definition field_or_empty :: "string \<Rightarrow> (string \<times> json) list \<Rightarrow> string" where
  "field_or_empty k fs = (case entry_string k fs of Some s \<Rightarrow> s | None \<Rightarrow> [])"

definition note_entry :: "(string \<times> json) list \<Rightarrow> workflow_journal \<Rightarrow> workflow_journal" where
  "note_entry fs j =
     (if map_of fs ''type'' = Some (JStr ''started'') then j\<lparr>jn_started := List.insert (field_or_empty ''key'' fs) (jn_started j)\<rparr>
      else if map_of fs ''type'' = Some (JStr ''result'')
      then j\<lparr>jn_results := jset (field_or_empty ''key'' fs)
               \<lparr>jr_agent_id = field_or_empty ''agentId'' fs, jr_address = entry_string ''address'' fs, jr_result = map_of fs ''result''\<rparr>
               (jn_results j)\<rparr>
      else j)"

definition load_record :: "agent_record \<Rightarrow> workflow_journal \<Rightarrow> workflow_journal" where
  "load_record r j =
     (case rec_body r of
        RecCustom name (JObj fs) \<Rightarrow>
          if name \<noteq> journal_entry_name \<or> \<not> is_journal_entry (JObj fs) then j
          else note_entry fs (j\<lparr>jn_events := jn_events j @ [(fs, rec_time r)]\<rparr>)
      | _ \<Rightarrow> j)"

definition load_journal :: "agent_record list \<Rightarrow> workflow_journal \<Rightarrow> workflow_journal" where
  "load_journal log j = fold load_record (filter (\<lambda>r. rec_address r = Some (jn_address j)) log) j"

definition get_result :: "string \<Rightarrow> workflow_journal \<Rightarrow> journal_result option" where
  "get_result key j = map_of (jn_results j) key"

definition was_started :: "string \<Rightarrow> workflow_journal \<Rightarrow> bool" where
  "was_started key j = (key \<in> set (jn_started j))"

definition recorded_script :: "workflow_journal \<Rightarrow> string option" where
  "recorded_script j =
     (case List.find (\<lambda>(fs, _). map_of fs ''type'' = Some (JStr ''run'')) (jn_events j) of
        Some (fs, _) \<Rightarrow> entry_string ''scriptBody'' fs
      | None \<Rightarrow> None)"

definition journal_outcome :: "workflow_journal \<Rightarrow> (string \<times> json) list option" where
  "journal_outcome j = map_option fst (List.find (\<lambda>(fs, _). map_of fs ''type'' = Some (JStr ''outcome'')) (rev (jn_events j)))"

text \<open>An append: the entry in memory and the record it leaves in the log.\<close>

definition identified :: "(string \<times> json) list \<Rightarrow> workflow_journal \<Rightarrow> (string \<times> json) list" where
  "identified fs j =
     (case jn_parent_call j of
        None \<Rightarrow> fs
      | Some c \<Rightarrow> if map_of fs ''parentToolCallId'' \<noteq> None then fs else fs @ [(''parentToolCallId'', JStr c)])"

definition append_entry :: "(string \<times> json) list \<Rightarrow> workflow_journal \<Rightarrow> agent_record \<times> workflow_journal" where
  "append_entry fs j =
     (let e = identified fs j in
      (\<lparr>rec_time = None, rec_address = Some (jn_address j), rec_body = RecCustom journal_entry_name (JObj e)\<rparr>,
       j\<lparr>jn_events := jn_events j @ [(e, None)]\<rparr>))"

definition record_started :: "string \<Rightarrow> string \<Rightarrow> agent_label \<Rightarrow> workflow_journal \<Rightarrow> agent_record \<times> workflow_journal" where
  "record_started key agent l j =
     append_entry (started_entry key agent l) (j\<lparr>jn_started := List.insert key (jn_started j)\<rparr>)"

definition record_result ::
  "string \<Rightarrow> string \<Rightarrow> json option \<Rightarrow> agent_label \<Rightarrow> workflow_journal \<Rightarrow> agent_record \<times> workflow_journal" where
  "record_result key agent result l j =
     append_entry (result_entry key agent result l)
       (j\<lparr>jn_results := jset key \<lparr>jr_agent_id = agent, jr_address = al_address l, jr_result = result\<rparr> (jn_results j)\<rparr>)"

definition record_run ::
  "string \<Rightarrow> string \<Rightarrow> string \<Rightarrow> json option \<Rightarrow> (string \<times> string) option \<Rightarrow> workflow_journal \<Rightarrow> agent_record \<times> workflow_journal" where
  "record_run run_id name script args origin j = append_entry (run_entry run_id name script args origin) j"

definition record_phase :: "nat \<Rightarrow> string \<Rightarrow> bool \<Rightarrow> workflow_journal \<Rightarrow> agent_record \<times> workflow_journal" where
  "record_phase i title is_child j = append_entry (phase_entry i title is_child) j"

definition record_queued :: "string \<Rightarrow> agent_label \<Rightarrow> workflow_journal \<Rightarrow> agent_record \<times> workflow_journal" where
  "record_queued key l j = append_entry (queued_entry key l) j"

definition record_error :: "string \<Rightarrow> string \<Rightarrow> string \<Rightarrow> agent_label \<Rightarrow> workflow_journal \<Rightarrow> agent_record \<times> workflow_journal" where
  "record_error key agent message l j = append_entry (error_entry key agent message l) j"

definition record_log :: "string \<Rightarrow> workflow_journal \<Rightarrow> agent_record \<times> workflow_journal" where
  "record_log message j = append_entry (log_entry message) j"

definition record_outcome ::
  "workflow_status \<Rightarrow> bool \<Rightarrow> json option \<Rightarrow> string option \<Rightarrow> string list \<Rightarrow> nat \<Rightarrow> workflow_journal \<Rightarrow> agent_record \<times> workflow_journal" where
  "record_outcome status ok result err failures agents j = append_entry (outcome_entry status ok result err failures agents) j"

section \<open>JSON text determines the value\<close>

lemma of_hex_char: "n < 16 \<Longrightarrow> (of_char (hex_char n) :: nat) = (if n < 10 then 48 + n else 87 + n)"
  by (simp add: hex_char_def of_char_of)

text \<open>The character an escape stands for.\<close>

definition hex_digit :: "char \<Rightarrow> nat" where
  "hex_digit c = (let n = of_char c :: nat in if n < 58 then n - 48 else n - 87)"

fun unescape :: "string \<Rightarrow> (char \<times> string) option" where
  "unescape [] = None"
| "unescape (c # cs) =
     (if c \<noteq> CHR 0x5C then Some (c, cs)
      else case cs of
             [] \<Rightarrow> None
           | d # ds \<Rightarrow>
               if d = CHR ''b'' then Some (CHR 0x08, ds)
               else if d = CHR ''f'' then Some (CHR 0x0C, ds)
               else if d = CHR ''n'' then Some (CHR 0x0A, ds)
               else if d = CHR ''r'' then Some (CHR 0x0D, ds)
               else if d = CHR ''t'' then Some (CHR 0x09, ds)
               else if d = CHR ''u'' then Some (char_of (16 * hex_digit (ds ! 2) + hex_digit (ds ! 3)), drop 4 ds)
               else Some (d, ds))"

lemma hex_digit_char: "n < 16 \<Longrightarrow> hex_digit (hex_char n) = n"
  by (simp add: hex_digit_def of_hex_char Let_def)

lemma unescape_escape: "unescape (json_escape c @ x) = Some (c, x)"
proof -
  have "char_of (16 * hex_digit (hex_char (n div 16)) + hex_digit (hex_char (n mod 16))) = c"
    if "n = of_char c" "n < 32" for n :: nat
    using that by (simp add: hex_digit_char)
  then show ?thesis by (simp add: json_escape_def Let_def)
qed

lemma escape_append: "json_escape c @ x = json_escape d @ y \<longleftrightarrow> c = d \<and> x = y"
  by (metis unescape_escape option.inject prod.inject)

lemma escape_not_quote: "json_escape c @ x \<noteq> CHR 0x22 # y"
  by (simp add: json_escape_def Let_def)

lemma quoted_append:
  "concat (map json_escape s) @ CHR 0x22 # x = concat (map json_escape t) @ CHR 0x22 # y \<longleftrightarrow> s = t \<and> x = y"
proof (induction s arbitrary: t)
  case Nil
  show ?case using escape_not_quote [symmetric] by (cases t) auto
next
  case (Cons c cs)
  show ?case
  proof (cases t)
    case Nil
    then show ?thesis using escape_not_quote by auto
  next
    case (Cons d ds)
    then show ?thesis using Cons.IH [of ds] by (simp add: escape_append)
  qed
qed

lemma json_quote_append: "json_quote s @ x = json_quote t @ y \<longleftrightarrow> s = t \<and> x = y"
  using quoted_append [of s x t y] by (simp add: json_quote_def)

text \<open>A value is followed by a delimiter or by nothing.\<close>

definition delimiters :: "char set" where
  "delimiters = {CHR '','', CHR '']'', CHR ''}''}"

definition delimited :: "string \<Rightarrow> bool" where
  "delimited x \<longleftrightarrow> (case x of [] \<Rightarrow> True | c # _ \<Rightarrow> c \<in> delimiters)"

lemma js_of_nat_chars: "c \<in> set (js_of_nat n) \<Longrightarrow> \<exists>d < 10. c = digit_char d"
proof (induction n rule: js_of_nat.induct)
  case (1 n)
  then show ?case
    by (subst (asm) (2) js_of_nat.simps) (auto split: if_splits intro: exI [of _ "n mod 10"] exI [of _ n])
qed

lemma digit_char_range: "d < 10 \<Longrightarrow> (of_char (digit_char d) :: nat) = 48 + d"
  by (simp add: digit_char_def of_char_of)

lemma digit_char_other:
  "d < 10 \<Longrightarrow> (of_char c :: nat) < 48 \<or> 58 \<le> (of_char c :: nat) \<Longrightarrow> digit_char d \<noteq> c"
  "d < 10 \<Longrightarrow> (of_char c :: nat) < 48 \<or> 58 \<le> (of_char c :: nat) \<Longrightarrow> c \<noteq> digit_char d"
  using digit_char_range by fastforce+

lemma js_of_int_chars: "c \<in> set (js_of_int i) \<Longrightarrow> c = CHR ''-'' \<or> (\<exists>d < 10. c = digit_char d)"
  by (auto simp: js_of_int_def dest: js_of_nat_chars split: if_splits)

lemma js_of_int_no_delimiter: "c \<in> set (js_of_int i) \<Longrightarrow> c \<notin> delimiters"
  using js_of_int_chars [of c i] by (auto simp: delimiters_def digit_char_other)

lemma js_of_nat_not_minus: "js_of_nat n \<noteq> CHR ''-'' # x"
proof
  assume "js_of_nat n = CHR ''-'' # x"
  then have "CHR ''-'' \<in> set (js_of_nat n)" by simp
  then show False using js_of_nat_chars digit_char_other(2) [of _ "CHR ''-''"] by force
qed

lemma js_of_int_inj: "js_of_int i = js_of_int j \<longleftrightarrow> i = j"
  using js_of_nat_not_minus js_of_nat_not_minus [symmetric] by (auto simp: js_of_int_def)

lemma js_of_int_append:
  assumes "delimited x" "delimited y" "js_of_int i @ x = js_of_int j @ y"
  shows "i = j \<and> x = y"
proof -
  have t: "takeWhile (\<lambda>c. c \<notin> delimiters) (js_of_int k @ z) = js_of_int k" if "delimited z" for k z
    using that js_of_int_no_delimiter by (cases z) (auto simp: delimited_def takeWhile_append)
  have "js_of_int i = js_of_int j" using t [OF assms(1), of i] t [OF assms(2), of j] assms(3) by simp
  then show ?thesis using assms(3) by (simp add: js_of_int_inj)
qed

text \<open>How the text of a value begins.\<close>

fun value_start :: "json \<Rightarrow> char \<Rightarrow> bool" where
  "value_start JNull c = (c = CHR ''n'')"
| "value_start (JBool b) c = (c = (if b then CHR ''t'' else CHR ''f''))"
| "value_start (JNum i) c = (c = CHR ''-'' \<or> (\<exists>d < 10. c = digit_char d))"
| "value_start (JStr s) c = (c = CHR 0x22)"
| "value_start (JArr vs) c = (c = CHR ''['')"
| "value_start (JObj fs) c = (c = CHR ''{'')"

lemma json_text_start: "\<exists>c cs. json_stringify v = c # cs \<and> value_start v c"
proof (cases v)
  case (JNum i)
  obtain c cs where "js_of_int i = c # cs" by (cases "js_of_int i") (auto simp: js_of_int_def split: if_splits)
  then show ?thesis using JNum js_of_int_chars [of c i] by simp
qed (auto simp: json_quote_def)

lemma value_start_kind:
  "value_start v c \<Longrightarrow> value_start w c \<Longrightarrow>
     (case v of JNull \<Rightarrow> w = JNull | JBool b \<Rightarrow> w = JBool b | JNum _ \<Rightarrow> (\<exists>i. w = JNum i) | JStr _ \<Rightarrow> (\<exists>s. w = JStr s)
      | JArr _ \<Rightarrow> (\<exists>vs. w = JArr vs) | JObj _ \<Rightarrow> (\<exists>fs. w = JObj fs))"
  by (cases v; cases w) (auto simp: digit_char_other split: if_splits)

lemma value_start_not_delimiter: "value_start v c \<Longrightarrow> c \<notin> delimiters"
  by (cases v) (auto simp: delimiters_def digit_char_other split: if_splits)

lemma comma_tail_append:
  assumes "\<And>v w x y. v \<in> set vs \<Longrightarrow> delimited x \<Longrightarrow> delimited y \<Longrightarrow> g v @ x = g w @ y \<Longrightarrow> v = w \<and> x = y"
    and "close \<in> delimiters" "close \<noteq> CHR '',''"
  shows "concat (map (\<lambda>v. CHR '','' # g v) vs) @ close # x = concat (map (\<lambda>v. CHR '','' # g v) ws) @ close # y \<Longrightarrow> vs = ws \<and> x = y"
  using assms(1)
proof (induction vs arbitrary: ws)
  case Nil
  then show ?case using assms(3) by (cases ws) auto
next
  case (Cons v vs)
  have tail: "delimited (concat (map (\<lambda>v. CHR '','' # g v) us) @ close # z)" for us z
    using assms(2) by (cases us) (simp_all add: delimited_def delimiters_def)
  show ?case
  proof (cases ws)
    case Nil
    then show ?thesis using Cons.prems(1) assms(3) by auto
  next
    case (Cons w ws')
    have eq: "v = w \<and> concat (map (\<lambda>v. CHR '','' # g v) vs) @ close # x = concat (map (\<lambda>v. CHR '','' # g v) ws') @ close # y"
      using Cons.prems(1) Cons by (intro Cons.prems(2)) (simp_all add: tail)
    have "vs = ws' \<and> x = y"
    proof (rule Cons.IH)
      show "v' = u \<and> a = b" if "v' \<in> set vs" "delimited a" "delimited b" "g v' @ a = g u @ b" for v' u a b
        using that by (intro Cons.prems(2)) simp_all
    qed (use eq in simp)
    then show ?thesis using eq Cons by simp
  qed
qed

lemma comma_list_append:
  assumes each: "\<And>v w x y. v \<in> set vs \<Longrightarrow> delimited x \<Longrightarrow> delimited y \<Longrightarrow> g v @ x = g w @ y \<Longrightarrow> v = w \<and> x = y"
    and start: "\<And>v. \<exists>c cs. g v = c # cs \<and> c \<notin> delimiters"
    and close: "close \<in> delimiters" "close \<noteq> CHR '',''"
    and eq: "comma_list (map g vs) @ close # x = comma_list (map g ws) @ close # y"
  shows "vs = ws \<and> x = y"
proof -
  have tail: "delimited (concat (map (\<lambda>v. CHR '','' # g v) us) @ close # z)" for us z
    using close by (cases us) (simp_all add: delimited_def delimiters_def)
  show ?thesis
  proof (cases vs)
    case Nil
    then show ?thesis using eq start [of "hd ws"] close by (cases ws) (auto simp: comma_list_def)
  next
    case (Cons v vs')
    show ?thesis
    proof (cases ws)
      case Nil
      then show ?thesis using eq start [of v] close Cons by (auto simp: comma_list_def)
    next
      case (Cons w ws')
      note vw = \<open>vs = v # vs'\<close> Cons
      have "v = w \<and> concat (map (\<lambda>v. CHR '','' # g v) vs') @ close # x = concat (map (\<lambda>v. CHR '','' # g v) ws') @ close # y"
        using eq vw by (intro each) (simp_all add: comma_list_def tail comp_def)
      then show ?thesis using comma_tail_append [of vs' g close x ws' y] each close vw by auto
    qed
  qed
qed

lemma same_kind:
  assumes "json_stringify v @ x = json_stringify w @ y"
  shows "case v of JNull \<Rightarrow> w = JNull | JBool b \<Rightarrow> w = JBool b | JNum _ \<Rightarrow> (\<exists>i. w = JNum i) | JStr _ \<Rightarrow> (\<exists>s. w = JStr s)
      | JArr _ \<Rightarrow> (\<exists>vs. w = JArr vs) | JObj _ \<Rightarrow> (\<exists>fs. w = JObj fs)"
proof -
  obtain c cs d ds where "json_stringify v = c # cs" "value_start v c" "json_stringify w = d # ds" "value_start w d"
    using json_text_start [of v] json_text_start [of w] by blast
  then show ?thesis using assms by (intro value_start_kind [of v c w]) simp_all
qed

lemma json_text_append:
  "delimited x \<Longrightarrow> delimited y \<Longrightarrow> json_stringify v @ x = json_stringify w @ y \<Longrightarrow> v = w \<and> x = y"
proof (induction v arbitrary: w x y)
  case JNull
  then have "w = JNull" using same_kind [OF JNull(3)] by simp
  then show ?case using JNull by simp
next
  case (JBool b)
  then have "w = JBool b" using same_kind [OF JBool(3)] by simp
  then show ?case using JBool by simp
next
  case (JNum i)
  then obtain j where "w = JNum j" using same_kind [OF JNum(3)] by auto
  then show ?case using JNum js_of_int_append [of x y i j] by simp
next
  case (JStr s)
  then obtain t where "w = JStr t" using same_kind [OF JStr(3)] by auto
  then show ?case using JStr by (simp add: json_quote_append)
next
  case (JArr vs)
  then obtain ws where w: "w = JArr ws" using same_kind [OF JArr(4)] by auto
  have "vs = ws \<and> x = y"
  proof (rule comma_list_append [of vs json_stringify])
    show "\<exists>c cs. json_stringify v = c # cs \<and> c \<notin> delimiters" for v
      using json_text_start [of v] value_start_not_delimiter by blast
    show "comma_list (map json_stringify vs) @ CHR '']'' # x = comma_list (map json_stringify ws) @ CHR '']'' # y"
      using JArr(4) w by simp
  qed (use JArr(1) in \<open>auto simp: delimiters_def\<close>)
  then show ?case using w by simp
next
  case (JObj fs)
  then obtain gs where w: "w = JObj gs" using same_kind [OF JObj(4)] by auto
  let ?g = "\<lambda>(k, v). json_quote k @ '':'' @ json_stringify v"
  have "fs = gs \<and> x = y"
  proof (rule comma_list_append [of fs ?g])
    show "\<exists>c cs. ?g f = c # cs \<and> c \<notin> delimiters" for f
      by (cases f) (simp add: json_quote_def delimiters_def)
    show "comma_list (map ?g fs) @ CHR ''}'' # x = comma_list (map ?g gs) @ CHR ''}'' # y"
      using JObj(4) w by simp
    show "f = f' \<and> a = b" if "f \<in> set fs" "delimited a" "delimited b" "?g f @ a = ?g f' @ b" for f f' a b
    proof -
      obtain k v k' v' where f: "f = (k, v)" "f' = (k', v')" by (cases f; cases f') blast
      then have "k = k' \<and> json_stringify v @ a = json_stringify v' @ b" using that(4) by (simp add: json_quote_append)
      then show ?thesis using JObj(1) [OF that(1), of v a b v'] f that(2,3) by simp
    qed
  qed (simp_all add: delimiters_def)
  then show ?case using w by simp
qed

lemma json_stringify_inj: "json_stringify v = json_stringify w \<longleftrightarrow> v = w"
  using json_text_append [of "[]" "[]" v w] by (auto simp: delimited_def)

section \<open>A key names a call and what came before it\<close>

lemma nul_escape: "nul \<notin> set (json_escape c)"
proof -
  have "hex_char n \<noteq> nul" if "n < 16" for n using of_hex_char [OF that] by (auto simp: nul_def split: if_splits)
  then have "(of_char c :: nat) < 32 \<Longrightarrow> hex_char (of_char c div 16) \<noteq> nul" "hex_char (of_char c mod 16) \<noteq> nul"
    by (simp_all add: less_mult_imp_div_less)
  then show ?thesis by (auto simp: json_escape_def Let_def nul_def split: if_splits)
qed

lemma nul_quote: "nul \<notin> set (json_quote s)"
  using nul_escape by (auto simp: json_quote_def nul_def)

lemma nul_comma_list: "(\<And>p. p \<in> set ps \<Longrightarrow> nul \<notin> set p) \<Longrightarrow> nul \<notin> set (comma_list ps)"
  by (auto simp: comma_list_def nul_def split: list.splits)

lemma nul_json: "nul \<notin> set (json_stringify v)"
proof (induction v)
  case (JNum i)
  then show ?case using js_of_int_chars [of nul i] by (auto simp: nul_def digit_char_other)
next
  case (JStr s)
  then show ?case by (simp add: nul_quote)
next
  case (JArr vs)
  then show ?case using nul_comma_list [of "map json_stringify vs"] by (auto simp: nul_def)
next
  case (JObj fs)
  have "nul \<notin> set (case f of (k, v) \<Rightarrow> json_quote k @ '':'' @ json_stringify v)" if "f \<in> set fs" for f
    using JObj [OF that, of "snd f"] nul_quote [of "fst f"] by (cases f) (auto simp: nul_def)
  then have "nul \<notin> set (comma_list (map (\<lambda>(k, v). json_quote k @ '':'' @ json_stringify v) fs))"
    by (intro nul_comma_list) (simp only: set_map image_iff, blast)
  then show ?case by (simp add: nul_def)
qed (auto simp: nul_def)

lemma split_first: "c \<notin> set a \<Longrightarrow> c \<notin> set b \<Longrightarrow> a @ c # x = b @ c # y \<longleftrightarrow> a = b \<and> x = y"
  using append_until [of c a b x y] .

lemma split_last: "c \<notin> set x \<Longrightarrow> c \<notin> set y \<Longrightarrow> a @ c # x = b @ c # y \<longleftrightarrow> a = b \<and> x = y"
  using append_until [of c "rev x" "rev y" "rev a" "rev b"] by (metis rev.simps(2) rev_append rev_rev_ident set_rev append.assoc append_Cons append_Nil)

text \<open>
  What a call is hashed from determines it: two calls after keys without a zero byte are hashed from the same
  text exactly when the keys before them, the prompts, and the options that matter (up to the order of
  fields) are the same, whatever characters the prompts hold.
\<close>

theorem key_text_determines_call:
  assumes "nul \<notin> set prev" "nul \<notin> set prev'"
  shows "key_text prev prompt opts = key_text prev' prompt' opts' \<longleftrightarrow>
    prev = prev' \<and> prompt = prompt' \<and>
    sort_deep (JObj (picked_options opts)) = sort_deep (JObj (picked_options opts'))"
proof -
  have "key_text p m z = (p @ nul # m) @ nul # stable_opts z" for p m z by (simp add: key_text_def)
  then have "key_text prev prompt opts = key_text prev' prompt' opts' \<longleftrightarrow>
      prev @ nul # prompt = prev' @ nul # prompt' \<and> stable_opts opts = stable_opts opts'"
    by (simp only:) (rule split_last; simp only: stable_opts_def nul_json not_False_eq_True)
  also have "\<dots> \<longleftrightarrow> (prev = prev' \<and> prompt = prompt') \<and> stable_opts opts = stable_opts opts'"
    by (simp only: split_first [OF assms])
  finally show ?thesis by (simp only: stable_opts_def json_stringify_inj conj_assoc)
qed

theorem key_text_determines_call_witness:
  "key_text [] ''a'' no_options \<noteq> key_text [] ''a'' (no_options\<lparr>ho_model := Some ''m''\<rparr>)"
  using key_text_determines_call [of "[]" "[]" "''a''" no_options "''a''" "no_options\<lparr>ho_model := Some ''m''\<rparr>"]
  by (simp add: picked_options_def no_options_def)

section \<open>Loading the log gives the journal back\<close>

text \<open>A life of a journal: what is recorded, in order.\<close>

datatype journal_op =
    NoteRun string string string "json option" "(string \<times> string) option"
  | NotePhase nat string bool
  | NoteQueued string nat agent_label
  | NoteStarted string string agent_label
  | NoteResult string string "json option" agent_label
  | NoteError string string string agent_label
  | NoteLog string
  | NoteOutcome workflow_status bool "json option" "string option" "string list" nat

fun journal_step :: "journal_op \<Rightarrow> workflow_journal \<Rightarrow> agent_record \<times> workflow_journal" where
  "journal_step (NoteRun run name script args origin) j = record_run run name script args origin j"
| "journal_step (NotePhase i title is_child) j = record_phase i title is_child j"
| "journal_step (NoteQueued key i l) j = record_queued key (l\<lparr>al_index := Some i\<rparr>) j"
| "journal_step (NoteStarted key agent l) j = record_started key agent l j"
| "journal_step (NoteResult key agent result l) j = record_result key agent result l j"
| "journal_step (NoteError key agent message l) j = record_error key agent message l j"
| "journal_step (NoteLog message) j = record_log message j"
| "journal_step (NoteOutcome status ok result err failures agents) j = record_outcome status ok result err failures agents j"

fun run_journal :: "journal_op list \<Rightarrow> workflow_journal \<Rightarrow> agent_record list \<times> workflow_journal" where
  "run_journal [] j = ([], j)"
| "run_journal (x # xs) j =
     (case journal_step x j of (r, j1) \<Rightarrow> (case run_journal xs j1 of (rs, j2) \<Rightarrow> (r # rs, j2)))"

text \<open>The store stamps the time of a record and nothing else.\<close>

definition stored_as :: "agent_record \<Rightarrow> agent_record \<Rightarrow> bool" where
  "stored_as r r' \<longleftrightarrow> r' = r\<lparr>rec_time := rec_time r'\<rparr>"

definition same_journal :: "workflow_journal \<Rightarrow> workflow_journal \<Rightarrow> bool" where
  "same_journal j j' \<longleftrightarrow> jn_results j = jn_results j' \<and> jn_started j = jn_started j' \<and> map fst (jn_events j) = map fst (jn_events j')"

lemmas entry_defs = run_entry_def phase_entry_def queued_entry_def started_entry_def result_entry_def error_entry_def log_entry_def
  outcome_entry_def label_fields_def some_field_def

lemmas record_defs = record_run_def record_phase_def record_queued_def record_started_def record_result_def record_error_def
  record_log_def record_outcome_def

lemma identified_other: "k \<noteq> ''parentToolCallId'' \<Longrightarrow> map_of (identified fs j) k = map_of fs k"
  by (auto simp: identified_def map_add_def split: option.split)

lemma identified_kind:
  assumes "k \<noteq> ''parentToolCallId''"
  shows "has_string k (identified fs j) = has_string k fs" "entry_string k (identified fs j) = entry_string k fs"
  using assms by (simp_all add: has_string_def entry_string_def identified_other)

lemma is_journal_entry_identified: "is_journal_entry (JObj (identified fs j)) = is_journal_entry (JObj fs)"
  by (simp add: is_journal_entry_def identified_other identified_kind cong: if_cong option.case_cong json.case_cong)

lemma note_entry_identified: "note_entry (identified fs j) l = note_entry fs l"
  by (simp add: note_entry_def identified_other identified_kind field_or_empty_def cong: if_cong)

lemma loads_appended:
  assumes "stored_as (fst (append_entry fs j)) r" "is_journal_entry (JObj fs)"
  shows "load_record r l = note_entry fs (l\<lparr>jn_events := jn_events l @ [(identified fs j, rec_time r)]\<rparr>)"
proof -
  have "rec_body r = RecCustom journal_entry_name (JObj (identified fs j))"
    using assms(1) by (cases r) (auto simp: append_entry_def stored_as_def Let_def)
  then show ?thesis using assms(2) by (simp add: load_record_def is_journal_entry_identified note_entry_identified)
qed

text \<open>An entry that only tells what happened: neither a start nor a result.\<close>

lemma append_told:
  assumes "stored_as (fst (append_entry fs j)) r" "is_journal_entry (JObj fs)" "\<And>l. note_entry fs l = l" "same_journal j l"
  shows "same_journal (snd (append_entry fs j)) (load_record r l)"
  using assms(4) by (simp add: loads_appended [OF assms(1,2)] assms(3) same_journal_def append_entry_def Let_def)

lemma journal_step_loaded:
  assumes "stored_as (fst (journal_step x j)) r" "same_journal j l"
  shows "same_journal (snd (journal_step x j)) (load_record r l)"
proof (cases x)
  case (NoteStarted key agent lab)
  have st: "stored_as (fst (append_entry (started_entry key agent lab) (j\<lparr>jn_started := List.insert key (jn_started j)\<rparr>))) r"
    using assms(1) NoteStarted by (simp add: record_started_def)
  have ie: "is_journal_entry (JObj (started_entry key agent lab))"
    by (simp add: is_journal_entry_def started_entry_def entry_types_def has_string_def)
  have "note_entry (started_entry key agent lab) l = l\<lparr>jn_started := List.insert key (jn_started l)\<rparr>" for l
    by (simp add: note_entry_def started_entry_def field_or_empty_def entry_string_def)
  then show ?thesis
    using assms(2) NoteStarted
    by (simp add: loads_appended [OF st ie] record_started_def append_entry_def same_journal_def Let_def)
next
  case (NoteResult key agent result lab)
  define res where "res = \<lparr>jr_agent_id = agent, jr_address = al_address lab, jr_result = result\<rparr>"
  have st: "stored_as (fst (append_entry (result_entry key agent result lab) (j\<lparr>jn_results := jset key res (jn_results j)\<rparr>))) r"
    using assms(1) NoteResult by (simp add: record_result_def res_def)
  have ie: "is_journal_entry (JObj (result_entry key agent result lab))"
    by (simp add: is_journal_entry_def result_entry_def entry_types_def has_string_def)
  have "entry_string ''address'' (result_entry key agent result lab) = al_address lab"
    "map_of (result_entry key agent result lab) ''result'' = result"
    by (auto simp: result_entry_def label_fields_def some_field_def entry_string_def split: option.split)
  then have "note_entry (result_entry key agent result lab) l = l\<lparr>jn_results := jset key res (jn_results l)\<rparr>" for l
    unfolding note_entry_def res_def
    by (simp only:) (simp add: result_entry_def field_or_empty_def entry_string_def)
  then show ?thesis
    using assms(2) NoteResult
    by (simp add: loads_appended [OF st ie] record_result_def append_entry_def same_journal_def Let_def res_def)
next
  case (NoteOutcome status ok result err failures agents)
  have status: "outcome_status status = ''completed'' \<or> outcome_status status = ''failed'' \<or> outcome_status status = ''aborted''"
    by (cases status) simp_all
  show ?thesis
    using assms NoteOutcome unfolding NoteOutcome journal_step.simps record_outcome_def
    by (intro append_told)
      (auto simp: is_journal_entry_def outcome_entry_def entry_types_def entry_string_def note_entry_def status)
qed (use assms in \<open>auto intro!: append_told simp: record_defs entry_defs is_journal_entry_def entry_types_def has_string_def note_entry_def\<close>)

lemma run_journal_loaded:
  "run_journal ops j = (rs, j') \<Longrightarrow> list_all2 stored_as rs stored \<Longrightarrow> same_journal j l \<Longrightarrow> same_journal j' (fold load_record stored l)"
proof (induction ops arbitrary: j rs stored l)
  case Nil
  then show ?case by simp
next
  case (Cons x xs)
  obtain r j1 where x: "journal_step x j = (r, j1)" by fastforce
  obtain rs1 where xs: "run_journal xs j1 = (rs1, j')" "rs = r # rs1" using Cons.prems(1) x by (auto split: prod.splits)
  obtain r' stored1 where st: "stored = r' # stored1" "stored_as r r'" "list_all2 stored_as rs1 stored1"
    using Cons.prems(2) xs(2) by (auto simp: list_all2_Cons1)
  have "same_journal j1 (load_record r' l)" using journal_step_loaded [of x j r' l] x st(2) Cons.prems(3) by simp
  then show ?case using Cons.IH [OF xs(1) st(3)] st(1) by simp
qed

lemma note_entry_same: "same_journal l l' \<Longrightarrow> same_journal (note_entry fs l) (note_entry fs l')"
  by (simp add: note_entry_def same_journal_def)

lemma load_record_same:
  assumes "same_journal l l'"
  shows "same_journal (load_record r l) (load_record r l')"
proof -
  have "same_journal (l\<lparr>jn_events := jn_events l @ [e]\<rparr>) (l'\<lparr>jn_events := jn_events l' @ [e]\<rparr>)" for e
    using assms by (simp add: same_journal_def)
  then show ?thesis using assms by (auto simp: load_record_def note_entry_same split: record_body.split json.split)
qed

lemma load_record_address [simp]: "jn_address (load_record r l) = jn_address l"
  by (auto simp: load_record_def note_entry_def split: record_body.split json.split)

lemma load_journal_append: "load_journal (old @ added) j = fold load_record (filter (\<lambda>r. rec_address r = Some (jn_address j)) added) (load_journal old j)"
  by (simp add: load_journal_def)

lemma append_entry_address: "jn_address (snd (append_entry fs j)) = jn_address j" "rec_address (fst (append_entry fs j)) = Some (jn_address j)"
  by (simp_all add: append_entry_def Let_def)

lemma journal_step_address:
  "jn_address (snd (journal_step x j)) = jn_address j" "rec_address (fst (journal_step x j)) = Some (jn_address j)"
  by (cases x; simp add: record_defs append_entry_address)+

lemma run_journal_addresses: "run_journal ops j = (rs, j') \<Longrightarrow> r \<in> set rs \<Longrightarrow> rec_address r = Some (jn_address j)"
proof (induction ops arbitrary: j rs)
  case (Cons x xs)
  then show ?case using journal_step_address [of x j] by (auto split: prod.splits)
qed simp

text \<open>
  C18. A journal survives its process: a run that loads what the log holds, records on, and stops anywhere leaves
  a log from which the next process loads the same results, the same started calls and the same events (but
  for their times), whatever other shards the log holds and whatever times the store stamped.
\<close>

theorem journal_reloads:
  assumes "run_journal ops (load_journal old (new_journal run call)) = (rs, j)"
    and "list_all2 stored_as rs (filter (\<lambda>r. rec_address r = Some (journal_address run)) new)"
  shows "same_journal j (load_journal (old @ new) (new_journal run call')) \<and>
    recorded_script (load_journal (old @ new) (new_journal run call')) = recorded_script j \<and>
    journal_outcome (load_journal (old @ new) (new_journal run call')) = journal_outcome j"
proof -
  have start: "same_journal (load_journal old (new_journal run call)) (load_journal old (new_journal run call'))"
  proof -
    have "same_journal l l' \<Longrightarrow> same_journal (fold load_record rs l) (fold load_record rs l')" for rs l l'
      by (induction rs arbitrary: l l') (simp_all add: load_record_same)
    then show ?thesis by (simp add: load_journal_def new_journal_def same_journal_def)
  qed
  have same: "same_journal j (load_journal (old @ new) (new_journal run call'))"
    using run_journal_loaded [OF assms start] by (simp add: load_journal_append new_journal_def)
  have find: "map fst es = map fst es' \<Longrightarrow>
      map_option fst (List.find (\<lambda>(fs, _). P fs) es) = map_option fst (List.find (\<lambda>(fs, _). P fs) es')" for P and es es' :: "('a \<times> 'b) list"
  proof (induction es arbitrary: es')
    case (Cons e es)
    then show ?case by (cases e; cases es') (auto split: prod.splits)
  qed simp
  let ?j = "load_journal (old @ new) (new_journal run call')"
  have ev: "map fst (jn_events ?j) = map fst (jn_events j)" using same by (simp add: same_journal_def)
  have script: "recorded_script i = Option.bind (map_option fst (List.find (\<lambda>(fs, _). map_of fs ''type'' = Some (JStr ''run'')) (jn_events i)))
      (entry_string ''scriptBody'')" for i
    by (auto simp: recorded_script_def split: option.split)
  have "recorded_script ?j = recorded_script j" by (simp only: script find [OF ev])
  moreover have "map fst (rev (jn_events ?j)) = map fst (rev (jn_events j))" using ev by (metis rev_map)
  then have "journal_outcome ?j = journal_outcome j" unfolding journal_outcome_def by (rule find)
  ultimately show ?thesis using same by blast
qed

lemma stored_as_refl: "list_all2 stored_as rs rs"
  by (induction rs) (simp_all add: stored_as_def)

theorem journal_reloads_witness:
  "get_result ''k'' (load_journal (fst (run_journal [NoteLog ''go'', NoteResult ''k'' ''a1'' (Some JNull) \<lparr>al_index = Some 1,
       al_label = None, al_phase = None, al_address = Some ''x''\<rparr>] (new_journal ''wf/1'' None))) (new_journal ''wf/1'' (Some ''c'')))
   = Some \<lparr>jr_agent_id = ''a1'', jr_address = Some ''x'', jr_result = Some JNull\<rparr>"
proof -
  define ops where "ops = [NoteLog ''go'', NoteResult ''k'' ''a1'' (Some JNull) \<lparr>al_index = Some 1, al_label = None, al_phase = None,
    al_address = Some ''x''\<rparr>]"
  obtain rs j where run: "run_journal ops (new_journal ''wf/1'' None) = (rs, j)" by fastforce
  have "filter (\<lambda>r. rec_address r = Some (journal_address ''wf/1'')) rs = rs"
    using run_journal_addresses [OF run] by (simp add: filter_id_conv new_journal_def)
  then have "same_journal j (load_journal ([] @ rs) (new_journal ''wf/1'' (Some ''c'')))"
    using journal_reloads [of ops "[]" "''wf/1''" None rs j rs "Some ''c''"] run stored_as_refl by (simp add: load_journal_def)
  moreover have "get_result ''k'' j = Some \<lparr>jr_agent_id = ''a1'', jr_address = Some ''x'', jr_result = Some JNull\<rparr>"
    using run by (auto simp: ops_def record_log_def record_result_def append_entry_def get_result_def Let_def new_journal_def)
  ultimately show ?thesis using run by (simp add: same_journal_def get_result_def ops_def)
qed

end
