(* ===== verification/Workflow_Run.thy ===== *)
theory Workflow_Run
  imports Workflow_Journal Spawn_Limit
begin

text \<open>
  The runtime of a workflow (\<open>agents-core/src/agent/workflow/runtime.ts\<close>): the hooks a script calls.

  The script is a parameter: it is seen through the calls it makes, in the order in which it makes
  them. \<open>agent()\<close> is split where it suspends: entering (caps, key, cache, a place in the semaphore),
  dispatch once it owns a slot, the start of its agent, and its failure or result. What it does to the
  journal is appended to \<open>wf_log\<close>; what it reports to \<open>wf_progress\<close>. Whether the run has been aborted is an
  argument of each step. \<open>previewOf\<close> of a result and the grouping of digits by \<open>toLocaleString\<close> are
  parameters of the host. A nested run has a state of its own and shares the chain of keys, the journal
  and the reports with its parent. The arrows that begin two log lines are left out, and a dash is a hyphen (they are no
  characters below 256).
\<close>

section \<open>The state of a run\<close>

text \<open>What a hook throws; \<open>ScriptError\<close> is an error of the script itself.\<close>

datatype workflow_error =
    WorkflowAborted
  | AgentCapReached
  | BudgetExceeded nat nat
  | AgentFailed string string
  | TooManyItems string nat
  | BadArgument string
  | NestedTooDeep
  | NestedFailed string string
  | ScriptError string

record workflow_host =
  wh_sha :: "string \<Rightarrow> string"
  wh_total :: "nat option"
  wh_turn_spent :: nat
  wh_concurrency :: nat
  wh_preview :: "json option \<Rightarrow> string"
  wh_locale :: "nat \<Rightarrow> string"

record agent_call =
  ac_key :: string
  ac_label :: agent_label
  ac_running :: bool
  ac_identity :: "(string \<times> string) option"

record workflow_run =
  wf_journal :: workflow_journal
  wf_log :: "agent_record list"
  wf_prev_key :: string
  wf_diverged :: bool
  wf_count :: nat
  wf_spent :: nat
  wf_cap_exceeded :: bool
  wf_budget_exceeded :: bool
  wf_semaphore :: "nat semaphore"
  wf_calls :: "(nat, agent_call) jsmap"
  wf_failures :: "string list"
  wf_phases :: "(string, nat) jsmap"
  wf_progress :: "workflow_progress list"

definition new_run :: "workflow_host \<Rightarrow> workflow_journal \<Rightarrow> workflow_run" where
  "new_run h j =
     \<lparr>wf_journal = j, wf_log = [], wf_prev_key = [], wf_diverged = False, wf_count = 0, wf_spent = 0,
      wf_cap_exceeded = False, wf_budget_exceeded = False, wf_semaphore = new_semaphore (max 1 (wh_concurrency h)),
      wf_calls = [], wf_failures = [], wf_phases = [], wf_progress = []\<rparr>"

definition workflow_agent_cap :: nat where
  "workflow_agent_cap = 1000"

definition max_items_per_call :: nat where
  "max_items_per_call = 4096"

definition tokens_spent :: "workflow_host \<Rightarrow> workflow_run \<Rightarrow> nat" where
  "tokens_spent h s = wh_turn_spent h + wf_spent s"

text \<open>\<^const>\<open>None\<close> is the code's \<open>Infinity\<close>.\<close>

definition tokens_remaining :: "workflow_host \<Rightarrow> workflow_run \<Rightarrow> nat option" where
  "tokens_remaining h s = map_option (\<lambda>t. t - tokens_spent h s) (wh_total h)"

definition budget_exhausted :: "workflow_host \<Rightarrow> workflow_run \<Rightarrow> bool" where
  "budget_exhausted h s = (case wh_total h of None \<Rightarrow> False | Some t \<Rightarrow> t > 0 \<and> tokens_spent h s \<ge> t)"

definition budget_error :: "workflow_host \<Rightarrow> workflow_run \<Rightarrow> workflow_error" where
  "budget_error h s = BudgetExceeded (tokens_spent h s) (case wh_total h of Some t \<Rightarrow> t | None \<Rightarrow> 0)"

definition check_caps :: "workflow_host \<Rightarrow> bool \<Rightarrow> workflow_run \<Rightarrow> workflow_error option \<times> workflow_run" where
  "check_caps h aborted s =
     (if aborted then (Some WorkflowAborted, s)
      else if wf_count s \<ge> workflow_agent_cap then (Some AgentCapReached, s\<lparr>wf_cap_exceeded := True\<rparr>)
      else if budget_exhausted h s then (Some (budget_error h s), s\<lparr>wf_budget_exceeded := True\<rparr>)
      else (None, s))"

definition item_count_error :: "nat \<Rightarrow> string \<Rightarrow> workflow_error option" where
  "item_count_error n who = (if n > max_items_per_call then Some (TooManyItems who n) else None)"

text \<open>A step of the journal, with the record it leaves; and a report.\<close>

definition journaled :: "(workflow_journal \<Rightarrow> agent_record \<times> workflow_journal) \<Rightarrow> workflow_run \<Rightarrow> workflow_run" where
  "journaled f s = (case f (wf_journal s) of (r, j) \<Rightarrow> s\<lparr>wf_journal := j, wf_log := wf_log s @ [r]\<rparr>)"

definition emit :: "workflow_progress \<Rightarrow> workflow_run \<Rightarrow> workflow_run" where
  "emit p s = s\<lparr>wf_progress := wf_progress s @ [p]\<rparr>"

section \<open>agent()\<close>

text \<open>\<open>prompt.slice(0, 60).replace(/\s+/g, " ").trim()\<close>.\<close>

fun collapse_white :: "string \<Rightarrow> string" where
  "collapse_white [] = []"
| "collapse_white (c # cs) =
     (if js_space c then (if cs \<noteq> [] \<and> js_space (hd cs) then collapse_white cs else CHR '' '' # collapse_white cs)
      else c # collapse_white cs)"

definition call_label :: "nat \<Rightarrow> string \<Rightarrow> hook_options \<Rightarrow> string" where
  "call_label i prompt opts =
     (let l = (case ho_label opts of Some s \<Rightarrow> s | None \<Rightarrow> js_trim (collapse_white (take 60 prompt))) in
      if l = [] then ''agent '' @ js_of_nat i else l)"

definition label_of_call :: "nat \<Rightarrow> string \<Rightarrow> hook_options \<Rightarrow> agent_label" where
  "label_of_call i prompt opts =
     \<lparr>al_index = Some i, al_label = Some (call_label i prompt opts), al_phase = ho_phase opts, al_address = None\<rparr>"

definition progress_of_call :: "agent_label \<Rightarrow> (string \<times> string) option \<Rightarrow> step_phase \<Rightarrow> string option \<Rightarrow> string option \<Rightarrow> workflow_progress" where
  "progress_of_call l identity phase err preview =
     WfAgent \<lparr>wa_index = int (case al_index l of Some i \<Rightarrow> i | None \<Rightarrow> 0), wa_label = (case al_label l of Some s \<Rightarrow> s | None \<Rightarrow> []),
       wa_phase = al_phase l, wa_agent_id = map_option fst identity, wa_address = map_option snd identity, wa_state = phase,
       wa_error = err, wa_preview = preview\<rparr>"

definition respawn_line :: "agent_label \<Rightarrow> string" where
  "respawn_line l = ''respawning interrupted agent ['' @ (case al_label l of Some s \<Rightarrow> s | None \<Rightarrow> []) @ '']''"

datatype agent_answer = FromJournal "json option" | Queued nat

text \<open>A cached agent without an id is reported without one.\<close>

definition cached_progress :: "workflow_host \<Rightarrow> agent_label \<Rightarrow> journal_result \<Rightarrow> workflow_progress" where
  "cached_progress h l r =
     WfAgent \<lparr>wa_index = int (case al_index l of Some i \<Rightarrow> i | None \<Rightarrow> 0), wa_label = (case al_label l of Some s \<Rightarrow> s | None \<Rightarrow> []),
       wa_phase = al_phase l, wa_agent_id = (if jr_agent_id r \<noteq> [] then Some (jr_agent_id r) else None), wa_address = jr_address r,
       wa_state = WfDone, wa_error = None, wa_preview = Some (wh_preview h (jr_result r))\<rparr>"

definition queue_call :: "nat \<Rightarrow> string \<Rightarrow> agent_label \<Rightarrow> workflow_run \<Rightarrow> workflow_run" where
  "queue_call i key l s =
     (let s1 = s\<lparr>wf_diverged := True\<rparr>;
          s2 = (if was_started key (wf_journal s1) then journaled (record_log (respawn_line l)) (emit (WfLog (respawn_line l)) s1) else s1);
          s3 = journaled (record_queued key l) (emit (progress_of_call l None WfQueued None None) s2)
      in s3\<lparr>wf_semaphore := sem_enter i (wf_semaphore s3),
            wf_calls := jset i \<lparr>ac_key = key, ac_label = l, ac_running = False, ac_identity = None\<rparr> (wf_calls s3)\<rparr>)"

definition agent_enter ::
  "workflow_host \<Rightarrow> bool \<Rightarrow> string \<Rightarrow> hook_options \<Rightarrow> workflow_run \<Rightarrow> (workflow_error + agent_answer) \<times> workflow_run" where
  "agent_enter h aborted prompt opts s =
     (case check_caps h aborted s of
        (Some e, s') \<Rightarrow> (Inl e, s')
      | (None, s') \<Rightarrow>
          (let i = wf_count s' + 1;
               l = label_of_call i prompt opts;
               key = key_for (wh_sha h) (wf_prev_key s') prompt opts;
               s1 = s'\<lparr>wf_count := i, wf_prev_key := key\<rparr>
           in case (if wf_diverged s1 then None else get_result key (wf_journal s1)) of
                Some r \<Rightarrow> (Inr (FromJournal (jr_result r)), emit (cached_progress h l r) s1)
              | None \<Rightarrow> (Inr (Queued i), queue_call i key l s1)))"

text \<open>A settled call is closed and gives its slot back.\<close>

definition close_call :: "nat \<Rightarrow> workflow_run \<Rightarrow> workflow_run" where
  "close_call i s = s\<lparr>wf_semaphore := sem_exit i (wf_semaphore s), wf_calls := jdelete i (wf_calls s)\<rparr>"

definition refuse_call :: "nat \<Rightarrow> agent_call \<Rightarrow> string \<Rightarrow> workflow_run \<Rightarrow> workflow_run" where
  "refuse_call i c message s =
     close_call i (journaled (record_error (ac_key c) [] message (ac_label c))
       (emit (progress_of_call (ac_label c) None WfError (Some message) None) s))"

definition agent_dispatch :: "workflow_host \<Rightarrow> bool \<Rightarrow> nat \<Rightarrow> agent_call \<Rightarrow> workflow_run \<Rightarrow> workflow_error option \<times> workflow_run" where
  "agent_dispatch h aborted i c s =
     (if aborted then (Some WorkflowAborted, refuse_call i c ''Workflow aborted before dispatch.'' s)
      else if budget_exhausted h s
      then (Some (budget_error h s),
            refuse_call i c ''Token budget exhausted before dispatch.'' (s\<lparr>wf_budget_exceeded := True\<rparr>))
      else (None, s\<lparr>wf_calls := jset i (c\<lparr>ac_running := True\<rparr>) (wf_calls s)\<rparr>))"

definition agent_started :: "nat \<Rightarrow> agent_call \<Rightarrow> string \<Rightarrow> string \<Rightarrow> workflow_run \<Rightarrow> workflow_run" where
  "agent_started i c agent address s =
     (let s1 = s\<lparr>wf_calls := jset i (c\<lparr>ac_identity := Some (agent, address)\<rparr>) (wf_calls s)\<rparr> in
      emit (progress_of_call (ac_label c) (Some (agent, address)) WfRunning None None)
        (journaled (record_started (ac_key c) agent ((ac_label c)\<lparr>al_address := Some address\<rparr>)) s1))"

definition agent_failed :: "nat \<Rightarrow> agent_call \<Rightarrow> string \<Rightarrow> workflow_run \<Rightarrow> workflow_error \<times> workflow_run" where
  "agent_failed i c message s =
     (AgentFailed (case al_label (ac_label c) of Some l \<Rightarrow> l | None \<Rightarrow> []) message,
      close_call i
        (journaled (record_error (ac_key c) (case ac_identity c of Some (a, _) \<Rightarrow> a | None \<Rightarrow> []) message
                 ((ac_label c)\<lparr>al_address := map_option snd (ac_identity c)\<rparr>))
           (emit (progress_of_call (ac_label c) (ac_identity c) WfError (Some message) None) s)))"

definition agent_done :: "workflow_host \<Rightarrow> nat \<Rightarrow> agent_call \<Rightarrow> string \<Rightarrow> string \<Rightarrow> json option \<Rightarrow> nat \<Rightarrow> workflow_run \<Rightarrow> workflow_run" where
  "agent_done h i c agent address v tokens s =
     (let s1 = s\<lparr>wf_spent := wf_spent s + tokens\<rparr>;
          s2 = journaled (record_result (ac_key c) agent v ((ac_label c)\<lparr>al_address := Some address\<rparr>)) s1
      in close_call i (emit (progress_of_call (ac_label c) (Some (agent, address)) WfDone None (Some (wh_preview h v))) s2))"

section \<open>Errors as text\<close>

definition error_text :: "workflow_host \<Rightarrow> workflow_error \<Rightarrow> string" where
  "error_text h e =
     (case e of
        WorkflowAborted \<Rightarrow> ''Workflow aborted.''
      | AgentCapReached \<Rightarrow>
          ''Workflow agent() call cap reached ('' @ js_of_nat workflow_agent_cap @ ''). This usually means a loop using '' @
          ''budget.remaining() never terminates because no token budget was set - remaining() returns '' @
          ''Infinity when budget.total is null. Add a hard iteration cap, or pass a token budget.''
      | BudgetExceeded spent total_tokens \<Rightarrow>
          ''Workflow token budget exceeded ('' @ wh_locale h spent @ '' / '' @ wh_locale h total_tokens @ '' output tokens). '' @
          ''Stopping further agent() calls. In-flight agents will complete; their results are preserved.''
      | AgentFailed label message \<Rightarrow> ''agent '' @ [CHR 0x22] @ label @ [CHR 0x22] @ '' failed: '' @ message
      | TooManyItems who n \<Rightarrow>
          who @ ''() accepts at most '' @ js_of_nat max_items_per_call @ '' items per call (got '' @ js_of_nat n @ ''). '' @
          ''Chunk the work, or loop in smaller batches.''
      | BadArgument message \<Rightarrow> message
      | NestedTooDeep \<Rightarrow>
          ''workflow() cannot be called from within a child workflow - nesting is limited to one level. '' @
          ''Inline the inner script or call its agents directly.''
      | NestedFailed name message \<Rightarrow> ''workflow('' @ [CHR 0x27] @ name @ [CHR 0x27] @ ''): '' @ message
      | ScriptError message \<Rightarrow> message)"

section \<open>parallel() and pipeline()\<close>

text \<open>
  Entering either: the first argument is an array or not (\<^const>\<open>None\<close>), then its length counts;
  \<open>callable\<close> tells that what is to be called are functions. \<open>Inr False\<close> is the empty answer at once.
\<close>

definition group_enter ::
  "workflow_host \<Rightarrow> bool \<Rightarrow> string \<Rightarrow> nat option \<Rightarrow> bool \<Rightarrow> workflow_run \<Rightarrow> (workflow_error + bool) \<times> workflow_run" where
  "group_enter h aborted who items callable s =
     (case check_caps h aborted s of
        (Some e, s') \<Rightarrow> (Inl e, s')
      | (None, s') \<Rightarrow>
          (case items of
             None \<Rightarrow> (Inl (BadArgument (if who = ''parallel'' then ''parallel() expects an array of functions''
                                      else ''pipeline() expects an array as the first argument'')), s')
           | Some n \<Rightarrow>
               if n = 0 then (Inr False, s')
               else case item_count_error n who of
                      Some e \<Rightarrow> (Inl e, s')
                    | None \<Rightarrow>
                        if \<not> callable
                        then (Inl (BadArgument (if who = ''parallel''
                               then ''parallel() expects an array of functions, not promises. Wrap each call: () => agent(...)''
                               else ''pipeline() stages must be functions: pipeline(items, item => ..., result => ...)'')), s')
                        else (Inr True, s')))"

text \<open>The stages of one item: a null value ends them early. A stage acts on the state \<open>'s\<close> of the script.\<close>

fun run_stages ::
  "(json option \<Rightarrow> json option \<Rightarrow> nat \<Rightarrow> 's \<Rightarrow> (workflow_error + json option) \<times> 's) list \<Rightarrow> json option \<Rightarrow> nat \<Rightarrow> json option \<Rightarrow> 's \<Rightarrow>
     (workflow_error + json option) \<times> 's" where
  "run_stages [] item index v w = (Inr v, w)"
| "run_stages (stage # stages) item index v w =
     (if v = Some JNull then (Inr v, w)
      else case stage v item index w of
             (Inl e, w') \<Rightarrow> (Inl e, w')
           | (Inr v', w') \<Rightarrow> run_stages stages item index v' w')"

definition failure_line :: "string \<Rightarrow> nat \<Rightarrow> string \<Rightarrow> string" where
  "failure_line who i message = who @ ''['' @ js_of_nat i @ ''] failed: '' @ message"

fun is_budget_error :: "workflow_error \<Rightarrow> bool" where
  "is_budget_error (BudgetExceeded _ _) = True"
| "is_budget_error _ = False"

fun settle_items ::
  "workflow_host \<Rightarrow> string \<Rightarrow> nat \<Rightarrow> (workflow_error + json option) list \<Rightarrow> workflow_run \<Rightarrow> json option list \<times> workflow_run" where
  "settle_items h who i [] s = ([], s)"
| "settle_items h who i (Inr v # rest) s = (case settle_items h who (Suc i) rest s of (vs, s') \<Rightarrow> (v # vs, s'))"
| "settle_items h who i (Inl e # rest) s =
     (let line = failure_line who i (error_text h e);
          s1 = (if is_budget_error e then s
                else journaled (record_log line) (emit (WfLog line) (s\<lparr>wf_failures := wf_failures s @ [line]\<rparr>)))
      in case settle_items h who (Suc i) rest s1 of (vs, s') \<Rightarrow> (Some JNull # vs, s'))"

definition group_settle ::
  "workflow_host \<Rightarrow> bool \<Rightarrow> string \<Rightarrow> (workflow_error + json option) list \<Rightarrow> workflow_run \<Rightarrow>
     (workflow_error + json option list) \<times> workflow_run" where
  "group_settle h aborted who outs s =
     (if aborted then (Inl WorkflowAborted, s)
      else case settle_items h who 0 outs s of (vs, s') \<Rightarrow> (Inr vs, s'))"

section \<open>phase(), log(), workflow() and the end of a run\<close>

definition resolve_phase :: "string \<Rightarrow> phase_kind \<Rightarrow> workflow_run \<Rightarrow> workflow_run" where
  "resolve_phase title kind s =
     (if map_of (wf_phases s) title \<noteq> None then s
      else let i = length (wf_phases s) + 1 in
        journaled (record_phase i title (kind = ChildPhase))
          (emit (WfPhase (int i) title kind) (s\<lparr>wf_phases := jset title i (wf_phases s)\<rparr>)))"

definition log_hook :: "string \<Rightarrow> workflow_run \<Rightarrow> workflow_run" where
  "log_hook text s = journaled (record_log text) (emit (WfLog text) s)"

definition start_run :: "workflow_host \<Rightarrow> string list \<Rightarrow> workflow_journal \<Rightarrow> workflow_run" where
  "start_run h phases j = fold (\<lambda>title. resolve_phase title NormalPhase) phases (new_run h j)"

text \<open>What two runs share: the child gets it when it runs, the parent when it runs again.\<close>

definition share_run :: "workflow_run \<Rightarrow> workflow_run \<Rightarrow> workflow_run" where
  "share_run from_run s =
     s\<lparr>wf_journal := wf_journal from_run, wf_log := wf_log from_run, wf_prev_key := wf_prev_key from_run,
       wf_diverged := wf_diverged from_run, wf_progress := wf_progress from_run\<rparr>"

definition child_run :: "workflow_host \<Rightarrow> string list \<Rightarrow> workflow_run \<Rightarrow> workflow_run" where
  "child_run h phases parent =
     fold (\<lambda>title. resolve_phase title NormalPhase) phases (share_run parent (new_run h (wf_journal parent)))"

text \<open>
  The nested hook, up to the start of the child. \<open>saved\<close> is what the host finds under the name, if it
  can look at all; \<open>parse\<close> gives the name, the titles of the phases and the body of a script.
\<close>

definition nested_enter ::
  "workflow_host \<Rightarrow> bool \<Rightarrow> nat \<Rightarrow> (string \<Rightarrow> string option) option \<Rightarrow> (string \<Rightarrow> string + string \<times> string list \<times> string) \<Rightarrow>
     string option \<Rightarrow> workflow_run \<Rightarrow> (workflow_error + workflow_run \<times> string) \<times> workflow_run" where
  "nested_enter h aborted depth saved parse ref s =
     (case check_caps h aborted s of
        (Some e, s') \<Rightarrow> (Inl e, s')
      | (None, s') \<Rightarrow>
          if depth \<ge> 1 then (Inl NestedTooDeep, s')
          else case ref of
            None \<Rightarrow> (Inl (BadArgument ''workflow() expects a saved workflow name (string)''), s')
          | Some name \<Rightarrow>
              (case saved of
                 None \<Rightarrow> (Inl (NestedFailed name ''named workflows are not available in this context''), s')
               | Some look \<Rightarrow>
                   (case look name of
                      None \<Rightarrow> (Inl (NestedFailed name ''no workflow with that name''), s')
                    | Some script \<Rightarrow>
                        if script = [] then (Inl (NestedFailed name ''no workflow with that name''), s')
                        else case parse script of
                               Inl e \<Rightarrow> (Inl (NestedFailed name e), s')
                             | Inr (title, phases, body) \<Rightarrow>
                                 let s1 = log_hook (''running nested workflow '' @ title) s'
                                 in (Inr (child_run h phases s1, body), s1))))"

datatype run_result =
    RunOk "json option" "string list" nat
  | RunFailed string "string list" nat
  | RunAborted

definition finish_run :: "workflow_host \<Rightarrow> bool \<Rightarrow> (workflow_error + json option) \<Rightarrow> workflow_run \<Rightarrow> run_result" where
  "finish_run h aborted outcome s =
     (case outcome of
        Inr v \<Rightarrow> RunOk v (wf_failures s) (wf_count s)
      | Inl e \<Rightarrow>
          if e = WorkflowAborted \<or> aborted then RunAborted
          else if wf_cap_exceeded s \<or> wf_budget_exceeded s then RunOk None (wf_failures s @ [error_text h e]) (wf_count s)
          else RunFailed (error_text h e) (wf_failures s) (wf_count s))"

definition nested_outcome :: "string \<Rightarrow> run_result \<Rightarrow> workflow_error + json option" where
  "nested_outcome name r =
     (case r of
        RunOk v _ _ \<Rightarrow> Inr v
      | RunFailed e _ _ \<Rightarrow> Inl (NestedFailed name e)
      | RunAborted \<Rightarrow> Inl WorkflowAborted)"

section \<open>The brackets of the journal\<close>

text \<open>\<open>openJournal\<close>, \<open>closeJournal\<close> and the \<open>catch\<close> of \<open>executeJournaled\<close> in \<open>tool.ts\<close>.\<close>

definition open_journal ::
  "agent_record list \<Rightarrow> string \<Rightarrow> string \<Rightarrow> json option \<Rightarrow> string \<Rightarrow> string \<Rightarrow> string \<Rightarrow> agent_record \<times> workflow_journal" where
  "open_journal log name script args run_id parent_address call =
     record_run run_id name script args (Some (parent_address, call)) (load_journal log (new_journal run_id (Some call)))"

definition close_journal :: "run_result \<Rightarrow> workflow_journal \<Rightarrow> agent_record \<times> workflow_journal" where
  "close_journal r j =
     (case r of
        RunOk v failures n \<Rightarrow> record_outcome WfCompleted True v None failures n j
      | RunFailed e failures n \<Rightarrow> record_outcome WfFailed False None (Some e) failures n j
      | RunAborted \<Rightarrow>
          record_outcome WfAborted False None (Some ''Workflow aborted.'')
            (List.map_filter (\<lambda>(fs, _). if map_of fs ''type'' = Some (JStr ''error'') then entry_string ''error'' fs else None) (jn_events j))
            (length (filter (\<lambda>(fs, _). map_of fs ''type'' = Some (JStr ''started'')) (jn_events j))) j)"

section \<open>A structured agent\<close>

text \<open>
  The attempts of \<open>runAgent\<close> for a schema: what each run of the subagent captured and spent. \<open>validate\<close>
  is the validator's error of a value, if any.
\<close>

datatype structured_result = Structured json nat | Unstructured string

fun structured_attempts ::
  "(json \<Rightarrow> string option) \<Rightarrow> nat \<Rightarrow> nat \<Rightarrow> string \<Rightarrow> (nat \<Rightarrow> json option \<times> nat) \<Rightarrow> structured_result" where
  "structured_attempts validate 0 spent err answer =
     Unstructured (''subagent produced no schema-valid structured output after 3 attempts: '' @ err)"
| "structured_attempts validate (Suc left) spent err answer =
     (case answer left of
        (None, tokens) \<Rightarrow> structured_attempts validate left (spent + tokens) ''you did not call StructuredOutput'' answer
      | (Some v, tokens) \<Rightarrow>
          (case validate v of
             None \<Rightarrow> Structured v (spent + tokens)
           | Some e \<Rightarrow> structured_attempts validate left (spent + tokens) e answer))"

definition structured_agent :: "(json \<Rightarrow> string option) \<Rightarrow> (nat \<Rightarrow> json option \<times> nat) \<Rightarrow> structured_result" where
  "structured_agent validate answer = structured_attempts validate 3 0 [] (\<lambda>left. answer (2 - left))"

end
