(* ===== verification/Workflow_Resume.thy ===== *)
theory Workflow_Resume
  imports Workflow_Run
begin

text \<open>
  Resuming a workflow: which calls of a later run the journal of an earlier one answers.

  A run is the list of the steps its hooks and its agents take. What the run asked and what its
  agents answered is kept beside it, to state the property without the journal.
\<close>

section \<open>Runs\<close>

datatype workflow_op =
    CallAgent bool string hook_options
  | Dispatch bool nat
  | AgentStarts nat string string
  | AgentFails nat string
  | AgentReturns nat string string "json option" nat
  | LogLine string
  | EnterPhase string

definition waiting_call :: "nat \<Rightarrow> workflow_run \<Rightarrow> agent_call option" where
  "waiting_call i s =
     (case map_of (wf_calls s) i of
        Some c \<Rightarrow> if \<not> ac_running c \<and> i \<in> set (sm_holders (wf_semaphore s)) then Some c else None
      | None \<Rightarrow> None)"

definition running_call :: "nat \<Rightarrow> workflow_run \<Rightarrow> agent_call option" where
  "running_call i s =
     (case map_of (wf_calls s) i of Some c \<Rightarrow> if ac_running c then Some c else None | None \<Rightarrow> None)"

text \<open>A step of a call that is not where the step finds it does not happen.\<close>

fun workflow_step :: "workflow_host \<Rightarrow> workflow_op \<Rightarrow> workflow_run \<Rightarrow> workflow_run" where
  "workflow_step h (CallAgent aborted prompt opts) s = snd (agent_enter h aborted prompt opts s)"
| "workflow_step h (Dispatch aborted i) s =
     (case waiting_call i s of Some c \<Rightarrow> snd (agent_dispatch h aborted i c s) | None \<Rightarrow> s)"
| "workflow_step h (AgentStarts i agent address) s =
     (case running_call i s of Some c \<Rightarrow> agent_started i c agent address s | None \<Rightarrow> s)"
| "workflow_step h (AgentFails i message) s =
     (case running_call i s of Some c \<Rightarrow> snd (agent_failed i c message s) | None \<Rightarrow> s)"
| "workflow_step h (AgentReturns i agent address v tokens) s =
     (case running_call i s of Some c \<Rightarrow> agent_done h i c agent address v tokens s | None \<Rightarrow> s)"
| "workflow_step h (LogLine text) s = log_hook text s"
| "workflow_step h (EnterPhase title) s = resolve_phase title NormalPhase s"

definition workflow_steps :: "workflow_host \<Rightarrow> workflow_op list \<Rightarrow> workflow_run \<Rightarrow> workflow_run" where
  "workflow_steps h = fold (workflow_step h)"

text \<open>The accepted calls, in order, and the results that agents returned, by the number of the call.\<close>

type_synonym asked = "(string \<times> hook_options) list"

fun observe :: "workflow_host \<Rightarrow> workflow_op \<Rightarrow> asked \<times> (nat, journal_result) jsmap \<times> workflow_run \<Rightarrow>
    asked \<times> (nat, journal_result) jsmap \<times> workflow_run" where
  "observe h op (cs, rs, s) =
     ((case op of CallAgent aborted prompt opts \<Rightarrow> if fst (check_caps h aborted s) = None then cs @ [(prompt, opts)] else cs | _ \<Rightarrow> cs),
      (case op of
         AgentReturns i agent address v tokens \<Rightarrow>
           if running_call i s \<noteq> None then jset i \<lparr>jr_agent_id = agent, jr_address = Some address, jr_result = v\<rparr> rs else rs
       | _ \<Rightarrow> rs),
      workflow_step h op s)"

definition observed :: "workflow_host \<Rightarrow> workflow_op list \<Rightarrow> workflow_run \<Rightarrow> asked \<times> (nat, journal_result) jsmap \<times> workflow_run" where
  "observed h ops s = fold (observe h) ops ([], [], s)"

definition call_id :: "string \<times> hook_options \<Rightarrow> string \<times> json" where
  "call_id c = (fst c, sort_deep (JObj (picked_options (snd c))))"

section \<open>The chain of keys\<close>

definition key_chain :: "(string \<Rightarrow> string) \<Rightarrow> asked \<Rightarrow> string" where
  "key_chain sha cs = foldl (\<lambda>prev c. key_for sha prev (fst c) (snd c)) [] cs"

text \<open>The texts that are hashed for the calls.\<close>

fun hashed_after :: "(string \<Rightarrow> string) \<Rightarrow> string \<Rightarrow> asked \<Rightarrow> string list" where
  "hashed_after sha prev [] = []"
| "hashed_after sha prev (c # cs) =
     key_text prev (fst c) (snd c) # hashed_after sha (key_for sha prev (fst c) (snd c)) cs"

definition hashed :: "(string \<Rightarrow> string) \<Rightarrow> asked \<Rightarrow> string list" where
  "hashed sha = hashed_after sha []"

lemma key_chain_Nil [simp]: "key_chain sha [] = []"
  by (simp add: key_chain_def)

lemma key_chain_snoc: "key_chain sha (cs @ [c]) = key_for sha (key_chain sha cs) (fst c) (snd c)"
  by (simp add: key_chain_def)

lemma hashed_after_append:
  "hashed_after sha prev (cs @ ds) = hashed_after sha prev cs @ hashed_after sha (foldl (\<lambda>p c. key_for sha p (fst c) (snd c)) prev cs) ds"
  by (induction cs arbitrary: prev) simp_all

lemma hashed_snoc: "hashed sha (cs @ [c]) = hashed sha cs @ [key_text (key_chain sha cs) (fst c) (snd c)]"
  by (simp add: hashed_def hashed_after_append key_chain_def)

lemma hashed_take: "set (hashed sha (take i cs)) \<subseteq> set (hashed sha cs)"
proof -
  have "set (hashed sha as) \<subseteq> set (hashed sha (as @ bs))" for as bs by (simp add: hashed_def hashed_after_append)
  then show ?thesis by (metis append_take_drop_id)
qed

lemma key_chain_no_nul:
  assumes "\<And>x. nul \<notin> set (sha x)"
  shows "nul \<notin> set (key_chain sha cs)"
  by (cases cs rule: rev_cases) (use assms in \<open>auto simp: key_chain_snoc key_for_def journal_key_version_def nul_def\<close>)

lemma key_text_same:
  assumes "nul \<notin> set prev" "nul \<notin> set prev'"
  shows "key_text prev (fst c) (snd c) = key_text prev' (fst d) (snd d) \<longleftrightarrow> prev = prev' \<and> call_id c = call_id d"
proof -
  have "key_text p m z = (p @ nul # m) @ nul # stable_opts z" for p m z by (simp add: key_text_def)
  then have "key_text prev (fst c) (snd c) = key_text prev' (fst d) (snd d) \<longleftrightarrow>
      prev @ nul # fst c = prev' @ nul # fst d \<and> stable_opts (snd c) = stable_opts (snd d)"
    by (simp only:) (rule split_last; simp only: stable_opts_def nul_json not_False_eq_True)
  also have "\<dots> \<longleftrightarrow> (prev = prev' \<and> fst c = fst d) \<and> stable_opts (snd c) = stable_opts (snd d)"
    by (simp only: split_first [OF assms])
  finally show ?thesis by (simp only: stable_opts_def json_stringify_inj conj_assoc call_id_def prod.inject)
qed

lemma key_for_cong: "call_id c = call_id d \<Longrightarrow> key_for sha prev (fst c) (snd c) = key_for sha prev (fst d) (snd d)"
  by (simp add: key_for_def key_text_def stable_opts_def call_id_def)

text \<open>Where no two hashed texts collide, a key names the whole list of calls it stands for.\<close>

lemma key_chain_same:
  assumes "\<And>x. nul \<notin> set (sha x)" "inj_on sha (set (hashed sha cs) \<union> set (hashed sha ds))"
  shows "key_chain sha cs = key_chain sha ds \<longleftrightarrow> map call_id cs = map call_id ds"
  using assms(2)
proof (induction cs arbitrary: ds rule: rev_induct)
  case Nil
  then show ?case by (cases ds rule: rev_cases) (auto simp: key_chain_snoc key_for_def journal_key_version_def)
next
  case (snoc c cs)
  show ?case
  proof (cases ds rule: rev_cases)
    case Nil
    then show ?thesis by (simp add: key_chain_snoc key_for_def journal_key_version_def)
  next
    case (snoc ds' d)
    have inj: "inj_on sha (set (hashed sha cs) \<union> set (hashed sha ds'))"
      by (rule inj_on_subset [OF snoc.prems]) (auto simp: hashed_snoc snoc)
    have ih: "key_chain sha cs = key_chain sha ds' \<longleftrightarrow> map call_id cs = map call_id ds'"
      by (rule snoc.IH [OF inj])
    let ?t = "key_text (key_chain sha cs) (fst c) (snd c)" and ?u = "key_text (key_chain sha ds') (fst d) (snd d)"
    have "key_chain sha (cs @ [c]) = key_chain sha ds \<longleftrightarrow> sha ?t = sha ?u"
      by (simp add: snoc key_chain_snoc key_for_def)
    also have "\<dots> \<longleftrightarrow> ?t = ?u"
      by (rule inj_on_eq_iff [OF snoc.prems]) (simp_all add: hashed_snoc snoc)
    also have "\<dots> \<longleftrightarrow> key_chain sha cs = key_chain sha ds' \<and> call_id c = call_id d"
      by (rule key_text_same) (rule key_chain_no_nul [OF assms(1)])+
    finally show ?thesis by (simp add: ih snoc)
  qed
qed

section \<open>What a step changes\<close>

lemma journaled_fields [simp]:
  "wf_prev_key (journaled f s) = wf_prev_key s" "wf_diverged (journaled f s) = wf_diverged s"
  "wf_count (journaled f s) = wf_count s" "wf_spent (journaled f s) = wf_spent s"
  "wf_semaphore (journaled f s) = wf_semaphore s" "wf_calls (journaled f s) = wf_calls s"
  "wf_failures (journaled f s) = wf_failures s" "wf_phases (journaled f s) = wf_phases s"
  "wf_journal (journaled f s) = snd (f (wf_journal s))" "wf_log (journaled f s) = wf_log s @ [fst (f (wf_journal s))]"
  by (simp_all add: journaled_def split: prod.split)

lemma emit_fields [simp]:
  "wf_prev_key (emit p s) = wf_prev_key s" "wf_diverged (emit p s) = wf_diverged s" "wf_count (emit p s) = wf_count s"
  "wf_spent (emit p s) = wf_spent s" "wf_semaphore (emit p s) = wf_semaphore s" "wf_calls (emit p s) = wf_calls s"
  "wf_failures (emit p s) = wf_failures s" "wf_phases (emit p s) = wf_phases s"
  "wf_journal (emit p s) = wf_journal s" "wf_log (emit p s) = wf_log s"
  by (simp_all add: emit_def)

lemma recorded_results [simp]:
  "jn_results (snd (record_log x j)) = jn_results j" "jn_results (snd (record_queued k l j)) = jn_results j"
  "jn_results (snd (record_started k a l j)) = jn_results j" "jn_results (snd (record_error k a m l j)) = jn_results j"
  "jn_results (snd (record_phase i t b j)) = jn_results j"
  "jn_results (snd (record_result k a v l j)) =
     jset k \<lparr>jr_agent_id = a, jr_address = al_address l, jr_result = v\<rparr> (jn_results j)"
  by (simp_all add: record_defs append_entry_def Let_def)

lemma check_caps_cases:
  obtains "check_caps h aborted s = (None, s)"
  | e b c where "check_caps h aborted s = (Some e, s\<lparr>wf_cap_exceeded := b, wf_budget_exceeded := c\<rparr>)"
proof -
  have "s = s\<lparr>wf_cap_exceeded := wf_cap_exceeded s, wf_budget_exceeded := wf_budget_exceeded s\<rparr>"
    "s\<lparr>wf_cap_exceeded := b\<rparr> = s\<lparr>wf_cap_exceeded := b, wf_budget_exceeded := wf_budget_exceeded s\<rparr>"
    "s\<lparr>wf_budget_exceeded := b\<rparr> = s\<lparr>wf_cap_exceeded := wf_cap_exceeded s, wf_budget_exceeded := b\<rparr>" for b by simp_all
  then show ?thesis using that unfolding check_caps_def by (metis (full_types))
qed

text \<open>Every step writes its records through the journal.\<close>

definition journals :: "workflow_run \<Rightarrow> workflow_run \<Rightarrow> bool" where
  "journals s s' \<longleftrightarrow> (\<exists>ops rs. run_journal ops (wf_journal s) = (rs, wf_journal s') \<and> wf_log s' = wf_log s @ rs)"

lemma run_journal_append:
  "run_journal xs j = (rs, j') \<Longrightarrow> run_journal ys j' = (rs', j'') \<Longrightarrow> run_journal (xs @ ys) j = (rs @ rs', j'')"
  by (induction xs arbitrary: j rs) (auto split: prod.splits)

lemma journals_trans [trans]: "journals s t \<Longrightarrow> journals t u \<Longrightarrow> journals s u"
  unfolding journals_def using run_journal_append by fastforce

lemma journals_same: "wf_journal s' = wf_journal s \<Longrightarrow> wf_log s' = wf_log s \<Longrightarrow> journals s s'"
  unfolding journals_def by (intro exI [of _ "[]"]) simp

lemma journals_record:
  assumes "journals s0 s" "\<And>j. f j = journal_step x j"
  shows "journals s0 (journaled f s)"
proof -
  have "journals s (journaled f s)"
    unfolding journals_def by (intro exI [of _ "[x]"]) (simp add: assms(2) split: prod.split)
  then show ?thesis using assms(1) journals_trans by blast
qed

lemma journals_recorded [simp]:
  "journals s0 s \<Longrightarrow> journals s0 (journaled (record_log text) s)"
  "journals s0 s \<Longrightarrow> journals s0 (journaled (record_started k a l) s)"
  "journals s0 s \<Longrightarrow> journals s0 (journaled (record_error k a m l) s)"
  "journals s0 s \<Longrightarrow> journals s0 (journaled (record_result k a v l) s)"
  "journals s0 s \<Longrightarrow> journals s0 (journaled (record_phase i t b) s)"
  by (erule journals_record [where x = "NoteLog text"], simp, erule journals_record [where x = "NoteStarted k a l"], simp,
      erule journals_record [where x = "NoteError k a m l"], simp, erule journals_record [where x = "NoteResult k a v l"], simp,
      erule journals_record [where x = "NotePhase i t b"], simp)

lemma journals_queued [simp]: "journals s0 s \<Longrightarrow> journals s0 (journaled (record_queued k (label_of_call i p z)) s)"
  by (erule journals_record [where x = "NoteQueued k i (label_of_call i p z)"]) (simp add: label_of_call_def)

lemma journals_refl [simp]: "journals s s"
  by (rule journals_same) simp_all

lemma journals_other [simp]:
  "journals s0 (emit p s) = journals s0 s" "journals s0 (s\<lparr>wf_prev_key := k\<rparr>) = journals s0 s"
  "journals s0 (s\<lparr>wf_diverged := b\<rparr>) = journals s0 s" "journals s0 (s\<lparr>wf_count := n\<rparr>) = journals s0 s"
  "journals s0 (s\<lparr>wf_spent := n\<rparr>) = journals s0 s" "journals s0 (s\<lparr>wf_cap_exceeded := b\<rparr>) = journals s0 s"
  "journals s0 (s\<lparr>wf_budget_exceeded := b\<rparr>) = journals s0 s" "journals s0 (s\<lparr>wf_semaphore := sem\<rparr>) = journals s0 s"
  "journals s0 (s\<lparr>wf_calls := m\<rparr>) = journals s0 s" "journals s0 (s\<lparr>wf_failures := fs\<rparr>) = journals s0 s"
  "journals s0 (s\<lparr>wf_phases := ps\<rparr>) = journals s0 s"
  by (simp_all add: journals_def)

lemma workflow_step_journals: "journals s (workflow_step h op s)"
proof (cases op)
  case (CallAgent aborted prompt opts)
  then show ?thesis
    by (cases rule: check_caps_cases [of h aborted s])
      (simp_all add: agent_enter_def queue_call_def Let_def split: option.split)
qed (simp_all add: agent_dispatch_def refuse_call_def close_call_def agent_started_def agent_failed_def agent_done_def
    log_hook_def resolve_phase_def Let_def split: option.split)

section \<open>What the journal holds of a run\<close>

definition holds_run :: "(string \<Rightarrow> string) \<Rightarrow> asked \<Rightarrow> (nat, journal_result) jsmap \<Rightarrow> workflow_run \<Rightarrow> bool" where
  "holds_run sha cs rs s \<longleftrightarrow>
     wf_count s = length cs \<and> wf_prev_key s = key_chain sha cs \<and>
     (\<forall>i c. map_of (wf_calls s) i = Some c \<longrightarrow>
        0 < i \<and> i \<le> length cs \<and> ac_key c = key_chain sha (take i cs) \<and> map_of rs i = None) \<and>
     (\<forall>i r. map_of rs i = Some r \<longrightarrow>
        0 < i \<and> i \<le> length cs \<and> get_result (key_chain sha (take i cs)) (wf_journal s) \<noteq> None) \<and>
     (\<forall>k r. get_result k (wf_journal s) = Some r \<longrightarrow> (\<exists>i. map_of rs i = Some r \<and> k = key_chain sha (take i cs)))"

lemma holds_runI:
  assumes "wf_count s = length cs" "wf_prev_key s = key_chain sha cs"
    "\<And>i c. map_of (wf_calls s) i = Some c \<Longrightarrow> 0 < i \<and> i \<le> length cs \<and> ac_key c = key_chain sha (take i cs) \<and> map_of rs i = None"
    "\<And>i r. map_of rs i = Some r \<Longrightarrow> 0 < i \<and> i \<le> length cs \<and> get_result (key_chain sha (take i cs)) (wf_journal s) \<noteq> None"
    "\<And>k r. get_result k (wf_journal s) = Some r \<Longrightarrow> \<exists>i. map_of rs i = Some r \<and> k = key_chain sha (take i cs)"
  shows "holds_run sha cs rs s"
  using assms unfolding holds_run_def by blast

lemma holds_runD:
  assumes "holds_run sha cs rs s"
  shows "wf_count s = length cs" "wf_prev_key s = key_chain sha cs"
    "map_of (wf_calls s) i = Some c \<Longrightarrow> 0 < i \<and> i \<le> length cs \<and> ac_key c = key_chain sha (take i cs) \<and> map_of rs i = None"
    "map_of rs i = Some r \<Longrightarrow> 0 < i \<and> i \<le> length cs \<and> get_result (key_chain sha (take i cs)) (wf_journal s) \<noteq> None"
    "get_result k (wf_journal s) = Some r \<Longrightarrow> \<exists>i. map_of rs i = Some r \<and> k = key_chain sha (take i cs)"
  using assms unfolding holds_run_def by blast+

lemma holds_run_frame:
  assumes h: "holds_run sha cs rs s" and "wf_count s' = wf_count s" "wf_prev_key s' = wf_prev_key s"
    and same: "jn_results (wf_journal s') = jn_results (wf_journal s)"
    and calls: "\<And>i c'. map_of (wf_calls s') i = Some c' \<Longrightarrow> \<exists>c. map_of (wf_calls s) i = Some c \<and> ac_key c' = ac_key c"
  shows "holds_run sha cs rs s'"
proof (rule holds_runI)
  have eq: "get_result k (wf_journal s') = get_result k (wf_journal s)" for k using same by (simp add: get_result_def)
  show "wf_count s' = length cs" "wf_prev_key s' = key_chain sha cs" using assms(2,3) holds_runD(1,2) [OF h] by simp_all
  show "0 < i \<and> i \<le> length cs \<and> ac_key c = key_chain sha (take i cs) \<and> map_of rs i = None"
    if "map_of (wf_calls s') i = Some c" for i c using calls [OF that] holds_runD(3) [OF h] by auto
  show "0 < i \<and> i \<le> length cs \<and> get_result (key_chain sha (take i cs)) (wf_journal s') \<noteq> None"
    if "map_of rs i = Some r" for i r using holds_runD(4) [OF h that] by (simp add: eq)
  show "\<exists>i. map_of rs i = Some r \<and> k = key_chain sha (take i cs)" if "get_result k (wf_journal s') = Some r" for k r
    using that holds_runD(5) [OF h] by (simp add: eq)
qed

lemma holds_run_call:
  assumes h: "holds_run sha cs rs s" and "wf_count s' = wf_count s + 1"
    and key: "wf_prev_key s' = key_for sha (wf_prev_key s) (fst c) (snd c)"
    and same: "jn_results (wf_journal s') = jn_results (wf_journal s)"
    and calls: "\<And>i a. map_of (wf_calls s') i = Some a \<Longrightarrow> map_of (wf_calls s) i = Some a \<or> i = wf_count s + 1 \<and> ac_key a = wf_prev_key s'"
  shows "holds_run sha (cs @ [c]) rs s'"
proof (rule holds_runI)
  have eq: "get_result k (wf_journal s') = get_result k (wf_journal s)" for k using same by (simp add: get_result_def)
  show n: "wf_count s' = length (cs @ [c])" using assms(2) holds_runD(1) [OF h] by simp
  show k: "wf_prev_key s' = key_chain sha (cs @ [c])" using key holds_runD(2) [OF h] by (simp add: key_chain_snoc)
  have new: "map_of rs (wf_count s + 1) = None"
    using holds_runD(1) [OF h] holds_runD(4) [OF h, of "wf_count s + 1"] by (cases "map_of rs (wf_count s + 1)") auto
  show "0 < i \<and> i \<le> length (cs @ [c]) \<and> ac_key a = key_chain sha (take i (cs @ [c])) \<and> map_of rs i = None"
    if "map_of (wf_calls s') i = Some a" for i a
    using calls [OF that]
  proof
    assume "map_of (wf_calls s) i = Some a"
    then show ?thesis using holds_runD(3) [OF h, of i a] by simp
  next
    assume "i = wf_count s + 1 \<and> ac_key a = wf_prev_key s'"
    then show ?thesis using new k holds_runD(1) [OF h] by simp
  qed
  show "0 < i \<and> i \<le> length (cs @ [c]) \<and> get_result (key_chain sha (take i (cs @ [c]))) (wf_journal s') \<noteq> None"
    if "map_of rs i = Some r" for i r using holds_runD(4) [OF h that] by (simp add: eq)
  show "\<exists>i. map_of rs i = Some r \<and> key = key_chain sha (take i (cs @ [c]))" if "get_result key (wf_journal s') = Some r" for key r
  proof -
    obtain i where i: "map_of rs i = Some r" "key = key_chain sha (take i cs)" using holds_runD(5) [OF h] \<open>get_result key (wf_journal s') = Some r\<close> eq by metis
    then show ?thesis using holds_runD(4) [OF h i(1)] by (intro exI [of _ i]) simp
  qed
qed

lemma holds_run_return:
  assumes h: "holds_run sha cs rs s" and c: "map_of (wf_calls s) i = Some c"
    and "wf_count s' = wf_count s" "wf_prev_key s' = wf_prev_key s"
    and res: "jn_results (wf_journal s') = jset (ac_key c) r (jn_results (wf_journal s))"
    and calls: "wf_calls s' = jdelete i (wf_calls s)"
  shows "holds_run sha cs (jset i r rs) s'"
proof (rule holds_runI)
  note at_i = holds_runD(3) [OF h c]
  have eq: "get_result k (wf_journal s') = (if k = ac_key c then Some r else get_result k (wf_journal s))" for k
    using res by (simp add: get_result_def)
  show "wf_count s' = length cs" "wf_prev_key s' = key_chain sha cs" using assms(3,4) holds_runD(1,2) [OF h] by simp_all
  show "0 < i' \<and> i' \<le> length cs \<and> ac_key c' = key_chain sha (take i' cs) \<and> map_of (jset i r rs) i' = None"
    if "map_of (wf_calls s') i' = Some c'" for i' c'
    using that holds_runD(3) [OF h, of i' c'] by (simp add: calls split: if_splits)
  show "0 < i' \<and> i' \<le> length cs \<and> get_result (key_chain sha (take i' cs)) (wf_journal s') \<noteq> None"
    if "map_of (jset i r rs) i' = Some r'" for i' r'
    using that holds_runD(4) [OF h, of i' r'] at_i by (cases "i' = i") (simp_all add: eq)
  show "\<exists>i'. map_of (jset i r rs) i' = Some r' \<and> k = key_chain sha (take i' cs)"
    if "get_result k (wf_journal s') = Some r'" for k r'
  proof (cases "k = ac_key c")
    case True
    then show ?thesis using that at_i by (intro exI [of _ i]) (simp add: eq)
  next
    case False
    then have "get_result k (wf_journal s) = Some r'" using that by (simp add: eq)
    then obtain i' where i': "map_of rs i' = Some r'" "k = key_chain sha (take i' cs)"
      using holds_runD(5) [OF h] by blast
    then have "i' \<noteq> i" using at_i by auto
    then show ?thesis using i' by (intro exI [of _ i']) simp
  qed
qed

lemma other_step_holds:
  assumes "holds_run sha cs rs s" "\<And>b p z. op \<noteq> CallAgent b p z" "\<And>i a d v t. op \<noteq> AgentReturns i a d v t"
  shows "holds_run sha cs rs (workflow_step h op s)"
  by (rule holds_run_frame [OF assms(1)]; cases op)
    (use assms(2,3) in \<open>auto simp: waiting_call_def running_call_def agent_dispatch_def refuse_call_def
      close_call_def agent_started_def agent_failed_def log_hook_def resolve_phase_def Let_def split: option.splits if_splits\<close>)

lemma observe_holds:
  assumes "holds_run (wh_sha h) cs rs s" "observe h op (cs, rs, s) = (cs', rs', s')"
  shows "holds_run (wh_sha h) cs' rs' s'"
proof (cases op)
  case (CallAgent aborted prompt opts)
  show ?thesis
  proof (cases rule: check_caps_cases [of h aborted s])
    case 1
    have s': "s' = snd (agent_enter h aborted prompt opts s)" "cs' = cs @ [(prompt, opts)]" "rs' = rs"
      using assms(2) CallAgent 1 by auto
    show ?thesis
      unfolding s'(2,3) by (rule holds_run_call [OF assms(1)])
        (auto simp: s'(1) agent_enter_def 1 queue_call_def Let_def split: option.splits if_splits)
  next
    case (2 e b c)
    then have "s' = s\<lparr>wf_cap_exceeded := b, wf_budget_exceeded := c\<rparr>" "cs' = cs" "rs' = rs"
      using assms(2) CallAgent by (auto simp: agent_enter_def)
    then show ?thesis by (intro holds_run_frame [OF assms(1), folded \<open>cs' = cs\<close> \<open>rs' = rs\<close>]) simp_all
  qed
next
  case (AgentReturns i agent address v tokens)
  show ?thesis
  proof (cases "running_call i s")
    case None
    then show ?thesis using assms AgentReturns by simp
  next
    case (Some c)
    then have c: "map_of (wf_calls s) i = Some c" by (auto simp: running_call_def split: option.splits if_splits)
    have s': "s' = agent_done h i c agent address v tokens s" "cs' = cs"
      "rs' = jset i \<lparr>jr_agent_id = agent, jr_address = Some address, jr_result = v\<rparr> rs"
      using assms(2) AgentReturns Some by auto
    show ?thesis
      unfolding s'(2,3) by (rule holds_run_return [OF assms(1) c]) (simp_all add: s'(1) agent_done_def close_call_def Let_def)
  qed
qed (use assms other_step_holds [OF assms(1), of op h] in simp_all)

lemma observed_snoc: "observed h (ops @ [op]) s = observe h op (observed h ops s)"
  by (simp add: observed_def)

lemma observed_holds:
  "holds_run (wh_sha h) [] [] s \<Longrightarrow> observed h ops s = (cs, rs, s') \<Longrightarrow> holds_run (wh_sha h) cs rs s'"
proof (induction ops arbitrary: cs rs s' rule: rev_induct)
  case (snoc op ops)
  obtain cs1 rs1 s1 where o: "observed h ops s = (cs1, rs1, s1)" by (cases "observed h ops s")
  show ?case by (rule observe_holds [OF snoc.IH [OF snoc.prems(1) o]]) (use snoc.prems(2) o in \<open>simp only: observed_snoc\<close>)
qed (simp add: observed_def)

lemma observed_journals: "observed h ops s = (cs, rs, s') \<Longrightarrow> journals s s'"
proof (induction ops arbitrary: cs rs s' rule: rev_induct)
  case (snoc op ops)
  obtain cs1 rs1 s1 where o: "observed h ops s = (cs1, rs1, s1)" by (cases "observed h ops s")
  then have "s' = workflow_step h op s1" using snoc.prems by (simp add: observed_snoc)
  then show ?case using snoc.IH [OF o] workflow_step_journals journals_trans by blast
qed (simp add: observed_def)

text \<open>Entering the phases a workflow declares changes nothing a later call depends on.\<close>

lemma start_run_fields:
  "wf_count (start_run h phases j) = 0" "wf_prev_key (start_run h phases j) = []" "wf_calls (start_run h phases j) = []"
  "\<not> wf_diverged (start_run h phases j)" "jn_results (wf_journal (start_run h phases j)) = jn_results j"
  "journals (new_run h j) (start_run h phases j)"
proof -
  have "wf_count t = wf_count s \<and> wf_prev_key t = wf_prev_key s \<and> wf_calls t = wf_calls s \<and> wf_diverged t = wf_diverged s \<and>
      jn_results (wf_journal t) = jn_results (wf_journal s) \<and> journals s t"
    if "t = fold (\<lambda>title. resolve_phase title NormalPhase) phases s" for s t
    using that
  proof (induction phases arbitrary: s)
    case (Cons p ps)
    let ?s = "resolve_phase p NormalPhase s"
    have "journals s ?s" using workflow_step_journals [of s h "EnterPhase p"] by simp
    moreover have "wf_count ?s = wf_count s \<and> wf_prev_key ?s = wf_prev_key s \<and> wf_calls ?s = wf_calls s \<and>
        wf_diverged ?s = wf_diverged s \<and> jn_results (wf_journal ?s) = jn_results (wf_journal s)"
      by (simp add: resolve_phase_def Let_def)
    moreover note Cons.IH [of ?s]
    ultimately show ?case using Cons.prems journals_trans [of s ?s t] by simp
  qed simp
  note start = this [OF start_run_def [of h phases j]]
  have "wf_count (new_run h j) = 0" "wf_prev_key (new_run h j) = []" "wf_calls (new_run h j) = []"
    "\<not> wf_diverged (new_run h j)" "wf_journal (new_run h j) = j" by (simp_all add: new_run_def)
  then show "wf_count (start_run h phases j) = 0" "wf_prev_key (start_run h phases j) = []" "wf_calls (start_run h phases j) = []"
    "\<not> wf_diverged (start_run h phases j)" "jn_results (wf_journal (start_run h phases j)) = jn_results j"
    "journals (new_run h j) (start_run h phases j)"
    using start by simp_all
qed

section \<open>A run on a loaded journal\<close>

definition follows :: "(string \<Rightarrow> string) \<Rightarrow> workflow_journal \<Rightarrow> asked \<Rightarrow> workflow_run \<Rightarrow> bool" where
  "follows sha j ds s \<longleftrightarrow>
     wf_count s = length ds \<and> wf_prev_key s = key_chain sha ds \<and>
     (wf_diverged s \<longleftrightarrow> (\<exists>i < length ds. get_result (key_chain sha (take (Suc i) ds)) j = None)) \<and>
     (\<not> wf_diverged s \<longrightarrow> wf_calls s = [] \<and> jn_results (wf_journal s) = jn_results j)"

lemma follows_frame:
  assumes "follows sha j ds s" "wf_count s' = wf_count s" "wf_prev_key s' = wf_prev_key s" "wf_diverged s' = wf_diverged s"
    "wf_calls s = [] \<Longrightarrow> wf_calls s' = [] \<and> jn_results (wf_journal s') = jn_results (wf_journal s)"
  shows "follows sha j ds s'"
  using assms by (auto simp: follows_def)

lemma no_calls: "wf_calls s = [] \<Longrightarrow> waiting_call i s = None \<and> running_call i s = None"
  by (simp add: waiting_call_def running_call_def)

lemma other_step_follows:
  assumes "follows sha j ds s" "\<And>b p z. op \<noteq> CallAgent b p z"
  shows "follows sha j ds (workflow_step h op s)"
  by (rule follows_frame [OF assms(1)]; cases op)
    (use assms(2) in \<open>auto simp: no_calls agent_dispatch_def refuse_call_def close_call_def agent_started_def agent_failed_def
      agent_done_def log_hook_def resolve_phase_def Let_def split: option.split\<close>)

lemma agent_enter_hit:
  assumes "check_caps h aborted s = (None, s)" "\<not> wf_diverged s"
    "get_result (key_for (wh_sha h) (wf_prev_key s) prompt opts) (wf_journal s) = Some r"
  shows "fst (agent_enter h aborted prompt opts s) = Inr (FromJournal (jr_result r))"
    "\<exists>p. snd (agent_enter h aborted prompt opts s) =
       emit p (s\<lparr>wf_count := wf_count s + 1, wf_prev_key := key_for (wh_sha h) (wf_prev_key s) prompt opts\<rparr>)"
  using assms by (simp_all add: agent_enter_def Let_def) blast

lemma agent_enter_miss:
  assumes "check_caps h aborted s = (None, s)"
    "wf_diverged s \<or> get_result (key_for (wh_sha h) (wf_prev_key s) prompt opts) (wf_journal s) = None"
  shows "\<exists>i. fst (agent_enter h aborted prompt opts s) = Inr (Queued i)"
    "wf_count (snd (agent_enter h aborted prompt opts s)) = wf_count s + 1"
    "wf_prev_key (snd (agent_enter h aborted prompt opts s)) = key_for (wh_sha h) (wf_prev_key s) prompt opts"
    "wf_diverged (snd (agent_enter h aborted prompt opts s))"
  using assms by (auto simp: agent_enter_def queue_call_def Let_def split: option.split)

lemma call_follows:
  assumes f: "follows (wh_sha h) j ds s" and caps: "check_caps h aborted s = (None, s)"
  shows "follows (wh_sha h) j (ds @ [(prompt, opts)]) (snd (agent_enter h aborted prompt opts s))"
proof -
  let ?key = "key_for (wh_sha h) (wf_prev_key s) prompt opts"
  have key: "?key = key_chain (wh_sha h) (ds @ [(prompt, opts)])" using f by (simp add: follows_def key_chain_snoc)
  have ex: "(\<exists>i < length (ds @ [c]). get_result (key_chain (wh_sha h) (take (Suc i) (ds @ [c]))) j = None) \<longleftrightarrow>
      (\<exists>i < length ds. get_result (key_chain (wh_sha h) (take (Suc i) ds)) j = None) \<or>
      get_result (key_chain (wh_sha h) (ds @ [c])) j = None" for c
    by (auto simp: less_Suc_eq)
  show ?thesis
  proof (cases "wf_diverged s \<or> get_result ?key (wf_journal s) = None")
    case True
    then have "wf_diverged s \<or> get_result (key_chain (wh_sha h) (ds @ [(prompt, opts)])) j = None"
      using f key by (auto simp: follows_def get_result_def)
    then show ?thesis using f agent_enter_miss [OF caps True] key unfolding follows_def ex by simp
  next
    case False
    then obtain r where hit: "\<not> wf_diverged s" "get_result ?key (wf_journal s) = Some r" by auto
    obtain p where p: "snd (agent_enter h aborted prompt opts s) = emit p (s\<lparr>wf_count := wf_count s + 1, wf_prev_key := ?key\<rparr>)"
      using agent_enter_hit(2) [OF caps hit] by blast
    have "get_result (key_chain (wh_sha h) (ds @ [(prompt, opts)])) j = Some r"
      using f hit key by (simp add: follows_def get_result_def)
    then show ?thesis using f hit key unfolding follows_def ex p by simp
  qed
qed

lemma observed_follows:
  "follows (wh_sha h) j [] s \<Longrightarrow> observed h ops s = (ds, rs, s') \<Longrightarrow> follows (wh_sha h) j ds s'"
proof (induction ops arbitrary: ds rs s' rule: rev_induct)
  case (snoc op ops)
  obtain ds1 rs1 s1 where o: "observed h ops s = (ds1, rs1, s1)" by (cases "observed h ops s")
  note f = snoc.IH [OF snoc.prems(1) o]
  have s': "(ds, rs, s') = observe h op (ds1, rs1, s1)" using snoc.prems(2) o by (simp add: observed_snoc)
  show ?case
  proof (cases op)
    case (CallAgent aborted prompt opts)
    show ?thesis
    proof (cases rule: check_caps_cases [of h aborted s1])
      case 1
      then show ?thesis using call_follows [OF f 1] s' CallAgent by simp
    next
      case (2 e b c)
      then have "ds = ds1" "s' = s1\<lparr>wf_cap_exceeded := b, wf_budget_exceeded := c\<rparr>"
        using s' CallAgent by (simp_all add: agent_enter_def)
      then show ?thesis by (simp only:) (rule follows_frame [OF f]; simp)
    qed
  qed (use s' other_step_follows [OF f, of op h] in simp_all)
qed (simp add: observed_def)

section \<open>A later run replays the unchanged prefix\<close>

lemma append_entry_results [simp]: "jn_results (snd (append_entry fs j)) = jn_results j"
  by (simp add: append_entry_def Let_def)

lemma close_journal_step: "\<exists>x. close_journal res j = journal_step x j"
proof (cases res)
  case (RunOk v fs n)
  then show ?thesis by (intro exI [of _ "NoteOutcome WfCompleted True v None fs n"]) (simp add: close_journal_def)
next
  case (RunFailed e fs n)
  then show ?thesis by (intro exI [of _ "NoteOutcome WfFailed False None (Some e) fs n"]) (simp add: close_journal_def)
next
  case RunAborted
  show ?thesis unfolding close_journal_def RunAborted run_result.case
    by (rule exI [where x = "NoteOutcome WfAborted False None (Some ''Workflow aborted.'') _ _"]) (simp only: journal_step.simps)
qed

lemma close_journal_results [simp]: "jn_results (snd (close_journal res j)) = jn_results j"
  by (cases res) (simp_all add: close_journal_def record_outcome_def)

lemma open_journal_results [simp]:
  "jn_results (snd (open_journal log name script args run pa call)) = jn_results (load_journal log (new_journal run (Some call)))"
  by (simp add: open_journal_def record_run_def)

text \<open>What a later process loads of a run that was opened, ran, and was closed or not.\<close>

lemma loaded_results:
  assumes start: "open_journal [] name script args run pa call = (r0, j0)" and steps: "journals (new_run h j0) s"
    and closing: "closing = [] \<or> closing = [fst (close_journal res (wf_journal s))]"
    and log: "list_all2 stored_as (r0 # wf_log s @ closing) (filter (\<lambda>r. rec_address r = Some (journal_address run)) log)"
  shows "jn_results (load_journal log (new_journal run call')) = jn_results (wf_journal s)"
proof -
  let ?j = "new_journal run (Some call)" and ?open = "NoteRun run name script args (Some (pa, call))"
  obtain ops where ops: "run_journal ops j0 = (wf_log s, wf_journal s)" using steps by (auto simp: journals_def new_run_def)
  have "journal_step ?open ?j = (r0, j0)" using start by (simp add: open_journal_def load_journal_def)
  then have run: "run_journal (?open # ops) ?j = (r0 # wf_log s, wf_journal s)" using ops by simp
  obtain x where x: "close_journal res (wf_journal s) = journal_step x (wf_journal s)" using close_journal_step by blast
  have "\<exists>ops' j'. run_journal ops' ?j = (r0 # wf_log s @ closing, j') \<and> jn_results j' = jn_results (wf_journal s)"
    using closing
  proof
    assume "closing = []"
    then show ?thesis using run by (intro exI [of _ "?open # ops"] exI [of _ "wf_journal s"]) (simp del: run_journal.simps(2))
  next
    assume c: "closing = [fst (close_journal res (wf_journal s))]"
    have "run_journal [x] (wf_journal s) = (closing, snd (close_journal res (wf_journal s)))"
      by (simp add: c x split: prod.split)
    from run_journal_append [OF run this] show ?thesis
      by (intro exI [of _ "(?open # ops) @ [x]"] exI [of _ "snd (close_journal res (wf_journal s))"])
        (simp del: run_journal.simps(2) append.simps)
  qed
  then obtain ops' j' where ops': "run_journal ops' ?j = (r0 # wf_log s @ closing, j')" "jn_results j' = jn_results (wf_journal s)"
    by blast
  have "same_journal ?j (new_journal run call')" by (simp add: same_journal_def new_journal_def)
  from run_journal_loaded [OF ops'(1) log this] show ?thesis
    using ops'(2) by (simp add: same_journal_def load_journal_def new_journal_def)
qed

text \<open>The journal of a run answers for exactly the lists of calls that the run made and finished.\<close>

lemma journal_answers:
  assumes digest: "\<And>x. nul \<notin> set (sha x)" and holds: "holds_run sha cs rs s"
    and res: "jn_results j = jn_results (wf_journal s)"
    and inj: "inj_on sha (set (hashed sha cs) \<union> set (hashed sha es))" and n: "0 < n" "n \<le> length es"
  shows "get_result (key_chain sha (take n es)) j = Some r \<longleftrightarrow>
    map call_id (take n cs) = map call_id (take n es) \<and> map_of rs n = Some r"
proof -
  have same: "key_chain sha (take n es) = key_chain sha (take i cs) \<longleftrightarrow> map call_id (take n es) = map call_id (take i cs)"
    "key_chain sha (take n cs) = key_chain sha (take i cs) \<longleftrightarrow> map call_id (take n cs) = map call_id (take i cs)" for i
    using hashed_take [of sha n es] hashed_take [of sha i cs] hashed_take [of sha n cs]
    by (intro key_chain_same [OF digest] inj_on_subset [OF inj]; blast)+
  have len: "i = n" if "map call_id (take i cs) = map call_id (take n xs)" "i \<le> length cs" "n \<le> length xs" for i and xs :: asked
    using that by (metis length_map length_take min_absorb2)
  have get: "get_result k j = get_result k (wf_journal s)" for k using res by (simp add: get_result_def)
  show ?thesis
  proof
    assume "get_result (key_chain sha (take n es)) j = Some r"
    then have "get_result (key_chain sha (take n es)) (wf_journal s) = Some r" using get by simp
    then obtain i where i: "map_of rs i = Some r" "key_chain sha (take n es) = key_chain sha (take i cs)"
      using holds_runD(5) [OF holds] by blast
    then have eq: "map call_id (take i cs) = map call_id (take n es)" using same(1) by simp
    moreover have "i = n" using len [OF eq _ n(2)] holds_runD(4) [OF holds i(1)] by blast
    ultimately show "map call_id (take n cs) = map call_id (take n es) \<and> map_of rs n = Some r" using i(1) by simp
  next
    assume r: "map call_id (take n cs) = map call_id (take n es) \<and> map_of rs n = Some r"
    note at_n = holds_runD(4) [OF holds conjunct2 [OF r]]
    then obtain r' where r': "get_result (key_chain sha (take n cs)) (wf_journal s) = Some r'" by auto
    then obtain i where i: "map_of rs i = Some r'" "key_chain sha (take n cs) = key_chain sha (take i cs)"
      using holds_runD(5) [OF holds] by blast
    then have "map call_id (take i cs) = map call_id (take n cs)" using same(2) by simp
    then have "i = n" using len [of i cs] holds_runD(4) [OF holds i(1)] at_n by blast
    then have "r' = r" using i(1) r by simp
    moreover have "key_chain sha (take n es) = key_chain sha (take n cs)" using r same(1) by simp
    ultimately show "get_result (key_chain sha (take n es)) j = Some r" using r' get by simp
  qed
qed

lemma enter_answered:
  assumes follows: "follows (wh_sha h) j ds s" and ok: "check_caps h aborted s = (None, s)"
  shows "fst (agent_enter h aborted prompt opts s) = Inr (FromJournal v) \<longleftrightarrow>
    (\<forall>n. 0 < n \<and> n \<le> length ds \<longrightarrow> get_result (key_chain (wh_sha h) (take n ds)) j \<noteq> None) \<and>
    (\<exists>r. get_result (key_chain (wh_sha h) (ds @ [(prompt, opts)])) j = Some r \<and> jr_result r = v)"
proof -
  let ?sha = "wh_sha h" and ?es = "ds @ [(prompt, opts)]"
  have key: "key_for ?sha (wf_prev_key s) prompt opts = key_chain ?sha ?es"
    using follows by (simp add: follows_def key_chain_snoc)
  have "wf_diverged s \<longleftrightarrow> (\<exists>i < length ds. get_result (key_chain ?sha (take (Suc i) ds)) j = None)"
    using follows unfolding follows_def by (elim conjE)
  then have "\<not> wf_diverged s \<longleftrightarrow> (\<forall>i < length ds. get_result (key_chain ?sha (take (Suc i) ds)) j \<noteq> None)"
    by simp
  also have "\<dots> \<longleftrightarrow> (\<forall>n. 0 < n \<and> n \<le> length ds \<longrightarrow> get_result (key_chain ?sha (take n ds)) j \<noteq> None)"
    by (metis Suc_le_eq Suc_pred zero_less_Suc)
  finally have all: "\<not> wf_diverged s \<longleftrightarrow> \<dots>" .
  have "fst (agent_enter h aborted prompt opts s) = Inr (FromJournal v) \<longleftrightarrow>
      \<not> wf_diverged s \<and> (\<exists>r. get_result (key_chain ?sha ?es) j = Some r \<and> jr_result r = v)"
  proof (cases "wf_diverged s \<or> get_result (key_chain ?sha ?es) (wf_journal s) = None")
    case True
    moreover have "wf_diverged s \<or> get_result (key_chain ?sha ?es) j = None"
      using True follows by (auto simp: follows_def get_result_def)
    ultimately show ?thesis using agent_enter_miss(1) [OF ok, of prompt opts] key by auto
  next
    case False
    then obtain r where r: "\<not> wf_diverged s" "get_result (key_chain ?sha ?es) (wf_journal s) = Some r" by auto
    then have "get_result (key_chain ?sha ?es) j = Some r" using follows by (simp add: follows_def get_result_def)
    then show ?thesis using agent_enter_hit(1) [OF ok, of prompt opts r] key r by simp
  qed
  then show ?thesis using all by simp
qed

lemma run_addresses:
  assumes "open_journal [] name script args run pa call = (r0, j0)" "journals (new_run h j0) s" "r \<in> set (r0 # wf_log s)"
  shows "rec_address r = Some (journal_address run)"
proof -
  let ?j = "new_journal run (Some call)" and ?open = "NoteRun run name script args (Some (pa, call))"
  obtain ops where "run_journal ops j0 = (wf_log s, wf_journal s)" using assms(2) by (auto simp: journals_def new_run_def)
  moreover have "journal_step ?open ?j = (r0, j0)" using assms(1) by (simp add: open_journal_def load_journal_def)
  ultimately have "run_journal (?open # ops) ?j = (r0 # wf_log s, wf_journal s)" by simp
  from run_journal_addresses [OF this assms(3)] show ?thesis by (simp add: new_journal_def)
qed

text \<open>
  C16. A resumed run is answered from the journal exactly while it repeats the earlier run: a call returns the
  recorded result \<open>v\<close> at once if and only if this call and all before it ask the same of the same kind of
  agent, in the same order, as the earlier run did, and every one of them had finished there, the last
  with \<open>v\<close>. The first call that is new, changed or was interrupted, and every call after it, runs again. The
  earlier run may have stopped anywhere. No two of the hashed texts of the two runs may collide.
\<close>

theorem resume_replays_prefix:
  assumes digest: "\<And>x. nul \<notin> set (wh_sha h x)" "wh_sha h' = wh_sha h"
    and "open_journal [] name script args run pa call = (r0, j0)"
    and old: "observed h ops (start_run h phases j0) = (cs, rs, s)"
    and "closing = [] \<or> closing = [fst (close_journal res (wf_journal s))]"
    and "list_all2 stored_as (r0 # wf_log s @ closing) (filter (\<lambda>r. rec_address r = Some (journal_address run)) log)"
    and new: "observed h' ops' (start_run h' phases' (snd (open_journal log name' script' args' run pa' call'))) = (ds, rs', s')"
    and inj: "inj_on (wh_sha h) (set (hashed (wh_sha h) cs) \<union> set (hashed (wh_sha h) (ds @ [(prompt, opts)])))"
    and caps: "fst (check_caps h' aborted s') = None"
  shows "fst (agent_enter h' aborted prompt opts s') = Inr (FromJournal v) \<longleftrightarrow>
    (let n = length ds + 1 in
       map call_id (take n cs) = map call_id (ds @ [(prompt, opts)]) \<and>
       (\<forall>i. 0 < i \<and> i \<le> n \<longrightarrow> map_of rs i \<noteq> None) \<and> map_option jr_result (map_of rs n) = Some v)"
proof -
  let ?sha = "wh_sha h" and ?es = "ds @ [(prompt, opts)]"
  define j where "j = snd (open_journal log name' script' args' run pa' call')"
  have "jn_results j0 = []" using assms(3) by (metis open_journal_results snd_conv load_journal_def filter.simps(1) fold_simps(1)
      new_journal_def workflow_journal.select_convs(3))
  then have "holds_run ?sha [] [] (start_run h phases j0)" by (simp add: holds_run_def start_run_fields get_result_def)
  from observed_holds [OF this old] have holds: "holds_run ?sha cs rs s" .
  have "journals (new_run h j0) s" using start_run_fields(6) observed_journals [OF old] journals_trans by blast
  from loaded_results [OF assms(3) this assms(5,6)] have res: "jn_results j = jn_results (wf_journal s)" by (simp add: j_def)
  have "follows ?sha j [] (start_run h' phases' j)" by (simp add: follows_def start_run_fields)
  then have follows: "follows ?sha j ds s'" using observed_follows [of h' j _ ops' ds rs' s'] new digest(2) by (simp add: j_def)
  have ok: "check_caps h' aborted s' = (None, s')" using caps by (cases rule: check_caps_cases [of h' aborted s']) auto
  have found: "get_result (key_chain ?sha (take n ?es)) j = Some r \<longleftrightarrow>
      map call_id (take n cs) = map call_id (take n ?es) \<and> map_of rs n = Some r" if "0 < n" "n \<le> length ?es" for n r
    by (rule journal_answers [OF digest(1) holds res inj that])
  have "fst (agent_enter h' aborted prompt opts s') = Inr (FromJournal v) \<longleftrightarrow>
      (\<forall>n. 0 < n \<and> n \<le> length ds \<longrightarrow> get_result (key_chain ?sha (take n ?es)) j \<noteq> None) \<and>
      (\<exists>r. get_result (key_chain ?sha (take (length ?es) ?es)) j = Some r \<and> jr_result r = v)"
    using enter_answered [of h' j ds s' aborted prompt opts v] follows ok digest(2) by simp
  also have "\<dots> \<longleftrightarrow>
      (\<forall>n. 0 < n \<and> n \<le> length ds \<longrightarrow> map call_id (take n cs) = map call_id (take n ?es) \<and> map_of rs n \<noteq> None) \<and>
      map call_id (take (length ?es) cs) = map call_id ?es \<and> map_option jr_result (map_of rs (length ?es)) = Some v"
  proof -
    have "get_result (key_chain ?sha (take n ?es)) j \<noteq> None \<longleftrightarrow> map call_id (take n cs) = map call_id (take n ?es) \<and> map_of rs n \<noteq> None"
      if "0 < n" "n \<le> length ds" for n
      unfolding not_None_eq using found [of n] that by simp
    moreover have "get_result (key_chain ?sha (take (length ?es) ?es)) j = Some r \<longleftrightarrow>
        map call_id (take (length ?es) cs) = map call_id ?es \<and> map_of rs (length ?es) = Some r" for r
      using found [of "length ?es" r] by simp
    ultimately show ?thesis by (simp only: cong: conj_cong imp_cong) auto
  qed
  also have "\<dots> \<longleftrightarrow>
      map call_id (take (length ?es) cs) = map call_id ?es \<and>
      (\<forall>i. 0 < i \<and> i \<le> length ?es \<longrightarrow> map_of rs i \<noteq> None) \<and> map_option jr_result (map_of rs (length ?es)) = Some v"
  proof -
    have "map call_id (take n cs) = map call_id (take n ?es)"
      if "map call_id (take (length ?es) cs) = map call_id ?es" "n \<le> length ds" for n
      using arg_cong [OF that(1), of "take n"] that(2) by (simp add: take_map min_def)
    then show ?thesis by (auto simp: le_Suc_eq)
  qed
  finally show ?thesis by simp
qed

text \<open>A digest to try it with: the characters in hexadecimal.\<close>

definition hex_text :: "string \<Rightarrow> string" where
  "hex_text x = concat (map (\<lambda>c. let n = of_char c :: nat in [hex_char (n div 16), hex_char (n mod 16)]) x)"

lemma hex_char_inj: "m < 16 \<Longrightarrow> n < 16 \<Longrightarrow> hex_char m = hex_char n \<longleftrightarrow> m = n"
  by (metis hex_digit_char)

lemma hex_text_inj: "inj_on hex_text A"
proof (rule inj_onI)
  have div: "(of_char c :: nat) div 16 < 16" for c :: char using nat_of_char_less_256 [of c] by (simp add: less_mult_imp_div_less)
  have one: "c = d" if "hex_char ((of_char c :: nat) div 16) = hex_char (of_char d div 16)"
    "hex_char ((of_char c :: nat) mod 16) = hex_char (of_char d mod 16)" for c d :: char
  proof -
    have "(of_char c :: nat) div 16 = of_char d div 16" "(of_char c :: nat) mod 16 = of_char d mod 16"
      using that div by (simp_all add: hex_char_inj)
    then have "(of_char c :: nat) = of_char d" by (metis div_mult_mod_eq)
    then show ?thesis by simp
  qed
  show "x = y" if "hex_text x = hex_text y" for x y
    using that by (induction x y rule: list_induct2') (auto simp: hex_text_def Let_def dest: one)
qed

lemma hex_text_nul: "nul \<notin> set (hex_text x)"
proof -
  have "hex_char n \<noteq> nul" if "n < 16" for n using of_hex_char [OF that] by (auto simp: nul_def split: if_splits)
  moreover have "(of_char c :: nat) div 16 < 16" for c :: char using nat_of_char_less_256 [of c] by (simp add: less_mult_imp_div_less)
  ultimately show ?thesis by (auto simp: hex_text_def Let_def dest: sym)
qed

definition example_host :: workflow_host where
  "example_host = \<lparr>wh_sha = hex_text, wh_total = Some 100, wh_turn_spent = 0, wh_concurrency = 2, wh_preview = \<lambda>_. [], wh_locale = js_of_nat\<rparr>"

definition example_ops :: "workflow_op list" where
  "example_ops = [CallAgent False ''a'' no_options, Dispatch False 1, AgentReturns 1 ''x'' ''p'' (Some JNull) 5]"

lemma example_observed:
  assumes "wf_count t = 0" "wf_spent t = 0" "wf_semaphore t = new_semaphore 2" "wf_calls t = []" "jn_results (wf_journal t) = []"
    "observed example_host example_ops t = (cs, rs, s)"
  shows "cs = [(''a'', no_options)] \<and> rs = [(1, \<lparr>jr_agent_id = ''x'', jr_address = Some ''p'', jr_result = Some JNull\<rparr>)]"
proof -
  have "wh_total example_host = Some 100" "wh_turn_spent example_host = 0" by (simp_all add: example_host_def)
  then show ?thesis
    using assms
    by (auto simp: observed_def example_ops_def check_caps_def budget_exhausted_def tokens_spent_def workflow_agent_cap_def agent_enter_def
        queue_call_def Let_def waiting_call_def running_call_def agent_dispatch_def sem_enter_def new_semaphore_def get_result_def)
qed

theorem resume_replays_prefix_witness:
  "case open_journal [] ''w'' ''s'' None ''r'' ''p'' ''c'' of (r0, j0) \<Rightarrow>
   case observed example_host example_ops (start_run example_host [''one''] j0) of (cs, rs, s) \<Rightarrow>
     fst (agent_enter example_host False ''a'' no_options
       (start_run example_host [] (snd (open_journal (r0 # wf_log s) ''w'' ''s'' None ''r'' ''p'' ''d'')))) = Inr (FromJournal (Some JNull))"
proof -
  obtain r0 j0 where open0: "open_journal [] ''w'' ''s'' None ''r'' ''p'' ''c'' = (r0, j0)" by fastforce
  obtain cs rs s where obs: "observed example_host example_ops (start_run example_host [''one''] j0) = (cs, rs, s)"
    by (metis surj_pair)
  let ?log = "r0 # wf_log s" and ?s = "start_run example_host [''one''] j0"
  have j0: "jn_results j0 = []" using open0 by (auto simp: open_journal_def record_run_def append_entry_def load_journal_def new_journal_def Let_def)
  have s: "wf_count ?s = 0" "wf_spent ?s = 0" "wf_semaphore ?s = new_semaphore 2" "wf_calls ?s = []"
    using j0 by (simp_all add: start_run_def resolve_phase_def new_run_def example_host_def record_phase_def Let_def new_semaphore_def)
  have "cs = [(''a'', no_options)] \<and> rs = [(1, \<lparr>jr_agent_id = ''x'', jr_address = Some ''p'', jr_result = Some JNull\<rparr>)]"
    using example_observed [OF s] obs j0 by (simp add: start_run_fields)
  then have cs: "cs = [(''a'', no_options)]" "map_of rs (Suc 0) = Some \<lparr>jr_agent_id = ''x'', jr_address = Some ''p'', jr_result = Some JNull\<rparr>" by simp_all
  have "journals (new_run example_host j0) s" using start_run_fields(6) observed_journals [OF obs] journals_trans by blast
  from run_addresses [OF open0 this] have "filter (\<lambda>r. rec_address r = Some (journal_address ''r'')) ?log = ?log"
    by (simp add: filter_id_conv)
  then have log: "list_all2 stored_as (r0 # wf_log s @ []) (filter (\<lambda>r. rec_address r = Some (journal_address ''r'')) ?log)"
    by (simp only: append_Nil2) (rule stored_as_refl)
  have sha: "wh_sha example_host = hex_text" by (simp add: example_host_def)
  let ?t = "start_run example_host [] (snd (open_journal ?log ''w'' ''s'' None ''r'' ''p'' ''d''))"
  have new: "observed example_host [] ?t = ([], [], ?t)" by (simp add: observed_def)
  have caps: "fst (check_caps example_host False ?t) = None"
    by (simp add: start_run_def new_run_def check_caps_def budget_exhausted_def tokens_spent_def workflow_agent_cap_def example_host_def)
  have "fst (agent_enter example_host False ''a'' no_options ?t) = Inr (FromJournal (Some JNull))"
    using resume_replays_prefix [OF _ refl open0 obs disjI1 [OF refl] log new _ caps, of "''a''" no_options "Some JNull"]
    by (auto simp: sha hex_text_nul hex_text_inj cs le_Suc_eq)
  then show ?thesis using open0 obs by simp
qed

end
