(* ===== verification/Workflow_Limits.thy ===== *)
theory Workflow_Limits
  imports Workflow_Resume
begin

text \<open>
  The limits of a workflow run: how many agents it starts, how many run at once, and how far it may spend
  beyond its token budget; and what a nested run does to them.
\<close>

definition running_agents :: "workflow_run \<Rightarrow> nat" where
  "running_agents s = length (filter (\<lambda>(_, c). ac_running c) (wf_calls s))"

text \<open>
  The invariant: the open calls are those that own a slot or wait for one, only an owner runs, and what
  is spent or may still be spent by the running agents stays within the bound \<open>b\<close>.
\<close>

definition slots_ok :: "nat \<Rightarrow> workflow_run \<Rightarrow> bool" where
  "slots_ok k s \<longleftrightarrow>
     sem_ok (wf_semaphore s) \<and> sm_max (wf_semaphore s) = k \<and> jmap_ok (wf_calls s) \<and>
     distinct (sm_holders (wf_semaphore s) @ sm_queue (wf_semaphore s)) \<and>
     set (sm_holders (wf_semaphore s)) \<union> set (sm_queue (wf_semaphore s)) = fst ` set (wf_calls s) \<and>
     (\<forall>i c. map_of (wf_calls s) i = Some c \<and> ac_running c \<longrightarrow> i \<in> set (sm_holders (wf_semaphore s))) \<and>
     (\<forall>i \<in> fst ` set (wf_calls s). i \<le> wf_count s)"

lemma slots_okI:
  assumes "sem_ok (wf_semaphore s)" "sm_max (wf_semaphore s) = k" "jmap_ok (wf_calls s)"
    "distinct (sm_holders (wf_semaphore s) @ sm_queue (wf_semaphore s))"
    "set (sm_holders (wf_semaphore s)) \<union> set (sm_queue (wf_semaphore s)) = fst ` set (wf_calls s)"
    "\<And>i c. map_of (wf_calls s) i = Some c \<Longrightarrow> ac_running c \<Longrightarrow> i \<in> set (sm_holders (wf_semaphore s))"
    "\<And>i. i \<in> fst ` set (wf_calls s) \<Longrightarrow> i \<le> wf_count s"
  shows "slots_ok k s"
  using assms unfolding slots_ok_def by blast

lemma slots_okD:
  assumes "slots_ok k s"
  shows "sem_ok (wf_semaphore s)" "sm_max (wf_semaphore s) = k" "jmap_ok (wf_calls s)"
    "distinct (sm_holders (wf_semaphore s) @ sm_queue (wf_semaphore s))"
    "set (sm_holders (wf_semaphore s)) \<union> set (sm_queue (wf_semaphore s)) = fst ` set (wf_calls s)"
    "map_of (wf_calls s) i = Some c \<Longrightarrow> ac_running c \<Longrightarrow> i \<in> set (sm_holders (wf_semaphore s))"
    "i \<in> fst ` set (wf_calls s) \<Longrightarrow> i \<le> wf_count s"
  using assms unfolding slots_ok_def by blast+

lemma running_owns_slot:
  assumes "slots_ok k s"
  shows "running_agents s \<le> length (sm_holders (wf_semaphore s))" "length (sm_holders (wf_semaphore s)) \<le> k"
proof -
  let ?r = "filter (\<lambda>(_, c). ac_running c) (wf_calls s)"
  have d: "distinct (map fst ?r)" using slots_okD(3) [OF assms] by (simp add: distinct_map_filter)
  have "set (map fst ?r) \<subseteq> set (sm_holders (wf_semaphore s))"
    using slots_okD(3,6) [OF assms] by (auto simp: jget_iff_mem)
  then have "card (set (map fst ?r)) \<le> card (set (sm_holders (wf_semaphore s)))" by (intro card_mono) simp_all
  then show "running_agents s \<le> length (sm_holders (wf_semaphore s))"
    using distinct_card [OF d] slots_okD(4) [OF assms] by (simp add: running_agents_def distinct_card)
  show "length (sm_holders (wf_semaphore s)) \<le> k" using slots_okD(1,2) [OF assms] by (simp add: sem_ok_def)
qed

lemma slots_frame:
  assumes "slots_ok k s" "wf_semaphore s' = wf_semaphore s" "wf_calls s' = wf_calls s" "wf_count s' = wf_count s"
  shows "slots_ok k s'"
  using assms unfolding slots_ok_def by simp

text \<open>The three ways a call changes the slots: it comes, it starts to run, it ends.\<close>

lemma slots_enter:
  assumes ok: "slots_ok k s" and "wf_count s' = wf_count s + 1"
    and sem: "wf_semaphore s' = sem_enter (wf_count s + 1) (wf_semaphore s)"
    and calls: "wf_calls s' = jset (wf_count s + 1) c (wf_calls s)" "\<not> ac_running c"
  shows "slots_ok k s'"
proof (rule slots_okI)
  let ?i = "wf_count s + 1"
  have new: "?i \<notin> fst ` set (wf_calls s)" using slots_okD(7) [OF ok, of ?i] by auto
  have step: "sem_ok (sem_enter ?i (wf_semaphore s)) \<and> sm_max (sem_enter ?i (wf_semaphore s)) = sm_max (wf_semaphore s)"
    using sem_step_ok [OF slots_okD(1) [OF ok], of "Enter ?i"] by simp
  show "sem_ok (wf_semaphore s')" "sm_max (wf_semaphore s') = k" using step sem slots_okD(2) [OF ok] by simp_all
  show "jmap_ok (wf_calls s')" using calls slots_okD(3) [OF ok] by simp
  have fresh: "?i \<notin> set (sm_holders (wf_semaphore s))" "?i \<notin> set (sm_queue (wf_semaphore s))"
    using new slots_okD(5) [OF ok] by auto
  show "distinct (sm_holders (wf_semaphore s') @ sm_queue (wf_semaphore s'))"
    using slots_okD(4) [OF ok] fresh by (auto simp: sem sem_enter_def)
  show "set (sm_holders (wf_semaphore s')) \<union> set (sm_queue (wf_semaphore s')) = fst ` set (wf_calls s')"
    using slots_okD(5) [OF ok] by (auto simp: sem sem_enter_def calls)
  show "i \<in> set (sm_holders (wf_semaphore s'))" if "map_of (wf_calls s') i = Some d" "ac_running d" for i d
    using that slots_okD(6) [OF ok, of i d] calls(2) by (auto simp: calls(1) sem sem_enter_def split: if_splits)
  show "i \<le> wf_count s'" if "i \<in> fst ` set (wf_calls s')" for i
    using that slots_okD(7) [OF ok, of i] unfolding calls(1) assms(2) set_jkeys_jset by (elim insertE) simp_all
qed

lemma slots_start:
  assumes ok: "slots_ok k s" and "i \<in> set (sm_holders (wf_semaphore s))" "map_of (wf_calls s) i = Some c0"
    and "wf_semaphore s' = wf_semaphore s" "wf_calls s' = jset i c (wf_calls s)" "wf_count s' = wf_count s"
  shows "slots_ok k s'"
proof (rule slots_okI)
  have mem: "i \<in> fst ` set (wf_calls s)" using assms(3) by (metis jget_eq_None list.set_map option.distinct(1))
  then have keys: "fst ` set (wf_calls s') = fst ` set (wf_calls s)" using assms(5) by auto
  show "sem_ok (wf_semaphore s')" "sm_max (wf_semaphore s') = k" "jmap_ok (wf_calls s')"
    "distinct (sm_holders (wf_semaphore s') @ sm_queue (wf_semaphore s'))"
    using slots_okD(1-4) [OF ok] assms by simp_all
  show "set (sm_holders (wf_semaphore s')) \<union> set (sm_queue (wf_semaphore s')) = fst ` set (wf_calls s')"
    using slots_okD(5) [OF ok] assms(4) keys by simp
  show "j \<in> set (sm_holders (wf_semaphore s'))" if "map_of (wf_calls s') j = Some d" "ac_running d" for j d
    using that slots_okD(6) [OF ok, of j d] assms(2,4,5) by (auto split: if_splits)
  show "j \<le> wf_count s'" if "j \<in> fst ` set (wf_calls s')" for j using that slots_okD(7) [OF ok, of j] keys assms(6) by simp
qed

lemma slots_close:
  assumes ok: "slots_ok k s" and own: "i \<in> set (sm_holders (wf_semaphore s))"
    and s': "wf_semaphore s' = sem_exit i (wf_semaphore s)" "wf_calls s' = jdelete i (wf_calls s)" "wf_count s' = wf_count s"
  shows "slots_ok k s'"
proof (rule slots_okI)
  let ?h = "sm_holders (wf_semaphore s)" and ?q = "sm_queue (wf_semaphore s)"
  note d = slots_okD(4) [OF ok]
  have step: "sem_ok (sem_exit i (wf_semaphore s)) \<and> sm_max (sem_exit i (wf_semaphore s)) = sm_max (wf_semaphore s)"
    using sem_step_ok [OF slots_okD(1) [OF ok], of "Exit i"] own by simp
  show "sem_ok (wf_semaphore s')" "sm_max (wf_semaphore s') = k" using step s' slots_okD(2) [OF ok] by simp_all
  show "jmap_ok (wf_calls s')" using s' slots_okD(3) [OF ok] by simp
  have split: "sm_holders (sem_exit i (wf_semaphore s)) @ sm_queue (sem_exit i (wf_semaphore s)) = remove1 i ?h @ ?q"
    by (simp add: sem_exit_def Let_def split: list.split)
  show "distinct (sm_holders (wf_semaphore s') @ sm_queue (wf_semaphore s'))"
    unfolding s' split using d by (auto dest: in_set_remove1 notin_set_remove1)
  have "set (sm_holders (wf_semaphore s')) \<union> set (sm_queue (wf_semaphore s')) = set (remove1 i ?h @ ?q)"
    unfolding s' by (metis split set_append)
  also have "\<dots> = fst ` set (wf_calls s')" using d own slots_okD(5) [OF ok] by (auto simp: s')
  finally show "set (sm_holders (wf_semaphore s')) \<union> set (sm_queue (wf_semaphore s')) = fst ` set (wf_calls s')" .
  have keep: "j \<in> set (sm_holders (sem_exit i (wf_semaphore s)))" if "j \<in> set ?h" "j \<noteq> i" for j
    using that by (simp add: sem_exit_def Let_def split: list.split)
  show "j \<in> set (sm_holders (wf_semaphore s'))" if "map_of (wf_calls s') j = Some c" "ac_running c" for j c
    using that keep slots_okD(6) [OF ok, of j c] by (simp add: s' split: if_splits)
  show "j \<le> wf_count s'" if "j \<in> fst ` set (wf_calls s')" for j using that slots_okD(7) [OF ok, of j] by (auto simp: s')
qed

section \<open>Every step keeps to the slots\<close>

definition running_set :: "workflow_run \<Rightarrow> nat set" where
  "running_set s = {i. \<exists>c. map_of (wf_calls s) i = Some c \<and> ac_running c}"

lemma finite_running [simp]: "finite (running_set s)"
proof -
  have "running_set s \<subseteq> fst ` set (wf_calls s)" by (auto simp: running_set_def dest!: map_of_SomeD intro: rev_image_eqI)
  then show ?thesis using finite_subset by blast
qed

lemma running_agents_card:
  assumes "slots_ok k s"
  shows "running_agents s = card (running_set s)"
proof -
  let ?r = "filter (\<lambda>(_, c). ac_running c) (wf_calls s)"
  have "distinct (map fst ?r)" using slots_okD(3) [OF assms] by (simp add: distinct_map_filter)
  moreover have "set (map fst ?r) = running_set s" using slots_okD(3) [OF assms] by (force simp: running_set_def jget_iff_mem)
  ultimately show ?thesis using distinct_card [of "map fst ?r"] by (simp add: running_agents_def)
qed

lemma waiting_callD:
  "waiting_call i s = Some c \<Longrightarrow> map_of (wf_calls s) i = Some c \<and> \<not> ac_running c \<and> i \<in> set (sm_holders (wf_semaphore s))"
  by (auto simp: waiting_call_def split: option.splits if_splits)

lemma running_callD: "running_call i s = Some c \<Longrightarrow> map_of (wf_calls s) i = Some c \<and> ac_running c"
  by (auto simp: running_call_def split: option.splits if_splits)

lemma close_call_fields [simp]:
  "wf_semaphore (close_call i s) = sem_exit i (wf_semaphore s)" "wf_calls (close_call i s) = jdelete i (wf_calls s)"
  "wf_count (close_call i s) = wf_count s" "wf_spent (close_call i s) = wf_spent s"
  by (simp_all add: close_call_def)

text \<open>What a step does to the slots and to the spending.\<close>

inductive limited :: "workflow_host \<Rightarrow> workflow_run \<Rightarrow> nat \<Rightarrow> workflow_run \<Rightarrow> bool" for h s where
  stays: "wf_semaphore s' = wf_semaphore s \<Longrightarrow> wf_calls s' = wf_calls s \<Longrightarrow> wf_spent s' = wf_spent s \<Longrightarrow>
     wf_count s' = wf_count s \<or> (wf_count s' = wf_count s + 1 \<and> wf_count s < workflow_agent_cap) \<Longrightarrow> limited h s 0 s'"
| enters: "wf_count s' = wf_count s + 1 \<Longrightarrow> wf_count s < workflow_agent_cap \<Longrightarrow>
     wf_semaphore s' = sem_enter (wf_count s + 1) (wf_semaphore s) \<Longrightarrow>
     wf_calls s' = jset (wf_count s + 1) c (wf_calls s) \<Longrightarrow> \<not> ac_running c \<Longrightarrow> wf_spent s' = wf_spent s \<Longrightarrow> limited h s 0 s'"
| starts: "waiting_call i s = Some c0 \<Longrightarrow> \<not> budget_exhausted h s \<Longrightarrow> wf_semaphore s' = wf_semaphore s \<Longrightarrow>
     wf_calls s' = jset i c (wf_calls s) \<Longrightarrow> ac_running c \<Longrightarrow> wf_count s' = wf_count s \<Longrightarrow> wf_spent s' = wf_spent s \<Longrightarrow> limited h s 0 s'"
| told: "running_call i s = Some c0 \<Longrightarrow> wf_semaphore s' = wf_semaphore s \<Longrightarrow>
     wf_calls s' = jset i c (wf_calls s) \<Longrightarrow> ac_running c \<Longrightarrow> wf_count s' = wf_count s \<Longrightarrow> wf_spent s' = wf_spent s \<Longrightarrow> limited h s 0 s'"
| refused: "waiting_call i s = Some c0 \<Longrightarrow> wf_semaphore s' = sem_exit i (wf_semaphore s) \<Longrightarrow> wf_calls s' = jdelete i (wf_calls s) \<Longrightarrow>
     wf_count s' = wf_count s \<Longrightarrow> wf_spent s' = wf_spent s \<Longrightarrow> limited h s 0 s'"
| ends: "running_call i s = Some c0 \<Longrightarrow> wf_semaphore s' = sem_exit i (wf_semaphore s) \<Longrightarrow> wf_calls s' = jdelete i (wf_calls s) \<Longrightarrow>
     wf_count s' = wf_count s \<Longrightarrow> wf_spent s' = wf_spent s + n \<Longrightarrow> limited h s n s'"

text \<open>The tokens a step reports.\<close>

fun reported :: "workflow_op \<Rightarrow> nat" where
  "reported (AgentReturns i agent address v tokens) = tokens"
| "reported _ = 0"

lemma step_limited: "\<exists>n \<le> reported op. limited h s n (workflow_step h op s)"
proof (cases op)
  case (CallAgent aborted prompt opts)
  show ?thesis
  proof (cases rule: check_caps_cases [of h aborted s])
    case 1
    then have cap: "wf_count s < workflow_agent_cap" by (auto simp: check_caps_def split: if_splits)
    show ?thesis
    proof (cases "wf_diverged s \<or> get_result (key_for (wh_sha h) (wf_prev_key s) prompt opts) (wf_journal s) = None")
      case True
      then have "limited h s 0 (snd (agent_enter h aborted prompt opts s))"
        using 1 cap by (intro enters) (auto simp: agent_enter_def queue_call_def Let_def split: option.split)
      then show ?thesis using CallAgent by auto
    next
      case False
      then have "limited h s 0 (snd (agent_enter h aborted prompt opts s))"
        using 1 cap by (intro stays) (auto simp: agent_enter_def Let_def)
      then show ?thesis using CallAgent by auto
    qed
  next
    case (2 e b c)
    then show ?thesis using CallAgent by (auto simp: agent_enter_def intro: stays)
  qed
next
  case (Dispatch aborted i)
  show ?thesis
  proof (cases "waiting_call i s")
    case None
    then show ?thesis using Dispatch by (auto intro: stays)
  next
    case (Some c)
    have "limited h s 0 (snd (agent_dispatch h aborted i c s))"
    proof (cases "aborted \<or> budget_exhausted h s")
      case True
      then show ?thesis by (intro refused [OF Some]) (auto simp: agent_dispatch_def refuse_call_def)
    next
      case False
      then show ?thesis by (intro starts [OF Some, where c = "c\<lparr>ac_running := True\<rparr>"]) (auto simp: agent_dispatch_def)
    qed
    then show ?thesis using Dispatch Some by auto
  qed
next
  case (AgentStarts i agent address)
  show ?thesis
  proof (cases "running_call i s")
    case None
    then show ?thesis using AgentStarts by (auto intro: stays)
  next
    case (Some c)
    then have "limited h s 0 (agent_started i c agent address s)"
      using running_callD by (intro told [OF Some, where c = "c\<lparr>ac_identity := Some (agent, address)\<rparr>"]) (auto simp: agent_started_def Let_def)
    then show ?thesis using AgentStarts Some by auto
  qed
next
  case (AgentFails i message)
  show ?thesis
  proof (cases "running_call i s")
    case None
    then show ?thesis using AgentFails by (auto intro: stays)
  next
    case (Some c)
    have "limited h s 0 (snd (agent_failed i c message s))"
      by (intro ends [OF Some, where n = 0]) (auto simp: agent_failed_def)
    then show ?thesis using AgentFails Some by auto
  qed
next
  case (AgentReturns i agent address v tokens)
  show ?thesis
  proof (cases "running_call i s")
    case None
    then show ?thesis using AgentReturns by (auto intro: stays)
  next
    case (Some c)
    have "limited h s tokens (agent_done h i c agent address v tokens s)"
      by (intro ends [OF Some]) (auto simp: agent_done_def Let_def)
    then show ?thesis using AgentReturns Some by auto
  qed
qed (auto simp: log_hook_def resolve_phase_def Let_def intro!: stays)

lemma limited_slots:
  assumes "limited h s n s'" "slots_ok k s"
  shows "slots_ok k s'"
  using assms(1)
proof cases
  case stays
  then show ?thesis using assms(2) unfolding slots_ok_def by (elim disjE) (simp_all, force)
next
  case (enters c)
  then show ?thesis using slots_enter [OF assms(2)] by blast
next
  case (starts i c0 c)
  then show ?thesis using slots_start [OF assms(2), of i c0 s' c] waiting_callD by blast
next
  case (told i c0 c)
  then show ?thesis using slots_start [OF assms(2), of i c0 s' c] running_callD slots_okD(6) [OF assms(2)] by blast
next
  case (refused i c0)
  then show ?thesis using slots_close [OF assms(2), of i s'] waiting_callD by blast
next
  case (ends i c0)
  then show ?thesis using slots_close [OF assms(2), of i s'] running_callD slots_okD(6) [OF assms(2)] by blast
qed

text \<open>What is spent, and what the running agents may still spend when none spends more than \<open>m\<close>.\<close>

definition committed :: "workflow_host \<Rightarrow> nat \<Rightarrow> workflow_run \<Rightarrow> nat" where
  "committed h m s = tokens_spent h s + m * card (running_set s)"

lemma running_le: "slots_ok k s \<Longrightarrow> card (running_set s) \<le> k"
  using running_owns_slot running_agents_card by (metis order_trans)

lemma limited_committed:
  assumes step: "limited h s n s'" and ok: "slots_ok k s" and n: "n \<le> m" and "wh_total h = Some t" "0 < t"
    and le: "committed h m s \<le> max (wh_turn_spent h) (t - 1 + m * k)"
  shows "committed h m s' \<le> max (wh_turn_spent h) (t - 1 + m * k)"
proof -
  have keep: ?thesis if "running_set s' \<subseteq> running_set s" "wf_spent s' = wf_spent s"
  proof -
    have "m * card (running_set s') \<le> m * card (running_set s)" using that(1) by (intro mult_le_mono2 card_mono) simp_all
    then show ?thesis using le that(2) unfolding committed_def tokens_spent_def by linarith
  qed
  show ?thesis using step
  proof cases
    case stays
    then show ?thesis by (intro keep) (simp_all add: running_set_def)
  next
    case (enters c)
    then show ?thesis by (intro keep) (auto simp: running_set_def)
  next
    case (starts i c0 c)
    have "slots_ok k s'" using limited_slots [OF step ok] .
    then have "m * card (running_set s') \<le> m * k" by (intro mult_le_mono2 running_le)
    moreover have "tokens_spent h s \<le> t - 1" using starts(3) assms(4,5) by (auto simp: budget_exhausted_def)
    ultimately show ?thesis using starts(8) unfolding committed_def tokens_spent_def by linarith
  next
    case (told i c0 c)
    then show ?thesis using running_callD [of i s c0] by (intro keep) (auto simp: running_set_def split: if_splits)
  next
    case (refused i c0)
    then show ?thesis by (intro keep) (auto simp: running_set_def split: if_splits)
  next
    case (ends i c0)
    have "running_set s' = running_set s - {i}" "i \<in> running_set s"
      using ends(1,3) running_callD [of i s c0] by (auto simp: running_set_def split: if_splits)
    then have "card (running_set s) = Suc (card (running_set s'))" by (metis card_Suc_Diff1 finite_running)
    then have "committed h m s' + m = committed h m s + n" using ends(5) by (simp add: committed_def tokens_spent_def)
    then show ?thesis using le n by simp
  qed
qed

lemma limited_count: "limited h s n s' \<Longrightarrow> wf_count s \<le> workflow_agent_cap \<Longrightarrow> wf_count s' \<le> workflow_agent_cap"
  by (erule limited.cases) auto

section \<open>A run and its nested runs\<close>

text \<open>
  The runs of a workflow: the outer one first, then the nested ones in the order in which they began,
  each with its depth. They go on side by side. The journal, the log, the chain of keys and the
  progress are one object for all of them, so what one run does to them the others see.
\<close>

type_synonym workflow_tree = "(nat \<times> workflow_run) list"

datatype tree_op =
    OnRun nat workflow_op
  | Nest nat bool "(string \<Rightarrow> string option) option" "string \<Rightarrow> string + string \<times> string list \<times> string" "string option"

definition start_tree :: "workflow_host \<Rightarrow> string list \<Rightarrow> workflow_journal \<Rightarrow> workflow_tree" where
  "start_tree h phases j = [(0, start_run h phases j)]"

definition put_run :: "nat \<Rightarrow> workflow_run \<Rightarrow> workflow_tree \<Rightarrow> workflow_tree" where
  "put_run i s tree = map (\<lambda>(d, r). (d, share_run s r)) (tree[i := (fst (tree ! i), s)])"

definition tree_step :: "workflow_host \<Rightarrow> tree_op \<Rightarrow> workflow_tree \<Rightarrow> workflow_tree" where
  "tree_step h op tree =
     (case op of
        OnRun i o1 \<Rightarrow> if i < length tree then put_run i (workflow_step h o1 (snd (tree ! i))) tree else tree
      | Nest i aborted saved parse ref \<Rightarrow>
          if i < length tree
          then (case nested_enter h aborted (fst (tree ! i)) saved parse ref (snd (tree ! i)) of
                  (Inl _, s) \<Rightarrow> put_run i s tree
                | (Inr (child, _), s) \<Rightarrow>
                    put_run (length tree) child (put_run i s tree @ [(fst (tree ! i) + 1, child)]))
          else tree)"

definition tree_steps :: "workflow_host \<Rightarrow> tree_op list \<Rightarrow> workflow_tree \<Rightarrow> workflow_tree" where
  "tree_steps h ops tree = fold (tree_step h) ops tree"

fun tree_reported :: "tree_op \<Rightarrow> nat" where
  "tree_reported (OnRun i op) = reported op"
| "tree_reported (Nest i aborted saved parse ref) = 0"

text \<open>The limits of one run; the last only if there is a budget.\<close>

definition keeps_limits :: "workflow_host \<Rightarrow> nat \<Rightarrow> workflow_run \<Rightarrow> bool" where
  "keeps_limits h m s \<longleftrightarrow>
     slots_ok (max 1 (wh_concurrency h)) s \<and> wf_count s \<le> workflow_agent_cap
     \<and> (\<forall>t. wh_total h = Some t \<and> 0 < t \<longrightarrow>
          committed h m s \<le> max (wh_turn_spent h) (t - 1 + m * max 1 (wh_concurrency h)))"

lemma limited_keeps:
  assumes "limited h s n s'" "n \<le> m" "keeps_limits h m s"
  shows "keeps_limits h m s'"
  using assms limited_slots [OF assms(1)] limited_count [OF assms(1)] limited_committed [OF assms(1)]
  unfolding keeps_limits_def by blast

lemma share_keeps: "keeps_limits h m (share_run u s) = keeps_limits h m s"
  by (simp add: keeps_limits_def slots_ok_def share_run_def committed_def running_set_def tokens_spent_def)

lemma phases_keep: "keeps_limits h m (fold (\<lambda>title. resolve_phase title NormalPhase) ps s) = keeps_limits h m s"
proof (induction ps arbitrary: s)
  case (Cons p ps)
  have "keeps_limits h m (resolve_phase p NormalPhase s) = keeps_limits h m s"
    by (simp add: keeps_limits_def slots_ok_def resolve_phase_def Let_def committed_def running_set_def tokens_spent_def)
  then show ?case using Cons by simp
qed simp

lemma new_run_keeps: "keeps_limits h m (new_run h j)"
proof -
  have "slots_ok (max 1 (wh_concurrency h)) (new_run h j)"
    using sem_ok_new by (intro slots_okI) (simp_all add: new_run_def, simp_all add: new_semaphore_def)
  moreover have "running_set (new_run h j) = {}" by (simp add: running_set_def new_run_def)
  ultimately show ?thesis by (simp add: keeps_limits_def committed_def tokens_spent_def new_run_def)
qed

lemma child_run_keeps: "keeps_limits h m (child_run h phases parent)"
  by (simp add: child_run_def phases_keep share_keeps new_run_keeps)

lemma start_run_keeps: "keeps_limits h m (start_run h phases j)"
  by (simp add: start_run_def phases_keep new_run_keeps)

lemma caps_same:
  "check_caps h aborted s = (e, s') \<Longrightarrow>
     wf_semaphore s' = wf_semaphore s \<and> wf_calls s' = wf_calls s \<and> wf_spent s' = wf_spent s \<and> wf_count s' = wf_count s"
  by (cases rule: check_caps_cases [of h aborted s]) auto

lemma log_hook_same:
  "wf_semaphore (log_hook x s) = wf_semaphore s \<and> wf_calls (log_hook x s) = wf_calls s
     \<and> wf_spent (log_hook x s) = wf_spent s \<and> wf_count (log_hook x s) = wf_count s"
  by (simp add: log_hook_def)

lemma nested_enter_cases:
  assumes "nested_enter h aborted depth saved parse ref s = (r, s')"
  obtains e s0 where "check_caps h aborted s = (e, s0)" "s' = s0 \<or> (\<exists>x. s' = log_hook x s0)"
    "\<And>child body. r = Inr (child, body) \<Longrightarrow> \<exists>phases. child = child_run h phases s'"
proof -
  obtain e s0 where c: "check_caps h aborted s = (e, s0)" by fastforce
  have "(s' = s0 \<or> (\<exists>x. s' = log_hook x s0)) \<and> (\<forall>child body. r = Inr (child, body) \<longrightarrow> (\<exists>phases. child = child_run h phases s'))"
    using assms c by (auto simp: nested_enter_def Let_def split: option.splits if_splits sum.splits)
  then show thesis using that c by blast
qed

lemma nested_enter_keeps:
  assumes "nested_enter h aborted depth saved parse ref s = (r, s')" "keeps_limits h m s"
  shows "keeps_limits h m s'" "r = Inr (child, body) \<Longrightarrow> keeps_limits h m child"
proof -
  obtain e s0 where c: "check_caps h aborted s = (e, s0)" "s' = s0 \<or> (\<exists>x. s' = log_hook x s0)"
    and r: "\<And>child body. r = Inr (child, body) \<Longrightarrow> \<exists>phases. child = child_run h phases s'"
    using nested_enter_cases [OF assms(1)] by blast
  have "limited h s 0 s'"
    using caps_same [OF c(1)] c(2) log_hook_same by (intro stays) auto
  then show "keeps_limits h m s'" using limited_keeps assms(2) by blast
  show "keeps_limits h m child" if "r = Inr (child, body)"
    using r [OF that] child_run_keeps by blast
qed

lemma put_run_keeps:
  assumes "\<forall>(d, r) \<in> set tree. keeps_limits h m r" "keeps_limits h m s"
  shows "\<forall>(d, r) \<in> set (put_run i s tree). keeps_limits h m r"
  using assms by (auto simp: put_run_def share_keeps dest!: set_update_subset_insert [THEN subsetD])

lemma tree_step_keeps:
  assumes "\<forall>(d, r) \<in> set tree. keeps_limits h m r" "tree_reported op \<le> m"
  shows "\<forall>(d, r) \<in> set (tree_step h op tree). keeps_limits h m r"
proof (cases op)
  case (OnRun i o1)
  show ?thesis
  proof (cases "i < length tree")
    case True
    then have "keeps_limits h m (snd (tree ! i))" using assms(1) nth_mem [OF True] by (auto simp: case_prod_beta)
    moreover obtain n where "n \<le> reported o1" "limited h (snd (tree ! i)) n (workflow_step h o1 (snd (tree ! i)))"
      using step_limited by blast
    ultimately have "keeps_limits h m (workflow_step h o1 (snd (tree ! i)))"
      using limited_keeps assms(2) OnRun by (metis order_trans tree_reported.simps(1))
    then show ?thesis using put_run_keeps [OF assms(1)] True OnRun by (simp add: tree_step_def)
  qed (use assms OnRun in \<open>simp add: tree_step_def\<close>)
next
  case (Nest i aborted saved parse ref)
  show ?thesis
  proof (cases "i < length tree")
    case True
    then have k: "keeps_limits h m (snd (tree ! i))" using assms(1) nth_mem [OF True] by (auto simp: case_prod_beta)
    obtain r s where e: "nested_enter h aborted (fst (tree ! i)) saved parse ref (snd (tree ! i)) = (r, s)" by fastforce
    note keep = nested_enter_keeps [OF e k]
    note first = put_run_keeps [OF assms(1) keep(1), of i]
    show ?thesis
    proof (cases r)
      case (Inl x)
      then show ?thesis using first True Nest e by (simp add: tree_step_def)
    next
      case (Inr y)
      obtain child body where y: "y = (child, body)" by fastforce
      have "\<forall>(d, r) \<in> set (put_run i s tree @ [(fst (tree ! i) + 1, child)]). keeps_limits h m r"
        using first keep(2) [of child body] Inr y by auto
      from put_run_keeps [OF this] show ?thesis
        using True Nest e Inr y keep(2) [of child body] by (simp add: tree_step_def)
    qed
  qed (use assms Nest in \<open>simp add: tree_step_def\<close>)
qed

lemma tree_steps_keep:
  "\<forall>(d, r) \<in> set tree. keeps_limits h m r \<Longrightarrow> \<forall>op \<in> set ops. tree_reported op \<le> m
     \<Longrightarrow> \<forall>(d, r) \<in> set (tree_steps h ops tree). keeps_limits h m r"
proof (induction ops arbitrary: tree)
  case (Cons op ops)
  then have "\<forall>(d, r) \<in> set (tree_step h op tree). keeps_limits h m r" by (intro tree_step_keeps) simp_all
  then show ?case using Cons.IH [of "tree_step h op tree"] Cons.prems(2) by (simp add: tree_steps_def)
qed (simp add: tree_steps_def)

text \<open>
  C17. The limits of a workflow run, of the outer one and of every run nested in it, each on its own
  account, whatever the scripts ask for and however the runs and their agents interleave: a run
  starts at most 1000 agents of its own, at most the host's concurrency of them run at once, and if
  the host gives a positive budget of \<open>t\<close> tokens, a run spends, counting what its running agents may
  still spend, less than \<open>t\<close> plus one agent's worth per slot, where no agent reports more than \<open>m\<close>.
  (What was spent before the run may already be more than that. The runs do not count each other's
  agents and tokens: see \<open>nested_runs_are_not_counted\<close>.)
\<close>

theorem workflow_limits:
  assumes "\<forall>op \<in> set ops. tree_reported op \<le> m"
    and "(depth, s) \<in> set (tree_steps h ops (start_tree h phases j))"
  shows "wf_count s \<le> workflow_agent_cap \<and> running_agents s \<le> max 1 (wh_concurrency h) \<and>
    (\<forall>t. wh_total h = Some t \<and> 0 < t \<longrightarrow>
       tokens_spent h s + m * running_agents s \<le> max (wh_turn_spent h) (t - 1 + m * max 1 (wh_concurrency h)))"
proof -
  have "\<forall>(d, r) \<in> set (start_tree h phases j). keeps_limits h m r"
    by (simp add: start_tree_def start_run_keeps)
  from tree_steps_keep [OF this assms(1)] assms(2) have k: "keeps_limits h m s" by auto
  then have slots: "slots_ok (max 1 (wh_concurrency h)) s" by (simp add: keeps_limits_def)
  show ?thesis
    using k running_agents_card [OF slots] running_le [OF slots] by (auto simp: keeps_limits_def committed_def)
qed

lemma depths_put_run [simp]: "map fst (put_run i s tree) = map fst tree"
proof -
  have "(map fst tree)[i := fst (tree ! i)] = map fst tree"
    by (cases "i < length tree") (simp_all add: list_update_same_conv list_update_beyond)
  then show ?thesis by (simp add: put_run_def case_prod_beta comp_def map_update)
qed

lemma depths_on_run: "map fst (tree_step h (OnRun i op) tree) = map fst tree"
  by (simp add: tree_step_def)

definition example_nest :: tree_op where
  "example_nest = Nest 0 False (Some (\<lambda>_. Some ''x'')) (\<lambda>_. Inr (''inner'', [], ''body'')) (Some ''saved'')"

lemma example_nest_depths:
  "map fst (tree_step example_host example_nest (start_tree example_host [] (new_journal ''r'' None))) = [0, 1]"
proof -
  have "check_caps example_host False (start_run example_host [] (new_journal ''r'' None))
      = (None, start_run example_host [] (new_journal ''r'' None))"
    by (simp add: start_run_def new_run_def check_caps_def budget_exhausted_def tokens_spent_def workflow_agent_cap_def example_host_def)
  then show ?thesis by (simp add: tree_step_def example_nest_def start_tree_def nested_enter_def Let_def)
qed

text \<open>An agent of the outer run and one of a nested run, side by side.\<close>

theorem workflow_limits_witness:
  "\<exists>s. (1, s) \<in> set (tree_steps example_host (example_nest # map (OnRun 0) example_ops @ map (OnRun 1) example_ops)
         (start_tree example_host [] (new_journal ''r'' None)))
     \<and> wf_count s \<le> workflow_agent_cap \<and> running_agents s \<le> 2 \<and> tokens_spent example_host s + 5 * running_agents s \<le> 109"
proof -
  let ?ops = "example_nest # map (OnRun 0) example_ops @ map (OnRun 1) example_ops"
  let ?tree = "tree_steps example_host ?ops (start_tree example_host [] (new_journal ''r'' None))"
  have "map fst (fold (tree_step h) (map (OnRun i) ops) tree) = map fst tree" for h i ops tree
    by (induction ops arbitrary: tree) (simp_all add: depths_on_run)
  then have "map fst ?tree = [0, 1]"
    using example_nest_depths by (simp add: tree_steps_def)
  then obtain s where s: "(1, s) \<in> set ?tree" by (cases ?tree; cases "tl ?tree") (auto simp: prod_eq_iff)
  have "wf_count s \<le> workflow_agent_cap \<and> running_agents s \<le> max 1 (wh_concurrency example_host) \<and>
    (\<forall>t. wh_total example_host = Some t \<and> 0 < t \<longrightarrow>
       tokens_spent example_host s + 5 * running_agents s \<le> max (wh_turn_spent example_host) (t - 1 + 5 * max 1 (wh_concurrency example_host)))"
    by (rule workflow_limits [OF _ s]) (simp add: example_nest_def example_ops_def)
  then show ?thesis using s by (intro exI [of _ s]) (simp add: example_host_def)
qed

section \<open>Nested runs\<close>

text \<open>A nested run to its end, while its parent waits.\<close>

definition nested_run :: "workflow_host \<Rightarrow> string list \<Rightarrow> workflow_op list \<Rightarrow> workflow_run \<Rightarrow> workflow_run" where
  "nested_run h phases ops parent = share_run (workflow_steps h ops (child_run h phases parent)) parent"

text \<open>
  A nested run begins with nothing spent and no agent started, and what it spends and starts is not counted when
  its parent goes on: after any number of nested runs the parent has its whole budget and its whole
  allowance of agents, and the first agent of a nested run is reported under the number of the first
  agent of its parent.
\<close>

theorem nested_runs_are_not_counted:
  "tokens_spent h ((nested_run h phases ops ^^ n) s) = tokens_spent h s \<and> wf_count ((nested_run h phases ops ^^ n) s) = wf_count s \<and>
   tokens_spent h (child_run h phases s) = wh_turn_spent h \<and> wf_count (child_run h phases s) = 0"
proof -
  have "wf_spent (fold (\<lambda>title. resolve_phase title NormalPhase) ps s) = wf_spent s \<and>
      wf_count (fold (\<lambda>title. resolve_phase title NormalPhase) ps s) = wf_count s" for ps s
    by (induction ps arbitrary: s) (simp_all add: resolve_phase_def Let_def)
  then have "tokens_spent h (child_run h phases s) = wh_turn_spent h \<and> wf_count (child_run h phases s) = 0"
    by (simp add: child_run_def share_run_def new_run_def tokens_spent_def)
  moreover have "tokens_spent h ((nested_run h phases ops ^^ n) s) = tokens_spent h s \<and> wf_count ((nested_run h phases ops ^^ n) s) = wf_count s"
    by (induction n) (simp_all add: nested_run_def share_run_def tokens_spent_def)
  ultimately show ?thesis by blast
qed

end
