(* ===== verification/Background_Task.thy ===== *)
theory Background_Task
  imports Log_Store Workflow_Journal
begin

text \<open>
  Background tasks (\<open>agents-core/src/capabilities/background\<close>): their kinds, how the work of each kind
  settles, the record of a task and its validation, the text of the notice that a task has settled, and
  the two views over tasks.

  The live handle of a file's environment is not part of a location here. Times are natural numbers of
  milliseconds; the date text of a workflow snapshot is a parameter.
\<close>

section \<open>Tasks\<close>

datatype task_status = TRunning | TCompleted | TFailed | TPaused | TTimedOut | TKilled | TLost

definition is_terminal :: "task_status \<Rightarrow> bool" where
  "is_terminal st \<longleftrightarrow> st \<in> {TCompleted, TFailed, TPaused, TTimedOut, TKilled, TLost}"

lemma is_terminal_iff [simp]: "is_terminal st \<longleftrightarrow> st \<noteq> TRunning"
  by (cases st) (simp_all add: is_terminal_def)

fun status_name :: "task_status \<Rightarrow> string" where
  "status_name TRunning = ''running''"
| "status_name TCompleted = ''completed''"
| "status_name TFailed = ''failed''"
| "status_name TPaused = ''paused''"
| "status_name TTimedOut = ''timed_out''"
| "status_name TKilled = ''killed''"
| "status_name TLost = ''lost''"

datatype output_ref = FileRef string | ConversationRef string | WorkflowRef string

text \<open>What a kind adds to the record of a task.\<close>

datatype task_detail =
    ProcessDetail string "int option"
  | AgentDetail "string option" "string option" "string option"
  | QuestionDetail nat "string option"
  | WorkflowDetail "string option" "string option" "string option"
  | CodeDetail string

fun detail_kind :: "task_detail \<Rightarrow> string" where
  "detail_kind (ProcessDetail _ _) = ''process''"
| "detail_kind (AgentDetail _ _ _) = ''agent''"
| "detail_kind (QuestionDetail _ _) = ''question''"
| "detail_kind (WorkflowDetail _ _ _) = ''workflow''"
| "detail_kind (CodeDetail _) = ''code''"

fun id_prefix :: "task_detail \<Rightarrow> string" where
  "id_prefix (ProcessDetail _ _) = ''bash''"
| "id_prefix d = detail_kind d"

record task_info =
  ti_id :: string
  ti_parent :: "string option"
  ti_call :: "string option"
  ti_description :: string
  ti_status :: task_status
  ti_started :: nat
  ti_ended :: "nat option"
  ti_reason :: "string option"
  ti_suppressed :: bool
  ti_timeout :: "nat option"
  ti_output :: "output_ref option"
  ti_detail :: task_detail

record task_settlement =
  se_status :: task_status
  se_reason :: "string option"

abbreviation settled_as :: "task_status \<Rightarrow> task_settlement" where
  "settled_as st \<equiv> \<lparr>se_status = st, se_reason = None\<rparr>"

section \<open>How the work of a task settles\<close>

definition command_not_stopped_reason :: string where
  "command_not_stopped_reason = ''a stop was requested, but the command could not be confirmed stopped and may still be running''"

text \<open>The run of a command, or of anything else, as its promise settles; an abort error is told apart.\<close>

datatype 'a work_outcome = Returned 'a | Threw bool string | PastDeadline

text \<open>The exit code, whether a stop could not be confirmed, and the settlement.\<close>

definition command_settlement :: "bool \<Rightarrow> (int option \<times> bool) work_outcome \<Rightarrow> int option \<times> bool \<times> task_settlement" where
  "command_settlement aborted r =
     (case r of
        Returned (code, terminated) \<Rightarrow>
          if aborted \<and> \<not> terminated then (code, True, \<lparr>se_status = TFailed, se_reason = Some command_not_stopped_reason\<rparr>)
          else (code, False, settled_as (if aborted then TKilled else if code = Some 0 then TCompleted else TFailed))
      | Threw _ e \<Rightarrow>
          (None, False, \<lparr>se_status = (if aborted then TKilled else TFailed), se_reason = (if aborted then None else Some e)\<rparr>)
      | PastDeadline \<Rightarrow> (None, False, settled_as TTimedOut))"

definition thrown_settlement :: "bool \<Rightarrow> bool \<Rightarrow> string \<Rightarrow> task_settlement" where
  "thrown_settlement aborted is_abort e =
     (if aborted \<and> is_abort then settled_as TKilled else \<lparr>se_status = TFailed, se_reason = Some e\<rparr>)"

definition task_status_from_agent :: "string \<Rightarrow> task_status" where
  "task_status_from_agent s =
     (if s = ''completed'' then TCompleted else if s = ''paused'' then TPaused else if s = ''cancelled'' then TKilled else TFailed)"

text \<open>The agent's own status, if the run reported one, and the settlement.\<close>

definition agent_settlement :: "bool \<Rightarrow> string work_outcome \<Rightarrow> string option \<times> task_settlement" where
  "agent_settlement aborted r =
     (case r of
        Returned s \<Rightarrow> (Some s, settled_as (task_status_from_agent s))
      | Threw is_abort e \<Rightarrow> (None, thrown_settlement aborted is_abort e)
      | PastDeadline \<Rightarrow> (None, settled_as TTimedOut))"

definition workflow_settlement :: "bool \<Rightarrow> string work_outcome \<Rightarrow> string option \<times> task_settlement" where
  "workflow_settlement aborted r =
     (case r of
        Returned s \<Rightarrow> (Some s, settled_as (if s = ''completed'' then TCompleted else TFailed))
      | Threw is_abort e \<Rightarrow> (None, thrown_settlement aborted is_abort e)
      | PastDeadline \<Rightarrow> (None, settled_as TTimedOut))"

definition code_settlement :: "bool \<Rightarrow> (bool \<times> string option) work_outcome \<Rightarrow> task_settlement" where
  "code_settlement aborted r =
     (case r of
        Returned (ok, why) \<Rightarrow> if ok then settled_as TCompleted else \<lparr>se_status = TFailed, se_reason = why\<rparr>
      | Threw is_abort e \<Rightarrow> thrown_settlement aborted is_abort e
      | PastDeadline \<Rightarrow> settled_as TTimedOut)"

fun text_part :: "content_part \<Rightarrow> string option" where
  "text_part (TextPart s) = Some s"
| "text_part _ = None"

definition serialize_tool_result :: "tool_result \<Rightarrow> string" where
  "serialize_tool_result r = concat (List.map_filter text_part (tr_content r))"

definition nonempty_text :: "string \<Rightarrow> string option" where
  "nonempty_text s = (if s = [] then None else Some s)"

text \<open>The answer, if there is one, and the settlement.\<close>

definition question_settlement :: "bool \<Rightarrow> tool_result work_outcome \<Rightarrow> string option \<times> task_settlement" where
  "question_settlement aborted r =
     (case r of
        Returned res \<Rightarrow>
          let out = nonempty_text (js_trim (serialize_tool_result res)); bad = (tr_is_error res = Some True) in
          (out, \<lparr>se_status = (if bad then TFailed else TCompleted), se_reason = (if bad then out else None)\<rparr>)
      | Threw is_abort e \<Rightarrow> (None, thrown_settlement aborted is_abort e)
      | PastDeadline \<Rightarrow> (None, settled_as TTimedOut))"

section \<open>The record of a task\<close>

record persisted_task =
  pt_info :: task_info
  pt_revision :: nat
  pt_queued_at :: "nat option"
  pt_notified_at :: "nat option"

definition output_ref_json :: "output_ref \<Rightarrow> json" where
  "output_ref_json r =
     (case r of
        FileRef p \<Rightarrow> JObj [(''kind'', JStr ''file''), (''path'', JStr p)]
      | ConversationRef a \<Rightarrow> JObj [(''kind'', JStr ''conversation''), (''address'', JStr a)]
      | WorkflowRef a \<Rightarrow> JObj [(''kind'', JStr ''workflow-run''), (''address'', JStr a)])"

fun detail_fields :: "task_detail \<Rightarrow> (string \<times> json) list" where
  "detail_fields (ProcessDetail command code) =
     [(''command'', JStr command), (''exitCode'', (case code of Some n \<Rightarrow> JNum n | None \<Rightarrow> JNull))]"
| "detail_fields (AgentDetail agent type status) =
     some_field ''agentId'' JStr agent @ some_field ''subagentType'' JStr type @ some_field ''agentStatus'' JStr status"
| "detail_fields (QuestionDetail n answer) = [(''questionCount'', JNum (int n))] @ some_field ''answer'' JStr answer"
| "detail_fields (WorkflowDetail name run status) =
     some_field ''workflowName'' JStr name @ some_field ''runId'' JStr run @ some_field ''runStatus'' JStr status"
| "detail_fields (CodeDetail program) = [(''program'', JStr program)]"

definition persisted_json :: "persisted_task \<Rightarrow> json" where
  "persisted_json t =
     (let i = pt_info t in
      JObj ([(''taskId'', JStr (ti_id i))] @ some_field ''parentAddress'' JStr (ti_parent i) @ some_field ''toolCallId'' JStr (ti_call i)
        @ [(''description'', JStr (ti_description i)), (''status'', JStr (status_name (ti_status i))),
           (''startedAt'', JNum (int (ti_started i))), (''endedAt'', (case ti_ended i of Some n \<Rightarrow> JNum (int n) | None \<Rightarrow> JNull))]
        @ some_field ''stopReason'' JStr (ti_reason i)
        @ (if ti_suppressed i then [(''terminalNotificationSuppressed'', JBool True)] else [])
        @ some_field ''timeoutMs'' (\<lambda>n. JNum (int n)) (ti_timeout i) @ some_field ''outputRef'' output_ref_json (ti_output i)
        @ [(''kind'', JStr (detail_kind (ti_detail i)))] @ detail_fields (ti_detail i)
        @ [(''schemaVersion'', JNum 2), (''revision'', JNum (int (pt_revision t)))]
        @ some_field ''notificationQueuedAt'' (\<lambda>n. JNum (int n)) (pt_queued_at t)
        @ some_field ''notifiedAt'' (\<lambda>n. JNum (int n)) (pt_notified_at t)))"

definition task_kinds :: "string list" where
  "task_kinds = [''process'', ''agent'', ''question'', ''workflow'', ''code'']"

definition task_statuses :: "string list" where
  "task_statuses = [''running'', ''completed'', ''failed'', ''paused'', ''timed_out'', ''killed'', ''lost'']"

fun is_number :: "json \<Rightarrow> bool" where
  "is_number (JNum _) = True"
| "is_number _ = False"

fun is_str :: "json \<Rightarrow> bool" where
  "is_str (JStr _) = True"
| "is_str _ = False"

fun is_full_str :: "json \<Rightarrow> bool" where
  "is_full_str (JStr s) = (s \<noteq> [])"
| "is_full_str _ = False"

text \<open>A field that is there and is so; a field that is so if it is there.\<close>

definition has_field :: "string \<Rightarrow> (json \<Rightarrow> bool) \<Rightarrow> (string \<times> json) list \<Rightarrow> bool" where
  "has_field k P fs = (case map_of fs k of Some v \<Rightarrow> P v | None \<Rightarrow> False)"

definition may_have_field :: "string \<Rightarrow> (json \<Rightarrow> bool) \<Rightarrow> (string \<times> json) list \<Rightarrow> bool" where
  "may_have_field k P fs = (case map_of fs k of Some v \<Rightarrow> P v | None \<Rightarrow> True)"

definition is_valid_output_ref :: "json \<Rightarrow> bool" where
  "is_valid_output_ref v =
     (case v of
        JObj fs \<Rightarrow>
          if map_of fs ''kind'' = Some (JStr ''file'') then has_field ''path'' is_full_str fs
          else if map_of fs ''kind'' = Some (JStr ''conversation'') \<or> map_of fs ''kind'' = Some (JStr ''workflow-run'')
          then has_field ''address'' is_full_str fs
          else False
      | _ \<Rightarrow> False)"

fun ref_kind :: "json \<Rightarrow> string option" where
  "ref_kind (JObj fs) = (case map_of fs ''kind'' of Some (JStr k) \<Rightarrow> Some k | _ \<Rightarrow> None)"
| "ref_kind _ = None"

definition is_valid_persisted_task :: "json \<Rightarrow> bool" where
  "is_valid_persisted_task v =
     (case v of
        JObj fs \<Rightarrow>
          let kind_is = (\<lambda>k. map_of fs ''kind'' = Some (JStr k)); ref_is = (\<lambda>k. Option.bind (map_of fs ''outputRef'') ref_kind = Some k) in
          map_of fs ''schemaVersion'' = Some (JNum 2)
          \<and> has_field ''revision'' (\<lambda>v. case v of JNum n \<Rightarrow> n \<ge> 1 | _ \<Rightarrow> False) fs
          \<and> has_field ''taskId'' is_full_str fs
          \<and> has_field ''kind'' (\<lambda>v. case v of JStr k \<Rightarrow> k \<in> set task_kinds | _ \<Rightarrow> False) fs
          \<and> has_field ''status'' (\<lambda>v. case v of JStr k \<Rightarrow> k \<in> set task_statuses | _ \<Rightarrow> False) fs
          \<and> has_field ''description'' is_str fs
          \<and> may_have_field ''parentAddress'' is_str fs \<and> may_have_field ''toolCallId'' is_str fs
          \<and> has_field ''startedAt'' is_number fs
          \<and> has_field ''endedAt'' (\<lambda>v. v = JNull \<or> is_number v) fs
          \<and> may_have_field ''outputRef'' is_valid_output_ref fs
          \<and> (kind_is ''process'' \<longrightarrow> ref_is ''file'') \<and> (kind_is ''code'' \<longrightarrow> ref_is ''file'')
          \<and> (kind_is ''agent'' \<longrightarrow> ref_is ''conversation'') \<and> (kind_is ''workflow'' \<longrightarrow> ref_is ''workflow-run'')
          \<and> (kind_is ''question'' \<longrightarrow> map_of fs ''outputRef'' = None)
          \<and> may_have_field ''notificationQueuedAt'' is_number fs \<and> may_have_field ''notifiedAt'' is_number fs
      | _ \<Rightarrow> False)"

text \<open>\<open>assertDurableOutput\<close>: the error, if the location of the output does not fit the kind.\<close>

fun fitting_output :: "task_detail \<Rightarrow> output_ref option \<Rightarrow> bool" where
  "fitting_output (ProcessDetail _ _) (Some (FileRef _)) = True"
| "fitting_output (AgentDetail _ _ _) (Some (ConversationRef _)) = True"
| "fitting_output (WorkflowDetail _ _ _) (Some (WorkflowRef _)) = True"
| "fitting_output (CodeDetail _) (Some (FileRef _)) = True"
| "fitting_output (QuestionDetail _ _) None = True"
| "fitting_output _ _ = False"

definition assert_durable_output :: "bool \<Rightarrow> task_detail \<Rightarrow> output_ref option \<Rightarrow> string option" where
  "assert_durable_output has_store d out =
     (if \<not> fitting_output d out
      then Some (''Background '' @ detail_kind d @ '' tasks require their canonical durable output location.'')
      else if (case out of Some (ConversationRef _) \<Rightarrow> True | Some (WorkflowRef _) \<Rightarrow> True | _ \<Rightarrow> False) \<and> \<not> has_store
      then Some (''Background '' @ detail_kind d @ '' tasks require an attached durable session store.'')
      else None)"

section \<open>The notice that a task has settled\<close>

definition subagent_status_from_task :: "task_status \<Rightarrow> string" where
  "subagent_status_from_task st =
     (case st of TCompleted \<Rightarrow> ''completed'' | TPaused \<Rightarrow> ''paused'' | TKilled \<Rightarrow> ''cancelled'' | TLost \<Rightarrow> ''lost'' | _ \<Rightarrow> ''error'')"

definition workflow_status_from_task :: "task_status \<Rightarrow> string" where
  "workflow_status_from_task st =
     (if st = TCompleted then ''completed'' else if st = TKilled \<or> st = TLost then ''aborted'' else ''failed'')"

definition or_else :: "'a option \<Rightarrow> 'a \<Rightarrow> 'a" where
  "or_else v d = (case v of Some x \<Rightarrow> x | None \<Rightarrow> d)"

text \<open>The agent, the run and the status that a notice carries.\<close>

definition settle_identity :: "task_info \<Rightarrow> string option \<times> string option \<times> string option" where
  "settle_identity i =
     (case ti_detail i of
        AgentDetail agent type status \<Rightarrow> (agent, None, Some (or_else status (subagent_status_from_task (ti_status i))))
      | WorkflowDetail name run status \<Rightarrow> (None, run, Some (or_else status (workflow_status_from_task (ti_status i))))
      | _ \<Rightarrow> (None, None, None))"

definition question_answer_max_chars :: nat where
  "question_answer_max_chars = 8000"

definition quote_mark :: string where
  "quote_mark = [CHR 0x22]"

definition build_terminal_summary :: "task_info \<Rightarrow> bool \<Rightarrow> string option \<Rightarrow> string" where
  "build_terminal_summary i output_readable answer =
     (let exit_text = (case ti_detail i of ProcessDetail _ (Some n) \<Rightarrow> '' (exit code '' @ js_of_int n @ '')'' | _ \<Rightarrow> []);
          head = (if ti_status i = TTimedOut then ti_description i @ '' timed out'' @ exit_text @ ''.''
                  else case ti_reason i of
                    Some (c # cs) \<Rightarrow> ti_description i @ '' '' @ (if ti_status i = TKilled then ''was killed'' else status_name (ti_status i))
                      @ exit_text @ '': '' @ (c # cs) @ ''.''
                  | _ \<Rightarrow> ti_description i @ '' '' @ status_name (ti_status i) @ exit_text @ ''.'');
          log = (case ti_output i of Some (FileRef p) \<Rightarrow> Some p | _ \<Rightarrow> None);
          lines = [head] @ (case log of Some p \<Rightarrow> [''output_log: '' @ p] | None \<Rightarrow> []);
          call = ''BackgroundOutput(task_id='' @ quote_mark @ ti_id i @ quote_mark @ '')''
      in case answer of
           Some a \<Rightarrow>
             let cut = length a > question_answer_max_chars in
             join_lines (lines @ (if cut then [''[answer, truncated]'', take question_answer_max_chars a] else [''[answer]'', a])
               @ (if cut then [''Read the full answer with '' @ call @ ''.''] else []))
         | None \<Rightarrow>
             join_lines (lines @
               (if output_readable
                then [(case log of
                         Some _ \<Rightarrow> ''Read its output with '' @ call @ '', or Read the log file above for the full, never-truncated record.''
                       | None \<Rightarrow> ''Read its output with '' @ call @ ''.'')]
                else [])))"

text \<open>\<open>answeredQuestionOutput\<close>.\<close>

definition answered_question_output :: "task_info \<Rightarrow> string option" where
  "answered_question_output i =
     (case ti_detail i of QuestionDetail _ (Some a) \<Rightarrow> if ti_status i = TCompleted then nonempty_text a else None | _ \<Rightarrow> None)"

definition settle_origin :: "task_info \<Rightarrow> string option \<Rightarrow> string \<Rightarrow> steer_origin" where
  "settle_origin i call summary =
     (case settle_identity i of (agent, run, status) \<Rightarrow> FromBackground (ti_id i) call (Some summary) agent run status)"

text \<open>The notices: of a settled task, of a lost one, and again of one whose notice was not confirmed.\<close>

definition terminal_notice :: "task_info \<Rightarrow> string \<times> steer_origin" where
  "terminal_notice i =
     (let summary = build_terminal_summary i True (answered_question_output i) in (summary, settle_origin i (ti_call i) summary))"

definition lost_notice :: "task_info \<Rightarrow> string \<times> steer_origin" where
  "lost_notice i =
     (let summary = ti_description i @ '' was running when the previous process exited; marked lost.''
      in (summary, settle_origin i None summary))"

definition unconfirmed_notice :: "bool \<Rightarrow> task_info \<Rightarrow> string \<times> steer_origin" where
  "unconfirmed_notice has_store i =
     (let answer = (case ti_detail i of QuestionDetail _ a \<Rightarrow> if ti_status i = TCompleted then a else None | _ \<Rightarrow> None);
          readable = (answer \<noteq> None \<or>
            (case ti_output i of Some (FileRef _) \<Rightarrow> True | Some _ \<Rightarrow> has_store | None \<Rightarrow> False));
          note_text = (if readable then ''(Settled in an earlier process; its durable output is still available.)''
                  else ''(Settled in an earlier process; no durable output reference is available.)'');
          summary = build_terminal_summary i readable answer @ newline @ note_text
      in (summary, settle_origin i None summary))"

section \<open>Views\<close>

record subagent_record =
  sa_agent :: string
  sa_type :: string
  sa_address :: string
  sa_description :: string
  sa_task :: string
  sa_created :: nat
  sa_status :: string
  sa_updated :: nat

definition subagent_statuses :: "string list" where
  "subagent_statuses = [''running'', ''completed'', ''error'', ''cancelled'', ''paused'', ''lost'']"

text \<open>The run's own status, if it is one of the known ones.\<close>

definition own_status :: "string list \<Rightarrow> string option \<Rightarrow> string \<Rightarrow> string" where
  "own_status known own fallback = (case own of Some s \<Rightarrow> if s \<in> set known then s else fallback | None \<Rightarrow> fallback)"

definition subagent_view_status :: "task_status \<Rightarrow> string option \<Rightarrow> string" where
  "subagent_view_status st own = own_status subagent_statuses own
     (case st of TCompleted \<Rightarrow> ''completed'' | TKilled \<Rightarrow> ''cancelled'' | TPaused \<Rightarrow> ''paused'' | TLost \<Rightarrow> ''lost''
      | TRunning \<Rightarrow> ''running'' | _ \<Rightarrow> ''error'')"

definition task_to_subagent_record :: "task_info \<Rightarrow> subagent_record option" where
  "task_to_subagent_record i =
     (case (ti_detail i, ti_output i) of
        (AgentDetail (Some agent) type own, Some (ConversationRef a)) \<Rightarrow>
          Some \<lparr>sa_agent = agent, sa_type = or_else type ''unknown'', sa_address = a, sa_description = ti_description i, sa_task = ti_id i,
            sa_created = ti_started i, sa_status = subagent_view_status (ti_status i) own, sa_updated = or_else (ti_ended i) (ti_started i)\<rparr>
      | _ \<Rightarrow> None)"

record workflow_snapshot =
  ws_run :: string
  ws_name :: string
  ws_description :: string
  ws_status :: string
  ws_task :: string
  ws_started :: string
  ws_ended :: "string option"

definition workflow_statuses :: "string list" where
  "workflow_statuses = [''running'', ''completed'', ''failed'', ''aborted'']"

definition workflow_view_status :: "task_status \<Rightarrow> string option \<Rightarrow> string" where
  "workflow_view_status st own = own_status workflow_statuses own
     (case st of TCompleted \<Rightarrow> ''completed'' | TKilled \<Rightarrow> ''aborted'' | TLost \<Rightarrow> ''aborted'' | TRunning \<Rightarrow> ''running'' | _ \<Rightarrow> ''failed'')"

definition task_to_workflow_snapshot :: "(nat \<Rightarrow> string) \<Rightarrow> task_info \<Rightarrow> workflow_snapshot option" where
  "task_to_workflow_snapshot iso_text i =
     (case ti_detail i of
        WorkflowDetail name (Some run) own \<Rightarrow>
          Some \<lparr>ws_run = run, ws_name = or_else name ''unknown'', ws_description = ti_description i,
            ws_status = workflow_view_status (ti_status i) own, ws_task = ti_id i, ws_started = iso_text (ti_started i),
            ws_ended = map_option iso_text (ti_ended i)\<rparr>
      | _ \<Rightarrow> None)"

definition last_assistant_text :: "message list \<Rightarrow> string" where
  "last_assistant_text ms =
     (case List.map_filter (\<lambda>m. case m of AssistantMsg a \<Rightarrow> Some a | _ \<Rightarrow> None) (rev ms) of
        a # _ \<Rightarrow> concat (List.map_filter text_part (am_content a))
      | [] \<Rightarrow> [])"

section \<open>What is written can be read\<close>

lemma map_of_some_field [simp]: "map_of (some_field k f v) k' = (if k' = k then map_option f v else None)"
  by (simp add: some_field_def split: option.split)

lemma map_of_detail_fields:
  "k \<in> {''taskId'', ''parentAddress'', ''toolCallId'', ''description'', ''status'', ''startedAt'', ''endedAt'', ''outputRef'', ''kind'',
     ''schemaVersion'', ''revision'', ''notificationQueuedAt'', ''notifiedAt''} \<Longrightarrow> map_of (detail_fields d) k = None"
  by (cases d) (auto simp: map_add_def)

definition named_output :: "output_ref option \<Rightarrow> bool" where
  "named_output out \<longleftrightarrow>
     (case out of Some (FileRef p) \<Rightarrow> p \<noteq> [] | Some (ConversationRef a) \<Rightarrow> a \<noteq> [] | Some (WorkflowRef a) \<Rightarrow> a \<noteq> [] | None \<Rightarrow> True)"

lemma persisted_fields:
  fixes t
  defines "i \<equiv> pt_info t"
  obtains fs where "persisted_json t = JObj fs"
    "map_of fs ''taskId'' = Some (JStr (ti_id i))" "map_of fs ''parentAddress'' = map_option JStr (ti_parent i)"
    "map_of fs ''toolCallId'' = map_option JStr (ti_call i)" "map_of fs ''description'' = Some (JStr (ti_description i))"
    "map_of fs ''status'' = Some (JStr (status_name (ti_status i)))" "map_of fs ''startedAt'' = Some (JNum (int (ti_started i)))"
    "map_of fs ''endedAt'' = Some (case ti_ended i of Some n \<Rightarrow> JNum (int n) | None \<Rightarrow> JNull)"
    "map_of fs ''outputRef'' = map_option output_ref_json (ti_output i)" "map_of fs ''kind'' = Some (JStr (detail_kind (ti_detail i)))"
    "map_of fs ''schemaVersion'' = Some (JNum 2)" "map_of fs ''revision'' = Some (JNum (int (pt_revision t)))"
    "map_of fs ''notificationQueuedAt'' = map_option (\<lambda>n. JNum (int n)) (pt_queued_at t)"
    "map_of fs ''notifiedAt'' = map_option (\<lambda>n. JNum (int n)) (pt_notified_at t)"
  by (rule that, unfold persisted_json_def Let_def i_def [symmetric], rule refl)
    (simp_all add: map_add_def map_of_detail_fields split: option.split)

lemma valid_output_ref: "is_valid_output_ref (output_ref_json r) \<longleftrightarrow> named_output (Some r)"
  by (cases r) (simp_all add: is_valid_output_ref_def output_ref_json_def named_output_def has_field_def)

lemma ref_kind_json: "ref_kind (output_ref_json r) = Some (case r of FileRef _ \<Rightarrow> ''file'' | ConversationRef _ \<Rightarrow> ''conversation'' | WorkflowRef _ \<Rightarrow> ''workflow-run'')"
  by (cases r) (simp_all add: output_ref_json_def)

lemma valid_record_iff:
  "is_valid_persisted_task (persisted_json t) \<longleftrightarrow>
     1 \<le> pt_revision t \<and> ti_id (pt_info t) \<noteq> [] \<and> fitting_output (ti_detail (pt_info t)) (ti_output (pt_info t)) \<and>
     named_output (ti_output (pt_info t))"
proof -
  obtain fs where fs: "persisted_json t = JObj fs"
    "map_of fs ''taskId'' = Some (JStr (ti_id (pt_info t)))" "map_of fs ''parentAddress'' = map_option JStr (ti_parent (pt_info t))"
    "map_of fs ''toolCallId'' = map_option JStr (ti_call (pt_info t))" "map_of fs ''description'' = Some (JStr (ti_description (pt_info t)))"
    "map_of fs ''status'' = Some (JStr (status_name (ti_status (pt_info t))))" "map_of fs ''startedAt'' = Some (JNum (int (ti_started (pt_info t))))"
    "map_of fs ''endedAt'' = Some (case ti_ended (pt_info t) of Some n \<Rightarrow> JNum (int n) | None \<Rightarrow> JNull)"
    "map_of fs ''outputRef'' = map_option output_ref_json (ti_output (pt_info t))" "map_of fs ''kind'' = Some (JStr (detail_kind (ti_detail (pt_info t))))"
    "map_of fs ''schemaVersion'' = Some (JNum 2)" "map_of fs ''revision'' = Some (JNum (int (pt_revision t)))"
    "map_of fs ''notificationQueuedAt'' = map_option (\<lambda>n. JNum (int n)) (pt_queued_at t)"
    "map_of fs ''notifiedAt'' = map_option (\<lambda>n. JNum (int n)) (pt_notified_at t)"
    by (rule persisted_fields)
  have st: "has_field ''status'' (\<lambda>v. case v of JStr k \<Rightarrow> k \<in> set task_statuses | _ \<Rightarrow> False) fs"
    by (cases "ti_status (pt_info t)"; simp add: has_field_def fs task_statuses_def)
  have kd: "has_field ''kind'' (\<lambda>v. case v of JStr k \<Rightarrow> k \<in> set task_kinds | _ \<Rightarrow> False) fs"
    by (cases "ti_detail (pt_info t)"; simp add: has_field_def fs task_kinds_def)
  have plain: "has_field ''description'' is_str fs" "may_have_field ''parentAddress'' is_str fs" "may_have_field ''toolCallId'' is_str fs"
    "has_field ''startedAt'' is_number fs" "has_field ''endedAt'' (\<lambda>v. v = JNull \<or> is_number v) fs"
    "may_have_field ''notificationQueuedAt'' is_number fs" "may_have_field ''notifiedAt'' is_number fs"
    by (simp_all add: has_field_def may_have_field_def fs split: option.split)
  have rev: "has_field ''revision'' (\<lambda>v. case v of JNum n \<Rightarrow> n \<ge> 1 | _ \<Rightarrow> False) fs \<longleftrightarrow> 1 \<le> pt_revision t"
    "has_field ''taskId'' is_full_str fs \<longleftrightarrow> ti_id (pt_info t) \<noteq> []" "map_of fs ''schemaVersion'' = Some (JNum 2)"
    by (simp_all add: has_field_def fs)
  have out: "may_have_field ''outputRef'' is_valid_output_ref fs \<longleftrightarrow> named_output (ti_output (pt_info t))"
    by (cases "ti_output (pt_info t)") (simp_all add: may_have_field_def fs valid_output_ref, simp add: named_output_def)
  have fit: "fitting_output (ti_detail (pt_info t)) (ti_output (pt_info t)) \<longleftrightarrow>
      (let kind_is = (\<lambda>k. map_of fs ''kind'' = Some (JStr k)); ref_is = (\<lambda>k. Option.bind (map_of fs ''outputRef'') ref_kind = Some k) in
       (kind_is ''process'' \<longrightarrow> ref_is ''file'') \<and> (kind_is ''code'' \<longrightarrow> ref_is ''file'')
          \<and> (kind_is ''agent'' \<longrightarrow> ref_is ''conversation'') \<and> (kind_is ''workflow'' \<longrightarrow> ref_is ''workflow-run'')
          \<and> (kind_is ''question'' \<longrightarrow> map_of fs ''outputRef'' = None))"
    by (cases "ti_detail (pt_info t)"; cases "ti_output (pt_info t)")
      (auto simp: fs ref_kind_json Let_def split: output_ref.split)
  show ?thesis
    unfolding is_valid_persisted_task_def fs(1) json.case
    using st kd plain rev out fit unfolding Let_def by blast
qed

text \<open>
  The record of a task passes the validation of the next process exactly when it was written with a revision and an
  id, its output is where its kind keeps it, and that place has a name. So of the tasks the manager lets in, none with
  a named place is forgotten by a reopened session.
\<close>

theorem record_validates:
  "is_valid_persisted_task (persisted_json t) \<longleftrightarrow>
     1 \<le> pt_revision t \<and> ti_id (pt_info t) \<noteq> [] \<and> fitting_output (ti_detail (pt_info t)) (ti_output (pt_info t)) \<and>
     named_output (ti_output (pt_info t))"
  by (rule valid_record_iff)

end
