(* ===== verification/Background_Manager.thy ===== *)
theory Background_Manager
  imports Background_Task
begin

text \<open>
  The manager of background tasks (\<open>capabilities/background/manager.ts\<close>) and the store of their records
  (\<open>persist.ts\<close>).

  Writes of records are queued in \<open>bm_writes\<close> and reach the store one by one. A method that waits for its
  write is split there: \<open>settle_begin\<close> and \<open>settle_end\<close>, \<open>register_task\<close> and \<open>begin_work\<close>. What the manager tells
  (events, notices on the steering bus, woken waiters) is appended to \<open>bm_effects\<close>. Ids and the time are
  arguments. The timers of \<open>wait\<close> and \<open>stop\<close> are steps of their own.
\<close>

section \<open>State\<close>

record managed_task =
  mt_id :: string
  mt_parent :: "string option"
  mt_call :: "string option"
  mt_description :: string
  mt_timeout :: "nat option"
  mt_output :: "output_ref option"
  mt_detail :: task_detail
  mt_status :: task_status
  mt_started :: nat
  mt_ended :: "nat option"
  mt_waiters :: "nat list"
  mt_fired :: bool
  mt_reason :: "string option"
  mt_suppressed :: bool
  mt_queued_at :: "nat option"
  mt_notified_at :: "nat option"
  mt_revision :: nat
  mt_aborted :: bool
  mt_watched :: bool

datatype bg_effect =
    TaskStarted task_info
  | TaskTerminated task_info
  | Noticed string steer_origin
  | Woke nat
  | Warned string

record background_manager =
  bm_tasks :: "(string, managed_task) jsmap"
  bm_ghosts :: "(string, persisted_task) jsmap"
  bm_redelivered :: "string list"
  bm_max :: "nat option"
  bm_steers :: bool
  bm_persists :: bool
  bm_has_store :: bool
  bm_writes :: "persisted_task list"
  bm_settling :: "(string \<times> nat) list"
  bm_starting :: "(string \<times> nat) list"
  bm_effects :: "bg_effect list"

definition new_manager :: "nat option \<Rightarrow> background_manager" where
  "new_manager limit =
     \<lparr>bm_tasks = [], bm_ghosts = [], bm_redelivered = [], bm_max = limit, bm_steers = False, bm_persists = False, bm_has_store = False,
      bm_writes = [], bm_settling = [], bm_starting = [], bm_effects = []\<rparr>"

definition bg_attach :: "bool \<Rightarrow> bool \<Rightarrow> bool \<Rightarrow> background_manager \<Rightarrow> background_manager" where
  "bg_attach steers persists has_store m = m\<lparr>bm_steers := steers, bm_persists := persists, bm_has_store := has_store\<rparr>"

definition to_info :: "managed_task \<Rightarrow> task_info" where
  "to_info e =
     \<lparr>ti_id = mt_id e, ti_parent = mt_parent e, ti_call = mt_call e, ti_description = mt_description e, ti_status = mt_status e,
      ti_started = mt_started e, ti_ended = mt_ended e, ti_reason = mt_reason e, ti_suppressed = mt_suppressed e,
      ti_timeout = mt_timeout e, ti_output = mt_output e, ti_detail = mt_detail e\<rparr>"

definition to_persisted :: "managed_task \<Rightarrow> persisted_task" where
  "to_persisted e =
     \<lparr>pt_info = to_info e, pt_revision = mt_revision e, pt_queued_at = mt_queued_at e, pt_notified_at = mt_notified_at e\<rparr>"

section \<open>The store of records\<close>

record task_kv =
  kv_tasks :: "(string, persisted_task) jsmap"
  kv_index :: "string list"

definition empty_kv :: task_kv where
  "empty_kv = \<lparr>kv_tasks = [], kv_index = []\<rparr>"

definition write_task :: "persisted_task \<Rightarrow> task_kv \<Rightarrow> task_kv" where
  "write_task t kv =
     \<lparr>kv_tasks = jset (ti_id (pt_info t)) t (kv_tasks kv),
      kv_index = (if ti_id (pt_info t) \<in> set (kv_index kv) then kv_index kv else kv_index kv @ [ti_id (pt_info t)])\<rparr>"

definition read_task :: "string \<Rightarrow> task_kv \<Rightarrow> persisted_task option" where
  "read_task i kv =
     (case map_of (kv_tasks kv) i of Some t \<Rightarrow> if is_valid_persisted_task (persisted_json t) then Some t else None | None \<Rightarrow> None)"

definition list_tasks :: "task_kv \<Rightarrow> persisted_task list" where
  "list_tasks kv = List.map_filter (\<lambda>i. read_task i kv) (kv_index kv)"

definition delete_task :: "string \<Rightarrow> task_kv \<Rightarrow> task_kv" where
  "delete_task i kv = \<lparr>kv_tasks = jdelete i (kv_tasks kv), kv_index = filter (\<lambda>j. j \<noteq> i) (kv_index kv)\<rparr>"

section \<open>Steps shared by the operations\<close>

definition put_task :: "managed_task \<Rightarrow> background_manager \<Rightarrow> background_manager" where
  "put_task e m = m\<lparr>bm_tasks := jset (mt_id e) e (bm_tasks m)\<rparr>"

definition tell :: "bg_effect \<Rightarrow> background_manager \<Rightarrow> background_manager" where
  "tell x m = m\<lparr>bm_effects := bm_effects m @ [x]\<rparr>"

definition enqueue_persist :: "persisted_task \<Rightarrow> background_manager \<Rightarrow> background_manager" where
  "enqueue_persist t m = (if bm_persists m then m\<lparr>bm_writes := bm_writes m @ [t]\<rparr> else m)"

text \<open>\<open>persistLive\<close>: the next revision, captured before it is queued.\<close>

definition persist_live :: "managed_task \<Rightarrow> background_manager \<Rightarrow> background_manager" where
  "persist_live e m =
     (if bm_persists m
      then let e' = e\<lparr>mt_revision := mt_revision e + 1\<rparr> in enqueue_persist (to_persisted e') (put_task e' m)
      else put_task e m)"

definition stamp_notification_queued :: "string \<Rightarrow> nat \<Rightarrow> background_manager \<Rightarrow> background_manager" where
  "stamp_notification_queued i now m =
     (if \<not> bm_persists m then m
      else case map_of (bm_tasks m) i of
        Some e \<Rightarrow> persist_live (e\<lparr>mt_queued_at := Some now\<rparr>) m
      | None \<Rightarrow>
          (case map_of (bm_ghosts m) i of
             None \<Rightarrow> m
           | Some g \<Rightarrow>
               let g' = g\<lparr>pt_queued_at := Some now, pt_revision := pt_revision g + 1\<rparr>
               in enqueue_persist g' (m\<lparr>bm_ghosts := jset i g' (bm_ghosts m)\<rparr>)))"

definition stamp_notified :: "string \<Rightarrow> nat \<Rightarrow> background_manager \<Rightarrow> background_manager" where
  "stamp_notified i now m =
     (if \<not> bm_persists m then m
      else case map_of (bm_tasks m) i of
        Some e \<Rightarrow> if mt_notified_at e \<noteq> None then m else persist_live (e\<lparr>mt_notified_at := Some now\<rparr>) m
      | None \<Rightarrow>
          (case map_of (bm_ghosts m) i of
             None \<Rightarrow> m
           | Some g \<Rightarrow>
               if pt_notified_at g \<noteq> None then m
               else let g' = g\<lparr>pt_notified_at := Some now, pt_revision := pt_revision g + 1\<rparr>
                 in enqueue_persist g' (m\<lparr>bm_ghosts := jset i g' (bm_ghosts m)\<rparr>)))"

definition steer_notice :: "string \<Rightarrow> string \<times> steer_origin \<Rightarrow> nat \<Rightarrow> background_manager \<Rightarrow> background_manager" where
  "steer_notice i n now m =
     (if \<not> bm_steers m then m else stamp_notification_queued i now (tell (Noticed (fst n) (snd n)) m))"

definition is_suppressed :: "string \<Rightarrow> background_manager \<Rightarrow> bool" where
  "is_suppressed i m = (case map_of (bm_tasks m) i of Some e \<Rightarrow> mt_suppressed e | None \<Rightarrow> False)"

definition steer_terminal :: "task_info \<Rightarrow> nat \<Rightarrow> background_manager \<Rightarrow> background_manager" where
  "steer_terminal i now m = (if is_suppressed (ti_id i) m then m else steer_notice (ti_id i) (terminal_notice i) now m)"

definition fire_terminal_effects :: "managed_task \<Rightarrow> nat \<Rightarrow> background_manager \<Rightarrow> background_manager" where
  "fire_terminal_effects e now m =
     (if mt_fired e then m
      else let e' = e\<lparr>mt_fired := True\<rparr> in steer_terminal (to_info e') now (tell (TaskTerminated (to_info e')) (put_task e' m)))"

definition resolve_waiters :: "string \<Rightarrow> background_manager \<Rightarrow> background_manager" where
  "resolve_waiters i m =
     (case map_of (bm_tasks m) i of
        None \<Rightarrow> m
      | Some e \<Rightarrow> fold (\<lambda>w. tell (Woke w)) (mt_waiters e) (put_task (e\<lparr>mt_waiters := []\<rparr>) m))"

section \<open>Settling\<close>

text \<open>
  \<open>settleTask\<close> up to its wait: the flag tells whether there is something to wait for. A second report that the
  task was killed, of a task that was killed, moves its end and fires what the first has not fired yet.
\<close>

definition settle_begin :: "string \<Rightarrow> task_settlement \<Rightarrow> nat \<Rightarrow> background_manager \<Rightarrow> bool \<times> background_manager" where
  "settle_begin i se now m =
     (case map_of (bm_tasks m) i of
        None \<Rightarrow> (False, m)
      | Some e0 \<Rightarrow>
          let e = e0\<lparr>mt_watched := False\<rparr> in
          if is_terminal (mt_status e)
          then (False,
            if mt_status e = TKilled \<and> se_status se = TKilled
            then let e' = e\<lparr>mt_ended := Some (max now (or_else (mt_ended e) 0 + 1))\<rparr>
                 in resolve_waiters i (fire_terminal_effects e' now (put_task e' m))
            else put_task e m)
          else
            let e' = e\<lparr>mt_status := se_status se, mt_ended := Some now,
                       mt_reason := (case se_reason se of Some r \<Rightarrow> Some r | None \<Rightarrow> if se_status se = TKilled then mt_reason e else None)\<rparr>;
                m' = persist_live e' m
            in (True, m'\<lparr>bm_settling := bm_settling m' @ [(i, case map_of (bm_tasks m') i of Some x \<Rightarrow> mt_revision x | None \<Rightarrow> 0)]\<rparr>))"

text \<open>Whether the write of a revision is still in the queue.\<close>

definition write_pending :: "string \<times> nat \<Rightarrow> background_manager \<Rightarrow> bool" where
  "write_pending p m = list_ex (\<lambda>t. ti_id (pt_info t) = fst p \<and> pt_revision t = snd p) (bm_writes m)"

definition settle_end :: "string \<times> nat \<Rightarrow> nat \<Rightarrow> background_manager \<Rightarrow> background_manager" where
  "settle_end p now m =
     (if p \<notin> set (bm_settling m) \<or> write_pending p m then m
      else let m' = m\<lparr>bm_settling := remove1 p (bm_settling m)\<rparr> in
        case map_of (bm_tasks m') (fst p) of
          None \<Rightarrow> m'
        | Some e \<Rightarrow> resolve_waiters (fst p) (fire_terminal_effects e now m'))"

section \<open>Registering, stopping, waiting\<close>

definition active_task_count :: "background_manager \<Rightarrow> nat" where
  "active_task_count m = length (filter (\<lambda>(_, e). \<not> is_terminal (mt_status e)) (bm_tasks m))"

definition assert_can_register :: "background_manager \<Rightarrow> string option" where
  "assert_can_register m =
     (case bm_max m of
        None \<Rightarrow> None
      | Some n \<Rightarrow> if active_task_count m < n then None else Some ''Too many background tasks are already running.'')"

record new_task =
  nt_parent :: "string option"
  nt_call :: "string option"
  nt_description :: string
  nt_timeout :: "nat option"
  nt_output :: "output_ref option"
  nt_detail :: task_detail

definition new_entry :: "string \<Rightarrow> new_task \<Rightarrow> nat \<Rightarrow> bool \<Rightarrow> managed_task" where
  "new_entry i t now aborted =
     \<lparr>mt_id = i, mt_parent = nt_parent t, mt_call = nt_call t, mt_description = nt_description t, mt_timeout = nt_timeout t,
      mt_output = nt_output t, mt_detail = nt_detail t, mt_status = TRunning, mt_started = now, mt_ended = None, mt_waiters = [],
      mt_fired = False, mt_reason = None, mt_suppressed = False, mt_queued_at = None, mt_notified_at = None, mt_revision = 0,
      mt_aborted = aborted, mt_watched = False\<rparr>"

text \<open>\<open>watchForStall\<close>: only a running command with a log is watched.\<close>

definition watch_for_stall :: "string \<Rightarrow> background_manager \<Rightarrow> background_manager" where
  "watch_for_stall i m =
     (case map_of (bm_tasks m) i of
        None \<Rightarrow> m
      | Some e \<Rightarrow>
          (case (mt_detail e, mt_output e) of
             (ProcessDetail _ _, Some (FileRef _)) \<Rightarrow> if is_terminal (mt_status e) then m else put_task (e\<lparr>mt_watched := True\<rparr>) m
           | _ \<Rightarrow> m))"

text \<open>The entry is written before its work begins; the event of its start comes at once.\<close>

definition enter_task :: "managed_task \<Rightarrow> background_manager \<Rightarrow> background_manager" where
  "enter_task e m = watch_for_stall (mt_id e) (tell (TaskStarted (to_info e)) (persist_live e m))"

definition register_task :: "string \<Rightarrow> new_task \<Rightarrow> nat \<Rightarrow> background_manager \<Rightarrow> (string + string) \<times> background_manager" where
  "register_task i t now m =
     (case assert_durable_output (bm_has_store m) (nt_detail t) (nt_output t) of
        Some e \<Rightarrow> (Inl e, m)
      | None \<Rightarrow>
          (case assert_can_register m of
             Some e \<Rightarrow> (Inl e, m)
           | None \<Rightarrow>
               let m' = enter_task (new_entry i t now False) m
               in (Inr i, m'\<lparr>bm_starting := bm_starting m' @ [(i, 1)]\<rparr>)))"

text \<open>The work begins once the first write was tried.\<close>

definition begin_work :: "string \<Rightarrow> background_manager \<Rightarrow> bool \<times> background_manager" where
  "begin_work i m =
     (if (i, 1) \<in> set (bm_starting m) \<and> \<not> write_pending (i, 1) m
      then (True, m\<lparr>bm_starting := remove1 (i, 1) (bm_starting m)\<rparr>) else (False, m))"

text \<open>\<open>adoptRunning\<close>: work that runs already, and that the limit does not hold for.\<close>

definition adopt_running :: "string \<Rightarrow> new_task \<Rightarrow> bool \<Rightarrow> nat \<Rightarrow> background_manager \<Rightarrow> (string + string) \<times> background_manager" where
  "adopt_running i t aborted now m =
     (case assert_durable_output (bm_has_store m) (nt_detail t) (nt_output t) of
        Some e \<Rightarrow> (Inl e, m)
      | None \<Rightarrow> (Inr i, enter_task (new_entry i t now aborted) m))"

definition bg_stop :: "string \<Rightarrow> string option \<Rightarrow> background_manager \<Rightarrow> background_manager" where
  "bg_stop i reason m =
     (case map_of (bm_tasks m) i of
        None \<Rightarrow> m
      | Some e \<Rightarrow>
          if is_terminal (mt_status e) then m
          else put_task (e\<lparr>mt_reason := Option.bind reason (\<lambda>r. nonempty_text (js_trim r)), mt_aborted := True\<rparr>) m)"

text \<open>After the grace period, or once the work has returned without settling: what \<open>stop\<close> does then.\<close>

definition stop_expired :: "string \<Rightarrow> string option \<Rightarrow> nat \<Rightarrow> background_manager \<Rightarrow> bool \<times> background_manager" where
  "stop_expired i reason now m =
     (case map_of (bm_tasks m) i of
        None \<Rightarrow> (False, m)
      | Some e \<Rightarrow>
          if is_terminal (mt_status e) then (False, m)
          else settle_begin i \<lparr>se_status = TKilled, se_reason = Option.bind reason (\<lambda>r. nonempty_text (js_trim r))\<rparr> now m)"

definition stop_all :: "string option \<Rightarrow> background_manager \<Rightarrow> background_manager" where
  "stop_all reason m = fold (\<lambda>i. bg_stop i reason) (jkeys (bm_tasks m)) m"

definition bg_wait :: "string \<Rightarrow> nat \<Rightarrow> bool \<Rightarrow> background_manager \<Rightarrow> bool \<times> background_manager" where
  "bg_wait i w aborted m =
     (case map_of (bm_tasks m) i of
        None \<Rightarrow> (False, m)
      | Some e \<Rightarrow>
          if is_terminal (mt_status e) \<or> aborted then (False, m)
          else (True, put_task (e\<lparr>mt_waiters := mt_waiters e @ [w]\<rparr>) m))"

definition wait_given_up :: "string \<Rightarrow> nat \<Rightarrow> background_manager \<Rightarrow> background_manager" where
  "wait_given_up i w m =
     (case map_of (bm_tasks m) i of None \<Rightarrow> m | Some e \<Rightarrow> put_task (e\<lparr>mt_waiters := remove1 w (mt_waiters e)\<rparr>) m)"

definition suppress_terminal_notification :: "string \<Rightarrow> background_manager \<Rightarrow> background_manager" where
  "suppress_terminal_notification i m =
     (case map_of (bm_tasks m) i of None \<Rightarrow> m | Some e \<Rightarrow> put_task (e\<lparr>mt_suppressed := True\<rparr>) m)"

section \<open>Reopening a session\<close>

text \<open>\<open>loadFromDisk\<close>, given what the store lists: a live task wins over its record.\<close>

definition load_from_disk :: "persisted_task list \<Rightarrow> background_manager \<Rightarrow> background_manager" where
  "load_from_disk listed m =
     (if \<not> bm_persists m then m\<lparr>bm_ghosts := []\<rparr>
      else m\<lparr>bm_ghosts := fold (\<lambda>t. jset (ti_id (pt_info t)) t)
               (filter (\<lambda>t. ti_id (pt_info t) \<notin> set (jkeys (bm_tasks m))) listed) []\<rparr>)"

text \<open>One record of \<open>reconcile\<close>, under its key; the flag tells whether it was lost.\<close>

definition mark_lost :: "nat \<Rightarrow> persisted_task \<Rightarrow> persisted_task" where
  "mark_lost now g =
     g\<lparr>pt_info := (pt_info g)\<lparr>ti_status := TLost, ti_ended := Some (or_else (ti_ended (pt_info g)) now)\<rparr>, pt_revision := pt_revision g + 1\<rparr>"

definition owes_notice :: "persisted_task \<Rightarrow> bool" where
  "owes_notice g \<longleftrightarrow> pt_queued_at g \<noteq> None \<and> pt_notified_at g = None"

definition reconcile_one :: "nat \<Rightarrow> string \<Rightarrow> background_manager \<Rightarrow> task_info option \<times> background_manager" where
  "reconcile_one now i m =
     (case map_of (bm_ghosts m) i of
        None \<Rightarrow> (None, m)
      | Some g \<Rightarrow>
          if \<not> is_terminal (ti_status (pt_info g))
          then let g' = mark_lost now g;
                   m1 = enqueue_persist g' (m\<lparr>bm_ghosts := jset i g' (bm_ghosts m)\<rparr>)
               in (Some (pt_info g'), steer_notice (ti_id (pt_info g')) (lost_notice (pt_info g')) now (tell (TaskTerminated (pt_info g')) m1))
          else if owes_notice g \<and> i \<notin> set (bm_redelivered m)
          then (None, steer_notice (ti_id (pt_info g)) (unconfirmed_notice (bm_has_store m) (pt_info g)) now
                        (m\<lparr>bm_redelivered := i # bm_redelivered m\<rparr>))
          else (None, m))"

fun reconcile_all :: "nat \<Rightarrow> string list \<Rightarrow> background_manager \<Rightarrow> task_info list \<times> background_manager" where
  "reconcile_all now [] m = ([], m)"
| "reconcile_all now (i # rest) m =
     (case reconcile_one now i m of
        (found, m1) \<Rightarrow> (case reconcile_all now rest m1 of (lost, m2) \<Rightarrow> ((case found of Some x \<Rightarrow> x # lost | None \<Rightarrow> lost), m2)))"

definition bg_reconcile :: "nat \<Rightarrow> background_manager \<Rightarrow> task_info list \<times> background_manager" where
  "bg_reconcile now m = reconcile_all now (jkeys (bm_ghosts m)) m"

definition lost_subagent_warning :: "subagent_record \<Rightarrow> string" where
  "lost_subagent_warning r =
     ''Background subagent '' @ quote_mark @ sa_agent r @ quote_mark @ '' ('' @ sa_type r @ '') was running when the previous process exited; marked lost. Resume with Agent(resume='' @ quote_mark @ sa_agent r @ quote_mark @ '', ...).''"

definition reconcile_subagents :: "nat \<Rightarrow> background_manager \<Rightarrow> subagent_record list \<times> background_manager" where
  "reconcile_subagents now m =
     (case bg_reconcile now m of
        (lost, m1) \<Rightarrow>
          let records = List.map_filter task_to_subagent_record lost
          in (records, fold (\<lambda>r. tell (Warned (lost_subagent_warning r))) records m1))"

section \<open>Looking up\<close>

definition get_task :: "string \<Rightarrow> background_manager \<Rightarrow> task_info option" where
  "get_task i m =
     (case map_of (bm_tasks m) i of Some e \<Rightarrow> Some (to_info e) | None \<Rightarrow> map_option pt_info (map_of (bm_ghosts m) i))"

definition find_by_origin :: "string \<Rightarrow> string \<Rightarrow> background_manager \<Rightarrow> task_info option" where
  "find_by_origin parent call m =
     (case List.find (\<lambda>i. ti_parent i = Some parent \<and> ti_call i = Some call) (map to_info (jvalues (bm_tasks m))) of
        Some i \<Rightarrow> Some i
      | None \<Rightarrow> List.find (\<lambda>i. ti_parent i = Some parent \<and> ti_call i = Some call) (map pt_info (jvalues (bm_ghosts m))))"

text \<open>\<open>list\<close>; the limit, where there is one, is positive.\<close>

definition bg_list :: "bool \<Rightarrow> nat option \<Rightarrow> background_manager \<Rightarrow> task_info list" where
  "bg_list active_only limit m =
     (let live = map to_info (filter (\<lambda>e. \<not> (active_only \<and> is_terminal (mt_status e))) (jvalues (bm_tasks m)));
          ghosts = (if active_only then []
                    else map (\<lambda>(_, g). pt_info g) (filter (\<lambda>(i, _). i \<notin> set (jkeys (bm_tasks m))) (bm_ghosts m)));
          all = live @ ghosts
      in case limit of Some n \<Rightarrow> take n all | None \<Rightarrow> all)"

definition list_workflows :: "(nat \<Rightarrow> string) \<Rightarrow> background_manager \<Rightarrow> workflow_snapshot list" where
  "list_workflows iso_text m =
     rev (sort_key ws_started (rev (List.map_filter (task_to_workflow_snapshot iso_text) (bg_list False None m))))"

definition get_workflow :: "(nat \<Rightarrow> string) \<Rightarrow> string \<Rightarrow> background_manager \<Rightarrow> workflow_snapshot option" where
  "get_workflow iso_text run m = List.find (\<lambda>w. ws_run w = run) (list_workflows iso_text m)"

definition list_subagents :: "background_manager \<Rightarrow> subagent_record list" where
  "list_subagents m = List.map_filter task_to_subagent_record (bg_list False None m)"

section \<open>A command stuck on a prompt\<close>

definition stall_threshold_ms :: nat where
  "stall_threshold_ms = 45000"

definition stall_notice :: "nat \<Rightarrow> managed_task \<Rightarrow> string \<Rightarrow> string" where
  "stall_notice threshold e tail =
     join_lines
       [''[system: automated event, NOT a message from the user. The output below is the command's, not the user's.]'',
        ''Background task '' @ mt_id e @ '' ('' @ quote_mark @ mt_description e @ quote_mark @ '') appears to be waiting for interactive input: its output has not changed for '' @ js_of_nat ((threshold + 500) div 1000) @ ''s and the last line looks like a prompt.'',
        [], ''Last output:'', tail, [],
        ''Commands get no terminal and an empty stdin, so nothing can answer the prompt. Stop this task with BackgroundStop and re-run the command with its input supplied up front (e.g. `printf 'y'' @ [CHR 0x5C] @ ''n' | command`) or a non-interactive flag if one exists.'']"

end
