(* ===== verification/Background_Ledger.thy ===== *)
theory Background_Ledger
  imports Background_Manager
begin

text \<open>
  What the manager of background tasks guarantees: a task settles once and is told once; its notice, if it was
  queued and never read, is sent again by the next process; what reopening tells of the recorded tasks.
\<close>

section \<open>Reopening\<close>

text \<open>What reconciling tells of one record.\<close>

definition told_of :: "nat \<Rightarrow> string \<Rightarrow> background_manager \<Rightarrow> bg_effect list" where
  "told_of now i m =
     (case map_of (bm_ghosts m) i of
        None \<Rightarrow> []
      | Some g \<Rightarrow>
          if ti_status (pt_info g) = TRunning
          then let g' = mark_lost now g; n = lost_notice (pt_info g') in [TaskTerminated (pt_info g'), Noticed (fst n) (snd n)]
          else if owes_notice g \<and> i \<notin> set (bm_redelivered m)
          then let n = unconfirmed_notice (bm_has_store m) (pt_info g) in [Noticed (fst n) (snd n)]
          else [])"

text \<open>The state of a reopened session before it does anything: records under their ids, none of a live task.\<close>

definition reopened :: "background_manager \<Rightarrow> bool" where
  "reopened m \<longleftrightarrow> bm_steers m \<and> bm_persists m \<and> jmap_ok (bm_ghosts m) \<and>
     (\<forall>i g. map_of (bm_ghosts m) i = Some g \<longrightarrow> ti_id (pt_info g) = i) \<and>
     (\<forall>i \<in> set (jkeys (bm_ghosts m)). map_of (bm_tasks m) i = None)"

lemma steer_notice_ghost:
  assumes "bm_steers m" "bm_persists m" "map_of (bm_tasks m) i = None" "map_of (bm_ghosts m) i = Some g"
  shows "steer_notice i n now m =
    (let g' = g\<lparr>pt_queued_at := Some now, pt_revision := pt_revision g + 1\<rparr>
     in m\<lparr>bm_effects := bm_effects m @ [Noticed (fst n) (snd n)], bm_ghosts := jset i g' (bm_ghosts m), bm_writes := bm_writes m @ [g']\<rparr>)"
  using assms by (simp add: steer_notice_def stamp_notification_queued_def tell_def enqueue_persist_def Let_def)

text \<open>The record a step of reconciling leaves, and who was sent again.\<close>

definition reconciled :: "nat \<Rightarrow> string \<Rightarrow> background_manager \<Rightarrow> persisted_task \<Rightarrow> persisted_task" where
  "reconciled now i m g =
     (if ti_status (pt_info g) = TRunning
      then (mark_lost now g)\<lparr>pt_queued_at := Some now, pt_revision := pt_revision g + 2\<rparr>
      else if owes_notice g \<and> i \<notin> set (bm_redelivered m) then g\<lparr>pt_queued_at := Some now, pt_revision := pt_revision g + 1\<rparr>
      else g)"

lemma reconcile_one_effect:
  assumes "reopened m" "map_of (bm_ghosts m) i = Some g" "reconcile_one now i m = (found, m')"
  shows "bm_effects m' = bm_effects m @ told_of now i m" "bm_ghosts m' = jset i (reconciled now i m g) (bm_ghosts m)"
    "bm_redelivered m' = (if ti_status (pt_info g) \<noteq> TRunning \<and> owes_notice g \<and> i \<notin> set (bm_redelivered m)
       then i # bm_redelivered m else bm_redelivered m)"
    "bm_tasks m' = bm_tasks m" "bm_steers m' = bm_steers m" "bm_persists m' = bm_persists m" "bm_has_store m' = bm_has_store m"
proof -
  have g: "ti_id (pt_info g) = i" "map_of (bm_tasks m) i = None" "bm_steers m" "bm_persists m"
    using assms(1,2) unfolding reopened_def by (auto dest: map_of_SomeD intro: rev_image_eqI)
  have keep: "jset i g (bm_ghosts m) = bm_ghosts m" using assms(2) by (rule update_triv)
  have lost: "ti_id (pt_info (mark_lost now g)) = i" using g(1) by (simp add: mark_lost_def)
  consider (running) "ti_status (pt_info g) = TRunning"
    | (owed) "ti_status (pt_info g) \<noteq> TRunning" "owes_notice g \<and> i \<notin> set (bm_redelivered m)"
    | (idle) "ti_status (pt_info g) \<noteq> TRunning" "\<not> (owes_notice g \<and> i \<notin> set (bm_redelivered m))" by blast
  then have "bm_effects m' = bm_effects m @ told_of now i m \<and> bm_ghosts m' = jset i (reconciled now i m g) (bm_ghosts m) \<and>
    bm_redelivered m' = (if ti_status (pt_info g) \<noteq> TRunning \<and> owes_notice g \<and> i \<notin> set (bm_redelivered m)
       then i # bm_redelivered m else bm_redelivered m) \<and>
    bm_tasks m' = bm_tasks m \<and> bm_steers m' = bm_steers m \<and> bm_persists m' = bm_persists m \<and> bm_has_store m' = bm_has_store m"
  proof cases
    case running
    let ?m1 = "tell (TaskTerminated (pt_info (mark_lost now g))) (enqueue_persist (mark_lost now g) (m\<lparr>bm_ghosts := jset i (mark_lost now g) (bm_ghosts m)\<rparr>))"
    have m1: "bm_steers ?m1" "bm_persists ?m1" "map_of (bm_tasks ?m1) i = None" "map_of (bm_ghosts ?m1) i = Some (mark_lost now g)"
      using g by (simp_all add: tell_def enqueue_persist_def)
    have "m' = steer_notice i (lost_notice (pt_info (mark_lost now g))) now ?m1"
      using assms(2,3) running lost by (simp add: reconcile_one_def Let_def)
    then show ?thesis
      using running g(3,4) assms(2) unfolding steer_notice_ghost [OF m1]
      by (simp add: told_of_def reconciled_def tell_def enqueue_persist_def Let_def mark_lost_def)
  next
    case owed
    let ?m1 = "m\<lparr>bm_redelivered := i # bm_redelivered m\<rparr>"
    have m1: "bm_steers ?m1" "bm_persists ?m1" "map_of (bm_tasks ?m1) i = None" "map_of (bm_ghosts ?m1) i = Some g"
      using g assms(2) by simp_all
    have "m' = steer_notice i (unconfirmed_notice (bm_has_store m) (pt_info g)) now ?m1"
      using assms(2,3) owed g(1) by (simp add: reconcile_one_def)
    then show ?thesis
      using owed assms(2) unfolding steer_notice_ghost [OF m1] by (simp add: told_of_def reconciled_def Let_def)
  next
    case idle
    then have "m' = m" using assms(2,3) by (auto simp: reconcile_one_def)
    then show ?thesis using idle assms(2) keep by (auto simp: told_of_def reconciled_def)
  qed
  then show "bm_effects m' = bm_effects m @ told_of now i m" "bm_ghosts m' = jset i (reconciled now i m g) (bm_ghosts m)"
    "bm_redelivered m' = (if ti_status (pt_info g) \<noteq> TRunning \<and> owes_notice g \<and> i \<notin> set (bm_redelivered m)
       then i # bm_redelivered m else bm_redelivered m)"
    "bm_tasks m' = bm_tasks m" "bm_steers m' = bm_steers m" "bm_persists m' = bm_persists m" "bm_has_store m' = bm_has_store m"
    by blast+
qed

lemma told_of_other:
  assumes "map_of (bm_ghosts m') i = map_of (bm_ghosts m) i" "i \<in> set (bm_redelivered m') \<longleftrightarrow> i \<in> set (bm_redelivered m)"
    "bm_has_store m' = bm_has_store m"
  shows "told_of now i m' = told_of now i m"
  using assms by (simp add: told_of_def split: option.split)

lemma reconcile_one_reopened:
  assumes "reopened m" "map_of (bm_ghosts m) i = Some g" "reconcile_one now i m = (found, m')"
  shows "reopened m'"
  using assms(1,2) reconcile_one_effect [OF assms]
  by (auto simp: reopened_def reconciled_def mark_lost_def split: if_splits intro: rev_image_eqI dest: map_of_SomeD)

text \<open>What a pass finds lost.\<close>

definition found_lost :: "nat \<Rightarrow> string \<Rightarrow> background_manager \<Rightarrow> task_info option" where
  "found_lost now i m =
     (case map_of (bm_ghosts m) i of
        Some g \<Rightarrow> if ti_status (pt_info g) = TRunning then Some (pt_info (mark_lost now g)) else None
      | None \<Rightarrow> None)"

lemma found_lost_one: "reconcile_one now i m = (found, m') \<Longrightarrow> found = found_lost now i m"
  by (auto simp: reconcile_one_def found_lost_def Let_def split: option.splits if_splits)

lemma reconcile_all_effect:
  assumes "reopened m" "distinct ks" "set ks \<subseteq> set (jkeys (bm_ghosts m))" "reconcile_all now ks m = (lost, m')"
  shows "bm_effects m' = bm_effects m @ concat (map (\<lambda>i. told_of now i m) ks) \<and> reopened m' \<and>
    lost = List.map_filter (\<lambda>i. found_lost now i m) ks \<and> jkeys (bm_ghosts m') = jkeys (bm_ghosts m) \<and>
    bm_has_store m' = bm_has_store m \<and>
    (\<forall>i g. map_of (bm_ghosts m) i = Some g \<longrightarrow> map_of (bm_ghosts m') i = Some (if i \<in> set ks then reconciled now i m g else g)) \<and>
    (\<forall>i g. map_of (bm_ghosts m) i = Some g \<longrightarrow> i \<in> set (bm_redelivered m') \<longleftrightarrow>
      i \<in> set (bm_redelivered m) \<or> (i \<in> set ks \<and> ti_status (pt_info g) \<noteq> TRunning \<and> owes_notice g))"
  using assms
proof (induction ks arbitrary: m lost)
  case Nil then show ?case by (simp add: map_filter_def)
next
  case (Cons i ks)
  obtain g where g: "map_of (bm_ghosts m) i = Some g" using Cons.prems(3) by (cases "map_of (bm_ghosts m) i") (auto simp: map_of_eq_None_iff)
  obtain found m1 where one: "reconcile_one now i m = (found, m1)" by fastforce
  obtain lost1 where rest: "reconcile_all now ks m1 = (lost1, m')" using Cons.prems(4) one by (auto split: prod.splits)
  have lost: "lost = (case found of Some x \<Rightarrow> x # lost1 | None \<Rightarrow> lost1)" using Cons.prems(4) one rest by simp
  note e = reconcile_one_effect [OF Cons.prems(1) g one]
  have re: "reopened m1" by (rule reconcile_one_reopened [OF Cons.prems(1) g one])
  have keys: "jkeys (bm_ghosts m1) = jkeys (bm_ghosts m)" using g by (auto simp: e(2) jkeys_jset dest: map_of_SomeD intro: rev_image_eqI)
  have ih: "bm_effects m' = bm_effects m1 @ concat (map (\<lambda>i. told_of now i m1) ks) \<and> reopened m' \<and>
    lost1 = List.map_filter (\<lambda>i. found_lost now i m1) ks \<and> jkeys (bm_ghosts m') = jkeys (bm_ghosts m1) \<and>
    bm_has_store m' = bm_has_store m1 \<and>
    (\<forall>i g. map_of (bm_ghosts m1) i = Some g \<longrightarrow> map_of (bm_ghosts m') i = Some (if i \<in> set ks then reconciled now i m1 g else g)) \<and>
    (\<forall>i g. map_of (bm_ghosts m1) i = Some g \<longrightarrow> i \<in> set (bm_redelivered m') \<longleftrightarrow>
      i \<in> set (bm_redelivered m1) \<or> (i \<in> set ks \<and> ti_status (pt_info g) \<noteq> TRunning \<and> owes_notice g))"
    using Cons.prems(2,3) keys by (intro Cons.IH [OF re _ _ rest]) auto
  have other: "map_of (bm_ghosts m1) j = map_of (bm_ghosts m) j" "j \<in> set (bm_redelivered m1) \<longleftrightarrow> j \<in> set (bm_redelivered m)"
    if ne: "j \<noteq> i" for j using ne unfolding e by simp_all
  have same: "told_of now j m1 = told_of now j m" "found_lost now j m1 = found_lost now j m" "reconciled now j m1 = reconciled now j m"
    if "j \<in> set ks" for j
  proof -
    have ne: "j \<noteq> i" using that Cons.prems(2) by auto
    show "told_of now j m1 = told_of now j m" by (rule told_of_other [OF other [OF ne] e(7)])
    show "found_lost now j m1 = found_lost now j m" by (simp add: found_lost_def other [OF ne])
    show "reconciled now j m1 = reconciled now j m" by (rule ext) (simp add: reconciled_def other [OF ne])
  qed
  have told: "map (\<lambda>j. told_of now j m1) ks = map (\<lambda>j. told_of now j m) ks"
    and found: "List.map_filter (\<lambda>j. found_lost now j m1) ks = List.map_filter (\<lambda>j. found_lost now j m) ks"
    using same by (auto simp: map_filter_def cong: map_cong filter_cong)
  have "lost = List.map_filter (\<lambda>j. found_lost now j m) (i # ks)"
    unfolding lost found_lost_one [OF one] using conjunct1 [OF conjunct2 [OF conjunct2 [OF ih]]]
    by (simp add: found map_filter_simps split: option.split)
  moreover have "\<forall>j h. map_of (bm_ghosts m) j = Some h \<longrightarrow>
      map_of (bm_ghosts m') j = Some (if j \<in> set (i # ks) then reconciled now j m h else h)"
  proof (intro allI impI)
    fix j h assume h: "map_of (bm_ghosts m) j = Some h"
    show "map_of (bm_ghosts m') j = Some (if j \<in> set (i # ks) then reconciled now j m h else h)"
    proof (cases "j = i")
      case True
      then have "map_of (bm_ghosts m1) j = Some (reconciled now i m g)" by (simp add: e)
      then show ?thesis using ih Cons.prems(2) True g h by simp
    next
      case False
      then show ?thesis using ih h same(3) other by simp
    qed
  qed
  moreover have "\<forall>j h. map_of (bm_ghosts m) j = Some h \<longrightarrow> j \<in> set (bm_redelivered m') \<longleftrightarrow>
      j \<in> set (bm_redelivered m) \<or> (j \<in> set (i # ks) \<and> ti_status (pt_info h) \<noteq> TRunning \<and> owes_notice h)"
  proof (intro allI impI)
    fix j h assume h: "map_of (bm_ghosts m) j = Some h"
    show "j \<in> set (bm_redelivered m') \<longleftrightarrow>
      j \<in> set (bm_redelivered m) \<or> (j \<in> set (i # ks) \<and> ti_status (pt_info h) \<noteq> TRunning \<and> owes_notice h)"
    proof (cases "j = i")
      case True
      then have "map_of (bm_ghosts m1) j = Some (reconciled now i m g)" by (simp add: e)
      then show ?thesis using ih Cons.prems(2) True g h by (auto simp: e)
    next
      case False
      then show ?thesis using ih h other by simp
    qed
  qed
  ultimately show ?case using ih e(1,7) keys told by simp
qed

text \<open>What a second pass tells: a task the first pass found lost, once more.\<close>

definition told_again :: "string \<Rightarrow> background_manager \<Rightarrow> nat \<Rightarrow> bg_effect list" where
  "told_again i m now =
     (case map_of (bm_ghosts m) i of
        Some g \<Rightarrow>
          if ti_status (pt_info g) = TRunning \<and> pt_notified_at g = None \<and> i \<notin> set (bm_redelivered m)
          then let n = unconfirmed_notice (bm_has_store m) (pt_info (mark_lost now g)) in [Noticed (fst n) (snd n)] else []
      | None \<Rightarrow> [])"

lemma reconcile_effects:
  assumes "reopened m"
  shows "bm_effects (snd (bg_reconcile now m)) = bm_effects m @ concat (map (\<lambda>i. told_of now i m) (jkeys (bm_ghosts m)))"
    "fst (bg_reconcile now m) = List.map_filter (\<lambda>i. found_lost now i m) (jkeys (bm_ghosts m))"
proof -
  have ok: "jmap_ok (bm_ghosts m)" using assms by (simp add: reopened_def)
  obtain lost m' where r: "reconcile_all now (jkeys (bm_ghosts m)) m = (lost, m')" by fastforce
  from reconcile_all_effect [OF assms ok subset_refl r]
  show "bm_effects (snd (bg_reconcile now m)) = bm_effects m @ concat (map (\<lambda>i. told_of now i m) (jkeys (bm_ghosts m)))"
    "fst (bg_reconcile now m) = List.map_filter (\<lambda>i. found_lost now i m) (jkeys (bm_ghosts m))"
    by (simp_all add: bg_reconcile_def r)
qed

lemma reconcile_again:
  assumes "reopened m" "m1 = snd (bg_reconcile now m)"
  shows "bm_effects (snd (bg_reconcile later m1)) = bm_effects m1 @ concat (map (\<lambda>i. told_again i m now) (jkeys (bm_ghosts m)))"
proof -
  have ok: "jmap_ok (bm_ghosts m)" using assms(1) by (simp add: reopened_def)
  obtain lost where r: "reconcile_all now (jkeys (bm_ghosts m)) m = (lost, m1)"
    using assms(2) by (simp add: bg_reconcile_def prod.collapse prod_eq_iff)
  note e = reconcile_all_effect [OF assms(1) ok subset_refl r]
  have keys: "jkeys (bm_ghosts m1) = jkeys (bm_ghosts m)" and re: "reopened m1" and store: "bm_has_store m1 = bm_has_store m" using e by simp_all
  have again: "told_of later i m1 = told_again i m now" if i: "i \<in> set (jkeys (bm_ghosts m))" for i
  proof -
    obtain g where g: "map_of (bm_ghosts m) i = Some g" using i by (cases "map_of (bm_ghosts m) i") (auto simp: map_of_eq_None_iff)
    have g1: "map_of (bm_ghosts m1) i = Some (reconciled now i m g)" using e g i by auto
    have red: "i \<in> set (bm_redelivered m1) \<longleftrightarrow> i \<in> set (bm_redelivered m) \<or> (ti_status (pt_info g) \<noteq> TRunning \<and> owes_notice g)"
      using e g i by auto
    show ?thesis
      by (auto simp: told_of_def told_again_def g g1 red store reconciled_def owes_notice_def mark_lost_def Let_def)
  qed
  have "bm_effects (snd (bg_reconcile later m1)) = bm_effects m1 @ concat (map (\<lambda>i. told_of later i m1) (jkeys (bm_ghosts m)))"
    using reconcile_effects(1) [OF re] by (simp only: keys)
  also have "map (\<lambda>i. told_of later i m1) (jkeys (bm_ghosts m)) = map (\<lambda>i. told_again i m now) (jkeys (bm_ghosts m))"
    by (rule map_cong [OF refl]) (rule again)
  finally show ?thesis .
qed

text \<open>
  Reopening a session tells, record by record in the order of the store, exactly what is owed: a task that
  was running is lost, with the event of its end and a notice; a settled task whose notice was queued and never
  read gets its notice again; a record with neither stamp or both is left alone. What is returned are the lost
  tasks, as they are told. A second pass of the same process tells once more exactly the tasks the first one
  found lost, and nothing else.
\<close>

theorem reconcile_tells_what_is_owed:
  assumes "reopened m"
  shows "bm_effects (snd (bg_reconcile now m)) = bm_effects m @ concat (map (\<lambda>i. told_of now i m) (jkeys (bm_ghosts m))) \<and>
    fst (bg_reconcile now m) = List.map_filter (\<lambda>i. found_lost now i m) (jkeys (bm_ghosts m)) \<and>
    bm_effects (snd (bg_reconcile later (snd (bg_reconcile now m)))) =
      bm_effects (snd (bg_reconcile now m)) @ concat (map (\<lambda>i. told_again i m now) (jkeys (bm_ghosts m)))"
  using reconcile_effects [OF assms] reconcile_again [OF assms refl] by simp

definition sample_record :: "string \<Rightarrow> task_status \<Rightarrow> nat option \<Rightarrow> persisted_task" where
  "sample_record i st queued =
     \<lparr>pt_info = \<lparr>ti_id = i, ti_parent = None, ti_call = None, ti_description = ''build'', ti_status = st, ti_started = 5,
        ti_ended = (if st = TRunning then None else Some 9), ti_reason = None, ti_suppressed = False, ti_timeout = None,
        ti_output = Some (FileRef ''/log''), ti_detail = ProcessDetail ''make'' None\<rparr>,
      pt_revision = 1, pt_queued_at = queued, pt_notified_at = None\<rparr>"

definition sample_reopened :: background_manager where
  "sample_reopened =
     load_from_disk [sample_record ''bash-1'' TRunning None, sample_record ''bash-2'' TCompleted (Some 9), sample_record ''bash-3'' TKilled None]
       (bg_attach True True True (new_manager None))"

lemma sample_reopened_ok: "reopened sample_reopened"
  by (auto simp: reopened_def sample_reopened_def load_from_disk_def bg_attach_def new_manager_def sample_record_def split: if_splits)

lemma reconcile_tells_what_is_owed_witness:
  "length (bm_effects (snd (bg_reconcile 20 sample_reopened))) = 3 \<and>
   length (bm_effects (snd (bg_reconcile 30 (snd (bg_reconcile 20 sample_reopened))))) = 4"
proof -
  have keys: "jkeys (bm_ghosts sample_reopened) = [''bash-1'', ''bash-2'', ''bash-3'']" "bm_effects sample_reopened = []"
    by (simp_all add: sample_reopened_def load_from_disk_def bg_attach_def new_manager_def sample_record_def)
  have told: "length (told_of 20 ''bash-1'' sample_reopened) = 2" "length (told_of 20 ''bash-2'' sample_reopened) = 1"
    "told_of 20 ''bash-3'' sample_reopened = []"
    "length (told_again ''bash-1'' sample_reopened 20) = 1" "told_again ''bash-2'' sample_reopened 20 = []"
    "told_again ''bash-3'' sample_reopened 20 = []"
    by (simp_all add: told_of_def told_again_def sample_reopened_def load_from_disk_def bg_attach_def new_manager_def sample_record_def
          owes_notice_def Let_def)
  show ?thesis
    using reconcile_tells_what_is_owed [OF sample_reopened_ok, of 20 30] by (simp add: keys told)
qed

text \<open>
  A lost task is told twice in one process: opening the session reconciles, and the next prompt reconciles
  again before it drains the bus.
\<close>

lemma lost_task_told_twice:
  assumes "reopened m" "bm_ghosts m = [(i, g)]" "ti_status (pt_info g) = TRunning" "pt_notified_at g = None" "bm_redelivered m = []" "bm_effects m = []"
  shows "\<exists>info lost again. bm_effects (snd (bg_reconcile later (snd (bg_reconcile now m)))) =
    [TaskTerminated info, Noticed (fst lost) (snd lost), Noticed (fst again) (snd again)] \<and>
    lost = lost_notice info \<and> again = unconfirmed_notice (bm_has_store m) info"
  using reconcile_effects(1) [OF assms(1), of now] reconcile_again [OF assms(1) refl, of later now] assms(2-)
  by (simp add: told_of_def told_again_def Let_def)

end
