(* ===== verification/Background_Life.thy ===== *)
theory Background_Life
  imports Background_Ledger
begin

text \<open>
  The life of a process with background tasks: any sequence of the operations of the manager, with the writes of
  records reaching the store one by one in between. Every task settles once and is told once, with the status it
  settled with; what was told and not read is told again by the next process.
\<close>

section \<open>Sequences of operations\<close>

datatype bg_op =
    OpRegister string new_task nat
  | OpBegin string
  | OpAdopt string new_task bool nat
  | OpReport string task_detail
  | OpSettle string task_settlement nat
  | OpSettled "string \<times> nat" nat
  | OpStop string "string option"
  | OpStopExpired string "string option" nat
  | OpStopAll "string option"
  | OpWait string nat bool
  | OpWaitOver string nat
  | OpSuppress string
  | OpConsumed string nat
  | OpWrite bool

text \<open>What the work of a task tells about itself without settling: an exit code, an answer, an id of a run.\<close>

definition task_reports :: "string \<Rightarrow> task_detail \<Rightarrow> background_manager \<Rightarrow> background_manager" where
  "task_reports i d m =
     (case map_of (bm_tasks m) i of None \<Rightarrow> m
      | Some e \<Rightarrow> if detail_kind d = detail_kind (mt_detail e) then put_task (e\<lparr>mt_detail := d\<rparr>) m else m)"

text \<open>The next write of the queue; a failed one is swallowed.\<close>

definition next_write :: "bool \<Rightarrow> background_manager \<times> task_kv \<Rightarrow> background_manager \<times> task_kv" where
  "next_write ok w =
     (case w of (m, kv) \<Rightarrow>
        (case bm_writes m of [] \<Rightarrow> w | t # ts \<Rightarrow> (m\<lparr>bm_writes := ts\<rparr>, if ok then write_task t kv else kv)))"

text \<open>Ids are random and so new; the work of a task settles it with a final status.\<close>

fun bg_allowed :: "bg_op \<Rightarrow> background_manager \<Rightarrow> bool" where
  "bg_allowed (OpRegister i _ _) m \<longleftrightarrow> map_of (bm_tasks m) i = None"
| "bg_allowed (OpAdopt i _ _ _) m \<longleftrightarrow> map_of (bm_tasks m) i = None"
| "bg_allowed (OpSettle _ se _) m \<longleftrightarrow> is_terminal (se_status se)"
| "bg_allowed _ m \<longleftrightarrow> True"

fun new_ids :: "bg_op \<Rightarrow> string list" where
  "new_ids (OpRegister i _ _) = [i]"
| "new_ids (OpAdopt i _ _ _) = [i]"
| "new_ids _ = []"

fun bg_apply :: "bg_op \<Rightarrow> background_manager \<Rightarrow> background_manager" where
  "bg_apply (OpRegister i t now) m = snd (register_task i t now m)"
| "bg_apply (OpBegin i) m = snd (begin_work i m)"
| "bg_apply (OpAdopt i t aborted now) m = snd (adopt_running i t aborted now m)"
| "bg_apply (OpReport i d) m = task_reports i d m"
| "bg_apply (OpSettle i se now) m = snd (settle_begin i se now m)"
| "bg_apply (OpSettled p now) m = settle_end p now m"
| "bg_apply (OpStop i reason) m = bg_stop i reason m"
| "bg_apply (OpStopExpired i reason now) m = snd (stop_expired i reason now m)"
| "bg_apply (OpStopAll reason) m = stop_all reason m"
| "bg_apply (OpWait i w aborted) m = snd (bg_wait i w aborted m)"
| "bg_apply (OpWaitOver i w) m = wait_given_up i w m"
| "bg_apply (OpSuppress i) m = suppress_terminal_notification i m"
| "bg_apply (OpConsumed i now) m = stamp_notified i now m"
| "bg_apply (OpWrite _) m = m"

definition bg_step :: "bg_op \<Rightarrow> background_manager \<times> task_kv \<Rightarrow> background_manager \<times> task_kv" where
  "bg_step p w = (case p of OpWrite ok \<Rightarrow> next_write ok w | _ \<Rightarrow> (bg_apply p (fst w), snd w))"

fun bg_runs :: "bg_op list \<Rightarrow> background_manager \<times> task_kv \<Rightarrow> (background_manager \<times> task_kv) option" where
  "bg_runs [] w = Some w"
| "bg_runs (p # ps) w = (if bg_allowed p (fst w) then bg_runs ps (bg_step p w) else None)"

section \<open>What was told of a task\<close>

definition endings :: "string \<Rightarrow> bg_effect list \<Rightarrow> task_status list" where
  "endings i xs = List.map_filter (\<lambda>x. case x of TaskTerminated f \<Rightarrow> if ti_id f = i then Some (ti_status f) else None | _ \<Rightarrow> None) xs"

fun notice_of :: "bg_effect \<Rightarrow> string option" where
  "notice_of (Noticed _ (FromBackground i _ _ _ _ _)) = Some i"
| "notice_of _ = None"

definition notices :: "string \<Rightarrow> bg_effect list \<Rightarrow> bg_effect list" where
  "notices i xs = filter (\<lambda>x. notice_of x = Some i) xs"

named_theorems bgs "what the shared steps of the manager change"

lemma endings_append [bgs]: "endings i (xs @ ys) = endings i xs @ endings i ys" "endings i [] = []"
  by (simp_all add: endings_def map_filter_def)

lemma endings_Cons [bgs]:
  "endings i (TaskTerminated f # xs) = (if ti_id f = i then ti_status f # endings i xs else endings i xs)"
  "endings i (TaskStarted f # xs) = endings i xs" "endings i (Noticed a b # xs) = endings i xs"
  "endings i (Woke n # xs) = endings i xs" "endings i (Warned a # xs) = endings i xs"
  by (simp_all add: endings_def map_filter_def)

lemma notices_append [bgs]: "notices i (xs @ ys) = notices i xs @ notices i ys" "notices i [] = []"
  by (simp_all add: notices_def)

lemma notices_Cons [bgs]:
  "notices i (TaskTerminated f # xs) = notices i xs" "notices i (TaskStarted f # xs) = notices i xs"
  "notices i (Woke n # xs) = notices i xs" "notices i (Warned a # xs) = notices i xs"
  "notices i (Noticed a b # xs) = (if notice_of (Noticed a b) = Some i then Noticed a b # notices i xs else notices i xs)"
  by (simp_all add: notices_def)

lemma notice_of_terminal [bgs]: "notice_of (Noticed a (snd (terminal_notice f))) = Some (ti_id f)"
  by (simp add: terminal_notice_def Let_def settle_origin_def split: prod.split)

section \<open>What the shared steps change\<close>

lemma to_info_simps [bgs]: "ti_id (to_info e) = mt_id e" "ti_status (to_info e) = mt_status e"
  by (simp_all add: to_info_def)

lemma put_task_simps [bgs]:
  "bm_tasks (put_task e m) = jset (mt_id e) e (bm_tasks m)" "bm_effects (put_task e m) = bm_effects m"
  "bm_settling (put_task e m) = bm_settling m" "bm_steers (put_task e m) = bm_steers m" "bm_persists (put_task e m) = bm_persists m"
  "bm_ghosts (put_task e m) = bm_ghosts m" "bm_writes (put_task e m) = bm_writes m"
  by (simp_all add: put_task_def)

lemma tell_simps [bgs]:
  "bm_tasks (tell x m) = bm_tasks m" "bm_effects (tell x m) = bm_effects m @ [x]"
  "bm_settling (tell x m) = bm_settling m" "bm_steers (tell x m) = bm_steers m" "bm_persists (tell x m) = bm_persists m"
  "bm_ghosts (tell x m) = bm_ghosts m" "bm_writes (tell x m) = bm_writes m"
  by (simp_all add: tell_def)

lemma enqueue_simps [bgs]:
  "bm_tasks (enqueue_persist t m) = bm_tasks m" "bm_effects (enqueue_persist t m) = bm_effects m"
  "bm_settling (enqueue_persist t m) = bm_settling m" "bm_steers (enqueue_persist t m) = bm_steers m" "bm_persists (enqueue_persist t m) = bm_persists m"
  "bm_ghosts (enqueue_persist t m) = bm_ghosts m" "bm_writes (enqueue_persist t m) = (if bm_persists m then bm_writes m @ [t] else bm_writes m)"
  by (simp_all add: enqueue_persist_def)

text \<open>The entry \<open>persist_live\<close> leaves.\<close>

definition bumped :: "background_manager \<Rightarrow> managed_task \<Rightarrow> managed_task" where
  "bumped m e = (if bm_persists m then e\<lparr>mt_revision := mt_revision e + 1\<rparr> else e)"

lemma bumped_simps [bgs]:
  "mt_id (bumped m e) = mt_id e" "mt_status (bumped m e) = mt_status e" "mt_fired (bumped m e) = mt_fired e" "mt_waiters (bumped m e) = mt_waiters e"
  "mt_suppressed (bumped m e) = mt_suppressed e" "mt_queued_at (bumped m e) = mt_queued_at e" "mt_notified_at (bumped m e) = mt_notified_at e"
  "mt_output (bumped m e) = mt_output e" "mt_detail (bumped m e) = mt_detail e"
  by (simp_all add: bumped_def)

lemma persist_live_simps [bgs]:
  "bm_tasks (persist_live e m) = jset (mt_id e) (bumped m e) (bm_tasks m)" "bm_effects (persist_live e m) = bm_effects m"
  "bm_settling (persist_live e m) = bm_settling m" "bm_steers (persist_live e m) = bm_steers m" "bm_persists (persist_live e m) = bm_persists m"
  "bm_ghosts (persist_live e m) = bm_ghosts m"
  "bm_writes (persist_live e m) = (if bm_persists m then bm_writes m @ [to_persisted (bumped m e)] else bm_writes m)"
  by (simp_all add: persist_live_def Let_def bgs bumped_def)

text \<open>The entry of a stamped task, and of one whose end was just told.\<close>

definition stamped :: "background_manager \<Rightarrow> nat \<Rightarrow> managed_task \<Rightarrow> managed_task" where
  "stamped m now e = (if bm_persists m then bumped m (e\<lparr>mt_queued_at := Some now\<rparr>) else e)"

definition told_entry :: "background_manager \<Rightarrow> nat \<Rightarrow> managed_task \<Rightarrow> managed_task" where
  "told_entry m now e =
     (let e' = e\<lparr>mt_fired := True\<rparr> in if mt_suppressed e \<or> \<not> bm_steers m then e' else stamped m now e')"

lemma told_entry_simps [bgs]:
  "mt_id (told_entry m now e) = mt_id e" "mt_status (told_entry m now e) = mt_status e" "mt_fired (told_entry m now e)"
  "mt_waiters (told_entry m now e) = mt_waiters e" "mt_suppressed (told_entry m now e) = mt_suppressed e"
  "mt_notified_at (told_entry m now e) = mt_notified_at e"
  "mt_queued_at (told_entry m now e) = (if mt_suppressed e \<or> \<not> bm_steers m \<or> \<not> bm_persists m then mt_queued_at e else Some now)"
  "mt_output (told_entry m now e) = mt_output e" "mt_detail (told_entry m now e) = mt_detail e"
  by (simp_all add: told_entry_def stamped_def Let_def bgs)

lemma stamp_simps [bgs]:
  "bm_effects (stamp_notification_queued i now m) = bm_effects m" "bm_settling (stamp_notification_queued i now m) = bm_settling m"
  "bm_steers (stamp_notification_queued i now m) = bm_steers m" "bm_persists (stamp_notification_queued i now m) = bm_persists m"
  by (simp_all add: stamp_notification_queued_def Let_def bgs split: option.split)

lemma stamp_live:
  "map_of (bm_tasks m) i = Some e \<Longrightarrow> stamp_notification_queued i now m = (if bm_persists m then persist_live (e\<lparr>mt_queued_at := Some now\<rparr>) m else m)"
  by (simp add: stamp_notification_queued_def)

lemma fire_told: "mt_fired e \<Longrightarrow> fire_terminal_effects e now m = m"
  by (simp add: fire_terminal_effects_def)

lemma fire_flags [bgs]:
  "bm_settling (fire_terminal_effects e now m) = bm_settling m" "bm_steers (fire_terminal_effects e now m) = bm_steers m"
  "bm_persists (fire_terminal_effects e now m) = bm_persists m"
  by (simp_all add: fire_terminal_effects_def Let_def steer_terminal_def steer_notice_def bgs)

text \<open>The first time the end of a task is told.\<close>

lemma fire_first:
  assumes "\<not> mt_fired e"
  shows "map_of (bm_tasks (fire_terminal_effects e now m)) j = (if j = mt_id e then Some (told_entry m now e) else map_of (bm_tasks m) j)"
    "bm_effects (fire_terminal_effects e now m) = bm_effects m @ TaskTerminated (to_info (e\<lparr>mt_fired := True\<rparr>)) #
       (if mt_suppressed e \<or> \<not> bm_steers m then []
        else [Noticed (fst (terminal_notice (to_info (e\<lparr>mt_fired := True\<rparr>)))) (snd (terminal_notice (to_info (e\<lparr>mt_fired := True\<rparr>))))])"
    "jmap_ok (bm_tasks m) \<Longrightarrow> jmap_ok (bm_tasks (fire_terminal_effects e now m))"
    "bm_ghosts (fire_terminal_effects e now m) = bm_ghosts m"
    "bm_writes (fire_terminal_effects e now m) = bm_writes m @
       (if mt_suppressed e \<or> \<not> bm_steers m \<or> \<not> bm_persists m then [] else [to_persisted (told_entry m now e)])"
  using assms
  by (simp_all add: fire_terminal_effects_def Let_def steer_terminal_def is_suppressed_def steer_notice_def stamp_live bgs
        told_entry_def stamped_def bumped_def)

lemma woke_effects:
  "fold (\<lambda>w. tell (Woke w)) ws m = m\<lparr>bm_effects := bm_effects m @ map Woke ws\<rparr>"
  by (induction ws arbitrary: m) (simp_all add: tell_def)

lemma endings_woke [bgs]: "endings i (map Woke ws) = []" "notices i (map Woke ws) = []"
  by (induction ws) (simp_all add: endings_def notices_def map_filter_def)

lemma resolve_view:
  "bm_tasks (resolve_waiters i m) = (case map_of (bm_tasks m) i of None \<Rightarrow> bm_tasks m | Some e \<Rightarrow> jset (mt_id e) (e\<lparr>mt_waiters := []\<rparr>) (bm_tasks m))"
  "bm_effects (resolve_waiters i m) = bm_effects m @ (case map_of (bm_tasks m) i of None \<Rightarrow> [] | Some e \<Rightarrow> map Woke (mt_waiters e))"
  "bm_settling (resolve_waiters i m) = bm_settling m" "bm_steers (resolve_waiters i m) = bm_steers m" "bm_persists (resolve_waiters i m) = bm_persists m"
  "bm_ghosts (resolve_waiters i m) = bm_ghosts m" "bm_writes (resolve_waiters i m) = bm_writes m"
  by (simp_all add: resolve_waiters_def woke_effects bgs split: option.split)

text \<open>None of these look at the list of settlements that wait.\<close>

named_theorems apart "the settlements that wait are apart"

lemma put_apart [apart]: "put_task e (m\<lparr>bm_settling := x\<rparr>) = (put_task e m)\<lparr>bm_settling := x\<rparr>"
  by (simp add: put_task_def)

lemma tell_apart [apart]: "tell f (m\<lparr>bm_settling := x\<rparr>) = (tell f m)\<lparr>bm_settling := x\<rparr>"
  by (simp add: tell_def)

lemma enqueue_apart [apart]: "enqueue_persist t (m\<lparr>bm_settling := x\<rparr>) = (enqueue_persist t m)\<lparr>bm_settling := x\<rparr>"
  by (simp add: enqueue_persist_def)

lemma persist_live_apart [apart]: "persist_live e (m\<lparr>bm_settling := x\<rparr>) = (persist_live e m)\<lparr>bm_settling := x\<rparr>"
  by (simp add: persist_live_def apart Let_def)

lemma ghosts_apart [apart]: "m\<lparr>bm_settling := x, bm_ghosts := y\<rparr> = m\<lparr>bm_ghosts := y, bm_settling := x\<rparr>"
  by simp

lemma stamp_apart [apart]: "stamp_notification_queued i now (m\<lparr>bm_settling := x\<rparr>) = (stamp_notification_queued i now m)\<lparr>bm_settling := x\<rparr>"
  by (simp add: stamp_notification_queued_def apart Let_def split: option.split)

lemma steer_terminal_apart [apart]: "steer_terminal f now (m\<lparr>bm_settling := x\<rparr>) = (steer_terminal f now m)\<lparr>bm_settling := x\<rparr>"
  by (simp add: steer_terminal_def is_suppressed_def steer_notice_def apart)

lemma fire_apart [apart]: "fire_terminal_effects e now (m\<lparr>bm_settling := x\<rparr>) = (fire_terminal_effects e now m)\<lparr>bm_settling := x\<rparr>"
  by (simp add: fire_terminal_effects_def apart Let_def)

lemma resolve_apart [apart]: "resolve_waiters i (m\<lparr>bm_settling := x\<rparr>) = (resolve_waiters i m)\<lparr>bm_settling := x\<rparr>"
  by (simp add: resolve_waiters_def apart woke_effects bgs split: option.split)

section \<open>Every task settles and is told once\<close>

definition pending :: "string \<Rightarrow> background_manager \<Rightarrow> bool" where
  "pending i m \<longleftrightarrow> i \<in> fst ` set (bm_settling m)"

text \<open>What holds of an entry, given what was told under its id and whether it waits for its last write.\<close>

definition entry_ok :: "bool \<Rightarrow> task_status list \<Rightarrow> bg_effect list \<Rightarrow> bool \<Rightarrow> managed_task \<Rightarrow> bool" where
  "entry_ok steers ends told waits e \<longleftrightarrow>
     (mt_fired e \<longrightarrow> is_terminal (mt_status e)) \<and>
     ends = (if mt_fired e then [mt_status e] else []) \<and>
     length told \<le> length ends \<and>
     (mt_fired e \<and> steers \<and> \<not> mt_suppressed e \<longrightarrow> told \<noteq> []) \<and>
     (waits \<longrightarrow> is_terminal (mt_status e)) \<and>
     (is_terminal (mt_status e) \<and> \<not> waits \<longrightarrow> mt_fired e \<and> mt_waiters e = [])"

text \<open>
  A task under the id \<open>i\<close>, where \<open>F\<close> are the ids of the tasks a former process left and this one
  found on disk: those are not tasks of this process, and something may have been told of them.
\<close>

definition told_ok :: "string set \<Rightarrow> background_manager \<Rightarrow> string \<Rightarrow> bool" where
  "told_ok F m i \<longleftrightarrow>
     (case map_of (bm_tasks m) i of
        None \<Rightarrow> (i \<notin> F \<longrightarrow> endings i (bm_effects m) = [] \<and> notices i (bm_effects m) = []) \<and> \<not> pending i m
      | Some e \<Rightarrow> i \<notin> F \<and> mt_id e = i \<and> entry_ok (bm_steers m) (endings i (bm_effects m)) (notices i (bm_effects m)) (pending i m) e)"

abbreviation task_ok :: "background_manager \<Rightarrow> string \<Rightarrow> bool" where
  "task_ok \<equiv> told_ok {}"

lemmas task_ok_def = told_ok_def

lemma entry_untold: "entry_ok steers ends told waits e \<Longrightarrow> \<not> mt_fired e \<Longrightarrow> ends = [] \<and> told = []"
  by (auto simp: entry_ok_def)

lemma task_okI_same:
  assumes "told_ok F m j" "map_of (bm_tasks m') j = map_of (bm_tasks m) j" "endings j (bm_effects m') = endings j (bm_effects m)"
    "notices j (bm_effects m') = notices j (bm_effects m)" "pending j m' = pending j m" "bm_steers m' = bm_steers m"
  shows "told_ok F m' j"
  using assms unfolding told_ok_def by (cases "map_of (bm_tasks m) j") simp_all

text \<open>Two kinds of changes of one entry: those that tell nothing, and a new entry.\<close>

lemma task_ok_update:
  assumes "told_ok F m j" "map_of (bm_tasks m) i = Some e"
    "mt_id e' = mt_id e" "mt_status e' = mt_status e" "mt_fired e' = mt_fired e"
    "mt_suppressed e \<longrightarrow> mt_suppressed e'" "is_terminal (mt_status e) \<Longrightarrow> set (mt_waiters e') \<subseteq> set (mt_waiters e)"
    "map_of (bm_tasks m') j = (if j = i then Some e' else map_of (bm_tasks m) j)"
    "endings j (bm_effects m') = endings j (bm_effects m)" "notices j (bm_effects m') = notices j (bm_effects m)"
    "bm_settling m' = bm_settling m" "bm_steers m' = bm_steers m"
  shows "told_ok F m' j"
proof (cases "j = i")
  case True
  have pend: "pending j m' = pending j m" by (simp add: pending_def assms(11))
  have "entry_ok (bm_steers m) (endings j (bm_effects m)) (notices j (bm_effects m)) (pending j m) e" "mt_id e = j" "j \<notin> F"
    using assms(1,2) True by (simp_all add: told_ok_def)
  then have "entry_ok (bm_steers m) (endings j (bm_effects m)) (notices j (bm_effects m)) (pending j m) e'"
    using assms(4-7) unfolding entry_ok_def by auto
  then show ?thesis using \<open>mt_id e = j\<close> \<open>j \<notin> F\<close> unfolding told_ok_def assms(8-10,12) pend by (simp add: True assms(3))
next
  case False
  then show ?thesis by (intro task_okI_same [OF assms(1)]) (simp_all add: pending_def assms(8-12))
qed

lemma live_id: "told_ok F m i \<Longrightarrow> map_of (bm_tasks m) i = Some e \<Longrightarrow> mt_id e = i"
  by (simp add: told_ok_def)

lemma live_own: "told_ok F m i \<Longrightarrow> map_of (bm_tasks m) i = Some e \<Longrightarrow> i \<notin> F"
  by (simp add: told_ok_def)

lemma put_task_ok:
  assumes "told_ok F m j" "told_ok F m i" "map_of (bm_tasks m) i = Some e"
    "mt_id e' = mt_id e" "mt_status e' = mt_status e" "mt_fired e' = mt_fired e"
    "mt_suppressed e \<longrightarrow> mt_suppressed e'" "is_terminal (mt_status e) \<Longrightarrow> set (mt_waiters e') \<subseteq> set (mt_waiters e)"
  shows "told_ok F (put_task e' m) j"
  using live_id [OF assms(2,3)] by (intro task_ok_update [OF assms(1,3-8)]) (simp_all add: bgs assms(4))

lemma bg_stop_ok: "(\<And>j. told_ok F m j) \<Longrightarrow> told_ok F (bg_stop i reason m) j"
  unfolding bg_stop_def by (auto split: option.split intro!: put_task_ok)

lemma stop_all_ok: "(\<And>j. told_ok F m j) \<Longrightarrow> told_ok F (stop_all reason m) j"
proof -
  have "(\<And>j. told_ok F m j) \<Longrightarrow> told_ok F (fold (\<lambda>i. bg_stop i reason) is m) j" for "is"
    by (induction "is" arbitrary: m j) (simp_all add: bg_stop_ok)
  then show "(\<And>j. told_ok F m j) \<Longrightarrow> told_ok F (stop_all reason m) j" by (simp add: stop_all_def)
qed

lemma bg_wait_ok: "(\<And>j. told_ok F m j) \<Longrightarrow> told_ok F (snd (bg_wait i w aborted m)) j"
  unfolding bg_wait_def by (auto split: option.split intro!: put_task_ok)

lemma wait_given_up_ok: "(\<And>j. told_ok F m j) \<Longrightarrow> told_ok F (wait_given_up i w m) j"
  unfolding wait_given_up_def by (auto split: option.split intro!: put_task_ok dest: set_mp [OF set_remove1_subset])

lemma suppress_ok: "(\<And>j. told_ok F m j) \<Longrightarrow> told_ok F (suppress_terminal_notification i m) j"
  unfolding suppress_terminal_notification_def by (auto split: option.split intro!: put_task_ok)

lemma task_reports_ok: "(\<And>j. told_ok F m j) \<Longrightarrow> told_ok F (task_reports i d m) j"
  unfolding task_reports_def by (auto split: option.split intro!: put_task_ok)

lemma persist_live_ok:
  assumes "told_ok F m j" "told_ok F m i" "map_of (bm_tasks m) i = Some e"
    "mt_id e' = mt_id e" "mt_status e' = mt_status e" "mt_fired e' = mt_fired e" "mt_suppressed e' = mt_suppressed e" "mt_waiters e' = mt_waiters e"
  shows "told_ok F (persist_live e' m) j"
  using live_id [OF assms(2,3)] by (intro task_ok_update [OF assms(1,3), where e' = "bumped m e'"]) (simp_all add: bgs assms(4-))

lemma stamp_notified_ok: "(\<And>j. told_ok F m j) \<Longrightarrow> told_ok F (stamp_notified i now m) j"
proof (cases "map_of (bm_tasks m) i")
  case None
  assume ok: "\<And>j. told_ok F m j"
  have "bm_tasks (stamp_notified i now m) = bm_tasks m" "bm_effects (stamp_notified i now m) = bm_effects m"
    "bm_settling (stamp_notified i now m) = bm_settling m" "bm_steers (stamp_notified i now m) = bm_steers m"
    using None by (simp_all add: stamp_notified_def Let_def bgs split: option.split)
  then show ?thesis by (intro task_okI_same [OF ok]) (simp_all add: pending_def)
next
  case (Some e)
  assume ok: "\<And>j. told_ok F m j"
  have "told_ok F (persist_live (e\<lparr>mt_notified_at := Some now\<rparr>) m) j"
    by (rule persist_live_ok [OF ok ok Some]) simp_all
  then show ?thesis using ok Some by (simp add: stamp_notified_def)
qed

lemma watch_for_stall_ok: "(\<And>j. told_ok F m j) \<Longrightarrow> told_ok F (watch_for_stall i m) j"
  unfolding watch_for_stall_def by (auto split: option.split task_detail.split output_ref.split intro!: put_task_ok)

lemma enter_task_ok:
  assumes ok: "\<And>j. told_ok F m j" and new: "map_of (bm_tasks m) i = None" "i \<notin> F"
  shows "told_ok F (enter_task (new_entry i t now aborted) m) j"
proof -
  have "told_ok F (tell (TaskStarted (to_info (new_entry i t now aborted))) (persist_live (new_entry i t now aborted) m)) j" for j
  proof (cases "j = i")
    case True
    then show ?thesis using ok [of i] new
      by (simp add: told_ok_def bgs entry_ok_def pending_def) (simp add: new_entry_def)
  next
    case False
    have "mt_id (new_entry i t now aborted) = i" by (simp add: new_entry_def)
    with False show ?thesis by (intro task_okI_same [OF ok]) (simp_all add: bgs pending_def)
  qed
  then show ?thesis unfolding enter_task_def by (rule watch_for_stall_ok)
qed

lemma register_task_ok:
  assumes "\<And>j. told_ok F m j" "map_of (bm_tasks m) i = None" "i \<notin> F"
  shows "told_ok F (snd (register_task i t now m)) j"
proof -
  have "told_ok F ((enter_task (new_entry i t now False) m)\<lparr>bm_starting := st\<rparr>) j" for st
    by (rule task_okI_same [OF enter_task_ok [OF assms]]) (simp_all add: pending_def)
  then show ?thesis using assms by (auto simp: register_task_def Let_def split: option.split)
qed

lemma adopt_running_ok:
  assumes "\<And>j. told_ok F m j" "map_of (bm_tasks m) i = None" "i \<notin> F"
  shows "told_ok F (snd (adopt_running i t aborted now m)) j"
  using enter_task_ok [OF assms] assms by (simp add: adopt_running_def split: option.split)

lemma begin_work_ok: "told_ok F m j \<Longrightarrow> told_ok F (snd (begin_work i m)) j"
  by (erule task_okI_same) (simp_all add: begin_work_def pending_def)

text \<open>Telling the end of a task that has ended, and waking its waiters.\<close>

lemma told_length: "length (if b then [] else [x]) \<le> Suc 0"
  by simp

lemma fire_ok:
  assumes ok: "\<And>j. told_ok F m j" and e: "map_of (bm_tasks m) i = Some e" "is_terminal (mt_status e)"
  shows "told_ok F (fire_terminal_effects e now m) j"
proof (cases "mt_fired e")
  case True
  then show ?thesis using ok by (simp add: fire_told)
next
  case False
  have id: "mt_id e = i" by (rule live_id [OF ok e(1)])
  note f = fire_first [OF False]
  show ?thesis
  proof (cases "j = i")
    case True
    have "entry_ok (bm_steers m) (endings i (bm_effects m)) (notices i (bm_effects m)) (pending i m) e"
      using ok [of i] e(1) by (simp add: told_ok_def)
    then have none: "endings i (bm_effects m) = []" "notices i (bm_effects m) = []" and waits: "pending i m"
      using e(2) False by (simp_all add: entry_untold [OF _ False]) (simp add: entry_ok_def)
    show ?thesis using e(2) True waits live_own [OF ok e(1)] by (simp add: told_ok_def f id bgs entry_ok_def pending_def none)
  next
    case ne: False
    then show ?thesis by (intro task_okI_same [OF ok]) (simp_all add: f id bgs pending_def)
  qed
qed

lemma resolve_ok:
  assumes ok: "\<And>j. told_ok F m j"
  shows "told_ok F (resolve_waiters i m) j"
proof (cases "map_of (bm_tasks m) i")
  case None
  then show ?thesis using ok by (simp add: resolve_waiters_def)
next
  case (Some e)
  have id: "mt_id e = i" by (rule live_id [OF ok Some])
  show ?thesis
    by (rule task_ok_update [OF ok Some, where e' = "e\<lparr>mt_waiters := []\<rparr>"]) (simp_all add: resolve_view Some id bgs)
qed

lemma fire_entry:
  assumes "map_of (bm_tasks m) i = Some e" "mt_id e = i"
  shows "\<exists>e'. map_of (bm_tasks (fire_terminal_effects e now m)) i = Some e' \<and> mt_fired e' \<and> mt_id e' = i \<and> mt_status e' = mt_status e"
  using assms by (cases "mt_fired e") (auto simp: fire_told fire_first bgs)

text \<open>After both, the entry needs no write to end its settling.\<close>

lemma settled_now_ok:
  assumes ok: "\<And>j. told_ok F m j" and e: "map_of (bm_tasks m) i = Some e" "is_terminal (mt_status e)"
    and q: "set (bm_settling m) \<subseteq> insert (i, r) (set sl)" "set sl \<subseteq> set (bm_settling m)"
  shows "told_ok F ((resolve_waiters i (fire_terminal_effects e now m))\<lparr>bm_settling := sl\<rparr>) j"
proof -
  let ?m = "resolve_waiters i (fire_terminal_effects e now m)"
  have ok': "told_ok F ?m j" for j by (rule resolve_ok, rule fire_ok [OF ok e])
  have set: "bm_settling ?m = bm_settling m" by (simp add: resolve_view bgs)
  show ?thesis
  proof (cases "j = i")
    case True
    obtain e' where e': "map_of (bm_tasks (fire_terminal_effects e now m)) i = Some e'" "mt_fired e'" "mt_id e' = i" "mt_status e' = mt_status e"
      using fire_entry [OF e(1) live_id [OF ok e(1)]] by blast
    have "map_of (bm_tasks ?m) i = Some (e'\<lparr>mt_waiters := []\<rparr>)" by (simp add: resolve_view e')
    then show ?thesis using ok' [of i] e'(2-4) e(2) True by (auto simp: told_ok_def entry_ok_def)
  next
    case False
    then have "pending j (?m\<lparr>bm_settling := sl\<rparr>) = pending j ?m" using q by (force simp: pending_def set)
    then show ?thesis by (intro task_okI_same [OF ok']) simp_all
  qed
qed

lemma settle_end_ok:
  assumes ok: "\<And>j. told_ok F m j"
  shows "told_ok F (settle_end p now m) j"
proof (cases "p \<notin> set (bm_settling m) \<or> write_pending p m")
  case True
  then show ?thesis using ok by (simp add: settle_end_def)
next
  case False
  have pend: "pending (fst p) m" using False by (auto simp: pending_def)
  then obtain e where e: "map_of (bm_tasks m) (fst p) = Some e" "is_terminal (mt_status e)"
    using ok [of "fst p"] by (auto simp: told_ok_def entry_ok_def split: option.splits)
  let ?m' = "m\<lparr>bm_settling := remove1 p (bm_settling m)\<rparr>"
  have comm: "resolve_waiters (fst p) (fire_terminal_effects e now ?m') =
      (resolve_waiters (fst p) (fire_terminal_effects e now m))\<lparr>bm_settling := remove1 p (bm_settling m)\<rparr>"
    by (simp add: apart)
  have "told_ok F ((resolve_waiters (fst p) (fire_terminal_effects e now m))\<lparr>bm_settling := remove1 p (bm_settling m)\<rparr>) j"
  proof (rule settled_now_ok [OF ok e, where r = "snd p"])
    show "set (remove1 p (bm_settling m)) \<subseteq> set (bm_settling m)" by (rule set_remove1_subset)
    show "set (bm_settling m) \<subseteq> insert (fst p, snd p) (set (remove1 p (bm_settling m)))"
      by (auto dest: in_set_remove1 [THEN iffD2, rotated])
  qed
  then show ?thesis using False e by (simp add: settle_end_def Let_def comm)
qed

lemma settle_begin_ok:
  assumes ok: "\<And>j. told_ok F m j" and final: "is_terminal (se_status se)"
  shows "told_ok F (snd (settle_begin i se now m)) j"
proof (cases "map_of (bm_tasks m) i")
  case None
  then show ?thesis using ok by (simp add: settle_begin_def)
next
  case (Some e)
  have id: "mt_id e = i" by (rule live_id [OF ok Some])
  show ?thesis
  proof (cases "is_terminal (mt_status e)")
    case True
    define e' where "e' = e\<lparr>mt_watched := False, mt_ended := Some (max now (or_else (mt_ended e) 0 + 1))\<rparr>"
    have put: "told_ok F (put_task e' m) j" for j by (rule put_task_ok [OF ok ok Some]) (simp_all add: e'_def)
    have watched: "told_ok F (put_task (e\<lparr>mt_watched := False\<rparr>) m) j" by (rule put_task_ok [OF ok ok Some]) simp_all
    have "told_ok F (resolve_waiters i (fire_terminal_effects e' now (put_task e' m))) j"
      by (rule resolve_ok, rule fire_ok [OF put, where i = i]) (use id True in \<open>simp_all add: bgs e'_def\<close>)
    then show ?thesis using Some True watched by (auto simp: settle_begin_def Let_def e'_def)
  next
    case False
    define e' where "e' = e\<lparr>mt_watched := False, mt_status := se_status se, mt_ended := Some now,
      mt_reason := (case se_reason se of Some r \<Rightarrow> Some r | None \<Rightarrow> if se_status se = TKilled then mt_reason e else None)\<rparr>"
    have was: "entry_ok (bm_steers m) (endings i (bm_effects m)) (notices i (bm_effects m)) (pending i m) e"
      using ok [of i] Some by (simp add: told_ok_def)
    have e': "mt_id e' = i" "mt_status e' = se_status se" "mt_fired e' = mt_fired e" by (simp_all add: e'_def id)
    have "told_ok F ((persist_live e' m)\<lparr>bm_settling := bm_settling m @ [(i, r)]\<rparr>) j" for r
    proof (cases "j = i")
      case True
      have "\<not> mt_fired e" using was False by (simp add: entry_ok_def)
      then show ?thesis using entry_untold [OF was] final True live_own [OF ok Some] by (simp add: told_ok_def bgs e' entry_ok_def pending_def)
    next
      case ne: False
      then show ?thesis by (intro task_okI_same [OF ok]) (auto simp: bgs e' pending_def)
    qed
    moreover have "snd (settle_begin i se now m) = (persist_live e' m)\<lparr>bm_settling := bm_settling m @ [(i, mt_revision (bumped m e'))]\<rparr>"
      using False id by (cases "se_reason se") (simp_all add: settle_begin_def Some Let_def bgs e'_def)
    ultimately show ?thesis by simp
  qed
qed

lemma bg_apply_ok:
  assumes ok: "\<And>j. told_ok F m j" and allowed: "bg_allowed p m" "\<forall>i \<in> set (new_ids p). i \<notin> F"
  shows "told_ok F (bg_apply p m) j"
proof (cases p)
  case (OpStopExpired i reason now)
  then show ?thesis using ok settle_begin_ok [OF ok] by (simp add: stop_expired_def split: option.split)
qed (use ok allowed in \<open>simp_all add: register_task_ok begin_work_ok adopt_running_ok task_reports_ok settle_begin_ok settle_end_ok
  bg_stop_ok stop_all_ok bg_wait_ok wait_given_up_ok suppress_ok stamp_notified_ok\<close>)

lemma bg_step_ok:
  assumes ok: "\<And>j. told_ok F (fst w) j" and allowed: "bg_allowed p (fst w)" "\<forall>i \<in> set (new_ids p). i \<notin> F"
  shows "told_ok F (fst (bg_step p w)) j"
proof (cases p)
  case (OpWrite b)
  have "told_ok F (fst (next_write b w)) j"
    by (rule task_okI_same [OF ok]) (simp_all add: next_write_def pending_def split: prod.split list.split)
  then show ?thesis by (simp add: bg_step_def OpWrite)
qed (use bg_apply_ok [OF ok allowed] in \<open>simp_all add: bg_step_def\<close>)

lemma bg_runs_ok:
  assumes "\<And>j. task_ok (fst w) j" "bg_runs ps w = Some w'"
  shows "task_ok (fst w') j"
  using assms
proof (induction ps arbitrary: w j)
  case (Cons p ps)
  from Cons.prems(2) have "bg_allowed p (fst w)" "bg_runs ps (bg_step p w) = Some w'" by (simp_all split: if_splits)
  then show ?case using bg_step_ok [OF Cons.prems(1)] by (intro Cons.IH) auto
qed simp

text \<open>A status once final stays.\<close>

definition keeps :: "background_manager \<Rightarrow> background_manager \<Rightarrow> bool" where
  "keeps m m' \<longleftrightarrow> (\<forall>i e. map_of (bm_tasks m) i = Some e \<longrightarrow>
     (\<exists>e'. map_of (bm_tasks m') i = Some e' \<and> (is_terminal (mt_status e) \<longrightarrow> mt_status e' = mt_status e)))"

lemma keeps_same [simp]: "bm_tasks m' = bm_tasks m \<Longrightarrow> keeps m m'"
  by (simp add: keeps_def)

lemma keeps_trans [trans]: "keeps m m' \<Longrightarrow> keeps m' m'' \<Longrightarrow> keeps m m''"
  unfolding keeps_def by fastforce

lemma keeps_put:
  assumes "\<And>e. map_of (bm_tasks m) (mt_id e') = Some e \<Longrightarrow> is_terminal (mt_status e) \<Longrightarrow> mt_status e' = mt_status e"
  shows "keeps m (put_task e' m)" "keeps m (persist_live e' m)"
  using assms by (auto simp: keeps_def bgs)

lemma keeps_tell [simp]: "keeps m (tell x m)"
  by (simp add: bgs)

lemma keeps_fire:
  assumes "map_of (bm_tasks m) (mt_id e) = Some e" shows "keeps m (fire_terminal_effects e now m)"
  using assms by (cases "mt_fired e") (auto simp: fire_told keeps_def fire_first bgs)

lemma keeps_resolve:
  assumes "\<And>e. map_of (bm_tasks m) i = Some e \<Longrightarrow> mt_id e = i" shows "keeps m (resolve_waiters i m)"
  using assms by (auto simp: keeps_def resolve_view split: option.split)

lemma keeps_watch: "(\<And>e. map_of (bm_tasks m) i = Some e \<Longrightarrow> mt_id e = i) \<Longrightarrow> keeps m (watch_for_stall i m)"
  unfolding watch_for_stall_def by (auto split: option.split task_detail.split output_ref.split intro!: keeps_put)

lemma keeps_enter: "map_of (bm_tasks m) i = None \<Longrightarrow> keeps m (enter_task (new_entry i t now aborted) m)"
  unfolding enter_task_def
  by (rule keeps_trans [OF _ keeps_watch], rule keeps_trans [OF keeps_put(2) keeps_tell]) (auto simp: bgs new_entry_def)

lemma keeps_starting [simp]: "keeps m (m'\<lparr>bm_starting := x\<rparr>) = keeps m m'" "keeps m (m'\<lparr>bm_settling := y\<rparr>) = keeps m m'"
  by (simp_all add: keeps_def)

lemma keeps_stop_all:
  assumes "\<And>j. told_ok F m j" shows "keeps m (stop_all reason m)"
proof -
  have one: "keeps m (bg_stop i reason m)" if "\<And>j. told_ok F m j" for i m
    using live_id [OF that] by (auto simp: bg_stop_def split: option.split intro!: keeps_put)
  have "(\<And>j. told_ok F m j) \<Longrightarrow> keeps m (fold (\<lambda>i. bg_stop i reason) is m)" for "is"
  proof (induction "is" arbitrary: m)
    case (Cons i "is")
    show ?case using keeps_trans [OF one [OF Cons.prems] Cons.IH] bg_stop_ok [OF Cons.prems] by simp
  qed simp
  then show ?thesis using assms by (simp add: stop_all_def)
qed

lemma keeps_settle:
  assumes ok: "\<And>j. told_ok F m j"
  shows "keeps m (snd (settle_begin i se now m))"
proof (cases "map_of (bm_tasks m) i")
  case None
  then show ?thesis by (simp add: settle_begin_def)
next
  case (Some e)
  have id: "mt_id e = i" by (rule live_id [OF ok Some])
  show ?thesis
  proof (cases "is_terminal (mt_status e)")
    case True
    define e' where "e' = e\<lparr>mt_watched := False, mt_ended := Some (max now (or_else (mt_ended e) 0 + 1))\<rparr>"
    have e': "mt_id e' = i" by (simp add: e'_def id)
    have "told_ok F (put_task e' m) j" for j by (rule put_task_ok [OF ok ok Some]) (simp_all add: e'_def)
    then have ids: "\<And>x. map_of (bm_tasks (fire_terminal_effects e' now (put_task e' m))) i = Some x \<Longrightarrow> mt_id x = i"
      using True by (intro live_id [OF fire_ok [where i = i]]) (simp_all add: bgs e', simp_all add: e'_def)
    have "keeps m (put_task e' m)" using Some by (intro keeps_put) (auto simp: e' e'_def id)
    also have "keeps (put_task e' m) (fire_terminal_effects e' now (put_task e' m))" by (rule keeps_fire) (simp add: bgs)
    also have "keeps (fire_terminal_effects e' now (put_task e' m)) (resolve_waiters i (fire_terminal_effects e' now (put_task e' m)))"
      by (rule keeps_resolve) (rule ids)
    finally have "keeps m (resolve_waiters i (fire_terminal_effects e' now (put_task e' m)))" .
    moreover have "keeps m (put_task (e\<lparr>mt_watched := False\<rparr>) m)" using Some by (intro keeps_put) (auto simp: id)
    ultimately show ?thesis using Some True by (auto simp: settle_begin_def Let_def e'_def)
  next
    case False
    then show ?thesis using Some id by (auto simp: settle_begin_def Let_def bgs intro!: keeps_put)
  qed
qed

lemma keeps_apply:
  assumes ok: "\<And>j. told_ok F m j" and allowed: "bg_allowed p m"
  shows "keeps m (bg_apply p m)"
proof (cases p)
  case (OpRegister i t now)
  then show ?thesis using allowed keeps_enter by (simp add: register_task_def Let_def split: option.split)
next
  case (OpAdopt i t aborted now)
  then show ?thesis using allowed keeps_enter by (simp add: adopt_running_def Let_def split: option.split)
next
  case (OpSettle i se now)
  then show ?thesis using keeps_settle [OF ok] by simp
next
  case (OpStopExpired i reason now)
  then show ?thesis using keeps_settle [OF ok] by (simp add: stop_expired_def split: option.split)
next
  case (OpSettled p now)
  have "keeps m (resolve_waiters (fst p) (fire_terminal_effects e now m))" if e: "map_of (bm_tasks m) (fst p) = Some e" "is_terminal (mt_status e)" for e
    using live_id [OF ok e(1)] e live_id [OF fire_ok [OF ok e]]
    by (intro keeps_trans [OF keeps_fire keeps_resolve]) auto
  moreover have "is_terminal (mt_status e)" if "p \<in> set (bm_settling m)" "map_of (bm_tasks m) (fst p) = Some e" for e
    using ok [of "fst p"] that by (auto simp: told_ok_def entry_ok_def pending_def)
  ultimately show ?thesis using OpSettled by (auto simp: settle_end_def Let_def apart split: option.split)
next
  case (OpStopAll reason)
  then show ?thesis using keeps_stop_all [OF ok] by simp
qed (use live_id [OF ok] in \<open>auto simp: begin_work_def task_reports_def bg_stop_def bg_wait_def wait_given_up_def
  suppress_terminal_notification_def stamp_notified_def Let_def enqueue_simps split: option.split intro!: keeps_put\<close>)

lemma keeps_step:
  assumes ok: "\<And>j. told_ok F (fst w) j" and allowed: "bg_allowed p (fst w)"
  shows "keeps (fst w) (fst (bg_step p w))"
proof (cases p)
  case (OpWrite b)
  then show ?thesis by (auto simp: bg_step_def next_write_def split: prod.split list.split)
qed (use keeps_apply [OF ok allowed] in \<open>simp_all add: bg_step_def\<close>)

lemma keeps_runs:
  assumes "\<And>j. task_ok (fst w) j" "bg_runs ps w = Some w'"
  shows "keeps (fst w) (fst w')"
  using assms
proof (induction ps arbitrary: w)
  case (Cons p ps)
  from Cons.prems(2) have p: "bg_allowed p (fst w)" "bg_runs ps (bg_step p w) = Some w'" by (simp_all split: if_splits)
  show ?case using keeps_step [OF Cons.prems(1) p(1)] Cons.IH [OF bg_step_ok [OF Cons.prems(1) p(1), simplified] p(2)] by (rule keeps_trans)
qed simp

section \<open>What a life tells\<close>

definition fresh_manager :: "bool \<Rightarrow> bool \<Rightarrow> bool \<Rightarrow> nat option \<Rightarrow> background_manager" where
  "fresh_manager steers persists has_store limit = bg_attach steers persists has_store (new_manager limit)"

lemma fresh_ok: "task_ok (fresh_manager steers persists has_store limit) i"
  by (simp add: task_ok_def fresh_manager_def bg_attach_def new_manager_def pending_def endings_def notices_def map_filter_def)

lemma reached_ok:
  assumes "bg_runs ps (fresh_manager steers persists has_store limit, kv0) = Some (m, kv)" shows "task_ok m i"
  using bg_runs_ok [OF _ assms] fresh_ok by simp

lemma told_at_most_once: "task_ok m i \<Longrightarrow> length (notices i (bm_effects m)) \<le> length (endings i (bm_effects m)) \<and> length (endings i (bm_effects m)) \<le> 1"
  by (auto simp: task_ok_def entry_ok_def split: option.splits if_splits)

lemma quiet_entry:
  assumes "told_ok F m i" "map_of (bm_tasks m) i = Some e" "\<not> pending i m"
  shows "endings i (bm_effects m) = (if is_terminal (mt_status e) then [mt_status e] else [])"
    "is_terminal (mt_status e) \<Longrightarrow> mt_waiters e = []"
    "is_terminal (mt_status e) \<and> bm_steers m \<and> \<not> mt_suppressed e \<Longrightarrow> length (notices i (bm_effects m)) = 1"
  using assms by (auto simp: told_ok_def entry_ok_def le_Suc_eq)

section \<open>Tasks found on disk\<close>

text \<open>
  In between the records are loaded again and the tasks found there reconciled, any number of times. The
  state keeps the ids found so far; a new task takes an id that is none of them.
\<close>

datatype life_op = TaskOp bg_op | LoadRecords | ReconcileTasks nat | ReconcileSubagents nat

type_synonym life_state = "(background_manager \<times> task_kv) \<times> string list"

fun life_allowed :: "life_op \<Rightarrow> life_state \<Rightarrow> bool" where
  "life_allowed (TaskOp p) (w, found) \<longleftrightarrow> bg_allowed p (fst w) \<and> (\<forall>i \<in> set (new_ids p). i \<notin> set found)"
| "life_allowed _ _ \<longleftrightarrow> True"

fun life_step :: "life_op \<Rightarrow> life_state \<Rightarrow> life_state" where
  "life_step (TaskOp p) (w, found) = (bg_step p w, found)"
| "life_step LoadRecords ((m, kv), found) =
     (let m' = load_from_disk (list_tasks kv) m in ((m', kv), found @ jkeys (bm_ghosts m')))"
| "life_step (ReconcileTasks now) ((m, kv), found) = ((snd (bg_reconcile now m), kv), found)"
| "life_step (ReconcileSubagents now) ((m, kv), found) = ((snd (reconcile_subagents now m), kv), found)"

fun life_runs :: "life_op list \<Rightarrow> life_state \<Rightarrow> life_state option" where
  "life_runs [] w = Some w"
| "life_runs (p # ps) w = (if life_allowed p w then life_runs ps (life_step p w) else None)"

definition ghosts_ok :: "string set \<Rightarrow> background_manager \<Rightarrow> bool" where
  "ghosts_ok F m \<longleftrightarrow> (\<forall>i g. map_of (bm_ghosts m) i = Some g \<longrightarrow> i \<in> F \<and> ti_id (pt_info g) = i)"

lemma ghosts_ok_same: "bm_ghosts m' = bm_ghosts m \<Longrightarrow> ghosts_ok F m \<Longrightarrow> ghosts_ok F m'"
  by (simp add: ghosts_ok_def)

lemma ghosts_ok_update:
  "ghosts_ok F m \<Longrightarrow> map_of (bm_ghosts m) i = Some g \<Longrightarrow> ti_id (pt_info g') = ti_id (pt_info g)
     \<Longrightarrow> bm_ghosts m' = jset i g' (bm_ghosts m) \<Longrightarrow> ghosts_ok F m'"
  by (auto simp: ghosts_ok_def)

text \<open>The operations on tasks leave what was found as it is, but for the stamps.\<close>

lemma fire_ghosts [bgs]: "map_of (bm_tasks m) (mt_id e) \<noteq> None \<Longrightarrow> bm_ghosts (fire_terminal_effects e now m) = bm_ghosts m"
  by (cases "mt_fired e") (simp_all add: fire_told fire_first)

lemma settle_begin_ghosts:
  assumes "\<And>j. told_ok F m j"
  shows "bm_ghosts (snd (settle_begin i se now m)) = bm_ghosts m"
  using live_id [OF assms]
  by (auto simp: settle_begin_def Let_def resolve_view bgs split: option.split)

lemma settle_end_ghosts:
  assumes "\<And>j. told_ok F m j"
  shows "bm_ghosts (settle_end p now m) = bm_ghosts m"
  using live_id [OF assms]
  by (auto simp: settle_end_def Let_def apart resolve_view bgs split: option.split)

lemma stop_ghosts: "bm_ghosts (bg_stop i reason m) = bm_ghosts m"
  by (simp add: bg_stop_def bgs split: option.split)

lemma watch_ghosts: "bm_ghosts (watch_for_stall i m) = bm_ghosts m"
  by (simp add: watch_for_stall_def bgs split: option.split task_detail.split output_ref.split)

lemma stop_all_ghosts: "bm_ghosts (stop_all reason m) = bm_ghosts m"
proof -
  have "bm_ghosts (fold (\<lambda>i. bg_stop i reason) is m) = bm_ghosts m" for "is"
    by (induction "is" arbitrary: m) (simp_all add: stop_ghosts)
  then show ?thesis by (simp add: stop_all_def)
qed

lemma enter_ghosts: "bm_ghosts (enter_task e m) = bm_ghosts m"
  by (simp add: enter_task_def watch_ghosts bgs)

lemma apply_ghosts:
  assumes tok: "\<And>j. told_ok F m j" and "\<forall>i now. p \<noteq> OpConsumed i now"
  shows "bm_ghosts (bg_apply p m) = bm_ghosts m"
proof (cases p)
  case (OpStopExpired i reason now)
  then show ?thesis using settle_begin_ghosts [OF tok] by (simp add: stop_expired_def split: option.split)
next
  case (OpSettle i se now)
  then show ?thesis using settle_begin_ghosts [OF tok] by simp
next
  case (OpSettled q now)
  then show ?thesis using settle_end_ghosts [OF tok] by simp
qed (use assms(2) in \<open>simp_all add: register_task_def adopt_running_def begin_work_def enter_ghosts stop_ghosts stop_all_ghosts
      task_reports_def bg_wait_def wait_given_up_def suppress_terminal_notification_def Let_def put_task_simps split: option.split\<close>)

lemma stamp_notified_ghosts:
  assumes "ghosts_ok F m" shows "ghosts_ok F (stamp_notified i now m)"
proof (cases "map_of (bm_tasks m) i")
  case None
  show ?thesis
  proof (cases "map_of (bm_ghosts m) i")
    case (Some g)
    have "ghosts_ok F (enqueue_persist g' (m\<lparr>bm_ghosts := jset i g' (bm_ghosts m)\<rparr>))" if "ti_id (pt_info g') = ti_id (pt_info g)" for g'
      by (rule ghosts_ok_update [OF assms Some that]) (simp add: enqueue_simps)
    then show ?thesis using None Some assms by (simp add: stamp_notified_def Let_def)
  qed (use None assms in \<open>simp add: stamp_notified_def\<close>)
next
  case (Some e)
  have "ghosts_ok F (persist_live e' m)" for e' by (rule ghosts_ok_same [OF _ assms]) (simp add: bgs)
  then show ?thesis using Some assms by (simp add: stamp_notified_def)
qed

lemma apply_ghosts_ok:
  assumes tok: "\<And>j. told_ok F m j" and ok: "ghosts_ok F m"
  shows "ghosts_ok F (bg_apply p m)"
proof (cases "\<exists>i now. p = OpConsumed i now")
  case True
  then show ?thesis using stamp_notified_ghosts [OF ok] by auto
next
  case False
  then show ?thesis using ghosts_ok_same [OF apply_ghosts [OF tok] ok] by blast
qed

lemma step_ghosts_ok:
  assumes "\<And>j. told_ok F (fst w) j" "ghosts_ok F (fst w)"
  shows "ghosts_ok F (fst (bg_step p w))"
proof (cases p)
  case (OpWrite b)
  have "bm_ghosts (fst (next_write b w)) = bm_ghosts (fst w)" by (simp add: next_write_def split: prod.split list.split)
  then show ?thesis using ghosts_ok_same [OF _ assms(2)] by (simp add: bg_step_def OpWrite)
qed (use apply_ghosts_ok [OF assms, of p] in \<open>simp_all add: bg_step_def\<close>)

lemma load_tasks [simp]:
  "bm_tasks (load_from_disk ts m) = bm_tasks m" "bm_effects (load_from_disk ts m) = bm_effects m"
  "bm_settling (load_from_disk ts m) = bm_settling m" "bm_steers (load_from_disk ts m) = bm_steers m"
  by (simp_all add: load_from_disk_def)

lemma fold_ghosts:
  assumes "map_of (fold (\<lambda>t. jset (ti_id (pt_info t)) t) ts xs) i = Some g"
    "\<forall>i g. map_of xs i = Some g \<longrightarrow> ti_id (pt_info g) = i \<and> P i" "\<forall>t \<in> set ts. P (ti_id (pt_info t))"
  shows "ti_id (pt_info g) = i \<and> P i"
  using assms
proof (induction ts arbitrary: xs)
  case (Cons t ts)
  show ?case
  proof (rule Cons.IH [of "jset (ti_id (pt_info t)) t xs"])
    show "map_of (fold (\<lambda>t. jset (ti_id (pt_info t)) t) ts (jset (ti_id (pt_info t)) t xs)) i = Some g"
      using Cons.prems(1) by simp
  qed (use Cons.prems(2,3) in auto)
qed simp

lemma load_ghost:
  assumes "map_of (bm_ghosts (load_from_disk ts m)) i = Some g"
  shows "ti_id (pt_info g) = i \<and> map_of (bm_tasks m) i = None"
proof -
  let ?ts = "filter (\<lambda>t. ti_id (pt_info t) \<notin> set (jkeys (bm_tasks m))) ts"
  have g: "map_of (fold (\<lambda>t. jset (ti_id (pt_info t)) t) ?ts []) i = Some g"
    using assms by (simp add: load_from_disk_def split: if_splits)
  have "\<forall>t \<in> set ?ts. map_of (bm_tasks m) (ti_id (pt_info t)) = None"
    by (simp add: map_of_eq_None_iff)
  then show ?thesis by (intro fold_ghosts [OF g]) simp_all
qed

text \<open>Reconciling tells something only of what was found.\<close>

lemma told_found:
  assumes "i \<in> F" "\<And>j. told_ok F m j" "bm_tasks m' = bm_tasks m" "bm_settling m' = bm_settling m" "bm_steers m' = bm_steers m"
    "\<And>j. j \<noteq> i \<Longrightarrow> endings j (bm_effects m') = endings j (bm_effects m) \<and> notices j (bm_effects m') = notices j (bm_effects m)"
  shows "told_ok F m' j"
proof (cases "j = i")
  case True
  have "map_of (bm_tasks m) i = None" "\<not> pending i m"
    using assms(1) assms(2) [of i] by (auto simp: told_ok_def split: option.splits)
  then show ?thesis using assms(1,3,4) True by (simp add: told_ok_def pending_def)
next
  case False
  then show ?thesis using assms(3-6) by (intro task_okI_same [OF assms(2)]) (simp_all add: pending_def)
qed

lemma lost_notice_of [bgs]: "notice_of (Noticed (fst (lost_notice f)) (snd (lost_notice f))) = Some (ti_id f)"
  by (simp add: lost_notice_def Let_def settle_origin_def split: prod.split)

lemma unconfirmed_notice_of [bgs]: "notice_of (Noticed (fst (unconfirmed_notice b f)) (snd (unconfirmed_notice b f))) = Some (ti_id f)"
  by (simp add: unconfirmed_notice_def Let_def settle_origin_def split: prod.split)

lemma steer_found:
  assumes "i \<in> F" "\<And>j. told_ok F m j" "ghosts_ok F m" "notice_of (Noticed (fst n) (snd n)) = Some i"
  shows "told_ok F (steer_notice i n now m) j \<and> ghosts_ok F (steer_notice i n now m) \<and> bm_tasks (steer_notice i n now m) = bm_tasks m"
proof -
  have none: "map_of (bm_tasks m) i = None" using assms(1) assms(2) [of i] by (auto simp: told_ok_def split: option.splits)
  let ?t = "tell (Noticed (fst n) (snd n)) m"
  have t: "bm_tasks (steer_notice i n now m) = bm_tasks m" "bm_settling (steer_notice i n now m) = bm_settling m"
    "bm_steers (steer_notice i n now m) = bm_steers m"
    using none by (simp_all add: steer_notice_def stamp_notification_queued_def Let_def bgs split: option.split)
  have e: "endings k (bm_effects (steer_notice i n now m)) = endings k (bm_effects m) \<and>
      notices k (bm_effects (steer_notice i n now m)) = notices k (bm_effects m)" if "k \<noteq> i" for k
    using that assms(4) by (simp add: steer_notice_def bgs)
  have "ghosts_ok F (stamp_notification_queued i now ?t)"
  proof (cases "map_of (bm_ghosts m) i")
    case (Some g)
    have "ghosts_ok F (enqueue_persist g' (?t\<lparr>bm_ghosts := jset i g' (bm_ghosts ?t)\<rparr>))" if "ti_id (pt_info g') = ti_id (pt_info g)" for g'
      by (rule ghosts_ok_update [OF assms(3) Some that]) (simp add: bgs)
    moreover have "ghosts_ok F ?t" by (rule ghosts_ok_same [OF _ assms(3)]) (simp add: bgs)
    ultimately show ?thesis using none Some by (simp add: stamp_notification_queued_def Let_def bgs)
  next
    case None
    have "ghosts_ok F ?t" by (rule ghosts_ok_same [OF _ assms(3)]) (simp add: bgs)
    then show ?thesis using none None by (simp add: stamp_notification_queued_def bgs)
  qed
  then have "ghosts_ok F (steer_notice i n now m)" using assms(3) by (simp add: steer_notice_def)
  moreover have "told_ok F (steer_notice i n now m) j" by (rule told_found [OF assms(1,2) t e])
  ultimately show ?thesis using t(1) by blast
qed

lemma reconcile_one_ok:
  assumes tok: "\<And>j. told_ok F m j" and ok: "ghosts_ok F m"
  shows "told_ok F (snd (reconcile_one now i m)) j \<and> ghosts_ok F (snd (reconcile_one now i m))
    \<and> bm_tasks (snd (reconcile_one now i m)) = bm_tasks m"
proof (cases "map_of (bm_ghosts m) i")
  case None
  then show ?thesis using tok ok by (simp add: reconcile_one_def)
next
  case (Some g)
  have i: "i \<in> F" "ti_id (pt_info g) = i" using ok Some by (auto simp: ghosts_ok_def)
  show ?thesis
  proof (cases "is_terminal (ti_status (pt_info g))")
    case False
    define g' where "g' = mark_lost now g"
    define m1 where "m1 = tell (TaskTerminated (pt_info g')) (enqueue_persist g' (m\<lparr>bm_ghosts := jset i g' (bm_ghosts m)\<rparr>))"
    have g': "ti_id (pt_info g') = i" by (simp add: g'_def mark_lost_def i)
    have "told_ok F m1 j" for j
      by (rule told_found [OF i(1) tok]) (simp_all add: m1_def bgs g')
    moreover have "ghosts_ok F m1"
      by (rule ghosts_ok_update [OF ok Some, of g']) (simp_all add: m1_def bgs g' i(2))
    moreover have "bm_tasks m1 = bm_tasks m" by (simp add: m1_def bgs)
    moreover have "snd (reconcile_one now i m) = steer_notice i (lost_notice (pt_info g')) now m1"
      using Some False g' by (simp add: reconcile_one_def Let_def m1_def g'_def)
    ultimately show ?thesis using steer_found [OF i(1), of m1 "lost_notice (pt_info g')" now] g' by (simp add: bgs)
  next
    case True
    define m1 where "m1 = m\<lparr>bm_redelivered := i # bm_redelivered m\<rparr>"
    have "told_ok F m1 j" for j by (rule task_okI_same [OF tok]) (simp_all add: m1_def pending_def)
    moreover have "ghosts_ok F m1" by (rule ghosts_ok_same [OF _ ok]) (simp add: m1_def)
    moreover have "bm_tasks m1 = bm_tasks m" by (simp add: m1_def)
    ultimately show ?thesis
      using steer_found [OF i(1), of m1 "unconfirmed_notice (bm_has_store m) (pt_info g)" now] True Some tok ok i(2)
      by (simp add: reconcile_one_def Let_def m1_def bgs)
  qed
qed

lemma reconcile_all_ok:
  assumes "\<And>j. told_ok F m j" "ghosts_ok F m"
  shows "told_ok F (snd (reconcile_all now is m)) j \<and> ghosts_ok F (snd (reconcile_all now is m))
    \<and> bm_tasks (snd (reconcile_all now is m)) = bm_tasks m"
  using assms
proof (induction "is" arbitrary: m j)
  case (Cons i "is")
  obtain x m1 where one: "reconcile_one now i m = (x, m1)" by fastforce
  have m1: "told_ok F m1 j" "ghosts_ok F m1" "bm_tasks m1 = bm_tasks m" for j
    using reconcile_one_ok [OF Cons.prems, of now i] one by simp_all
  obtain l m2 where rest: "reconcile_all now is m1 = (l, m2)" by fastforce
  show ?case using Cons.IH [OF m1(1,2)] m1(3) one rest by simp
qed simp

lemma warned_ok:
  "(\<And>j. told_ok F m j) \<Longrightarrow> ghosts_ok F m \<Longrightarrow>
     told_ok F (fold (\<lambda>r. tell (Warned (f r))) rs m) j \<and> ghosts_ok F (fold (\<lambda>r. tell (Warned (f r))) rs m)
     \<and> bm_tasks (fold (\<lambda>r. tell (Warned (f r))) rs m) = bm_tasks m"
proof (induction rs arbitrary: m j)
  case (Cons r rs)
  have "told_ok F (tell (Warned (f r)) m) j" for j
    by (rule task_okI_same [OF Cons.prems(1)]) (simp_all add: bgs pending_def)
  moreover have "ghosts_ok F (tell (Warned (f r)) m)" by (rule ghosts_ok_same [OF _ Cons.prems(2)]) (simp add: bgs)
  ultimately show ?case using Cons.IH [of "tell (Warned (f r)) m" j] by (simp add: bgs)
qed simp

text \<open>Every step of a life.\<close>

definition life_ok :: "life_state \<Rightarrow> bool" where
  "life_ok w \<longleftrightarrow> (\<forall>j. told_ok (set (snd w)) (fst (fst w)) j) \<and> ghosts_ok (set (snd w)) (fst (fst w))"

lemma life_step_ok:
  assumes ok: "life_ok w" and allowed: "life_allowed p w"
  shows "life_ok (life_step p w) \<and> keeps (fst (fst w)) (fst (fst (life_step p w))) \<and> set (snd w) \<subseteq> set (snd (life_step p w))"
proof -
  obtain m kv found where w: "w = ((m, kv), found)" by (cases w; cases "fst w") auto
  have tok: "told_ok (set found) m j" and gok: "ghosts_ok (set found) m" for j using ok by (simp_all add: life_ok_def w)
  show ?thesis
  proof (cases p)
    case (TaskOp q)
    have a: "bg_allowed q m" "\<forall>i \<in> set (new_ids q). i \<notin> set found" using allowed by (simp_all add: TaskOp w)
    show ?thesis
      using bg_step_ok [of "set found" "(m, kv)" q] step_ghosts_ok [of "set found" "(m, kv)" q] keeps_step [of "set found" "(m, kv)" q] tok gok a
      by (simp add: life_ok_def TaskOp w)
  next
    case LoadRecords
    let ?m = "load_from_disk (list_tasks kv) m" and ?F = "set (found @ jkeys (bm_ghosts (load_from_disk (list_tasks kv) m)))"
    have in_keys: "j \<in> set (jkeys (bm_ghosts ?m)) \<longleftrightarrow> map_of (bm_ghosts ?m) j \<noteq> None" for j
      by (simp add: map_of_eq_None_iff)
    have "told_ok ?F ?m j" for j
    proof (cases "map_of (bm_tasks m) j")
      case None
      then show ?thesis using tok [of j] by (simp add: told_ok_def pending_def)
    next
      case (Some e)
      then have "j \<notin> set (jkeys (bm_ghosts ?m))" using load_ghost [of "list_tasks kv" m j] in_keys [of j] by auto
      then show ?thesis using tok [of j] Some by (simp add: told_ok_def pending_def)
    qed
    moreover have "ghosts_ok ?F ?m"
      unfolding ghosts_ok_def using load_ghost [of "list_tasks kv" m] in_keys by (metis (no_types) Un_iff option.distinct(1) set_append)
    ultimately show ?thesis by (simp add: life_ok_def LoadRecords w Let_def keeps_def)
  next
    case (ReconcileTasks now)
    then show ?thesis using reconcile_all_ok [OF tok gok] by (simp add: life_ok_def w bg_reconcile_def)
  next
    case (ReconcileSubagents now)
    obtain lost m1 where r: "bg_reconcile now m = (lost, m1)" by fastforce
    have m1: "told_ok (set found) m1 j" "ghosts_ok (set found) m1" "bm_tasks m1 = bm_tasks m" for j
      using reconcile_all_ok [OF tok gok, of now "jkeys (bm_ghosts m)"] r by (simp_all add: bg_reconcile_def)
    let ?m = "snd (reconcile_subagents now m)"
    have "told_ok (set found) ?m j \<and> ghosts_ok (set found) ?m \<and> bm_tasks ?m = bm_tasks m" for j
      using warned_ok [OF m1(1,2), where f = lost_subagent_warning] m1(3) r by (simp add: reconcile_subagents_def Let_def)
    then show ?thesis using ReconcileSubagents by (simp add: life_ok_def w)
  qed
qed

lemma life_runs_ok:
  "life_ok w \<Longrightarrow> life_runs ps w = Some w' \<Longrightarrow>
     life_ok w' \<and> keeps (fst (fst w)) (fst (fst w')) \<and> set (snd w) \<subseteq> set (snd w')"
proof (induction ps arbitrary: w)
  case (Cons p ps)
  from Cons.prems(2) have p: "life_allowed p w" "life_runs ps (life_step p w) = Some w'" by (simp_all split: if_splits)
  note step = life_step_ok [OF Cons.prems(1) p(1)]
  show ?case using step Cons.IH [OF conjunct1 [OF step] p(2)] keeps_trans by blast
qed simp

lemma told_own_at_most_once:
  "told_ok F m i \<Longrightarrow> i \<notin> F \<Longrightarrow> length (notices i (bm_effects m)) \<le> length (endings i (bm_effects m)) \<and> length (endings i (bm_effects m)) \<le> 1"
  by (auto simp: told_ok_def entry_ok_def split: option.splits if_splits)

text \<open>
  C19. The tasks a process starts or adopts itself, whatever is done with them, in whatever order their
  work, the stops and the writes of their records come, and however often records are loaded and
  reconciled in between: the end of a task is told at most once, and its notice no more often; a final
  status never changes again, and the task is never taken for one found on disk. Once a settled task
  waits for no write, its end was told, with that status; its notice was sent, unless it was suppressed
  or the session takes no notices; and nobody waits for it any more. A running task was told nothing of.
  (The tasks a former process left are another matter: see \<open>lost_task_told_twice\<close>.)
\<close>

theorem settled_once:
  assumes "life_runs ps ((fresh_manager steers persists has_store limit, kv0), []) = Some ((m, kv), found)"
    "life_runs qs ((m, kv), found) = Some ((m', kv'), found')"
  shows "(i \<notin> set found \<longrightarrow> length (notices i (bm_effects m)) \<le> length (endings i (bm_effects m)) \<and> length (endings i (bm_effects m)) \<le> 1) \<and>
    (\<forall>e. map_of (bm_tasks m) i = Some e \<longrightarrow>
       i \<notin> set found' \<and>
       (\<exists>e'. map_of (bm_tasks m') i = Some e' \<and> (is_terminal (mt_status e) \<longrightarrow> mt_status e' = mt_status e)) \<and>
       (\<not> pending i m \<longrightarrow>
          endings i (bm_effects m) = (if is_terminal (mt_status e) then [mt_status e] else []) \<and>
          (is_terminal (mt_status e) \<longrightarrow> mt_waiters e = []) \<and>
          (is_terminal (mt_status e) \<and> bm_steers m \<and> \<not> mt_suppressed e \<longrightarrow> length (notices i (bm_effects m)) = 1)))"
proof -
  have "life_ok ((fresh_manager steers persists has_store limit, kv0), [])"
    using fresh_ok by (simp add: life_ok_def ghosts_ok_def fresh_manager_def bg_attach_def new_manager_def)
  from life_runs_ok [OF this assms(1)] have ok: "life_ok ((m, kv), found)" by simp
  then have tok: "told_ok (set found) m i" by (simp add: life_ok_def)
  have after: "life_ok ((m', kv'), found')" "keeps m m'" using life_runs_ok [OF ok assms(2)] by simp_all
  have "i \<notin> set found'" if "map_of (bm_tasks m) i = Some e" for e
    using after that live_own [of "set found'" m' i] by (auto simp: life_ok_def keeps_def)
  then show ?thesis
    using after(2) told_own_at_most_once [OF tok] quiet_entry [OF tok] by (auto simp: keeps_def)
qed

definition sample_task :: new_task where
  "sample_task =
     \<lparr>nt_parent = None, nt_call = None, nt_description = ''build'', nt_timeout = None, nt_output = Some (FileRef ''/log''),
      nt_detail = ProcessDetail ''make'' None\<rparr>"

definition sample_life :: "bg_op list" where
  "sample_life =
     [OpRegister ''bash-1'' sample_task 1, OpWrite True, OpBegin ''bash-1'', OpWait ''bash-1'' 0 False, OpStop ''bash-1'' (Some ''enough''),
      OpSettle ''bash-1'' \<lparr>se_status = TKilled, se_reason = None\<rparr> 5, OpWrite True, OpSettled (''bash-1'', 2) 6,
      OpStopExpired ''bash-1'' None 7, OpSettle ''bash-1'' \<lparr>se_status = TCompleted, se_reason = None\<rparr> 8, OpWrite True]"

lemmas bg_eval = sample_life_def fresh_manager_def bg_attach_def new_manager_def bg_step_def next_write_def register_task_def
  assert_durable_output_def sample_task_def assert_can_register_def active_task_count_def enter_task_def new_entry_def watch_for_stall_def
  persist_live_def enqueue_persist_def put_task_def tell_def to_persisted_def to_info_def write_task_def empty_kv_def begin_work_def
  write_pending_def bg_wait_def bg_stop_def settle_begin_def settle_end_def resolve_waiters_def fire_terminal_effects_def
  steer_terminal_def is_suppressed_def steer_notice_def stamp_notification_queued_def stop_expired_def Let_def

text \<open>A task of this process, and one that a former process left, found twice and told again.\<close>

definition sample_mixed_life :: "life_op list" where
  "sample_mixed_life =
     [LoadRecords, ReconcileTasks 1] @ map TaskOp (OpWrite True # OpWrite True # sample_life) @ [LoadRecords, ReconcileTasks 20]"

lemmas life_eval = load_from_disk_def list_tasks_def read_task_def bg_reconcile_def reconcile_one_def mark_lost_def owes_notice_def
  sample_record_def map_filter_simps valid_record_iff named_output_def

lemma settled_once_witness:
  "\<exists>m kv e. life_runs sample_mixed_life ((fresh_manager True True True (Some 3), write_task (sample_record ''bash-0'' TRunning None) empty_kv), [])
       = Some ((m, kv), [''bash-0'', ''bash-0'']) \<and> \<not> pending ''bash-1'' m \<and>
     map_of (bm_tasks m) ''bash-1'' = Some e \<and> endings ''bash-1'' (bm_effects m) = [mt_status e] \<and>
     length (notices ''bash-1'' (bm_effects m)) = 1"
proof -
  obtain m kv where r: "life_runs sample_mixed_life
        ((fresh_manager True True True (Some 3), write_task (sample_record ''bash-0'' TRunning None) empty_kv), [])
      = Some ((m, kv), [''bash-0'', ''bash-0''])"
      and p: "\<not> pending ''bash-1'' m" and e: "\<exists>e. map_of (bm_tasks m) ''bash-1'' = Some e \<and> is_terminal (mt_status e) \<and> \<not> mt_suppressed e"
      and s: "bm_steers m"
    by (simp add: sample_mixed_life_def bg_eval life_eval pending_def)
  then show ?thesis using settled_once [OF r, of "[]" m kv _ "''bash-1''"] by auto
qed

end
