(* ===== verification/Background_Resend.thy ===== *)
theory Background_Resend
  imports Background_Life
begin

text \<open>
  What the store holds of the tasks of a process, and so what the next process tells: every task still running is
  told lost, and every notice that was sent and not read is sent again, once the writes have reached the store.
\<close>

section \<open>The newest record of a task\<close>

text \<open>The last record written under an id, in the queue or else in the store.\<close>

definition newest :: "string \<Rightarrow> persisted_task list \<Rightarrow> task_kv \<Rightarrow> persisted_task option" where
  "newest i ts kv = fold (\<lambda>t r. if ti_id (pt_info t) = i then Some t else r) ts (map_of (kv_tasks kv) i)"

lemma newest_append [bgs]:
  "newest i (ts @ [t]) kv = (if ti_id (pt_info t) = i then Some t else newest i ts kv)" "newest i [] kv = map_of (kv_tasks kv) i"
  by (simp_all add: newest_def)

lemma newest_write: "newest i ts (write_task t kv) = newest i (t # ts) kv"
  by (simp add: newest_def write_task_def eq_commute)

text \<open>What the record of a live task says of it.\<close>

definition records :: "managed_task \<Rightarrow> persisted_task \<Rightarrow> bool" where
  "records e t \<longleftrightarrow>
     ti_id (pt_info t) = mt_id e \<and> ti_status (pt_info t) = mt_status e \<and> pt_queued_at t = mt_queued_at e \<and>
     pt_notified_at t = mt_notified_at e \<and> pt_revision t = mt_revision e \<and> 1 \<le> mt_revision e \<and> ti_output (pt_info t) = mt_output e \<and>
     detail_kind (ti_detail (pt_info t)) = detail_kind (mt_detail e) \<and> fitting_output (mt_detail e) (mt_output e)"

lemma fitting_output_iff:
  "fitting_output d r \<longleftrightarrow>
     (case r of None \<Rightarrow> detail_kind d = ''question'' | Some (FileRef _) \<Rightarrow> detail_kind d \<in> {''process'', ''code''}
      | Some (ConversationRef _) \<Rightarrow> detail_kind d = ''agent'' | Some (WorkflowRef _) \<Rightarrow> detail_kind d = ''workflow'')"
  by (cases d) (auto split: option.split output_ref.split)

lemma fitting_output_kind: "detail_kind d = detail_kind d' \<Longrightarrow> fitting_output d r = fitting_output d' r"
  by (simp add: fitting_output_iff split: option.split output_ref.split)

definition recorded :: "background_manager \<Rightarrow> task_kv \<Rightarrow> string \<Rightarrow> bool" where
  "recorded m kv i \<longleftrightarrow>
     (case map_of (bm_tasks m) i of
        None \<Rightarrow> newest i (bm_writes m) kv = None
      | Some e \<Rightarrow> mt_id e = i \<and> (\<exists>t. newest i (bm_writes m) kv = Some t \<and> records e t) \<and>
          (mt_queued_at e \<noteq> None \<longleftrightarrow> notices i (bm_effects m) \<noteq> []))"

definition store_ok :: "background_manager \<Rightarrow> task_kv \<Rightarrow> bool" where
  "store_ok m kv \<longleftrightarrow> bm_steers m \<and> bm_persists m \<and> bm_ghosts m = [] \<and> (\<forall>i. recorded m kv i)"

lemma recordedI_same:
  assumes "recorded m kv j" "map_of (bm_tasks m') j = map_of (bm_tasks m) j" "newest j (bm_writes m') kv' = newest j (bm_writes m) kv"
    "notices j (bm_effects m') = notices j (bm_effects m)"
  shows "recorded m' kv' j"
  using assms unfolding recorded_def by (cases "map_of (bm_tasks m) j") simp_all

lemma store_okI:
  assumes "store_ok m kv" "bm_steers m' = bm_steers m" "bm_persists m' = bm_persists m" "bm_ghosts m' = bm_ghosts m" "\<And>j. recorded m' kv' j"
  shows "store_ok m' kv'"
  using assms by (simp add: store_ok_def)

lemma store_rec: "store_ok m kv \<Longrightarrow> recorded m kv j"
  by (simp add: store_ok_def)

lemma store_id: "store_ok m kv \<Longrightarrow> map_of (bm_tasks m) i = Some e \<Longrightarrow> mt_id e = i"
  unfolding store_ok_def recorded_def by (metis (mono_tags, lifting) option.simps(5))

lemma store_records:
  assumes "store_ok m kv" "map_of (bm_tasks m) i = Some e"
  shows "\<exists>t. newest i (bm_writes m) kv = Some t \<and> records e t" "mt_queued_at e \<noteq> None \<longleftrightarrow> notices i (bm_effects m) \<noteq> []"
proof -
  have "recorded m kv i" using assms(1) by (simp add: store_ok_def)
  then show "\<exists>t. newest i (bm_writes m) kv = Some t \<and> records e t" "mt_queued_at e \<noteq> None \<longleftrightarrow> notices i (bm_effects m) \<noteq> []"
    using assms(2) by (simp_all add: recorded_def)
qed

text \<open>A change the record does not show, one that is written, and the telling of an end.\<close>

definition unrecorded :: "managed_task \<Rightarrow> managed_task \<Rightarrow> bool" where
  "unrecorded e e' \<longleftrightarrow>
     mt_id e' = mt_id e \<and> mt_status e' = mt_status e \<and> mt_queued_at e' = mt_queued_at e \<and> mt_notified_at e' = mt_notified_at e \<and>
     mt_revision e' = mt_revision e \<and> mt_output e' = mt_output e \<and> detail_kind (mt_detail e') = detail_kind (mt_detail e)"

lemma records_unrecorded: "unrecorded e e' \<Longrightarrow> records e t \<Longrightarrow> records e' t"
  using fitting_output_kind [of "mt_detail e'" "mt_detail e"] by (simp add: unrecorded_def records_def)

lemma put_store_ok:
  assumes ok: "store_ok m kv" and e: "map_of (bm_tasks m) i = Some e" and un: "unrecorded e e'"
  shows "store_ok (put_task e' m) kv"
proof (rule store_okI [OF ok])
  have id: "mt_id e' = i" using un store_id [OF ok e] by (simp add: unrecorded_def)
  obtain t where t: "newest i (bm_writes m) kv = Some t" "records e t" using store_records(1) [OF ok e] by blast
  show "recorded (put_task e' m) kv j" for j
  proof (cases "j = i")
    case True
    have "mt_queued_at e' \<noteq> None \<longleftrightarrow> notices i (bm_effects m) \<noteq> []" using store_records(2) [OF ok e] un by (simp add: unrecorded_def)
    then show ?thesis using True t records_unrecorded [OF un t(2)] by (simp add: recorded_def bgs id)
  next
    case False
    then show ?thesis by (intro recordedI_same [OF store_rec [OF ok]]) (simp_all add: bgs id)
  qed
qed (simp_all add: bgs)

lemma records_written:
  assumes "bm_persists m" "fitting_output (mt_detail e) (mt_output e)" shows "records (bumped m e) (to_persisted (bumped m e))"
  using assms by (simp add: records_def to_persisted_def to_info_def bumped_def)

lemma persist_store_ok:
  assumes ok: "store_ok m kv" and fits: "fitting_output (mt_detail e') (mt_output e')"
    and queued: "mt_queued_at e' \<noteq> None \<longleftrightarrow> notices (mt_id e') (bm_effects m) \<noteq> []"
  shows "store_ok (persist_live e' m) kv"
proof (rule store_okI [OF ok])
  have p: "bm_persists m" using ok by (simp add: store_ok_def)
  show "recorded (persist_live e' m) kv j" for j
  proof (cases "j = mt_id e'")
    case True
    then show ?thesis using records_written [OF p fits] queued
      by (simp add: recorded_def bgs p to_persisted_def)
  next
    case False
    then show ?thesis by (intro recordedI_same [OF store_rec [OF ok]]) (simp_all add: bgs p to_persisted_def)
  qed
qed (simp_all add: bgs)

lemma tell_store_ok:
  assumes "store_ok m kv" "notice_of x = None" shows "store_ok (tell x m) kv"
proof (rule store_okI [OF assms(1)])
  have "notices j (bm_effects (tell x m)) = notices j (bm_effects m)" for j
    using assms(2) by (simp add: tell_def notices_append(1)) (simp add: notices_def)
  then show "recorded (tell x m) kv j" for j 
    by (intro recordedI_same [OF store_rec [OF assms(1)]]) (simp_all add: bgs)
qed (simp_all add: bgs)

lemma fits_output: "store_ok m kv \<Longrightarrow> map_of (bm_tasks m) i = Some e \<Longrightarrow> fitting_output (mt_detail e) (mt_output e)"
  using store_records(1) by (fastforce simp: records_def)

lemma fire_store_ok:
  assumes ok: "store_ok m kv" and e: "map_of (bm_tasks m) i = Some e"
  shows "store_ok (fire_terminal_effects e now m) kv"
proof (cases "mt_fired e")
  case True
  then show ?thesis using ok by (simp add: fire_told)
next
  case False
  have id: "mt_id e = i" by (rule store_id [OF ok e])
  let ?e = "e\<lparr>mt_fired := True\<rparr>" let ?n = "terminal_notice (to_info ?e)"
  let ?m1 = "tell (TaskTerminated (to_info ?e)) (put_task ?e m)"
  have m1: "store_ok ?m1 kv" by (intro tell_store_ok put_store_ok [OF ok e]) (simp_all add: unrecorded_def)
  have live: "map_of (bm_tasks ?m1) i = Some ?e" by (simp add: bgs id)
  have p: "bm_steers ?m1" "bm_persists ?m1" using ok by (simp_all add: store_ok_def bgs)
  have fire: "fire_terminal_effects e now m =
      (if mt_suppressed e then ?m1 else stamp_notification_queued i now (tell (Noticed (fst ?n) (snd ?n)) ?m1))"
    using False live p id by (simp add: fire_terminal_effects_def Let_def steer_terminal_def is_suppressed_def steer_notice_def bgs)
  have stamp: "stamp_notification_queued i now (tell (Noticed (fst ?n) (snd ?n)) ?m1) =
      tell (Noticed (fst ?n) (snd ?n)) (persist_live (?e\<lparr>mt_queued_at := Some now\<rparr>) ?m1)"
    using live p by (simp add: stamp_live bgs) (simp add: persist_live_def enqueue_persist_def put_task_def tell_def Let_def)
  have "store_ok (tell (Noticed (fst ?n) (snd ?n)) (persist_live (?e\<lparr>mt_queued_at := Some now\<rparr>) ?m1)) kv"
  proof (rule store_okI [OF m1])
    have fits: "fitting_output (mt_detail (?e\<lparr>mt_queued_at := Some now\<rparr>)) (mt_output (?e\<lparr>mt_queued_at := Some now\<rparr>))"
      using fits_output [OF ok e] by simp
    show "recorded (tell (Noticed (fst ?n) (snd ?n)) (persist_live (?e\<lparr>mt_queued_at := Some now\<rparr>) ?m1)) kv j" for j
    proof (cases "j = i")
      case True
      then show ?thesis using records_written [OF p(2) fits] p
        by (simp add: recorded_def bgs id to_persisted_def)
    next
      case False
      then show ?thesis using p
        by (intro recordedI_same [OF store_rec [OF m1]]) (simp_all add: bgs to_persisted_def id)
    qed
  qed (simp_all add: bgs)
  then show ?thesis using m1 by (simp add: fire stamp)
qed

lemma resolve_store_ok:
  assumes ok: "store_ok m kv" shows "store_ok (resolve_waiters i m) kv"
proof (cases "map_of (bm_tasks m) i")
  case None
  then show ?thesis using ok by (simp add: resolve_waiters_def)
next
  case (Some e)
  have "store_ok (put_task (e\<lparr>mt_waiters := []\<rparr>) m) kv" by (rule put_store_ok [OF ok Some]) (simp add: unrecorded_def)
  then have "store_ok (fold (\<lambda>w. tell (Woke w)) ws (put_task (e\<lparr>mt_waiters := []\<rparr>) m)) kv" for ws
  proof (induction ws rule: rev_induct)
    case (snoc w ws)
    then show ?case using tell_store_ok by simp
  qed simp
  then show ?thesis by (simp add: resolve_waiters_def Some)
qed

lemma settling_store_ok [simp]: "store_ok (m\<lparr>bm_settling := x\<rparr>) kv = store_ok m kv" "store_ok (m\<lparr>bm_starting := y\<rparr>) kv = store_ok m kv"
  by (simp_all add: store_ok_def recorded_def cong: option.case_cong)

lemma settle_begin_store_ok:
  assumes ok: "store_ok m kv" and tok: "\<And>j. task_ok m j"
  shows "store_ok (snd (settle_begin i se now m)) kv"
proof (cases "map_of (bm_tasks m) i")
  case None
  then show ?thesis using ok by (simp add: settle_begin_def)
next
  case (Some e)
  have id: "mt_id e = i" by (rule store_id [OF ok Some])
  show ?thesis
  proof (cases "is_terminal (mt_status e)")
    case True
    define e' where "e' = e\<lparr>mt_watched := False, mt_ended := Some (max now (or_else (mt_ended e) 0 + 1))\<rparr>"
    have "store_ok (put_task e' m) kv" by (rule put_store_ok [OF ok Some]) (simp add: e'_def unrecorded_def)
    then have "store_ok (resolve_waiters i (fire_terminal_effects e' now (put_task e' m))) kv"
      by (intro resolve_store_ok fire_store_ok [where i = i]) (simp_all add: bgs, simp add: e'_def id)
    moreover have "store_ok (put_task (e\<lparr>mt_watched := False\<rparr>) m) kv" by (rule put_store_ok [OF ok Some]) (simp add: unrecorded_def)
    ultimately show ?thesis using Some True by (auto simp: settle_begin_def Let_def e'_def)
  next
    case False
    define e' where "e' = e\<lparr>mt_watched := False, mt_status := se_status se, mt_ended := Some now,
      mt_reason := (case se_reason se of Some r \<Rightarrow> Some r | None \<Rightarrow> if se_status se = TKilled then mt_reason e else None)\<rparr>"
    have "store_ok (persist_live e' m) kv"
      by (rule persist_store_ok [OF ok]) (use fits_output [OF ok Some] store_records(2) [OF ok Some] in \<open>simp_all add: e'_def id\<close>)
    moreover have "snd (settle_begin i se now m) = (persist_live e' m)\<lparr>bm_settling := bm_settling m @ [(i, mt_revision (bumped m e'))]\<rparr>"
      using False id by (cases "se_reason se") (simp_all add: settle_begin_def Some Let_def bgs e'_def)
    ultimately show ?thesis by simp
  qed
qed

lemma enter_store_ok:
  assumes ok: "store_ok m kv" and tok: "task_ok m i" and new: "map_of (bm_tasks m) i = None" and fits: "fitting_output (nt_detail t) (nt_output t)"
  shows "store_ok (enter_task (new_entry i t now aborted) m) kv"
proof -
  let ?e = "new_entry i t now aborted"
  have e: "mt_id ?e = i" "mt_queued_at ?e = None" "mt_detail ?e = nt_detail t" "mt_output ?e = nt_output t" by (simp_all add: new_entry_def)
  have none: "notices i (bm_effects m) = []" using tok new by (simp add: task_ok_def)
  let ?m = "tell (TaskStarted (to_info ?e)) (persist_live ?e m)"
  have ok': "store_ok ?m kv" by (intro tell_store_ok persist_store_ok [OF ok]) (simp_all add: e fits none)
  then have "store_ok (watch_for_stall i ?m) kv"
    unfolding watch_for_stall_def
    by (auto split: option.split task_detail.split output_ref.split intro!: put_store_ok [OF ok'] simp: unrecorded_def)
  then show ?thesis by (simp add: enter_task_def e)
qed

lemma stop_store_ok: "store_ok m kv \<Longrightarrow> store_ok (bg_stop i reason m) kv"
  unfolding bg_stop_def by (auto split: option.split intro!: put_store_ok simp: unrecorded_def)

lemma stop_all_store_ok: "store_ok m kv \<Longrightarrow> store_ok (stop_all reason m) kv"
proof -
  have "store_ok m kv \<Longrightarrow> store_ok (fold (\<lambda>i. bg_stop i reason) is m) kv" for "is"
    by (induction "is" arbitrary: m) (simp_all add: stop_store_ok)
  then show "store_ok m kv \<Longrightarrow> store_ok (stop_all reason m) kv" by (simp add: stop_all_def)
qed

lemma notified_store_ok:
  assumes ok: "store_ok m kv" shows "store_ok (stamp_notified i now m) kv"
proof (cases "map_of (bm_tasks m) i")
  case None
  then show ?thesis using ok by (simp add: stamp_notified_def store_ok_def)
next
  case (Some e)
  have "store_ok (persist_live (e\<lparr>mt_notified_at := Some now\<rparr>) m) kv"
    by (rule persist_store_ok [OF ok]) (use fits_output [OF ok Some] store_records(2) [OF ok Some] store_id [OF ok Some] in simp_all)
  then show ?thesis using ok Some by (simp add: stamp_notified_def)
qed

lemma apply_store_ok:
  assumes ok: "store_ok m kv" and tok: "\<And>j. task_ok m j" and allowed: "bg_allowed p m"
  shows "store_ok (bg_apply p m) kv"
proof (cases p)
  case (OpRegister i t now)
  then show ?thesis using ok allowed enter_store_ok [OF ok tok]
    by (auto simp: register_task_def Let_def assert_durable_output_def split: option.split)
next
  case (OpAdopt i t aborted now)
  then show ?thesis using ok allowed enter_store_ok [OF ok tok]
    by (auto simp: adopt_running_def Let_def assert_durable_output_def split: option.split)
next
  case (OpSettled p now)
  have "store_ok (resolve_waiters (fst p) (fire_terminal_effects e now m)) kv" if "map_of (bm_tasks m) (fst p) = Some e" for e
    by (intro resolve_store_ok fire_store_ok [OF ok that])
  then show ?thesis using OpSettled ok by (simp add: settle_end_def Let_def apart split: option.split)
next
  case (OpStopExpired i reason now)
  then show ?thesis using ok settle_begin_store_ok [OF ok tok] by (simp add: stop_expired_def split: option.split)
qed (use ok settle_begin_store_ok [OF ok tok] stop_store_ok [OF ok] stop_all_store_ok [OF ok] notified_store_ok [OF ok] in
  \<open>auto simp: begin_work_def task_reports_def bg_wait_def wait_given_up_def suppress_terminal_notification_def unrecorded_def
    split: option.split intro!: put_store_ok\<close>)

section \<open>The store\<close>

definition kv_ok :: "task_kv \<Rightarrow> bool" where
  "kv_ok kv \<longleftrightarrow> distinct (kv_index kv) \<and> set (kv_index kv) = dom (map_of (kv_tasks kv)) \<and>
     (\<forall>i t. map_of (kv_tasks kv) i = Some t \<longrightarrow> ti_id (pt_info t) = i)"

lemma kv_ok_write: "kv_ok kv \<Longrightarrow> kv_ok (write_task t kv)"
  by (auto simp: kv_ok_def write_task_def dom_def split: if_splits)

lemma empty_kv_ok: "kv_ok empty_kv"
  by (simp add: kv_ok_def empty_kv_def)

lemma runs_store_ok:
  assumes "store_ok (fst w) (snd w)" "\<And>j. task_ok (fst w) j" "kv_ok (snd w)" "OpWrite False \<notin> set ps" "bg_runs ps w = Some w'"
  shows "store_ok (fst w') (snd w') \<and> kv_ok (snd w')"
  using assms
proof (induction ps arbitrary: w)
  case (Cons p ps)
  from Cons.prems(5) have p: "bg_allowed p (fst w)" "bg_runs ps (bg_step p w) = Some w'" by (simp_all split: if_splits)
  have "store_ok (fst (bg_step p w)) (snd (bg_step p w)) \<and> kv_ok (snd (bg_step p w))"
  proof (cases p)
    case (OpWrite b)
    have b: b using Cons.prems(4) OpWrite by (cases b) auto
    obtain m kv where w: "w = (m, kv)" by (cases w)
    show ?thesis
    proof (cases "bm_writes m")
      case Nil
      then show ?thesis using Cons.prems(1,3) by (simp add: bg_step_def OpWrite next_write_def w)
    next
      case (Cons t ts)
      have "recorded (m\<lparr>bm_writes := ts\<rparr>) (write_task t kv) j" for j
        by (rule recordedI_same [OF store_rec [OF Cons.prems(1)]]) (simp_all add: w Cons newest_write)
      then have "store_ok (m\<lparr>bm_writes := ts\<rparr>) (write_task t kv)" using Cons.prems(1) by (simp add: store_ok_def w)
      then show ?thesis using Cons.prems(3) kv_ok_write by (simp add: bg_step_def OpWrite next_write_def w Cons b)
    qed
  qed (use apply_store_ok [OF Cons.prems(1,2) p(1)] Cons.prems(3) in \<open>simp_all add: bg_step_def\<close>)
  then show ?case using Cons.prems(4) p(2) bg_step_ok [OF Cons.prems(2) p(1)] by (intro Cons.IH) auto
qed simp

lemma fresh_store_ok: "store_ok (fresh_manager True True has_store limit) empty_kv"
  by (simp add: store_ok_def recorded_def fresh_manager_def bg_attach_def new_manager_def newest_def empty_kv_def)

section \<open>The next process\<close>

lemma load_from_disk_ghosts:
  assumes "kv_ok kv"
  shows "map_of (bm_ghosts (load_from_disk (list_tasks kv) (fresh_manager True True has_store limit))) i = read_task i kv"
    "jmap_ok (bm_ghosts (load_from_disk (list_tasks kv) (fresh_manager True True has_store limit)))"
proof -
  have id: "read_task j kv = Some t \<Longrightarrow> ti_id (pt_info t) = j" for j t
    using assms by (auto simp: kv_ok_def read_task_def split: option.splits if_splits)
  have fold: "map_of (fold (\<lambda>t. jset (ti_id (pt_info t)) t) (List.map_filter (\<lambda>j. read_task j kv) js) m0) i =
      (if i \<in> set js \<and> read_task i kv \<noteq> None then read_task i kv else map_of m0 i)" for js m0
    using id by (induction js arbitrary: m0) (auto simp: map_filter_simps split: option.split)
  have ok: "jmap_ok m0 \<Longrightarrow> jmap_ok (fold (\<lambda>t. jset (ti_id (pt_info t)) t) ts m0)" for ts and m0 :: "(string, persisted_task) jsmap"
    by (induction ts arbitrary: m0) simp_all
  have ghosts: "bm_ghosts (load_from_disk (list_tasks kv) (fresh_manager True True has_store limit)) =
      fold (\<lambda>t. jset (ti_id (pt_info t)) t) (List.map_filter (\<lambda>j. read_task j kv) (kv_index kv)) []"
    by (simp add: load_from_disk_def fresh_manager_def bg_attach_def new_manager_def list_tasks_def)
  show "map_of (bm_ghosts (load_from_disk (list_tasks kv) (fresh_manager True True has_store limit))) i = read_task i kv"
    using assms unfolding ghosts fold by (auto simp: kv_ok_def read_task_def split: option.splits)
  show "jmap_ok (bm_ghosts (load_from_disk (list_tasks kv) (fresh_manager True True has_store limit)))"
    unfolding ghosts by (rule ok) simp
qed

lemma loaded_reopened:
  assumes "kv_ok kv"
  shows "reopened (load_from_disk (list_tasks kv) (fresh_manager True True has_store limit))"
proof -
  have "bm_tasks (load_from_disk x (fresh_manager True True has_store limit)) = []" "bm_steers (load_from_disk x (fresh_manager True True has_store limit))"
    "bm_persists (load_from_disk x (fresh_manager True True has_store limit))" for x
    by (simp_all add: load_from_disk_def fresh_manager_def bg_attach_def new_manager_def)
  then show ?thesis using assms load_from_disk_ghosts [OF assms]
    by (auto simp: reopened_def kv_ok_def read_task_def split: option.splits if_splits)
qed

lemma told_of_other_id:
  assumes "reopened m" "j \<noteq> i" shows "notices i (told_of now j m) = []" "endings i (told_of now j m) = []"
proof -
  have "ti_id (pt_info g) = j" if "map_of (bm_ghosts m) j = Some g" for g using assms(1) that by (simp add: reopened_def)
  then show "notices i (told_of now j m) = []" "endings i (told_of now j m) = []"
    using assms(2) by (auto simp: told_of_def Let_def bgs lost_notice_def unconfirmed_notice_def settle_origin_def mark_lost_def
        split: option.split prod.split)
qed

lemma told_under_id:
  assumes "reopened m" "distinct ks"
  shows "notices i (concat (map (\<lambda>j. told_of now j m) ks)) = (if i \<in> set ks then notices i (told_of now i m) else [])"
    "endings i (concat (map (\<lambda>j. told_of now j m) ks)) = (if i \<in> set ks then endings i (told_of now i m) else [])"
proof -
  have "notices i (concat (map (\<lambda>j. told_of now j m) ks)) = (if i \<in> set ks then notices i (told_of now i m) else []) \<and>
    endings i (concat (map (\<lambda>j. told_of now j m) ks)) = (if i \<in> set ks then endings i (told_of now i m) else [])"
    using assms(2)
  proof (induction ks)
    case (Cons j ks)
    then show ?case using told_of_other_id [OF assms(1), of j i] by (cases "j = i") (auto simp: bgs)
  qed (simp add: bgs)
  then show "notices i (concat (map (\<lambda>j. told_of now j m) ks)) = (if i \<in> set ks then notices i (told_of now i m) else [])"
    "endings i (concat (map (\<lambda>j. told_of now j m) ks)) = (if i \<in> set ks then endings i (told_of now i m) else [])" by simp_all
qed

text \<open>
  C20. If a process ends after its writes have reached the store, the next process, which loads the records and
  reconciles, tells of each task of it what is due, and no more: a task that was still running is told lost, once;
  a settled task whose notice was sent and not read gets it once again; and a task whose notice was read, or never
  sent, gets none.
\<close>

theorem told_but_unread_is_resent:
  assumes "bg_runs ps (fresh_manager True True has_store limit, empty_kv) = Some (m, kv)" "OpWrite False \<notin> set ps" "bm_writes m = []"
    "map_of (bm_tasks m) i = Some e" "i \<noteq> []" "named_output (mt_output e)"
  shows "let xs = bm_effects (snd (bg_reconcile now (load_from_disk (list_tasks kv) (fresh_manager True True has_store' limit')))) in
    endings i xs = (if mt_status e = TRunning then [TLost] else []) \<and>
    length (notices i xs) = (if mt_status e = TRunning \<or> (notices i (bm_effects m) \<noteq> [] \<and> mt_notified_at e = None) then 1 else 0)"
proof -
  let ?m = "load_from_disk (list_tasks kv) (fresh_manager True True has_store' limit')"
  have "store_ok m kv \<and> kv_ok kv" using runs_store_ok [OF _ _ _ assms(2,1)] fresh_store_ok fresh_ok empty_kv_ok by simp
  then have ok: "store_ok m kv" "kv_ok kv" by simp_all
  obtain t where t: "map_of (kv_tasks kv) i = Some t" "records e t"
    using store_records(1) [OF ok(1) assms(4)] by (auto simp: assms(3) newest_def)
  have "fitting_output (ti_detail (pt_info t)) (ti_output (pt_info t))"
    using t(2) fitting_output_kind [of "ti_detail (pt_info t)" "mt_detail e"] by (simp add: records_def)
  then have "is_valid_persisted_task (persisted_json t)"
    using t(2) assms(5,6) store_id [OF ok(1) assms(4)] unfolding valid_record_iff by (simp add: records_def)
  then have g: "map_of (bm_ghosts ?m) i = Some t" using t(1) by (simp add: load_from_disk_ghosts(1) [OF ok(2)] read_task_def)
  have re: "reopened ?m" by (rule loaded_reopened [OF ok(2)])
  have fresh: "bm_effects ?m = []" "bm_redelivered ?m = []" by (simp_all add: load_from_disk_def fresh_manager_def bg_attach_def new_manager_def)
  have i: "i \<in> set (jkeys (bm_ghosts ?m))" using g by (auto dest: map_of_SomeD intro: rev_image_eqI)
  have id: "ti_id (pt_info t) = i" using t(2) store_id [OF ok(1) assms(4)] by (simp add: records_def)
  note told = told_under_id [OF re load_from_disk_ghosts(2) [OF ok(2)]]
  define n where "n = bm_has_store ?m"
  have one: "told_of now i ?m =
      (if ti_status (pt_info t) = TRunning
       then [TaskTerminated (pt_info (mark_lost now t)), Noticed (fst (lost_notice (pt_info (mark_lost now t)))) (snd (lost_notice (pt_info (mark_lost now t))))]
       else if owes_notice t then [Noticed (fst (unconfirmed_notice n (pt_info t))) (snd (unconfirmed_notice n (pt_info t)))] else [])"
    by (simp add: told_of_def g fresh Let_def n_def)
  have "endings i (told_of now i ?m) = (if mt_status e = TRunning then [TLost] else [])"
    "length (notices i (told_of now i ?m)) = (if mt_status e = TRunning \<or> (mt_queued_at e \<noteq> None \<and> mt_notified_at e = None) then 1 else 0)"
    using t(2) id unfolding one
    by (auto simp: Let_def bgs records_def owes_notice_def mark_lost_def lost_notice_def unconfirmed_notice_def settle_origin_def split: prod.split)
  moreover have "endings i (bm_effects (snd (bg_reconcile now ?m))) = endings i (told_of now i ?m)"
    "notices i (bm_effects (snd (bg_reconcile now ?m))) = notices i (told_of now i ?m)"
    unfolding reconcile_effects(1) [OF re] endings_append notices_append fresh told using i by simp_all
  ultimately show ?thesis using store_records(2) [OF ok(1) assms(4)] by (simp add: Let_def)
qed

lemma told_but_unread_is_resent_witness:
  "\<exists>m kv. bg_runs sample_life (fresh_manager True True True (Some 3), empty_kv) = Some (m, kv) \<and>
     length (notices ''bash-1'' (bm_effects (snd (bg_reconcile 20 (load_from_disk (list_tasks kv) (fresh_manager True True True None)))))) = 1"
proof -
  obtain m kv where r: "bg_runs sample_life (fresh_manager True True True (Some 3), empty_kv) = Some (m, kv)"
      and p: "bm_writes m = []" and e: "\<exists>e. map_of (bm_tasks m) ''bash-1'' = Some e \<and> mt_output e = Some (FileRef ''/log'') \<and> mt_notified_at e = None"
      and n: "notices ''bash-1'' (bm_effects m) \<noteq> []"
    by (simp add: bg_eval notices_def terminal_notice_def settle_origin_def settle_identity_def)
  obtain e where e: "map_of (bm_tasks m) ''bash-1'' = Some e" "mt_output e = Some (FileRef ''/log'')" "mt_notified_at e = None" using e by blast
  have w: "OpWrite False \<notin> set sample_life" by (simp add: sample_life_def)
  have out: "named_output (mt_output e)" by (simp add: e(2) named_output_def)
  from told_but_unread_is_resent [OF r w p e(1) _ out, of 20 True None] show ?thesis using r n e(3) by (auto simp: Let_def)
qed

text \<open>
  A process that ends between the write of the final record and the write of the stamp that the notice was sent
  leaves a record with neither stamp. The next process takes it for the record of a suppressed settlement and sends
  nothing, while the notice itself was only in the memory of the process.
\<close>

definition crash_life :: "bg_op list" where
  "crash_life =
     [OpRegister ''bash-1'' sample_task 1, OpWrite True, OpBegin ''bash-1'', OpSettle ''bash-1'' \<lparr>se_status = TCompleted, se_reason = None\<rparr> 5,
      OpWrite True, OpSettled (''bash-1'', 2) 6]"

lemma notice_lost_before_stamp:
  "\<exists>m kv. bg_runs crash_life (fresh_manager True True True None, empty_kv) = Some (m, kv) \<and>
     length (notices ''bash-1'' (bm_effects m)) = 1 \<and> length (bm_writes m) = 1 \<and>
     bm_effects (snd (bg_reconcile 20 (load_from_disk (list_tasks kv) (fresh_manager True True True None)))) = []"
proof -
  obtain m kv where r: "bg_runs crash_life (fresh_manager True True True None, empty_kv) = Some (m, kv)"
      and n: "length (notices ''bash-1'' (bm_effects m)) = 1" "length (bm_writes m) = 1"
      and l: "length (kv_index kv) = 1" "\<exists>t. map_of (kv_tasks kv) (hd (kv_index kv)) = Some t \<and> ti_status (pt_info t) = TCompleted \<and> pt_queued_at t = None"
    by (simp add: crash_life_def bg_eval notices_def terminal_notice_def settle_origin_def settle_identity_def)
  obtain t where t: "map_of (kv_tasks kv) (hd (kv_index kv)) = Some t" "ti_status (pt_info t) = TCompleted" "pt_queued_at t = None" using l(2) by blast
  obtain i where i: "kv_index kv = [i]" using l(1) by (cases "kv_index kv") auto
  have "kv_ok kv" using runs_store_ok [OF _ _ _ _ r] fresh_store_ok fresh_ok empty_kv_ok by (simp add: crash_life_def)
  note re = loaded_reopened [OF this, of True None] and g = load_from_disk_ghosts [OF this, of True None]
  have "told_of 20 j (load_from_disk (list_tasks kv) (fresh_manager True True True None)) = []" for j
  proof (cases "j = i")
    case True
    then show ?thesis using t i by (simp add: told_of_def g read_task_def owes_notice_def)
  next
    case False
    have "dom (map_of (kv_tasks kv)) = {i}" using \<open>kv_ok kv\<close> i by (simp add: kv_ok_def)
    with False have "map_of (kv_tasks kv) j = None" by (auto simp: dom_def)
    then show ?thesis by (simp add: told_of_def g read_task_def)
  qed
  then show ?thesis using r n reconcile_effects(1) [OF re, of 20]
    by (simp add: load_from_disk_def fresh_manager_def bg_attach_def new_manager_def)
qed

end
