(* ===== verification/Byte_Window.thy ===== *)
theory Byte_Window
  imports Agent_Prelude "HOL-Library.Word"
begin

text \<open>
  Byte windows over text (\<open>agents-core/src/capabilities/background/manager.ts\<close>): the alignment of a
  window to whole UTF-8 characters, the reads of a task's output that use it, and the follower of a
  growing file. A file is the bytes it holds; the content of a read is given as bytes too. The reference
  is the encoding of a list of code points.
\<close>

unbundle bit_operations_syntax

type_synonym byte = "8 word"

section \<open>Alignment\<close>

definition utf8_continuation_byte :: "byte \<Rightarrow> bool" where
  "utf8_continuation_byte b \<longleftrightarrow> (b AND 0xC0) = 0x80"

definition utf8_sequence_length :: "byte \<Rightarrow> nat" where
  "utf8_sequence_length b =
     (if (b AND 0x80) = 0 then 1
      else if (b AND 0xE0) = 0xC0 then 2
      else if (b AND 0xF0) = 0xE0 then 3
      else if (b AND 0xF8) = 0xF0 then 4
      else 1)"

definition utf8_align_start :: "byte list \<Rightarrow> nat" where
  "utf8_align_start buf = length (takeWhile utf8_continuation_byte (take 3 buf))"

fun align_back :: "byte list \<Rightarrow> nat list \<Rightarrow> nat" where
  "align_back buf [] = length buf"
| "align_back buf (back # rest) =
     (let start = length buf - back; b = buf ! start in
      if utf8_continuation_byte b then align_back buf rest
      else if utf8_sequence_length b > back then start else length buf)"

definition utf8_align_end :: "byte list \<Rightarrow> nat" where
  "utf8_align_end buf = align_back buf [1..<Suc (min 3 (length buf))]"

section \<open>Reads\<close>

record output_snapshot =
  os_content :: "byte list"
  os_size :: nat
  os_content_bytes :: nat
  os_truncated :: bool

definition empty_output_snapshot :: output_snapshot where
  "empty_output_snapshot = \<lparr>os_content = [], os_size = 0, os_content_bytes = 0, os_truncated = False\<rparr>"

text \<open>\<open>Math.max(0, Math.trunc(n))\<close> of a bound given as an integer.\<close>

definition byte_limit :: "int \<Rightarrow> nat" where
  "byte_limit n = nat (max 0 n)"

definition text_snapshot :: "byte list \<Rightarrow> int \<Rightarrow> output_snapshot" where
  "text_snapshot full max_bytes =
     (let window = take (min (byte_limit max_bytes) (length full)) full;
          aligned = take (utf8_align_end window) window
      in \<lparr>os_content = aligned, os_size = length full, os_content_bytes = length aligned, os_truncated = length full > length aligned\<rparr>)"

text \<open>\<^const>\<open>None\<close> is a file that is gone or cannot be reached.\<close>

definition tail_file_snapshot :: "byte list option \<Rightarrow> nat \<Rightarrow> output_snapshot" where
  "tail_file_snapshot file max_bytes =
     (case file of
        None \<Rightarrow> empty_output_snapshot
      | Some bs \<Rightarrow>
          let size = length bs; window = min max_bytes size in
          if window = 0 then \<lparr>os_content = [], os_size = size, os_content_bytes = 0, os_truncated = size > 0\<rparr>
          else let bytes = drop (size - window) bs; aligned = drop (utf8_align_start bytes) bytes
               in \<lparr>os_content = aligned, os_size = size, os_content_bytes = length aligned, os_truncated = size > length aligned\<rparr>)"

text \<open>\<open>readOutputDelta\<close> of a file-backed task: the content and the next cursor.\<close>

definition output_delta :: "byte list option \<Rightarrow> int \<Rightarrow> int \<Rightarrow> byte list \<times> nat" where
  "output_delta file cursor max_bytes =
     (let start = byte_limit cursor in
      case file of
        None \<Rightarrow> ([], start)
      | Some bs \<Rightarrow>
          let bytes = take (byte_limit max_bytes) (drop start bs); whole = take (utf8_align_end bytes) bytes
          in (whole, start + length whole))"

section \<open>The follower\<close>

text \<open>
  \<open>followOutputFile\<close>: one pass at a time. The decoder keeps the bytes of an unfinished character. A pass
  sees the file as it is then, or fails.
\<close>

record follower =
  fo_offset :: nat
  fo_quiet :: bool
  fo_interval :: nat
  fo_pending :: "byte list"
  fo_emitted :: "byte list"
  fo_stopped :: bool

definition follow_interval_ms :: nat where
  "follow_interval_ms = 1000"

definition follow_quiet_max_interval_ms :: nat where
  "follow_quiet_max_interval_ms = 5000"

definition new_follower :: "nat \<Rightarrow> follower" where
  "new_follower base =
     \<lparr>fo_offset = 0, fo_quiet = False, fo_interval = base, fo_pending = [], fo_emitted = [], fo_stopped = False\<rparr>"

definition max_interval :: "nat \<Rightarrow> nat option \<Rightarrow> nat" where
  "max_interval base quiet_max = max base (case quiet_max of Some n \<Rightarrow> n | None \<Rightarrow> follow_quiet_max_interval_ms)"

definition back_off :: "nat \<Rightarrow> follower \<Rightarrow> follower" where
  "back_off quietest f = f\<lparr>fo_quiet := True, fo_interval := min (fo_interval f * 2) quietest\<rparr>"

text \<open>\<open>StringDecoder.write\<close>: the whole characters, the rest being kept.\<close>

definition decode_more :: "byte list \<Rightarrow> follower \<Rightarrow> follower" where
  "decode_more bytes f =
     (let buf = fo_pending f @ bytes; n = utf8_align_end buf
      in f\<lparr>fo_pending := drop n buf, fo_emitted := fo_emitted f @ take n buf\<rparr>)"

definition follow_pass :: "nat \<Rightarrow> nat \<Rightarrow> bool \<Rightarrow> byte list option \<Rightarrow> follower \<Rightarrow> follower" where
  "follow_pass base quietest probe file f =
     (case file of
        None \<Rightarrow> back_off quietest f
      | Some bs \<Rightarrow>
          if probe \<and> length bs \<le> fo_offset f then back_off quietest f
          else let bytes = drop (fo_offset f) bs in
            if bytes = [] then back_off quietest f
            else decode_more bytes (f\<lparr>fo_offset := fo_offset f + length bytes, fo_quiet := False, fo_interval := base\<rparr>))"

text \<open>A tick of the timer, unless it was stopped; and the last read.\<close>

definition follow_tick :: "nat \<Rightarrow> nat \<Rightarrow> byte list option \<Rightarrow> follower \<Rightarrow> follower" where
  "follow_tick base quietest file f = (if fo_stopped f then f else follow_pass base quietest (fo_quiet f) file f)"

definition follow_stop :: "follower \<Rightarrow> follower" where
  "follow_stop f = f\<lparr>fo_stopped := True\<rparr>"

definition follow_drain :: "nat \<Rightarrow> nat \<Rightarrow> byte list option \<Rightarrow> follower \<Rightarrow> follower" where
  "follow_drain base quietest file f =
     (if fo_stopped f then f
      else let g = follow_pass base quietest False file (follow_stop f)
           in g\<lparr>fo_emitted := fo_emitted g @ fo_pending g, fo_pending := []\<rparr>)"

section \<open>The encoding\<close>

definition byte_of :: "nat \<Rightarrow> byte" where
  "byte_of n = word_of_nat n"

definition utf8_char :: "nat \<Rightarrow> byte list" where
  "utf8_char c =
     map byte_of
       (if c < 0x80 then [c]
        else if c < 0x800 then [0xC0 + c div 64, 0x80 + c mod 64]
        else if c < 0x10000 then [0xE0 + c div 4096, 0x80 + c div 64 mod 64, 0x80 + c mod 64]
        else [0xF0 + c div 262144 mod 8, 0x80 + c div 4096 mod 64, 0x80 + c div 64 mod 64, 0x80 + c mod 64])"

definition utf8_text :: "nat list \<Rightarrow> byte list" where
  "utf8_text cs = concat (map utf8_char cs)"

lemma byte_ranges:
  "utf8_continuation_byte b \<longleftrightarrow> 128 \<le> unat b \<and> unat b < 192"
  "utf8_sequence_length b =
     (if unat b < 192 then 1 else if unat b < 224 then 2 else if unat b < 240 then 3 else if unat b < 248 then 4 else 1)"
proof -
  have "list_all (\<lambda>n. (utf8_continuation_byte (word_of_nat n) \<longleftrightarrow> 128 \<le> n \<and> n < 192) \<and>
      utf8_sequence_length (word_of_nat n) =
        (if n < 192 then 1 else if n < 224 then 2 else if n < 240 then 3 else if n < 248 then 4 else 1)) [0..<256]"
    by code_simp
  then have all: "(utf8_continuation_byte (word_of_nat n) \<longleftrightarrow> 128 \<le> n \<and> n < 192) \<and>
      utf8_sequence_length (word_of_nat n) =
        (if n < 192 then 1 else if n < 224 then 2 else if n < 240 then 3 else if n < 248 then 4 else 1)" if "n < 256" for n
    using that unfolding list_all_iff by auto
  have "unat b < 256" using unsigned_less [of b] by simp
  from all [OF this] show "utf8_continuation_byte b \<longleftrightarrow> 128 \<le> unat b \<and> unat b < 192"
    "utf8_sequence_length b =
     (if unat b < 192 then 1 else if unat b < 224 then 2 else if unat b < 240 then 3 else if unat b < 248 then 4 else 1)"
    by (simp_all only: of_nat_unat unsigned_ucast_eq ucast_id)
qed

text \<open>The bytes of one character: a first byte that tells how many follow, and that many continuations.\<close>

definition one_char :: "byte list \<Rightarrow> bool" where
  "one_char bs \<longleftrightarrow> bs \<noteq> [] \<and> \<not> utf8_continuation_byte (hd bs) \<and> utf8_sequence_length (hd bs) = length bs \<and>
     list_all utf8_continuation_byte (tl bs) \<and> length bs \<le> 4"

lemma unat_byte: "n < 256 \<Longrightarrow> unat (byte_of n) = n"
  by (simp add: byte_of_def unat_of_nat)

lemma one_char_utf8: "c < 0x110000 \<Longrightarrow> one_char (utf8_char c)"
proof -
  assume c: "c < 0x110000"
  have m: "n mod 64 < 64" for n :: nat by simp
  show ?thesis
  proof (cases "c < 0x80")
    case True
    then show ?thesis by (simp add: one_char_def utf8_char_def byte_ranges unat_byte)
  next
    case one: False
    show ?thesis
    proof (cases "c < 0x800")
      case True
      then have "c div 64 < 32" "2 \<le> c div 64" using one by auto
      then show ?thesis using one True m by (simp add: one_char_def utf8_char_def byte_ranges unat_byte less_mult_imp_div_less)
    next
      case two: False
      show ?thesis
      proof (cases "c < 0x10000")
        case True
        then have "c div 4096 < 16" by auto
        then show ?thesis using one two True m by (simp add: one_char_def utf8_char_def byte_ranges unat_byte)
      next
        case False
        then have "c div 262144 < 8" using c by auto
        then show ?thesis using one two False m by (simp add: one_char_def utf8_char_def byte_ranges unat_byte)
      qed
    qed
  qed
qed

section \<open>Aligned windows hold whole characters\<close>

lemma align_back_continuations:
  assumes "list_all utf8_continuation_byte t" "i \<le> length t" "length t \<le> n" "n \<le> length y + length t"
  shows "align_back (y @ t) [Suc i..<Suc n] = align_back (y @ t) [Suc (length t)..<Suc n]"
  using assms(2)
proof (induction "length t - i" arbitrary: i)
  case (Suc k)
  then have i: "i < length t" by simp
  then have "length (y @ t) - Suc i = length y + (length t - Suc i)" by simp
  then have "(y @ t) ! (length (y @ t) - Suc i) = t ! (length t - Suc i)" by (simp only: nth_append_length_plus)
  moreover have "utf8_continuation_byte (t ! (length t - Suc i))" using assms(1) i by (simp add: list_all_length)
  moreover have "[Suc i..<Suc n] = Suc i # [Suc (Suc i)..<Suc n]" using i assms(3) by (simp add: upt_conv_Cons)
  ultimately have "align_back (y @ t) [Suc i..<Suc n] = align_back (y @ t) [Suc (Suc i)..<Suc n]" by (simp add: Let_def)
  then show ?case using Suc.hyps(1) [of "Suc i"] Suc.hyps(2) i by simp
qed simp

lemma align_end_head:
  assumes "list_all utf8_continuation_byte t" "\<not> utf8_continuation_byte b" "length t \<le> 2"
  shows "utf8_align_end (y @ b # t) = (if utf8_sequence_length b > Suc (length t) then length y else length (y @ b # t))"
proof -
  let ?w = "y @ b # t" and ?n = "min 3 (length (y @ b # t))"
  have n: "Suc (length t) \<le> ?n" using assms(3) by simp
  have "utf8_align_end ?w = align_back ((y @ [b]) @ t) [Suc 0..<Suc ?n]" by (simp add: utf8_align_end_def)
  also have "\<dots> = align_back ((y @ [b]) @ t) [Suc (length t)..<Suc ?n]"
  proof (rule align_back_continuations [OF assms(1)])
    show "length t \<le> ?n" using n by linarith
    show "?n \<le> length (y @ [b]) + length t" by simp
  qed simp
  also have "[Suc (length t)..<Suc ?n] = Suc (length t) # [Suc (Suc (length t))..<Suc ?n]"
    by (rule upt_conv_Cons) (use n in linarith)
  finally show ?thesis using assms(2) by (simp add: Let_def nth_append)
qed

lemma align_end_long:
  assumes "list_all utf8_continuation_byte t" "length t = 3"
  shows "utf8_align_end (y @ t) = length (y @ t)"
proof -
  have "utf8_align_end (y @ t) = align_back (y @ t) [Suc 0..<Suc 3]" by (simp add: utf8_align_end_def assms(2))
  also have "\<dots> = align_back (y @ t) [Suc (length t)..<Suc 3]" using assms by (intro align_back_continuations) simp_all
  finally show ?thesis by (simp add: assms(2))
qed

lemma align_end_whole:
  assumes "\<And>c. c \<in> set xs \<Longrightarrow> one_char c"
  shows "utf8_align_end (concat xs) = length (concat xs)"
proof (cases xs rule: rev_cases)
  case Nil
  then show ?thesis by (simp add: utf8_align_end_def)
next
  case (snoc ys c)
  then have c: "one_char c" using assms by simp
  then obtain b t where bt: "c = b # t" by (cases c) (auto simp: one_char_def)
  note f = c [unfolded one_char_def bt, simplified]
  show ?thesis
  proof (cases "length t \<le> 2")
    case True
    then show ?thesis using align_end_head [of t b "concat ys"] f by (simp add: snoc bt)
  next
    case False
    then have "length t = 3" using f by simp
    then show ?thesis using align_end_long [of t "concat ys @ [b]"] f by (simp add: snoc bt)
  qed
qed

lemma align_end_part:
  assumes "one_char c" "0 < j" "j < length c"
  shows "utf8_align_end (y @ take j c) = length y"
proof -
  obtain b t where bt: "c = b # t" using assms(1) by (cases c) (auto simp: one_char_def)
  note f = assms(1) [unfolded one_char_def bt, simplified]
  obtain i where j: "j = Suc i" using assms(2) by (cases j) auto
  have "list_all utf8_continuation_byte (take i t)" using f by (auto simp: list_all_iff dest: in_set_takeD)
  then show ?thesis using align_end_head [of "take i t" b y] f assms(3) by (simp add: bt j)
qed

lemma take_concat:
  "\<exists>n \<le> length xs. take k (concat xs) = concat (take n xs) \<or>
     (n < length xs \<and> (\<exists>j. 0 < j \<and> j < length (xs ! n) \<and> take k (concat xs) = concat (take n xs) @ take j (xs ! n)))"
proof (induction xs arbitrary: k)
  case (Cons x xs)
  show ?case
  proof (cases "length x \<le> k")
    case True
    obtain n where n: "n \<le> length xs" "take (k - length x) (concat xs) = concat (take n xs) \<or>
       (n < length xs \<and> (\<exists>j. 0 < j \<and> j < length (xs ! n) \<and> take (k - length x) (concat xs) = concat (take n xs) @ take j (xs ! n)))"
      using Cons.IH [of "k - length x"] by blast
    then show ?thesis using True by (intro exI [of _ "Suc n"]) auto
  next
    case False
    then show ?thesis by (intro exI [of _ 0]) (cases "k = 0"; auto)
  qed
qed simp

definition code_points :: "nat list \<Rightarrow> bool" where
  "code_points cs \<longleftrightarrow> (\<forall>c \<in> set cs. c < 0x110000)"

lemma code_points_drop: "code_points cs \<Longrightarrow> code_points (drop n cs)"
  by (auto simp: code_points_def dest: in_set_dropD)

lemma utf8_text_append: "utf8_text (xs @ ys) = utf8_text xs @ utf8_text ys"
  by (simp add: utf8_text_def)

lemma utf8_text_split: "utf8_text cs = utf8_text (take n cs) @ utf8_text (drop n cs)"
  by (simp flip: utf8_text_append)

lemma utf8_text_Suc: "n < length cs \<Longrightarrow> utf8_text (take (Suc n) cs) = utf8_text (take n cs) @ utf8_char (cs ! n)"
  by (simp add: take_Suc_conv_app_nth utf8_text_append) (simp add: utf8_text_def)

text \<open>
  A window that is cut at its back keeps the longest run of whole characters that fits: aligning the first \<open>k\<close>
  bytes of a text gives the encoding of its first \<open>n\<close> characters, and one more would not fit.
\<close>

lemma align_end_text:
  assumes "code_points cs"
  shows "\<exists>n \<le> length cs. take (utf8_align_end (take k (utf8_text cs))) (take k (utf8_text cs)) = utf8_text (take n cs) \<and>
    length (utf8_text (take n cs)) \<le> k \<and> (n < length cs \<longrightarrow> k < length (utf8_text (take (Suc n) cs)))"
proof -
  let ?xs = "map utf8_char cs"
  have chars: "one_char c" if "c \<in> set ?xs" for c using that assms one_char_utf8 by (auto simp: code_points_def)
  have enc: "utf8_text (take n cs) = concat (take n ?xs)" for n by (simp add: utf8_text_def take_map)
  obtain n where n: "n \<le> length cs" "take k (utf8_text cs) = concat (take n ?xs) \<or>
       (n < length cs \<and> (\<exists>j. 0 < j \<and> j < length (?xs ! n) \<and> take k (utf8_text cs) = concat (take n ?xs) @ take j (?xs ! n)))"
    using take_concat [of ?xs k] by (auto simp: utf8_text_def)
  have whole: "utf8_align_end (concat (take n ?xs)) = length (concat (take n ?xs))" for n
    by (rule align_end_whole) (use chars in_set_takeD in fast)
  consider "take k (utf8_text cs) = concat (take n ?xs)"
    | j where "n < length cs" "0 < j" "j < length (?xs ! n)" "take k (utf8_text cs) = concat (take n ?xs) @ take j (?xs ! n)"
    using n(2) by blast
  then show ?thesis
  proof cases
    case 1
    show ?thesis
    proof (cases "k < length (utf8_text cs)")
      case True
      then have len: "length (concat (take n ?xs)) = k" using 1 by (metis length_take min.strict_order_iff min.commute)
      have "k < length (utf8_text (take (Suc n) cs))" if "n < length cs"
        using len that one_char_utf8 assms utf8_text_Suc [OF that] by (auto simp: enc code_points_def one_char_def)
      then show ?thesis using n(1) 1 whole len by (intro exI [of _ n]) (simp add: enc)
    next
      case False
      then show ?thesis using whole [of "length cs"] by (intro exI [of _ "length cs"]) (simp add: enc utf8_text_def)
    qed
  next
    case (2 j)
    have "one_char (?xs ! n)" using chars 2(1) by (metis length_map nth_mem)
    from align_end_part [OF this 2(2,3)] have "utf8_align_end (take k (utf8_text cs)) = length (concat (take n ?xs))" using 2(4) by simp
    moreover have "length (take k (utf8_text cs)) = length (concat (take n ?xs)) + j" using 2(3,4) by simp
    then have "length (concat (take n ?xs)) + j \<le> k" "length (concat (take n ?xs)) + j = min k (length (utf8_text cs))" by simp_all
    moreover have "length (concat (take n ?xs)) + length (?xs ! n) \<le> length (utf8_text cs)"
      using utf8_text_split [of cs "Suc n"] utf8_text_Suc [OF 2(1)] 2(1) by (simp add: enc)
    ultimately show ?thesis using n(1) 2 utf8_text_Suc [OF 2(1)] by (intro exI [of _ n]) (auto simp: enc)
  qed
qed

lemma align_start_continuations:
  assumes "list_all utf8_continuation_byte r" "length r \<le> 3" "rest \<noteq> [] \<longrightarrow> \<not> utf8_continuation_byte (hd rest)"
  shows "utf8_align_start (r @ rest) = length r"
proof -
  have "takeWhile utf8_continuation_byte (take (3 - length r) rest) = []" using assms(3) by (cases rest; cases "3 - length r") auto
  then show ?thesis using assms(1,2) by (simp add: utf8_align_start_def takeWhile_append2 list_all_iff)
qed

text \<open>A window that is cut at its front begins with the first character that starts in it.\<close>

lemma align_start_text:
  assumes "code_points cs" "k \<le> length (utf8_text cs)"
  shows "\<exists>n \<le> length cs. drop (utf8_align_start (drop k (utf8_text cs))) (drop k (utf8_text cs)) = utf8_text (drop n cs) \<and>
    k \<le> length (utf8_text (take n cs)) \<and> (0 < n \<longrightarrow> length (utf8_text (take (n - 1) cs)) < k)"
proof -
  let ?xs = "map utf8_char cs"
  have chars: "one_char c" if "c \<in> set ?xs" for c using that assms(1) one_char_utf8 by (auto simp: code_points_def)
  have enc: "utf8_text (take n cs) = concat (take n ?xs)" "utf8_text (drop n cs) = concat (drop n ?xs)" for n
    by (simp_all add: utf8_text_def take_map drop_map)
  have first: "\<not> utf8_continuation_byte (hd (utf8_text (drop n cs)))" if "utf8_text (drop n cs) \<noteq> []" for n
  proof -
    obtain d ds where "drop n cs = d # ds" using \<open>utf8_text (drop n cs) \<noteq> []\<close> by (cases "drop n cs") (auto simp: utf8_text_def)
    moreover then have "one_char (utf8_char d)" using code_points_drop [OF assms(1), of n] one_char_utf8 by (simp add: code_points_def)
    ultimately show ?thesis by (simp add: utf8_text_def one_char_def)
  qed
  have cut: "drop k (utf8_text cs) = r @ utf8_text (drop n cs)" if "take k (utf8_text cs) @ r = utf8_text (take n cs)" for n r
  proof -
    have "take k (utf8_text cs) @ drop k (utf8_text cs) = utf8_text (take n cs) @ utf8_text (drop n cs)"
      by (simp only: append_take_drop_id utf8_text_split [symmetric])
    also have "\<dots> = take k (utf8_text cs) @ (r @ utf8_text (drop n cs))" using that by (metis append.assoc)
    finally show ?thesis by (simp only: same_append_eq)
  qed
  have len: "length (take k (utf8_text cs)) = k" using assms(2) by simp
  obtain n where n: "n \<le> length cs" "take k (utf8_text cs) = concat (take n ?xs) \<or>
       (n < length cs \<and> (\<exists>j. 0 < j \<and> j < length (?xs ! n) \<and> take k (utf8_text cs) = concat (take n ?xs) @ take j (?xs ! n)))"
    using take_concat [of ?xs k] by (auto simp: utf8_text_def)
  consider "take k (utf8_text cs) = concat (take n ?xs)"
    | j where "n < length cs" "0 < j" "j < length (?xs ! n)" "take k (utf8_text cs) = concat (take n ?xs) @ take j (?xs ! n)"
    using n(2) by blast
  then show ?thesis
  proof cases
    case 1
    have d: "drop k (utf8_text cs) = [] @ utf8_text (drop n cs)" by (rule cut) (simp add: enc 1)
    have a: "utf8_align_start (drop k (utf8_text cs)) = 0"
      unfolding d using align_start_continuations [of "[]" "utf8_text (drop n cs)"] first by simp
    have k: "k = length (utf8_text (take n cs))" using len 1 by (simp add: enc)
    have "length (utf8_text (take (n - 1) cs)) < k" if "0 < n"
    proof -
      have "n - 1 < length cs" using that n(1) by simp
      then have "utf8_text (take n cs) = utf8_text (take (n - 1) cs) @ utf8_char (cs ! (n - 1))" using utf8_text_Suc [of "n - 1" cs] that by simp
      moreover have "one_char (utf8_char (cs ! (n - 1)))" using chars \<open>n - 1 < length cs\<close> by (metis length_map nth_map nth_mem)
      ultimately show ?thesis by (simp add: k one_char_def)
    qed
    then show ?thesis using n(1) d a k by (intro exI [of _ n]) simp
  next
    case (2 j)
    have one: "one_char (?xs ! n)" using chars 2(1) by (metis length_map nth_mem)
    let ?r = "drop j (?xs ! n)"
    have "take k (utf8_text cs) @ ?r = utf8_text (take (Suc n) cs)" using 2 utf8_text_Suc [OF 2(1)] by (simp add: enc)
    then have d: "drop k (utf8_text cs) = ?r @ utf8_text (drop (Suc n) cs)" by (rule cut)
    have r: "list_all utf8_continuation_byte ?r" "length ?r \<le> 3"
      using one 2(2) by (cases "?xs ! n"; cases j; auto simp: one_char_def list_all_iff dest: in_set_dropD)+
    have a: "utf8_align_start (drop k (utf8_text cs)) = length ?r"
      unfolding d using r first by (intro align_start_continuations) simp_all
    have "length (concat (take n ?xs)) + j = k" using len 2(3,4) by simp
    then show ?thesis using 2 d a utf8_text_Suc [OF 2(1)] by (intro exI [of _ "Suc n"]) (simp add: enc)
  qed
qed

section \<open>Snapshots, deltas and the follower\<close>

lemma utf8_text_nonempty: "code_points cs \<Longrightarrow> n < length cs \<Longrightarrow> utf8_text (drop n cs) \<noteq> []"
  using one_char_utf8 [of "cs ! n"] Cons_nth_drop_Suc [of n cs, symmetric]
  by (auto simp: utf8_text_def code_points_def one_char_def)

lemma text_snapshot_text:
  assumes "code_points cs"
  shows "\<exists>n \<le> length cs. os_content (text_snapshot (utf8_text cs) m) = utf8_text (take n cs) \<and>
      length (utf8_text (take n cs)) \<le> byte_limit m \<and> (n < length cs \<longrightarrow> byte_limit m < length (utf8_text (take (Suc n) cs)))"
proof -
  have eq: "take (min (byte_limit m) (length (utf8_text cs))) (utf8_text cs) = take (byte_limit m) (utf8_text cs)"
    by (simp add: min_def)
  show ?thesis using align_end_text [OF assms, of "byte_limit m"] unfolding text_snapshot_def Let_def eq by simp
qed

lemma tail_snapshot_text:
  assumes "code_points cs"
  shows "\<exists>n \<le> length cs. os_content (tail_file_snapshot (Some (utf8_text cs)) k) = utf8_text (drop n cs) \<and>
      length (utf8_text (drop n cs)) \<le> k \<and> (0 < n \<longrightarrow> k < length (utf8_text (drop (n - 1) cs)))"
proof (cases "min k (length (utf8_text cs)) = 0")
  case True
  have "k < length (utf8_text (drop (length cs - 1) cs))" if "0 < length cs"
    using True utf8_text_nonempty [OF assms, of 0] utf8_text_nonempty [OF assms, of "length cs - 1"] that by (auto simp: min_def split: if_splits)
  then show ?thesis using True by (intro exI [of _ "length cs"]) (auto simp: tail_file_snapshot_def Let_def utf8_text_def)
next
  case False
  let ?k = "length (utf8_text cs) - min k (length (utf8_text cs))"
  obtain n where n: "n \<le> length cs" "drop (utf8_align_start (drop ?k (utf8_text cs))) (drop ?k (utf8_text cs)) = utf8_text (drop n cs)"
    "?k \<le> length (utf8_text (take n cs))" "0 < n \<longrightarrow> length (utf8_text (take (n - 1) cs)) < ?k"
    using align_start_text [OF assms, of ?k] by auto
  have whole: "length (utf8_text (take i cs)) + length (utf8_text (drop i cs)) = length (utf8_text cs)" for i
    by (metis length_append utf8_text_split)
  have "os_content (tail_file_snapshot (Some (utf8_text cs)) k) = utf8_text (drop n cs)"
    using False n(2) unfolding tail_file_snapshot_def Let_def option.case by (simp only: if_False output_snapshot.select_convs)
  moreover have "length (utf8_text (drop n cs)) \<le> k" using n(3) whole [of n] by linarith
  moreover have "0 < n \<longrightarrow> k < length (utf8_text (drop (n - 1) cs))" using n(4) whole [of "n - 1"] by linarith
  ultimately show ?thesis using n(1) by blast
qed

text \<open>
  A snapshot of a text shows whole characters only, from its beginning, as many as fit; the tail of a log shows
  whole characters only, up to its end, and as many as fit in the window.
\<close>

theorem snapshots_show_whole_characters:
  assumes "code_points cs"
  shows "(\<exists>n \<le> length cs. os_content (text_snapshot (utf8_text cs) m) = utf8_text (take n cs) \<and>
      length (utf8_text (take n cs)) \<le> byte_limit m \<and> (n < length cs \<longrightarrow> byte_limit m < length (utf8_text (take (Suc n) cs)))) \<and>
    (\<exists>n \<le> length cs. os_content (tail_file_snapshot (Some (utf8_text cs)) k) = utf8_text (drop n cs) \<and>
      length (utf8_text (drop n cs)) \<le> k \<and> (0 < n \<longrightarrow> k < length (utf8_text (drop (n - 1) cs))))"
  using text_snapshot_text [OF assms] tail_snapshot_text [OF assms] by blast

text \<open>Two characters of two bytes each, in windows of three bytes.\<close>

theorem snapshots_show_whole_characters_witness:
  "os_content (text_snapshot (utf8_text [0xE9, 0xEF]) 3) = utf8_text [0xE9] \<and>
   os_content (tail_file_snapshot (Some (utf8_text [0xE9, 0xEF])) 3) = utf8_text [0xEF]"
proof -
  have l: "length (utf8_text [0xE9, 0xEF]) = 4" "length (utf8_text [0xE9]) = 2" "length (utf8_text [0xEF]) = 2" "length (utf8_text []) = 0"
    by (simp_all add: utf8_text_def utf8_char_def)
  have cp: "code_points [0xE9, 0xEF]" by (simp add: code_points_def)
  obtain n where n: "n \<le> 2" "os_content (text_snapshot (utf8_text [0xE9, 0xEF]) 3) = utf8_text (take n [0xE9, 0xEF])"
    "length (utf8_text (take n [0xE9, 0xEF])) \<le> 3" "n < 2 \<longrightarrow> 3 < length (utf8_text (take (Suc n) [0xE9, 0xEF]))"
    using conjunct1 [OF snapshots_show_whole_characters [OF cp, of 3]] by (auto simp: byte_limit_def numeral_2_eq_2)
  then have "n = 1" using l by (cases "n = 0"; cases "n = 2"; simp)
  obtain i where i: "i \<le> 2" "os_content (tail_file_snapshot (Some (utf8_text [0xE9, 0xEF])) 3) = utf8_text (drop i [0xE9, 0xEF])"
    "length (utf8_text (drop i [0xE9, 0xEF])) \<le> 3"
    "0 < i \<longrightarrow> 3 < length (utf8_text (drop (i - 1) [0xE9, 0xEF]))"
    using conjunct2 [OF snapshots_show_whole_characters [OF cp, of _ 3]] by (auto simp: numeral_2_eq_2)
  then have "i = 1" using l by (cases "i = 0"; cases "i = 2"; simp)
  then show ?thesis using n(2) i(2) \<open>n = 1\<close> by simp
qed

text \<open>A viewer that reads deltas, each from the cursor the last one gave, from a file that may not be readable at times.\<close>

fun read_deltas :: "(byte list option \<times> int) list \<Rightarrow> nat \<Rightarrow> byte list \<times> nat" where
  "read_deltas [] c = ([], c)"
| "read_deltas ((file, m) # rest) c =
     (case output_delta file (int c) m of (w, c1) \<Rightarrow> (case read_deltas rest c1 of (ws, c2) \<Rightarrow> (w @ ws, c2)))"

definition part_of :: "nat list \<Rightarrow> byte list option \<Rightarrow> bool" where
  "part_of cs file \<longleftrightarrow> (case file of None \<Rightarrow> True | Some bs \<Rightarrow> \<exists>k. bs = take k (utf8_text cs))"

lemma output_delta_text:
  assumes "code_points cs" "n \<le> length cs" "part_of cs file"
  shows "\<exists>i. n \<le> i \<and> i \<le> length cs \<and> output_delta file (int (length (utf8_text (take n cs)))) m =
    (utf8_text (drop n (take i cs)), length (utf8_text (take i cs)))"
proof (cases "file")
  case None
  then show ?thesis using assms(2) by (intro exI [of _ n]) (simp add: output_delta_def byte_limit_def utf8_text_def)
next
  case (Some bs)
  then obtain k where k: "bs = take k (utf8_text cs)" using assms(3) by (auto simp: part_of_def)
  let ?o = "length (utf8_text (take n cs))"
  have "drop ?o (take k (utf8_text cs)) = take (k - ?o) (utf8_text (drop n cs))"
    using utf8_text_split [of cs n] by (metis append_eq_conv_conj drop_take)
  then have bytes: "take (byte_limit m) (drop ?o bs) = take (min (byte_limit m) (k - ?o)) (utf8_text (drop n cs))"
    by (simp add: k)
  obtain j where j: "j \<le> length cs - n"
    "take (utf8_align_end (take (byte_limit m) (drop ?o bs))) (take (byte_limit m) (drop ?o bs)) = utf8_text (take j (drop n cs))"
    using align_end_text [OF code_points_drop [OF assms(1)], of n "min (byte_limit m) (k - ?o)"] unfolding bytes by auto
  have "take (n + j) cs = take n cs @ take j (drop n cs)" by (rule take_add)
  then have "?o + length (utf8_text (take j (drop n cs))) = length (utf8_text (take (n + j) cs))" by (simp add: utf8_text_append)
  moreover have "take j (drop n cs) = drop n (take (n + j) cs)" by (simp add: take_drop add.commute)
  moreover have "output_delta file (int ?o) m = (utf8_text (take j (drop n cs)), ?o + length (utf8_text (take j (drop n cs))))"
  proof -
    have "byte_limit (int ?o) = ?o" by (simp add: byte_limit_def)
    then show ?thesis unfolding output_delta_def Let_def Some option.case by (simp only: j(2))
  qed
  ultimately show ?thesis using j(1) assms(2) by (intro exI [of _ "n + j"]) simp
qed

lemma read_deltas_text:
  assumes "code_points cs" "\<forall>(file, m) \<in> set reads. part_of cs file" "n \<le> length cs"
  shows "\<exists>i. n \<le> i \<and> i \<le> length cs \<and> read_deltas reads (length (utf8_text (take n cs))) =
    (utf8_text (drop n (take i cs)), length (utf8_text (take i cs)))"
  using assms(2,3)
proof (induction reads arbitrary: n)
  case Nil
  then show ?case by (intro exI [of _ n]) (simp add: utf8_text_def)
next
  case (Cons r reads)
  obtain f m where r: "r = (f, m)" by (cases r)
  obtain i where i: "n \<le> i" "i \<le> length cs"
    "output_delta f (int (length (utf8_text (take n cs)))) m = (utf8_text (drop n (take i cs)), length (utf8_text (take i cs)))"
    using output_delta_text [OF assms(1) Cons.prems(2), of f m] Cons.prems(1) r by auto
  obtain j where j: "i \<le> j" "j \<le> length cs"
    "read_deltas reads (length (utf8_text (take i cs))) = (utf8_text (drop i (take j cs)), length (utf8_text (take j cs)))"
    using Cons.IH [of i] Cons.prems(1) i(2) by auto
  have "utf8_text (drop n (take i cs)) @ utf8_text (drop i (take j cs)) = utf8_text (drop n (take j cs))"
  proof -
    have "take i cs @ drop i (take j cs) = take j cs" using j(1) by (metis append_take_drop_id min.absorb1 take_take)
    then have "drop n (take i cs) @ drop i (take j cs) = drop n (take j cs)" using i(1,2) by (metis drop_append length_take min.absorb2 diff_is_0_eq drop0)
    then show ?thesis by (metis utf8_text_append)
  qed
  then show ?case using i j r by (intro exI [of _ j]) simp
qed

text \<open>A read of at least four bytes advances when a whole character lies behind the cursor.\<close>

lemma output_delta_advances:
  assumes "code_points cs" "n < length cs" "length (utf8_text (take (Suc n) cs)) \<le> k" "4 \<le> m"
  shows "length (utf8_text (take n cs)) < snd (output_delta (Some (take k (utf8_text cs))) (int (length (utf8_text (take n cs)))) m)"
proof -
  let ?o = "length (utf8_text (take n cs))" and ?ds = "drop n cs"
  have one: "one_char (utf8_char (cs ! n))" using assms(1,2) one_char_utf8 by (simp add: code_points_def)
  have first: "length (utf8_text (take (Suc 0) ?ds)) = length (utf8_char (cs ! n))"
    using assms(2) by (simp add: utf8_text_def take_Suc hd_drop_conv_nth)
  have "?o + length (utf8_char (cs ! n)) \<le> k" using assms(3) utf8_text_Suc [OF assms(2)] by simp
  moreover have "length (utf8_char (cs ! n)) \<le> byte_limit m" using one assms(4) unfolding one_char_def byte_limit_def by linarith
  ultimately have fits: "length (utf8_text (take (Suc 0) ?ds)) \<le> min (byte_limit m) (k - ?o)" using first by simp
  let ?b = "take (byte_limit m) (drop ?o (take k (utf8_text cs)))"
  have "drop ?o (take k (utf8_text cs)) = take (k - ?o) (utf8_text ?ds)"
    using utf8_text_split [of cs n] by (metis append_eq_conv_conj drop_take)
  then have bytes: "?b = take (min (byte_limit m) (k - ?o)) (utf8_text ?ds)" by simp
  obtain j where j: "j \<le> length ?ds" "take (utf8_align_end ?b) ?b = utf8_text (take j ?ds)"
    "j < length ?ds \<longrightarrow> min (byte_limit m) (k - ?o) < length (utf8_text (take (Suc j) ?ds))"
    using align_end_text [OF code_points_drop [OF assms(1)], of n "min (byte_limit m) (k - ?o)"] unfolding bytes by auto
  have "j \<noteq> 0"
  proof
    assume "j = 0"
    then have "min (byte_limit m) (k - ?o) < length (utf8_text (take (Suc 0) ?ds))" using j(3) assms(2) by simp
    then show False using fits by linarith
  qed
  then have "0 < length (utf8_text (take j ?ds))"
    using assms(2) one by (cases j) (auto simp: utf8_text_def take_Suc hd_drop_conv_nth one_char_def)
  moreover have "byte_limit (int ?o) = ?o" by (simp add: byte_limit_def)
  then have "snd (output_delta (Some (take k (utf8_text cs))) (int ?o) m) = ?o + length (utf8_text (take j ?ds))"
    unfolding output_delta_def Let_def option.case by (simp only: j(2) snd_conv)
  ultimately show ?thesis by simp
qed

text \<open>
  C22. A viewer that follows a growing log by deltas sees the log's text and nothing twice: whatever windows it asks for
  and wherever the file happened to end at each read, even inside a character or out of reach, what it has been
  given is a run of whole characters from the beginning and its cursor stands behind it; and a read of four
  bytes or more moves on whenever there is one more whole character.
\<close>

theorem deltas_follow_the_log:
  assumes "code_points cs" "\<forall>(file, m) \<in> set reads. part_of cs file"
  shows "\<exists>n \<le> length cs. read_deltas reads 0 = (utf8_text (take n cs), length (utf8_text (take n cs))) \<and>
    (\<forall>k m. n < length cs \<and> length (utf8_text (take (Suc n) cs)) \<le> k \<and> 4 \<le> m \<longrightarrow>
       snd (read_deltas reads 0) < snd (output_delta (Some (take k (utf8_text cs))) (int (snd (read_deltas reads 0))) m))"
proof -
  obtain n where n: "n \<le> length cs" "read_deltas reads 0 = (utf8_text (take n cs), length (utf8_text (take n cs)))"
    using read_deltas_text [OF assms, of 0] by (auto simp: utf8_text_def)
  then show ?thesis using output_delta_advances [OF assms(1)] by (intro exI [of _ n]) simp
qed

theorem deltas_follow_the_log_witness:
  "0 < snd (output_delta (Some (take 3 (utf8_text [0xE9, 0xEF]))) 0 4)"
proof -
  have len: "length (utf8_text [0xE9]) = 2" "length (utf8_text [0xE9, 0xEF]) = 4" by (simp_all add: utf8_text_def utf8_char_def)
  have cp: "code_points [0xE9, 0xEF]" "\<forall>(file, m) \<in> set []. part_of [0xE9, 0xEF] file" by (simp_all add: code_points_def)
  obtain n where n: "n \<le> 2" "read_deltas [] 0 = (utf8_text (take n [0xE9, 0xEF]), length (utf8_text (take n [0xE9, 0xEF])))"
    "\<forall>k m. n < 2 \<and> length (utf8_text (take (Suc n) [0xE9, 0xEF])) \<le> k \<and> 4 \<le> m \<longrightarrow>
       snd (read_deltas [] 0) < snd (output_delta (Some (take k (utf8_text [0xE9, 0xEF]))) (int (snd (read_deltas [] 0))) m)"
    using deltas_follow_the_log [OF cp] by (auto simp: numeral_2_eq_2)
  then have "n = 0" using len by (cases n; cases "n = 2") (auto simp: take_Cons' split: if_splits)
  then show ?thesis using n(3) [rule_format, of 3 4] len by simp
qed

text \<open>The follower, over the life of a watched file.\<close>

datatype follow_op = Tick "byte list option" | Drain "byte list option" | StopFollowing

fun follow_step :: "nat \<Rightarrow> nat \<Rightarrow> follow_op \<Rightarrow> follower \<Rightarrow> follower" where
  "follow_step base quietest (Tick file) f = follow_tick base quietest file f"
| "follow_step base quietest (Drain file) f = follow_drain base quietest file f"
| "follow_step base quietest StopFollowing f = follow_stop f"

fun op_file :: "follow_op \<Rightarrow> byte list option" where
  "op_file (Tick file) = file"
| "op_file (Drain file) = file"
| "op_file StopFollowing = None"

definition follows_text :: "nat \<Rightarrow> nat \<Rightarrow> nat list \<Rightarrow> follower \<Rightarrow> bool" where
  "follows_text base quietest cs f \<longleftrightarrow>
     fo_offset f \<le> length (utf8_text cs) \<and> fo_emitted f @ fo_pending f = take (fo_offset f) (utf8_text cs) \<and>
     base \<le> fo_interval f \<and> fo_interval f \<le> quietest \<and>
     (fo_stopped f \<or> (\<exists>n \<le> length cs. fo_emitted f = utf8_text (take n cs)))"

lemma follow_pass_text:
  assumes cs: "code_points cs" and base: "base \<le> quietest" and f: "follows_text base quietest cs f" "part_of cs file"
    and n: "n \<le> length cs" "fo_emitted f = utf8_text (take n cs)"
  shows "follows_text base quietest cs (follow_pass base quietest probe file f) \<and>
    (\<exists>n \<le> length cs. fo_emitted (follow_pass base quietest probe file f) = utf8_text (take n cs)) \<and>
    fo_stopped (follow_pass base quietest probe file f) = fo_stopped f \<and>
    (\<forall>bs. file = Some bs \<and> \<not> probe \<longrightarrow> fo_offset (follow_pass base quietest probe file f) = max (fo_offset f) (length bs))"
proof -
  have quiet: "follows_text base quietest cs (back_off quietest f)" using f(1) base by (auto simp: follows_text_def back_off_def)
  show ?thesis
  proof (cases "\<exists>bs. file = Some bs \<and> fo_offset f < length bs")
    case False
    then have "follow_pass base quietest probe file f = back_off quietest f"
      by (auto simp: follow_pass_def split: option.split)
    then show ?thesis using quiet n False by (auto simp: back_off_def)
  next
    case True
    then obtain bs k where bs: "file = Some bs" "fo_offset f < length bs" "bs = take k (utf8_text cs)"
      using f(2) by (auto simp: part_of_def)
    let ?buf = "fo_pending f @ drop (fo_offset f) bs" and ?o = "length (utf8_text (take n cs))"
    have "fo_offset f \<le> k" using bs(2,3) by simp
    then have "take (fo_offset f) bs = take (fo_offset f) (utf8_text cs)" using bs(3) by (simp add: min_absorb1)
    then have "fo_emitted f @ ?buf = bs" using f(1) by (simp add: follows_text_def) (metis append.assoc append_take_drop_id)
    then have buf: "?buf = take (k - ?o) (utf8_text (drop n cs))"
      using bs(3) n(2) utf8_text_split [of cs n] by (metis append_eq_conv_conj drop_take)
    obtain j where j: "j \<le> length cs - n" "take (utf8_align_end ?buf) ?buf = utf8_text (take j (drop n cs))"
      using align_end_text [OF code_points_drop [OF cs], of n "k - ?o"] unfolding buf by auto
    have pass: "follow_pass base quietest probe file f =
        decode_more (drop (fo_offset f) bs) (f\<lparr>fo_offset := length bs, fo_quiet := False, fo_interval := base\<rparr>)"
      using bs(1,2) by (auto simp: follow_pass_def Let_def)
    have emitted: "fo_emitted (follow_pass base quietest probe file f) = utf8_text (take (n + j) cs)"
      unfolding pass decode_more_def Let_def using j(2) n(2) by (simp add: take_add utf8_text_append)
    have "fo_emitted (follow_pass base quietest probe file f) @ fo_pending (follow_pass base quietest probe file f) = fo_emitted f @ ?buf"
      unfolding pass decode_more_def Let_def by (simp del: take_append drop_append)
    also have "\<dots> = take (length bs) (utf8_text cs)" using \<open>fo_emitted f @ ?buf = bs\<close> bs(3) by (simp add: min_def)
    finally have "fo_emitted (follow_pass base quietest probe file f) @ fo_pending (follow_pass base quietest probe file f) =
        take (length bs) (utf8_text cs)" .
    moreover have "fo_offset (follow_pass base quietest probe file f) = length bs" "fo_interval (follow_pass base quietest probe file f) = base"
      "fo_stopped (follow_pass base quietest probe file f) = fo_stopped f"
      unfolding pass decode_more_def Let_def by simp_all
    moreover have "n + j \<le> length cs" using j(1) n(1) by simp
    ultimately show ?thesis using emitted base bs by (auto simp: follows_text_def)
  qed
qed

lemma follow_drain_text:
  assumes "code_points cs" "base \<le> quietest" "follows_text base quietest cs f" "part_of cs file" "\<not> fo_stopped f"
  shows "follows_text base quietest cs (follow_drain base quietest file f)"
    "file = Some (utf8_text cs) \<Longrightarrow> fo_emitted (follow_drain base quietest file f) = utf8_text cs"
proof -
  let ?f = "follow_stop f" and ?g = "follow_pass base quietest False file (follow_stop f)"
  obtain n where n: "n \<le> length cs" "fo_emitted ?f = utf8_text (take n cs)"
    using assms(3,5) by (auto simp: follows_text_def follow_stop_def)
  have f: "follows_text base quietest cs ?f" using assms(3) by (simp add: follows_text_def follow_stop_def)
  note pass = follow_pass_text [OF assms(1,2) f assms(4) n, of False]
  have d: "follow_drain base quietest file f = ?g\<lparr>fo_emitted := fo_emitted ?g @ fo_pending ?g, fo_pending := []\<rparr>"
    using assms(5) by (simp add: follow_drain_def Let_def)
  have "fo_stopped ?g" using pass by (simp add: follow_stop_def)
  then show "follows_text base quietest cs (follow_drain base quietest file f)" using pass by (simp add: d follows_text_def)
  assume whole: "file = Some (utf8_text cs)"
  then have "fo_offset ?g = length (utf8_text cs)" using pass f by (simp add: follows_text_def)
  then show "fo_emitted (follow_drain base quietest file f) = utf8_text cs" using pass by (simp add: d follows_text_def)
qed

lemma follow_step_text:
  assumes "code_points cs" "base \<le> quietest" "follows_text base quietest cs f" "part_of cs (op_file op)"
  shows "follows_text base quietest cs (follow_step base quietest op f)"
proof (cases op)
  case (Tick bs)
  show ?thesis
  proof (cases "fo_stopped f")
    case False
    then obtain n where "n \<le> length cs" "fo_emitted f = utf8_text (take n cs)" using assms(3) by (auto simp: follows_text_def)
    then show ?thesis using follow_pass_text [OF assms(1-3)] assms(4) Tick False by (simp add: follow_tick_def)
  qed (use assms(3) Tick in \<open>simp add: follow_tick_def\<close>)
next
  case (Drain bs)
  then show ?thesis using follow_drain_text(1) [OF assms(1-3)] assms(3,4) by (cases "fo_stopped f") (simp_all add: follow_drain_def)
next
  case StopFollowing
  then show ?thesis using assms(3) by (simp add: follows_text_def follow_stop_def)
qed

text \<open>
  Whoever watches a task's output file is shown each byte once and in order, in whole characters, however the polls
  fall on the writes and even when some fail; the polls are never closer than the base interval nor further
  apart than the quiet one; and the last read of a run that was not given up shows everything that is left.
\<close>

theorem follower_shows_each_byte_once:
  assumes "code_points cs" "base \<le> quietest" "\<forall>op \<in> set ops. part_of cs (op_file op)"
  shows "case fold (follow_step base quietest) ops (new_follower base) of f \<Rightarrow>
    fo_emitted f @ fo_pending f = take (fo_offset f) (utf8_text cs) \<and> base \<le> fo_interval f \<and> fo_interval f \<le> quietest \<and>
    (\<not> fo_stopped f \<longrightarrow> (\<exists>n \<le> length cs. fo_emitted f = utf8_text (take n cs)) \<and>
       fo_emitted (follow_drain base quietest (Some (utf8_text cs)) f) = utf8_text cs)"
proof -
  have start: "follows_text base quietest cs (new_follower base)"
    using assms(2) by (auto simp: follows_text_def new_follower_def utf8_text_def intro: exI [of _ 0])
  have "follows_text base quietest cs (fold (follow_step base quietest) ops f)" if "follows_text base quietest cs f" "\<forall>op \<in> set ops. part_of cs (op_file op)" for ops f
    using that by (induction ops arbitrary: f) (simp_all add: follow_step_text [OF assms(1,2)])
  from this [OF start assms(3)] have f: "follows_text base quietest cs (fold (follow_step base quietest) ops (new_follower base))" .
  have "part_of cs (Some (utf8_text cs))" by (auto simp: part_of_def intro: exI [of _ "length (utf8_text cs)"])
  then show ?thesis using f follow_drain_text(2) [OF assms(1,2) f] by (auto simp: follows_text_def)
qed

theorem follower_shows_each_byte_once_witness:
  "fo_emitted (follow_drain 1 5 (Some (utf8_text [0xE9, 0xEF])) (fold (follow_step 1 5) [Tick (Some (take 3 (utf8_text [0xE9, 0xEF]))), Tick None] (new_follower 1)))
   = utf8_text [0xE9, 0xEF]"
proof -
  let ?ops = "[Tick (Some (take 3 (utf8_text [0xE9, 0xEF]))), Tick None]"
  have "part_of [0xE9, 0xEF] (Some (take 3 (utf8_text [0xE9, 0xEF])))" "part_of [0xE9, 0xEF] None" by (auto simp: part_of_def)
  then have "\<forall>op \<in> set ?ops. part_of [0xE9, 0xEF] (op_file op)" by simp
  moreover have "\<not> fo_stopped (fold (follow_step 1 5) ?ops (new_follower 1))"
    by (simp add: follow_tick_def new_follower_def follow_pass_def decode_more_def back_off_def Let_def)
  ultimately show ?thesis using follower_shows_each_byte_once [of "[0xE9, 0xEF]" 1 5 ?ops] by (simp add: code_points_def)
qed

end
