(* ===== verification/Background_Attach.thy ===== *)
theory Background_Attach
  imports Background_Manager Byte_Window Js_Regex
begin

text \<open>
  A command run attached to the foreground (\<open>runAttached\<close> of \<open>manager.ts\<close>), which can be moved to the background
  while it runs, and the watch for a command stuck on a prompt (\<open>stall-watchdog.ts\<close>).

  A run is changed by events: the abort of the foreground, its timeout, the user's detach, what the work reports and
  how it settles, and the end of the last read of its log, which a settlement in the foreground waits for when
  somebody follows the output.
\<close>

section \<open>The switches of the tool calls\<close>

definition register_detachable :: "string \<Rightarrow> (string, bool) jsmap \<Rightarrow> (string, bool) jsmap" where
  "register_detachable call table = (if map_of table call = None then jset call False table else table)"

definition unregister_detachable :: "string \<Rightarrow> (string, bool) jsmap \<Rightarrow> (string, bool) jsmap" where
  "unregister_detachable call table = jdelete call table"

definition detach_call :: "string \<Rightarrow> (string, bool) jsmap \<Rightarrow> bool \<times> (string, bool) jsmap" where
  "detach_call call table = (if map_of table call = None then (False, table) else (True, jset call True table))"

section \<open>An attached run\<close>

datatype stop_cause = ByTimeout | ByAbort

datatype attached_outcome = RanDetached string | RanSettled task_status "int option" bool

record attached_run =
  ar_detached :: bool
  ar_cause :: "stop_cause option"
  ar_aborted :: bool
  ar_adopted :: "string option"
  ar_following :: bool
  ar_draining :: "task_settlement list"
  ar_exit :: "int option"
  ar_unconfirmed :: bool
  ar_offered :: bool
  ar_shown :: "string list"
  ar_outcome :: "attached_outcome option"

definition attached_kill :: "stop_cause \<Rightarrow> attached_run \<Rightarrow> attached_run" where
  "attached_kill why r = r\<lparr>ar_cause := (if ar_cause r = None then Some why else ar_cause r), ar_aborted := True\<rparr>"

definition new_attached :: "bool \<Rightarrow> attached_run" where
  "new_attached follows =
     \<lparr>ar_detached = False, ar_cause = None, ar_aborted = False, ar_adopted = None, ar_following = follows, ar_draining = [],
      ar_exit = None, ar_unconfirmed = False, ar_offered = False, ar_shown = [], ar_outcome = None\<rparr>"

definition start_attached :: "bool \<Rightarrow> bool \<Rightarrow> bool \<Rightarrow> new_task \<Rightarrow> string + attached_run" where
  "start_attached has_store foreground_aborted follows t =
     (case assert_durable_output has_store (nt_detail t) (nt_output t) of
        Some e \<Rightarrow> Inl e
      | None \<Rightarrow> Inr (if foreground_aborted then attached_kill ByAbort (new_attached follows) else new_attached follows))"

text \<open>The outcome of a settlement: a stop the backend could not confirm is still the stop that was asked for.\<close>

definition settled_outcome :: "attached_run \<Rightarrow> task_settlement \<Rightarrow> attached_outcome" where
  "settled_outcome r se =
     (let still = (ar_cause r \<noteq> None \<and> ar_unconfirmed r);
          status = (if still then TKilled else if se_status se = TPaused then TFailed else se_status se)
      in RanSettled (if status = TKilled \<and> ar_cause r = Some ByTimeout then TTimedOut else status) (ar_exit r) still)"

definition attached_finish :: "task_settlement \<Rightarrow> attached_run \<Rightarrow> attached_run" where
  "attached_finish se r = (if ar_outcome r = None then r\<lparr>ar_outcome := Some (settled_outcome r se), ar_following := False\<rparr> else r)"

text \<open>The bridge from the foreground stands until the run is detached or over.\<close>

definition bridged :: "attached_run \<Rightarrow> bool" where
  "bridged r \<longleftrightarrow> \<not> ar_detached r \<and> ar_outcome r = None"

definition attached_detach :: "string \<Rightarrow> new_task \<Rightarrow> nat \<Rightarrow> attached_run \<times> background_manager \<Rightarrow> attached_run \<times> background_manager" where
  "attached_detach i t now w =
     (case w of (r, m) \<Rightarrow>
        if \<not> bridged r then w
        else case adopt_running i t (ar_aborted r) now m of
          (Inl _, _) \<Rightarrow> (r\<lparr>ar_detached := True, ar_following := False\<rparr>, m)
        | (Inr j, m') \<Rightarrow>
            (r\<lparr>ar_detached := True, ar_following := False, ar_adopted := Some j, ar_outcome := Some (RanDetached j)\<rparr>, m'))"

text \<open>Where a settlement goes: to the foreground, after the last read of the log, or to the manager.\<close>

definition attached_settle :: "task_settlement \<Rightarrow> nat \<Rightarrow> attached_run \<times> background_manager \<Rightarrow> attached_run \<times> background_manager" where
  "attached_settle se now w =
     (case w of (r, m) \<Rightarrow>
        (case ar_adopted r of
           Some i \<Rightarrow> (r, snd (settle_begin i se now m))
         | None \<Rightarrow>
             if ar_following r then (r\<lparr>ar_following := False, ar_draining := ar_draining r @ [se]\<rparr>, m)
             else (attached_finish se r, m)))"

definition attached_drained :: "attached_run \<Rightarrow> attached_run" where
  "attached_drained r = (case ar_draining r of [] \<Rightarrow> r | se # rest \<Rightarrow> attached_finish se (r\<lparr>ar_draining := rest\<rparr>))"

datatype attached_event =
    ForegroundAborts
  | ForegroundTimesOut
  | OfferDetach
  | LiveChunk string
  | WorkReports "int option" bool
  | WorkSettles task_settlement nat
  | LogDrained
  | UserDetaches string nat

fun attached_step :: "new_task \<Rightarrow> attached_event \<Rightarrow> attached_run \<times> background_manager \<Rightarrow> attached_run \<times> background_manager" where
  "attached_step t ForegroundAborts (r, m) = (if bridged r then (attached_kill ByAbort r, m) else (r, m))"
| "attached_step t ForegroundTimesOut (r, m) = (if bridged r then (attached_kill ByTimeout r, m) else (r, m))"
| "attached_step t OfferDetach (r, m) = (if bridged r then (r\<lparr>ar_offered := True\<rparr>, m) else (r, m))"
| "attached_step t (LiveChunk s) (r, m) = (if \<not> ar_detached r then (r\<lparr>ar_shown := ar_shown r @ [s]\<rparr>, m) else (r, m))"
| "attached_step t (WorkReports code unconfirmed) (r, m) = (r\<lparr>ar_exit := code, ar_unconfirmed := unconfirmed\<rparr>, m)"
| "attached_step t (WorkSettles se now) w = attached_settle se now w"
| "attached_step t LogDrained (r, m) = (attached_drained r, m)"
| "attached_step t (UserDetaches i now) w = attached_detach i t now w"

definition attached_steps :: "new_task \<Rightarrow> attached_event list \<Rightarrow> attached_run \<times> background_manager \<Rightarrow> attached_run \<times> background_manager" where
  "attached_steps t es w = fold (attached_step t) es w"

section \<open>A command stuck on a prompt\<close>

definition stall_check_interval_ms :: nat where
  "stall_check_interval_ms = 15000"

definition stall_tail_bytes :: nat where
  "stall_tail_bytes = 1024"

text \<open>\<open>PROMPT_PATTERNS\<close>, on the line in lower case; \<open>\<dollar>\<close> and \<open>\b\<close> are the two ends of the match.\<close>

definition word_char :: "char \<Rightarrow> bool" where
  "word_char c \<longleftrightarrow> c \<in> set ''abcdefghijklmnopqrstuvwxyzABCDEFGHIJKLMNOPQRSTUVWXYZ0123456789_''"

definition test_at_end :: "bool \<Rightarrow> regex \<Rightarrow> string \<Rightarrow> bool" where
  "test_at_end whole_word r s =
     list_ex (\<lambda>n. (whole_word \<longrightarrow> n = 0 \<or> \<not> word_char (s ! (n - 1))) \<and> regex_full r (drop n s)) [0..<Suc (length s)]"

definition prompt_patterns :: "(string \<Rightarrow> bool) list" where
  "prompt_patterns =
     [regex_test (RLit ''(y/n)''), regex_test (RLit ''[y/n]''), regex_test (RLit ''(yes/no)''),
      test_at_end False (regex_seq [RLit ''?'', RMany (OneOf '' ''), RLit ''('', RClass (OneOf ''yn''), RLit '')'', RMany (OneOf '' '')]),
      test_at_end True (regex_seq [regex_alt [RLit ''do you'', RLit ''would you'', RLit ''shall i'', RLit ''are you sure'', RLit ''ready to''],
        ROpt (RSeq (RClass (NoneOf (''abcdefghijklmnopqrstuvwxyz0123456789_'' @ [CHR 0x0A, CHR 0x0D]))) (RMany any_char)), RLit ''?'', RMany (OneOf '' '')]),
      regex_test (regex_seq [RLit ''press '', regex_alt [RLit ''any key'', RLit ''enter'']]), regex_test (RLit ''continue?''), regex_test (RLit ''overwrite?'')]"

definition js_trim_end :: "string \<Rightarrow> string" where
  "js_trim_end s = rev (dropWhile js_space (rev s))"

definition last_line :: "string \<Rightarrow> string" where
  "last_line s = rev (takeWhile (\<lambda>c. c \<noteq> CHR 0x0A) (rev s))"

definition looks_like_prompt :: "string \<Rightarrow> bool" where
  "looks_like_prompt tail = list_ex (\<lambda>test. test (js_lower (last_line (js_trim_end tail)))) prompt_patterns"

text \<open>
  The watch. A check sees the size of the log, or fails; the text of its end, read only once the size has not changed
  for the threshold, is a function of the size then.
\<close>

record stall_watch =
  sw_size :: int
  sw_growth :: nat
  sw_stopped :: bool
  sw_told :: "(nat \<times> string) list"

definition new_stall_watch :: "nat \<Rightarrow> stall_watch" where
  "new_stall_watch now = \<lparr>sw_size = - 1, sw_growth = now, sw_stopped = False, sw_told = []\<rparr>"

definition stall_check :: "nat \<Rightarrow> nat \<Rightarrow> (nat \<times> string) option \<Rightarrow> stall_watch \<Rightarrow> stall_watch" where
  "stall_check threshold now log w =
     (if sw_stopped w then w
      else case log of
        None \<Rightarrow> w
      | Some (len, tail) \<Rightarrow>
          if int len \<noteq> sw_size w then w\<lparr>sw_size := int len, sw_growth := now\<rparr>
          else if now - sw_growth w < threshold \<or> len = 0 then w
          else if \<not> looks_like_prompt tail then w\<lparr>sw_growth := now\<rparr>
          else w\<lparr>sw_stopped := True, sw_told := sw_told w @ [(now, js_trim_end tail)]\<rparr>)"

definition stall_stop :: "stall_watch \<Rightarrow> stall_watch" where
  "stall_stop w = w\<lparr>sw_stopped := True\<rparr>"

section \<open>What holds of an attached run\<close>

definition attached_ok :: "attached_run \<Rightarrow> bool" where
  "attached_ok r \<longleftrightarrow>
     (\<forall>i. ar_adopted r = Some i \<longleftrightarrow> ar_outcome r = Some (RanDetached i)) \<and>
     (ar_detached r \<longleftrightarrow> ar_adopted r \<noteq> None) \<and> (ar_cause r \<noteq> None \<longleftrightarrow> ar_aborted r) \<and>
     (\<forall>st code still. ar_outcome r = Some (RanSettled st code still) \<longrightarrow>
        st \<noteq> TPaused \<and> (still \<longrightarrow> ar_aborted r \<and> st \<in> {TKilled, TTimedOut}))"

text \<open>The task can be handed over: what the run was checked for when it started.\<close>

definition can_hand_over :: "new_task \<Rightarrow> background_manager \<Rightarrow> bool" where
  "can_hand_over t m \<longleftrightarrow> assert_durable_output (bm_has_store m) (nt_detail t) (nt_output t) = None"

lemma has_store_steps [simp]:
  "bm_has_store (put_task e m) = bm_has_store m" "bm_has_store (tell x m) = bm_has_store m"
  "bm_has_store (enqueue_persist p m) = bm_has_store m" "bm_has_store (m\<lparr>bm_ghosts := g\<rparr>) = bm_has_store m"
  by (simp_all add: put_task_def tell_def enqueue_persist_def)

lemma has_store_persist [simp]: "bm_has_store (persist_live e m) = bm_has_store m"
  by (simp add: persist_live_def Let_def)

lemma has_store_stamp [simp]: "bm_has_store (stamp_notification_queued i now m) = bm_has_store m"
  by (simp add: stamp_notification_queued_def Let_def split: option.split)

lemma has_store_fire [simp]: "bm_has_store (fire_terminal_effects e now m) = bm_has_store m"
  by (simp add: fire_terminal_effects_def steer_terminal_def steer_notice_def Let_def)

lemma has_store_woke: "bm_has_store (fold (\<lambda>w. tell (Woke w)) ws m) = bm_has_store m"
  by (induction ws arbitrary: m) simp_all

lemma has_store_resolve [simp]: "bm_has_store (resolve_waiters i m) = bm_has_store m"
  by (simp add: resolve_waiters_def has_store_woke split: option.split)

lemma has_store_kept:
  "bm_has_store (snd (adopt_running i t aborted now m)) = bm_has_store m" "bm_has_store (snd (settle_begin i se now m)) = bm_has_store m"
  by (simp_all add: adopt_running_def enter_task_def watch_for_stall_def settle_begin_def Let_def
      split: option.split task_detail.split output_ref.split)

lemma attached_step_ok:
  assumes "attached_ok (fst w)" "can_hand_over t (snd w)"
  shows "attached_ok (fst (attached_step t e w)) \<and> can_hand_over t (snd (attached_step t e w))"
proof -
  obtain r m where w: "w = (r, m)" by (cases w)
  have fits: "assert_durable_output (bm_has_store m) (nt_detail t) (nt_output t) = None" using assms(2) by (simp add: can_hand_over_def w)
  have finish: "attached_ok x \<Longrightarrow> attached_ok (attached_finish se x)" for x se
    by (auto simp: attached_ok_def attached_finish_def settled_outcome_def Let_def)
  have drop: "attached_ok x \<Longrightarrow> attached_ok (x\<lparr>ar_draining := d\<rparr>)" "attached_ok x \<Longrightarrow> attached_ok (x\<lparr>ar_following := b, ar_draining := d\<rparr>)" for x b d
    by (simp_all add: attached_ok_def)
  have r: "attached_ok r" using assms(1) by (simp add: w)
  show ?thesis
  proof (cases e)
    case (UserDetaches i now)
    then show ?thesis using assms(2) r fits has_store_kept(1) [of i t "ar_aborted r" now m]
      by (auto simp: w attached_detach_def bridged_def adopt_running_def attached_ok_def can_hand_over_def)
  next
    case (WorkSettles se now)
    then show ?thesis using assms(2) r finish drop has_store_kept(2)
      by (auto simp: w attached_settle_def can_hand_over_def split: option.split)
  next
    case LogDrained
    then show ?thesis using assms(2) r finish [OF drop(1) [OF r]] by (simp add: w attached_drained_def split: list.split)
  qed (use assms in \<open>auto simp: w attached_ok_def attached_kill_def\<close>)
qed

text \<open>An outcome stays; and once there is one, nothing of the foreground reaches the run any more.\<close>

lemma attached_step_keeps:
  assumes "ar_outcome (fst w) = Some out"
  shows "ar_outcome (fst (attached_step t e w)) = Some out \<and> ar_cause (fst (attached_step t e w)) = ar_cause (fst w) \<and>
    ar_aborted (fst (attached_step t e w)) = ar_aborted (fst w)"
proof -
  obtain r m where w: "w = (r, m)" by (cases w)
  have "\<not> bridged r" using assms by (simp add: bridged_def w)
  then show ?thesis using assms
    by (cases e) (auto simp: w attached_settle_def attached_detach_def attached_drained_def attached_finish_def split: option.split list.split)
qed

lemma attached_steps_ok:
  "attached_ok (fst w) \<Longrightarrow> can_hand_over t (snd w) \<Longrightarrow> attached_ok (fst (attached_steps t es w)) \<and> can_hand_over t (snd (attached_steps t es w))"
  unfolding attached_steps_def by (induction es arbitrary: w) (simp_all add: attached_step_ok)

lemma attached_steps_keep:
  "ar_outcome (fst w) = Some out \<Longrightarrow> ar_outcome (fst (attached_steps t es w)) = Some out \<and>
     ar_cause (fst (attached_steps t es w)) = ar_cause (fst w) \<and> ar_aborted (fst (attached_steps t es w)) = ar_aborted (fst w)"
  unfolding attached_steps_def by (induction es arbitrary: w) (use attached_step_keeps in fastforce)+

text \<open>
  C21. Whatever happens to an attached command, and in whatever order: once it has an outcome, that outcome stays, and
  neither the abort of the foreground nor its timeout reaches the command any more, so the end of a turn does not kill
  what was moved to the background. The manager owns the command exactly if the outcome says it was detached, under
  the id the outcome names. A settled command is never reported as paused, and one reported as possibly still running
  was asked to stop and is reported as killed or timed out.
\<close>

theorem attached_run_ends_once:
  assumes "start_attached (bm_has_store m) foreground_aborted follows t = Inr r"
  shows "let w = attached_steps t es (r, m); v = attached_steps t fs w in
    (\<forall>out. ar_outcome (fst w) = Some out \<longrightarrow>
       ar_outcome (fst v) = Some out \<and> ar_cause (fst v) = ar_cause (fst w) \<and> ar_aborted (fst v) = ar_aborted (fst w)) \<and>
    (\<forall>i. ar_adopted (fst w) = Some i \<longleftrightarrow> ar_outcome (fst w) = Some (RanDetached i)) \<and>
    (\<forall>st code still. ar_outcome (fst w) = Some (RanSettled st code still) \<longrightarrow>
       st \<noteq> TPaused \<and> (still \<longrightarrow> ar_aborted (fst w) \<and> st \<in> {TKilled, TTimedOut}))"
proof -
  have "attached_ok r" "can_hand_over t m"
    using assms by (auto simp: start_attached_def attached_ok_def new_attached_def attached_kill_def can_hand_over_def split: option.splits if_splits)
  then have ok: "attached_ok (fst (attached_steps t es (r, m)))" using attached_steps_ok [of "(r, m)" t es] by simp
  have "ar_adopted (fst (attached_steps t es (r, m))) = Some i \<longleftrightarrow> ar_outcome (fst (attached_steps t es (r, m))) = Some (RanDetached i)" for i
    using ok by (simp add: attached_ok_def)
  moreover have "st \<noteq> TPaused \<and> (still \<longrightarrow> ar_aborted (fst (attached_steps t es (r, m))) \<and> st \<in> {TKilled, TTimedOut})"
    if "ar_outcome (fst (attached_steps t es (r, m))) = Some (RanSettled st code still)" for st code still
    using ok that by (simp add: attached_ok_def)
  ultimately show ?thesis using attached_steps_keep unfolding Let_def by blast
qed

definition sample_command :: new_task where
  "sample_command =
     \<lparr>nt_parent = None, nt_call = Some ''c1'', nt_description = ''npm test'', nt_timeout = None, nt_output = Some (FileRef ''/log''),
      nt_detail = ProcessDetail ''npm test'' None\<rparr>"

lemma attached_run_ends_once_witness:
  "\<exists>r. start_attached True False True sample_command = Inr r \<and>
     ar_outcome (fst (attached_steps sample_command [ForegroundAborts, LogDrained]
       (attached_steps sample_command [UserDetaches ''bash-1'' 3] (r, bg_attach True True True (new_manager None))))) = Some (RanDetached ''bash-1'') \<and>
     \<not> ar_aborted (fst (attached_steps sample_command [ForegroundAborts, LogDrained]
       (attached_steps sample_command [UserDetaches ''bash-1'' 3] (r, bg_attach True True True (new_manager None)))))"
proof -
  have m: "bm_has_store (bg_attach True True True (new_manager None))" by (simp add: bg_attach_def)
  obtain r where r: "start_attached True False True sample_command = Inr r" "r = new_attached True"
    by (simp add: start_attached_def assert_durable_output_def sample_command_def)
  let ?m = "bg_attach True True True (new_manager None)"
  have first: "ar_outcome (fst (attached_steps sample_command [UserDetaches ''bash-1'' 3] (r, ?m))) = Some (RanDetached ''bash-1'')"
    "\<not> ar_aborted (fst (attached_steps sample_command [UserDetaches ''bash-1'' 3] (r, ?m)))"
    by (simp_all add: attached_steps_def attached_detach_def bridged_def adopt_running_def r(2) new_attached_def sample_command_def
        assert_durable_output_def)
  have s: "start_attached (bm_has_store ?m) False True sample_command = Inr r" using r(1) m by simp
  show ?thesis using attached_run_ends_once [OF s, of "[UserDetaches ''bash-1'' 3]" "[ForegroundAborts, LogDrained]"] first r(1)
    by (auto simp: Let_def)
qed

text \<open>
  A task_settlement that waits for the last read of a followed log is lost when the user detaches meanwhile: the caller is
  told that the command runs in the background, and the manager holds a running task that nothing will ever settle.
\<close>

lemma enter_task_running:
  "\<exists>e. map_of (bm_tasks (enter_task (new_entry i t now aborted) m)) i = Some e \<and> mt_status e = TRunning"
proof -
  have "\<exists>e. map_of (bm_tasks (tell x (persist_live (new_entry i t now aborted) m))) i = Some e \<and> mt_status e = TRunning \<and> mt_id e = i" for x
    by (simp add: tell_def persist_live_def enqueue_persist_def put_task_def new_entry_def Let_def)
  then obtain e where e: "map_of (bm_tasks (tell (TaskStarted (to_info (new_entry i t now aborted))) (persist_live (new_entry i t now aborted) m))) i = Some e"
      "mt_status e = TRunning" "mt_id e = i" by blast
  have "mt_id (new_entry i t now aborted) = i" by (simp add: new_entry_def)
  then show ?thesis using e
    by (auto simp: enter_task_def watch_for_stall_def put_task_def split: task_detail.split option.split output_ref.split)
qed

lemma settlement_lost_in_detach:
  assumes "start_attached (bm_has_store m) False True t = Inr r"
  shows "let (r', m') = attached_steps t [WorkSettles se n, UserDetaches i k, LogDrained] (r, m) in
    ar_outcome r' = Some (RanDetached i) \<and> ar_draining r' = [] \<and> m' = snd (adopt_running i t False k m) \<and>
    (\<exists>e. map_of (bm_tasks m') i = Some e \<and> mt_status e = TRunning)"
proof -
  have fits: "assert_durable_output (bm_has_store m) (nt_detail t) (nt_output t) = None" and r: "r = new_attached True"
    using assms by (simp_all add: start_attached_def split: option.splits)
  have adopt: "adopt_running i t False k m = (Inr i, enter_task (new_entry i t k False) m)" by (simp add: adopt_running_def fits)
  show ?thesis
    using enter_task_running [of i t k False m]
    by (simp add: attached_steps_def r new_attached_def attached_settle_def attached_detach_def bridged_def adopt attached_drained_def
        attached_finish_def)
qed

section \<open>The watch\<close>

text \<open>The checks so far, as times and sizes, the last first.\<close>

type_synonym checked = "(nat \<times> (nat \<times> string) option) list"

definition stall_checks :: "nat \<Rightarrow> checked \<Rightarrow> nat \<Rightarrow> stall_watch" where
  "stall_checks threshold cs start = fold (\<lambda>(now, log). stall_check threshold now log) cs (new_stall_watch start)"

text \<open>The log had one size, and not 0, in every check of the list from a time on.\<close>

definition unchanged_since :: "nat \<Rightarrow> int \<Rightarrow> checked \<Rightarrow> bool" where
  "unchanged_since t0 n cs \<longleftrightarrow> (\<forall>(now, log) \<in> set cs. t0 \<le> now \<longrightarrow> (case log of Some (len, _) \<Rightarrow> int len = n | None \<Rightarrow> True))"

lemma unchanged_snoc:
  "unchanged_since t0 n (cs @ [(now, log)]) \<longleftrightarrow>
     unchanged_since t0 n cs \<and> (t0 \<le> now \<longrightarrow> (case log of Some (len, _) \<Rightarrow> int len = n | None \<Rightarrow> True))"
  by (auto simp: unchanged_since_def)

text \<open>What justifies a report, and what holds of a watch after some checks.\<close>

definition justified :: "nat \<Rightarrow> nat \<Rightarrow> checked \<Rightarrow> nat \<times> string \<Rightarrow> bool" where
  "justified threshold start cs report \<longleftrightarrow>
     (\<exists>t0 n raw ds es. cs = ds @ (fst report, Some (n, raw)) # es \<and> 0 < n \<and> looks_like_prompt raw \<and> snd report = js_trim_end raw \<and>
        threshold \<le> fst report - t0 \<and> start \<le> t0 \<and> unchanged_since (Suc t0) (int n) (ds @ [(fst report, Some (n, raw))]))"

lemma justified_more: "justified threshold start cs x \<Longrightarrow> justified threshold start (cs @ ds) x"
  unfolding justified_def by fastforce

definition watch_ok :: "nat \<Rightarrow> nat \<Rightarrow> checked \<Rightarrow> stall_watch \<Rightarrow> bool" where
  "watch_ok threshold start cs w \<longleftrightarrow>
     start \<le> sw_growth w \<and> list_all (justified threshold start cs) (sw_told w) \<and> length (sw_told w) \<le> 1 \<and>
     (\<not> sw_stopped w \<longrightarrow> sw_told w = [] \<and> unchanged_since (Suc (sw_growth w)) (sw_size w) cs)"

lemma stall_check_ok:
  assumes w: "watch_ok threshold start cs w" and times: "\<forall>t \<in> set (map fst cs). t \<le> now" "start \<le> now"
  shows "watch_ok threshold start (cs @ [(now, log)]) (stall_check threshold now log w)"
proof (cases "sw_stopped w")
  case True
  then show ?thesis using w justified_more by (auto simp: watch_ok_def stall_check_def list_all_iff)
next
  case False
  have none: "sw_told w = []" and un: "unchanged_since (Suc (sw_growth w)) (sw_size w) cs" using w False by (simp_all add: watch_ok_def)
  have later: "unchanged_since (Suc now) n (cs @ [(now, log)])" for n
    using times(1) by (fastforce simp: unchanged_since_def)
  show ?thesis
  proof (cases log)
    case None
    then show ?thesis using w False by (simp add: stall_check_def watch_ok_def unchanged_snoc)
  next
    case (Some p)
    obtain n raw where log: "log = Some (n, raw)" using Some by (cases p) auto
    show ?thesis
    proof (cases "int n = sw_size w \<and> \<not> (now - sw_growth w < threshold \<or> n = 0) \<and> looks_like_prompt raw")
      case True
      have "unchanged_since (Suc (sw_growth w)) (int n) (cs @ [(now, Some (n, raw))])" using un True by (simp add: unchanged_snoc)
      then have "justified threshold start (cs @ [(now, log)]) (now, js_trim_end raw)"
        unfolding justified_def using True w by (intro exI [of _ "sw_growth w"] exI [of _ n] exI [of _ raw] exI [of _ cs] exI [of _ "[]"])
          (auto simp: log watch_ok_def)
      then show ?thesis using True False w by (simp add: stall_check_def log watch_ok_def none)
    next
      case quiet: False
      then show ?thesis using False w later [unfolded log] un times(2)
        by (auto simp: stall_check_def log watch_ok_def none unchanged_snoc)
    qed
  qed
qed

lemma stall_checks_ok:
  "sorted (start # map fst cs) \<Longrightarrow> watch_ok threshold start cs (stall_checks threshold cs start)"
proof (induction cs rule: rev_induct)
  case Nil
  then show ?case by (simp add: stall_checks_def watch_ok_def new_stall_watch_def unchanged_since_def)
next
  case (snoc c cs)
  obtain now log where c: "c = (now, log)" by (cases c)
  have "watch_ok threshold start (cs @ [(now, log)]) (stall_check threshold now log (stall_checks threshold cs start))"
    using snoc by (intro stall_check_ok) (auto simp: sorted_append c)
  then show ?case by (simp add: stall_checks_def c)
qed

text \<open>
  A background command is reported as stuck at most once, and only on what was seen: its log had some content, had
  one size in every check of at least the threshold before, and its last line reads as a prompt.
\<close>

theorem stall_told_once_when_quiet:
  assumes "sorted (start # map fst cs)"
  shows "length (sw_told (stall_checks threshold cs start)) \<le> 1 \<and>
    (\<forall>report \<in> set (sw_told (stall_checks threshold cs start)).
       \<exists>t0 n raw ds es. cs = ds @ (fst report, Some (n, raw)) # es \<and> 0 < n \<and> looks_like_prompt raw \<and> snd report = js_trim_end raw \<and>
         threshold \<le> fst report - t0 \<and> start \<le> t0 \<and> unchanged_since (Suc t0) (int n) (ds @ [(fst report, Some (n, raw))]))"
  using stall_checks_ok [OF assms, of threshold] by (auto simp: watch_ok_def justified_def list_all_iff)

definition sample_checks :: checked where
  "sample_checks = [(15, Some (8, ''Ok? (y)'')), (30, Some (8, ''Ok? (y)'')), (45, None), (60, Some (8, ''Ok? (y)'')), (75, Some (8, ''Ok? (y)''))]"

lemma stall_told_once_when_quiet_witness:
  "sw_told (stall_checks 45 sample_checks 0) = [(60, ''Ok? (y)'')] \<and>
   length (sw_told (stall_checks 45 sample_checks 0)) \<le> 1"
proof -
  have prompt: "looks_like_prompt ''Ok? (y)''" by code_simp
  have "sorted (0 # map fst sample_checks)" by (simp add: sample_checks_def)
  from stall_told_once_when_quiet [OF this, of 45] show ?thesis
    by (simp add: stall_checks_def sample_checks_def new_stall_watch_def stall_check_def prompt js_trim_end_def js_space_def)
qed

end
