(* ===== verification/Compaction.thy ===== *)
theory Compaction
  imports Complex_Main Conversation Workflow_Journal
begin

text \<open>
  Compaction of a conversation (\<open>agents-core/src/capabilities/compaction\<close>): the estimate of tokens, the thresholds
  and the choice of the cut (\<open>strategy.ts\<close>), the summary with its retries and the gates (\<open>full.ts\<close>), the clearing
  of old tool results (\<open>micro.ts\<close>), the requests (\<open>service.ts\<close>) and the hooks (\<open>index.ts\<close>).

  Ratios are rational numbers. The model, the gates and the injectors of reminders act on a state of the world \<open>'w\<close>.
\<close>

section \<open>Estimates\<close>

definition chars_per_token :: nat where
  "chars_per_token = 4"

definition per_message_overhead :: nat where
  "per_message_overhead = 4"

definition estimate_tokens :: "string \<Rightarrow> nat" where
  "estimate_tokens s = (if s = [] then 0 else (length s + (chars_per_token - 1)) div chars_per_token)"

fun message_content :: "message \<Rightarrow> content_part list" where
  "message_content (UserMsg m) = um_content m"
| "message_content (AssistantMsg m) = am_content m"
| "message_content (ToolResultMsg m) = tm_content m"
| "message_content (SystemMsg s) = map (\<lambda>c. TextPart [c]) s"

fun part_chars :: "content_part \<Rightarrow> nat" where
  "part_chars (TextPart s) = length s"
| "part_chars (ToolCallPart c) = length (json_stringify (tc_arguments c)) + length (tc_name c)"
| "part_chars _ = 16"

definition estimate_tokens_for_message :: "message \<Rightarrow> nat" where
  "estimate_tokens_for_message m =
     per_message_overhead + (sum_list (map part_chars (message_content m)) + (chars_per_token - 1)) div chars_per_token"

definition estimate_tokens_for_messages :: "message list \<Rightarrow> nat" where
  "estimate_tokens_for_messages ms = sum_list (map estimate_tokens_for_message ms)"

section \<open>Thresholds\<close>

record compaction_config =
  cc_summary_reserve :: int
  cc_compact_buffer :: int
  cc_block_buffer :: int
  cc_max_recent :: nat
  cc_max_recent_ratio :: rat
  cc_min_reduction_ratio :: rat

definition default_compaction_config :: compaction_config where
  "default_compaction_config =
     \<lparr>cc_summary_reserve = 20000, cc_compact_buffer = 13000, cc_block_buffer = 3000, cc_max_recent = 4,
      cc_max_recent_ratio = 1 / 5, cc_min_reduction_ratio = 1 / 20\<rparr>"

record compaction_strategy =
  cs_max_size :: int
  cs_max_output :: int
  cs_config :: compaction_config

definition effective_window :: "compaction_strategy \<Rightarrow> int" where
  "effective_window s =
     cs_max_size s - (if cs_max_output s > 0 then min (cs_max_output s) (cc_summary_reserve (cs_config s)) else cc_summary_reserve (cs_config s))"

text \<open>\<open>Math.ceil(effective * MIN_THRESHOLD_RATIO)\<close>, the ratio being a half.\<close>

definition compaction_threshold :: "int \<Rightarrow> compaction_strategy \<Rightarrow> int" where
  "compaction_threshold buffer s =
     (let effective = effective_window s in
      if effective \<le> 0 then cs_max_size s else max (effective - buffer) ((effective + 1) div 2))"

definition compact_threshold :: "compaction_strategy \<Rightarrow> int" where
  "compact_threshold s = compaction_threshold (cc_compact_buffer (cs_config s)) s"

definition block_threshold :: "compaction_strategy \<Rightarrow> int" where
  "block_threshold s = compaction_threshold (cc_block_buffer (cs_config s)) s"

definition reserved_tokens :: "compaction_strategy \<Rightarrow> int" where
  "reserved_tokens s = (if cs_max_size s \<le> 0 then 0 else max 0 (cs_max_size s - compact_threshold s))"

definition check_after_step :: "compaction_strategy \<Rightarrow> bool" where
  "check_after_step s \<longleftrightarrow> compact_threshold s \<noteq> block_threshold s"

definition should_compact :: "compaction_strategy \<Rightarrow> nat \<Rightarrow> bool" where
  "should_compact s used \<longleftrightarrow> cs_max_size s > 0 \<and> compact_threshold s \<le> int used"

definition should_block :: "compaction_strategy \<Rightarrow> nat \<Rightarrow> bool" where
  "should_block s used \<longleftrightarrow> cs_max_size s > 0 \<and> block_threshold s \<le> int used"

section \<open>The cut\<close>

definition answers_call :: "message \<Rightarrow> bool" where
  "answers_call m \<longleftrightarrow> (case m of ToolResultMsg _ \<Rightarrow> True | _ \<Rightarrow> False)"

definition calls_tools :: "message \<Rightarrow> bool" where
  "calls_tools m \<longleftrightarrow> (case m of AssistantMsg a \<Rightarrow> assistant_tool_calls a \<noteq> [] | _ \<Rightarrow> False)"

definition is_user :: "message \<Rightarrow> bool" where
  "is_user m \<longleftrightarrow> (case m of UserMsg _ \<Rightarrow> True | _ \<Rightarrow> False)"

definition can_split_after :: "message list \<Rightarrow> nat \<Rightarrow> bool" where
  "can_split_after ms i \<longleftrightarrow>
     i < length ms \<and> \<not> is_user (ms ! i) \<and> \<not> calls_tools (ms ! i) \<and> \<not> (Suc i < length ms \<and> answers_call (ms ! Suc i))"

fun scan_recent :: "compaction_strategy \<Rightarrow> message list \<Rightarrow> nat list \<Rightarrow> nat \<Rightarrow> nat option \<Rightarrow> nat option" where
  "scan_recent s ms [] recent_size best = best"
| "scan_recent s ms (recent # rest) recent_size best =
     (let split_index = length ms - recent - 1;
          size' = recent_size + estimate_tokens_for_message (ms ! (length ms - recent));
          best' = (if can_split_after ms split_index then Some (Suc split_index) else best);
          reaches_max = (cc_max_recent (cs_config s) \<le> recent \<or>
            of_int (cs_max_size s) * cc_max_recent_ratio (cs_config s) \<le> rat_of_nat size')
      in if reaches_max \<and> best' \<noteq> None then best' else scan_recent s ms rest size' best')"

definition compute_compact_count :: "compaction_strategy \<Rightarrow> message list \<Rightarrow> nat" where
  "compute_compact_count s ms = (case scan_recent s ms [1..<length ms] 0 None of Some n \<Rightarrow> n | None \<Rightarrow> 0)"

fun scan_reduce :: "nat \<Rightarrow> message list \<Rightarrow> nat list \<Rightarrow> nat \<Rightarrow> nat option \<Rightarrow> nat option" where
  "scan_reduce min_reduced ms [] reduced best = best"
| "scan_reduce min_reduced ms (i # rest) reduced best =
     (let reduced' = reduced + estimate_tokens_for_message (ms ! Suc i) in
      if can_split_after ms i
      then if min_reduced \<le> reduced' then Some (Suc i) else scan_reduce min_reduced ms rest reduced' (Some (Suc i))
      else scan_reduce min_reduced ms rest reduced' best)"

definition reduce_compact_on_overflow :: "compaction_strategy \<Rightarrow> message list \<Rightarrow> nat" where
  "reduce_compact_on_overflow s ms =
     (let min_reduced = nat (max 1 \<lceil>of_int (cs_max_size s) * cc_min_reduction_ratio (cs_config s)\<rceil>) in
      case scan_reduce min_reduced ms (rev [1..<length ms - 1]) 0 None of Some n \<Rightarrow> n | None \<Rightarrow> length ms)"

section \<open>The summary\<close>

definition max_compaction_retry_attempts :: nat where
  "max_compaction_retry_attempts = 5"

datatype compaction_error = SummaryAborted string | SummaryIncomplete | PrefixStuck

text \<open>A request to the model: the prefix and the instruction; its answer, or what it threw.\<close>

type_synonym 'w summary_model = "message list \<Rightarrow> 'w \<Rightarrow> (string + assistant_message) \<times> 'w"

definition text_of_assistant :: "assistant_message \<Rightarrow> string" where
  "text_of_assistant m = concat (List.map_filter (\<lambda>p. case p of TextPart s \<Rightarrow> Some s | _ \<Rightarrow> None) (am_content m))"

definition instruction_user_message :: "string \<Rightarrow> nat \<Rightarrow> message" where
  "instruction_user_message t now = UserMsg \<lparr>um_content = [TextPart t], um_timestamp = now\<rparr>"

text \<open>The summary of an answer, if it is a whole one; else the error, if it was thrown.\<close>

definition summary_of_answer :: "string + assistant_message \<Rightarrow> string option + string" where
  "summary_of_answer ans =
     (case ans of
        Inl e \<Rightarrow> Inl (Some e)
      | Inr m \<Rightarrow>
          if am_stop_reason m = StopError
          then Inl (Some (case am_error_message m of Some e \<Rightarrow> e | None \<Rightarrow> ''compaction stream error''))
          else if am_stop_reason m = StopLength \<or> js_trim (text_of_assistant m) = [] then Inl None
          else Inr (text_of_assistant m))"

text \<open>\<open>summarize\<close>, with the number of attempts left.\<close>

fun summarize_attempts ::
  "compaction_strategy \<Rightarrow> 'w summary_model \<Rightarrow> ('w \<Rightarrow> string option) \<Rightarrow> message \<Rightarrow> message list \<Rightarrow> nat \<Rightarrow> nat \<Rightarrow> 'w \<Rightarrow>
   (compaction_error + string \<times> nat) \<times> 'w" where
  "summarize_attempts s model aborted instr ms 0 count w = (Inl SummaryIncomplete, w)"
| "summarize_attempts s model aborted instr ms (Suc left) count w =
     (case aborted w of
        Some e \<Rightarrow> (Inl (SummaryAborted e), w)
      | None \<Rightarrow>
          (case model (take count ms @ [instr]) w of
             (ans, w') \<Rightarrow>
               (case (summary_of_answer ans, aborted w') of
                  (Inr summary, _) \<Rightarrow> (Inr (summary, count), w')
                | (Inl (Some e), Some _) \<Rightarrow> (Inl (SummaryAborted e), w')
                | (Inl _, _) \<Rightarrow>
                    if left = 0 then (Inl SummaryIncomplete, w')
                    else let next = reduce_compact_on_overflow s (take count ms) in
                      if next = 0 then (Inl PrefixStuck, w')
                      else summarize_attempts s model aborted instr ms left next w')))"

definition summarize ::
  "compaction_strategy \<Rightarrow> 'w summary_model \<Rightarrow> ('w \<Rightarrow> string option) \<Rightarrow> message \<Rightarrow> message list \<Rightarrow> nat \<Rightarrow> 'w \<Rightarrow>
   (compaction_error + string \<times> nat) \<times> 'w" where
  "summarize s model aborted instr ms count w = summarize_attempts s model aborted instr ms max_compaction_retry_attempts count w"

section \<open>Gates and the full compaction\<close>

record gate_result =
  gt_cancel :: bool
  gt_replacement :: "(string \<times> int option) option"

text \<open>A gate: whether the compaction was asked for, the messages, the count; \<open>Inl\<close> is a gate that throws.\<close>

type_synonym 'w compaction_gate = "bool \<Rightarrow> message list \<Rightarrow> nat \<Rightarrow> 'w \<Rightarrow> (string + gate_result option) \<times> 'w"

datatype gate_verdict = NoVerdict | Cancelled | Replaced string "int option"

fun consult_gates ::
  "'w compaction_gate list \<Rightarrow> bool \<Rightarrow> message list \<Rightarrow> nat \<Rightarrow> (string \<times> int option) option \<Rightarrow> 'w \<Rightarrow> gate_verdict \<times> 'w" where
  "consult_gates [] manual ms count replacement w =
     ((case replacement of Some (summary, n) \<Rightarrow> Replaced summary n | None \<Rightarrow> NoVerdict), w)"
| "consult_gates (gate # rest) manual ms count replacement w =
     (case gate manual ms count w of
        (Inr (Some g), w') \<Rightarrow>
          if gt_cancel g then (Cancelled, w')
          else consult_gates rest manual ms count (if replacement = None then gt_replacement g else replacement) w'
      | (_, w') \<Rightarrow> consult_gates rest manual ms count replacement w')"

definition clamp_count :: "int \<Rightarrow> nat \<Rightarrow> nat" where
  "clamp_count count len = (if count < 1 then 1 else nat (min count (int len)))"

datatype compaction_event = CompactionStarted bool "string option" | CompactionCompleted nat nat nat

text \<open>
  The parties of a compaction: the strategy, the model, whether the signal is aborted and why, the gates, and what
  rebuilds the reminders the removed messages held. A commit takes the time, the outcome of the store's write and the
  identity of the summary object.
\<close>

record 'w compaction_deps =
  cd_strategy :: compaction_strategy
  cd_model :: "'w summary_model"
  cd_aborted :: "'w \<Rightarrow> string option"
  cd_gates :: "'w compaction_gate list"
  cd_reinject :: "nat \<Rightarrow> conversation_context \<Rightarrow> 'w \<Rightarrow> conversation_context \<times> 'w"
  cd_emit :: "compaction_event \<Rightarrow> 'w \<Rightarrow> 'w"

record commit_stamp =
  cm_now :: nat
  cm_outcome :: "string option"
  cm_summary_id :: nat

definition compaction_instruction :: "string \<Rightarrow> string option \<Rightarrow> string" where
  "compaction_instruction base custom =
     (case custom of
        Some c \<Rightarrow> if js_trim c \<noteq> [] then base @ newline @ newline @ ''Additional instruction: '' @ js_trim c else base
      | None \<Rightarrow> base)"

definition commit_compaction ::
  "'w compaction_deps \<Rightarrow> commit_stamp \<Rightarrow> string \<times> nat \<Rightarrow> conversation_context \<Rightarrow> 'w \<Rightarrow> conversation_context \<times> 'w" where
  "commit_compaction d st sc cx w =
     (let ms = map snd (cx_history cx);
          before = estimate_tokens_for_messages ms;
          after = estimate_tokens_for_messages (summary_message (fst sc) (cm_now st) # drop (snd sc) ms);
          cx1 = apply_compaction (cm_now st) (cm_outcome st) (cm_summary_id st)
            \<lparr>ca_summary = fst sc, ca_count = snd sc, ca_tokens_before = before, ca_tokens_after = after\<rparr> cx
      in case cd_reinject d (snd sc) cx1 w of (cx2, w') \<Rightarrow> (cx2, cd_emit d (CompactionCompleted before after (snd sc)) w'))"

definition run_full_compaction ::
  "'w compaction_deps \<Rightarrow> string \<Rightarrow> commit_stamp \<Rightarrow> bool \<Rightarrow> string option \<Rightarrow> conversation_context \<Rightarrow> 'w \<Rightarrow>
   (compaction_error + nat) \<times> conversation_context \<times> 'w" where
  "run_full_compaction d base st manual instruction cx w =
     (let ms = map snd (cx_history cx); initial_count = compute_compact_count (cd_strategy d) ms in
      if initial_count = 0 then (Inr 0, cx, w)
      else case consult_gates (cd_gates d) manual ms initial_count None w of
        (Cancelled, w1) \<Rightarrow> (Inr 0, cx, w1)
      | (Replaced summary n, w1) \<Rightarrow>
          let count = clamp_count (case n of Some k \<Rightarrow> k | None \<Rightarrow> int initial_count) (length ms) in
          (case commit_compaction d st (summary, count) cx (cd_emit d (CompactionStarted manual instruction) w1) of
             (cx', w') \<Rightarrow> (Inr count, cx', w'))
      | (NoVerdict, w1) \<Rightarrow>
          (case summarize (cd_strategy d) (cd_model d) (cd_aborted d)
                  (instruction_user_message (compaction_instruction base instruction) (cm_now st)) ms initial_count
                  (cd_emit d (CompactionStarted manual instruction) w1) of
             (Inl e, w2) \<Rightarrow> (Inl e, cx, w2)
           | (Inr sc, w2) \<Rightarrow> (case commit_compaction d st sc cx w2 of (cx', w') \<Rightarrow> (Inr (snd sc), cx', w'))))"

section \<open>Clearing old tool results\<close>

record micro_config =
  mc_keep_recent :: nat
  mc_min_content :: nat
  mc_cache_missed_ms :: nat
  mc_marker :: string
  mc_min_usage_ratio :: rat

definition default_micro_config :: micro_config where
  "default_micro_config =
     \<lparr>mc_keep_recent = 20, mc_min_content = 100, mc_cache_missed_ms = 60 * 60 * 1000, mc_marker = ''[Old tool result content cleared]'',
      mc_min_usage_ratio = 1 / 2\<rparr>"

fun text_chars :: "content_part \<Rightarrow> nat" where
  "text_chars (TextPart s) = length s"
| "text_chars _ = 0"

definition content_tokens :: "message \<Rightarrow> nat" where
  "content_tokens m = (sum_list (map text_chars (message_content m)) + 3) div 4"

definition is_marker_only :: "message \<Rightarrow> string \<Rightarrow> bool" where
  "is_marker_only m marker \<longleftrightarrow> message_content m = [TextPart marker]"

definition clear_one :: "micro_config \<Rightarrow> message \<Rightarrow> message option" where
  "clear_one c m =
     (case m of
        ToolResultMsg t \<Rightarrow>
          if mc_min_content c \<le> content_tokens m \<and> \<not> is_marker_only m (mc_marker c)
          then Some (ToolResultMsg (t\<lparr>tm_content := [TextPart (mc_marker c)]\<rparr>)) else None
      | _ \<Rightarrow> None)"

text \<open>\<open>clearOld\<close> on live messages: a cleared message is a new object, whose identity is taken from \<open>ids\<close>.\<close>

definition clear_old :: "micro_config \<Rightarrow> nat \<Rightarrow> (nat \<Rightarrow> nat) \<Rightarrow> live_message list \<Rightarrow> live_message list \<times> nat" where
  "clear_old c cutoff ids ms =
     (map (\<lambda>(i, lm). case clear_one c (snd lm) of Some m \<Rightarrow> if i < cutoff then (ids i, m) else lm | None \<Rightarrow> lm) (enumerate 0 ms),
      length (filter (\<lambda>(i, lm). i < cutoff \<and> clear_one c (snd lm) \<noteq> None) (enumerate 0 ms)))"

definition detect_and_apply ::
  "micro_config \<Rightarrow> nat \<Rightarrow> nat \<Rightarrow> int \<Rightarrow> (nat \<Rightarrow> nat) \<Rightarrow> nat \<Rightarrow> live_message list \<Rightarrow> nat \<times> live_message list \<times> nat" where
  "detect_and_apply c now last_assistant_at max_context ids cutoff ms =
     (if int now - int last_assistant_at < int (mc_cache_missed_ms c) then (cutoff, ms, 0)
      else let used = sum_list (map (content_tokens \<circ> snd) ms);
               ratio = (if max_context > 0 then rat_of_nat used / of_int max_context else 1) in
        if ratio < mc_min_usage_ratio c then (cutoff, ms, 0)
        else let cutoff' = max cutoff (length ms - mc_keep_recent c) in (cutoff', clear_old c cutoff' ids ms))"

section \<open>Requests\<close>

record pending_compaction =
  pc_id :: string
  pc_requested_at :: nat
  pc_instruction :: "string option"

record compaction_service =
  sv_pending :: "(string, pending_compaction) jsmap"
  sv_revision :: nat

definition new_compaction_service :: compaction_service where
  "new_compaction_service = \<lparr>sv_pending = [], sv_revision = 0\<rparr>"

definition record_completed :: "compaction_service \<Rightarrow> compaction_service" where
  "record_completed v = v\<lparr>sv_revision := sv_revision v + 1\<rparr>"

definition request_compaction :: "string \<Rightarrow> nat \<Rightarrow> string option \<Rightarrow> string \<Rightarrow> compaction_service \<Rightarrow> pending_compaction \<times> compaction_service" where
  "request_compaction i now instruction address v =
     (let r = \<lparr>pc_id = i, pc_requested_at = now,
                pc_instruction = Option.bind instruction (\<lambda>t. if js_trim t \<noteq> [] then Some (js_trim t) else None)\<rparr>
      in (r, v\<lparr>sv_pending := jset address r (sv_pending v)\<rparr>))"

definition pending_request :: "string \<Rightarrow> compaction_service \<Rightarrow> pending_compaction option" where
  "pending_request address v = map_of (sv_pending v) address"

definition consume_request :: "string \<Rightarrow> compaction_service \<Rightarrow> pending_compaction option \<times> compaction_service" where
  "consume_request address v = (map_of (sv_pending v) address, v\<lparr>sv_pending := jdelete address (sv_pending v)\<rparr>)"

section \<open>The hooks\<close>

definition max_consecutive_failures :: nat where
  "max_consecutive_failures = 3"

record compaction_state =
  co_service :: compaction_service
  co_failures :: nat
  co_last_assistant :: nat
  co_cutoff :: nat
  co_max_output :: int

record compaction_options =
  op_max_context :: int
  op_config :: compaction_config
  op_micro :: "micro_config option"
  op_instruction :: "string option"
  op_base :: string

definition strategy_of :: "compaction_options \<Rightarrow> compaction_state \<Rightarrow> compaction_strategy" where
  "strategy_of opt s = \<lparr>cs_max_size = op_max_context opt, cs_max_output = co_max_output s, cs_config = op_config opt\<rparr>"

text \<open>\<open>compact\<close>: an automatic one that fails is counted, a requested one fails to its caller, an abort always does.\<close>

definition compact ::
  "compaction_options \<Rightarrow> 'w compaction_deps \<Rightarrow> commit_stamp \<Rightarrow> pending_compaction option \<Rightarrow> conversation_context \<Rightarrow> compaction_state \<Rightarrow> 'w \<Rightarrow>
   (compaction_error + nat) \<times> conversation_context \<times> compaction_state \<times> 'w" where
  "compact opt d st request cx s w =
     (if request = None \<and> max_consecutive_failures \<le> co_failures s then (Inr 0, cx, s, w)
      else case run_full_compaction (d\<lparr>cd_strategy := strategy_of opt s\<rparr>) (op_base opt) st (request \<noteq> None)
              (case Option.bind request pc_instruction of Some i \<Rightarrow> Some i | None \<Rightarrow> op_instruction opt) cx w of
        (Inr count, cx', w') \<Rightarrow>
          (Inr count, cx',
           s\<lparr>co_service := (if 0 < count then record_completed (co_service s) else co_service s), co_failures := 0\<rparr>, w')
      | (Inl e, cx', w') \<Rightarrow>
          if cd_aborted d w' \<noteq> None \<or> request \<noteq> None then (Inl e, cx', s, w')
          else (Inr 0, cx', s\<lparr>co_failures := co_failures s + 1\<rparr>, w'))"

text \<open>The first commit of a step may be followed by a second one, so a step takes two stamps.\<close>

definition compaction_before_step ::
  "compaction_options \<Rightarrow> 'w compaction_deps \<Rightarrow> commit_stamp \<Rightarrow> commit_stamp \<Rightarrow> (nat \<Rightarrow> nat) \<Rightarrow> int \<Rightarrow> conversation_context \<Rightarrow> compaction_state \<Rightarrow> 'w \<Rightarrow>
   (compaction_error + unit) \<times> conversation_context \<times> compaction_state \<times> 'w" where
  "compaction_before_step opt d st1 st2 ids max_output cx s w =
     (let s0 = s\<lparr>co_max_output := max_output\<rparr> in
      case consume_request (cx_address cx) (co_service s0) of
        (manual, v) \<Rightarrow>
          let s1 = s0\<lparr>co_service := v\<rparr> in
          (case (case manual of Some r \<Rightarrow> compact opt d st1 (Some r) cx s1 w | None \<Rightarrow> (Inr 0, cx, s1, w)) of
             (Inl e, cx2, s2, w2) \<Rightarrow> (Inl e, cx2, s2, w2)
           | (Inr _, cx2, s2, w2) \<Rightarrow>
               let (cx3, s3) =
                 (case op_micro opt of
                    None \<Rightarrow> (cx2, s2)
                  | Some c \<Rightarrow>
                      (case detect_and_apply c (cm_now st2) (co_last_assistant s2) (op_max_context opt) ids (co_cutoff s2) (cx_history cx2) of
                         (cutoff, trimmed, n) \<Rightarrow>
                           (if 0 < n then replace_history (cm_now st2) (cm_outcome st2) trimmed cx2 else cx2, s2\<lparr>co_cutoff := cutoff\<rparr>)))
               in if should_block (strategy_of opt s3) (estimate_tokens_for_messages (map snd (cx_history cx3)))
                  then (case compact opt d st2 None cx3 s3 w2 of
                          (Inl e, cx4, s4, w4) \<Rightarrow> (Inl e, cx4, s4, w4) | (Inr _, cx4, s4, w4) \<Rightarrow> (Inr (), cx4, s4, w4))
                  else (Inr (), cx3, s3, w2)))"

definition compaction_after_step ::
  "compaction_options \<Rightarrow> 'w compaction_deps \<Rightarrow> commit_stamp \<Rightarrow> int \<Rightarrow> conversation_context \<Rightarrow> compaction_state \<Rightarrow> 'w \<Rightarrow>
   (compaction_error + unit) \<times> conversation_context \<times> compaction_state \<times> 'w" where
  "compaction_after_step opt d st max_output cx s w =
     (let s1 = s\<lparr>co_max_output := max_output, co_last_assistant := cm_now st\<rparr>; strategy = strategy_of opt s1 in
      if check_after_step strategy \<and> should_compact strategy (estimate_tokens_for_messages (map snd (cx_history cx)))
      then (case compact opt d st None cx s1 w of (Inl e, cx', s', w') \<Rightarrow> (Inl e, cx', s', w') | (Inr _, cx', s', w') \<Rightarrow> (Inr (), cx', s', w'))
      else (Inr (), cx, s1, w))"

text \<open>The flag tells whether the failed step is to be tried again.\<close>

definition compaction_recover_step ::
  "compaction_options \<Rightarrow> 'w compaction_deps \<Rightarrow> commit_stamp \<Rightarrow> bool \<Rightarrow> int \<Rightarrow> conversation_context \<Rightarrow> compaction_state \<Rightarrow> 'w \<Rightarrow>
   (compaction_error + bool) \<times> conversation_context \<times> compaction_state \<times> 'w" where
  "compaction_recover_step opt d st is_overflow max_output cx s w =
     (if \<not> is_overflow then (Inr False, cx, s, w)
      else (case compact opt d st None cx (s\<lparr>co_max_output := max_output\<rparr>) w of
              (Inl e, cx', s', w') \<Rightarrow> (Inl e, cx', s', w') | (Inr n, cx', s', w') \<Rightarrow> (Inr (0 < n), cx', s', w')))"

section \<open>What the scan for the cut finds\<close>

definition recent_size :: "message list \<Rightarrow> nat \<Rightarrow> nat" where
  "recent_size ms r = estimate_tokens_for_messages (drop (length ms - r) ms)"

definition enough_recent :: "compaction_strategy \<Rightarrow> message list \<Rightarrow> nat \<Rightarrow> bool" where
  "enough_recent s ms r \<longleftrightarrow> cc_max_recent (cs_config s) \<le> r \<or>
     of_int (cs_max_size s) * cc_max_recent_ratio (cs_config s) \<le> rat_of_nat (recent_size ms r)"

definition good_cut :: "message list \<Rightarrow> nat \<Rightarrow> bool" where
  "good_cut ms r \<longleftrightarrow> can_split_after ms (length ms - r - 1)"

lemma recent_size_Suc:
  assumes "0 < r" "r \<le> length ms"
  shows "recent_size ms r = recent_size ms (r - 1) + estimate_tokens_for_message (ms ! (length ms - r))"
proof -
  have "drop (length ms - r) ms = ms ! (length ms - r) # drop (length ms - (r - 1)) ms"
    using assms by (subst Cons_nth_drop_Suc [symmetric]) (simp_all add: Suc_diff_le)
  then show ?thesis by (simp add: recent_size_def estimate_tokens_for_messages_def)
qed

lemma enough_recent_mono:
  assumes "enough_recent s ms r" "r \<le> q" "q \<le> length ms"
  shows "enough_recent s ms q"
proof -
  have "recent_size ms r \<le> recent_size ms q"
    using assms(2,3)
  proof (induction q rule: dec_induct)
    case (step q)
    then show ?case using recent_size_Suc [of "Suc q" ms] by simp
  qed simp
  then have "rat_of_nat (recent_size ms r) \<le> rat_of_nat (recent_size ms q)" by simp
  then show ?thesis using assms(1,2) unfolding enough_recent_def by linarith
qed

text \<open>
  The number of messages the cut keeps: the most that can be cut off cleanly before enough are kept, or else the
  fewest after that.
\<close>

definition kept_by_cut :: "compaction_strategy \<Rightarrow> message list \<Rightarrow> nat \<Rightarrow> bool" where
  "kept_by_cut s ms r \<longleftrightarrow>
     0 < r \<and> r < length ms \<and> good_cut ms r \<and>
     (if \<exists>q. 0 < q \<and> q < length ms \<and> good_cut ms q \<and> (q = 1 \<or> \<not> enough_recent s ms (q - 1))
      then (r = 1 \<or> \<not> enough_recent s ms (r - 1)) \<and>
           (\<forall>q. r < q \<and> q < length ms \<and> good_cut ms q \<longrightarrow> enough_recent s ms (q - 1))
      else \<forall>q. 0 < q \<and> q < r \<longrightarrow> \<not> good_cut ms q)"

definition scanned :: "compaction_strategy \<Rightarrow> message list \<Rightarrow> nat \<Rightarrow> nat option \<Rightarrow> bool" where
  "scanned s ms k best \<longleftrightarrow>
     (case best of
        None \<Rightarrow> \<forall>q. 0 < q \<and> q < k \<longrightarrow> \<not> good_cut ms q
      | Some n \<Rightarrow> \<exists>b. n = length ms - b \<and> 0 < b \<and> b < k \<and> good_cut ms b \<and> (\<forall>q. b < q \<and> q < k \<longrightarrow> \<not> good_cut ms q) \<and>
          \<not> enough_recent s ms (k - 1))"

lemma kept_when_enough:
  assumes b: "0 < b" "b \<le> k" "good_cut ms b" "\<forall>q. b < q \<and> q \<le> k \<longrightarrow> \<not> good_cut ms q"
    and k: "k < length ms" "enough_recent s ms k" and early: "b < k \<longrightarrow> \<not> enough_recent s ms (k - 1)"
    and first: "b = k \<longrightarrow> (\<forall>q. 0 < q \<and> q < k \<longrightarrow> \<not> good_cut ms q) \<or> k = 1 \<or> \<not> enough_recent s ms (k - 1)"
  shows "kept_by_cut s ms b"
proof (cases "b = 1 \<or> \<not> enough_recent s ms (b - 1)")
  case True
  have "enough_recent s ms (q - 1)" if "b < q" "q < length ms" "good_cut ms q" for q
  proof -
    have "k < q" using that b(4) by (meson not_le)
    then show ?thesis using enough_recent_mono [OF k(2), of "q - 1"] that by simp
  qed
  then show ?thesis using True b k unfolding kept_by_cut_def by (auto intro!: exI [of _ b])
next
  case False
  then have "b = k"
    using early enough_recent_mono [of s ms "b - 1" "k - 1"] b(2) k(1) diff_le_mono [of b k 1] by fastforce
  then have none: "\<forall>q. 0 < q \<and> q < k \<longrightarrow> \<not> good_cut ms q" using first False by auto
  have "\<not> (q = 1 \<or> \<not> enough_recent s ms (q - 1))" if "0 < q" "q < length ms" "good_cut ms q" for q
  proof -
    have "b \<le> q" using none that \<open>b = k\<close> by (meson not_le)
    then show ?thesis using False that enough_recent_mono [of s ms "b - 1" "q - 1"] b(1) by (cases "q = b") auto
  qed
  then show ?thesis using none b k \<open>b = k\<close> unfolding kept_by_cut_def by auto
qed

lemma scan_recent_finds:
  assumes "0 < k" "k \<le> length ms" "scanned s ms k best"
  shows "case scan_recent s ms [k..<length ms] (recent_size ms (k - 1)) best of
    None \<Rightarrow> \<forall>q. 0 < q \<and> q < length ms \<longrightarrow> \<not> good_cut ms q
  | Some n \<Rightarrow> \<exists>r. n = length ms - r \<and> kept_by_cut s ms r"
  using assms
proof (induction "length ms - k" arbitrary: k best)
  case 0
  then have k: "k = length ms" by simp
  show ?case
  proof (cases best)
    case None
    then show ?thesis using 0(4) k by (simp add: scanned_def)
  next
    case (Some n)
    then obtain b where b: "n = length ms - b" "0 < b" "b < k" "good_cut ms b" "\<forall>q. b < q \<and> q < k \<longrightarrow> \<not> good_cut ms q" "\<not> enough_recent s ms (k - 1)"
      using 0(4) by (auto simp: scanned_def)
    have early: "\<not> enough_recent s ms (b - 1)"
      using b(3,6) k enough_recent_mono [of s ms "b - 1" "k - 1"] diff_le_mono [of b k 1] by fastforce
    then have "\<exists>q. 0 < q \<and> q < length ms \<and> good_cut ms q \<and> (q = 1 \<or> \<not> enough_recent s ms (q - 1))" using b k by blast
    then have "kept_by_cut s ms b" using b k early unfolding kept_by_cut_def by auto
    then show ?thesis using Some b(1) k by auto
  qed
next
  case (Suc d)
  then have k: "k < length ms" by simp
  have list: "[k..<length ms] = k # [Suc k..<length ms]" using k by (simp add: upt_conv_Cons)
  have size: "recent_size ms (k - 1) + estimate_tokens_for_message (ms ! (length ms - k)) = recent_size ms k"
    using recent_size_Suc [of k ms] Suc.prems by simp
  define best' where "best' = (if good_cut ms k then Some (length ms - k) else best)"
  have cut: "(if can_split_after ms (length ms - k - 1) then Some (Suc (length ms - k - 1)) else best) = best'"
    using k Suc_diff_Suc [of k "length ms"] by (simp add: best'_def good_cut_def)
  have enough: "(cc_max_recent (cs_config s) \<le> k \<or> of_int (cs_max_size s) * cc_max_recent_ratio (cs_config s) \<le> rat_of_nat (recent_size ms k)) =
      enough_recent s ms k" by (simp add: enough_recent_def)
  have step: "scan_recent s ms [k..<length ms] (recent_size ms (k - 1)) best =
      (if enough_recent s ms k \<and> best' \<noteq> None then best' else scan_recent s ms [Suc k..<length ms] (recent_size ms k) best')"
    unfolding list scan_recent.simps Let_def size cut enough ..
  show ?case
  proof (cases "enough_recent s ms k \<and> best' \<noteq> None")
    case True
    have "\<exists>b. best' = Some (length ms - b) \<and> 0 < b \<and> b \<le> k \<and> good_cut ms b \<and> (\<forall>q. b < q \<and> q \<le> k \<longrightarrow> \<not> good_cut ms q) \<and>
        (b < k \<longrightarrow> \<not> enough_recent s ms (k - 1)) \<and> (b = k \<longrightarrow> (\<forall>q. 0 < q \<and> q < k \<longrightarrow> \<not> good_cut ms q) \<or> k = 1 \<or> \<not> enough_recent s ms (k - 1))"
    proof (cases "good_cut ms k")
      case good: True
      have "(\<forall>q. 0 < q \<and> q < k \<longrightarrow> \<not> good_cut ms q) \<or> \<not> enough_recent s ms (k - 1)"
        using Suc.prems(3) by (cases best) (auto simp: scanned_def)
      then show ?thesis using good Suc.prems(1) by (intro exI [of _ k]) (auto simp: best'_def)
    next
      case bad: False
      then obtain b where b: "best = Some (length ms - b)" "0 < b" "b < k" "good_cut ms b" "\<forall>q. b < q \<and> q < k \<longrightarrow> \<not> good_cut ms q"
          "\<not> enough_recent s ms (k - 1)"
        using True Suc.prems(3) by (cases best) (auto simp: best'_def scanned_def)
      then show ?thesis using bad by (intro exI [of _ b]) (auto simp: best'_def le_less)
    qed
    then obtain b where b: "best' = Some (length ms - b)" "0 < b" "b \<le> k" "good_cut ms b" "\<forall>q. b < q \<and> q \<le> k \<longrightarrow> \<not> good_cut ms q"
        "b < k \<longrightarrow> \<not> enough_recent s ms (k - 1)" "b = k \<longrightarrow> (\<forall>q. 0 < q \<and> q < k \<longrightarrow> \<not> good_cut ms q) \<or> k = 1 \<or> \<not> enough_recent s ms (k - 1)"
      by blast
    have "kept_by_cut s ms b" using kept_when_enough [OF b(2-5) k _ b(6,7)] True by blast
    then show ?thesis using True b(1) unfolding step by auto
  next
    case False
    have "scanned s ms (Suc k) best'"
    proof (cases "good_cut ms k")
      case True
      then show ?thesis using Suc.prems(1) False by (simp add: best'_def scanned_def) auto
    next
      case bad: False
      show ?thesis
      proof (cases best)
        case None
        then show ?thesis using Suc.prems(3) bad by (auto simp: best'_def scanned_def less_Suc_eq)
      next
        case (Some n)
        then obtain b where "n = length ms - b" "0 < b" "b < k" "good_cut ms b" "\<forall>q. b < q \<and> q < k \<longrightarrow> \<not> good_cut ms q"
          using Suc.prems(3) by (auto simp: scanned_def)
        then show ?thesis using Some bad False by (auto simp: best'_def scanned_def less_Suc_eq intro!: exI [of _ b])
      qed
    qed
    then show ?thesis using False Suc.hyps(1) [of "Suc k" best'] Suc.hyps(2) k unfolding step by auto
  qed
qed

lemma cut_found:
  "(compute_compact_count s ms = 0 \<longleftrightarrow> (\<forall>r. 0 < r \<and> r < length ms \<longrightarrow> \<not> good_cut ms r)) \<and>
   (0 < compute_compact_count s ms \<longrightarrow>
      (\<exists>r. kept_by_cut s ms r \<and> compute_compact_count s ms = length ms - r))"
proof (cases "ms = []")
  case True
  then show ?thesis by (simp add: compute_compact_count_def)
next
  case False
  have "scanned s ms 1 None" by (simp add: scanned_def)
  moreover have "recent_size ms (1 - 1) = 0" by (simp add: recent_size_def estimate_tokens_for_messages_def)
  ultimately have scan: "case scan_recent s ms [1..<length ms] 0 None of
      None \<Rightarrow> \<forall>q. 0 < q \<and> q < length ms \<longrightarrow> \<not> good_cut ms q
    | Some n \<Rightarrow> \<exists>r. n = length ms - r \<and> kept_by_cut s ms r"
    using scan_recent_finds [of 1 ms s None] False by (simp add: Suc_le_eq)
  show ?thesis
  proof (cases "scan_recent s ms [1..<length ms] 0 None")
    case None
    then show ?thesis using scan by (simp add: compute_compact_count_def)
  next
    case (Some n)
    then obtain r where r: "n = length ms - r" "kept_by_cut s ms r"
      using scan by auto
    have "0 < r" "r < length ms" "good_cut ms r" using r(2) unfolding kept_by_cut_def by blast+
    then show ?thesis using Some r by (auto simp: compute_compact_count_def)
  qed
qed

text \<open>
  C24. The choice of the cut, against its meaning: nothing is compacted exactly if no place to cut leaves a message on
  both sides; else the messages kept are the most that can be kept by a clean cut before enough are kept, or, when
  there is no such cut, the fewest that can be kept by one after that. Enough are kept once they reach the number, or
  the share of the window, that the configuration names.
\<close>

theorem cut_is_the_best:
  "(compute_compact_count s ms = 0 \<longleftrightarrow> (\<forall>r. 0 < r \<and> r < length ms \<longrightarrow> \<not> good_cut ms r)) \<and>
   (0 < compute_compact_count s ms \<longrightarrow>
      (\<exists>r. kept_by_cut s ms r \<and> compute_compact_count s ms = length ms - r))"
  by (rule cut_found)

section \<open>Calls stay with their results\<close>

text \<open>
  A history in blocks: an assistant message that calls tools with the results that follow it, or any other single
  message.
\<close>

definition call_block :: "message list \<Rightarrow> bool" where
  "call_block b \<longleftrightarrow> (case b of m # rest \<Rightarrow> \<not> answers_call m \<and> list_all answers_call rest \<and> (rest \<noteq> [] \<longrightarrow> calls_tools m) | [] \<Rightarrow> False)"

lemma call_block_Cons: "call_block b \<Longrightarrow> \<exists>m rest. b = m # rest \<and> \<not> answers_call m \<and> list_all answers_call rest"
  by (cases b) (simp_all add: call_block_def)

text \<open>A place in a concatenation of blocks before a message that is no result is between two blocks.\<close>

lemma between_blocks:
  assumes "list_all call_block bs" "n = length (concat bs) \<or> \<not> answers_call (concat bs ! n)" "n \<le> length (concat bs)"
  shows "\<exists>k. take n (concat bs) = concat (take k bs) \<and> drop n (concat bs) = concat (drop k bs)"
  using assms
proof (induction bs arbitrary: n)
  case Nil
  then show ?case by simp
next
  case (Cons b bs)
  obtain m rest where b: "b = m # rest" "list_all answers_call rest" using call_block_Cons [of b] Cons.prems(1) by auto
  show ?case
  proof (cases "n < length b")
    case True
    have "n = 0"
    proof (rule ccontr)
      assume "n \<noteq> 0"
      then have "answers_call (concat (b # bs) ! n)"
        using True b by (cases n) (auto simp: nth_append list_all_length)
      moreover have "n \<noteq> length (concat (b # bs))" using True by simp
      ultimately show False using Cons.prems(2) by blast
    qed
    then show ?thesis by (intro exI [of _ 0]) simp
  next
    case False
    have "n - length b = length (concat bs) \<or> \<not> answers_call (concat bs ! (n - length b))" "n - length b \<le> length (concat bs)"
      using Cons.prems(2,3) False by (auto simp: nth_append)
    then obtain k where "take (n - length b) (concat bs) = concat (take k bs)" "drop (n - length b) (concat bs) = concat (drop k bs)"
      using Cons.IH [of "n - length b"] Cons.prems(1) by auto
    then show ?thesis using False by (intro exI [of _ "Suc k"]) simp
  qed
qed

lemma split_between_blocks:
  assumes "list_all call_block bs" "can_split_after (concat bs) i"
  shows "\<exists>k. take (Suc i) (concat bs) = concat (take k bs) \<and> drop (Suc i) (concat bs) = concat (drop k bs)"
  using assms(2) by (intro between_blocks [OF assms(1)]) (auto simp: can_split_after_def)

text \<open>The cut when the summary does not fit is a place to split the prefix, or its end.\<close>

lemma scan_reduce_split:
  "scan_reduce b ms is r best = Some n \<Longrightarrow> best = Some n \<or> (\<exists>i. n = Suc i \<and> can_split_after ms i)"
  by (induction b ms "is" r best rule: scan_reduce.induct) (auto simp: Let_def split: if_splits)

lemma reduce_split:
  "reduce_compact_on_overflow s ms = length ms \<or> (\<exists>i. reduce_compact_on_overflow s ms = Suc i \<and> can_split_after ms i)"
  using scan_reduce_split [of _ ms "rev [1..<length ms - 1]" 0 None] by (auto simp: reduce_compact_on_overflow_def Let_def split: option.split)

lemma reduce_le: "reduce_compact_on_overflow s ms \<le> length ms"
  using reduce_split [of s ms] by (auto simp: can_split_after_def)

definition whole_blocks :: "message list list \<Rightarrow> nat \<Rightarrow> bool" where
  "whole_blocks bs n \<longleftrightarrow> n \<le> length (concat bs) \<and> (\<exists>k. take n (concat bs) = concat (take k bs) \<and> drop n (concat bs) = concat (drop k bs))"

lemma whole_blocks_reduce:
  assumes bs: "list_all call_block bs" and n: "whole_blocks bs n"
  shows "whole_blocks bs (reduce_compact_on_overflow s (take n (concat bs)))"
proof -
  obtain k where k: "take n (concat bs) = concat (take k bs)" "drop n (concat bs) = concat (drop k bs)" "n \<le> length (concat bs)"
    using n by (auto simp: whole_blocks_def)
  define q where "q = reduce_compact_on_overflow s (take n (concat bs))"
  have all: "concat bs = concat (take k bs) @ concat (drop k bs)" by (metis append_take_drop_id concat_append)
  have front: "list_all call_block (take k bs)" using bs by (metis append_take_drop_id list_all_append)
  consider "q = length (take n (concat bs))" | i where "q = Suc i" "can_split_after (concat (take k bs)) i"
    using reduce_split [of s "take n (concat bs)"] k(1) by (auto simp: q_def)
  then have "whole_blocks bs q"
  proof cases
    case 1
    then show ?thesis using n k(3) by simp
  next
    case 2
    obtain l where l: "take q (concat (take k bs)) = concat (take l (take k bs))" "drop q (concat (take k bs)) = concat (drop l (take k bs))"
      using split_between_blocks [OF front 2(2)] 2(1) by blast
    have q: "q \<le> length (concat (take k bs))" using 2 by (simp add: can_split_after_def)
    have "take q (concat bs) = concat (take (min l k) bs)"
      using q l(1) by (subst all) (simp add: min.commute)
    moreover have "drop q (concat bs) = concat (drop (min l k) bs)"
    proof -
      have "drop q (concat bs) = concat (drop l (take k bs) @ drop k bs)" using q l(2) by (subst all) simp
      also have "drop l (take k bs) @ drop k bs = drop (min l k) bs"
        by (metis append_take_drop_id drop_drop drop_take le_add_diff_inverse2 linorder_linear min.absorb1 min.absorb2 drop_eq_Nil2 length_take min.bounded_iff append_Nil drop_all)
      finally show ?thesis .
    qed
    moreover have "q \<le> length (concat bs)" using q by (subst all) simp
    ultimately show ?thesis unfolding whole_blocks_def by blast
  qed
  then show ?thesis by (simp add: q_def)
qed

lemma whole_blocks_compute:
  assumes "list_all call_block bs" shows "whole_blocks bs (compute_compact_count s (concat bs))"
proof (cases "compute_compact_count s (concat bs) = 0")
  case True
  then show ?thesis by (auto simp: whole_blocks_def intro!: exI [of _ 0])
next
  case False
  then obtain r where r: "kept_by_cut s (concat bs) r" "compute_compact_count s (concat bs) = length (concat bs) - r"
    using cut_found [of s "concat bs"] by auto
  then have "0 < r" "r < length (concat bs)" and cut: "can_split_after (concat bs) (length (concat bs) - r - 1)"
    by (simp_all add: kept_by_cut_def good_cut_def)
  then have "compute_compact_count s (concat bs) = Suc (length (concat bs) - r - 1)" using r(2) by simp
  moreover have "Suc (length (concat bs) - r - 1) \<le> length (concat bs)" using cut unfolding can_split_after_def by simp
  ultimately show ?thesis using split_between_blocks [OF assms cut] by (simp only: whole_blocks_def)
qed

lemma summarize_whole_blocks:
  assumes bs: "list_all call_block bs"
  shows "whole_blocks bs n \<Longrightarrow> summarize_attempts s model aborted instr (concat bs) left n w = (Inr (summary, m), w') \<Longrightarrow>
    whole_blocks bs m"
proof (induction left arbitrary: n w)
  case (Suc left)
  have "whole_blocks bs (reduce_compact_on_overflow s (take n (concat bs)))" by (rule whole_blocks_reduce [OF bs Suc.prems(1)])
  then show ?case using Suc.prems Suc.IH by (auto simp: Let_def split: option.splits prod.splits sum.splits if_splits)
qed simp

text \<open>The history a commit leaves, reminders aside.\<close>

lemma commit_history:
  "map snd (cx_history (apply_compaction now outcome sid c cx)) = summary_message (ca_summary c) now # drop (ca_count c) (map snd (cx_history cx))"
  by (simp add: apply_compaction_def Let_def journal_def set_origin_def drop_map split: option.split)

lemma summary_is_block: "call_block [summary_message t now]"
  by (simp add: call_block_def summary_message_def answers_call_def)

text \<open>
  C23. A full compaction whose summary the model wrote never separates a tool call from its results: of a history in
  blocks, each a message that calls tools with its results or another single message, whole blocks are summarized and
  whole blocks are kept, behind the summary. (No gate supplies the cut, see \<open>gate_count_splits_calls\<close>, and no hook
  puts messages back.)
\<close>

theorem compaction_keeps_calls_with_results:
  assumes "run_full_compaction d base st manual instruction cx w = (Inr n, cx', w')" "0 < n" "cd_gates d = []"
    "\<And>k c u. cd_reinject d k c u = (c, u)" "map snd (cx_history cx) = concat bs" "list_all call_block bs"
  shows "\<exists>summary k. map snd (cx_history cx') = concat ([summary_message summary (cm_now st)] # drop k bs) \<and>
    take n (concat bs) = concat (take k bs)"
proof -
  have start: "whole_blocks bs (compute_compact_count (cd_strategy d) (concat bs))" by (rule whole_blocks_compute [OF assms(6)])
  obtain summary m w2 where s: "summarize (cd_strategy d) (cd_model d) (cd_aborted d)
        (instruction_user_message (compaction_instruction base instruction) (cm_now st)) (concat bs)
        (compute_compact_count (cd_strategy d) (concat bs)) (cd_emit d (CompactionStarted manual instruction) w) = (Inr (summary, m), w2)"
      and c: "commit_compaction d st (summary, m) cx w2 = (cx', w')" and n: "n = m"
    using assms(1,2,3,5) by (auto simp: run_full_compaction_def Let_def split: if_splits prod.splits sum.splits)
  have "whole_blocks bs m" using summarize_whole_blocks [OF assms(6) start] s by (simp add: summarize_def)
  then obtain k where k: "take m (concat bs) = concat (take k bs)" "drop m (concat bs) = concat (drop k bs)" by (auto simp: whole_blocks_def)
  have "map snd (cx_history cx') = summary_message summary (cm_now st) # drop m (concat bs)"
    using c assms(4,5) by (auto simp: commit_compaction_def Let_def commit_history)
  then show ?thesis using k n by (intro exI [of _ summary] exI [of _ k]) simp
qed

definition sample_call :: tool_call where
  "sample_call = \<lparr>tc_id = ''c1'', tc_name = ''Read'', tc_arguments = JNull\<rparr>"

definition sample_assistant :: "content_part list \<Rightarrow> message" where
  "sample_assistant parts =
     AssistantMsg \<lparr>am_content = parts, am_stop_reason = StopEnd, am_error_message = None,
       am_usage = \<lparr>us_input = 0, us_output = 0, us_cache_read = 0, us_cache_write = 0\<rparr>\<rparr>"

definition sample_result :: message where
  "sample_result =
     ToolResultMsg \<lparr>tm_call_id = ''c1'', tm_tool_name = ''Read'', tm_content = [TextPart ''abc''], tm_details = None, tm_is_error = False\<rparr>"

definition sample_user :: message where
  "sample_user = UserMsg \<lparr>um_content = [TextPart ''go on''], um_timestamp = 0\<rparr>"

definition sample_blocks :: "message list list" where
  "sample_blocks =
     [[sample_user], [sample_assistant [ToolCallPart sample_call], sample_result], [sample_assistant [TextPart ''done'']], [sample_user]]"

definition sample_conversation :: conversation_context where
  "sample_conversation =
     \<lparr>cx_history = enumerate 0 (concat sample_blocks), cx_origins = [], cx_address = ''main'', cx_log = [], cx_write_errors = []\<rparr>"

definition sample_deps :: "nat compaction_deps" where
  "sample_deps =
     \<lparr>cd_strategy = \<lparr>cs_max_size = 100000, cs_max_output = 0, cs_config = default_compaction_config\<lparr>cc_max_recent := 1\<rparr>\<rparr>,
      cd_model = (\<lambda>ms n. (Inr \<lparr>am_content = [TextPart ''read it''], am_stop_reason = StopEnd, am_error_message = None,
        am_usage = \<lparr>us_input = 0, us_output = 0, us_cache_read = 0, us_cache_write = 0\<rparr>\<rparr>, Suc n)),
      cd_aborted = (\<lambda>_. None), cd_gates = [], cd_reinject = (\<lambda>_ cx n. (cx, n)), cd_emit = (\<lambda>_ n. n)\<rparr>"

definition sample_stamp :: commit_stamp where
  "sample_stamp = \<lparr>cm_now = 5, cm_outcome = None, cm_summary_id = 99\<rparr>"

lemmas sample_messages = sample_user_def sample_assistant_def sample_result_def sample_call_def

lemma sample_count: "compute_compact_count (cd_strategy sample_deps) (concat sample_blocks) = 4"
  by (simp add: compute_compact_count_def sample_deps_def sample_blocks_def default_compaction_config_def upt_rec can_split_after_def
      is_user_def calls_tools_def answers_call_def sample_messages assistant_tool_calls_def map_filter_def Let_def)

lemma cut_is_the_best_witness:
  "\<exists>r. kept_by_cut (cd_strategy sample_deps) (concat sample_blocks) r \<and>
     compute_compact_count (cd_strategy sample_deps) (concat sample_blocks) = length (concat sample_blocks) - r"
  using cut_is_the_best [of "cd_strategy sample_deps" "concat sample_blocks"] sample_count by simp

lemma compaction_keeps_calls_with_results_witness:
  "\<exists>cx' w'. run_full_compaction sample_deps ''Summarize'' sample_stamp False None sample_conversation 0 = (Inr 4, cx', w') \<and>
     (\<exists>summary k. map snd (cx_history cx') = concat ([summary_message summary 5] # drop k sample_blocks))"
proof -
  have hist: "map snd (cx_history sample_conversation) = concat sample_blocks" by (simp add: sample_conversation_def)
  have sum: "summarize (cd_strategy sample_deps) (cd_model sample_deps) (cd_aborted sample_deps) instr ms n w = (Inr (''read it'', n), Suc w)" for instr ms n w
    by (simp add: summarize_def max_compaction_retry_attempts_def numeral_eq_Suc sample_deps_def summary_of_answer_def text_of_assistant_def
        map_filter_def js_trim_def js_space_def)
  obtain cx' w' where run: "run_full_compaction sample_deps ''Summarize'' sample_stamp False None sample_conversation 0 = (Inr 4, cx', w')"
  proof -
    have g: "cd_gates sample_deps = []" by (simp add: sample_deps_def)
    obtain cx' w' where c: "commit_compaction sample_deps sample_stamp (''read it'', 4) sample_conversation
        (Suc (cd_emit sample_deps (CompactionStarted False None) 0)) = (cx', w')" by fastforce
    have "run_full_compaction sample_deps ''Summarize'' sample_stamp False None sample_conversation 0 = (Inr 4, cx', w')"
      by (simp add: run_full_compaction_def Let_def hist sample_count g sum c)
    then show ?thesis by (rule that)
  qed
  have blocks: "list_all call_block sample_blocks"
    by (simp add: sample_blocks_def call_block_def answers_call_def calls_tools_def sample_messages assistant_tool_calls_def map_filter_def)
  have "\<exists>summary k. map snd (cx_history cx') = concat ([summary_message summary (cm_now sample_stamp)] # drop k sample_blocks) \<and>
      take 4 (concat sample_blocks) = concat (take k sample_blocks)"
    by (rule compaction_keeps_calls_with_results [OF run _ _ _ hist blocks]) (simp_all add: sample_deps_def)
  then show ?thesis using run by (auto simp: sample_stamp_def)
qed

text \<open>
  A gate may name the number of messages its summary stands for; the number is kept within the history, but not to a
  place where it may be cut: here the kept history begins with the result of a call that is gone.
\<close>

lemma gate_count_splits_calls:
  "\<exists>cx' w'. run_full_compaction (sample_deps\<lparr>cd_gates := [\<lambda>_ _ _ n. (Inr (Some \<lparr>gt_cancel = False, gt_replacement = Some (''short'', Some 2)\<rparr>), n)]\<rparr>)
       ''Summarize'' sample_stamp False None sample_conversation 0 = (Inr 2, cx', w') \<and>
     map snd (cx_history cx') = [summary_message ''short'' 5, sample_result, sample_assistant [TextPart ''done''], sample_user]"
proof -
  let ?d = "sample_deps\<lparr>cd_gates := [\<lambda>_ _ _ n. (Inr (Some \<lparr>gt_cancel = False, gt_replacement = Some (''short'', Some 2)\<rparr>), n)]\<rparr>"
  have hist: "map snd (cx_history sample_conversation) = concat sample_blocks" by (simp add: sample_conversation_def)
  have count: "compute_compact_count (cd_strategy ?d) (concat sample_blocks) = 4" using sample_count by (simp add: sample_deps_def)
  obtain cx' w' where c: "commit_compaction ?d sample_stamp (''short'', 2) sample_conversation (cd_emit ?d (CompactionStarted False None) 0) = (cx', w')"
    by fastforce
  have "clamp_count 2 (length (concat sample_blocks)) = 2" by (simp add: clamp_count_def sample_blocks_def)
  then have run: "run_full_compaction ?d ''Summarize'' sample_stamp False None sample_conversation 0 = (Inr 2, cx', w')"
    using c by (simp add: run_full_compaction_def Let_def hist sample_count)
  have "map snd (cx_history cx') = summary_message ''short'' 5 # drop 2 (concat sample_blocks)"
    using c hist by (auto simp: commit_compaction_def Let_def commit_history sample_deps_def sample_stamp_def)
  then show ?thesis using run by (auto simp: sample_blocks_def)
qed

text \<open>
  When the summary of a prefix does not fit and the prefix has no earlier place to cut, the next attempt asks for the
  summary of the same prefix again; the guard against a prefix of no messages is never reached.
\<close>

lemma overflow_retry_never_empty: "ms \<noteq> [] \<Longrightarrow> reduce_compact_on_overflow s ms \<noteq> 0"
  using reduce_split [of s ms] by auto

lemma overflow_retry_repeats_request:
  assumes "\<forall>i. 0 < i \<and> i < length ms - 1 \<longrightarrow> \<not> can_split_after ms i"
  shows "reduce_compact_on_overflow s ms = length ms"
proof -
  have "scan_reduce b ms is r None = None" if "\<forall>i \<in> set is. \<not> can_split_after ms i" for b "is" r
    using that by (induction "is" arbitrary: r) (simp_all add: Let_def)
  then show ?thesis using assms by (simp add: reduce_compact_on_overflow_def Let_def)
qed

section \<open>Clearing\<close>

text \<open>
  Clearing touches only results of tools among the messages before the cutoff that are big enough, leaves their
  call, their error flag and everything else alone, reports how many it cleared, and has nothing left to clear.
\<close>

lemma clear_one_shape:
  "clear_one c m = Some m' \<Longrightarrow>
     \<exists>t. m = ToolResultMsg t \<and> m' = ToolResultMsg (t\<lparr>tm_content := [TextPart (mc_marker c)]\<rparr>) \<and> mc_min_content c \<le> content_tokens m \<and> clear_one c m' = None"
  by (auto simp: clear_one_def is_marker_only_def split: message.splits if_splits)

lemma clear_old_spec:
  assumes "clear_old c cutoff ids ms = (ms', n)"
  shows "length ms' = length ms \<and>
    (\<forall>i < length ms. case clear_one c (snd (ms ! i)) of
       Some m \<Rightarrow> if i < cutoff then ms' ! i = (ids i, m) else ms' ! i = ms ! i | None \<Rightarrow> ms' ! i = ms ! i) \<and>
    (\<forall>ids'. clear_old c cutoff ids' ms' = (ms', 0))"
proof -
  have len: "length ms' = length ms" using assms by (auto simp: clear_old_def)
  have nth: "ms' ! i = (case clear_one c (snd (ms ! i)) of Some m \<Rightarrow> if i < cutoff then (ids i, m) else ms ! i | None \<Rightarrow> ms ! i)" if "i < length ms" for i
    using assms that by (auto simp: clear_old_def nth_enumerate_eq)
  have none: "clear_one c (snd (ms' ! i)) = None" if "i < length ms'" "i < cutoff" for i
    using that len nth [of i] clear_one_shape by (fastforce split: option.splits)
  have "clear_old c cutoff ids' ms' = (ms', 0)" for ids'
  proof -
    have "map (\<lambda>(i, lm). case clear_one c (snd lm) of Some m \<Rightarrow> if i < cutoff then (ids' i, m) else lm | None \<Rightarrow> lm) (enumerate 0 ms') = ms'"
      by (rule nth_equalityI) (auto simp: nth_enumerate_eq none split: option.split)
    moreover have "filter (\<lambda>(i, lm). i < cutoff \<and> clear_one c (snd lm) \<noteq> None) (enumerate 0 ms') = []"
      by (auto simp: filter_empty_conv in_set_enumerate_eq) (metis none option.distinct(1) snd_conv)
    ultimately show ?thesis by (simp add: clear_old_def)
  qed
  then show ?thesis using len nth by (auto split: option.split)
qed

section \<open>Thresholds\<close>

text \<open>
  The lines at which compaction starts and at which it must have run, for a model whose window is larger than what
  is held back: both lie between the half of the usable window and the whole of it, the first not above the second, so
  the automatic compaction never runs on less than half a window, and a request is never sent with more than the window
  leaves.
\<close>

theorem compaction_lines:
  assumes "0 < effective_window s" "0 \<le> cc_block_buffer (cs_config s)" "cc_block_buffer (cs_config s) \<le> cc_compact_buffer (cs_config s)"
    "0 \<le> cc_summary_reserve (cs_config s)"
  shows "effective_window s \<le> 2 * compact_threshold s \<and> compact_threshold s \<le> block_threshold s \<and> block_threshold s \<le> effective_window s \<and>
    effective_window s \<le> cs_max_size s \<and> 0 < compact_threshold s \<and>
    (should_block s used \<longrightarrow> should_compact s used)"
proof -
  define h where "h = (effective_window s + 1) div 2"
  have half: "effective_window s \<le> 2 * h" "h \<le> effective_window s" "0 < h" using assms(1) unfolding h_def by presburger+
  have size: "effective_window s \<le> cs_max_size s" using assms(4) by (simp add: effective_window_def)
  have lines: "compact_threshold s = max (effective_window s - cc_compact_buffer (cs_config s)) h"
    "block_threshold s = max (effective_window s - cc_block_buffer (cs_config s)) h"
    using assms(1) by (simp_all add: compact_threshold_def block_threshold_def compaction_threshold_def Let_def h_def)
  have "effective_window s \<le> 2 * compact_threshold s" "0 < compact_threshold s" using lines(1) half by linarith+
  moreover have order: "compact_threshold s \<le> block_threshold s" "block_threshold s \<le> effective_window s"
    using lines half assms(2,3) by linarith+
  moreover have "should_block s used \<longrightarrow> should_compact s used"
    using order(1) by (auto simp: should_block_def should_compact_def)
  ultimately show ?thesis using size by blast
qed

lemma compaction_lines_witness:
  "let s = \<lparr>cs_max_size = 200000, cs_max_output = 64000, cs_config = default_compaction_config\<rparr> in
     compact_threshold s = 167000 \<and> block_threshold s = 177000 \<and> compact_threshold s \<le> block_threshold s"
  using compaction_lines [of "\<lparr>cs_max_size = 200000, cs_max_output = 64000, cs_config = default_compaction_config\<rparr>" 0]
  by (simp add: compact_threshold_def block_threshold_def compaction_threshold_def effective_window_def default_compaction_config_def Let_def)

end
