(* ===== verification/Bash_Paths.thy ===== *)
theory Bash_Paths
  imports Bash_Command Js_Regex
begin

text \<open>
  The files a shell command touches, read from its text (\<open>agents-core/src/tool/support/bash-paths.ts\<close>): the split of
  a simple command into words, its redirections, and the operands of well-known commands. A JavaScript lookup that
  reaches an inherited member of an object is a branch of the model, as it makes the code throw.
\<close>

datatype path_operation = ReadPath | WritePath

record bash_path_access =
  bp_operation :: path_operation
  bp_path :: string

record shell_word =
  sw_text :: string
  sw_literal :: bool

section \<open>Tables\<close>

definition command_prefixes :: "string list" where
  "command_prefixes = [''sudo'', ''env'', ''nohup'', ''time'', ''command'', ''builtin'', ''exec'', ''nice'', ''ionice'']"

definition writes_all_args :: "string list" where
  "writes_all_args = [''rm'', ''rmdir'', ''touch'', ''mkdir'', ''unlink'', ''shred'', ''truncate'', ''tee'']"

definition writes_last_arg :: "string list" where
  "writes_last_arg = [''cp'', ''mv'', ''ln'', ''install'', ''rsync'']"

definition writes_args_after_first :: "string list" where
  "writes_args_after_first = [''chmod'', ''chown'', ''chgrp'']"

definition script_commands :: "string list" where
  "script_commands = [''sed'', ''gsed'', ''perl'', ''awk'', ''gawk'']"

definition reads_all_args :: "string list" where
  "reads_all_args =
     [''cat'', ''head'', ''tail'', ''less'', ''more'', ''wc'', ''file'', ''stat'', ''nl'', ''od'', ''xxd'', ''strings'',
      ''base64'', ''md5sum'', ''sha1sum'', ''sha256sum'', ''shasum'', ''cmp'', ''diff'', ''sort'', ''readlink'']"

definition option_values :: "(string \<times> string list) list" where
  "option_values =
     [(''head'', [''-n'', ''-c'', ''--lines'', ''--bytes'']),
      (''tail'', [''-n'', ''-c'', ''--lines'', ''--bytes'', ''-s'', ''--sleep-interval'', ''--pid'']),
      (''sort'', [''-k'', ''-t'', ''-S'', ''-T'', ''--key'', ''--field-separator'', ''--buffer-size'', ''--temporary-directory'']),
      (''nl'', [''-b'', ''-d'', ''-f'', ''-h'', ''-i'', ''-l'', ''-n'', ''-s'', ''-v'', ''-w'']),
      (''od'', [''-A'', ''-j'', ''-N'', ''-t'', ''-w'']),
      (''xxd'', [''-c'', ''-g'', ''-l'', ''-o'', ''-s'']),
      (''strings'', [''-n'', ''-t'', ''-e'']),
      (''base64'', [''-w'', ''--wrap'']),
      (''diff'', [''-U'', ''-C'', ''-L'', ''--label'', ''-I'', ''--ignore-matching-lines'']),
      (''cmp'', [''-i'', ''-n'', ''--ignore-initial'', ''--bytes'']),
      (''shasum'', [''-a'', ''--algorithm''])]"

text \<open>The names every plain object answers to, whose values have no method \<open>has\<close>.\<close>

definition inherited_names :: "string list" where
  "inherited_names =
     [''constructor'', ''hasOwnProperty'', ''isPrototypeOf'', ''propertyIsEnumerable'', ''toLocaleString'', ''toString'', ''valueOf'',
      ''__proto__'', ''__defineGetter__'', ''__defineSetter__'', ''__lookupGetter__'', ''__lookupSetter__'']"

datatype value_options = NoTable | ValueOptions "string list" | InheritedMember

definition lookup_option_values :: "string \<Rightarrow> value_options" where
  "lookup_option_values name =
     (case map_of option_values name of
        Some os \<Rightarrow> ValueOptions os
      | None \<Rightarrow> if name \<in> set inherited_names then InheritedMember else NoTable)"

definition digits_class :: char_class where
  "digits_class = OneOf ''0123456789''"

definition stream_device :: "string \<Rightarrow> bool" where
  "stream_device p = regex_full (RSeq (RLit ''/dev/'') (regex_alt
     [RLit ''null'', RLit ''zero'', RSeq (ROpt (RLit ''u'')) (RLit ''random''), RLit ''stdin'', RLit ''stdout'', RLit ''stderr'', RLit ''tty'',
      RSeq (RLit ''fd/'') (r_some digits_class)])) p"

section \<open>Words\<close>

record word_state =
  ws_words :: "shell_word list"
  ws_current :: string
  ws_started :: bool
  ws_literal :: bool
  ws_single :: bool
  ws_double :: bool

definition word_start :: word_state where
  "word_start = \<lparr>ws_words = [], ws_current = [], ws_started = False, ws_literal = True, ws_single = False, ws_double = False\<rparr>"

definition push_word :: "word_state \<Rightarrow> word_state" where
  "push_word st =
     st\<lparr>ws_words := (if ws_started st then ws_words st @ [\<lparr>sw_text = ws_current st, sw_literal = ws_literal st\<rparr>] else ws_words st),
        ws_current := [], ws_started := False, ws_literal := True\<rparr>"

definition put_char :: "char \<Rightarrow> word_state \<Rightarrow> word_state" where
  "put_char ch st = st\<lparr>ws_current := ws_current st @ [ch]\<rparr>"

text \<open>One iteration of the loop: the new state, and how many characters it consumed after \<open>ch\<close>.\<close>

definition word_step :: "char \<Rightarrow> string \<Rightarrow> word_state \<Rightarrow> word_state \<times> nat" where
  "word_step ch rest st =
     (if ws_single st then (if ch = squote then st\<lparr>ws_single := False\<rparr> else put_char ch st, 0)
      else if ch = backslash \<and> rest \<noteq> [] then ((put_char (hd rest) st)\<lparr>ws_started := True\<rparr>, 1)
      else if ch = squote \<and> \<not> ws_double st then (st\<lparr>ws_single := True, ws_started := True\<rparr>, 0)
      else if ch = dquote then (st\<lparr>ws_double := \<not> ws_double st, ws_started := True\<rparr>, 0)
      else if \<not> ws_double st \<and> js_space ch then (push_word st, 0)
      else
        let expands = (if ws_double st then ch \<in> set [CHR ''$'', backtick] else ch \<in> set ''$*?['')
        in ((put_char ch st)\<lparr>ws_started := True, ws_literal := ws_literal st \<and> \<not> expands\<rparr>, 0))"

function split_chars :: "string \<Rightarrow> word_state \<Rightarrow> word_state" where
  "split_chars [] st = st"
| "split_chars (ch # rest) st = (case word_step ch rest st of (st', n) \<Rightarrow> split_chars (drop n rest) st')"
  by pat_completeness auto
termination by (relation "measure (length \<circ> fst)") auto

definition split_words :: "string \<Rightarrow> shell_word list" where
  "split_words s = ws_words (push_word (split_chars s word_start))"

section \<open>Redirections\<close>

definition is_write_redirect :: "string \<Rightarrow> bool" where
  "is_write_redirect s = regex_full (regex_alt
     [regex_seq [RMany digits_class, ROpt (RLit ''&''), RLit ''>'', ROpt (RLit ''>''), ROpt (RLit ''|'')],
      regex_seq [RLit ''&'', RLit ''>'', ROpt (RLit ''>'')]]) s"

definition is_read_redirect :: "string \<Rightarrow> bool" where
  "is_read_redirect s = regex_full (RSeq (RMany digits_class) (RLit ''<'')) s"

text \<open>
  What the operator at the front of a glued redirection may leave, in the order in which the greedy match tries it; the
  second alternative of the source, \<open>&>{1,2}\<close>, matches nothing that the first does not.
\<close>

definition glued_rests :: "string \<Rightarrow> string list" where
  "glued_rests s =
     (let after = dropWhile (in_class digits_class) s;
          amp = (if next_is (CHR ''&'') after then tl after else after) in
      (if next_is (CHR ''>'') amp
       then let one = tl amp;
                bar = (\<lambda>r. if next_is (CHR ''|'') r then [tl r, r] else [r])
            in (if next_is (CHR ''>'') one then bar (tl one) else []) @ bar one
       else []) @
      (if next_is (CHR ''<'') after then [tl after] else []))"

definition line_end :: "char \<Rightarrow> bool" where
  "line_end c \<longleftrightarrow> c \<in> set [CHR 0x0A, CHR 0x0D]"

definition glued_redirect :: "string \<Rightarrow> (string \<times> string) option" where
  "glued_redirect s =
     (case filter (\<lambda>r. r \<noteq> [] \<and> \<not> list_ex line_end r) (glued_rests s) of
        r # _ \<Rightarrow> Some (take (length s - length r) s, r)
      | [] \<Rightarrow> None)"

definition access_of :: "bool \<Rightarrow> string \<Rightarrow> bash_path_access" where
  "access_of writes p = \<lparr>bp_operation = (if writes then WritePath else ReadPath), bp_path = p\<rparr>"

text \<open>The accesses of the redirections, and the words that stay.\<close>

fun take_redirects :: "shell_word list \<Rightarrow> bash_path_access list \<times> shell_word list" where
  "take_redirects [] = ([], [])"
| "take_redirects (w # ws) =
     (let writes = is_write_redirect (sw_text w) in
      if writes \<or> is_read_redirect (sw_text w)
      then (case ws of
              [] \<Rightarrow> ([], [])
            | target # ws' \<Rightarrow>
                (case take_redirects ws' of
                   (out, rest) \<Rightarrow>
                     (if sw_literal target \<and> \<not> next_is (CHR ''&'') (sw_text target) then access_of writes (sw_text target) # out else out, rest)))
      else case glued_redirect (sw_text w) of
        Some (operator, target) \<Rightarrow>
          if is_write_redirect operator \<or> is_read_redirect operator
          then (case take_redirects ws of
                  (out, rest) \<Rightarrow>
                    (if sw_literal w \<and> \<not> next_is (CHR ''&'') target then access_of (is_write_redirect operator) target # out else out, rest))
          else (case take_redirects ws of (out, rest) \<Rightarrow> (out, w # rest))
      | None \<Rightarrow> (case take_redirects ws of (out, rest) \<Rightarrow> (out, w # rest)))"

section \<open>Operands\<close>

definition is_option :: "string \<Rightarrow> bool" where
  "is_option t \<longleftrightarrow> next_is (CHR ''-'') t \<and> 1 < length t"

definition type_error :: string where
  "type_error = ''withValue?.has is not a function''"

fun operands :: "value_options \<Rightarrow> bool \<Rightarrow> shell_word list \<Rightarrow> string + shell_word list" where
  "operands with_value ended [] = Inr []"
| "operands with_value ended (w # ws) =
     (if \<not> ended \<and> sw_text w = ''--'' then operands with_value True ws
      else if \<not> ended \<and> is_option (sw_text w)
      then (case with_value of
              InheritedMember \<Rightarrow> Inl type_error
            | NoTable \<Rightarrow> operands with_value ended ws
            | ValueOptions os \<Rightarrow> if sw_text w \<in> set os then operands with_value ended (tl ws) else operands with_value ended ws)
      else map_sum id ((#) w) (operands with_value ended ws))"

record script_scan =
  sn_in_place :: bool
  sn_script_option :: bool
  sn_operands :: "shell_word list"

definition in_place_flag :: "string \<Rightarrow> string \<Rightarrow> bool" where
  "in_place_flag name t \<longleftrightarrow>
     (if name = ''sed'' \<or> name = ''gsed'' then prefix ''-i'' t \<or> t = ''--in-place'' \<or> prefix ''--in-place='' t
      else next_is (CHR ''-'') t \<and> CHR ''i'' \<in> set (takeWhile (\<lambda>c. c \<noteq> CHR ''-'') (tl t)))"

fun scan_script :: "string \<Rightarrow> bool \<Rightarrow> shell_word list \<Rightarrow> script_scan \<Rightarrow> script_scan" where
  "scan_script name ended [] r = r"
| "scan_script name ended (w # ws) r =
     (let t = sw_text w in
      if \<not> ended \<and> t = ''--'' then scan_script name True ws r
      else if \<not> ended \<and> is_option t
      then let r1 = (if in_place_flag name t then r\<lparr>sn_in_place := True\<rparr> else r) in
        if t \<in> set [''-e'', ''-f'', ''--expression'', ''--file''] then scan_script name ended (tl ws) (r1\<lparr>sn_script_option := True\<rparr>)
        else scan_script name ended ws (if prefix ''--expression='' t \<or> prefix ''--file='' t then r1\<lparr>sn_script_option := True\<rparr> else r1)
      else scan_script name ended ws (r\<lparr>sn_operands := sn_operands r @ [w]\<rparr>))"

definition script_command_files :: "string \<Rightarrow> shell_word list \<Rightarrow> bool \<times> shell_word list" where
  "script_command_files name ws =
     (let r = scan_script name False ws \<lparr>sn_in_place = False, sn_script_option = False, sn_operands = []\<rparr>;
          nonempty = filter (\<lambda>w. sw_text w \<noteq> []) (sn_operands r)
      in (sn_in_place r, if sn_script_option r then nonempty else drop 1 nonempty))"

definition push_literal :: "shell_word list \<Rightarrow> bool \<Rightarrow> bash_path_access list" where
  "push_literal ws writes = map (\<lambda>w. access_of writes (sw_text w)) (filter (\<lambda>w. sw_literal w \<and> sw_text w \<noteq> []) ws)"

section \<open>Commands\<close>

text \<open>\<open>replace(/^.*\//, "")\<close>: the dot stays on the first line.\<close>

definition strip_directories :: "string \<Rightarrow> string" where
  "strip_directories t =
     (let line = takeWhile (\<lambda>c. \<not> line_end c) t in
      if CHR ''/'' \<in> set line then rev (takeWhile (\<lambda>c. c \<noteq> CHR ''/'') (rev line)) @ drop (length line) t else t)"

definition is_wrapper :: "string \<Rightarrow> bool" where
  "is_wrapper t \<longleftrightarrow> t \<in> set command_prefixes \<or> env_assignment t \<noteq> None"

definition command_paths :: "string \<Rightarrow> string + bash_path_access list" where
  "command_paths subcommand =
     (case take_redirects (split_words subcommand) of
        (out, kept) \<Rightarrow>
          (case dropWhile (\<lambda>w. is_wrapper (sw_text w)) kept of
             [] \<Rightarrow> Inr out
           | verb # raw \<Rightarrow>
               if \<not> sw_literal verb then Inr out
               else let name = strip_directories (sw_text verb) in
                 (case operands (lookup_option_values name) False raw of
                    Inl e \<Rightarrow> Inl e
                  | Inr args \<Rightarrow>
                      Inr (out @
                        (if name \<in> set script_commands then (case script_command_files name raw of (in_place, files) \<Rightarrow> push_literal files in_place)
                         else if name \<in> set writes_all_args then push_literal args True
                         else if name \<in> set writes_last_arg
                         then (if 2 \<le> length args then push_literal (butlast args) False @ push_literal [last args] True else [])
                         else if name \<in> set writes_args_after_first then push_literal (drop 1 args) True
                         else if name \<in> set reads_all_args then push_literal args False
                         else [])))))"

fun all_paths :: "string list \<Rightarrow> string + bash_path_access list" where
  "all_paths [] = Inr []"
| "all_paths (c # cs) =
     (case command_paths c of Inl e \<Rightarrow> Inl e | Inr out \<Rightarrow> map_sum id ((@) out) (all_paths cs))"

definition extract_bash_paths :: "string \<Rightarrow> string + bash_path_access list" where
  "extract_bash_paths command =
     (let scan = scan_shell_command command in
      if sc_risky scan then Inr []
      else map_sum id (filter (\<lambda>a. \<not> stream_device (bp_path a))) (all_paths (sc_subcommands scan)))"

section \<open>Plain words\<close>

definition special_chars :: string where
  "special_chars = [squote, dquote, backslash, backtick, newline, CHR 0x0D, CHR 0x09, CHR 0x0B, CHR 0x0C, CHR 0xA0] @ '' $*?[<>&|;=('' "

definition plain_char :: "char \<Rightarrow> bool" where
  "plain_char c \<longleftrightarrow> ascii_letter c \<or> ascii_digit c \<or> c \<in> set ''/._-+,:@%''"

definition plain_word :: "string \<Rightarrow> bool" where
  "plain_word w \<longleftrightarrow> w \<noteq> [] \<and> list_all plain_char w"

lemma special_not_plain: "list_all (\<lambda>c. \<not> plain_char c) special_chars"
  by code_simp

lemma plain_not_special: "plain_char c \<Longrightarrow> c \<notin> set special_chars"
  using special_not_plain by (auto simp: list_all_iff)

lemma plain_char_simps:
  assumes "plain_char c"
  shows "c \<noteq> squote" "c \<noteq> dquote" "c \<noteq> backslash" "c \<noteq> backtick" "c \<noteq> newline" "\<not> js_space c" "c \<noteq> CHR '' ''" "c \<noteq> CHR ''$''" "c \<noteq> CHR ''*''"
    "c \<noteq> CHR ''?''" "c \<noteq> CHR ''[''" "c \<noteq> CHR ''<''" "c \<noteq> CHR ''>''" "c \<noteq> CHR ''&''" "c \<noteq> CHR ''|''" "c \<noteq> CHR '';''" "c \<noteq> CHR ''=''"
  using plain_not_special [OF assms] by (simp_all add: special_chars_def js_space_def)

lemma word_step_plain:
  "plain_char c \<Longrightarrow> \<not> ws_single st \<Longrightarrow> \<not> ws_double st \<Longrightarrow> word_step c rest st = ((put_char c st)\<lparr>ws_started := True\<rparr>, 0)"
  by (simp add: word_step_def plain_char_simps Let_def put_char_def)

lemma split_plain:
  "list_all plain_char w \<Longrightarrow> \<not> ws_single st \<Longrightarrow> \<not> ws_double st \<Longrightarrow>
     split_chars (w @ rest) st = split_chars rest (st\<lparr>ws_current := ws_current st @ w, ws_started := ws_started st \<or> w \<noteq> []\<rparr>)"
  by (induction w arbitrary: st) (simp_all add: word_step_plain put_char_def)

lemma split_space: "\<not> ws_single st \<Longrightarrow> \<not> ws_double st \<Longrightarrow> split_chars (CHR '' '' # rest) st = split_chars rest (push_word st)"
  by (simp add: word_step_def js_space_def Let_def)

abbreviation literal_word :: "string \<Rightarrow> shell_word" where
  "literal_word t \<equiv> \<lparr>sw_text = t, sw_literal = True\<rparr>"

lemma split_tail:
  "list_all plain_word ws \<Longrightarrow>
     ws_words (push_word (split_chars (concat (map (\<lambda>x. CHR '' '' # x) ws)) (word_start\<lparr>ws_words := ps, ws_current := w, ws_started := True\<rparr>)))
       = ps @ map literal_word (w # ws)"
proof (induction ws arbitrary: ps w)
  case Nil
  then show ?case by (simp add: push_word_def word_start_def)
next
  case (Cons x ws)
  have push: "push_word (word_start\<lparr>ws_words := ps, ws_current := w, ws_started := True\<rparr>) = word_start\<lparr>ws_words := ps @ [literal_word w]\<rparr>"
    by (simp add: push_word_def word_start_def)
  have "split_chars (concat (map (\<lambda>x. CHR '' '' # x) (x # ws))) (word_start\<lparr>ws_words := ps, ws_current := w, ws_started := True\<rparr>)
      = split_chars (concat (map (\<lambda>x. CHR '' '' # x) ws)) (word_start\<lparr>ws_words := ps @ [literal_word w], ws_current := x, ws_started := True\<rparr>)"
    using Cons.prems push by (simp add: split_space split_plain plain_word_def word_start_def del: split_chars.simps)
  then show ?case using Cons.IH [where ps = "ps @ [literal_word w]" and w = x] Cons.prems by simp
qed

lemma split_join: "list_all plain_word ws \<Longrightarrow> ws \<noteq> [] \<Longrightarrow> split_words (join_space ws) = map literal_word ws"
proof (cases ws)
  case (Cons w ws')
  assume "list_all plain_word ws"
  then have "split_chars (join_space ws) word_start = split_chars (concat (map (\<lambda>x. CHR '' '' # x) ws')) (word_start\<lparr>ws_words := [], ws_current := w, ws_started := True\<rparr>)"
    using Cons split_plain [of w word_start] by (simp add: join_space_def plain_word_def word_start_def)
  then show ?thesis using split_tail [where ws = ws' and ps = "[]" and w = w] Cons \<open>list_all plain_word ws\<close> by (simp add: split_words_def)
qed simp

section \<open>Plain words are no redirections\<close>

lemma write_redirect_mark: "is_write_redirect s \<Longrightarrow> CHR ''>'' \<in> set s"
  by (auto simp: is_write_redirect_def regex_full_lang)

lemma read_redirect_mark: "is_read_redirect s \<Longrightarrow> CHR ''<'' \<in> set s"
  by (auto simp: is_read_redirect_def regex_full_lang)

lemma next_is_in: "next_is c s \<Longrightarrow> c \<in> set s"
  by (auto simp: next_is_def split: list.splits)

lemma set_tl: "x \<in> set (tl l) \<Longrightarrow> x \<in> set l"
  by (cases l) auto

lemma glued_rests_plain:
  assumes "CHR ''>'' \<notin> set s" "CHR ''<'' \<notin> set s"
  shows "glued_rests s = []"
proof -
  have d: "set (dropWhile (in_class digits_class) s) \<subseteq> set s" by (auto dest: set_dropWhileD)
  then have "\<not> next_is (CHR ''<'') (dropWhile (in_class digits_class) s)" "\<not> next_is (CHR ''>'') (dropWhile (in_class digits_class) s)"
    "\<not> next_is (CHR ''>'') (tl (dropWhile (in_class digits_class) s))"
    using assms by (auto dest!: next_is_in set_tl)
  then show ?thesis by (simp add: glued_rests_def Let_def)
qed

lemma plain_word_marks: "plain_word w \<Longrightarrow> CHR ''>'' \<notin> set w \<and> CHR ''<'' \<notin> set w \<and> CHR ''='' \<notin> set w"
  by (auto simp: plain_word_def list_all_iff dest: plain_char_simps)

lemma take_redirects_plain: "list_all plain_word ws \<Longrightarrow> take_redirects (map literal_word ws) = ([], map literal_word ws)"
proof (induction ws)
  case (Cons w ws)
  then have m: "CHR ''>'' \<notin> set w" "CHR ''<'' \<notin> set w" using plain_word_marks by simp_all
  then have "\<not> is_write_redirect w" "\<not> is_read_redirect w" "glued_redirect w = None"
    using write_redirect_mark read_redirect_mark by (auto simp: glued_redirect_def glued_rests_plain)
  then show ?case using Cons by simp
qed simp

section \<open>Plain commands are one part\<close>

lemma scan_step_plain:
  "plain_char c \<or> c = CHR '' '' \<Longrightarrow> \<not> ss_single st \<Longrightarrow> \<not> ss_double st \<Longrightarrow> scan_step c rest st = (add_char c st, 0)"
proof -
  assume c: "plain_char c \<or> c = CHR '' ''" and q: "\<not> ss_single st" "\<not> ss_double st"
  have "\<forall>x \<in> set [squote, dquote, backslash, backtick, newline, CHR ''$'', CHR ''<'', CHR ''>'', CHR ''&'', CHR ''|'', CHR '';'']. c \<noteq> x"
  proof (cases "plain_char c")
    case True
    then show ?thesis by (simp add: plain_char_simps)
  next
    case False
    then show ?thesis using c by simp
  qed
  then show ?thesis using q by (simp add: scan_step_def)
qed

lemma scan_plain:
  "list_all (\<lambda>c. plain_char c \<or> c = CHR '' '') s \<Longrightarrow> \<not> ss_single st \<Longrightarrow> \<not> ss_double st \<Longrightarrow>
     scan_chars s st = st\<lparr>ss_current := ss_current st @ s\<rparr>"
proof (induction s arbitrary: st)
  case (Cons c s)
  then show ?case using scan_step_plain [of c st s] by (simp add: add_char_def)
qed simp

lemma join_plain: "list_all plain_word ws \<Longrightarrow> list_all (\<lambda>c. plain_char c \<or> c = CHR '' '') (join_space ws)"
  by (auto simp: join_space_def plain_word_def list_all_iff split: list.splits)

lemma join_ends:
  assumes "list_all plain_word ws" "ws \<noteq> []"
  shows "join_space ws \<noteq> [] \<and> plain_char (hd (join_space ws)) \<and> plain_char (last (join_space ws))"
proof (cases ws)
  case (Cons w ws')
  have w: "w \<noteq> []" "list_all plain_char w" using assms Cons by (simp_all add: plain_word_def)
  have ends: "plain_char (last (w @ concat (map (\<lambda>x. CHR '' '' # x) ws')))"
  proof (cases ws' rule: rev_cases)
    case Nil
    then show ?thesis using w by (simp add: list_all_iff)
  next
    case (snoc ys y)
    then have "y \<noteq> []" "list_all plain_char y" using assms Cons by (simp_all add: plain_word_def)
    then show ?thesis using snoc by (simp add: list_all_iff)
  qed
  then show ?thesis using w Cons by (simp add: join_space_def list_all_iff)
qed (use assms in simp)

lemma scan_plain_command:
  assumes "list_all plain_word (w # ws)" "w \<notin> set risky_command_words"
  shows "scan_shell_command (join_space (w # ws)) = \<lparr>sc_subcommands = [join_space (w # ws)], sc_risky = False\<rparr>"
proof -
  let ?c = "join_space (w # ws)"
  have e: "?c \<noteq> []" "plain_char (hd ?c)" "plain_char (last ?c)" using join_ends [OF assms(1)] by simp_all
  have scan: "scan_chars ?c scan_start = scan_start\<lparr>ss_current := ?c\<rparr>"
    using scan_plain [OF join_plain [OF assms(1)], of scan_start] by (simp add: scan_start_def)
  have trim: "js_trim ?c = ?c" using e by (intro js_trim_id) (simp_all add: plain_char_simps)
  have "list_all (\<lambda>c. \<not> js_space c) w" using assms(1) by (auto simp: plain_word_def list_all_iff plain_char_simps)
  then have "first_word ?c = w"
    by (cases ws) (simp_all add: first_word_def join_space_def list_all_iff takeWhile_eq_all_conv takeWhile_append js_space_def)
  then show ?thesis using e(1) assms(2) scan trim
    by (simp add: scan_shell_command_def Let_def push_current_def scan_start_def)
qed

section \<open>What a command that writes its arguments declares\<close>

lemma writers_plain:
  "list_all (\<lambda>v. plain_word v \<and> \<not> is_wrapper v \<and> strip_directories v = v \<and> lookup_option_values v = NoTable \<and> v \<notin> set script_commands)
     writes_all_args"
  by code_simp

lemma wrappers_plain: "list_all (\<lambda>v. plain_word v \<and> is_wrapper v \<and> v \<notin> set risky_command_words) command_prefixes"
  by code_simp

lemma writers_not_risky: "list_all (\<lambda>v. v \<notin> set risky_command_words) writes_all_args"
  by code_simp

text \<open>The arguments without the options; after \<open>--\<close> nothing is an option.\<close>

fun operand_words :: "string list \<Rightarrow> string list" where
  "operand_words [] = []"
| "operand_words (a # as) = (if a = ''--'' then as else if is_option a then operand_words as else a # operand_words as)"

lemma operands_ended: "operands t True ws = Inr ws"
  by (induction ws) auto

lemma operands_no_table: "operands NoTable False (map literal_word args) = Inr (map literal_word (operand_words args))"
  by (induction args) (auto simp: operands_ended)

lemma operand_words_subset: "set (operand_words args) \<subseteq> set args"
  by (induction args) auto

lemma push_plain:
  "list_all plain_word ws \<Longrightarrow> push_literal (map literal_word ws) b = map (access_of b) ws"
  by (induction ws) (simp_all add: push_literal_def plain_word_def)

lemma command_paths_writer:
  assumes "set wrappers \<subseteq> set command_prefixes" "verb \<in> set writes_all_args" "list_all plain_word args"
  shows "command_paths (join_space (wrappers @ verb # args)) = Inr (map (access_of True) (operand_words args))"
proof -
  have v: "plain_word verb" "\<not> is_wrapper verb" "strip_directories verb = verb" "lookup_option_values verb = NoTable" "verb \<notin> set script_commands"
    using writers_plain assms(2) by (auto simp: list_all_iff)
  have w: "list_all plain_word wrappers" "list_all is_wrapper wrappers" using wrappers_plain assms(1) by (auto simp: list_all_iff)
  have words: "split_words (join_space (wrappers @ verb # args)) = map literal_word (wrappers @ verb # args)"
    using v w assms(3) by (intro split_join) simp_all
  have take: "take_redirects (map literal_word (wrappers @ verb # args)) = ([], map literal_word (wrappers @ verb # args))"
    using v w assms(3) by (intro take_redirects_plain) simp
  have drop: "dropWhile (\<lambda>w. is_wrapper (sw_text w)) (map literal_word (wrappers @ verb # args)) = literal_word verb # map literal_word args"
    using w(2) v(2) by (induction wrappers) simp_all
  have args: "operands NoTable False (map literal_word args) = Inr (map literal_word (operand_words args))"
    by (rule operands_no_table)
  have "list_all plain_word (operand_words args)" using assms(3) operand_words_subset [of args] by (auto simp: list_all_iff)
  then show ?thesis using words take drop args v assms(2) push_plain by (simp add: command_paths_def)
qed

lemma all_paths_append: "all_paths a = Inr xs \<Longrightarrow> all_paths b = Inr ys \<Longrightarrow> all_paths (a @ b) = Inr (xs @ ys)"
proof (induction a arbitrary: xs)
  case (Cons c a)
  then obtain out zs where "command_paths c = Inr out" "all_paths a = Inr zs" "xs = out @ zs"
    by (cases "command_paths c"; cases "all_paths a") auto
  then show ?case using Cons by simp
qed simp

lemma extract_of_compound:
  assumes "quiet_end c1" "sep \<in> set separators" "\<not> sc_risky (scan_shell_command c1)" "\<not> sc_risky (scan_shell_command c2)"
    "extract_bash_paths c1 = Inr xs" "extract_bash_paths c2 = Inr ys"
  shows "extract_bash_paths (c1 @ sep @ c2) = Inr (xs @ ys) \<and> \<not> sc_risky (scan_shell_command (c1 @ sep @ c2))"
proof -
  obtain us where us: "all_paths (sc_subcommands (scan_shell_command c1)) = Inr us" "xs = filter (\<lambda>a. \<not> stream_device (bp_path a)) us"
    using assms(3,5) by (cases "all_paths (sc_subcommands (scan_shell_command c1))") (auto simp: extract_bash_paths_def Let_def)
  obtain vs where vs: "all_paths (sc_subcommands (scan_shell_command c2)) = Inr vs" "ys = filter (\<lambda>a. \<not> stream_device (bp_path a)) vs"
    using assms(4,6) by (cases "all_paths (sc_subcommands (scan_shell_command c2))") (auto simp: extract_bash_paths_def Let_def)
  show ?thesis using scan_of_compound [OF assms(1-3), of c2] assms(4) us vs all_paths_append [OF us(1) vs(1)]
    by (simp add: extract_bash_paths_def Let_def)
qed

lemma extract_writer:
  assumes "set wrappers \<subseteq> set command_prefixes" "verb \<in> set writes_all_args" "list_all plain_word args"
  shows "extract_bash_paths (join_space (wrappers @ verb # args)) =
      Inr (map (access_of True) (filter (\<lambda>a. \<not> stream_device a) (operand_words args)))
    \<and> \<not> sc_risky (scan_shell_command (join_space (wrappers @ verb # args))) \<and> quiet_end (join_space (wrappers @ verb # args))"
proof -
  let ?ws = "wrappers @ verb # args"
  have plain: "list_all plain_word ?ws" using writers_plain wrappers_plain assms by (auto simp: list_all_iff)
  obtain w ws where ws: "?ws = w # ws" "w \<notin> set risky_command_words"
    using wrappers_plain writers_not_risky assms(1,2) by (cases wrappers) (auto simp: list_all_iff)
  have scan: "scan_shell_command (join_space ?ws) = \<lparr>sc_subcommands = [join_space ?ws], sc_risky = False\<rparr>"
    using scan_plain_command [of w ws] plain ws by simp
  have "plain_char (last (join_space ?ws))" using join_ends [OF plain] by simp
  then have q: "quiet_end (join_space ?ws)" by (simp add: quiet_end_def plain_char_simps)
  show ?thesis using scan q command_paths_writer [OF assms]
    by (simp add: extract_bash_paths_def filter_map comp_def access_of_def conj_commute)
qed

text \<open>
  C28. What a command that deletes, creates or truncates files (\<open>rm\<close>, \<open>tee\<close> and the like) is given is
  declared as written wherever it stands in a compound command: between any two commands whose own accesses are
  read and which the scanner does not find risky, and behind any of the wrappers. This is for words of plain
  characters (no quotes, variables, patterns or redirections) and for wrappers without options or settings of
  their own. Every argument that is no option counts, and every one behind \<open>--\<close>; nothing but the arguments is
  added, and only devices such as \<open>/dev/null\<close> are left out.
\<close>

theorem written_files_are_declared:
  assumes "set wrappers \<subseteq> set command_prefixes" "verb \<in> set writes_all_args" "list_all plain_word args"
    "quiet_end before" "\<not> sc_risky (scan_shell_command before)" "\<not> sc_risky (scan_shell_command after)"
    "extract_bash_paths before = Inr xs" "extract_bash_paths after = Inr ys" "sep1 \<in> set separators" "sep2 \<in> set separators"
  shows "extract_bash_paths (before @ sep1 @ join_space (wrappers @ verb # args) @ sep2 @ after) =
    Inr (xs @ map (access_of True) (filter (\<lambda>a. \<not> stream_device a) (operand_words args)) @ ys)"
proof -
  note w = extract_writer [OF assms(1-3)]
  have "extract_bash_paths (join_space (wrappers @ verb # args) @ sep2 @ after) =
      Inr (map (access_of True) (filter (\<lambda>a. \<not> stream_device a) (operand_words args)) @ ys) \<and>
      \<not> sc_risky (scan_shell_command (join_space (wrappers @ verb # args) @ sep2 @ after))"
    using extract_of_compound w assms by blast
  then show ?thesis using extract_of_compound [OF assms(4,9,5)] assms(7) by blast
qed

lemma written_files_are_declared_witness:
  "extract_bash_paths ''cat a.txt &&sudo rm -rf /etc/hosts /dev/null -- -x;ls''
    = Inr [access_of False ''a.txt'', access_of True ''/etc/hosts'', access_of True ''-x'']"
proof -
  let ?args = "[''-rf'', ''/etc/hosts'', ''/dev/null'', ''--'', ''-x'']"
  have "extract_bash_paths (''cat a.txt '' @ ''&&'' @ join_space ([''sudo''] @ ''rm'' # ?args) @ '';'' @ ''ls'') =
     Inr ([access_of False ''a.txt''] @ map (access_of True) (filter (\<lambda>a. \<not> stream_device a) (operand_words ?args)) @ [])"
    by (rule written_files_are_declared) code_simp+
  moreover have "''cat a.txt '' @ ''&&'' @ join_space ([''sudo''] @ ''rm'' # ?args) @ '';'' @ ''ls''
      = ''cat a.txt &&sudo rm -rf /etc/hosts /dev/null -- -x;ls''"
    by code_simp
  moreover have "filter (\<lambda>a. \<not> stream_device a) (operand_words ?args) = [''/etc/hosts'', ''-x'']" by code_simp
  ultimately show ?thesis by simp
qed

section \<open>What escapes, and what is made up\<close>

text \<open>
  A redirection that overwrites (\<open>>|\<close>) is listed among those that name a file to be written, but the scanner has cut
  the command at its bar: the write is not declared. Neither is one glued to the word before it.
\<close>

lemma clobbering_redirect_missed:
  "extract_bash_paths ''echo x >| /etc/passwd'' = Inr [] \<and> is_write_redirect ''>|''"
  by code_simp

lemma glued_redirect_missed:
  "extract_bash_paths ''echo x>/etc/passwd'' = Inr [] \<and> extract_bash_paths ''echo x >/etc/passwd'' = Inr [access_of True ''/etc/passwd'']"
  by code_simp

text \<open>A destination named by an option is declared as read.\<close>

lemma target_directory_declared_read:
  "extract_bash_paths ''cp -t /etc a b'' = Inr [access_of False ''/etc'', access_of False ''a'', access_of True ''b'']"
  by code_simp

text \<open>The value of an option of a writing command, and a quoted angle bracket, make up files.\<close>

lemma made_up_files:
  "extract_bash_paths ''truncate -s 0 log'' = Inr [access_of True ''0'', access_of True ''log'']"
  "extract_bash_paths (''echo '' @ [squote, CHR ''>'', squote] @ '' a'') = Inr [access_of True ''a'']"
  by code_simp+

text \<open>A command named like a member of every object, with an option, makes the extraction throw.\<close>

lemma inherited_name_throws: "extract_bash_paths ''./toString -x'' = Inl type_error"
  by code_simp

end
