(* ===== verification/Stdin_Buffer.thy ===== *)
theory Stdin_Buffer
  imports Js_Regex
begin

text \<open>
  Keyboard input of the terminal library (\<open>pi-tui/src/stdin-buffer.ts\<close>): what is a whole escape sequence, the split of
  buffered input into sequences, and the buffer with its bracketed pastes and its timer. Text is a list of code units
  below 256.
\<close>

abbreviation esc :: char where "esc \<equiv> CHR 0x1B"

definition default_sequence_timeout_ms :: nat where
  "default_sequence_timeout_ms = 50"

definition default_escape_timeout_ms :: nat where
  "default_escape_timeout_ms = 10"

definition paste_start :: string where
  "paste_start = esc # ''[200~''"

definition paste_end :: string where
  "paste_end = esc # ''[201~''"

section \<open>Whole sequences\<close>

datatype sequence_status = SeqComplete | SeqIncomplete | NotEscape

definition decimal :: char_class where
  "decimal = OneOf ''0123456789''"

definition ends_with :: "string \<Rightarrow> string \<Rightarrow> bool" where
  "ends_with tail s \<longleftrightarrow> suffix tail s"

definition sgr_mouse :: regex where
  "sgr_mouse = regex_seq [RLit ''<'', r_some decimal, RLit '';'', r_some decimal, RLit '';'', r_some decimal, RClass (OneOf ''Mm'')]"

definition is_complete_csi_sequence :: "string \<Rightarrow> sequence_status" where
  "is_complete_csi_sequence data =
     (if \<not> prefix (esc # ''['') data then SeqComplete
      else if length data < 3 then SeqIncomplete
      else let payload = drop 2 data; code = of_char (last payload) :: nat in
        if 0x40 \<le> code \<and> code \<le> 0x7E
        then if prefix ''<'' payload
             then if regex_full sgr_mouse payload then SeqComplete
                  else if last payload \<in> set ''Mm''
                  then let parts = split_on CHR '';'' (butlast (tl payload)) in
                    if length parts = 3 \<and> list_all (regex_full (r_some decimal)) parts then SeqComplete else SeqIncomplete
                  else SeqIncomplete
             else SeqComplete
        else SeqIncomplete)"

definition string_terminator :: string where
  "string_terminator = [esc, CHR 0x5C]"

definition is_complete_osc_sequence :: "string \<Rightarrow> sequence_status" where
  "is_complete_osc_sequence data =
     (if \<not> prefix (esc # '']'') data then SeqComplete
      else if ends_with string_terminator data \<or> ends_with [CHR 0x07] data then SeqComplete else SeqIncomplete)"

definition is_complete_dcs_sequence :: "string \<Rightarrow> sequence_status" where
  "is_complete_dcs_sequence data =
     (if \<not> prefix (esc # ''P'') data then SeqComplete
      else if ends_with string_terminator data then SeqComplete else SeqIncomplete)"

definition is_complete_apc_sequence :: "string \<Rightarrow> sequence_status" where
  "is_complete_apc_sequence data =
     (if \<not> prefix (esc # ''_'') data then SeqComplete
      else if ends_with string_terminator data then SeqComplete else SeqIncomplete)"

definition is_complete_sequence :: "string \<Rightarrow> sequence_status" where
  "is_complete_sequence data =
     (case data of
        [] \<Rightarrow> NotEscape
      | c # after_esc \<Rightarrow>
          if c \<noteq> esc then NotEscape
          else if after_esc = [] then SeqIncomplete
          else if prefix ''['' after_esc
          then if prefix ''[M'' after_esc then (if 6 \<le> length data then SeqComplete else SeqIncomplete) else is_complete_csi_sequence data
          else if prefix '']'' after_esc then is_complete_osc_sequence data
          else if prefix ''P'' after_esc then is_complete_dcs_sequence data
          else if prefix ''_'' after_esc then is_complete_apc_sequence data
          else if prefix ''O'' after_esc then (if 2 \<le> length after_esc then SeqComplete else SeqIncomplete)
          else SeqComplete)"

definition kitty_printable :: regex where
  "kitty_printable = regex_seq
     [RLit (esc # ''[''), r_some decimal, ROpt (RSeq (RLit '':'') (RMany decimal)), ROpt (RSeq (RLit '':'') (r_some decimal)), RLit ''u'']"

definition parse_unmodified_kitty_printable_codepoint :: "string \<Rightarrow> nat option" where
  "parse_unmodified_kitty_printable_codepoint s =
     (if regex_full kitty_printable s
      then Option.bind (nat_of_js (takeWhile (in_class decimal) (drop 2 s))) (\<lambda>code. if 32 \<le> code then Some code else None)
      else None)"

section \<open>Splitting a buffer\<close>

text \<open>The shortest candidate that is not incomplete.\<close>

definition sequence_end :: "string \<Rightarrow> nat option" where
  "sequence_end s = find (\<lambda>n. is_complete_sequence (take n s) \<noteq> SeqIncomplete) [1..<Suc (length s)]"

text \<open>How much of it is taken: of two escapes only the first, if the second opens another sequence.\<close>

definition opens_sequence :: "string \<Rightarrow> bool" where
  "opens_sequence s \<longleftrightarrow> (case s of [] \<Rightarrow> False | c # _ \<Rightarrow> c \<in> set ''[]OP_'')"

definition taken_length :: "string \<Rightarrow> nat \<Rightarrow> nat" where
  "taken_length s n =
     (if is_complete_sequence (take n s) = SeqComplete \<and> take n s = [esc, esc] \<and> opens_sequence (drop n s) then 1 else n)"

function extract_complete_sequences :: "string \<Rightarrow> string list \<times> string" where
  "extract_complete_sequences [] = ([], [])"
| "extract_complete_sequences (c # rest) =
     (if c = esc
      then case sequence_end (c # rest) of
        None \<Rightarrow> ([], c # rest)
      | Some n \<Rightarrow>
          let k = taken_length (c # rest) n in
          (case extract_complete_sequences (drop (k - 1) rest) of (sequences, remainder) \<Rightarrow> (take k (c # rest) # sequences, remainder))
      else (case extract_complete_sequences rest of (sequences, remainder) \<Rightarrow> ([c] # sequences, remainder)))"
  by pat_completeness auto
termination by (relation "measure length") auto

declare extract_complete_sequences.simps(2) [simp del]

section \<open>The buffer\<close>

datatype stdin_event = DataEvent string | PasteEvent string

record stdin_buffer =
  sb_buffer :: string
  sb_timer :: "nat option"
  sb_paste_mode :: bool
  sb_paste :: string
  sb_pending :: "nat option"

definition new_stdin_buffer :: stdin_buffer where
  "new_stdin_buffer = \<lparr>sb_buffer = [], sb_timer = None, sb_paste_mode = False, sb_paste = [], sb_pending = None\<rparr>"

text \<open>What arrives: text, or a buffer of one byte above 127, which stands for escape and a character.\<close>

datatype stdin_data = TextData string | HighByte nat

definition data_text :: "stdin_data \<Rightarrow> string" where
  "data_text d = (case d of TextData s \<Rightarrow> s | HighByte b \<Rightarrow> [esc, char_of (b - 128)])"

definition emit_data_sequence :: "string \<Rightarrow> stdin_buffer \<Rightarrow> stdin_buffer \<times> stdin_event list" where
  "emit_data_sequence sequence b =
     (let raw = (case sequence of [c] \<Rightarrow> Some (of_char c :: nat) | _ \<Rightarrow> None) in
      if raw \<noteq> None \<and> raw = sb_pending b then (b\<lparr>sb_pending := None\<rparr>, [])
      else (b\<lparr>sb_pending := parse_unmodified_kitty_printable_codepoint sequence\<rparr>, [DataEvent sequence]))"

fun emit_all :: "string list \<Rightarrow> stdin_buffer \<Rightarrow> stdin_buffer \<times> stdin_event list" where
  "emit_all [] b = (b, [])"
| "emit_all (s # ss) b = (case emit_data_sequence s b of (b1, es) \<Rightarrow> (case emit_all ss b1 of (b2, es') \<Rightarrow> (b2, es @ es')))"

text \<open>\<open>indexOf\<close> of a string.\<close>

definition index_of_text :: "string \<Rightarrow> string \<Rightarrow> nat option" where
  "index_of_text p s = find (\<lambda>n. prefix p (drop n s)) [0..<Suc (length s)]"

lemma find_upt: "find P [a..<b] = Some n \<longleftrightarrow> a \<le> n \<and> n < b \<and> P n \<and> (\<forall>k. a \<le> k \<and> k < n \<longrightarrow> \<not> P k)"
proof (induction "b - a" arbitrary: a)
  case 0
  then show ?case by simp
next
  case (Suc d)
  have IH: "find P [Suc a..<b] = Some n \<longleftrightarrow> Suc a \<le> n \<and> n < b \<and> P n \<and> (\<forall>k. Suc a \<le> k \<and> k < n \<longrightarrow> \<not> P k)"
    using Suc.hyps(1) [of "Suc a"] Suc.hyps(2) by simp
  have step: "find P [a..<b] = (if P a then Some a else find P [Suc a..<b])" using Suc.hyps(2) by (simp add: upt_conv_Cons)
  show ?case
  proof (cases "P a")
    case True
    then have "find P [a..<b] = Some n \<longleftrightarrow> a = n" using step by simp
    also have "\<dots> \<longleftrightarrow> a \<le> n \<and> n < b \<and> P n \<and> (\<forall>k. a \<le> k \<and> k < n \<longrightarrow> \<not> P k)"
      using True Suc.hyps(2) by (metis le_eq_less_or_eq linorder_not_less zero_less_Suc zero_less_diff)
    finally show ?thesis .
  next
    case False
    then show ?thesis using step IH by (metis Suc_leD Suc_leI le_eq_less_or_eq)
  qed
qed

lemma find_upt_None: "find P [a..<b] = None \<longleftrightarrow> (\<forall>k. a \<le> k \<and> k < b \<longrightarrow> \<not> P k)"
  by (auto simp: find_None_iff simp del: upt_Suc)

lemma paste_marks: "0 < length paste_start" "0 < length paste_end"
  by (simp_all add: paste_start_def paste_end_def)

lemma index_of_text_bound: "index_of_text p s = Some n \<Longrightarrow> prefix p (drop n s) \<and> n + length p \<le> length s"
proof -
  assume "index_of_text p s = Some n"
  then have "prefix p (drop n s)" "n < Suc (length s)" unfolding index_of_text_def find_upt by simp_all
  moreover have "length p \<le> length s - n" using prefix_length_le [OF \<open>prefix p (drop n s)\<close>] by simp
  ultimately show ?thesis by simp
qed

text \<open>What stands before and behind the first occurrence.\<close>

definition cut_at :: "string \<Rightarrow> string \<Rightarrow> (string \<times> string) option" where
  "cut_at p s = map_option (\<lambda>i. (take i s, drop (i + length p) s)) (index_of_text p s)"

lemma cut_at_shorter: "cut_at p s = Some (u, v) \<Longrightarrow> 0 < length p \<Longrightarrow> length v < length s"
proof -
  assume "cut_at p s = Some (u, v)" "0 < length p"
  then obtain i where "i + length p \<le> length s" "v = drop (i + length p) s" using index_of_text_bound by (auto simp: cut_at_def)
  moreover from this(2) have "length v = length s - (i + length p)" by simp
  ultimately show ?thesis using \<open>0 < length p\<close> by linarith
qed

lemmas paste_cut_shorter = cut_at_shorter [OF _ paste_marks(1)] cut_at_shorter [OF _ paste_marks(2)]

text \<open>
  \<open>process\<close>: a paste that ends is told, and what follows it is processed afresh. \<open>t\<close> and \<open>e\<close> are the timeouts.
\<close>

function process_input :: "nat \<Rightarrow> nat \<Rightarrow> string \<Rightarrow> stdin_buffer \<Rightarrow> stdin_buffer \<times> stdin_event list" where
  "process_input t e str b0 =
     (let b = b0\<lparr>sb_timer := None\<rparr> in
      if str = [] \<and> sb_buffer b = [] then emit_data_sequence [] b
      else let text = sb_buffer b @ str in
        if sb_paste_mode b
        then (case cut_at paste_end (sb_paste b @ text) of
            None \<Rightarrow> (b\<lparr>sb_buffer := [], sb_paste := sb_paste b @ text\<rparr>, [])
          | Some (pasted, remaining) \<Rightarrow>
              let b1 = b\<lparr>sb_buffer := [], sb_paste_mode := False, sb_paste := [], sb_pending := None\<rparr>
              in if remaining = [] then (b1, [PasteEvent pasted])
                 else (case process_input t e remaining b1 of (b2, es) \<Rightarrow> (b2, PasteEvent pasted # es)))
        else (case cut_at paste_start text of
            Some (first, rest) \<Rightarrow>
              (case (if first \<noteq> [] then emit_all (fst (extract_complete_sequences first)) b else (b, [])) of
                 (b1, before) \<Rightarrow>
                   let b2 = b1\<lparr>sb_pending := None, sb_buffer := [], sb_paste_mode := True, sb_paste := rest\<rparr>
                   in (case cut_at paste_end rest of
                         None \<Rightarrow> (b2, before)
                       | Some (pasted, remaining) \<Rightarrow>
                           let b3 = b2\<lparr>sb_paste_mode := False, sb_paste := [], sb_pending := None\<rparr>
                           in if remaining = [] then (b3, before @ [PasteEvent pasted])
                              else (case process_input t e remaining b3 of (b4, es) \<Rightarrow> (b4, before @ [PasteEvent pasted] @ es))))
          | None \<Rightarrow>
              (case extract_complete_sequences text of
                 (sequences, remainder) \<Rightarrow>
                   (case emit_all sequences (b\<lparr>sb_buffer := remainder\<rparr>) of
                      (b1, es) \<Rightarrow>
                        (if remainder \<noteq> [] then b1\<lparr>sb_timer := Some (if remainder = [esc] then e else t)\<rparr> else b1, es)))))"
  by pat_completeness auto
termination
  by (relation "measure (\<lambda>(t, e, str, b). length str + length (sb_buffer b) + length (sb_paste b))")
    (auto dest!: paste_cut_shorter)

declare process_input.simps [simp del]

definition flush_input :: "stdin_buffer \<Rightarrow> string list \<times> stdin_buffer" where
  "flush_input b =
     (if sb_buffer b = [] then ([], b\<lparr>sb_timer := None\<rparr>)
      else ([sb_buffer b], b\<lparr>sb_timer := None, sb_buffer := [], sb_pending := None\<rparr>))"

definition timer_fires :: "stdin_buffer \<Rightarrow> stdin_buffer \<times> stdin_event list" where
  "timer_fires b = (case flush_input b of (flushed, b1) \<Rightarrow> emit_all flushed b1)"

definition clear_input :: "stdin_buffer \<Rightarrow> stdin_buffer" where
  "clear_input b = new_stdin_buffer"

section \<open>Splitting does not depend on the chunks\<close>

lemma sequence_end_Some: "sequence_end s = Some n \<Longrightarrow> 0 < n \<and> n \<le> length s"
  by (auto simp: sequence_end_def find_upt simp del: upt_Suc)

lemma taken_length_bound: "0 < n \<Longrightarrow> n \<le> length s \<Longrightarrow> 0 < taken_length s n \<and> taken_length s n \<le> length s"
  by (auto simp: taken_length_def)

lemma extract_keeps_text: "extract_complete_sequences s = (sequences, remainder) \<Longrightarrow> concat sequences @ remainder = s"
proof (induction s arbitrary: sequences rule: extract_complete_sequences.induct)
  case (2 c rest)
  show ?case
  proof (cases "c = esc")
    case True
    show ?thesis
    proof (cases "sequence_end (c # rest)")
      case None
      then show ?thesis using 2(3) True by (simp add: extract_complete_sequences.simps(2))
    next
      case (Some n)
      define k where "k = taken_length (c # rest) n"
      have k: "0 < k" using sequence_end_Some [OF Some] taken_length_bound [of n "c # rest"] by (simp add: k_def)
      obtain ss where ss: "extract_complete_sequences (drop (k - 1) rest) = (ss, remainder)" "sequences = take k (c # rest) # ss"
        using 2(3) True Some by (auto simp: extract_complete_sequences.simps(2) Let_def k_def split: prod.splits)
      have "concat ss @ remainder = drop (k - 1) rest" using 2(1) [OF True Some k_def] ss(1) by blast
      then show ?thesis using ss(2) k by (cases k) simp_all
    qed
  next
    case False
    then show ?thesis using 2(2) 2(3) by (auto simp: extract_complete_sequences.simps(2) split: prod.splits)
  qed
qed simp

lemma sequence_end_append: "sequence_end a = Some n \<Longrightarrow> sequence_end (a @ b) = Some n"
  unfolding sequence_end_def find_upt by simp

definition splits_pair :: "string \<Rightarrow> bool" where
  "splits_pair s \<longleftrightarrow> (case extract_complete_sequences s of (ss, r) \<Rightarrow> r = [] \<and> ss \<noteq> [] \<and> last ss = [esc, esc])"

lemma extract_append:
  assumes "extract_complete_sequences a = (s1, r1)" "\<not> splits_pair a" "extract_complete_sequences (r1 @ b) = (s2, r2)"
  shows "extract_complete_sequences (a @ b) = (s1 @ s2, r2)"
  using assms
proof (induction a arbitrary: s1 rule: extract_complete_sequences.induct)
  case (2 c rest)
  show ?case
  proof (cases "c = esc")
    case True
    show ?thesis
    proof (cases "sequence_end (c # rest)")
      case None
      then show ?thesis using 2(3,5) True by (simp add: extract_complete_sequences.simps(2))
    next
      case (Some n)
      define k where "k = taken_length (c # rest) n"
      have n: "0 < n" "n \<le> length (c # rest)" using sequence_end_Some [OF Some] by simp_all
      have "0 < k \<and> k \<le> Suc (length rest)" using taken_length_bound [OF n] by (simp add: k_def)
      then have k: "0 < k" "k - 1 \<le> length rest" by linarith+
      obtain ss where ss: "extract_complete_sequences (drop (k - 1) rest) = (ss, r1)" "s1 = take k (c # rest) # ss"
        using 2(3) True Some by (auto simp: extract_complete_sequences.simps(2) Let_def k_def split: prod.splits)
      have notpair: "\<not> (r1 = [] \<and> last s1 = [esc, esc])" using 2(3,4) ss(2) by (auto simp: splits_pair_def)
      have rest: "\<not> splits_pair (drop (k - 1) rest)" using notpair ss by (auto simp: splits_pair_def)
      have same: "taken_length (c # rest @ b) n = k"
      proof (cases "drop n (c # rest) = [] \<and> take n (c # rest) = [esc, esc]")
        case True
        then have "k = n" "drop (k - 1) rest = []" using n by (cases n; simp add: k_def taken_length_def opens_sequence_def)+
        then have "ss = []" "r1 = []" using ss(1) by simp_all
        then show ?thesis using notpair ss(2) True \<open>k = n\<close> by simp
      next
        case False
        have t: "take n (c # rest @ b) = take n (c # rest)" and d: "drop n (c # rest @ b) = drop n (c # rest) @ b"
          using n take_append [of n "c # rest" b] drop_append [of n "c # rest" b] by simp_all
        have "opens_sequence (drop n (c # rest) @ b) = opens_sequence (drop n (c # rest))" if "drop n (c # rest) \<noteq> []"
          using that by (cases "drop n (c # rest)") (simp_all add: opens_sequence_def)
        then show ?thesis unfolding k_def taken_length_def t d using False by (cases "drop n (c # rest) = []") auto
      qed
      have "sequence_end (c # rest @ b) = Some n" using sequence_end_append [OF Some, of b] by simp
      moreover have "extract_complete_sequences (drop (k - 1) rest @ b) = (ss @ s2, r2)" using 2(1) [OF True Some k_def ss(1) rest 2(5)] .
      ultimately show ?thesis using True same k ss(2) by (cases k) (simp_all add: extract_complete_sequences.simps(2) Let_def)
    qed
  next
    case False
    obtain ss where ss: "extract_complete_sequences rest = (ss, r1)" "s1 = [c] # ss"
      using 2(3) False by (auto simp: extract_complete_sequences.simps(2) split: prod.splits)
    have "\<not> splits_pair rest" using 2(3,4) ss by (auto simp: splits_pair_def)
    then have "extract_complete_sequences (rest @ b) = (ss @ s2, r2)" using 2(2) [OF False ss(1)] 2(5) by simp
    then show ?thesis using False ss(2) by (simp add: extract_complete_sequences.simps(2))
  qed
qed simp

section \<open>Emitting\<close>

definition emitted :: "string list \<Rightarrow> nat option \<Rightarrow> nat option \<times> stdin_event list" where
  "emitted ss p = (case emit_all ss (new_stdin_buffer\<lparr>sb_pending := p\<rparr>) of (b, es) \<Rightarrow> (sb_pending b, es))"

lemma emit_data_shape:
  "emit_data_sequence s b =
     (case emit_data_sequence s (new_stdin_buffer\<lparr>sb_pending := sb_pending b\<rparr>) of (x, es) \<Rightarrow> (b\<lparr>sb_pending := sb_pending x\<rparr>, es))"
  by (auto simp: emit_data_sequence_def Let_def)

lemma emit_all_shape: "emit_all ss b = (case emitted ss (sb_pending b) of (p, es) \<Rightarrow> (b\<lparr>sb_pending := p\<rparr>, es))"
proof (induction ss arbitrary: b)
  case Nil
  then show ?case by (simp add: emitted_def)
next
  case (Cons s ss)
  obtain x es where x: "emit_data_sequence s (new_stdin_buffer\<lparr>sb_pending := sb_pending b\<rparr>) = (x, es)" by fastforce
  have b: "emit_data_sequence s b = (b\<lparr>sb_pending := sb_pending x\<rparr>, es)" using emit_data_shape [of s b] x by simp
  obtain p es' where p: "emitted ss (sb_pending x) = (p, es')" by fastforce
  have "emit_all (s # ss) b = (b\<lparr>sb_pending := p\<rparr>, es @ es')" using b Cons.IH [of "b\<lparr>sb_pending := sb_pending x\<rparr>"] p by simp
  moreover have "emitted (s # ss) (sb_pending b) = (p, es @ es')"
    using x Cons.IH [of x] p by (simp add: emitted_def)
  ultimately show ?case by simp
qed

lemma emitted_append: "emitted (a @ b) p = (case emitted a p of (q, es) \<Rightarrow> (case emitted b q of (r, es') \<Rightarrow> (r, es @ es')))"
proof -
  have "emit_all (a @ b) x = (case emit_all a x of (x1, e1) \<Rightarrow> (case emit_all b x1 of (x2, e2) \<Rightarrow> (x2, e1 @ e2)))" for x
    by (induction a arbitrary: x) (auto split: prod.splits)
  note both = this
  let ?x = "new_stdin_buffer\<lparr>sb_pending := p\<rparr>"
  obtain q es where a: "emitted a p = (q, es)" by fastforce
  obtain r es' where b: "emitted b q = (r, es')" by fastforce
  have "emit_all a ?x = (?x\<lparr>sb_pending := q\<rparr>, es)" using emit_all_shape [of a ?x] a by simp
  moreover have "emit_all b (?x\<lparr>sb_pending := q\<rparr>) = (?x\<lparr>sb_pending := r\<rparr>, es')" using emit_all_shape [of b "?x\<lparr>sb_pending := q\<rparr>"] b by simp
  ultimately have "emit_all (a @ b) ?x = (?x\<lparr>sb_pending := r\<rparr>, es @ es')" using both [of ?x] by simp
  then show ?thesis using a b by (simp add: emitted_def)
qed

section \<open>A buffer that holds no paste\<close>

lemma cut_at_None: "cut_at p s = None \<longleftrightarrow> \<not> sublist p s"
proof -
  have "(\<exists>k < Suc (length s). prefix p (drop k s)) \<longleftrightarrow> sublist p s"
  proof
    assume "\<exists>k < Suc (length s). prefix p (drop k s)"
    then obtain k v where "drop k s = p @ v" by (auto simp: prefix_def)
    then have "s = take k s @ p @ v" by (metis append_take_drop_id)
    then show "sublist p s" unfolding sublist_def by blast
  next
    assume "sublist p s"
    then obtain u v where "s = u @ p @ v" unfolding sublist_def by blast
    then have "length u < Suc (length s) \<and> prefix p (drop (length u) s)" by simp
    then show "\<exists>k < Suc (length s). prefix p (drop k s)" by blast
  qed
  moreover have "find (\<lambda>n. prefix p (drop n s)) [0..<Suc (length s)] = None \<longleftrightarrow> \<not> (\<exists>k < Suc (length s). prefix p (drop k s))"
    unfolding find_upt_None by blast
  ultimately show ?thesis unfolding cut_at_def index_of_text_def option.map_disc_iff by blast
qed

definition timer_of :: "nat \<Rightarrow> nat \<Rightarrow> string \<Rightarrow> nat option" where
  "timer_of t e r = (if r = [] then None else Some (if r = [esc] then e else t))"

lemma process_plain:
  assumes "\<not> sb_paste_mode b" "\<not> sublist paste_start (sb_buffer b @ str)" "str \<noteq> []"
    "extract_complete_sequences (sb_buffer b @ str) = (ss, r)" "emitted ss (sb_pending b) = (p, es)"
  shows "process_input t e str b = (b\<lparr>sb_timer := timer_of t e r, sb_buffer := r, sb_pending := p\<rparr>, es)"
proof -
  have cut: "cut_at paste_start (sb_buffer b @ str) = None" using assms(2) cut_at_None by blast
  have "emit_all ss (b\<lparr>sb_timer := None, sb_buffer := r\<rparr>) = (b\<lparr>sb_timer := None, sb_buffer := r, sb_pending := p\<rparr>, es)"
    using emit_all_shape [of ss "b\<lparr>sb_timer := None, sb_buffer := r\<rparr>"] assms(5) by simp
  then show ?thesis using assms(1,3,4) cut by (subst process_input.simps) (simp add: Let_def timer_of_def)
qed

fun process_chunks :: "nat \<Rightarrow> nat \<Rightarrow> string list \<Rightarrow> stdin_buffer \<Rightarrow> stdin_buffer \<times> stdin_event list" where
  "process_chunks t e [] b = (b, [])"
| "process_chunks t e (c # cs) b = (case process_input t e c b of (b1, es) \<Rightarrow> (case process_chunks t e cs b1 of (b2, es') \<Rightarrow> (b2, es @ es')))"

lemma process_two:
  assumes "\<not> sb_paste_mode b" "\<not> sublist paste_start (sb_buffer b @ x @ y)" "x \<noteq> []" "y \<noteq> []" "\<not> splits_pair (sb_buffer b @ x)"
  shows "process_chunks t e [x, y] b = process_input t e (x @ y) b"
proof -
  obtain s1 r1 where e1: "extract_complete_sequences (sb_buffer b @ x) = (s1, r1)" by fastforce
  obtain s2 r2 where e2: "extract_complete_sequences (r1 @ y) = (s2, r2)" by fastforce
  obtain p es where m1: "emitted s1 (sb_pending b) = (p, es)" by fastforce
  obtain q es' where m2: "emitted s2 p = (q, es')" by fastforce
  have both: "emitted (s1 @ s2) (sb_pending b) = (q, es @ es')" using emitted_append [of s1 s2 "sb_pending b"] m1 m2 by simp
  have whole: "extract_complete_sequences (sb_buffer b @ x @ y) = (s1 @ s2, r2)" using extract_append [OF e1 assms(5) e2] by simp
  have part: "\<not> sublist paste_start (sb_buffer b @ x)" using assms(2) sublist_append_rightI [of "sb_buffer b @ x" y] sublist_order.order_trans by fastforce
  have "sb_buffer b @ x = concat s1 @ r1" using extract_keeps_text [OF e1] by simp
  then have "sublist (r1 @ y) (sb_buffer b @ x @ y)" by (simp add: sublist_def) (metis append.assoc append_Nil2)
  then have later: "\<not> sublist paste_start (r1 @ y)" using assms(2) sublist_order.order_trans by blast
  let ?b1 = "b\<lparr>sb_timer := timer_of t e r1, sb_buffer := r1, sb_pending := p\<rparr>"
  have "process_input t e x b = (?b1, es)" by (rule process_plain [OF assms(1) part assms(3) e1 m1])
  moreover have "process_input t e y ?b1 = (?b1\<lparr>sb_timer := timer_of t e r2, sb_buffer := r2, sb_pending := q\<rparr>, es')"
    by (rule process_plain) (use assms(1,4) later e2 m2 in simp_all)
  moreover have "process_input t e (x @ y) b = (b\<lparr>sb_timer := timer_of t e r2, sb_buffer := r2, sb_pending := q\<rparr>, es @ es')"
    by (rule process_plain) (use assms(1,2,3) whole both in simp_all)
  ultimately show ?thesis by simp
qed

lemma process_keeps_mode:
  assumes "\<not> sb_paste_mode b" "\<not> sublist paste_start (sb_buffer b @ x)" "x \<noteq> []"
    "extract_complete_sequences (sb_buffer b @ x) = (ss, r)" "process_input t e x b = (b1, es)"
  shows "\<not> sb_paste_mode b1 \<and> sb_buffer b1 = r"
proof -
  obtain p es' where "emitted ss (sb_pending b) = (p, es')" by fastforce
  then show ?thesis using process_plain [OF assms(1-4)] assms(1,5) by auto
qed

lemma splits_pair_append:
  assumes "extract_complete_sequences a = (s1, r1)" "\<not> splits_pair a" "splits_pair (r1 @ b)"
  shows "splits_pair (a @ b)"
proof -
  obtain s2 r2 where e2: "extract_complete_sequences (r1 @ b) = (s2, r2)" by fastforce
  then show ?thesis using extract_append [OF assms(1,2) e2] assms(3) by (auto simp: splits_pair_def)
qed

text \<open>Chunks without any time between them: no timer fires.\<close>

lemma untimed_chunks:
  assumes "chunks \<noteq> []" "\<forall>c \<in> set chunks. c \<noteq> []" "\<not> sb_paste_mode b" "\<not> sublist paste_start (sb_buffer b @ concat chunks)"
    "\<And>i. 0 < i \<Longrightarrow> i < length chunks \<Longrightarrow> \<not> splits_pair (sb_buffer b @ concat (take i chunks))"
  shows "process_chunks t e chunks b = process_input t e (concat chunks) b"
  using assms
proof (induction chunks arbitrary: b)
  case (Cons c cs)
  show ?case
  proof (cases "cs = []")
    case True
    then show ?thesis by (simp split: prod.split)
  next
    case False
    obtain s1 r1 where e1: "extract_complete_sequences (sb_buffer b @ c) = (s1, r1)" by fastforce
    obtain b1 es where p: "process_input t e c b = (b1, es)" by fastforce
    have np: "\<not> splits_pair (sb_buffer b @ c)" using Cons.prems(5) [of 1] False by simp
    have nc: "concat cs \<noteq> []" using Cons.prems(2) False by (cases cs) auto
    have part: "\<not> sublist paste_start (sb_buffer b @ c)"
      using Cons.prems(4) sublist_append_rightI [of "sb_buffer b @ c" "concat cs"] sublist_order.order_trans by fastforce
    have b1: "\<not> sb_paste_mode b1" "sb_buffer b1 = r1"
      using process_keeps_mode [OF Cons.prems(3) part _ e1 p] Cons.prems(2) by simp_all
    have all: "sb_buffer b @ c = concat s1 @ r1" using extract_keeps_text [OF e1] by simp
    have "sublist (r1 @ concat cs) (sb_buffer b @ concat (c # cs))"
      using all by (simp add: sublist_def) (metis append.assoc append_Nil2)
    then have later: "\<not> sublist paste_start (sb_buffer b1 @ concat cs)" using Cons.prems(4) b1(2) sublist_order.order_trans by blast
    have pairs: "\<not> splits_pair (sb_buffer b1 @ concat (take i cs))" if "0 < i" "i < length cs" for i
      using splits_pair_append [OF e1 np, where b = "concat (take i cs)"] Cons.prems(5) [of "Suc i"] that b1(2) by auto
    have "process_chunks t e cs b1 = process_input t e (concat cs) b1"
      by (rule Cons.IH) (use False Cons.prems(2) b1(1) later pairs in auto)
    then have "process_chunks t e (c # cs) b = process_chunks t e [c, concat cs] b" using p by (simp split: prod.split)
    also have "\<dots> = process_input t e (c @ concat cs) b"
      by (rule process_two) (use Cons.prems nc np in auto)
    finally show ?thesis by simp
  qed
qed simp

section \<open>Chunks in time\<close>

text \<open>
  Every chunk comes with the milliseconds since the one before. If a timer is armed that runs out before
  the chunk comes, what is buffered is flushed first.
\<close>

definition wait_for :: "nat \<Rightarrow> stdin_buffer \<Rightarrow> stdin_buffer \<times> stdin_event list" where
  "wait_for d b = (case sb_timer b of Some limit \<Rightarrow> if limit \<le> d then timer_fires b else (b, []) | None \<Rightarrow> (b, []))"

fun process_timed :: "nat \<Rightarrow> nat \<Rightarrow> (nat \<times> string) list \<Rightarrow> stdin_buffer \<Rightarrow> stdin_buffer \<times> stdin_event list" where
  "process_timed t e [] b = (b, [])"
| "process_timed t e ((d, c) # rest) b =
     (case wait_for d b of (b0, flushed) \<Rightarrow>
        (case process_input t e c b0 of (b1, es) \<Rightarrow>
           (case process_timed t e rest b1 of (b2, es') \<Rightarrow> (b2, flushed @ es @ es'))))"

text \<open>No chunk comes later than the timer that the chunks before it left armed.\<close>

fun in_time :: "nat \<Rightarrow> nat \<Rightarrow> (nat \<times> string) list \<Rightarrow> stdin_buffer \<Rightarrow> bool" where
  "in_time t e [] b \<longleftrightarrow> True"
| "in_time t e ((d, c) # rest) b \<longleftrightarrow>
     (case sb_timer b of Some limit \<Rightarrow> d < limit | None \<Rightarrow> True) \<and> in_time t e rest (fst (process_input t e c b))"

lemma timed_in_time: "in_time t e arrivals b \<Longrightarrow> process_timed t e arrivals b = process_chunks t e (map snd arrivals) b"
proof (induction arrivals arbitrary: b)
  case (Cons a rest)
  obtain d c where a: "a = (d, c)" by (cases a)
  have "wait_for d b = (b, [])" using Cons.prems a by (auto simp: wait_for_def split: option.splits)
  moreover have "in_time t e rest (fst (process_input t e c b))" using Cons.prems a by simp
  ultimately show ?case using Cons.IH a by (cases "process_input t e c b") simp
qed simp

text \<open>
  C35. Input that holds no bracketed paste is understood the same however it is cut into chunks, as long as no chunk
  comes after the timer that the chunks before it left armed for an unfinished sequence (where no sequence is
  unfinished the next chunk may take any time), and no cut falls right behind two escapes: the events and the state
  after the chunks are those of the whole text at once, repeated printable keys of the Kitty protocol being left out
  alike. (What a late chunk does shows in \<open>late_chunk_is_other_input\<close>.)
\<close>

theorem chunks_do_not_matter:
  assumes "in_time t e arrivals b"
    "arrivals \<noteq> []" "\<forall>(d, c) \<in> set arrivals. c \<noteq> []" "\<not> sb_paste_mode b" "\<not> sublist paste_start (sb_buffer b @ concat (map snd arrivals))"
    "\<And>i. 0 < i \<Longrightarrow> i < length arrivals \<Longrightarrow> \<not> splits_pair (sb_buffer b @ concat (take i (map snd arrivals)))"
  shows "process_timed t e arrivals b = process_input t e (concat (map snd arrivals)) b"
proof -
  have "process_chunks t e (map snd arrivals) b = process_input t e (concat (map snd arrivals)) b"
    by (rule untimed_chunks) (use assms(2-6) in auto)
  then show ?thesis using timed_in_time [OF assms(1)] by simp
qed

text \<open>The third chunk may take a second, as the second leaves nothing unfinished.\<close>

lemma chunks_do_not_matter_witness:
  "process_timed 50 10 [(0, esc # ''[<35''), (40, '';20;5m''), (1000, ''x'')] new_stdin_buffer =
     process_input 50 10 (esc # ''[<35;20;5mx'') new_stdin_buffer \<and>
   snd (process_input 50 10 (esc # ''[<35;20;5mx'') new_stdin_buffer) = [DataEvent (esc # ''[<35;20;5m''), DataEvent ''x'']"
proof -
  let ?as = "[(0, esc # ''[<35''), (40, '';20;5m''), (1000, ''x'')] :: (nat \<times> string) list"
  have "\<not> splits_pair (concat (take i (map snd ?as)))" if "0 < i" "i < 3" for i
  proof -
    have "i = 1 \<or> i = 2" using that by auto
    moreover have "\<not> splits_pair (esc # ''[<35'')" "\<not> splits_pair (esc # ''[<35;20;5m'')" by code_simp+
    ultimately show ?thesis by auto
  qed
  moreover have "in_time 50 10 ?as new_stdin_buffer" by code_simp
  ultimately have "process_timed 50 10 ?as new_stdin_buffer = process_input 50 10 (concat (map snd ?as)) new_stdin_buffer"
    by (intro chunks_do_not_matter) (simp_all add: new_stdin_buffer_def paste_start_def sublist_code, code_simp?)
  moreover have "snd (process_input 50 10 (esc # ''[<35;20;5mx'') new_stdin_buffer) = [DataEvent (esc # ''[<35;20;5m''), DataEvent ''x'']"
    by code_simp
  ultimately show ?thesis by simp
qed

text \<open>An escape and a return: one key or two, depending on the time between them.\<close>

lemma late_chunk_is_other_input:
  "snd (process_timed 50 10 [(0, [esc]), (20, [CHR 0x0D])] new_stdin_buffer) = [DataEvent [esc], DataEvent [CHR 0x0D]] \<and>
   snd (process_timed 50 100 [(0, [esc]), (20, [CHR 0x0D])] new_stdin_buffer) = [DataEvent [esc, CHR 0x0D]]"
  by code_simp

text \<open>A cut behind two escapes turns the second, which opened an arrow key, and what follows it into other input.\<close>

lemma cut_behind_two_escapes:
  "snd (process_input 50 10 (esc # esc # ''[A'') new_stdin_buffer) = [DataEvent [esc], DataEvent (esc # ''[A'')] \<and>
   snd (process_chunks 50 10 [[esc, esc], ''[A''] new_stdin_buffer) = [DataEvent [esc, esc], DataEvent ''['', DataEvent ''A'']"
  by code_simp

text \<open>An escape right before a paste, in one chunk with it, is lost.\<close>

lemma escape_before_paste_lost:
  "snd (process_input 50 10 (esc # paste_start @ ''x'' @ paste_end) new_stdin_buffer) = [PasteEvent ''x'']"
  by code_simp

end
