(* ===== verification/Idempotency.thy ===== *)
theory Idempotency
  imports Agent_Prelude
begin

text \<open>
  Retried messages of the managed service (\<open>managed-agents/src/server/idempotency.ts\<close>): a store of deliveries by
  session and key. The operation of a delivery is started once per entry; each start has a number, and its settlement
  is an event of its own, so deliveries and settlements may come in any order. A delivery that is told an earlier start
  shares that start's result.
\<close>

section \<open>The store\<close>

record delivery_entry =
  de_start :: nat
  de_settled :: bool
  de_expires_at :: "nat option"

text \<open>\<open>None\<close> is \<open>Infinity\<close>. The key joins session and key by a NUL.\<close>

record delivery_store =
  ds_entries :: "(string, delivery_entry) jsmap"
  ds_ttl_ms :: nat
  ds_max_entries :: nat
  ds_started :: nat

definition new_delivery_store :: "int option \<Rightarrow> int option \<Rightarrow> string + delivery_store" where
  "new_delivery_store ttl max_entries =
     (let t = (case ttl of Some v \<Rightarrow> v | None \<Rightarrow> 24 * 60 * 60 * 1000); m = (case max_entries of Some v \<Rightarrow> v | None \<Rightarrow> 10000) in
      if t \<le> 0 then Inl ''idempotency ttlMs must be positive''
      else if m < 1 then Inl ''idempotency maxEntries must be a positive integer''
      else Inr \<lparr>ds_entries = [], ds_ttl_ms = nat t, ds_max_entries = nat m, ds_started = 0\<rparr>)"

definition compound_key :: "string \<Rightarrow> string \<Rightarrow> string" where
  "compound_key session key = session @ [CHR 0x00] @ key"

definition expired :: "nat \<Rightarrow> delivery_entry \<Rightarrow> bool" where
  "expired now e \<longleftrightarrow> (case de_expires_at e of Some t \<Rightarrow> t \<le> now | None \<Rightarrow> False)"

definition prune_expired :: "nat \<Rightarrow> delivery_store \<Rightarrow> delivery_store" where
  "prune_expired now s = s\<lparr>ds_entries := filter (\<lambda>(k, e). \<not> (de_settled e \<and> expired now e)) (ds_entries s)\<rparr>"

definition oldest_settled :: "(string, delivery_entry) jsmap \<Rightarrow> string option" where
  "oldest_settled m = map_option fst (find (\<lambda>(k, e). de_settled e) m)"

lemma oldest_settled_in: "oldest_settled m = Some k \<Longrightarrow> k \<in> fst ` set m"
  by (auto simp: oldest_settled_def find_Some_iff) (metis fst_conv image_eqI nth_mem)

lemma jdelete_shorter: "k \<in> fst ` set m \<Longrightarrow> length (jdelete k m) < length m"
proof (induction m)
  case (Cons p m)
  show ?case
  proof (cases "fst p = k")
    case True
    then show ?thesis using length_delete_le [of k m] by (cases p) simp
  next
    case False
    then have "k \<in> fst ` set m" using Cons.prems by auto
    then show ?thesis using Cons.IH False by (cases p) simp
  qed
qed simp

function make_room :: "nat \<Rightarrow> (string, delivery_entry) jsmap \<Rightarrow> (string, delivery_entry) jsmap" where
  "make_room limit m =
     (if length m < limit then m
      else case oldest_settled m of None \<Rightarrow> m | Some k \<Rightarrow> make_room limit (jdelete k m))"
  by pat_completeness auto
termination by (relation "measure (length \<circ> snd)") (auto dest: oldest_settled_in intro: jdelete_shorter)

declare make_room.simps [simp del]

text \<open>The number of the start whose result the caller gets, and whether its operation was started by this call.\<close>

definition run_delivery :: "nat \<Rightarrow> string \<Rightarrow> string \<Rightarrow> delivery_store \<Rightarrow> (nat \<times> bool) \<times> delivery_store" where
  "run_delivery now session key s =
     (let compound = compound_key session key; s1 = prune_expired now s;
          fresh = (let entries = make_room (ds_max_entries s1) (ds_entries s1); n = ds_started s1 in
            ((n, True), s1\<lparr>ds_entries := jset compound \<lparr>de_start = n, de_settled = False, de_expires_at = None\<rparr> entries, ds_started := n + 1\<rparr>))
      in case map_of (ds_entries s1) compound of
           Some e \<Rightarrow> if \<not> de_settled e \<or> \<not> expired now e then ((de_start e, False), s1) else fresh
         | None \<Rightarrow> fresh)"

text \<open>The operation of start \<open>n\<close>, which belongs to the key, fulfils or rejects.\<close>

definition settle_delivery :: "nat \<Rightarrow> string \<Rightarrow> nat \<Rightarrow> bool \<Rightarrow> delivery_store \<Rightarrow> delivery_store" where
  "settle_delivery now compound n fulfilled s =
     (case map_of (ds_entries s) compound of
        Some e \<Rightarrow>
          if de_start e \<noteq> n then s
          else if fulfilled
          then s\<lparr>ds_entries := jset compound (e\<lparr>de_settled := True, de_expires_at := Some (now + ds_ttl_ms s)\<rparr>) (ds_entries s)\<rparr>
          else s\<lparr>ds_entries := jdelete compound (ds_entries s)\<rparr>
      | None \<Rightarrow> s)"

section \<open>Steps\<close>

text \<open>
  The life of a store: what was started for which key, and which starts have settled. An operation settles once, after
  it was started.
\<close>

record delivery_world =
  dw_store :: delivery_store
  dw_starts :: "(nat \<times> string) list"
  dw_open :: "nat list"

datatype delivery_op =
    Deliver nat string string
  | Settle nat nat bool

definition delivery_step :: "delivery_op \<Rightarrow> delivery_world \<Rightarrow> delivery_world" where
  "delivery_step op w =
     (case op of
        Deliver now session key \<Rightarrow>
          (case run_delivery now session key (dw_store w) of
             ((n, started), s) \<Rightarrow>
               w\<lparr>dw_store := s, dw_starts := (if started then dw_starts w @ [(n, compound_key session key)] else dw_starts w),
                 dw_open := (if started then dw_open w @ [n] else dw_open w)\<rparr>)
      | Settle now n fulfilled \<Rightarrow>
          (if n \<in> set (dw_open w)
           then (case map_of (dw_starts w) n of
                   Some k \<Rightarrow> w\<lparr>dw_store := settle_delivery now k n fulfilled (dw_store w), dw_open := removeAll n (dw_open w)\<rparr>
                 | None \<Rightarrow> w)
           else w))"

section \<open>At most one delivery of a key is in flight\<close>

definition in_flight :: "delivery_store \<Rightarrow> string \<Rightarrow> nat \<Rightarrow> bool" where
  "in_flight s k n \<longleftrightarrow> (\<exists>e. map_of (ds_entries s) k = Some e \<and> de_start e = n \<and> \<not> de_settled e)"

lemma map_of_filter_kept:
  assumes "jmap_ok m" "map_of m k = Some v" "P (k, v)"
  shows "map_of (filter P m) k = Some v"
proof -
  have "jmap_ok (filter P m)" using assms(1) by (rule distinct_map_filter)
  moreover have "(k, v) \<in> set (filter P m)" using assms map_of_SomeD by fastforce
  ultimately show ?thesis by simp
qed

lemma prune_keeps: "jmap_ok (ds_entries s) \<Longrightarrow> in_flight s k n \<Longrightarrow> in_flight (prune_expired now s) k n"
  by (auto simp: in_flight_def prune_expired_def map_of_filter_kept)

lemma prune_fields: "jmap_ok (ds_entries s) \<Longrightarrow> jmap_ok (ds_entries (prune_expired now s)) \<and> ds_started (prune_expired now s) = ds_started s"
  by (simp add: prune_expired_def distinct_map_filter)

lemma oldest_is_settled: "jmap_ok m \<Longrightarrow> oldest_settled m = Some k \<Longrightarrow> \<exists>e. map_of m k = Some e \<and> de_settled e"
  by (auto simp: oldest_settled_def find_Some_iff) (metis map_of_eq_Some_iff nth_mem)

lemma make_room_ok: "jmap_ok m \<Longrightarrow> jmap_ok (make_room limit m)"
proof (induction limit m rule: make_room.induct)
  case (1 limit m)
  then show ?case by (subst make_room.simps) (auto split: option.split)
qed

lemma make_room_keeps:
  "jmap_ok m \<Longrightarrow> map_of m k = Some e \<Longrightarrow> \<not> de_settled e \<Longrightarrow> map_of (make_room limit m) k = Some e"
proof (induction limit m rule: make_room.induct)
  case (1 limit m)
  show ?case
  proof (cases "\<not> length m < limit \<and> oldest_settled m \<noteq> None")
    case True
    then obtain j where j: "oldest_settled m = Some j" by blast
    then have "j \<noteq> k" using oldest_is_settled [OF 1(2) j] 1(3,4) by auto
    then have "map_of (make_room limit (jdelete j m)) k = Some e" using 1(1) [OF _ j] 1(2-4) True by simp
    then show ?thesis using True j by (subst make_room.simps) simp
  next
    case False
    then show ?thesis using 1(3) by (subst make_room.simps) auto
  qed
qed

definition delivery_ok :: "delivery_world \<Rightarrow> bool" where
  "delivery_ok w \<longleftrightarrow>
     jmap_ok (ds_entries (dw_store w)) \<and> (\<forall>n k. map_of (dw_starts w) n = Some k \<longrightarrow> n < ds_started (dw_store w)) \<and>
     (\<forall>n \<in> set (dw_open w). \<exists>k. map_of (dw_starts w) n = Some k \<and> in_flight (dw_store w) k n)"

lemma run_delivery_joins:
  assumes "jmap_ok (ds_entries s)" "in_flight s (compound_key session key) n"
  shows "run_delivery now session key s = ((n, False), prune_expired now s)"
proof -
  obtain e where "map_of (ds_entries (prune_expired now s)) (compound_key session key) = Some e" "de_start e = n" "\<not> de_settled e"
    using prune_keeps [OF assms] by (auto simp: in_flight_def)
  then show ?thesis by (simp add: run_delivery_def Let_def)
qed

lemma run_delivery_fresh:
  assumes "jmap_ok (ds_entries s)" "run_delivery now session key s = ((n, True), s')"
  shows "n = ds_started s \<and> ds_started s' = Suc n \<and> jmap_ok (ds_entries s') \<and> in_flight s' (compound_key session key) n \<and>
    (\<forall>k j. in_flight s k j \<longrightarrow> in_flight s' k j)"
proof -
  let ?c = "compound_key session key"
  let ?p = "prune_expired now s"
  have p: "jmap_ok (ds_entries ?p)" "ds_started ?p = ds_started s" using prune_fields [OF assms(1)] by simp_all
  have s': "s' = ?p\<lparr>ds_entries := jset ?c \<lparr>de_start = ds_started s, de_settled = False, de_expires_at = None\<rparr> (make_room (ds_max_entries ?p) (ds_entries ?p)),
      ds_started := Suc (ds_started s)\<rparr> \<and> n = ds_started s"
    using assms(2) p(2) by (auto simp: run_delivery_def Let_def split: option.splits if_splits)
  have other: "k \<noteq> ?c" if "in_flight s k j" for k j
    using that run_delivery_joins [OF assms(1), of session key j now] assms(2) by auto
  have "in_flight s' k j" if fl: "in_flight s k j" for k j
  proof -
    obtain e where "map_of (ds_entries ?p) k = Some e" "de_start e = j" "\<not> de_settled e"
      using prune_keeps [OF assms(1) fl] by (auto simp: in_flight_def)
    then show ?thesis using make_room_keeps [OF p(1)] other [OF fl] s' by (auto simp: in_flight_def)
  qed
  then show ?thesis using s' make_room_ok [OF p(1)] by (auto simp: in_flight_def)
qed

lemma run_delivery_old:
  assumes "jmap_ok (ds_entries s)" "run_delivery now session key s = ((n, False), s')"
  shows "s' = prune_expired now s"
  using assms(2) by (auto simp: run_delivery_def Let_def split: option.splits if_splits)

lemma settle_keeps:
  assumes "in_flight s j i" "i \<noteq> n"
  shows "in_flight (settle_delivery now k n fulfilled s) j i"
  using assms by (auto simp: settle_delivery_def in_flight_def split: option.splits if_splits)

lemma settle_fields: "jmap_ok (ds_entries s) \<Longrightarrow> jmap_ok (ds_entries (settle_delivery now k n f s)) \<and> ds_started (settle_delivery now k n f s) = ds_started s"
  by (auto simp: settle_delivery_def split: option.splits)

lemma delivery_step_ok:
  assumes "delivery_ok w"
  shows "delivery_ok (delivery_step op w)"
proof (cases op)
  case (Deliver now session key)
  obtain n started s where r: "run_delivery now session key (dw_store w) = ((n, started), s)" by (metis prod.exhaust)
  have j: "jmap_ok (ds_entries (dw_store w))" using assms by (simp add: delivery_ok_def)
  show ?thesis
  proof (cases started)
    case True
    have "run_delivery now session key (dw_store w) = ((n, True), s)" using r True by simp
    note fresh = run_delivery_fresh [OF j this]
    have new: "map_of (dw_starts w) n = None"
      using assms fresh by (cases "map_of (dw_starts w) n") (auto simp: delivery_ok_def)
    show ?thesis using assms fresh r True new Deliver
      by (auto simp: delivery_ok_def delivery_step_def map_add_def less_Suc_eq split: option.splits if_splits)
  next
    case False
    then have "s = prune_expired now (dw_store w)" using run_delivery_old [OF j] r by simp
    then show ?thesis using assms r False Deliver prune_fields [OF j] prune_keeps [OF j]
      by (fastforce simp: delivery_ok_def delivery_step_def)
  qed
next
  case (Settle now n fulfilled)
  have j: "jmap_ok (ds_entries (dw_store w))" using assms by (simp add: delivery_ok_def)
  show ?thesis
  proof (cases "n \<in> set (dw_open w) \<and> map_of (dw_starts w) n \<noteq> None")
    case True
    then obtain k where k: "n \<in> set (dw_open w)" "map_of (dw_starts w) n = Some k" by blast
    let ?s = "settle_delivery now k n fulfilled (dw_store w)"
    have w': "delivery_step op w = w\<lparr>dw_store := ?s, dw_open := removeAll n (dw_open w)\<rparr>" using Settle k by (simp add: delivery_step_def)
    have "\<exists>k'. map_of (dw_starts w) i = Some k' \<and> in_flight ?s k' i" if "i \<in> set (removeAll n (dw_open w))" for i
    proof -
      have i: "i \<noteq> n" "i \<in> set (dw_open w)" using that by simp_all
      then obtain k' where "map_of (dw_starts w) i = Some k'" "in_flight (dw_store w) k' i" using assms unfolding delivery_ok_def by blast
      then show ?thesis using settle_keeps i(1) by blast
    qed
    then show ?thesis using w' assms settle_fields [OF j] by (simp add: delivery_ok_def)
  next
    case False
    then have "delivery_step op w = w" using Settle by (auto simp: delivery_step_def)
    then show ?thesis using assms by simp
  qed
qed

text \<open>
  C33. However deliveries and their ends follow each other, at most one operation of a key is in flight, whatever the
  limit on entries; and a retry that comes while it is in flight is answered by it and starts nothing.
\<close>

theorem one_delivery_in_flight:
  assumes "new_delivery_store ttl most = Inr s" "w = fold delivery_step ops \<lparr>dw_store = s, dw_starts = [], dw_open = []\<rparr>"
    "n \<in> set (dw_open w)" "map_of (dw_starts w) n = Some (compound_key session key)"
  shows "(\<forall>m \<in> set (dw_open w). map_of (dw_starts w) m = Some (compound_key session key) \<longrightarrow> m = n) \<and>
    (\<exists>s'. run_delivery now session key (dw_store w) = ((n, False), s'))"
proof -
  have "delivery_ok \<lparr>dw_store = s, dw_starts = [], dw_open = []\<rparr>"
    using assms(1) by (auto simp: new_delivery_store_def delivery_ok_def Let_def split: if_splits)
  then have ok: "delivery_ok w"
    unfolding assms(2) by (induction ops rule: rev_induct) (simp_all add: delivery_step_ok)
  then have fl: "in_flight (dw_store w) (compound_key session key) n" "jmap_ok (ds_entries (dw_store w))"
    using assms(3,4) by (auto simp: delivery_ok_def)
  moreover have "m = n" if "m \<in> set (dw_open w)" "map_of (dw_starts w) m = Some (compound_key session key)" for m
    using ok fl(1) that by (auto simp: delivery_ok_def in_flight_def)
  ultimately show ?thesis using run_delivery_joins [OF fl(2,1)] by blast
qed

lemma one_delivery_in_flight_witness:
  "\<exists>s s'. new_delivery_store None (Some 1) = Inr s \<and>
     run_delivery 3 ''s'' ''a'' (dw_store (fold delivery_step [Deliver 1 ''s'' ''a'', Deliver 2 ''s'' ''b''] \<lparr>dw_store = s, dw_starts = [], dw_open = []\<rparr>))
       = ((0, False), s')"
proof -
  define s where "s = \<lparr>ds_entries = [], ds_ttl_ms = 24 * 60 * 60 * 1000, ds_max_entries = 1, ds_started = 0\<rparr>"
  let ?w = "fold delivery_step [Deliver 1 ''s'' ''a'', Deliver 2 ''s'' ''b''] \<lparr>dw_store = s, dw_starts = [], dw_open = []\<rparr>"
  have new: "new_delivery_store None (Some 1) = Inr s" by (simp add: new_delivery_store_def s_def)
  have "0 \<in> set (dw_open ?w)" "map_of (dw_starts ?w) 0 = Some (compound_key ''s'' ''a'')"
    by (simp_all add: s_def delivery_step_def run_delivery_def prune_expired_def compound_key_def make_room.simps oldest_settled_def Let_def)
  then have "\<exists>s'. run_delivery 3 ''s'' ''a'' (dw_store ?w) = ((0, False), s')"
    using one_delivery_in_flight [OF new refl, of 0 "[Deliver 1 ''s'' ''a'', Deliver 2 ''s'' ''b'']" "''s''" "''a''" 3] by blast
  then show ?thesis using new by blast
qed

end
