(* ===== verification/Todo_List.thy ===== *)
theory Todo_List
  imports Conversation Steer_Bus
begin

text \<open>
  Reminders injected between turns (\<open>agents-core/src/capabilities/injection.ts\<close>) and the todo list of a frame with its
  occasional reminder (\<open>capabilities/todo\<close>). The history of the context is the live one, so an injector sees what the
  one before it appended.
\<close>

section \<open>Injectors\<close>

record injection_memory =
  im_injected_at :: "nat option"
  im_scope :: "string option"

definition new_injection_memory :: injection_memory where
  "new_injection_memory = \<lparr>im_injected_at = None, im_scope = None\<rparr>"

text \<open>A text with its variant; \<open>Inl\<close> is an injector that throws.\<close>

type_synonym injection_result = "string \<times> string option"

record injector =
  in_id :: string
  in_get :: "conversation_context \<Rightarrow> injection_memory \<Rightarrow> (string + injection_result option) \<times> injection_memory"

definition injection_scope :: "string \<Rightarrow> conversation_context \<Rightarrow> string" where
  "injection_scope session cx = session @ [CHR 0x00] @ cx_address cx"

definition context_cleared :: "injection_memory \<Rightarrow> injection_memory" where
  "context_cleared m = m\<lparr>im_injected_at := None\<rparr>"

definition inject_at_boundary ::
  "string \<Rightarrow> injector \<Rightarrow> conversation_context \<Rightarrow> injection_memory \<Rightarrow> (string + injection_result option) \<times> injection_memory" where
  "inject_at_boundary session i cx m =
     (let scope = injection_scope session cx;
          m1 = (if Some scope \<noteq> im_scope m then (context_cleared m)\<lparr>im_scope := Some scope\<rparr> else m) in
      case in_get i cx m1 of
        (Inr (Some r), m2) \<Rightarrow> (Inr (Some r), m2\<lparr>im_injected_at := Some (length (cx_history cx))\<rparr>)
      | (other, m2) \<Rightarrow> (other, m2))"

text \<open>A position before the cut is gone with its message; the others move behind the summary.\<close>

definition context_compacted :: "nat \<Rightarrow> injection_memory \<Rightarrow> injection_memory" where
  "context_compacted count m =
     (case im_injected_at m of
        None \<Rightarrow> m
      | Some i \<Rightarrow> if i < count then m\<lparr>im_injected_at := None\<rparr> else m\<lparr>im_injected_at := Some (i - count + 1)\<rparr>)"

definition context_message_removed :: "nat \<Rightarrow> injection_memory \<Rightarrow> injection_memory" where
  "context_message_removed index m =
     (case im_injected_at m of
        None \<Rightarrow> m
      | Some i \<Rightarrow> if index < i then m\<lparr>im_injected_at := Some (i - 1)\<rparr> else if index = i then m\<lparr>im_injected_at := None\<rparr> else m)"

definition is_reminder_of :: "string \<Rightarrow> string list \<Rightarrow> prompt_origin option \<Rightarrow> bool" where
  "is_reminder_of i legacy origin \<longleftrightarrow>
     (case origin of
        Some (OriginInjection by_id variant) \<Rightarrow> (case by_id of Some j \<Rightarrow> j = i | None \<Rightarrow> variant \<in> set legacy)
      | _ \<Rightarrow> False)"

text \<open>The scan from the end of the history.\<close>

definition last_reminder :: "string \<Rightarrow> string list \<Rightarrow> conversation_context \<Rightarrow> nat option" where
  "last_reminder i legacy cx =
     find (\<lambda>k. is_reminder_of i legacy (origin_of cx (cx_history cx ! k))) (rev [0..<length (cx_history cx)])"

definition restore_injected_at :: "string \<Rightarrow> string list \<Rightarrow> conversation_context \<Rightarrow> injection_memory \<Rightarrow> injection_memory" where
  "restore_injected_at i legacy cx m =
     (if im_injected_at m \<noteq> None then m
      else case last_reminder i legacy cx of Some k \<Rightarrow> m\<lparr>im_injected_at := Some k\<rparr> | None \<Rightarrow> m)"

text \<open>The manager: every injector in turn, each with its memory; \<open>put_reminder\<close> puts a reminder into the context.\<close>

fun run_injectors ::
  "(injection_result \<Rightarrow> string \<Rightarrow> conversation_context \<Rightarrow> conversation_context) \<Rightarrow> string \<Rightarrow> (injector \<times> injection_memory) list \<Rightarrow>
   conversation_context \<Rightarrow> (injector \<times> injection_memory) list \<times> conversation_context" where
  "run_injectors put_reminder session [] cx = ([], cx)"
| "run_injectors put_reminder session ((i, m) # rest) cx =
     (case inject_at_boundary session i cx m of
        (outcome, m') \<Rightarrow>
          let cx' = (case outcome of Inr (Some r) \<Rightarrow> put_reminder r (in_id i) cx | _ \<Rightarrow> cx) in
          (case run_injectors put_reminder session rest cx' of (rest', cx'') \<Rightarrow> ((i, m') # rest', cx'')))"

definition injectors_compacted :: "nat \<Rightarrow> (injector \<times> injection_memory) list \<Rightarrow> (injector \<times> injection_memory) list" where
  "injectors_compacted count = map (\<lambda>(i, m). (i, context_compacted count m))"

definition injectors_cleared :: "(injector \<times> injection_memory) list \<Rightarrow> (injector \<times> injection_memory) list" where
  "injectors_cleared = map (\<lambda>(i, m). (i, context_cleared m))"

definition injectors_message_removed :: "nat \<Rightarrow> (injector \<times> injection_memory) list \<Rightarrow> (injector \<times> injection_memory) list" where
  "injectors_message_removed index = map (\<lambda>(i, m). (i, context_message_removed index m))"

definition system_reminder :: "string \<Rightarrow> string" where
  "system_reminder t = ''<system-reminder>'' @ newline @ t @ newline @ ''</system-reminder>''"

text \<open>The appender of a turn boundary: the message object gets the identity \<open>mid\<close>.\<close>

definition append_reminder ::
  "nat \<Rightarrow> string option \<Rightarrow> (conversation_context \<Rightarrow> nat) \<Rightarrow> injection_result \<Rightarrow> string \<Rightarrow> conversation_context \<Rightarrow> conversation_context" where
  "append_reminder now outcome mid r i cx =
     append_message now outcome (mid cx, UserMsg \<lparr>um_content = [TextPart (system_reminder (fst r))], um_timestamp = now\<rparr>)
       (Some (OriginInjection (Some i) (case snd r of Some v \<Rightarrow> v | None \<Rightarrow> i))) cx"

section \<open>The todo list\<close>

datatype todo_status = TodoPending | TodoInProgress | TodoDone

record todo_item =
  td_title :: string
  td_status :: todo_status

definition todo_list_tool_name :: string where
  "todo_list_tool_name = ''TodoList''"

record todo_store =
  ts_by_frame :: "(string, todo_item list) jsmap"
  ts_persisted :: "string list"

definition new_todo_store :: todo_store where
  "new_todo_store = \<lparr>ts_by_frame = [], ts_persisted = []\<rparr>"

definition todo_get :: "string \<Rightarrow> todo_store \<Rightarrow> todo_item list" where
  "todo_get address s = (case map_of (ts_by_frame s) address of Some l \<Rightarrow> l | None \<Rightarrow> [])"

definition todo_set :: "string \<Rightarrow> todo_item list \<Rightarrow> todo_store \<Rightarrow> todo_store" where
  "todo_set address todos s = s\<lparr>ts_by_frame := jset address todos (ts_by_frame s), ts_persisted := ts_persisted s @ [address]\<rparr>"

definition todo_frames :: "todo_store \<Rightarrow> string list" where
  "todo_frames s = jkeys (ts_by_frame s)"

definition todo_status_name :: "todo_status \<Rightarrow> string" where
  "todo_status_name st = (case st of TodoPending \<Rightarrow> ''pending'' | TodoInProgress \<Rightarrow> ''in_progress'' | TodoDone \<Rightarrow> ''done'')"

definition todo_json :: "todo_item list \<Rightarrow> json" where
  "todo_json todos =
     JObj [(''todos'', JArr (map (\<lambda>t. JObj [(''title'', JStr (td_title t)), (''status'', JStr (todo_status_name (td_status t)))]) todos))]"

definition todo_snapshot :: "string \<Rightarrow> todo_store \<Rightarrow> json option" where
  "todo_snapshot address s = map_option todo_json (map_of (ts_by_frame s) address)"

definition todo_status_of :: "json option \<Rightarrow> todo_status option" where
  "todo_status_of v =
     (case v of
        Some (JStr t) \<Rightarrow>
          if t = ''pending'' then Some TodoPending else if t = ''in_progress'' then Some TodoInProgress
          else if t = ''done'' then Some TodoDone else None
      | _ \<Rightarrow> None)"

definition todo_item_of :: "json \<Rightarrow> todo_item option" where
  "todo_item_of v =
     (case (json_field ''title'' v, todo_status_of (json_field ''status'' v)) of
        (Some (JStr t), Some st) \<Rightarrow> Some \<lparr>td_title = t, td_status = st\<rparr>
      | _ \<Rightarrow> None)"

definition todo_details_of :: "json option \<Rightarrow> todo_item list option" where
  "todo_details_of v =
     (case Option.bind v (json_field ''todos'') of
        Some (JArr xs) \<Rightarrow> if list_all (\<lambda>x. todo_item_of x \<noteq> None) xs then Some (map (the \<circ> todo_item_of) xs) else None
      | _ \<Rightarrow> None)"

definition todo_restore :: "string \<Rightarrow> json option \<Rightarrow> todo_store \<Rightarrow> todo_store" where
  "todo_restore address v s =
     (case todo_details_of v of
        Some l \<Rightarrow> s\<lparr>ts_by_frame := jset address l (ts_by_frame s)\<rparr>
      | None \<Rightarrow> s\<lparr>ts_by_frame := jdelete address (ts_by_frame s)\<rparr>)"

section \<open>The tool\<close>

definition status_marker :: "todo_status \<Rightarrow> string" where
  "status_marker st = ''['' @ todo_status_name st @ '']''"

definition render_todo_list :: "todo_item list \<Rightarrow> string" where
  "render_todo_list todos =
     (if todos = [] then ''Todo list is empty.''
      else join_lines (''Current todo list:'' # map (\<lambda>t. ''  '' @ status_marker (td_status t) @ '' '' @ td_title t) todos))"

definition todo_list_write_reminder :: string where
  "todo_list_write_reminder = ''Ensure that you continue to use the todo list to track progress. Mark tasks done immediately after finishing them, and keep exactly one task in_progress when work is underway.''"

text \<open>The text and the details of the result; without todos the list is read.\<close>

definition todo_list_tool :: "string option \<Rightarrow> todo_item list option \<Rightarrow> todo_store \<Rightarrow> (string \<times> json) \<times> todo_store" where
  "todo_list_tool address todos s =
     (let a = (case address of Some x \<Rightarrow> x | None \<Rightarrow> ''main'') in
      case todos of
        None \<Rightarrow> ((render_todo_list (todo_get a s), todo_json (todo_get a s)), s)
      | Some l \<Rightarrow>
          let s' = todo_set a l s in
          (if l = [] then ((''Todo list cleared.'', todo_json l), s')
           else ((''Todo list updated.'' @ newline @ render_todo_list l @ newline @ newline @ todo_list_write_reminder, todo_json l), s')))"

section \<open>The reminder\<close>

definition turns_since_write_limit :: nat where
  "turns_since_write_limit = 10"

definition turns_between_reminders :: nat where
  "turns_between_reminders = 10"

definition is_assistant :: "message \<Rightarrow> bool" where
  "is_assistant m \<longleftrightarrow> (case m of AssistantMsg _ \<Rightarrow> True | _ \<Rightarrow> False)"

definition is_todo_write :: "message \<Rightarrow> bool" where
  "is_todo_write m \<longleftrightarrow>
     (case m of
        ToolResultMsg t \<Rightarrow> tm_tool_name t = todo_list_tool_name
      | AssistantMsg a \<Rightarrow> list_ex (\<lambda>p. case p of ToolCallPart c \<Rightarrow> tc_name c = todo_list_tool_name | _ \<Rightarrow> False) (am_content a)
      | _ \<Rightarrow> False)"

definition assistant_turns_since :: "message list \<Rightarrow> nat \<Rightarrow> nat" where
  "assistant_turns_since ms i = length (filter is_assistant (drop (Suc i) ms))"

text \<open>Counted from the end of the history; \<open>None\<close> is \<open>Infinity\<close>.\<close>

fun turns_since_write :: "message list \<Rightarrow> nat \<Rightarrow> nat option" where
  "turns_since_write [] count = None"
| "turns_since_write (m # ms) count =
     (if is_todo_write m then Some count else turns_since_write ms (if is_assistant m then count + 1 else count))"

definition assistant_turns_since_todo_write :: "message list \<Rightarrow> nat option" where
  "assistant_turns_since_todo_write ms = turns_since_write (rev ms) 0"

definition fewer_than :: "nat option \<Rightarrow> nat \<Rightarrow> bool" where
  "fewer_than n limit \<longleftrightarrow> (case n of Some k \<Rightarrow> k < limit | None \<Rightarrow> False)"

text \<open>The fixed prose of the nudge is an argument.\<close>

definition todo_injection ::
  "string \<Rightarrow> todo_store \<Rightarrow> conversation_context \<Rightarrow> injection_memory \<Rightarrow> (string + injection_result option) \<times> injection_memory" where
  "todo_injection nudge s cx m =
     (let m1 = restore_injected_at ''todo'' [''todo_reminder''] cx m; todos = todo_get (cx_address cx) s; ms = map snd (cx_history cx);
          since_write = assistant_turns_since_todo_write ms;
          since_reminder = map_option (assistant_turns_since ms) (im_injected_at m1)
      in if todos = [] then (Inr None, m1)
         else if fewer_than since_write turns_since_write_limit \<or> fewer_than since_reminder turns_between_reminders then (Inr None, m1)
         else (Inr (Some (join_lines [nudge, [], ''Current todo list:'', render_todo_list todos], Some ''todo_reminder'')), m1))"

definition todo_injector :: "string \<Rightarrow> todo_store \<Rightarrow> injector" where
  "todo_injector nudge s = \<lparr>in_id = ''todo'', in_get = todo_injection nudge s\<rparr>"

section \<open>The reminder is sparse\<close>

definition todo_reminder_at :: "conversation_context \<Rightarrow> nat \<Rightarrow> bool" where
  "todo_reminder_at cx k \<longleftrightarrow> k < length (cx_history cx) \<and> is_reminder_of ''todo'' [''todo_reminder''] (origin_of cx (cx_history cx ! k))"

lemma find_rev_upt:
  "find P (rev [0..<n]) = Some k \<longleftrightarrow> k < n \<and> P k \<and> (\<forall>j. k < j \<and> j < n \<longrightarrow> \<not> P j)"
proof (induction n)
  case (Suc n)
  show ?case
  proof (cases "P n")
    case True
    then show ?thesis by (auto simp: less_Suc_eq)
  next
    case False
    then show ?thesis using Suc.IH by (simp add: less_Suc_eq) (metis less_irrefl_nat)
  qed
qed simp

lemma find_rev_upt_None: "find P (rev [0..<n]) = None \<longleftrightarrow> (\<forall>k < n. \<not> P k)"
  by (auto simp: find_None_iff)

lemma turns_since_antimono: "i \<le> k \<Longrightarrow> assistant_turns_since ms k \<le> assistant_turns_since ms i"
proof -
  assume "i \<le> k"
  then have "drop (Suc k) ms = drop (k - i) (drop (Suc i) ms)" by simp
  moreover have "length (filter P (drop n xs)) \<le> length (filter P xs)" for P n and xs :: "message list"
    by (metis append_take_drop_id filter_append le_add2 length_append)
  ultimately show ?thesis unfolding assistant_turns_since_def by metis
qed

lemma turns_since_write_bound:
  "turns_since_write (rev ms) c = Some n \<Longrightarrow> i < length ms \<Longrightarrow> is_todo_write (ms ! i) \<Longrightarrow> n \<le> c + assistant_turns_since ms i"
proof (induction ms arbitrary: c rule: rev_induct)
  case (snoc m ms)
  show ?case
  proof (cases "is_todo_write m")
    case True
    then show ?thesis using snoc.prems(1) by simp
  next
    case False
    have i: "i < length ms" using snoc.prems(2,3) False by (cases "i = length ms") (auto simp: nth_append)
    then have w: "is_todo_write (ms ! i)" using snoc.prems(3) by (simp add: nth_append)
    have "n \<le> (if is_assistant m then c + 1 else c) + assistant_turns_since ms i"
      using snoc.IH [OF _ i w] snoc.prems(1) False by simp
    moreover have "assistant_turns_since (ms @ [m]) i = assistant_turns_since ms i + (if is_assistant m then 1 else 0)"
      using i by (simp add: assistant_turns_since_def)
    ultimately show ?thesis by (simp split: if_splits)
  qed
qed simp

lemma turns_since_write_None: "turns_since_write ms c = None \<Longrightarrow> \<forall>m \<in> set ms. \<not> is_todo_write m"
  by (induction ms arbitrary: c) (auto split: if_splits)

text \<open>
  The reminder of the todo list is sparse: whenever one is put into a conversation, the frame has a list, and at
  least ten messages of the assistant follow every earlier reminder, those of earlier processes included, and every
  call or result of the tool that writes the list; provided the position the injector remembers for this very frame, if
  it remembers one, is that of the last reminder.
\<close>

theorem todo_reminder_is_sparse:
  assumes "inject_at_boundary session (todo_injector nudge s) cx m = (Inr (Some r), m')"
    "im_scope m = Some (injection_scope session cx) \<Longrightarrow> im_injected_at m \<noteq> None \<Longrightarrow> im_injected_at m = last_reminder ''todo'' [''todo_reminder''] cx"
  shows "todo_get (cx_address cx) s \<noteq> [] \<and> im_injected_at m' = Some (length (cx_history cx)) \<and>
    (\<forall>k. todo_reminder_at cx k \<longrightarrow> 10 \<le> assistant_turns_since (map snd (cx_history cx)) k) \<and>
    (\<forall>k < length (cx_history cx). is_todo_write (snd (cx_history cx ! k)) \<longrightarrow> 10 \<le> assistant_turns_since (map snd (cx_history cx)) k)"
proof -
  let ?ms = "map snd (cx_history cx)"
  let ?scope = "injection_scope session cx"
  define m1 where "m1 = (if Some ?scope \<noteq> im_scope m then (context_cleared m)\<lparr>im_scope := Some ?scope\<rparr> else m)"
  define m2 where "m2 = restore_injected_at ''todo'' [''todo_reminder''] cx m1"
  have pos: "im_injected_at m2 = last_reminder ''todo'' [''todo_reminder''] cx"
    using assms(2) by (auto simp: m2_def m1_def restore_injected_at_def context_cleared_def split: option.split)
  have got: "todo_injection nudge s cx m1 = (Inr (Some r), m2) \<and> im_injected_at m' = Some (length (cx_history cx))"
    using assms(1) by (auto simp: inject_at_boundary_def todo_injector_def Let_def m1_def [symmetric] m2_def todo_injection_def split: if_splits)
  then have list: "todo_get (cx_address cx) s \<noteq> []" and written: "\<not> fewer_than (assistant_turns_since_todo_write ?ms) 10"
    and reminder: "\<not> fewer_than (map_option (assistant_turns_since ?ms) (im_injected_at m2)) 10"
    by (auto simp: todo_injection_def Let_def m2_def turns_since_write_limit_def turns_between_reminders_def split: if_splits)
  have r: "10 \<le> assistant_turns_since ?ms k" if "todo_reminder_at cx k" for k
  proof -
    have "last_reminder ''todo'' [''todo_reminder''] cx \<noteq> None"
      using that unfolding last_reminder_def find_rev_upt_None todo_reminder_at_def by blast
    then obtain j where j: "last_reminder ''todo'' [''todo_reminder''] cx = Some j" by blast
    then have "k \<le> j" using that unfolding last_reminder_def find_rev_upt todo_reminder_at_def by (meson not_le)
    then show ?thesis using reminder pos j turns_since_antimono [of k j ?ms] by (simp add: fewer_than_def)
  qed
  have w: "10 \<le> assistant_turns_since ?ms k" if "k < length (cx_history cx)" "is_todo_write (snd (cx_history cx ! k))" for k
  proof (cases "assistant_turns_since_todo_write ?ms")
    case None
    then have "\<forall>m \<in> set (rev ?ms). \<not> is_todo_write m" unfolding assistant_turns_since_todo_write_def by (rule turns_since_write_None)
    moreover have "snd (cx_history cx ! k) \<in> set (rev ?ms)" using that(1) by simp
    ultimately show ?thesis using that(2) by blast
  next
    case (Some n)
    then have "n \<le> 0 + assistant_turns_since ?ms k"
      using turns_since_write_bound [of ?ms 0 n k] that by (simp add: assistant_turns_since_todo_write_def)
    then show ?thesis using written Some by (simp add: fewer_than_def)
  qed
  show ?thesis using list got r w by blast
qed

definition quiet_assistant :: message where
  "quiet_assistant =
     AssistantMsg \<lparr>am_content = [TextPart ''working''], am_stop_reason = StopEnd, am_error_message = None,
       am_usage = \<lparr>us_input = 0, us_output = 0, us_cache_read = 0, us_cache_write = 0\<rparr>\<rparr>"

definition quiet_conversation :: conversation_context where
  "quiet_conversation = (new_context ''main'' [])\<lparr>cx_history := map (\<lambda>i. (i, quiet_assistant)) [0..<12]\<rparr>"

lemma todo_reminder_is_sparse_witness:
  "\<exists>r m'. inject_at_boundary ''s'' (todo_injector ''Consider the list.'' (todo_set ''main'' [\<lparr>td_title = ''test'', td_status = TodoPending\<rparr>] new_todo_store))
       quiet_conversation new_injection_memory = (Inr (Some r), m') \<and> im_injected_at m' = Some 12"
proof -
  let ?s = "todo_set ''main'' [\<lparr>td_title = ''test'', td_status = TodoPending\<rparr>] new_todo_store"
  have "fst (inject_at_boundary ''s'' (todo_injector ''Consider the list.'' ?s) quiet_conversation new_injection_memory) =
      Inr (Some (join_lines [''Consider the list.'', [], ''Current todo list:'', render_todo_list [\<lparr>td_title = ''test'', td_status = TodoPending\<rparr>]], Some ''todo_reminder''))"
    by code_simp
  then obtain r m' where run: "inject_at_boundary ''s'' (todo_injector ''Consider the list.'' ?s) quiet_conversation new_injection_memory = (Inr (Some r), m')"
    by (metis prod.collapse)
  then have "im_injected_at m' = Some (length (cx_history quiet_conversation))"
    using todo_reminder_is_sparse [OF run] by (simp add: new_injection_memory_def)
  then show ?thesis using run by (auto simp: quiet_conversation_def)
qed

section \<open>What the injector remembers, and what a reopened frame has\<close>

lemma remembered_position_follows_compaction:
  assumes "im_injected_at m = Some i" "i < length h" "count \<le> i"
  shows "im_injected_at (context_compacted count m) = Some (Suc (i - count)) \<and> (summary # drop count h) ! Suc (i - count) = h ! i"
  using assms by (simp add: context_compacted_def)

lemma todo_list_restores: "todo_get a (todo_restore a (Some (todo_json l)) s) = l"
proof -
  have item: "todo_item_of (JObj [(''title'', JStr (td_title t)), (''status'', JStr (todo_status_name (td_status t)))]) = Some t" for t
    by (cases t; cases "td_status t") (auto simp: todo_item_of_def todo_status_of_def todo_status_name_def)
  have "todo_details_of (Some (todo_json l)) = Some l"
    by (simp add: todo_details_of_def todo_json_def list_all_iff item comp_def)
  then show ?thesis by (simp add: todo_restore_def todo_get_def)
qed

text \<open>The reminder says \<open>Current todo list:\<close> twice: once itself and once in the rendered list.\<close>

lemma heading_said_twice:
  "l \<noteq> [] \<Longrightarrow> join_lines [nudge, [], ''Current todo list:'', render_todo_list l] =
     nudge @ newline @ newline @ ''Current todo list:'' @ newline @ ''Current todo list:'' @ newline @
       join_lines (map (\<lambda>t. ''  '' @ status_marker (td_status t) @ '' '' @ td_title t) l)"
  by (cases l) (simp_all add: render_todo_list_def)

end
