(* ===== verification/Guardrail.thy ===== *)
theory Guardrail
  imports Agent_Prelude
begin

text \<open>
  Guardrails of an agent (\<open>agents-core/src/agent/guardrail.ts\<close>): the checks of input and output, the monitor that
  checks the output of a step while it streams, and the hooks around a tool call. What a guardrail answers is a
  function or a step of its own: \<open>None\<close> lets pass, \<open>Some\<close> is the tripwire or what the guardrail threw.
\<close>

section \<open>Checks in a row\<close>

text \<open>\<open>runInputGuardrails\<close>, \<open>runOutputGuardrails\<close>: the first tripwire ends the row.\<close>

fun run_guardrails :: "('a \<Rightarrow> 'e option) list \<Rightarrow> 'a \<Rightarrow> 'e option" where
  "run_guardrails [] args = None"
| "run_guardrails (g # gs) args = (case g args of Some e \<Rightarrow> Some e | None \<Rightarrow> run_guardrails gs args)"

datatype tool_guardrail_behavior = GuardAllow | GuardReject string | GuardThrow

text \<open>The hooks of a tool call: the first rejection is the result of a call that does not run; rejections of a result replace it.\<close>

fun tool_input_guardrails :: "('c \<Rightarrow> tool_guardrail_behavior) list \<Rightarrow> 'c \<Rightarrow> nat + string option" where
  "tool_input_guardrails [] call = Inr None"
| "tool_input_guardrails (g # gs) call =
     (case g call of
        GuardReject message \<Rightarrow> Inr (Some message)
      | GuardThrow \<Rightarrow> Inl (length gs)
      | GuardAllow \<Rightarrow> tool_input_guardrails gs call)"

fun tool_output_guardrails :: "(string \<Rightarrow> 'r) \<Rightarrow> ('c \<Rightarrow> 'r \<Rightarrow> tool_guardrail_behavior) list \<Rightarrow> 'c \<Rightarrow> 'r \<Rightarrow> nat + 'r" where
  "tool_output_guardrails rejected [] call result = Inr result"
| "tool_output_guardrails rejected (g # gs) call result =
     (case g call result of
        GuardReject message \<Rightarrow> tool_output_guardrails rejected gs call (rejected message)
      | GuardThrow \<Rightarrow> Inl (length gs)
      | GuardAllow \<Rightarrow> tool_output_guardrails rejected gs call result)"

section \<open>The monitor\<close>

definition default_stream_min_chars :: nat where
  "default_stream_min_chars = 300"

definition default_stream_max_delay_ms :: nat where
  "default_stream_max_delay_ms = 500"

text \<open>A running check: the generation, what was covered before and the text it was started on.\<close>

record stream_guard =
  sg_min_chars :: nat
  sg_max_delay_ms :: nat
  sg_checked :: nat
  sg_timer :: bool
  sg_running :: "(nat \<times> nat \<times> string) option"

text \<open>
  The streaming guardrails by position, of which there are \<open>gm_count\<close>. Two fields are for the statements only:
  \<open>gm_passed\<close> keeps what passed (the position, the generation and the delta), \<open>gm_ended\<close> what every check came
  to (the position, the generation it was started in and the one it ended in, and what the guardrail said).
\<close>

record guardrail_monitor =
  gm_output :: string
  gm_generation :: nat
  gm_failure :: "string option"
  gm_finishing :: bool
  gm_count :: nat
  gm_guard :: "nat \<Rightarrow> stream_guard"
  gm_passed :: "(nat \<times> nat \<times> string) list"
  gm_ended :: "(nat \<times> nat \<times> nat \<times> string option) list"

definition positive_or :: "int option \<Rightarrow> nat \<Rightarrow> nat" where
  "positive_or v fallback = (case v of Some n \<Rightarrow> if 0 < n then nat n else fallback | None \<Rightarrow> fallback)"

definition non_negative_or :: "int option \<Rightarrow> nat \<Rightarrow> nat" where
  "non_negative_or v fallback = (case v of Some n \<Rightarrow> if 0 \<le> n then nat n else fallback | None \<Rightarrow> fallback)"

definition new_stream_guard :: "int option \<times> int option \<Rightarrow> stream_guard" where
  "new_stream_guard config =
     \<lparr>sg_min_chars = positive_or (fst config) default_stream_min_chars, sg_max_delay_ms = non_negative_or (snd config) default_stream_max_delay_ms,
      sg_checked = 0, sg_timer = False, sg_running = None\<rparr>"

definition new_monitor :: "(int option \<times> int option) list \<Rightarrow> guardrail_monitor" where
  "new_monitor configs =
     \<lparr>gm_output = [], gm_generation = 0, gm_failure = None, gm_finishing = False, gm_count = length configs,
      gm_guard = (\<lambda>k. new_stream_guard (if k < length configs then configs ! k else (None, None))), gm_passed = [], gm_ended = []\<rparr>"

definition put_guard :: "nat \<Rightarrow> stream_guard \<Rightarrow> guardrail_monitor \<Rightarrow> guardrail_monitor" where
  "put_guard k g m = m\<lparr>gm_guard := (gm_guard m)(k := g)\<rparr>"

definition ensure_timer :: "nat \<Rightarrow> guardrail_monitor \<Rightarrow> guardrail_monitor" where
  "ensure_timer k m =
     (let g = gm_guard m k in
      if sg_timer g \<or> sg_running g \<noteq> None \<or> gm_finishing m \<or> gm_failure m \<noteq> None then m else put_guard k (g\<lparr>sg_timer := True\<rparr>) m)"

definition start_check :: "nat \<Rightarrow> bool \<Rightarrow> guardrail_monitor \<Rightarrow> guardrail_monitor" where
  "start_check k force m =
     (let g = (gm_guard m k)\<lparr>sg_timer := False\<rparr>; m1 = put_guard k g m in
      if gm_failure m \<noteq> None \<or> sg_running g \<noteq> None \<or> (gm_finishing m \<and> \<not> force) then m1
      else if \<not> force \<and> length (gm_output m) - sg_checked g < sg_min_chars g then ensure_timer k m1
      else if length (gm_output m) \<le> sg_checked g then m1
      else put_guard k (g\<lparr>sg_running := Some (gm_generation m, sg_checked g, gm_output m)\<rparr>) m1)"

definition check_or_wait :: "nat \<Rightarrow> guardrail_monitor \<Rightarrow> guardrail_monitor" where
  "check_or_wait k m =
     (if sg_min_chars (gm_guard m k) \<le> length (gm_output m) - sg_checked (gm_guard m k) then start_check k False m else ensure_timer k m)"

definition observe_text_delta :: "string \<Rightarrow> guardrail_monitor \<Rightarrow> guardrail_monitor" where
  "observe_text_delta delta m =
     (if gm_finishing m \<or> gm_failure m \<noteq> None \<or> delta = [] then m
      else fold check_or_wait [0..<gm_count m] (m\<lparr>gm_output := gm_output m @ delta\<rparr>))"

definition reset_monitor :: "guardrail_monitor \<Rightarrow> guardrail_monitor" where
  "reset_monitor m =
     m\<lparr>gm_generation := gm_generation m + 1, gm_output := [], gm_guard := (\<lambda>k. (gm_guard m k)\<lparr>sg_checked := 0, sg_timer := False\<rparr>)\<rparr>"

definition clear_timers :: "guardrail_monitor \<Rightarrow> guardrail_monitor" where
  "clear_timers m = m\<lparr>gm_guard := (\<lambda>k. (gm_guard m k)\<lparr>sg_timer := False\<rparr>)\<rparr>"

definition monitor_fails :: "string \<Rightarrow> guardrail_monitor \<Rightarrow> guardrail_monitor" where
  "monitor_fails e m = (if gm_failure m \<noteq> None then m else clear_timers (m\<lparr>gm_failure := Some e\<rparr>))"

definition timer_due :: "nat \<Rightarrow> guardrail_monitor \<Rightarrow> guardrail_monitor" where
  "timer_due k m =
     (if sg_timer (gm_guard m k) then start_check k True (put_guard k ((gm_guard m k)\<lparr>sg_timer := False\<rparr>) m) else m)"

definition check_passed :: "nat \<Rightarrow> nat \<Rightarrow> string \<Rightarrow> guardrail_monitor \<Rightarrow> guardrail_monitor" where
  "check_passed k covered delta m =
     put_guard k ((gm_guard m k)\<lparr>sg_checked := covered\<rparr>) (m\<lparr>gm_passed := gm_passed m @ [(k, gm_generation m, delta)]\<rparr>)"

text \<open>A running check ends; one of an earlier generation says nothing any more.\<close>

definition judged :: "nat \<Rightarrow> nat \<times> nat \<times> string \<Rightarrow> string option \<Rightarrow> guardrail_monitor \<Rightarrow> guardrail_monitor" where
  "judged k check verdict m =
     (case check of
        (generation, covered, snapshot) \<Rightarrow>
          if generation \<noteq> gm_generation m then m
          else case verdict of None \<Rightarrow> check_passed k (length snapshot) (drop covered snapshot) m | Some e \<Rightarrow> monitor_fails e m)"

definition check_stopped :: "nat \<Rightarrow> guardrail_monitor \<Rightarrow> guardrail_monitor" where
  "check_stopped k m = put_guard k ((gm_guard m k)\<lparr>sg_running := None\<rparr>) m"

definition check_again :: "nat \<Rightarrow> nat \<Rightarrow> guardrail_monitor \<Rightarrow> guardrail_monitor" where
  "check_again k generation m =
     (if generation = gm_generation m \<and> gm_failure m = None \<and> \<not> gm_finishing m
      then (if sg_min_chars (gm_guard m k) \<le> length (gm_output m) - sg_checked (gm_guard m k) then start_check k False m
            else if sg_checked (gm_guard m k) < length (gm_output m) then ensure_timer k m else m)
      else m)"

definition note_ended :: "nat \<Rightarrow> nat \<Rightarrow> string option \<Rightarrow> guardrail_monitor \<Rightarrow> guardrail_monitor" where
  "note_ended k generation verdict m = m\<lparr>gm_ended := gm_ended m @ [(k, generation, gm_generation m, verdict)]\<rparr>"

definition check_ends :: "nat \<Rightarrow> string option \<Rightarrow> guardrail_monitor \<Rightarrow> guardrail_monitor" where
  "check_ends k verdict m =
     (case sg_running (gm_guard m k) of
        None \<Rightarrow> m
      | Some check \<Rightarrow> check_again k (fst check) (check_stopped k (judged k check verdict (note_ended k (fst check) verdict m))))"

text \<open>\<open>finish\<close>: what it does at once, and, when no check is running any more, the rest.\<close>

definition finish_begin :: "string \<Rightarrow> guardrail_monitor \<Rightarrow> guardrail_monitor" where
  "finish_begin output m = clear_timers (m\<lparr>gm_finishing := True, gm_output := output\<rparr>)"

text \<open>All guardrails in order, each with its position among the streaming ones if it has one.\<close>

fun final_checks ::
  "(nat \<Rightarrow> string \<Rightarrow> string \<Rightarrow> string option) \<Rightarrow> (nat \<times> nat option) list \<Rightarrow> guardrail_monitor \<Rightarrow> string + guardrail_monitor" where
  "final_checks execute [] m = Inr m"
| "final_checks execute ((i, position) # rest) m =
     (let covered = (case position of Some k \<Rightarrow> sg_checked (gm_guard m k) | None \<Rightarrow> 0) in
      case execute i (gm_output m) (drop covered (gm_output m)) of
        Some e \<Rightarrow> Inl e
      | None \<Rightarrow>
          final_checks execute rest
            (case position of Some k \<Rightarrow> check_passed k (length (gm_output m)) (drop covered (gm_output m)) m | None \<Rightarrow> m))"

definition tail_verdict :: "(nat \<Rightarrow> string \<Rightarrow> string \<Rightarrow> string option) \<Rightarrow> nat \<Rightarrow> guardrail_monitor \<Rightarrow> guardrail_monitor" where
  "tail_verdict execute k m =
     (case sg_running (gm_guard m k) of
        Some (generation, covered, snapshot) \<Rightarrow> check_ends k (execute k snapshot (drop covered snapshot)) m
      | None \<Rightarrow> m)"

text \<open>\<open>order\<close> is the order in which the checks of the tails end, when the final checks are left out.\<close>

definition finish_end ::
  "bool \<Rightarrow> (nat \<Rightarrow> string \<Rightarrow> string \<Rightarrow> string option) \<Rightarrow> (nat \<times> nat option) list \<Rightarrow> nat list \<Rightarrow> guardrail_monitor \<Rightarrow> string + guardrail_monitor" where
  "finish_end run_final execute guardrails order m =
     (case gm_failure m of
        Some e \<Rightarrow> Inl e
      | None \<Rightarrow>
          if run_final then final_checks execute guardrails m
          else
            let m1 = fold (\<lambda>k x. if sg_checked (gm_guard x k) < length (gm_output x) then start_check k True x else x) [0..<gm_count m] m;
                m2 = fold (tail_verdict execute) order m1
            in (case gm_failure m2 of Some e \<Rightarrow> Inl e | None \<Rightarrow> Inr m2))"

section \<open>What passed tiles the output\<close>

definition passed_text :: "nat \<Rightarrow> guardrail_monitor \<Rightarrow> string" where
  "passed_text k m = concat (map (snd \<circ> snd) (filter (\<lambda>(j, g, d). j = k \<and> g = gm_generation m) (gm_passed m)))"

definition tiled :: "guardrail_monitor \<Rightarrow> bool" where
  "tiled m \<longleftrightarrow>
     (\<forall>k. passed_text k m = take (sg_checked (gm_guard m k)) (gm_output m) \<and> sg_checked (gm_guard m k) \<le> length (gm_output m) \<and>
        (\<forall>g c s. sg_running (gm_guard m k) = Some (g, c, s) \<longrightarrow>
           g \<le> gm_generation m \<and> (g = gm_generation m \<longrightarrow> c = sg_checked (gm_guard m k) \<and> c \<le> length s \<and> prefix s (gm_output m)))) \<and>
     (\<forall>(j, g, d) \<in> set (gm_passed m). g \<le> gm_generation m)"

lemma tiled_put_timer: "tiled m \<Longrightarrow> tiled (put_guard k ((gm_guard m k)\<lparr>sg_timer := b\<rparr>) m)"
  by (simp add: tiled_def put_guard_def passed_text_def)

lemma tiled_ensure: "tiled m \<Longrightarrow> tiled (ensure_timer k m)"
  by (simp add: ensure_timer_def Let_def tiled_put_timer)

lemma tiled_start_running:
  "tiled m \<Longrightarrow> tiled (put_guard k ((gm_guard m k)\<lparr>sg_timer := False, sg_running := Some (gm_generation m, sg_checked (gm_guard m k), gm_output m)\<rparr>) m)"
  by (auto simp: tiled_def put_guard_def passed_text_def)

lemma put_put: "put_guard k g (put_guard k h m) = put_guard k g m"
  by (simp add: put_guard_def)

lemma tiled_start: "tiled m \<Longrightarrow> tiled (start_check k force m)"
  using tiled_put_timer [of m k False] tiled_start_running [of m k] tiled_ensure
  by (simp add: start_check_def Let_def put_put)

lemma tiled_check_or_wait: "tiled m \<Longrightarrow> tiled (check_or_wait k m)"
  by (simp add: check_or_wait_def tiled_start tiled_ensure)

lemma tiled_fold: "(\<And>k m. tiled m \<Longrightarrow> tiled (f k m)) \<Longrightarrow> tiled m \<Longrightarrow> tiled (fold f ks m)"
  by (induction ks arbitrary: m) simp_all

lemma tiled_more_output:
  assumes "tiled m" "prefix (gm_output m) out"
  shows "tiled (m\<lparr>gm_output := out\<rparr>)"
proof -
  obtain u where u: "out = gm_output m @ u" using assms(2) by (auto simp: prefix_def)
  have "passed_text k (m\<lparr>gm_output := out\<rparr>) = passed_text k m" for k by (simp add: passed_text_def)
  then show ?thesis using assms(1) u by (auto simp: tiled_def intro: trans_le_add1 prefix_order.trans)
qed

lemma tiled_observe: "tiled m \<Longrightarrow> tiled (observe_text_delta delta m)"
  unfolding observe_text_delta_def by (auto intro!: tiled_fold tiled_check_or_wait tiled_more_output)

lemma tiled_reset: "tiled m \<Longrightarrow> tiled (reset_monitor m)"
proof -
  assume t: "tiled m"
  have "passed_text k (reset_monitor m) = []" for k
    using t by (fastforce simp: tiled_def passed_text_def reset_monitor_def filter_empty_conv)
  then show ?thesis using t by (fastforce simp: tiled_def reset_monitor_def)
qed

lemma tiled_clear: "tiled m \<Longrightarrow> tiled (clear_timers m)"
  by (simp add: tiled_def clear_timers_def passed_text_def)

lemma tiled_fails: "tiled m \<Longrightarrow> tiled (monitor_fails e m)"
  by (auto simp: monitor_fails_def intro!: tiled_clear) (simp add: tiled_def passed_text_def)

lemma tiled_passed:
  assumes "tiled m" "c = sg_checked (gm_guard m k)" "c \<le> length s" "prefix s (gm_output m)"
  shows "tiled (put_guard k ((gm_guard m k)\<lparr>sg_checked := length s, sg_running := None\<rparr>)
    (m\<lparr>gm_passed := gm_passed m @ [(k, gm_generation m, drop c s)]\<rparr>))"
proof -
  obtain u where u: "gm_output m = s @ u" using assms(4) by (auto simp: prefix_def)
  have "take c (gm_output m) @ drop c s = s" using assms(3) u by simp
  then show ?thesis using assms(1,2,3) u by (auto simp: tiled_def put_guard_def passed_text_def)
qed

lemma tiled_stopped: "tiled m \<Longrightarrow> tiled (put_guard k ((gm_guard m k)\<lparr>sg_running := None\<rparr>) m)"
  by (auto simp: tiled_def put_guard_def passed_text_def)

lemma tiled_judged:
  assumes "tiled m" "sg_running (gm_guard m k) = Some (g, c, s)"
  shows "tiled (check_stopped k (judged k (g, c, s) verdict m))"
proof (cases "g = gm_generation m \<and> verdict = None")
  case True
  have "c = sg_checked (gm_guard m k)" "c \<le> length s" "prefix s (gm_output m)" using assms True by (auto simp: tiled_def)
  then have "tiled (put_guard k ((gm_guard m k)\<lparr>sg_checked := length s, sg_running := None\<rparr>)
      (m\<lparr>gm_passed := gm_passed m @ [(k, gm_generation m, drop c s)]\<rparr>))"
    by (rule tiled_passed [OF assms(1)])
  then show ?thesis using True by (simp add: judged_def check_stopped_def check_passed_def put_guard_def)
next
  case False
  then have "tiled (judged k (g, c, s) verdict m)" using assms(1) tiled_fails by (auto simp: judged_def split: option.split)
  then show ?thesis unfolding check_stopped_def by (rule tiled_stopped)
qed

lemma tiled_again: "tiled m \<Longrightarrow> tiled (check_again k g m)"
  by (simp add: check_again_def tiled_start tiled_ensure)

lemma note_ended_simps [simp]:
  "tiled (note_ended k g verdict m) = tiled m" "gm_guard (note_ended k g verdict m) = gm_guard m"
  "gm_output (note_ended k g verdict m) = gm_output m" "gm_failure (note_ended k g verdict m) = gm_failure m"
  "gm_generation (note_ended k g verdict m) = gm_generation m"
  by (simp_all add: note_ended_def tiled_def passed_text_def)

lemma tiled_check_ends: "tiled m \<Longrightarrow> tiled (check_ends k verdict m)"
  unfolding check_ends_def by (cases "sg_running (gm_guard m k)") (auto intro!: tiled_again tiled_judged)

section \<open>Runs of a monitor\<close>

datatype monitor_op = Observe string | ResetOutput | TimerDue nat | CheckEnds nat "string option"

definition monitor_apply :: "monitor_op \<Rightarrow> guardrail_monitor \<Rightarrow> guardrail_monitor" where
  "monitor_apply op m =
     (case op of
        Observe delta \<Rightarrow> observe_text_delta delta m
      | ResetOutput \<Rightarrow> reset_monitor m
      | TimerDue k \<Rightarrow> timer_due k m
      | CheckEnds k verdict \<Rightarrow> check_ends k verdict m)"

lemma tiled_apply: "tiled m \<Longrightarrow> tiled (monitor_apply op m)"
  by (cases op) (simp_all add: monitor_apply_def tiled_observe tiled_reset tiled_check_ends timer_due_def tiled_start tiled_put_timer)

lemma tiled_run: "tiled (fold monitor_apply ops (new_monitor configs))"
proof -
  have "tiled (new_monitor configs)" by (simp add: tiled_def new_monitor_def new_stream_guard_def passed_text_def)
  then show ?thesis by (induction ops rule: rev_induct) (simp_all add: tiled_apply)
qed

lemma put_guard_output [simp]: "gm_output (put_guard k g m) = gm_output m"
  by (simp add: put_guard_def)

lemma ensure_output [simp]: "gm_output (ensure_timer k m) = gm_output m"
  by (simp add: ensure_timer_def Let_def)

lemma start_output [simp]: "gm_output (start_check k force m) = gm_output m"
  by (simp add: start_check_def Let_def)

lemma judged_output [simp]: "gm_output (judged k check verdict m) = gm_output m"
  by (simp add: judged_def check_passed_def monitor_fails_def clear_timers_def split: option.split prod.split)

lemma check_ends_output: "gm_output (check_ends k verdict m) = gm_output m"
  by (simp add: check_ends_def check_again_def check_stopped_def split: option.split)

lemma ends_output: "gm_output (fold (\<lambda>(k, verdict). check_ends k verdict) ends m) = gm_output m"
  by (induction ends arbitrary: m) (simp_all add: check_ends_output split: prod.split)

lemma tiled_ends: "tiled m \<Longrightarrow> tiled (fold (\<lambda>(k, verdict). check_ends k verdict) ends m)"
  by (induction ends arbitrary: m) (simp_all add: tiled_check_ends split: prod.split)

lemma tiled_finish: "tiled m \<Longrightarrow> prefix (gm_output m) out \<Longrightarrow> tiled (finish_begin out m)"
proof -
  assume "tiled m" "prefix (gm_output m) out"
  then have "tiled (m\<lparr>gm_output := out\<rparr>)" by (rule tiled_more_output)
  then have "tiled (m\<lparr>gm_finishing := True, gm_output := out\<rparr>)" by (simp add: tiled_def passed_text_def)
  then show ?thesis unfolding finish_begin_def by (rule tiled_clear)
qed

text \<open>A tripwire is never forgotten: a check that trips in the attempt it belongs to makes the monitor fail for good.\<close>

definition trips_kept :: "guardrail_monitor \<Rightarrow> bool" where
  "trips_kept m \<longleftrightarrow> (\<forall>(k, started, ended, verdict) \<in> set (gm_ended m). started = ended \<and> verdict \<noteq> None \<longrightarrow> gm_failure m \<noteq> None)"

lemma trips_kept_same: "trips_kept m \<Longrightarrow> gm_ended m' = gm_ended m \<Longrightarrow> gm_failure m' = gm_failure m \<Longrightarrow> trips_kept m'"
  by (simp add: trips_kept_def)

lemma put_guard_ended [simp]: "gm_ended (put_guard k g m) = gm_ended m" "gm_failure (put_guard k g m) = gm_failure m"
  by (simp_all add: put_guard_def)

lemma ensure_ended [simp]: "gm_ended (ensure_timer k m) = gm_ended m" "gm_failure (ensure_timer k m) = gm_failure m"
  by (simp_all add: ensure_timer_def Let_def)

lemma start_ended [simp]: "gm_ended (start_check k force m) = gm_ended m" "gm_failure (start_check k force m) = gm_failure m"
  by (simp_all add: start_check_def Let_def)

lemma again_ended [simp]: "gm_ended (check_again k g m) = gm_ended m" "gm_failure (check_again k g m) = gm_failure m"
  by (simp_all add: check_again_def)

lemma observe_ended: "gm_ended (observe_text_delta delta m) = gm_ended m \<and> gm_failure (observe_text_delta delta m) = gm_failure m"
proof -
  have "gm_ended (fold check_or_wait ks x) = gm_ended x \<and> gm_failure (fold check_or_wait ks x) = gm_failure x" for ks x
    by (induction ks arbitrary: x) (simp_all add: check_or_wait_def)
  then show ?thesis by (simp add: observe_text_delta_def)
qed

lemma check_ends_kept: "trips_kept m \<Longrightarrow> trips_kept (check_ends k verdict m)"
proof (cases "sg_running (gm_guard m k)")
  case (Some check)
  assume kept: "trips_kept m"
  obtain g c s where check: "check = (g, c, s)" by (cases check)
  let ?m = "judged k check verdict (note_ended k g verdict m)"
  have ended: "gm_ended ?m = gm_ended m @ [(k, g, gm_generation m, verdict)]"
    by (simp add: judged_def check check_passed_def monitor_fails_def clear_timers_def note_ended_def split: option.split)
  have old: "gm_failure ?m \<noteq> None" if "gm_failure m \<noteq> None"
    using that by (simp add: judged_def check check_passed_def monitor_fails_def split: option.split)
  have new: "gm_failure ?m \<noteq> None" if "g = gm_generation m" "verdict \<noteq> None"
    using that by (auto simp: judged_def check monitor_fails_def clear_timers_def)
  have "trips_kept ?m" using kept old new unfolding trips_kept_def ended by fastforce
  then show ?thesis
    by (rule trips_kept_same) (simp_all add: check_ends_def Some check check_stopped_def)
qed (simp add: check_ends_def)

lemma trips_kept_apply: "trips_kept m \<Longrightarrow> trips_kept (monitor_apply op m)"
  by (cases op) (auto simp: monitor_apply_def observe_ended reset_monitor_def timer_due_def check_ends_kept intro: trips_kept_same)

lemma trips_kept_run: "trips_kept (fold monitor_apply ops (new_monitor configs))"
proof -
  have "trips_kept (new_monitor configs)" by (simp add: trips_kept_def new_monitor_def)
  then show ?thesis by (induction ops rule: rev_induct) (simp_all add: trips_kept_apply)
qed

lemma trips_kept_ends: "trips_kept m \<Longrightarrow> trips_kept (fold (\<lambda>(k, verdict). check_ends k verdict) ends m)"
  by (induction ends arbitrary: m) (simp_all add: check_ends_kept split: prod.split)

lemma final_checks_pass:
  "final_checks execute gs m = Inr m' \<Longrightarrow> distinct (List.map_filter snd gs) \<Longrightarrow>
     gm_output m' = gm_output m \<and>
     (\<forall>(i, position) \<in> set gs. execute i (gm_output m) (drop (case position of Some k \<Rightarrow> sg_checked (gm_guard m k) | None \<Rightarrow> 0) (gm_output m)) = None)"
proof (induction gs arbitrary: m)
  case (Cons g gs)
  obtain i position where g: "g = (i, position)" by (cases g)
  let ?covered = "case position of Some k \<Rightarrow> sg_checked (gm_guard m k) | None \<Rightarrow> 0"
  let ?m1 = "case position of Some k \<Rightarrow> check_passed k (length (gm_output m)) (drop ?covered (gm_output m)) m | None \<Rightarrow> m"
  have ex: "execute i (gm_output m) (drop ?covered (gm_output m)) = None" and rest: "final_checks execute gs ?m1 = Inr m'"
    using Cons.prems(1) g by (auto simp: Let_def split: option.splits)
  have out: "gm_output ?m1 = gm_output m" by (simp add: check_passed_def put_guard_def split: option.split)
  have d: "distinct (List.map_filter snd gs)" using Cons.prems(2) g by (cases position) (simp_all add: map_filter_simps)
  have same: "sg_checked (gm_guard ?m1 j) = sg_checked (gm_guard m j)" if "(h, Some j) \<in> set gs" for h j
  proof -
    have "j \<in> set (List.map_filter snd gs)" using that by (force simp: map_filter_def)
    then have "position \<noteq> Some j" using Cons.prems(2) g by (auto simp: map_filter_simps split: option.splits)
    then show ?thesis by (auto simp: check_passed_def put_guard_def split: option.split)
  qed
  show ?case using Cons.IH [OF rest d] ex out same g by (fastforce split: option.splits)
qed simp

text \<open>
  C34. A step whose output the guardrails let through: however text, retries, timers and checks followed each other, when
  the final check ends well then every check that ended within the attempt it was started in had passed, and every
  guardrail was shown the whole output and let it pass. If moreover the output extends the text that streamed, then for
  each guardrail that checks while the output streams, what it let pass before, piece by piece, and what it was shown
  as new in the end make up the output without gap or overlap. (A hook may rewrite the message before the final
  check: see \<open>rewritten_start_is_not_new\<close>.)
\<close>

theorem output_fully_checked:
  assumes "distinct (List.map_filter snd guardrails)"
    "m = fold (\<lambda>(k, verdict). check_ends k verdict) ends (finish_begin out (fold monitor_apply ops (new_monitor configs)))"
    "finish_end True execute guardrails order m = Inr m'"
  shows "(\<forall>(k, started, ended, verdict) \<in> set (gm_ended m). started = ended \<longrightarrow> verdict = None) \<and>
    (\<forall>(i, position) \<in> set guardrails. \<exists>covered. execute i out (drop covered out) = None \<and> (position = None \<longrightarrow> covered = 0) \<and>
       (prefix (gm_output (fold monitor_apply ops (new_monitor configs))) out \<longrightarrow>
          covered \<le> length out \<and> (\<forall>k. position = Some k \<longrightarrow> passed_text k m @ drop covered out = out)))"
proof -
  have out: "gm_output m = out" unfolding assms(2) ends_output by (simp add: finish_begin_def clear_timers_def)
  have none: "gm_failure m = None" and final: "final_checks execute guardrails m = Inr m'"
    using assms(3) by (auto simp: finish_end_def split: option.splits)
  have "trips_kept (finish_begin out (fold monitor_apply ops (new_monitor configs)))"
    by (rule trips_kept_same [OF trips_kept_run [of ops configs]]) (simp_all add: finish_begin_def clear_timers_def)
  then have "trips_kept m" unfolding assms(2) by (rule trips_kept_ends)
  then have passed: "\<forall>(k, started, ended, verdict) \<in> set (gm_ended m). started = ended \<longrightarrow> verdict = None"
    using none by (fastforce simp: trips_kept_def)
  have pieces: "passed_text k m @ drop (sg_checked (gm_guard m k)) out = out" "sg_checked (gm_guard m k) \<le> length out"
    if "prefix (gm_output (fold monitor_apply ops (new_monitor configs))) out" for k
  proof -
    have "tiled m" unfolding assms(2) using tiled_finish [OF tiled_run that] by (rule tiled_ends)
    then have k: "passed_text k m = take (sg_checked (gm_guard m k)) (gm_output m)" "sg_checked (gm_guard m k) \<le> length (gm_output m)"
      unfolding tiled_def by blast+
    then show "passed_text k m @ drop (sg_checked (gm_guard m k)) out = out" "sg_checked (gm_guard m k) \<le> length out"
      using out by simp_all
  qed
  have covers: "\<exists>covered. execute i out (drop covered out) = None \<and> (position = None \<longrightarrow> covered = 0) \<and>
       (prefix (gm_output (fold monitor_apply ops (new_monitor configs))) out \<longrightarrow>
          covered \<le> length out \<and> (\<forall>k. position = Some k \<longrightarrow> passed_text k m @ drop covered out = out))"
    if "(i, position) \<in> set guardrails" for i position
  proof -
    have e: "execute i out (drop (case position of Some k \<Rightarrow> sg_checked (gm_guard m k) | None \<Rightarrow> 0) out) = None"
      using final_checks_pass [OF final assms(1)] that out by auto
    show ?thesis
    proof (cases position)
      case None
      then show ?thesis using e by (intro exI [of _ 0]) simp
    next
      case (Some k)
      then show ?thesis using e pieces [of k] by (intro exI [of _ "sg_checked (gm_guard m k)"]) simp
    qed
  qed
  then show ?thesis using passed by (intro conjI ballI) (simp_all add: split_beta)
qed

text \<open>One check passes, one of an attempt given up trips too late, one passes while the step finishes.\<close>

lemma output_fully_checked_witness:
  "let execute = (\<lambda>i out delta. None);
       m = fold (\<lambda>(k, verdict). check_ends k verdict) [(0, None)]
         (finish_begin ''abcdef'' (fold monitor_apply [Observe ''xyz'', ResetOutput, CheckEnds 0 (Some ''bad''), Observe ''abcd''] (new_monitor [(Some 2, None)]))) in
     (\<exists>m'. finish_end True execute [(0, Some 0)] [] m = Inr m') \<and>
       gm_ended m = [(0, 0, 1, Some ''bad''), (0, 1, 1, None)] \<and> passed_text 0 m = ''abcd'' \<and>
       (\<exists>covered \<le> length ''abcdef''. passed_text 0 m @ drop covered ''abcdef'' = ''abcdef'')"
proof -
  let ?e = "\<lambda>i out delta. None :: string option"
  let ?r = "fold monitor_apply [Observe ''xyz'', ResetOutput, CheckEnds 0 (Some ''bad''), Observe ''abcd''] (new_monitor [(Some 2, None)])"
  define m where "m = fold (\<lambda>(k, verdict). check_ends k verdict) [(0, None)] (finish_begin ''abcdef'' ?r)"
  note run = monitor_apply_def observe_text_delta_def check_or_wait_def start_check_def check_ends_def judged_def check_stopped_def
    check_again_def check_passed_def put_guard_def new_monitor_def new_stream_guard_def positive_or_def non_negative_or_def finish_begin_def
    clear_timers_def passed_text_def reset_monitor_def note_ended_def ensure_timer_def Let_def
  have out: "prefix (gm_output ?r) ''abcdef''" by (simp add: run)
  have m: "passed_text 0 m = ''abcd''" "gm_failure m = None" "gm_ended m = [(0, 0, 1, Some ''bad''), (0, 1, 1, None)]"
    by (simp_all add: m_def run)
  have "\<exists>m'. finish_end True ?e [(0, Some 0)] [] m = Inr m'" using m(2) by (simp add: finish_end_def Let_def)
  then obtain m' where fin: "finish_end True ?e [(0, Some 0)] [] m = Inr m'" by blast
  have "distinct (List.map_filter snd [(0 :: nat, Some (0 :: nat))])" by (simp add: map_filter_simps)
  then have "\<exists>covered \<le> length ''abcdef''. passed_text 0 m @ drop covered ''abcdef'' = ''abcdef''"
    using conjunct2 [OF output_fully_checked [OF _ m_def fin]] out by auto
  then show ?thesis unfolding Let_def m_def [symmetric] using fin m by blast
qed

text \<open>
  A hook rewrites the message after its first half passed: the final check is shown the whole of the new text,
  but as new only its second half, although nothing of the new text was checked before.
\<close>

lemma rewritten_start_is_not_new:
  "let m = finish_begin ''WXYZef'' (fold monitor_apply [Observe ''abcd'', CheckEnds 0 None] (new_monitor [(Some 2, None)]));
       delta_only = (\<lambda>i out delta. if CHR ''W'' \<in> set delta then Some ''bad'' else None) in
     passed_text 0 m = ''abcd'' \<and> (\<exists>m'. finish_end True delta_only [(0, Some 0)] [] m = Inr m' \<and> gm_output m' = ''WXYZef'')"
  by (simp add: monitor_apply_def observe_text_delta_def check_or_wait_def start_check_def check_ends_def judged_def check_stopped_def
    check_again_def check_passed_def put_guard_def new_monitor_def new_stream_guard_def positive_or_def non_negative_or_def finish_begin_def
    clear_timers_def passed_text_def note_ended_def ensure_timer_def finish_end_def Let_def)

text \<open>
  While a check of an earlier attempt is still running, what streams in the new attempt neither starts a check nor a
  timer; and when that check ends nothing does either. What came in stays unchecked until more comes, or the end.
\<close>

lemma stale_check_leaves_tail_unwatched:
  "let m = fold monitor_apply [Observe ''abcd'', ResetOutput, Observe ''wxyz'', CheckEnds 0 None] (new_monitor [(Some 2, Some 500)]) in
     gm_output m = ''wxyz'' \<and> sg_checked (gm_guard m 0) = 0 \<and> sg_running (gm_guard m 0) = None \<and> \<not> sg_timer (gm_guard m 0) \<and> gm_failure m = None"
  by (simp add: monitor_apply_def observe_text_delta_def check_or_wait_def start_check_def check_ends_def judged_def check_stopped_def check_again_def
      put_guard_def ensure_timer_def new_monitor_def new_stream_guard_def positive_or_def non_negative_or_def reset_monitor_def note_ended_def Let_def)

end
