(* ===== verification/Recovery.thy ===== *)
theory Recovery
  imports Conversation Background_Manager
begin

text \<open>
  What a request tells the model after a crash (\<open>agents-core/src/agent/recovery.ts\<close>): the calls of the last batch
  without a result, and for each of them the background task, the subagent or the workflow that it had started, found
  in the manager and in the log.
\<close>

record recovered_agent =
  ra_agent_id :: string
  ra_type :: string
  ra_address :: string

record recovered_workflow =
  rw_run_id :: string
  rw_address :: string
  rw_status :: "string option"

definition subagent_meta :: string where
  "subagent_meta = ''subagent_meta''"

definition workflow_journal_name :: string where
  "workflow_journal_name = ''wf_journal''"

section \<open>Unresolved calls\<close>

definition result_id :: "message \<Rightarrow> string option" where
  "result_id m = (case m of ToolResultMsg t \<Rightarrow> Some (tm_call_id t) | _ \<Rightarrow> None)"

text \<open>From the end of the history: the last message of the assistant; what was passed on the way are the messages after it.\<close>

fun last_batch :: "message list \<Rightarrow> message list \<Rightarrow> (assistant_message \<times> message list) option" where
  "last_batch [] later = None"
| "last_batch (m # ms) later =
     (case m of AssistantMsg a \<Rightarrow> Some (a, later) | _ \<Rightarrow> last_batch ms (m # later))"

definition unresolved_tail_calls :: "message list \<Rightarrow> tool_call list" where
  "unresolved_tail_calls ms =
     (case last_batch (rev ms) [] of
        None \<Rightarrow> []
      | Some (a, later) \<Rightarrow> filter (\<lambda>c. tc_id c \<notin> set (List.map_filter result_id later)) (assistant_tool_calls a))"

section \<open>What the log knows\<close>

definition entry_text :: "json \<Rightarrow> string \<Rightarrow> string option" where
  "entry_text data k = (case json_field k data of Some (JStr s) \<Rightarrow> if s \<noteq> [] then Some s else None | _ \<Rightarrow> None)"

record recovery_scan =
  rs_agents :: "(string, recovered_agent) jsmap"
  rs_workflows :: "(string, recovered_workflow) jsmap"
  rs_outcomes :: "(string, string) jsmap"

definition empty_recovery_scan :: recovery_scan where
  "empty_recovery_scan = \<lparr>rs_agents = [], rs_workflows = [], rs_outcomes = []\<rparr>"

text \<open>The call a record belongs to, if it is one of those asked for.\<close>

definition wanted_call :: "string \<Rightarrow> string list \<Rightarrow> json \<Rightarrow> string option" where
  "wanted_call parent wanted data =
     (case entry_text data ''parentToolCallId'' of
        Some c \<Rightarrow> if c \<in> set wanted \<and> entry_text data ''parentAddress'' = Some parent then Some c else None
      | None \<Rightarrow> None)"

definition record_address :: "string \<Rightarrow> agent_record \<Rightarrow> string" where
  "record_address absent r = (case rec_address r of Some a \<Rightarrow> a | None \<Rightarrow> absent)"

definition note_agent :: "string \<Rightarrow> string list \<Rightarrow> agent_record \<Rightarrow> json \<Rightarrow> recovery_scan \<Rightarrow> recovery_scan" where
  "note_agent parent wanted r data s =
     (case (wanted_call parent wanted data, entry_text data ''agentId'', entry_text data ''type'') of
        (Some c, Some a, Some t) \<Rightarrow>
          s\<lparr>rs_agents := jset c \<lparr>ra_agent_id = a, ra_type = t, ra_address = record_address ''main'' r\<rparr> (rs_agents s)\<rparr>
      | _ \<Rightarrow> s)"

definition note_outcome :: "agent_record \<Rightarrow> json \<Rightarrow> recovery_scan \<Rightarrow> recovery_scan" where
  "note_outcome r data s =
     (case entry_text data ''status'' of
        Some st \<Rightarrow> s\<lparr>rs_outcomes := jset (record_address [] r) st (rs_outcomes s)\<rparr>
      | None \<Rightarrow> s)"

definition note_run :: "string \<Rightarrow> string list \<Rightarrow> agent_record \<Rightarrow> json \<Rightarrow> recovery_scan \<Rightarrow> recovery_scan" where
  "note_run parent wanted r data s =
     (case (wanted_call parent wanted data, entry_text data ''runId'') of
        (Some c, Some i) \<Rightarrow>
          s\<lparr>rs_workflows := jset c \<lparr>rw_run_id = i, rw_address = record_address [] r, rw_status = None\<rparr> (rs_workflows s)\<rparr>
      | _ \<Rightarrow> s)"

definition scan_recovery_record :: "string \<Rightarrow> string list \<Rightarrow> agent_record \<Rightarrow> recovery_scan \<Rightarrow> recovery_scan" where
  "scan_recovery_record parent wanted r s =
     (case rec_body r of
        RecCustom name data \<Rightarrow>
          if name = subagent_meta then note_agent parent wanted r data s
          else if name \<noteq> workflow_journal_name then s
          else if entry_text data ''type'' = Some ''outcome'' then note_outcome r data s
          else if entry_text data ''type'' = Some ''run'' then note_run parent wanted r data s
          else s
      | _ \<Rightarrow> s)"

definition with_outcome :: "(string, string) jsmap \<Rightarrow> recovered_workflow \<Rightarrow> recovered_workflow" where
  "with_outcome outcomes w = (case map_of outcomes (rw_address w) of Some st \<Rightarrow> w\<lparr>rw_status := Some st\<rparr> | None \<Rightarrow> w)"

definition find_durable_executions ::
  "agent_record list \<Rightarrow> string \<Rightarrow> string list \<Rightarrow> (string, recovered_agent) jsmap \<times> (string, recovered_workflow) jsmap" where
  "find_durable_executions records parent wanted =
     (if wanted = [] then ([], [])
      else let s = fold (scan_recovery_record parent wanted) records empty_recovery_scan in
        (rs_agents s, map (\<lambda>(c, w). (c, with_outcome (rs_outcomes s) w)) (rs_workflows s)))"

section \<open>What the request says\<close>

definition task_lines :: "task_info \<Rightarrow> string list" where
  "task_lines t =
     [''  recovered_task_id: '' @ ti_id t, ''  task_kind: '' @ detail_kind (ti_detail t), ''  persisted_status: '' @ status_name (ti_status t),
      ''  action: Inspect it with BackgroundOutput(task_id='' @ quote_mark @ ti_id t @ quote_mark @ '', block=false) before retrying or resuming anything.'']"

definition agent_lines :: "recovered_agent \<Rightarrow> string list" where
  "agent_lines a =
     [''  recovered_agent_id: '' @ ra_agent_id a, ''  subagent_type: '' @ ra_type a,
      ''  action: Continue the same durable subagent with Agent(resume='' @ quote_mark @ ra_agent_id a @ quote_mark @ '', prompt=...). Do not spawn a replacement unless continuation fails.'']"

definition workflow_lines :: "recovered_workflow \<Rightarrow> string list" where
  "workflow_lines w =
     [''  recovered_run_id: '' @ rw_run_id w] @ (case rw_status w of Some st \<Rightarrow> [''  journal_status: '' @ st] | None \<Rightarrow> []) @
     [''  action: Continue the same journaled run with Workflow(resumeFromRunId='' @ quote_mark @ rw_run_id w @ quote_mark @ '').'']"

definition unknown_lines :: "string list" where
  "unknown_lines =
     [''  recovered_execution: none'',
      ''  action: Execution status is unknown. Inspect likely side effects before deciding whether retrying is safe.'']"

definition call_lines ::
  "(string, task_info) jsmap \<Rightarrow> (string, recovered_agent) jsmap \<Rightarrow> (string, recovered_workflow) jsmap \<Rightarrow> tool_call \<Rightarrow> string list" where
  "call_lines background agents workflows c =
     [[], ''- tool_call_id: '' @ tc_id c, ''  tool: '' @ tc_name c] @
     (case map_of background (tc_id c) of
        Some t \<Rightarrow> task_lines t
      | None \<Rightarrow>
          (case map_of agents (tc_id c) of
             Some a \<Rightarrow> agent_lines a
           | None \<Rightarrow> (case map_of workflows (tc_id c) of Some w \<Rightarrow> workflow_lines w | None \<Rightarrow> unknown_lines)))"

definition recovery_lines :: "string list" where
  "recovery_lines =
     [''Recovery context: the previous process ended with an unresolved assistant tool-call batch.'',
      ''Pi will supply a synthetic error tool result for each missing result so the conversation can continue. Those synthetic results do not prove that execution never started; treat every call below independently.'']"

text \<open>The tasks of the calls, in a map that a repeated id writes twice.\<close>

definition background_of ::
  "(string \<Rightarrow> string \<Rightarrow> task_info option) option \<Rightarrow> string \<Rightarrow> tool_call list \<Rightarrow> (string, task_info) jsmap" where
  "background_of lookup address calls =
     fold (\<lambda>c m. case Option.bind lookup (\<lambda>f. f address (tc_id c)) of Some t \<Rightarrow> jset (tc_id c) t m | None \<Rightarrow> m) calls []"

text \<open>The system text of the request; \<open>lookup\<close> and \<open>store\<close> are absent when the run has none.\<close>

definition with_recovery_context ::
  "(string \<Rightarrow> string \<Rightarrow> task_info option) option \<Rightarrow> agent_record list option \<Rightarrow> string \<Rightarrow> message list \<Rightarrow> string option \<Rightarrow> string option" where
  "with_recovery_context lookup store address ms system =
     (let unresolved = unresolved_tail_calls ms in
      if unresolved = [] then system
      else
        let background = background_of lookup address unresolved;
            rest = filter (\<lambda>c. tc_id c \<notin> set (jkeys background)) unresolved;
            durable = (case store of None \<Rightarrow> ([], []) | Some records \<Rightarrow> find_durable_executions records address (map tc_id rest));
            reminder = join_lines (recovery_lines @ concat (map (call_lines background (fst durable) (snd durable)) unresolved))
        in Some (case system of
             Some s \<Rightarrow> if s = [] then reminder else s @ newline @ newline @ reminder
           | None \<Rightarrow> reminder))"

section \<open>The order of the log does not matter\<close>

definition is_meta_record :: "agent_record \<Rightarrow> bool" where
  "is_meta_record r \<longleftrightarrow> (case rec_body r of RecCustom name data \<Rightarrow> name = subagent_meta | _ \<Rightarrow> False)"

definition is_journal_record :: "string \<Rightarrow> agent_record \<Rightarrow> bool" where
  "is_journal_record k r \<longleftrightarrow>
     (case rec_body r of RecCustom name data \<Rightarrow> name = workflow_journal_name \<and> entry_text data ''type'' = Some k | _ \<Rightarrow> False)"

lemma note_frames:
  "rs_workflows (note_agent p w r d s) = rs_workflows s" "rs_outcomes (note_agent p w r d s) = rs_outcomes s"
  "rs_agents (note_outcome r d s) = rs_agents s" "rs_workflows (note_outcome r d s) = rs_workflows s"
  "rs_agents (note_run p w r d s) = rs_agents s" "rs_outcomes (note_run p w r d s) = rs_outcomes s"
  by (simp_all add: note_agent_def note_outcome_def note_run_def split: option.split)

lemma note_local:
  "rs_agents s1 = rs_agents s2 \<Longrightarrow> rs_agents (note_agent p w r d s1) = rs_agents (note_agent p w r d s2)"
  "rs_outcomes s1 = rs_outcomes s2 \<Longrightarrow> rs_outcomes (note_outcome r d s1) = rs_outcomes (note_outcome r d s2)"
  "rs_workflows s1 = rs_workflows s2 \<Longrightarrow> rs_workflows (note_run p w r d s1) = rs_workflows (note_run p w r d s2)"
  by (simp_all add: note_agent_def note_outcome_def note_run_def split: option.split)

lemma scan_cases:
  obtains (agent) d where "is_meta_record r" "\<And>s. scan_recovery_record p w r s = note_agent p w r d s"
    | (outcome) d where "is_journal_record ''outcome'' r" "\<And>s. scan_recovery_record p w r s = note_outcome r d s"
    | (run) d where "is_journal_record ''run'' r" "\<And>s. scan_recovery_record p w r s = note_run p w r d s"
    | (other) "\<And>s. scan_recovery_record p w r s = s"
proof (cases "\<exists>name d. rec_body r = RecCustom name d")
  case True
  then obtain name d where b: "rec_body r = RecCustom name d" by blast
  have step: "scan_recovery_record p w r s =
      (if name = subagent_meta then note_agent p w r d s
       else if name \<noteq> workflow_journal_name then s
       else if entry_text d ''type'' = Some ''outcome'' then note_outcome r d s
       else if entry_text d ''type'' = Some ''run'' then note_run p w r d s
       else s)" for s
    unfolding scan_recovery_record_def b by simp
  have kinds: "is_meta_record r \<longleftrightarrow> name = subagent_meta"
    "is_journal_record k r \<longleftrightarrow> name = workflow_journal_name \<and> entry_text d ''type'' = Some k" for k
    unfolding is_meta_record_def is_journal_record_def b by simp_all
  consider "name = subagent_meta" | "name \<noteq> subagent_meta" "name = workflow_journal_name" "entry_text d ''type'' = Some ''outcome''"
    | "name \<noteq> subagent_meta" "name = workflow_journal_name" "entry_text d ''type'' \<noteq> Some ''outcome''" "entry_text d ''type'' = Some ''run''"
    | "name \<noteq> subagent_meta" "name \<noteq> workflow_journal_name \<or> entry_text d ''type'' \<noteq> Some ''outcome'' \<and> entry_text d ''type'' \<noteq> Some ''run''"
    by blast
  then show thesis
  proof cases
    case 1
    show thesis by (rule agent [of d]) (use 1 step kinds in simp_all)
  next
    case 2
    show thesis by (rule outcome [of d]) (use 2 step kinds in simp_all)
  next
    case 3
    show thesis by (rule run [of d]) (use 3 step kinds in simp_all)
  next
    case 4
    show thesis by (rule other) (use 4 step in auto)
  qed
next
  case False
  then have "scan_recovery_record p w r s = s" for s unfolding scan_recovery_record_def by (cases "rec_body r") auto
  then show thesis by (rule other)
qed

lemma scan_local_agents: "rs_agents s1 = rs_agents s2 \<Longrightarrow> rs_agents (scan_recovery_record p w r s1) = rs_agents (scan_recovery_record p w r s2)"
  by (rule scan_cases [where r = r and p = p and w = w]) (auto simp: note_frames intro: note_local)

lemma scan_local_workflows: "rs_workflows s1 = rs_workflows s2 \<Longrightarrow> rs_workflows (scan_recovery_record p w r s1) = rs_workflows (scan_recovery_record p w r s2)"
  by (rule scan_cases [where r = r and p = p and w = w]) (auto simp: note_frames intro: note_local)

lemma scan_local_outcomes: "rs_outcomes s1 = rs_outcomes s2 \<Longrightarrow> rs_outcomes (scan_recovery_record p w r s1) = rs_outcomes (scan_recovery_record p w r s2)"
  by (rule scan_cases [where r = r and p = p and w = w]) (auto simp: note_frames intro: note_local)

lemma scan_frame_agents: "\<not> is_meta_record r \<Longrightarrow> rs_agents (scan_recovery_record p w r s) = rs_agents s"
  by (rule scan_cases [where r = r and p = p and w = w]) (auto simp: note_frames)

lemma scan_frame_workflows: "\<not> is_journal_record ''run'' r \<Longrightarrow> rs_workflows (scan_recovery_record p w r s) = rs_workflows s"
  by (rule scan_cases [where r = r and p = p and w = w]) (auto simp: note_frames)

lemma scan_frame_outcomes: "\<not> is_journal_record ''outcome'' r \<Longrightarrow> rs_outcomes (scan_recovery_record p w r s) = rs_outcomes s"
  by (rule scan_cases [where r = r and p = p and w = w]) (auto simp: note_frames)

text \<open>A fold read through one of its fields, which only some records change and which depends on nothing else.\<close>

lemma fold_field:
  assumes "\<And>r s1 s2. view s1 = view s2 \<Longrightarrow> view (f r s1) = view (f r s2)" "\<And>r s. \<not> P r \<Longrightarrow> view (f r s) = view s"
  shows "view (fold f rs s) = view (fold f (filter P rs) s)"
proof (induction rs arbitrary: s)
  case (Cons r rs)
  have dep: "view (fold f qs s1) = view (fold f qs s2)" if "view s1 = view s2" for qs s1 s2
    using that
  proof (induction qs arbitrary: s1 s2)
    case (Cons q qs)
    show ?case using Cons.IH [OF assms(1) [OF Cons.prems]] by simp
  qed simp
  show ?case
  proof (cases "P r")
    case True
    then show ?thesis using Cons.IH by simp
  next
    case False
    then show ?thesis using Cons.IH [of s] dep [OF assms(2)] by simp
  qed
qed simp

lemmas scan_agents = fold_field [where view = rs_agents and f = "scan_recovery_record p w" and P = is_meta_record for p w, OF scan_local_agents scan_frame_agents]
lemmas scan_workflows = fold_field [where view = rs_workflows and f = "scan_recovery_record p w" and P = "is_journal_record ''run''" for p w, OF scan_local_workflows scan_frame_workflows]
lemmas scan_outcomes = fold_field [where view = rs_outcomes and f = "scan_recovery_record p w" and P = "is_journal_record ''outcome''" for p w, OF scan_local_outcomes scan_frame_outcomes]

text \<open>
  C30. The recovery context does not depend on how a store orders the log: two logs that agree on the order of the
  records of subagents, on that of the starts of workflows and on that of their outcomes, however the three are
  interleaved with each other and with everything else, give the same text.
\<close>

theorem recovery_ignores_interleaving:
  assumes "filter is_meta_record rs = filter is_meta_record rs'" "filter (is_journal_record ''run'') rs = filter (is_journal_record ''run'') rs'"
    "filter (is_journal_record ''outcome'') rs = filter (is_journal_record ''outcome'') rs'"
  shows "with_recovery_context lookup (Some rs) address ms system = with_recovery_context lookup (Some rs') address ms system"
proof -
  have "find_durable_executions rs p w = find_durable_executions rs' p w" for p w
    using assms scan_agents [of p w rs] scan_agents [of p w rs'] scan_workflows [of p w rs] scan_workflows [of p w rs']
      scan_outcomes [of p w rs] scan_outcomes [of p w rs']
    by (simp add: find_durable_executions_def Let_def)
  then show ?thesis by (simp add: with_recovery_context_def Let_def)
qed

definition run_record :: agent_record where
  "run_record = \<lparr>rec_time = None, rec_address = Some ''wf/1'', rec_body = RecCustom workflow_journal_name
     (JObj [(''type'', JStr ''run''), (''parentToolCallId'', JStr ''c1''), (''parentAddress'', JStr ''main''), (''runId'', JStr ''r1'')])\<rparr>"

definition outcome_record :: agent_record where
  "outcome_record = \<lparr>rec_time = None, rec_address = Some ''wf/1'', rec_body = RecCustom workflow_journal_name
     (JObj [(''type'', JStr ''outcome''), (''status'', JStr ''failed'')])\<rparr>"

definition cut_off_message :: message where
  "cut_off_message = AssistantMsg \<lparr>am_content = [ToolCallPart \<lparr>tc_id = ''c1'', tc_name = ''Workflow'', tc_arguments = JNull\<rparr>],
     am_stop_reason = StopToolUse, am_error_message = None, am_usage = \<lparr>us_input = 0, us_output = 0, us_cache_read = 0, us_cache_write = 0\<rparr>\<rparr>"

lemma recovery_ignores_interleaving_witness:
  "with_recovery_context None (Some [outcome_record, run_record]) ''main'' [cut_off_message] None =
     with_recovery_context None (Some [run_record, outcome_record]) ''main'' [cut_off_message] None \<and>
   find_durable_executions [outcome_record, run_record] ''main'' [''c1''] =
     ([], [(''c1'', \<lparr>rw_run_id = ''r1'', rw_address = ''wf/1'', rw_status = Some ''failed''\<rparr>)])"
proof
  have k: "\<not> is_meta_record run_record" "\<not> is_meta_record outcome_record" "is_journal_record ''run'' run_record"
    "\<not> is_journal_record ''run'' outcome_record" "\<not> is_journal_record ''outcome'' run_record" "is_journal_record ''outcome'' outcome_record"
    by code_simp+
  show "with_recovery_context None (Some [outcome_record, run_record]) ''main'' [cut_off_message] None =
     with_recovery_context None (Some [run_record, outcome_record]) ''main'' [cut_off_message] None"
    by (rule recovery_ignores_interleaving) (simp_all add: k)
  show "find_durable_executions [outcome_record, run_record] ''main'' [''c1''] =
     ([], [(''c1'', \<lparr>rw_run_id = ''r1'', rw_address = ''wf/1'', rw_status = Some ''failed''\<rparr>)])"
    by code_simp
qed

end
