(* ===== verification/Resume_Runs.thy ===== *)
theory Resume_Runs
  imports Interruption
begin

text \<open>
  Runs of one session against its store (\<open>agents-core/src/agent/runner.ts\<close>: \<open>withLease\<close>,
  \<open>execute\<close>, \<open>resume\<close>; \<open>agents-core/src/agent/session.ts\<close>: \<open>withRunLock\<close>). Each run is a
  process with a stage; between two awaits of its own any step of another run may happen, so the
  reading of the persisted state and the writing of the merged one are separate steps.

  A run goes through the lock chain of the \<open>Session\<close> object it uses. Runs that use different
  objects share the store's cell but not the chain. With a lock configured (\<open>RunnerConfig.lock\<close>)
  a run that comes while another holds the session's lease is refused; that a lease is not lost
  while its run lasts is part of the model (what happens to leases is modelled in the theory of
  the session lock).
\<close>

section \<open>State\<close>

datatype run_refusal =
    RefusedMerge interruption_error
  | RefusedBusy
  | RefusedCell interruption_error
  | RefusedInterrupted
  | RefusedStart

text \<open>
  \<open>Queued\<close>: waiting for the run lock or just given it; \<open>Admitted\<close>: the persisted state was read
  and allows the run; \<open>Running\<close>: the engine runs.
\<close>

datatype run_stage = Queued | Admitted | Running | Ended | Refused run_refusal

text \<open>A resume carries the caller's copy and the copy with the answers merged in.\<close>

datatype run_kind = FreshRun | ResumeRun interruption_state interruption_state

record session_run =
  sr_object :: nat
  sr_kind :: run_kind
  sr_stage :: run_stage

text \<open>
  \<open>ss_chain\<close> lists the runs that hold or wait for a run lock, in the order in which they came;
  \<open>ss_claims\<close> records which copies (id and revision) were replaced by a resume.
\<close>

record session_runs =
  ss_cell :: "interruption_state option"
  ss_lock :: bool
  ss_runs :: "session_run list"
  ss_chain :: "nat list"
  ss_claims :: "(string \<times> nat) list"

definition runs_new :: "bool \<Rightarrow> interruption_state option \<Rightarrow> session_runs" where
  "runs_new lock cell = \<lparr>ss_cell = cell, ss_lock = lock, ss_runs = [], ss_chain = [], ss_claims = []\<rparr>"

section \<open>Operations\<close>

text \<open>The run that holds the run lock of an object is the first of its chain.\<close>

definition lock_holder :: "nat \<Rightarrow> session_runs \<Rightarrow> nat option" where
  "lock_holder obj s = find (\<lambda>i. sr_object (ss_runs s ! i) = obj) (ss_chain s)"

definition holds_lock :: "nat \<Rightarrow> session_runs \<Rightarrow> bool" where
  "holds_lock i s \<longleftrightarrow> i < length (ss_runs s) \<and> lock_holder (sr_object (ss_runs s ! i)) s = Some i"

definition set_stage :: "nat \<Rightarrow> run_stage \<Rightarrow> session_runs \<Rightarrow> session_runs" where
  "set_stage i g s = s\<lparr>ss_runs := (ss_runs s)[i := (ss_runs s ! i)\<lparr>sr_stage := g\<rparr>]\<rparr>"

text \<open>\<open>release\<close>: the run leaves the chain for good.\<close>

definition leave_lock :: "nat \<Rightarrow> run_stage \<Rightarrow> session_runs \<Rightarrow> session_runs" where
  "leave_lock i g s = (set_stage i g s)\<lparr>ss_chain := remove1 i (ss_chain s)\<rparr>"

definition turned_away :: "nat \<Rightarrow> run_kind \<Rightarrow> run_refusal \<Rightarrow> session_runs \<Rightarrow> session_runs" where
  "turned_away obj k e s = s\<lparr>ss_runs := ss_runs s @ [\<lparr>sr_object = obj, sr_kind = k, sr_stage = Refused e\<rparr>]\<rparr>"

text \<open>\<open>withLease\<close>, then \<open>withRunLock\<close> up to \<open>await prev\<close>.\<close>

definition enter_run :: "nat \<Rightarrow> run_kind \<Rightarrow> session_runs \<Rightarrow> session_runs" where
  "enter_run obj k s =
     (if ss_lock s \<and> ss_chain s \<noteq> [] then turned_away obj k RefusedBusy s
      else s\<lparr>ss_runs := ss_runs s @ [\<lparr>sr_object = obj, sr_kind = k, sr_stage = Queued\<rparr>],
             ss_chain := ss_chain s @ [length (ss_runs s)]\<rparr>)"

text \<open>
  \<open>resume\<close> up to its \<open>withLease\<close>: the answers are merged into the caller's copy before anything
  is locked. \<^const>\<open>None\<close>: the call stack of \<open>flattenPendingInterrupts\<close> was exceeded.
\<close>

definition merge_answers ::
    "nat \<Rightarrow> nat \<Rightarrow> interruption_state \<Rightarrow> (string \<times> interrupt_answer) list
     \<Rightarrow> (interruption_error + interruption_state) option" where
  "merge_answers depth now parsed answers =
     (if map_of (is_frames parsed) (is_root parsed) = None then Some (Inl RootFrameMissing)
      else apply_interruption_answers depth now parsed answers)"

definition enter_resume ::
    "nat \<Rightarrow> nat \<Rightarrow> nat \<Rightarrow> interruption_state \<Rightarrow> (string \<times> interrupt_answer) list
     \<Rightarrow> session_runs \<Rightarrow> session_runs option" where
  "enter_resume obj depth now parsed answers s =
     (case merge_answers depth now parsed answers of
        None \<Rightarrow> None
      | Some (Inl e) \<Rightarrow> Some (turned_away obj (ResumeRun parsed parsed) (RefusedMerge e) s)
      | Some (Inr updated) \<Rightarrow> Some (enter_run obj (ResumeRun parsed updated) s))"

text \<open>
  \<open>getState\<close> of the holder and what it makes of the answer: a fresh prompt needs an empty cell, a
  resume one that still is the caller's copy.
\<close>

definition admission :: "run_kind \<Rightarrow> interruption_state option \<Rightarrow> run_refusal option" where
  "admission k cell =
     (case k of
        FreshRun \<Rightarrow> (case cell of None \<Rightarrow> None | Some _ \<Rightarrow> Some RefusedInterrupted)
      | ResumeRun parsed _ \<Rightarrow>
          (case cell of
             None \<Rightarrow> Some (RefusedCell NothingPersisted)
           | Some current \<Rightarrow>
               if is_id current \<noteq> is_id parsed \<or> is_revision current \<noteq> is_revision parsed
               then Some (RefusedCell StaleState) else None))"

definition read_cell :: "nat \<Rightarrow> session_runs \<Rightarrow> session_runs" where
  "read_cell i s =
     (case admission (sr_kind (ss_runs s ! i)) (ss_cell s) of
        Some e \<Rightarrow> leave_lock i (Refused e) s
      | None \<Rightarrow> set_stage i Admitted s)"

text \<open>After \<open>beginRun\<close>: a resume puts the merged state, and the engine starts.\<close>

definition start_engine :: "nat \<Rightarrow> session_runs \<Rightarrow> session_runs" where
  "start_engine i s =
     (case sr_kind (ss_runs s ! i) of
        FreshRun \<Rightarrow> set_stage i Running s
      | ResumeRun parsed updated \<Rightarrow>
          (set_stage i Running s)\<lparr>ss_cell := Some updated,
             ss_claims := ss_claims s @ [(is_id parsed, is_revision parsed)]\<rparr>)"

text \<open>
  How the run ends: its history cannot be read after the state was put (\<open>openFrameContext\<close>), the
  engine's result, which may be an interruption, or the engine's error.
\<close>

datatype engine_end = ContextThrew | EngineSettled | EngineInterrupted | EngineThrew

definition cell_after :: "run_kind \<Rightarrow> engine_end \<Rightarrow> nat \<Rightarrow> interruption_state option \<Rightarrow> interruption_state option" where
  "cell_after k e now cell =
     (case k of
        FreshRun \<Rightarrow> cell
      | ResumeRun _ _ \<Rightarrow>
          (case e of
             ContextThrew \<Rightarrow> cell
           | EngineSettled \<Rightarrow> resume_settled cell
           | EngineInterrupted \<Rightarrow> cell
           | EngineThrew \<Rightarrow> resume_failed now cell))"

definition end_engine :: "nat \<Rightarrow> engine_end \<Rightarrow> nat \<Rightarrow> session_runs \<Rightarrow> session_runs" where
  "end_engine i e now s =
     (leave_lock i Ended s)\<lparr>ss_cell := cell_after (sr_kind (ss_runs s ! i)) e now (ss_cell s)\<rparr>"

section \<open>Histories\<close>

datatype runner_event =
    EvRun nat
  | EvResume nat nat nat interruption_state "(string \<times> interrupt_answer) list"
  | EvGiveUp nat
  | EvRead nat
  | EvStart nat
  | EvPause nat string "message list" "pending_interrupt list" "tool_call_suspension list" run_frame string string nat
  | EvEnd nat engine_end nat

text \<open>
  A step, where it can happen. \<open>EvGiveUp\<close>: the run was cancelled while it was queued, or its
  start (\<open>beginRun\<close>, \<open>putState\<close>) threw before the state was replaced. \<open>EvPause\<close>: a frame of the
  running turn pauses (\<open>pauseRun\<close>).
\<close>

definition runner_step :: "runner_event \<Rightarrow> session_runs \<Rightarrow> session_runs option" where
  "runner_step e s =
     (case e of
        EvRun obj \<Rightarrow> Some (enter_run obj FreshRun s)
      | EvResume obj depth now parsed answers \<Rightarrow> enter_resume obj depth now parsed answers s
      | EvGiveUp i \<Rightarrow>
          if holds_lock i s \<and> (sr_stage (ss_runs s ! i) = Queued \<or> sr_stage (ss_runs s ! i) = Admitted)
          then Some (leave_lock i (Refused RefusedStart) s) else None
      | EvRead i \<Rightarrow>
          if holds_lock i s \<and> sr_stage (ss_runs s ! i) = Queued then Some (read_cell i s) else None
      | EvStart i \<Rightarrow>
          if holds_lock i s \<and> sr_stage (ss_runs s ! i) = Admitted then Some (start_engine i s) else None
      | EvPause i name messages pending suspensions state turn new_id now \<Rightarrow>
          if holds_lock i s \<and> sr_stage (ss_runs s ! i) = Running
          then (case pause_run name messages pending suspensions state turn new_id now (ss_cell s) of
                  Inl _ \<Rightarrow> None
                | Inr (st, cell) \<Rightarrow> Some (s\<lparr>ss_cell := cell\<rparr>))
          else None
      | EvEnd i en now \<Rightarrow>
          if holds_lock i s \<and> sr_stage (ss_runs s ! i) = Running then Some (end_engine i en now s) else None)"

fun runner_steps :: "runner_event list \<Rightarrow> session_runs \<Rightarrow> session_runs option" where
  "runner_steps [] s = Some s"
| "runner_steps (e # es) s =
     (case runner_step e s of None \<Rightarrow> None | Some s' \<Rightarrow> runner_steps es s')"

text \<open>The ids that a history draws for its pauses (\<open>randomUUID\<close>), and the objects it uses.\<close>

fun drawn_ids :: "runner_event list \<Rightarrow> string list" where
  "drawn_ids [] = []"
| "drawn_ids (EvPause _ _ _ _ _ _ _ new_id _ # es) = new_id # drawn_ids es"
| "drawn_ids (_ # es) = drawn_ids es"

definition event_object :: "runner_event \<Rightarrow> nat option" where
  "event_object e = (case e of EvRun obj \<Rightarrow> Some obj | EvResume obj _ _ _ _ \<Rightarrow> Some obj | _ \<Rightarrow> None)"

definition cell_ids :: "interruption_state option \<Rightarrow> string list" where
  "cell_ids cell = (case cell of None \<Rightarrow> [] | Some s \<Rightarrow> [is_id s])"


section \<open>What is claimed\<close>

text \<open>No copy was claimed twice, and the cell's revision is beyond every claimed one of its id.\<close>

definition claims_ok :: "string list \<Rightarrow> (string \<times> nat) list \<Rightarrow> interruption_state option \<Rightarrow> bool" where
  "claims_ok ids claims cell \<longleftrightarrow>
     distinct claims \<and> fst ` set claims \<subseteq> set ids
     \<and> (case cell of None \<Rightarrow> True
        | Some s \<Rightarrow> is_id s \<in> set ids \<and> (\<forall>r. (is_id s, r) \<in> set claims \<longrightarrow> r < is_revision s))"

lemma pause_run_cell:
  "pause_run name messages pending suspensions state turn new_id now cell = Inr (st, cell') \<Longrightarrow>
     cell' = cell \<or> (\<exists>s. cell' = Some s \<and> is_id s = new_id)"
  by (auto simp: pause_run_def reify_def Let_def split: option.splits sum.splits if_splits)

section \<open>At most one run holds the lock\<close>

definition sole :: "nat \<Rightarrow> session_runs \<Rightarrow> bool" where
  "sole obj s \<longleftrightarrow>
     (ss_lock s \<longrightarrow> length (ss_chain s) \<le> 1)
     \<and> (\<not> ss_lock s \<longrightarrow> (\<forall>r \<in> set (ss_runs s). sr_object r = obj))"

lemma find_SomeD: "find P xs = Some x \<Longrightarrow> x \<in> set xs \<and> P x"
  by (induction xs) (auto split: if_splits)

lemma holder_unique:
  assumes "sole obj s" "holds_lock i s" "holds_lock j s"
  shows "i = j"
proof -
  have c: "i \<in> set (ss_chain s)" "j \<in> set (ss_chain s)"
    using assms(2,3) by (auto simp: holds_lock_def lock_holder_def dest: find_SomeD)
  show ?thesis
  proof (cases "length (ss_chain s) \<le> 1")
    case True
    with c show ?thesis by (cases "ss_chain s") auto
  next
    case False
    then have "sr_object (ss_runs s ! i) = sr_object (ss_runs s ! j)"
      using assms by (simp add: sole_def holds_lock_def)
    with assms(2,3) show ?thesis by (simp add: holds_lock_def)
  qed
qed

lemma runs_set_stage [simp]:
  "length (ss_runs (set_stage i g s)) = length (ss_runs s)"
  "ss_chain (set_stage i g s) = ss_chain s" "ss_cell (set_stage i g s) = ss_cell s"
  "ss_claims (set_stage i g s) = ss_claims s" "ss_lock (set_stage i g s) = ss_lock s"
  "length (ss_runs (leave_lock i g s)) = length (ss_runs s)"
  "ss_chain (leave_lock i g s) = remove1 i (ss_chain s)" "ss_cell (leave_lock i g s) = ss_cell s"
  "ss_claims (leave_lock i g s) = ss_claims s" "ss_lock (leave_lock i g s) = ss_lock s"
  by (simp_all add: set_stage_def leave_lock_def)

lemma nth_set_stage [simp]:
  "i < length (ss_runs s) \<Longrightarrow>
     ss_runs (set_stage i g s) ! j = (if j = i then (ss_runs s ! i)\<lparr>sr_stage := g\<rparr> else ss_runs s ! j)"
  "i < length (ss_runs s) \<Longrightarrow>
     ss_runs (leave_lock i g s) ! j = (if j = i then (ss_runs s ! i)\<lparr>sr_stage := g\<rparr> else ss_runs s ! j)"
  by (auto simp: set_stage_def leave_lock_def nth_list_update)

lemma object_set_stage:
  "i < length (ss_runs s) \<Longrightarrow> sr_object (ss_runs (set_stage i g s) ! k) = sr_object (ss_runs s ! k)"
  by simp

lemma holds_set_stage [simp]: "i < length (ss_runs s) \<Longrightarrow> holds_lock j (set_stage i g s) = holds_lock j s"
  by (simp only: holds_lock_def lock_holder_def object_set_stage runs_set_stage)

lemma find_append_Some: "find P xs = Some x \<Longrightarrow> find P (xs @ ys) = Some x"
  by (induction xs) auto

lemma find_cong_on: "(\<And>x. x \<in> set xs \<Longrightarrow> P x = Q x) \<Longrightarrow> find P xs = find Q xs"
  by (induction xs) auto

lemma sole_set_stage [simp]: "i < length (ss_runs s) \<Longrightarrow> sole obj s \<Longrightarrow> sole obj (set_stage i g s)"
  by (auto simp: sole_def set_stage_def dest!: set_update_subset_insert [THEN subsetD])

lemma sole_leave_lock [simp]: "i < length (ss_runs s) \<Longrightarrow> sole obj s \<Longrightarrow> sole obj (leave_lock i g s)"
  using sole_set_stage [of i s obj g] by (auto simp: sole_def leave_lock_def length_remove1)

text \<open>
  What holds of a run: the merged copy is the next revision of the caller's; a run that has been
  admitted holds the lock, and the cell still is what it read.
\<close>

definition run_ok :: "session_runs \<Rightarrow> nat \<Rightarrow> bool" where
  "run_ok s i \<longleftrightarrow>
     (case sr_kind (ss_runs s ! i) of
        FreshRun \<Rightarrow> sr_stage (ss_runs s ! i) = Admitted \<longrightarrow> holds_lock i s
      | ResumeRun parsed updated \<Rightarrow>
          (sr_stage (ss_runs s ! i) \<in> {Queued, Admitted} \<longrightarrow>
             is_id updated = is_id parsed \<and> is_revision updated = Suc (is_revision parsed))
          \<and> (sr_stage (ss_runs s ! i) = Admitted \<longrightarrow>
               holds_lock i s \<and> admission (ResumeRun parsed updated) (ss_cell s) = None))"

definition chain_ok :: "session_runs \<Rightarrow> bool" where
  "chain_ok s \<longleftrightarrow> (\<forall>i \<in> set (ss_chain s). i < length (ss_runs s))"

definition runs_ok :: "nat \<Rightarrow> string list \<Rightarrow> session_runs \<Rightarrow> bool" where
  "runs_ok obj ids s \<longleftrightarrow>
     sole obj s \<and> chain_ok s \<and> claims_ok ids (ss_claims s) (ss_cell s)
     \<and> (\<forall>i < length (ss_runs s). run_ok s i)"

lemma runs_okD:
  assumes "runs_ok obj ids s"
  shows "sole obj s" "chain_ok s" "claims_ok ids (ss_claims s) (ss_cell s)"
    "i < length (ss_runs s) \<Longrightarrow> run_ok s i"
  using assms by (auto simp: runs_ok_def)

lemma admitted_holds: "run_ok s i \<Longrightarrow> sr_stage (ss_runs s ! i) = Admitted \<Longrightarrow> holds_lock i s"
  by (auto simp: run_ok_def split: run_kind.splits)

text \<open>A run that is not the holder is not admitted, so what the holder does to the cell is none of its business.\<close>

lemma others_ok:
  assumes "runs_ok obj ids s" "holds_lock i s" "j < length (ss_runs s)" "j \<noteq> i"
    and "ss_runs s' ! j = ss_runs s ! j"
  shows "run_ok s' j"
proof -
  have ok: "run_ok s j" using assms(1,3) by (simp add: runs_ok_def)
  then have "sr_stage (ss_runs s ! j) \<noteq> Admitted"
    using admitted_holds holder_unique [OF runs_okD(1) [OF assms(1)] assms(2)] assms(4) by blast
  with ok assms(5) show ?thesis by (auto simp: run_ok_def split: run_kind.splits)
qed

lemma chain_ok_leave [simp]: "chain_ok s \<Longrightarrow> chain_ok (leave_lock i g s)"
  by (auto simp: chain_ok_def dest: set_remove1_subset [THEN subsetD])

lemma runs_ok_leave:
  assumes "runs_ok obj ids s" "holds_lock i s" "g = Ended \<or> (\<exists>e. g = Refused e)"
    and "claims_ok ids (ss_claims s) cell"
  shows "runs_ok obj ids ((leave_lock i g s)\<lparr>ss_cell := cell\<rparr>)"
proof -
  let ?s = "(leave_lock i g s)\<lparr>ss_cell := cell\<rparr>"
  have i: "i < length (ss_runs s)" using assms(2) by (simp add: holds_lock_def)
  have "run_ok ?s j" if "j < length (ss_runs s)" for j
  proof (cases "j = i")
    case True
    then show ?thesis using assms(3) i by (auto simp: run_ok_def split: run_kind.splits)
  next
    case False
    then show ?thesis using others_ok [OF assms(1,2) that False, of ?s] i by simp
  qed
  moreover have "sole obj ?s" "chain_ok ?s"
    using sole_leave_lock [OF i runs_okD(1) [OF assms(1)], of g] chain_ok_leave [OF runs_okD(2) [OF assms(1)], of i g]
    by (simp_all add: sole_def chain_ok_def)
  ultimately show ?thesis using assms(4) by (simp add: runs_ok_def)
qed

lemma runs_ok_leave_same:
  "runs_ok obj ids s \<Longrightarrow> holds_lock i s \<Longrightarrow> runs_ok obj ids (leave_lock i (Refused e) s)"
  using runs_ok_leave [of obj ids s i "Refused e" "ss_cell s"] runs_okD(3) [of obj ids s]
  by (simp add: leave_lock_def set_stage_def)

lemma runs_ok_read:
  assumes "runs_ok obj ids s" "holds_lock i s" "sr_stage (ss_runs s ! i) = Queued"
  shows "runs_ok obj ids (read_cell i s)"
proof (cases "admission (sr_kind (ss_runs s ! i)) (ss_cell s)")
  case None
  let ?s = "set_stage i Admitted s"
  have i: "i < length (ss_runs s)" using assms(2) by (simp add: holds_lock_def)
  have "run_ok ?s j" if j: "j < length (ss_runs s)" for j
  proof (cases "j = i")
    case True
    then show ?thesis using runs_okD(4) [OF assms(1) i] assms(2,3) None i
      by (auto simp: run_ok_def split: run_kind.splits)
  next
    case False
    then show ?thesis using others_ok [OF assms(1,2) j False, of ?s] i by simp
  qed
  moreover have "chain_ok ?s" using runs_okD(2) [OF assms(1)] by (simp add: chain_ok_def)
  ultimately show ?thesis using None i runs_okD(1,3) [OF assms(1)]
    by (simp add: runs_ok_def read_cell_def)
qed (simp add: read_cell_def runs_ok_leave_same assms)

lemma runs_ok_start:
  assumes "runs_ok obj ids s" "holds_lock i s" "sr_stage (ss_runs s ! i) = Admitted"
  shows "runs_ok obj ids (start_engine i s)"
proof -
  have i: "i < length (ss_runs s)" using assms(2) by (simp add: holds_lock_def)
  have chain: "chain_ok (start_engine i s)" "sole obj (start_engine i s)"
    using runs_okD(2) [OF assms(1)] sole_set_stage [OF i runs_okD(1) [OF assms(1)], of Running]
    by (auto simp: start_engine_def chain_ok_def sole_def split: run_kind.splits)
  have "run_ok (start_engine i s) j" if j: "j < length (ss_runs s)" for j
  proof (cases "j = i")
    case True
    then show ?thesis using i by (auto simp: run_ok_def start_engine_def split: run_kind.splits)
  next
    case False
    then show ?thesis using others_ok [OF assms(1,2) j False, of "start_engine i s"] i
      by (simp add: start_engine_def split: run_kind.splits)
  qed
  moreover have "claims_ok ids (ss_claims (start_engine i s)) (ss_cell (start_engine i s))"
    using runs_okD(3) [OF assms(1)] runs_okD(4) [OF assms(1) i] assms(3)
    by (auto simp: start_engine_def claims_ok_def run_ok_def admission_def less_Suc_eq
        split: run_kind.splits option.splits if_splits)
  moreover have "length (ss_runs (start_engine i s)) = length (ss_runs s)"
    by (simp add: start_engine_def split: run_kind.splits)
  ultimately show ?thesis using chain by (simp add: runs_ok_def)
qed

lemma claims_ok_cell_after:
  "claims_ok ids claims cell \<Longrightarrow> claims_ok ids claims (cell_after k e now cell)"
  by (auto simp: claims_ok_def cell_after_def resume_failed_def resume_settled_def less_Suc_eq
      split: run_kind.splits engine_end.splits option.splits)

lemma runs_ok_pause:
  assumes "runs_ok obj ids s" "holds_lock i s" "sr_stage (ss_runs s ! i) = Running" "new_id \<notin> set ids"
    and "pause_run name messages pending suspensions state turn new_id now (ss_cell s) = Inr (st, cell)"
  shows "runs_ok obj (new_id # ids) (s\<lparr>ss_cell := cell\<rparr>)"
proof -
  let ?s = "s\<lparr>ss_cell := cell\<rparr>"
  have "run_ok ?s j" if j: "j < length (ss_runs s)" for j
  proof (cases "j = i")
    case True
    then show ?thesis using runs_okD(4) [OF assms(1) j] assms(3) by (auto simp: run_ok_def split: run_kind.splits)
  next
    case False
    then show ?thesis using others_ok [OF assms(1,2) j False, of ?s] by simp
  qed
  moreover have "claims_ok (new_id # ids) (ss_claims s) cell"
  proof -
    have "(new_id, r) \<notin> set (ss_claims s)" for r
      using runs_okD(3) [OF assms(1)] assms(4) by (force simp: claims_ok_def)
    with runs_okD(3) [OF assms(1)] pause_run_cell [OF assms(5)] show ?thesis
      by (auto simp: claims_ok_def split: option.splits)
  qed
  ultimately show ?thesis using runs_okD(1,2) [OF assms(1)] by (simp add: runs_ok_def sole_def chain_ok_def)
qed

lemma runs_ok_away:
  assumes "runs_ok obj ids s" "ss_lock s \<or> obj' = obj"
  shows "runs_ok obj ids (turned_away obj' k e s)"
proof -
  let ?s = "turned_away obj' k e s"
  have same: "lock_holder ob ?s = lock_holder ob s" for ob
    using runs_okD(2) [OF assms(1)]
    by (auto simp: lock_holder_def turned_away_def chain_ok_def nth_append intro!: find_cong_on)
  have "run_ok ?s j" if j: "j < Suc (length (ss_runs s))" for j
    using runs_okD(4) [OF assms(1), of j] j same
    by (cases "j = length (ss_runs s)")
       (auto simp: run_ok_def turned_away_def holds_lock_def nth_append split: run_kind.splits)
  then show ?thesis using runs_okD(1-3) [OF assms(1)] assms(2)
    by (auto simp: runs_ok_def sole_def chain_ok_def turned_away_def)
qed

lemma holds_enter:
  assumes "chain_ok s" "j < length (ss_runs s)" "holds_lock j s"
  shows "holds_lock j (enter_run obj k s)"
proof -
  let ?s = "enter_run obj k s"
  have old: "ss_runs ?s ! i = ss_runs s ! i" if "i < length (ss_runs s)" for i
    using that by (auto simp: enter_run_def turned_away_def nth_append)
  have "find (\<lambda>i. sr_object (ss_runs ?s ! i) = ob) (ss_chain s) = find (\<lambda>i. sr_object (ss_runs s ! i) = ob) (ss_chain s)" for ob
    using assms(1) by (intro find_cong_on) (simp add: chain_ok_def old)
  moreover obtain ys where ys: "ss_chain ?s = ss_chain s @ ys" by (cases "ss_lock s \<and> ss_chain s \<noteq> []") (simp_all add: enter_run_def turned_away_def)
  ultimately have "lock_holder (sr_object (ss_runs s ! j)) ?s = Some j"
    using assms(3) by (simp only: holds_lock_def lock_holder_def ys find_append_Some)
  moreover have "length (ss_runs ?s) = Suc (length (ss_runs s))" by (simp add: enter_run_def turned_away_def)
  ultimately show ?thesis using assms(2) by (simp only: holds_lock_def old [OF assms(2)]) simp
qed

lemma runs_ok_enter:
  assumes "runs_ok obj ids s" "ss_lock s \<or> obj' = obj"
    and "\<And>p u. k = ResumeRun p u \<Longrightarrow> is_id u = is_id p \<and> is_revision u = Suc (is_revision p)"
  shows "runs_ok obj ids (enter_run obj' k s)"
proof (cases "ss_lock s \<and> ss_chain s \<noteq> []")
  case True
  then show ?thesis using runs_ok_away [OF assms(1,2)] by (simp add: enter_run_def)
next
  case False
  let ?s = "enter_run obj' k s"
  have old: "ss_runs ?s ! j = ss_runs s ! j" if "j < length (ss_runs s)" for j
    using that False by (auto simp: enter_run_def nth_append)
  have "run_ok ?s j" if j: "j < Suc (length (ss_runs s))" for j
  proof (cases "j = length (ss_runs s)")
    case True
    then have "ss_runs ?s ! j = \<lparr>sr_object = obj', sr_kind = k, sr_stage = Queued\<rparr>"
      unfolding True by (subst enter_run_def) (simp only: False if_False, simp)
    then show ?thesis using assms(3) [of "case k of ResumeRun p u \<Rightarrow> p" "case k of ResumeRun p u \<Rightarrow> u"]
      by (cases k) (simp_all add: run_ok_def)
  next
    case other: False
    with j have j': "j < length (ss_runs s)" by simp
    have "ss_cell ?s = ss_cell s" using False by (auto simp: enter_run_def)
    with runs_okD(4) [OF assms(1) j'] holds_enter [OF runs_okD(2) [OF assms(1)] j', of obj' k] old [OF j']
    show ?thesis by (auto simp: run_ok_def split: run_kind.splits)
  qed
  moreover have "sole obj ?s" "chain_ok ?s" "claims_ok ids (ss_claims ?s) (ss_cell ?s)"
    "length (ss_runs ?s) = Suc (length (ss_runs s))"
    using runs_okD(1-3) [OF assms(1)] assms(2) False
    by (auto simp: enter_run_def sole_def chain_ok_def)
  ultimately show ?thesis by (simp add: runs_ok_def)
qed

lemma runner_step_ok:
  assumes "runs_ok obj ids s" "runner_step e s = Some s'"
    and "ss_lock s \<or> event_object e \<in> {None, Some obj}" "distinct (drawn_ids [e])" "set (drawn_ids [e]) \<inter> set ids = {}"
  shows "runs_ok obj (drawn_ids [e] @ ids) s'"
proof (cases e)
  case (EvRun ob)
  then show ?thesis using assms runs_ok_enter [OF assms(1), of ob FreshRun] by (auto simp: runner_step_def event_object_def)
next
  case (EvResume ob depth now parsed answers)
  then show ?thesis
    using assms runs_ok_enter [OF assms(1), of ob] runs_ok_away [OF assms(1), of ob]
    by (auto simp: runner_step_def event_object_def enter_resume_def merge_answers_def
        split: option.splits sum.splits if_splits dest!: apply_answers_identity)
next
  case (EvGiveUp i)
  then show ?thesis using assms runs_ok_leave_same by (auto simp: runner_step_def split: if_splits)
next
  case (EvRead i)
  then show ?thesis using assms runs_ok_read by (auto simp: runner_step_def split: if_splits)
next
  case (EvStart i)
  then show ?thesis using assms runs_ok_start by (auto simp: runner_step_def split: if_splits)
next
  case (EvPause i name messages pending suspensions state turn new_id now)
  then show ?thesis using assms runs_ok_pause [OF assms(1), of i new_id]
    by (auto simp: runner_step_def split: if_splits sum.splits)
next
  case (EvEnd i en now)
  then show ?thesis
    using assms runs_ok_leave [OF assms(1), of i Ended] claims_ok_cell_after [OF runs_okD(3) [OF assms(1)]]
    by (auto simp: runner_step_def end_engine_def split: if_splits)
qed

lemma lock_never_changes: "runner_step e s = Some s' \<Longrightarrow> ss_lock s' = ss_lock s"
  by (auto simp: runner_step_def enter_run_def turned_away_def enter_resume_def read_cell_def start_engine_def
      end_engine_def leave_lock_def set_stage_def
      split: runner_event.splits option.splits sum.splits if_splits run_kind.splits)

lemma drawn_ids_Cons: "drawn_ids (e # es) = drawn_ids [e] @ drawn_ids es"
  by (cases e) simp_all

lemma runner_steps_ok:
  "runs_ok obj ids s \<Longrightarrow> runner_steps es s = Some s'
     \<Longrightarrow> ss_lock s \<or> (\<forall>e \<in> set es. event_object e \<in> {None, Some obj})
     \<Longrightarrow> distinct (drawn_ids es @ ids) \<Longrightarrow> \<exists>ids'. runs_ok obj ids' s'"
proof (induction es arbitrary: ids s)
  case (Cons e es)
  then obtain t where t: "runner_step e s = Some t" "runner_steps es t = Some s'"
    by (auto split: option.splits)
  have d: "distinct (drawn_ids [e] @ drawn_ids es @ ids)"
    using Cons.prems(4) drawn_ids_Cons [of e es] by simp
  then have "runs_ok obj (drawn_ids [e] @ ids) t"
    using runner_step_ok [OF Cons.prems(1) t(1)] Cons.prems(3) by auto
  moreover have "distinct (drawn_ids es @ drawn_ids [e] @ ids)" using d by auto
  ultimately show ?case using Cons.IH [OF _ t(2)] Cons.prems(3) lock_never_changes [OF t(1)] by auto
qed auto

lemma runs_ok_new: "runs_ok obj (cell_ids cell) (runs_new lock cell)"
  by (auto simp: runs_ok_def runs_new_def sole_def chain_ok_def claims_ok_def cell_ids_def split: option.splits)

text \<open>
  C5. The answers of an interruption are consumed at most once. Take any interleaving of prompts
  and resumes of one session, of what each of them reads and writes, and of pauses, failures and
  ends of the runs. If the runs use one \<open>Session\<close> object, or the runner has a lock whose leases
  are kept while their run lasts, no copy of a paused state (its id and revision) is ever resumed
  twice, whoever holds it and however the read of one resume falls between the read and the write
  of another. The ids drawn for pauses are random and so taken to be distinct.
\<close>

theorem interruption_resumed_at_most_once:
  assumes "runner_steps es (runs_new lock cell) = Some s"
    and "lock \<or> (\<forall>e \<in> set es. event_object e \<in> {None, Some obj})"
    and "distinct (drawn_ids es @ cell_ids cell)"
  shows "distinct (ss_claims s)"
proof -
  have "\<exists>ids'. runs_ok obj ids' s"
    by (rule runner_steps_ok [OF runs_ok_new assms(1) _ assms(3)]) (use assms(2) in \<open>simp add: runs_new_def\<close>)
  then show ?thesis by (auto simp: runs_ok_def claims_ok_def)
qed

section \<open>Two resumes of one copy\<close>

text \<open>
  Two resumes of the same copy: on one object the second is refused, on two objects without a
  lock both go through, as \<open>agents-core/src/test/e2e-stateless-server-2.ts\<close> says of prompts.
\<close>

definition both_resume :: "nat \<Rightarrow> nat \<Rightarrow> runner_event list" where
  "both_resume o1 o2 =
     [EvResume o1 1 6 demo_paused [(''f:c1'', AnswerInput (JNum 3))],
      EvResume o2 1 7 demo_paused [(''f:c1'', AnswerInput (JNum 4))]]"

definition serial_resumes :: "runner_event list" where
  "serial_resumes = both_resume 0 0 @
     [EvRead 0, EvStart 0,
      EvPause 0 ''A'' [AssistantMsg demo_assistant] [PendInput demo_input] [] demo_run_frame ''t'' ''m'' 8,
      EvEnd 0 EngineInterrupted 9, EvRead 1]"

definition racing_resumes :: "runner_event list" where
  "racing_resumes = both_resume 0 2 @ [EvRead 0, EvRead 1, EvStart 0, EvStart 1]"

lemmas runner_evals =
  runner_step_def holds_lock_def lock_holder_def read_cell_def admission_def start_engine_def set_stage_def
  leave_lock_def end_engine_def cell_after_def

definition demo_runs ::
    "interruption_state \<Rightarrow> nat \<Rightarrow> nat \<Rightarrow> interruption_state \<times> run_stage \<Rightarrow> interruption_state \<times> run_stage
     \<Rightarrow> nat list \<Rightarrow> (string \<times> nat) list \<Rightarrow> session_runs" where
  "demo_runs cell o1 o2 a b chain claims =
     \<lparr>ss_cell = Some cell, ss_lock = False,
      ss_runs = [\<lparr>sr_object = o1, sr_kind = ResumeRun demo_paused (fst a), sr_stage = snd a\<rparr>,
                 \<lparr>sr_object = o2, sr_kind = ResumeRun demo_paused (fst b), sr_stage = snd b\<rparr>],
      ss_chain = chain, ss_claims = claims\<rparr>"

lemma demo_paused_tag: "is_id demo_paused = ''n''" "is_revision demo_paused = Suc 0"
  by (simp_all add: demo_paused_def)

lemma demo_merge:
  "\<exists>u. merge_answers (Suc 0) now demo_paused [(''f:c1'', AnswerInput d)] = Some (Inr u)
     \<and> is_id u = ''n'' \<and> is_revision u = 2"
  by (simp add: merge_answers_def apply_interruption_answers_def flatten_pending_def demo_paused_def demo_input_def
        answer_target_def public_of_def approval_id_def answer_is_input_def)

lemma both_resume_entered:
  obtains u v where "is_id u = ''n''" "is_revision u = 2"
    "runner_steps (both_resume o1 o2) (runs_new False (Some demo_paused))
       = Some (demo_runs demo_paused o1 o2 (u, Queued) (v, Queued) [0, Suc 0] [])"
proof -
  obtain u v where m: "merge_answers (Suc 0) 6 demo_paused [(''f:c1'', AnswerInput (JNum 3))] = Some (Inr u)"
    "merge_answers (Suc 0) 7 demo_paused [(''f:c1'', AnswerInput (JNum 4))] = Some (Inr v)"
    and u: "is_id u = ''n''" "is_revision u = 2"
    using demo_merge by metis
  have "runner_steps (both_resume o1 o2) (runs_new False (Some demo_paused))
      = Some (demo_runs demo_paused o1 o2 (u, Queued) (v, Queued) [0, Suc 0] [])"
    by (simp add: both_resume_def runs_new_def runner_step_def enter_resume_def enter_run_def m demo_runs_def)
  with u that show thesis by blast
qed

lemma demo_first_reads:
  "runner_step (EvRead 0) (demo_runs demo_paused o1 o2 (u, Queued) b [0, Suc 0] [])
     = Some (demo_runs demo_paused o1 o2 (u, Admitted) b [0, Suc 0] [])"
  by (simp add: runner_evals demo_runs_def demo_paused_tag)

lemma demo_first_starts:
  "runner_step (EvStart 0) (demo_runs demo_paused o1 o2 (u, Admitted) b [0, Suc 0] [])
     = Some (demo_runs u o1 o2 (u, Running) b [0, Suc 0] [(''n'', Suc 0)])"
  by (simp add: runner_evals demo_runs_def demo_paused_tag)

lemma runner_steps_append:
  "runner_steps (es @ fs) s = Option.bind (runner_steps es s) (runner_steps fs)"
  by (induction es arbitrary: s) (auto split: option.split)

text \<open>On one object: the first resumes and pauses again, the second then finds another state.\<close>

lemma demo_pauses_again:
  "\<exists>st. is_id st = ''m'' \<and>
     runner_step (EvPause 0 ''A'' [AssistantMsg demo_assistant] [PendInput demo_input] [] demo_run_frame ''t'' ''m'' 8)
       (demo_runs u 0 0 (u, Running) b [0, Suc 0] claims)
     = Some (demo_runs st 0 0 (u, Running) b [0, Suc 0] claims)"
proof -
  have "\<exists>st. is_id st = ''m'' \<and>
    pause_run ''A'' [AssistantMsg demo_assistant] [PendInput demo_input] [] demo_run_frame ''t'' ''m'' 8 (Some u)
       = Inr (st, Some st)"
    by (simp add: pause_run_def last_assistant_def reify_def demo_assistant_def demo_input_def demo_run_frame_def
        interruption_anchor_def assistant_tool_calls_def map_filter_simps)
  then show ?thesis by (auto simp: runner_evals demo_runs_def)
qed

lemma demo_first_leaves:
  "runner_step (EvEnd 0 EngineInterrupted 9) (demo_runs st 0 0 (u, Running) b [0, Suc 0] claims)
     = Some (demo_runs st 0 0 (u, Ended) b [Suc 0] claims)"
  by (simp add: runner_evals demo_runs_def)

lemma demo_second_refused:
  "is_id st = ''m'' \<Longrightarrow>
   runner_step (EvRead (Suc 0)) (demo_runs st 0 0 (u, Ended) (v, Queued) [Suc 0] claims)
     = Some (demo_runs st 0 0 (u, Ended) (v, Refused (RefusedCell StaleState)) [] claims)"
  by (simp add: runner_evals demo_runs_def demo_paused_tag)

lemma serial_resumes_run:
  "\<exists>s. runner_steps serial_resumes (runs_new False (Some demo_paused)) = Some s
     \<and> ss_claims s = [(''n'', 1)] \<and> map sr_stage (ss_runs s) = [Ended, Refused (RefusedCell StaleState)]"
proof -
  obtain u v where e: "runner_steps (both_resume 0 0) (runs_new False (Some demo_paused))
      = Some (demo_runs demo_paused 0 0 (u, Queued) (v, Queued) [0, Suc 0] [])"
    by (rule both_resume_entered [of 0 0])
  obtain st where st: "is_id st = ''m''"
    "runner_step (EvPause 0 ''A'' [AssistantMsg demo_assistant] [PendInput demo_input] [] demo_run_frame ''t'' ''m'' 8)
       (demo_runs u 0 0 (u, Running) (v, Queued) [0, Suc 0] [(''n'', Suc 0)])
     = Some (demo_runs st 0 0 (u, Running) (v, Queued) [0, Suc 0] [(''n'', Suc 0)])"
    using demo_pauses_again by blast
  have "runner_steps serial_resumes (runs_new False (Some demo_paused))
      = Some (demo_runs st 0 0 (u, Ended) (v, Refused (RefusedCell StaleState)) [] [(''n'', Suc 0)])"
    by (simp add: serial_resumes_def runner_steps_append e demo_first_reads demo_first_starts st(2)
        demo_first_leaves demo_second_refused [OF st(1)])
  then show ?thesis by (simp add: demo_runs_def)
qed

lemma interruption_resumed_at_most_once_witness:
  "\<exists>s. runner_steps serial_resumes (runs_new False (Some demo_paused)) = Some s
     \<and> ss_claims s = [(''n'', 1)] \<and> map sr_stage (ss_runs s) = [Ended, Refused (RefusedCell StaleState)]
     \<and> distinct (ss_claims s)"
proof -
  obtain s where s: "runner_steps serial_resumes (runs_new False (Some demo_paused)) = Some s"
    "ss_claims s = [(''n'', 1)]" "map sr_stage (ss_runs s) = [Ended, Refused (RefusedCell StaleState)]"
    using serial_resumes_run by (elim exE conjE)
  have o: "False \<or> (\<forall>e \<in> set serial_resumes. event_object e \<in> {None, Some 0})"
    by (simp add: serial_resumes_def both_resume_def event_object_def)
  have d: "distinct (drawn_ids serial_resumes @ cell_ids (Some demo_paused))"
    by (simp add: serial_resumes_def both_resume_def cell_ids_def demo_paused_tag)
  have "distinct (ss_claims s)" by (rule interruption_resumed_at_most_once [OF s(1) o d])
  with s show ?thesis by (intro exI conjI)
qed

text \<open>Without a lock, and on two objects, both resumes of the one copy are let through.\<close>

theorem unlocked_objects_resume_twice:
  "\<exists>s. runner_steps racing_resumes (runs_new False (Some demo_paused)) = Some s
     \<and> ss_claims s = [(''n'', 1), (''n'', 1)] \<and> map sr_stage (ss_runs s) = [Running, Running]"
proof -
  obtain u v where e: "runner_steps (both_resume 0 2) (runs_new False (Some demo_paused))
      = Some (demo_runs demo_paused 0 2 (u, Queued) (v, Queued) [0, Suc 0] [])"
    by (rule both_resume_entered [of 0 2])
  have r: "runner_step (EvRead (Suc 0)) (demo_runs demo_paused 0 2 (u, Admitted) (v, Queued) [0, Suc 0] [])
      = Some (demo_runs demo_paused 0 2 (u, Admitted) (v, Admitted) [0, Suc 0] [])"
    "runner_step (EvStart (Suc 0)) (demo_runs u 0 2 (u, Running) (v, Admitted) [0, Suc 0] [(''n'', Suc 0)])
      = Some (demo_runs v 0 2 (u, Running) (v, Running) [0, Suc 0] [(''n'', Suc 0), (''n'', Suc 0)])"
    by (simp_all add: runner_evals demo_runs_def demo_paused_tag)
  have "runner_steps racing_resumes (runs_new False (Some demo_paused))
      = Some (demo_runs v 0 2 (u, Running) (v, Running) [0, Suc 0] [(''n'', Suc 0), (''n'', Suc 0)])"
    by (simp add: racing_resumes_def runner_steps_append e demo_first_reads demo_first_starts r)
  then show ?thesis by (simp add: demo_runs_def)
qed

end
