(* ===== verification/Spec2Isabelle.thy ===== *)
theory Spec2Isabelle
  imports Agent_Prelude Tool_Call Permission Bash_Read_Only Session_Lock Session_Work Log_Store
    Js_Regex Model_Retry Turn_Step Run_Turn Steer_Bus Spawn_Limit Projection Inbox Cron_Manager Workflow_Limits
    Background_Resend Background_Attach Compaction Goal_Store Bash_Paths Stdin_Buffer
    Idempotency Todo_List Guardrail Recovery Resume_Runs
begin

text \<open>
  A verification library for Operon, a TypeScript engine that runs language-model agents.

  \<^bold>\<open>The program.\<close> A session holds a conversation per frame (\<open>agents-core/src/loop/context.ts\<close>) and
  journals it to an append log (\<open>store/log-store.ts\<close>). A turn (\<open>loop/run-turn.ts\<close>) is a series of steps
  (\<open>loop/turn-step.ts\<close>): each asks the model, with retries (\<open>llm/retry.ts\<close>), and runs the batch of tool
  calls it returns (\<open>loop/tool-call.ts\<close>) on a scheduler that keeps conflicting calls apart
  (\<open>loop/scheduler.ts\<close>, \<open>tool/access.ts\<close>). Hooks that capabilities install are consulted on the way
  (\<open>agent/compose-hooks.ts\<close>); the permission manager (\<open>permission/\<close>) is one of them, with the analysis of
  shell commands and of paths under it. A call that needs a human pauses the turn: the frame's state is
  reified, persisted, and resumed with answers (\<open>loop/interruption.ts\<close>, \<open>agent/pause.ts\<close>). Messages from
  outside reach a running turn over a bus (\<open>loop/steer.ts\<close>); scheduled prompts are one source of them
  (\<open>agents/src/cron\<close>). A workflow is a script that spawns agents under a budget and can be resumed from its
  journal (\<open>agent/workflow\<close>). Commands, agents and workflows can run in the background
  (\<open>capabilities/background\<close>), their end being told over the bus. What happens is told as events, folded into the state a client sees
  (\<open>events/projection.ts\<close>). Several processes share sessions through leases (\<open>store/lock.ts\<close>,
  \<open>managed-agents/src/server/work-memory.ts\<close>) and work through the inbox that the log is
  (\<open>server/inbox.ts\<close>, \<open>server/session-worker.ts\<close>).

  \<^bold>\<open>The theories.\<close>
  \<^item> \<open>Agent_Prelude\<close>: insertion-ordered maps, calls that may throw, string functions of JavaScript.
    \<open>Js_Regex\<close>: a matcher for the regular expressions of the sources, proved against their languages.
  \<^item> \<open>Protocol\<close>: messages, tool calls, results.
  \<^item> \<open>Tool_Access\<close>, \<open>Tool_Scheduler\<close>: what a call touches, and the queue of a batch. Conflicting calls
    keep their order and never run together; every call can finish.
  \<^item> \<open>Loop_Hooks\<close>: the hooks and their composition.
  \<^item> \<open>Interruption\<close>: pausing, answering and resuming, each answer going to its call. \<open>Resume_Runs\<close>: the
    prompts and resumes of one session side by side, with their lock; each pause is resumed at most once, however
    they interleave, as long as the runs share the lock.
  \<^item> \<open>Tool_Call\<close>: a batch of calls from preparation to results; nested calls. What runs was authorized
    as it runs; every call is answered once; an aborted batch settles.
  \<^item> \<open>Model_Retry\<close>, \<open>Turn_Step\<close>, \<open>Run_Turn\<close>: asking the model, a step, a turn. The state of the
    world is a parameter \<open>'w\<close> that the model, the hooks, the tools and the sinks of events act on, so their
    order is that of the code. A turn with a bound on its steps ends, unless a batch of tools never settles; a message
    that arrives while it runs is taken in it; a client shows one attempt.
  \<^item> \<open>Lease_Interface\<close>, \<open>Session_Lock\<close>, \<open>Session_Work\<close>: leases and the work table. A superseded holder is
    told so.
  \<^item> \<open>Bash_Command\<close>, \<open>Bash_Paths\<close>, \<open>Bash_Read_Only\<close>, \<open>Path_Guard\<close>, \<open>Permission\<close>: what a shell command is
    and touches, and what may run unasked. The safety floor is about the accesses that a call declares; what
    commands do not declare shows in lemmas on examples.
  \<^item> \<open>Conversation\<close>, \<open>Log_Store\<close>: history, its records, the log and its readers; replay is the live history.
  \<^item> \<open>Steer_Bus\<close>: messages from outside a turn, their rendering and their queues. \<open>Spawn_Limit\<close>: the
    semaphore that limits spawned agents.
  \<^item> \<open>Projection\<close>: the fold of events and records into the state a client sees, checkpoints of a frame and
    the store that stamps them; folding a tail is folding the log.
  \<^item> \<open>Inbox\<close>: the inbox of a managed session and a worker's pass over it; its cursor skips nothing.
  \<^item> \<open>Date_Zone\<close>, \<open>Cron_Expr\<close>, \<open>Cron_Schedule\<close>, \<open>Cron_Manager\<close>: local time in a zone whose clock changes,
    expressions and their next run (the first matching minute as long as the clock does not change; it may lie in the
    past where an hour is repeated), jitter within its bounds, the scheduler's tick, and the registry it works on.
  \<^item> \<open>Workflow_Journal\<close>, \<open>Workflow_Run\<close>, \<open>Workflow_Resume\<close>, \<open>Workflow_Limits\<close>: the journal of a workflow and the
    hooks its script calls; a resumed run replays the unchanged prefix, and every run, nested ones too, keeps to its
    limits, each on its own account.
  \<^item> \<open>Byte_Window\<close>: windows over a growing log of UTF-8 bytes. \<open>Background_Task\<close>, \<open>Background_Manager\<close>: kinds of
    background tasks, their records and notices, and the manager. \<open>Background_Ledger\<close>, \<open>Background_Life\<close>,
    \<open>Background_Resend\<close>: what reopening tells, that a task which the process started settles and is told once, also
    when records are loaded and reconciled in between, and that what was told and not read is told again. \<open>Background_Attach\<close>: a command run in the foreground that can be detached, and the
    watch for a stuck one.
  \<^item> \<open>Compaction\<close>: thresholds, the choice of the cut, the summary with its retries and gates, the clearing of old
    results. The cut is the best one, and no call is parted from its results.
  \<^item> \<open>Goal_Store\<close>: the goal of a session and the driver that continues the agent within its budgets. \<open>Todo_List\<close>: the
    injectors of reminders, and the todo list of a frame with its sparse reminder.
  \<^item> \<open>Idempotency\<close>: retried messages of the managed service; one delivery of a key is in flight.
  \<^item> \<open>Guardrail\<close>: the checks of input and output and the monitor of streamed output; no tripwire
    is lost. \<open>Recovery\<close>: what a request says
    of the calls that a crash cut off.
  \<^item> \<open>Stdin_Buffer\<close>: the buffer of keyboard input of the terminal library and its timer; how the input is cut
    does not matter as long as the timer does not run out.

  \<^bold>\<open>Bounds and fuel.\<close> \<open>run_turn\<close> takes fuel for the unbounded loop of the code: more than the bound on steps
  plus two (the recoveries a turn may make) is enough, as \<open>bounded_turn_ends\<close> proves. Reading a log page by
  page needs fuel for its lines (lemmas \<open>pages_cover_the_log\<close>, \<open>last_turn_found\<close>). \<open>seek_run\<close> has no fuel: its
  argument is the cap on iterations that the code itself has, and \<open>next_run_is_first_match\<close> shows that it is
  not reached where the clock does not change. The scheduler's drain takes fuel because it does not end when a start throws.

  \<^bold>\<open>Not modelled.\<close> Adapters over code outside the repository (model providers, MCP, databases, sandboxes,
  the script interpreter), rendering of the terminal interface, output (telemetry, logging), and the
  assembly of long-lived objects (harness, runner, HTTP servers). Of what remains, the session
  service of the managed agents, peers, skills, plugins and user hooks, plan mode, the harness and the text layout and
  editing of the terminal library could be modelled in the same way, and have not been.
\<close>

end
